(* ===== verification/Prelude.thy ===== *)
theory Prelude
  imports Main "HOL-Library.Word" "HOL-Library.Monad_Syntax"
begin

text \<open>
  Shared vocabulary of the development: the machine integer types the crate uses, the
  convention for code that does not return normally, control flow values, and the generic
  facts on words, lists and little-endian bytes that several components need.

  Conventions.
  \<^item> Values read from or written to the wire keep their Rust width (\<open>u8\<close>, \<open>u32\<close>, \<open>u64\<close>).
  \<^item> Buffer indices (\<open>usize\<close>), construct widths and stream coordinates are natural numbers;
    theorems bound them, so that the machine arithmetic cannot wrap.
  \<^item> A Rust \<open>Result<T, E>\<close> is a sum \<open>'e + 't\<close> with \<open>Inl\<close> for \<open>Err\<close>.
  \<^item> An outer \<open>option\<close> whose \<open>None\<close> means "does not return normally" is wrapped around every
    function that contains an \<open>assert!\<close> or an \<open>unsafe\<close> access: \<open>None\<close> is a panic or undefined
    behaviour, and the safety theorems show that it is unreachable.
\<close>

unbundle bit_operations_syntax

section \<open>Types\<close>

type_synonym u8 = "8 word"
type_synonym u16 = "16 word"
type_synonym u32 = "32 word"
type_synonym u64 = "64 word"
type_synonym bytes = "u8 list"

text \<open>
  Signed integers share the bit patterns of the unsigned ones; \<open>sint\<close> reads them, and the
  arithmetic shift is \<open>signed_drop_bit\<close>. Rust's \<open>cast_signed\<close> and \<open>cast_unsigned\<close> are
  therefore the identity.
\<close>

type_synonym i32 = "32 word"
type_synonym i64 = "64 word"

text \<open>\<open>core::ops::ControlFlow\<close> of the standard library.\<close>

datatype ('b, 'c) control_flow = Break 'b | Continue 'c

definition u64_max :: nat where
  "u64_max = 2 ^ 64 - 1"

named_theorems width_bounds
named_theorems kernel_simps

section \<open>Words\<close>

lemma unat_ucast_le:
  fixes x :: "'a::len word"
  assumes "LENGTH('a) \<le> LENGTH('b::len)"
  shows "unat (ucast x :: 'b word) = unat x"
  using assms by (simp add: unsigned_ucast_eq take_bit_nat_eq_self less_le_trans [OF unsigned_less])

lemma unat_ucast_u8_u64 [simp]: "unat (ucast (b :: u8) :: u64) = unat b"
  by (rule unat_ucast_le) simp

lemma unat_ucast_u8_u32 [simp]: "unat (ucast (b :: u8) :: u32) = unat b"
  by (rule unat_ucast_le) simp

lemma unat_ucast_u32_u64 [simp]: "unat (ucast (b :: u32) :: u64) = unat b"
  by (rule unat_ucast_le) simp

lemma unat_u8_less [simp]: "unat (b :: u8) < 256"
  using unsigned_less [of b, where ?'a = nat] by simp

lemma unat_u32_less: "unat (w :: u32) < 4294967296"
  using unsigned_less [of w, where ?'a = nat] by simp

lemma unat_u64_less: "unat (w :: u64) < 18446744073709551616"
  using unsigned_less [of w, where ?'a = nat] by simp

lemma word_eq_unat_iff: "(x :: 'a::len word) = y \<longleftrightarrow> unat x = unat y"
  by (simp add: word_unat_eq_iff)

lemma word_of_nat_unat: "of_nat (unat w) = (w :: 'a::len word)"
  by simp

lemma unat_eq_of_nat_iff: "unat w = n \<longleftrightarrow> n < 2 ^ LENGTH('a) \<and> (w :: 'a::len word) = of_nat n"
proof
  assume "unat w = n"
  then show "n < 2 ^ LENGTH('a) \<and> w = of_nat n" using unsigned_less [of w, where ?'a = nat] by auto
qed (simp add: unat_of_nat)

lemma unat_ucast_down_less:
  fixes x :: "'a::len word"
  assumes "unat x < 2 ^ LENGTH('b::len)"
  shows "unat (ucast x :: 'b word) = unat x"
  using assms by (simp add: unsigned_ucast_eq take_bit_nat_eq_self)

lemma unat_push_bit_less:
  fixes x :: "'a::len word"
  assumes "unat x * 2 ^ n < 2 ^ LENGTH('a)"
  shows "unat (push_bit n x) = unat x * 2 ^ n"
proof -
  have "unat (push_bit n x) = take_bit LENGTH('a) (push_bit n (unat x))"
    by (rule unsigned_push_bit_eq)
  also have "push_bit n (unat x) = unat x * 2 ^ n" by (rule push_bit_eq_mult)
  finally show ?thesis using assms by (simp add: take_bit_nat_eq_self)
qed

lemma or_push_bit_nat:
  fixes v w :: nat
  assumes "v < 2 ^ n"
  shows "v OR push_bit n w = v + push_bit n w"
proof (rule disjunctive_add_eq_or [symmetric])
  have v: "take_bit n v = v" using assms by (simp add: take_bit_nat_eq_self)
  have "\<not> bit v m" if "n \<le> m" for m
    using bit_take_bit_iff [of n v m] v that by simp
  then show "v AND push_bit n w = 0"
    by (intro bit_eqI) (auto simp: bit_simps)
qed

text \<open>The accumulation step of every varint reader: a shifted group lands above the bits
  gathered so far, so the \<open>|=\<close> is an addition.\<close>

lemma unat_or_push:
  fixes v w :: "'a::len word"
  assumes "unat v < 2 ^ n" and "unat w * 2 ^ n < 2 ^ LENGTH('a)"
  shows "unat (v OR push_bit n w) = unat v + unat w * 2 ^ n"
  using or_push_bit_nat [OF assms(1), of "unat w"] unat_push_bit_less [OF assms(2)]
  by (simp add: unsigned_or_eq push_bit_eq_mult)

lemma unat_drop_bit: "unat (drop_bit n (w :: 'a::len word)) = unat w div 2 ^ n"
proof -
  have "unat (drop_bit n w) = drop_bit n (unat w)"
    by (simp add: unsigned_drop_bit_eq take_bit_nat_eq_self)
  then show ?thesis by (simp only: drop_bit_eq_div)
qed

lemma unat_take_bit: "unat (take_bit n (w :: 'a::len word)) = unat w mod 2 ^ n"
proof -
  have "unat (take_bit n w) = take_bit n (unat w)" by (rule unsigned_take_bit_eq)
  then show ?thesis by (simp only: take_bit_eq_mod)
qed

lemma unat_and_mask7: "unat ((w :: 'a::len word) AND 127) = unat w mod 128"
proof -
  have "(127 :: 'a word) = mask 7" by (simp add: mask_eq_exp_minus_1)
  then have "w AND 127 = take_bit 7 w" by (simp only: take_bit_eq_mask)
  then show ?thesis by (simp only: unat_take_bit) simp
qed

lemma unat_and_mask3: "unat ((w :: 'a::len word) AND 7) = unat w mod 8"
proof -
  have "(7 :: 'a word) = mask 3" by (simp add: mask_eq_exp_minus_1)
  then have "w AND 7 = take_bit 3 w" by (simp only: take_bit_eq_mask)
  then show ?thesis by (simp only: unat_take_bit) simp
qed

section \<open>Slices\<close>

text \<open>The Rust slice expression \<open>data[at..end]\<close>, for \<open>at \<le> end \<le> data.len()\<close>.\<close>

definition extent_of :: "'a list \<Rightarrow> nat \<Rightarrow> nat \<Rightarrow> 'a list" where
  "extent_of data at end = take (end - at) (drop at data)"

lemma length_extent_of [simp]: "end \<le> length data \<Longrightarrow> length (extent_of data at end) = end - at"
  by (simp add: extent_of_def)

lemma extent_of_nth [simp]: "at + i < end \<Longrightarrow> end \<le> length data \<Longrightarrow> extent_of data at end ! i = data ! (at + i)"
  by (simp add: extent_of_def)

lemma take_extent_of: "at + w \<le> end \<Longrightarrow> take w (extent_of data at end) = extent_of data at (at + w)"
proof -
  assume "at + w \<le> end"
  then have "w \<le> end - at" by arith
  then show ?thesis by (simp add: extent_of_def min_def)
qed

lemma extent_of_full: "extent_of data at (length data) = drop at data"
  by (simp add: extent_of_def)

lemma drop_extent_of: "at \<le> end \<Longrightarrow> drop at data = extent_of data at end @ drop end data"
  by (simp add: extent_of_def) (metis append_take_drop_id drop_drop le_add_diff_inverse2)

lemma extent_of_Cons:
  "at < end \<Longrightarrow> end \<le> length data \<Longrightarrow> extent_of data at end = data ! at # extent_of data (Suc at) end"
  by (simp add: extent_of_def Cons_nth_drop_Suc [symmetric] Suc_diff_le take_Cons')

lemma extent_of_empty: "end \<le> at \<Longrightarrow> extent_of data at end = []"
  by (simp add: extent_of_def)

end
