(* ===== verification/Varint_Spec.thy ===== *)
theory Varint_Spec
  imports Prelude
begin

text \<open>
  The abstract varint codec: what a base-128 little-endian encoding means, independent of any
  reader or writer of the crate. \<open>varint_nat\<close> is the number a byte string denotes, \<open>enc w v\<close>
  the spelling of \<open>v\<close> in exactly \<open>w\<close> bytes, \<open>well_formed\<close> the shape of one terminated
  construct, \<open>ref_read\<close> the reference reader with a window and a class-bounded terminal byte.
  The code's writers (theory \<open>Varint\<close>) and its three reading loops (theories \<open>Slice\<close> and
  \<open>Carry\<close>) are proved against these.
\<close>

definition cont :: "u8 \<Rightarrow> bool" where
  "cont b \<longleftrightarrow> 128 \<le> b"

lemma cont_unat: "cont b \<longleftrightarrow> 128 \<le> unat b"
  by (simp add: cont_def word_le_nat_alt)

lemma not_cont_less: "\<not> cont b \<longleftrightarrow> b < 128"
  by (auto simp: cont_def)

fun varint_nat :: "bytes \<Rightarrow> nat" where
  "varint_nat [] = 0"
| "varint_nat (b # bs) = unat b mod 128 + 128 * varint_nat bs"

fun enc :: "nat \<Rightarrow> nat \<Rightarrow> bytes" where
  "enc 0 v = []"
| "enc (Suc 0) v = [of_nat v]"
| "enc (Suc (Suc k)) v = of_nat (v mod 128 + 128) # enc (Suc k) (v div 128)"

definition well_formed :: "bytes \<Rightarrow> bool" where
  "well_formed bs \<longleftrightarrow> bs \<noteq> [] \<and> list_all cont (butlast bs) \<and> \<not> cont (last bs)"

lemma varint_nat_append: "varint_nat (xs @ ys) = varint_nat xs + 128 ^ length xs * varint_nat ys"
  by (induction xs) (simp_all add: algebra_simps)

lemma varint_nat_less: "varint_nat bs < 128 ^ length bs"
proof (induction bs)
  case (Cons b bs)
  have "unat b mod 128 < 128" by simp
  with Cons show ?case by simp
qed simp

lemma length_enc [simp]: "length (enc w v) = w"
  by (induction w v rule: enc.induct) simp_all

lemma unat_of_nat_u8: "n < 256 \<Longrightarrow> unat (of_nat n :: u8) = n"
  by (simp add: unat_of_nat)

lemma varint_nat_enc: "0 < w \<Longrightarrow> v < 128 ^ w \<Longrightarrow> varint_nat (enc w v) = v"
proof (induction w v rule: enc.induct)
  case (3 k v)
  then have "v div 128 < 128 ^ Suc k" by (simp add: div_less_iff_less_mult mult.commute)
  with 3 have IH: "varint_nat (enc (Suc k) (v div 128)) = v div 128" by simp
  have "unat (of_nat (v mod 128 + 128) :: u8) = v mod 128 + 128"
    by (rule unat_of_nat_u8) (use mod_less_divisor [of 128 v] in linarith)
  with IH show ?case by simp
qed (simp_all add: unat_of_nat_u8)

lemma well_formed_Cons: "bs \<noteq> [] \<Longrightarrow> well_formed (b # bs) \<longleftrightarrow> cont b \<and> well_formed bs"
  by (auto simp: well_formed_def)

lemma enc_Suc_nonempty: "enc (Suc k) v \<noteq> []"
  by (metis length_enc length_0_conv nat.simps(3))

lemma well_formed_enc: "0 < w \<Longrightarrow> v < 128 ^ w \<Longrightarrow> well_formed (enc w v)"
proof (induction w v rule: enc.induct)
  case (2 v)
  then show ?case by (simp add: well_formed_def cont_unat unat_of_nat_u8)
next
  case (3 k v)
  then have "v div 128 < 128 ^ Suc k" by (simp add: div_less_iff_less_mult mult.commute)
  with 3 have IH: "well_formed (enc (Suc k) (v div 128))" by simp
  have "unat (of_nat (v mod 128 + 128) :: u8) = v mod 128 + 128"
    by (rule unat_of_nat_u8) (use mod_less_divisor [of 128 v] in linarith)
  then have "cont (of_nat (v mod 128 + 128))" by (simp add: cont_unat)
  with IH show ?case by (simp add: well_formed_Cons enc_Suc_nonempty)
qed simp

text \<open>A terminated construct is the spelling of its own value at its own width: width and
  value determine the bytes.\<close>

lemma word_of_nat_unat_u8: "(of_nat (unat b) :: u8) = b"
  by (simp add: unat_of_nat_u8 word_eq_unat_iff)

lemma cont_split: "cont b \<Longrightarrow> unat b mod 128 + 128 = unat b"
proof -
  assume "cont b"
  then have b: "128 \<le> unat b" "unat b < 256" by (simp_all add: cont_unat)
  then have "unat b - 128 < 128" by linarith
  with b show ?thesis by (simp add: le_mod_geq)
qed

lemma enc_varint_nat: "well_formed bs \<Longrightarrow> enc (length bs) (varint_nat bs) = bs"
proof (induction bs)
  case (Cons b bs)
  show ?case
  proof (cases "bs = []")
    case True
    with Cons.prems have "unat b < 128" by (simp add: well_formed_def cont_unat)
    with True show ?thesis by simp
  next
    case False
    with Cons.prems have c: "cont b" and w: "well_formed bs" by (simp_all add: well_formed_Cons)
    obtain k where k: "length bs = Suc k" using False by (cases bs) auto
    have m: "(unat b mod 128 + 128 * varint_nat bs) mod 128 = unat b mod 128" by simp
    have d: "(unat b mod 128 + 128 * varint_nat bs) div 128 = varint_nat bs" by simp
    have "(of_nat (unat b mod 128 + 128) :: u8) = b" by (simp only: cont_split [OF c] word_of_nat_unat_u8)
    with k Cons.IH [OF w] show ?thesis by (simp add: m d del: mod_mult_self2 div_mult_self2 of_nat_add)
  qed
qed (simp add: well_formed_def)

lemma well_formed_inj:
  "well_formed bs \<Longrightarrow> well_formed cs \<Longrightarrow> length bs = length cs \<Longrightarrow>
   varint_nat bs = varint_nat cs \<Longrightarrow> bs = cs"
  by (metis enc_varint_nat)

section \<open>The reference reader\<close>

datatype verdict = VDone nat nat | VTruncated | VTooWide | VOutOfClass

text \<open>\<open>ref_step\<close> reads on from a construct whose first \<open>i\<close> bytes denoted \<open>v\<close>, with \<open>n\<close>
  bytes left in the window.\<close>

fun ref_step :: "u8 \<Rightarrow> nat \<Rightarrow> nat \<Rightarrow> nat \<Rightarrow> bytes \<Rightarrow> verdict" where
  "ref_step l 0 i v bs = VTooWide"
| "ref_step l (Suc n) i v [] = VTruncated"
| "ref_step l (Suc n) i v (b # bs) =
     (if cont b then ref_step l n (Suc i) (v + (unat b mod 128) * 128 ^ i) bs
      else if n = 0 \<and> l < b then VOutOfClass
      else VDone (v + unat b * 128 ^ i) (Suc i))"

definition ref_read :: "nat \<Rightarrow> u8 \<Rightarrow> bytes \<Rightarrow> verdict" where
  "ref_read cap l bs = ref_step l cap 0 0 bs"

lemma well_formed_single: "well_formed [b] \<longleftrightarrow> \<not> cont b"
  by (simp add: well_formed_def)

lemma ref_step_Done:
  "ref_step l n i v bs = VDone r w \<longleftrightarrow>
   (\<exists>k. w = i + k \<and> 0 < k \<and> k \<le> n \<and> k \<le> length bs \<and> well_formed (take k bs) \<and>
        r = v + varint_nat (take k bs) * 128 ^ i \<and>
        (k = n \<longrightarrow> \<not> l < bs ! (k - 1)))"
proof (induction l n i v bs rule: ref_step.induct)
  case (3 l n i v b bs)
  show ?case
  proof (cases "cont b")
    case True
    have w: "well_formed (b # take k bs) \<longleftrightarrow> 0 < k \<and> bs \<noteq> [] \<and> well_formed (take k bs)" for k
      using True by (cases "take k bs = []") (auto simp: well_formed_Cons well_formed_single)
    have r: "v + unat b mod 128 * 128 ^ i + x * 128 ^ Suc i =
        v + (unat b mod 128 + 128 * x) * 128 ^ i" for x
      by (simp add: algebra_simps)
    have "(\<exists>k. w = Suc i + k \<and> 0 < k \<and> k \<le> n \<and> k \<le> length bs \<and> well_formed (take k bs) \<and>
        r = v + unat b mod 128 * 128 ^ i + varint_nat (take k bs) * 128 ^ Suc i \<and>
        (k = n \<longrightarrow> \<not> l < bs ! (k - 1))) \<longleftrightarrow>
      (\<exists>k. w = i + k \<and> 0 < k \<and> k \<le> Suc n \<and> k \<le> length (b # bs) \<and>
        well_formed (take k (b # bs)) \<and>
        r = v + varint_nat (take k (b # bs)) * 128 ^ i \<and>
        (k = Suc n \<longrightarrow> \<not> l < (b # bs) ! (k - 1)))" (is "?L \<longleftrightarrow> ?R")
    proof
      assume ?L
      then obtain k where k: "w = Suc i + k" "0 < k" "k \<le> n" "k \<le> length bs"
        "well_formed (take k bs)"
        "r = v + unat b mod 128 * 128 ^ i + varint_nat (take k bs) * 128 ^ Suc i"
        "k = n \<longrightarrow> \<not> l < bs ! (k - 1)" by blast
      from k show ?R by (intro exI [of _ "Suc k"]) (auto simp: w algebra_simps nth_Cons')
    next
      assume ?R
      then obtain k where k: "w = i + k" "0 < k" "k \<le> Suc n" "k \<le> Suc (length bs)"
        "well_formed (take k (b # bs))"
        "r = v + varint_nat (take k (b # bs)) * 128 ^ i"
        "k = Suc n \<longrightarrow> \<not> l < (b # bs) ! (k - 1)" by auto
      from k(2) obtain j where j: "k = Suc j" by (cases k) auto
      from k(5) j have wf: "0 < j" "well_formed (take j bs)" by (simp_all add: w)
      from k j wf show ?L by (intro exI [of _ j]) (auto simp: algebra_simps nth_Cons')
    qed
    with True 3 show ?thesis by simp
  next
    case False
    have w: "well_formed (take k (b # bs)) \<and> 0 < k \<longleftrightarrow> k = 1" if "k \<le> length (b # bs)" for k
    proof (cases k)
      case (Suc j)
      then show ?thesis using False that
        by (cases "take j bs = []") (auto simp: well_formed_Cons well_formed_single)
    qed (simp add: well_formed_def)
    have m: "unat b mod 128 = unat b" using False by (simp add: cont_unat)
    have "(\<exists>k. w = i + k \<and> 0 < k \<and> k \<le> Suc n \<and> k \<le> length (b # bs) \<and>
        well_formed (take k (b # bs)) \<and>
        r = v + varint_nat (take k (b # bs)) * 128 ^ i \<and>
        (k = Suc n \<longrightarrow> \<not> l < (b # bs) ! (k - 1))) \<longleftrightarrow>
      w = Suc i \<and> r = v + unat b * 128 ^ i \<and> (n = 0 \<longrightarrow> \<not> l < b)" (is "?L \<longleftrightarrow> ?R")
    proof
      assume ?L
      then obtain k where k: "w = i + k" "0 < k" "k \<le> length (b # bs)"
        "well_formed (take k (b # bs))" "r = v + varint_nat (take k (b # bs)) * 128 ^ i"
        "k = Suc n \<longrightarrow> \<not> l < (b # bs) ! (k - 1)" by blast
      with w [OF k(3)] have "k = 1" by simp
      with k m show ?R by simp
    next
      assume ?R
      with w [of 1] m show ?L by (intro exI [of _ 1]) simp
    qed
    with False show ?thesis by auto
  qed
qed auto

lemma ref_step_Truncated:
  "ref_step l n i v bs = VTruncated \<longleftrightarrow> length bs < n \<and> list_all cont bs"
  by (induction l n i v bs rule: ref_step.induct) auto

lemma ref_step_TooWide:
  "ref_step l n i v bs = VTooWide \<longleftrightarrow> n \<le> length bs \<and> list_all cont (take n bs)"
  by (induction l n i v bs rule: ref_step.induct) auto

lemma well_formed_snoc: "well_formed (bs @ [b]) \<longleftrightarrow> list_all cont bs \<and> \<not> cont b"
  by (simp add: well_formed_def)

lemma well_formed_take_nth:
  "0 < n \<Longrightarrow> n \<le> length bs \<Longrightarrow>
   well_formed (take n bs) \<longleftrightarrow> list_all cont (take (n - 1) bs) \<and> \<not> cont (bs ! (n - 1))"
  by (cases n) (simp_all add: take_Suc_conv_app_nth well_formed_snoc)

lemma ref_step_OutOfClass:
  "ref_step l n i v bs = VOutOfClass \<longleftrightarrow>
   0 < n \<and> n \<le> length bs \<and> well_formed (take n bs) \<and> l < bs ! (n - 1)"
proof (induction l n i v bs rule: ref_step.induct)
  case (3 l n i v b bs)
  show ?case
  proof (cases "cont b")
    case True
    with 3 show ?thesis
      by (cases n; cases bs) (auto simp: well_formed_Cons well_formed_single)
  next
    case False
    then show ?thesis
      by (cases n; cases bs) (auto simp: well_formed_Cons well_formed_single)
  qed
qed auto

section \<open>The terminal class is the value range\<close>

lemma terminal_class:
  assumes "0 < n" and "n \<le> length bs" and "well_formed (take n bs)"
  shows "l < bs ! (n - 1) \<longleftrightarrow> (unat l + 1) * 128 ^ (n - 1) \<le> varint_nat (take n bs)"
proof -
  from assms obtain k where n: "n = Suc k" by (cases n) auto
  define b where "b = bs ! k"
  define p where "p = varint_nat (take k bs)"
  from assms n have t: "take n bs = take k bs @ [b]"
    by (simp add: take_Suc_conv_app_nth b_def)
  from assms n t have "unat b < 128" by (simp add: well_formed_snoc cont_unat)
  with t n assms have v: "varint_nat (take n bs) = p + 128 ^ k * unat b"
    by (simp add: varint_nat_append p_def)
  have p: "p < 128 ^ k" using varint_nat_less [of "take k bs"] n assms by (simp add: p_def)
  have "(unat l + 1) * 128 ^ k \<le> p + 128 ^ k * unat b \<longleftrightarrow> unat l + 1 \<le> unat b"
  proof
    assume a: "(unat l + 1) * 128 ^ k \<le> p + 128 ^ k * unat b"
    show "unat l + 1 \<le> unat b"
    proof (rule ccontr)
      assume "\<not> unat l + 1 \<le> unat b"
      then have "128 ^ k * unat b \<le> 128 ^ k * unat l" by (intro mult_le_mono2) simp
      moreover from a have "128 ^ k * unat l + 128 ^ k \<le> p + 128 ^ k * unat b"
        by (simp only: add_mult_distrib mult_1 mult.commute [of "unat l"])
      ultimately show False using p by linarith
    qed
  next
    assume "unat l + 1 \<le> unat b"
    then have "(unat l + 1) * 128 ^ k \<le> unat b * 128 ^ k" by (rule mult_le_mono1)
    then show "(unat l + 1) * 128 ^ k \<le> p + 128 ^ k * unat b"
      by (simp add: mult.commute)
  qed
  then show ?thesis using n v by (simp add: b_def word_less_nat_alt Suc_le_eq)
qed

text \<open>The characterisation of the reference reader: it accepts exactly the terminated
  constructs of the window whose value lies under the class bound, whatever their padding.\<close>

lemma ref_read_Done:
  assumes "0 < cap" 
  shows "ref_read cap l bs = VDone r w \<longleftrightarrow>
     0 < w \<and> w \<le> cap \<and> w \<le> length bs \<and> well_formed (take w bs) \<and>
     r = varint_nat (take w bs) \<and> r < (unat l + 1) * 128 ^ (cap - 1)"
proof -
  have "(w = cap \<longrightarrow> \<not> l < bs ! (w - 1)) \<longleftrightarrow> varint_nat (take w bs) < (unat l + 1) * 128 ^ (cap - 1)"
    if "0 < w" "w \<le> cap" "w \<le> length bs" "well_formed (take w bs)"
  proof (cases "w = cap")
    case True
    with terminal_class [OF that(1,3,4), of l] show ?thesis by (simp add: not_le)
  next
    case False
    have "varint_nat (take w bs) < 128 ^ w" using varint_nat_less [of "take w bs"] that by simp
    also have "(128 :: nat) ^ w \<le> 128 ^ (cap - 1)"
      using False that by (intro power_increasing) auto
    also have "\<dots> \<le> (unat l + 1) * 128 ^ (cap - 1)" by simp
    finally show ?thesis using False by simp
  qed
  then show ?thesis by (auto simp: ref_read_def ref_step_Done)
qed

lemma ref_read_OutOfClass:
  assumes "0 < cap"
  shows "ref_read cap l bs = VOutOfClass \<longleftrightarrow>
     cap \<le> length bs \<and> well_formed (take cap bs) \<and>
     (unat l + 1) * 128 ^ (cap - 1) \<le> varint_nat (take cap bs)"
  using terminal_class [OF assms, of bs l] assms
  by (auto simp: ref_read_def ref_step_OutOfClass)

section \<open>Reading in pieces\<close>

lemma ref_step_append:
  "ref_step l n i v (xs @ ys) =
     (if ref_step l n i v xs = VTruncated
      then ref_step l (n - length xs) (i + length xs) (v + varint_nat xs * 128 ^ i) ys
      else ref_step l n i v xs)"
proof (induction l n i v xs rule: ref_step.induct)
  case (3 l n i v b bs)
  then show ?case
    by (simp add: algebra_simps)
qed auto

lemma ref_read_append:
  "ref_read cap l xs \<noteq> VTruncated \<Longrightarrow> ref_read cap l (xs @ ys) = ref_read cap l xs"
  by (simp add: ref_read_def ref_step_append)

end
