(* ===== verification/Varint.thy ===== *)
theory Varint
  imports Varint_Spec
begin

text \<open>
  The varint stratum's root (\<open>src/src/varint.rs\<close>): the window constants, the encoded-length
  theorems, the writers over a mutable buffer, and the zigzag pairs. The writers are loops
  over memory; they are proved to write exactly \<open>enc\<close> of theory \<open>Varint_Spec\<close>.
\<close>

section \<open>Constants\<close>

definition PAYLOAD_BITS :: nat where "PAYLOAD_BITS = 7"
definition CONT_BIT :: u8 where "CONT_BIT = push_bit PAYLOAD_BITS 1"
definition PAYLOAD_MASK :: u64 where "PAYLOAD_MASK = push_bit PAYLOAD_BITS 1 - 1"

definition div_ceil :: "nat \<Rightarrow> nat \<Rightarrow> nat" where
  "div_ceil a b = (a + b - 1) div b"

definition MAX_LEN32 :: nat where "MAX_LEN32 = div_ceil 32 PAYLOAD_BITS"
definition MAX_LEN64 :: nat where "MAX_LEN64 = div_ceil 64 PAYLOAD_BITS"

definition LAST32 :: u8 where
  "LAST32 = ucast (drop_bit ((MAX_LEN32 - 1) * PAYLOAD_BITS) (4294967295 :: u32))"
definition LAST64 :: u8 where
  "LAST64 = ucast (drop_bit ((MAX_LEN64 - 1) * PAYLOAD_BITS) (18446744073709551615 :: u64))"
definition LAST_LEN :: u8 where
  "LAST_LEN = ucast (drop_bit ((MAX_LEN32 - 1) * PAYLOAD_BITS) (2147483647 :: u32))"

lemma varint_constants [simp]:
  "PAYLOAD_BITS = 7" "CONT_BIT = 128" "PAYLOAD_MASK = 127" "MAX_LEN32 = 5" "MAX_LEN64 = 10"
  by (simp_all add: PAYLOAD_BITS_def CONT_BIT_def PAYLOAD_MASK_def MAX_LEN32_def MAX_LEN64_def
      div_ceil_def push_bit_eq_mult)

lemma varint_last_bytes [simp]: "LAST32 = 15" "LAST64 = 1" "LAST_LEN = 7"
  by (simp_all add: LAST32_def LAST64_def LAST_LEN_def drop_bit_eq_div)

section \<open>Encoded lengths\<close>

text \<open>\<open>uN::bit_width\<close> of the standard library: the position of the highest set bit, plus one.\<close>

fun nat_bit_width :: "nat \<Rightarrow> nat" where
  "nat_bit_width n = (if n = 0 then 0 else Suc (nat_bit_width (n div 2)))"

declare nat_bit_width.simps [simp del]

definition bit_width :: "'a::len word \<Rightarrow> nat" where
  "bit_width w = nat_bit_width (unat w)"

definition encoded_len32 :: "u32 \<Rightarrow> nat" where
  "encoded_len32 value = drop_bit 6 (bit_width value * 9) + 1"

definition encoded_len64 :: "u64 \<Rightarrow> nat" where
  "encoded_len64 value = drop_bit 6 (bit_width value * 9) + 1"

lemma nat_bit_width_0 [simp]: "nat_bit_width 0 = 0"
  by (subst nat_bit_width.simps) simp

lemma nat_bit_width_bounds: "0 < n \<Longrightarrow> 2 ^ (nat_bit_width n - 1) \<le> n \<and> n < 2 ^ nat_bit_width n \<and> 0 < nat_bit_width n"
proof (induction n rule: nat_bit_width.induct)
  case (1 n)
  have step: "nat_bit_width n = Suc (nat_bit_width (n div 2))"
    using "1.prems" by (subst nat_bit_width.simps) simp
  show ?case
  proof (cases "n div 2 = 0")
    case True
    with "1.prems" have "n = 1" by (simp add: div_eq_0_iff)
    moreover from True have "nat_bit_width n = 1" by (simp add: step)
    ultimately show ?thesis by simp
  next
    case False
    with "1.IH" "1.prems" have ih: "2 ^ (nat_bit_width (n div 2) - 1) \<le> n div 2"
      "n div 2 < 2 ^ nat_bit_width (n div 2)" "0 < nat_bit_width (n div 2)" by auto
    then obtain k where k: "nat_bit_width (n div 2) = Suc k" by (cases "nat_bit_width (n div 2)") auto
    have "2 * (n div 2) \<le> n" "n < 2 * (n div 2) + 2" by simp_all
    with ih k show ?thesis by (simp add: step)
  qed
qed

lemma nat_bit_width_le: "n < 2 ^ k \<Longrightarrow> nat_bit_width n \<le> k"
proof (cases "n = 0")
  case False
  assume "n < 2 ^ k"
  with nat_bit_width_bounds [of n] False have "(2 :: nat) ^ (nat_bit_width n - 1) < 2 ^ k" by linarith
  then have "nat_bit_width n - 1 < k" by simp
  then show ?thesis by simp
qed simp

text \<open>The branch-free formula against the definition by rounding up, on every bit width of
  the 64-bit domain: 65 cases, checked by evaluation.\<close>

lemma bw9: "bw \<le> (64 :: nat) \<Longrightarrow> bw * 9 div 64 + 1 = (if bw = 0 then 1 else (bw + 6) div 7)"
proof -
  have "list_all (\<lambda>bw. bw * 9 div 64 + 1 = (if bw = 0 then 1 else (bw + 6) div 7)) [0..<65]"
    by code_simp
  then show "bw \<le> (64 :: nat) \<Longrightarrow> ?thesis" by (simp add: list_all_iff)
qed

lemma encoded_len64_eq: "encoded_len64 v = bit_width v * 9 div 64 + 1"
  by (simp add: encoded_len64_def drop_bit_eq_div)

lemma encoded_len32_eq: "encoded_len32 v = bit_width v * 9 div 64 + 1"
  by (simp add: encoded_len32_def drop_bit_eq_div)

lemma encoded_len32_ucast: "encoded_len32 v = encoded_len64 (ucast v)"
  by (simp add: encoded_len32_eq encoded_len64_eq bit_width_def)

lemma len_of_width:
  fixes n :: nat
  assumes "k \<le> (64 :: nat)" and "n < 2 ^ k" and "0 < k \<longrightarrow> 2 ^ (k - 1) \<le> n"
  defines "w \<equiv> k * 9 div 64 + 1"
  shows "n < 128 ^ w" and "1 < w \<longrightarrow> 128 ^ (w - 1) \<le> n"
proof -
  have w: "w = (if k = 0 then 1 else (k + 6) div 7)" unfolding w_def by (rule bw9) (rule assms(1))
  have pow: "(128 :: nat) ^ m = 2 ^ (7 * m)" for m by (simp add: power_mult)
  have "k \<le> 7 * w" using w by (cases "k = 0") auto
  then have "(2 :: nat) ^ k \<le> 128 ^ w" unfolding pow by (rule power_increasing) simp
  with assms(2) show "n < 128 ^ w" by linarith
  show "1 < w \<longrightarrow> 128 ^ (w - 1) \<le> n"
  proof
    assume "1 < w"
    with w have "0 < k" "7 * (w - 1) \<le> k - 1" by (auto split: if_splits)
    then have "(128 :: nat) ^ (w - 1) \<le> 2 ^ (k - 1)" unfolding pow by (intro power_increasing) auto
    with assms(3) \<open>0 < k\<close> show "128 ^ (w - 1) \<le> n" by linarith
  qed
qed

lemma encoded_len64_bounds:
  "unat v < 128 ^ encoded_len64 v" "1 < encoded_len64 v \<Longrightarrow> 128 ^ (encoded_len64 v - 1) \<le> unat v"
proof -
  let ?k = "nat_bit_width (unat v)"
  have k: "?k \<le> 64" using unat_u64_less [of v] by (intro nat_bit_width_le) simp
  have b: "unat v < 2 ^ ?k" "0 < ?k \<longrightarrow> 2 ^ (?k - 1) \<le> unat v"
    using nat_bit_width_bounds [of "unat v"] by (cases "unat v = 0"; simp)+
  from len_of_width [OF k b]
  show "unat v < 128 ^ encoded_len64 v"
    "1 < encoded_len64 v \<Longrightarrow> 128 ^ (encoded_len64 v - 1) \<le> unat v"
    by (simp_all add: encoded_len64_eq bit_width_def)
qed

lemma encoded_len64_pos [width_bounds]: "1 \<le> encoded_len64 v"
  by (simp add: encoded_len64_eq)

lemma encoded_len64_le [width_bounds]: "encoded_len64 v \<le> 10"
proof -
  have "nat_bit_width (unat v) \<le> 64" using unat_u64_less [of v] by (intro nat_bit_width_le) simp
  then show ?thesis by (simp add: encoded_len64_eq bit_width_def div_le_mono)
qed

lemma encoded_len32_pos [width_bounds]: "1 \<le> encoded_len32 v"
  by (simp add: encoded_len32_eq)

lemma encoded_len32_le [width_bounds]: "encoded_len32 v \<le> 5"
proof -
  have "nat_bit_width (unat v) \<le> 32" using unat_u32_less [of v] by (intro nat_bit_width_le) simp
  then have "nat_bit_width (unat v) * 9 div 64 \<le> 32 * 9 div 64" by (intro div_le_mono) simp
  then show ?thesis by (simp add: encoded_len32_eq bit_width_def)
qed

text \<open>The encoded length is the least width that holds the value.\<close>

lemma encoded_len64_least: "0 < w \<Longrightarrow> encoded_len64 v \<le> w \<longleftrightarrow> unat v < 128 ^ w"
proof
  assume "encoded_len64 v \<le> w"
  then have "(128 :: nat) ^ encoded_len64 v \<le> 128 ^ w" by (rule power_increasing) simp
  with encoded_len64_bounds(1) [of v] show "unat v < 128 ^ w" by linarith
next
  assume w: "0 < w" "unat v < 128 ^ w"
  show "encoded_len64 v \<le> w"
  proof (rule ccontr)
    assume c: "\<not> encoded_len64 v \<le> w"
    then have "128 ^ (encoded_len64 v - 1) \<le> unat v" using w by (intro encoded_len64_bounds) simp
    moreover have "(128 :: nat) ^ w \<le> 128 ^ (encoded_len64 v - 1)"
      using c by (intro power_increasing) auto
    ultimately show False using w by linarith
  qed
qed

lemma encoded_len32_least: "0 < w \<Longrightarrow> encoded_len32 v \<le> w \<longleftrightarrow> unat v < 128 ^ w"
  using encoded_len64_least [of w "ucast v"] by (simp add: encoded_len32_ucast)

section \<open>Writers\<close>

text \<open>
  \<open>write64_at\<close> writes through a raw pointer: the memory behind it is the byte list \<open>mem\<close>, the
  pointer an index, and a store past the end is undefined behaviour (\<open>None\<close>). \<open>len - 1\<close> on a
  zero length leaves the \<open>u32\<close> domain, which is likewise outside the function's contract.
\<close>

function write64_loop :: "bytes \<Rightarrow> nat \<Rightarrow> u64 \<Rightarrow> nat \<Rightarrow> nat \<Rightarrow> bytes option" where
  "write64_loop mem ptr value limit i =
     (if i < limit then
        if ptr + i < length mem then
          write64_loop (mem[ptr + i := ucast (value AND PAYLOAD_MASK) OR CONT_BIT]) ptr
            (drop_bit PAYLOAD_BITS value) limit (i + 1)
        else None
      else if ptr + limit < length mem then Some (mem[ptr + limit := ucast value])
      else None)"
  by pat_completeness auto
termination
  by (relation "measure (\<lambda>(mem, ptr, value, limit, i). limit - i)") auto

declare write64_loop.simps [simp del]

definition write64_at :: "bytes \<Rightarrow> nat \<Rightarrow> u64 \<Rightarrow> nat \<Rightarrow> bytes option" where
  "write64_at mem ptr value len =
     (if len = 0 then None else write64_loop mem ptr value (len - 1) 0)"

definition write32_at :: "bytes \<Rightarrow> nat \<Rightarrow> u32 \<Rightarrow> nat \<Rightarrow> bytes option" where
  "write32_at mem ptr value len = write64_at mem ptr (ucast value) len"

definition emit64 :: "u64 \<Rightarrow> bytes \<Rightarrow> (bytes \<times> nat) option" where
  "emit64 value out =
     (let len = encoded_len64 value in
      if length out \<ge> len then
        do { out' \<leftarrow> write64_at out 0 value len; Some (out', len) }
      else None)"

definition emit64_at :: "u64 \<Rightarrow> nat \<Rightarrow> bytes \<Rightarrow> bytes option" where
  "emit64_at value width out =
     (if encoded_len64 value \<le> width \<and> width \<le> MAX_LEN64 then
        if length out \<ge> width then write64_at out 0 value width else None
      else None)"

definition emit32_at :: "u32 \<Rightarrow> nat \<Rightarrow> bytes \<Rightarrow> bytes option" where
  "emit32_at word width out =
     (if encoded_len32 word \<le> width \<and> width \<le> MAX_LEN32 then
        if length out \<ge> width then write32_at out 0 word width else None
      else None)"

text \<open>\<open>Minimal64\<close>: a value with its minted minimal width. \<open>append_to\<close> reserves \<open>width\<close> bytes
  behind the vector's length, whose contents before the write are arbitrary (\<open>spare\<close>).\<close>

record minimal64 =
  m64_value :: u64
  m64_width :: nat

definition minimal64_of :: "u64 \<Rightarrow> minimal64" where
  "minimal64_of value = \<lparr>m64_value = value, m64_width = encoded_len64 value\<rparr>"

definition append_to :: "minimal64 \<Rightarrow> bytes \<Rightarrow> bytes \<Rightarrow> bytes option" where
  "append_to m spare out =
     (let n = m64_width m in
      write64_at (out @ take n (spare @ replicate n 0)) (length out) (m64_value m) n)"

definition push64 :: "bytes \<Rightarrow> bytes \<Rightarrow> u64 \<Rightarrow> bytes option" where
  "push64 spare out value = append_to (minimal64_of value) spare out"

definition emit64_minimal :: "u64 \<Rightarrow> bytes \<Rightarrow> bytes option" where
  "emit64_minimal value out =
     (let width = encoded_len64 value in
      do { out' \<leftarrow> write64_at out 0 value width; Some (take width out') })"

definition emit64_padded :: "u64 \<Rightarrow> nat \<Rightarrow> bytes \<Rightarrow> bytes option" where
  "emit64_padded value width out =
     do { out' \<leftarrow> write64_at out 0 value width; Some (take width out') }"

lemma ucast_mask_or_cont:
  fixes v :: u64
  shows "(ucast (v AND 127) OR 128 :: u8) = of_nat (unat v mod 128 + 128)"
proof -
  have v: "unat (v AND 127) = unat v mod 128" by (rule unat_and_mask7)
  then have u: "unat (ucast (v AND 127) :: u8) = unat v mod 128"
    by (subst unat_ucast_down_less) (use mod_less_divisor [of 128 "unat v"] in simp_all)
  have "(128 :: u8) = push_bit 7 1" by (simp add: push_bit_eq_mult)
  then have "unat (ucast (v AND 127) OR 128 :: u8) = unat v mod 128 + 128"
    using unat_or_push [of "ucast (v AND 127) :: u8" 7 1] u by simp
  moreover have "unat v mod 128 + 128 < 256" by (simp add: less_diff_conv [symmetric])
  ultimately show ?thesis by (simp only: word_eq_unat_iff unat_of_nat_u8)
qed

lemma write64_loop_step:
  "i < limit \<Longrightarrow> ptr + i < length mem \<Longrightarrow>
   write64_loop mem ptr v limit i =
     write64_loop (mem[ptr + i := of_nat (unat v mod 128 + 128)]) ptr (drop_bit 7 v) limit (Suc i)"
  by (subst write64_loop.simps) (simp add: ucast_mask_or_cont)

lemma write64_loop_last:
  "ptr + limit < length mem \<Longrightarrow>
   write64_loop mem ptr v limit limit = Some (mem[ptr + limit := ucast v])"
  by (subst write64_loop.simps) simp

lemma write64_loop_enc:
  "limit = i + k \<Longrightarrow> ptr + limit < length mem \<Longrightarrow>
   write64_loop mem ptr v limit i =
     Some (take (ptr + i) mem @ enc (Suc k) (unat v) @ drop (ptr + Suc limit) mem)"
proof (induction k arbitrary: mem v i)
  case 0
  then show ?case by (simp add: write64_loop_last upd_conv_take_nth_drop)
next
  case (Suc k)
  define b :: u8 where "b = of_nat (unat v mod 128 + 128)"
  have l: "ptr + i < length mem" "i < limit" using Suc.prems by simp_all
  have t: "take (ptr + Suc i) (mem[ptr + i := b]) = take (ptr + i) mem @ [b]"
    using l by (simp add: take_Suc_conv_app_nth)
  have d: "drop (ptr + Suc limit) (mem[ptr + i := b]) = drop (ptr + Suc limit) mem"
    using l by simp
  have "write64_loop mem ptr v limit i = write64_loop (mem[ptr + i := b]) ptr (drop_bit 7 v) limit (Suc i)"
    unfolding b_def using l by (intro write64_loop_step)
  also have "\<dots> = Some (take (ptr + Suc i) (mem[ptr + i := b]) @
      enc (Suc k) (unat (drop_bit 7 v)) @ drop (ptr + Suc limit) (mem[ptr + i := b]))"
    using Suc.prems by (intro Suc.IH) simp_all
  also have "unat (drop_bit 7 v) = unat v div 128" by (simp only: unat_drop_bit) simp
  finally show ?case by (simp only: t d) (simp add: b_def)
qed

text \<open>The writer's contract: it replaces exactly the \<open>len\<close> bytes behind the pointer by the
  spelling of the value in \<open>len\<close> bytes.\<close>

lemma write64_at_enc:
  "0 < len \<Longrightarrow> ptr + len \<le> length mem \<Longrightarrow>
   write64_at mem ptr v len =
     Some (take ptr mem @ enc len (unat v) @ drop (ptr + len) mem)"
  using write64_loop_enc [of "len - 1" 0 "len - 1" ptr mem v] by (simp add: write64_at_def)

lemma emit64_enc:
  "encoded_len64 v \<le> length out \<Longrightarrow>
   emit64 v out = Some (enc (encoded_len64 v) (unat v) @ drop (encoded_len64 v) out, encoded_len64 v)"
  using encoded_len64_pos [of v] by (simp add: emit64_def write64_at_enc Let_def)

lemma emit64_at_enc:
  "encoded_len64 v \<le> w \<Longrightarrow> w \<le> 10 \<Longrightarrow> w \<le> length out \<Longrightarrow>
   emit64_at v w out = Some (enc w (unat v) @ drop w out)"
  using encoded_len64_pos [of v] by (simp add: emit64_at_def write64_at_enc)

lemma emit32_at_enc:
  "encoded_len32 v \<le> w \<Longrightarrow> w \<le> 5 \<Longrightarrow> w \<le> length out \<Longrightarrow>
   emit32_at v w out = Some (enc w (unat v) @ drop w out)"
  using encoded_len32_pos [of v] by (simp add: emit32_at_def write32_at_def write64_at_enc)

lemma push64_enc: "push64 spare out v = Some (out @ enc (encoded_len64 v) (unat v))"
  using encoded_len64_pos [of v]
  by (simp add: push64_def append_to_def minimal64_of_def write64_at_enc Let_def)

lemma emit64_minimal_enc:
  "length out = 10 \<Longrightarrow> emit64_minimal v out = Some (enc (encoded_len64 v) (unat v))"
  using encoded_len64_pos [of v] encoded_len64_le [of v]
  by (simp add: emit64_minimal_def write64_at_enc Let_def)

lemma emit64_padded_enc:
  "length out = 10 \<Longrightarrow> 0 < w \<Longrightarrow> w \<le> 10 \<Longrightarrow> emit64_padded v w out = Some (enc w (unat v))"
  by (simp add: emit64_padded_def write64_at_enc)

section \<open>Zigzag\<close>

definition zigzag64 :: "i64 \<Rightarrow> u64" where
  "zigzag64 value = push_bit 1 value XOR signed_drop_bit 63 value"

definition unzigzag64 :: "u64 \<Rightarrow> i64" where
  "unzigzag64 wire = drop_bit 1 wire XOR - (wire AND 1)"

definition zigzag32 :: "i32 \<Rightarrow> u32" where
  "zigzag32 value = push_bit 1 value XOR signed_drop_bit 31 value"

definition unzigzag32 :: "u32 \<Rightarrow> i32" where
  "unzigzag32 wire = drop_bit 1 wire XOR - (wire AND 1)"

lemma bit_minus_and_1: "bit (- (w AND 1)) n \<longleftrightarrow> n < LENGTH('a) \<and> bit w 0"
  for w :: "'a::len word"
proof (cases "bit w 0")
  case True
  then have "w AND 1 = 1" by (simp add: and_one_eq bit_0 odd_iff_mod_2_eq_one)
  then show ?thesis using True by (simp add: bit_minus_1_iff)
next
  case False
  then have "w AND 1 = 0" by (simp add: and_one_eq bit_0 even_iff_mod_2_eq_zero)
  then show ?thesis using False by simp
qed

lemma bit_zigzag64:
  "bit (zigzag64 v) n \<longleftrightarrow> n < 64 \<and> (if n = 0 then bit v 63 else bit v (n - 1) \<noteq> bit v 63)"
  unfolding zigzag64_def bit_xor_iff bit_push_bit_iff bit_signed_drop_bit_iff
  by (auto simp: Suc_le_eq dest: bit_imp_le_length)

lemma bit_unzigzag64:
  "bit (unzigzag64 w) n \<longleftrightarrow> n < 64 \<and> bit w (Suc n) \<noteq> bit w 0"
  by (auto simp: unzigzag64_def bit_xor_iff bit_drop_bit_eq bit_minus_and_1 dest: bit_imp_le_length)

lemma bit_zigzag32:
  "bit (zigzag32 v) n \<longleftrightarrow> n < 32 \<and> (if n = 0 then bit v 31 else bit v (n - 1) \<noteq> bit v 31)"
  unfolding zigzag32_def bit_xor_iff bit_push_bit_iff bit_signed_drop_bit_iff
  by (auto simp: Suc_le_eq dest: bit_imp_le_length)

lemma bit_unzigzag32:
  "bit (unzigzag32 w) n \<longleftrightarrow> n < 32 \<and> bit w (Suc n) \<noteq> bit w 0"
  by (auto simp: unzigzag32_def bit_xor_iff bit_drop_bit_eq bit_minus_and_1 dest: bit_imp_le_length)

lemma unzigzag64_zigzag64: "unzigzag64 (zigzag64 v) = v"
proof (intro bit_word_eqI)
  fix n assume "n < LENGTH(64)"
  then have "n < 63 \<or> n = 63" by auto
  then show "bit (unzigzag64 (zigzag64 v)) n = bit v n"
    by (auto simp: bit_unzigzag64 bit_zigzag64)
qed

lemma zigzag64_unzigzag64: "zigzag64 (unzigzag64 w) = w"
  by (intro bit_word_eqI) (auto simp: bit_unzigzag64 bit_zigzag64 dest: bit_imp_le_length)

lemma unzigzag32_zigzag32: "unzigzag32 (zigzag32 v) = v"
proof (intro bit_word_eqI)
  fix n assume "n < LENGTH(32)"
  then have "n < 31 \<or> n = 31" by auto
  then show "bit (unzigzag32 (zigzag32 v)) n = bit v n"
    by (auto simp: bit_unzigzag32 bit_zigzag32)
qed

lemma zigzag32_unzigzag32: "zigzag32 (unzigzag32 w) = w"
  by (intro bit_word_eqI) (auto simp: bit_unzigzag32 bit_zigzag32 dest: bit_imp_le_length)

section \<open>Properties\<close>

text \<open>C38: The branch-free width formula is the least width: a value is spelled in \<open>w\<close> bytes exactly
  when \<open>w\<close> is at least its encoded length, and that length is between one and ten.\<close>

theorem encoded_len64_is_least:
  assumes "0 < w"
  shows "(encoded_len64 v \<le> w \<longleftrightarrow> unat v < 128 ^ w) \<and> 1 \<le> encoded_len64 v \<and> encoded_len64 v \<le> 10"
  using encoded_len64_least [OF assms] encoded_len64_pos encoded_len64_le by simp

lemma encoded_len64_is_least_witness: "encoded_len64 127 \<le> 1"
  using encoded_len64_is_least [of 1 127] by simp

text \<open>\<open>write64_at\<close> changes exactly its \<open>len\<close> bytes, to the spelling of the value in that many
  bytes, and touches nothing before or after them.\<close>

theorem write64_at_effect:
  assumes "0 < len" "ptr + len \<le> length mem"
  shows "write64_at mem ptr v len = Some (take ptr mem @ enc len (unat v) @ drop (ptr + len) mem)"
  by (rule write64_at_enc [OF assms])

lemma write64_at_effect_witness:
  "write64_at [1, 2, 3, 4] 1 300 2 = Some (take 1 [1, 2, 3, 4] @ enc 2 (unat (300 :: u64)) @ drop (1 + 2) [1, 2, 3, 4])"
  by (rule write64_at_effect) simp_all

text \<open>The zigzag pairs are inverse bijections, at both widths and in both directions.\<close>

theorem zigzag_inverse:
  "unzigzag64 (zigzag64 v) = v \<and> zigzag64 (unzigzag64 w) = w \<and>
   unzigzag32 (zigzag32 x) = x \<and> zigzag32 (unzigzag32 y) = y"
  by (simp_all add: unzigzag64_zigzag64 zigzag64_unzigzag64 unzigzag32_zigzag32 zigzag32_unzigzag32)

text \<open>\<open>push64\<close> appends the minimal spelling of the value and changes nothing already there,
  whatever the spare capacity held.\<close>

theorem push64_appends:
  "push64 spare out v = Some (out @ enc (encoded_len64 v) (unat v))"
  by (rule push64_enc)

end
