(* ===== verification/Scalar.thy ===== *)
theory Scalar
  imports Varint
begin

text \<open>
  The scalar value domains over the wire words (\<open>src/src/scalar.rs\<close>): the fallible narrowings
  of \<open>uint32\<close>, \<open>int32\<close>, \<open>enum\<close> and \<open>bool\<close>, the total reinterpretations, and the writers'
  spellings. Signed integers are the words of their two's complement (\<open>sint\<close> reads them), so
  \<open>cast_signed\<close> and \<open>cast_unsigned\<close> are the identity on the word; a float is its bit pattern,
  which is what \<open>from_bits\<close> and \<open>to_bits\<close> exchange.
\<close>

section \<open>Decoding and encoding\<close>

datatype domain_error = OutOfDomain

type_synonym f32 = "32 word"
type_synonym f64 = "64 word"

definition decode_uint32 :: "u64 \<Rightarrow> domain_error + u32" where
  "decode_uint32 wire = (if wire \<le> 4294967295 then Inr (ucast wire) else Inl OutOfDomain)"

definition decode_uint64 :: "u64 \<Rightarrow> u64" where
  "decode_uint64 wire = wire"

definition decode_int64 :: "u64 \<Rightarrow> i64" where
  "decode_int64 wire = wire"

definition decode_int32 :: "u64 \<Rightarrow> domain_error + i32" where
  "decode_int32 wire =
     (let wide = sint wire in
      if wide \<ge> - 2147483648 \<and> wide \<le> 2147483647 then Inr (ucast wire) else Inl OutOfDomain)"

definition decode_enum :: "u64 \<Rightarrow> domain_error + i32" where
  "decode_enum wire = decode_int32 wire"

definition decode_sint64 :: "u64 \<Rightarrow> i64" where
  "decode_sint64 wire = unzigzag64 wire"

definition decode_sint32 :: "u64 \<Rightarrow> i32" where
  "decode_sint32 wire = unzigzag32 (ucast wire)"

definition decode_bool :: "u64 \<Rightarrow> domain_error + bool" where
  "decode_bool wire =
     (if wire = 0 then Inr False else if wire = 1 then Inr True else Inl OutOfDomain)"

definition decode_float :: "u32 \<Rightarrow> f32" where
  "decode_float bits = bits"

definition decode_double :: "u64 \<Rightarrow> f64" where
  "decode_double bits = bits"

definition decode_sfixed32 :: "u32 \<Rightarrow> i32" where
  "decode_sfixed32 bits = bits"

definition decode_sfixed64 :: "u64 \<Rightarrow> i64" where
  "decode_sfixed64 bits = bits"

definition encode_int64 :: "i64 \<Rightarrow> u64" where
  "encode_int64 val = val"

definition encode_sint64 :: "i64 \<Rightarrow> u64" where
  "encode_sint64 val = zigzag64 val"

definition encode_sint32 :: "i32 \<Rightarrow> u64" where
  "encode_sint32 val = ucast (zigzag32 val)"

definition encode_bool :: "bool \<Rightarrow> u64" where
  "encode_bool val = of_bool val"

definition encode_float :: "f32 \<Rightarrow> u32" where
  "encode_float val = val"

definition encode_double :: "f64 \<Rightarrow> u64" where
  "encode_double val = val"

section \<open>The narrowings accept exactly the images\<close>

lemma ucast_ucast_u32 [simp]: "(ucast (ucast (v :: u32) :: u64) :: u32) = v"
  by (rule bit_word_eqI) (simp add: bit_ucast_iff)

lemma decode_uint32_iff: "decode_uint32 w = Inr v \<longleftrightarrow> w = ucast v"
proof
  assume "decode_uint32 w = Inr v"
  then have "w \<le> 4294967295" "v = ucast w" by (auto simp: decode_uint32_def split: if_splits)
  then show "w = ucast v"
    by (simp add: word_eq_unat_iff word_le_nat_alt unat_ucast_down_less)
next
  assume "w = ucast v"
  then show "decode_uint32 w = Inr v"
    using unat_u32_less [of v] by (simp add: decode_uint32_def word_le_nat_alt)
qed

lemma sint_scast_i32: "sint (scast (v :: i32) :: i64) = sint v"
  by (rule sint_up_scast) (simp add: is_up)

lemma sint_i32_range: "- 2147483648 \<le> sint (v :: i32)" "sint v \<le> 2147483647"
  using sint_greater_eq [of v] sint_less [of v] by simp_all

lemma scast_ucast_i32:
  assumes "- 2147483648 \<le> sint (w :: i64)" "sint w \<le> 2147483647"
  shows "scast (ucast w :: i32) = w"
proof -
  have "sint (ucast w :: i32) = signed_take_bit 31 (uint w)"
    by (rule bit_eqI) (simp add: sint_uint bit_signed_take_bit_iff bit_take_bit_iff unsigned_ucast_eq min_def)
  also have "\<dots> = signed_take_bit 31 (sint w)"
    by (simp add: sint_uint signed_take_bit_take_bit)
  also have "\<dots> = sint w"
    using assms by (intro signed_take_bit_int_eq_self) simp_all
  finally have "sint (scast (ucast w :: i32) :: i64) = sint w" by (simp add: sint_scast_i32)
  then show ?thesis by (rule signed_word_eqI)
qed

lemma ucast_scast_i32: "ucast (scast (v :: i32) :: i64) = v"
  by (rule bit_word_eqI) (auto simp: bit_ucast_iff bit_signed_iff min_def le_less_Suc_eq eval_nat_numeral less_Suc_eq_le le_antisym)

lemma decode_int32_iff: "decode_int32 w = Inr v \<longleftrightarrow> w = scast v"
proof
  assume "decode_int32 w = Inr v"
  then show "w = scast v"
    using scast_ucast_i32 [of w] by (auto simp: decode_int32_def Let_def split: if_splits)
next
  assume "w = scast v"
  then show "decode_int32 w = Inr v"
    using sint_i32_range [of v] by (simp add: decode_int32_def sint_scast_i32 ucast_scast_i32)
qed

lemma decode_bool_iff: "decode_bool w = Inr v \<longleftrightarrow> w = encode_bool v"
  by (auto simp: decode_bool_def encode_bool_def)

lemma decode_sint32_encode: "decode_sint32 (encode_sint32 v) = v"
  by (simp add: decode_sint32_def encode_sint32_def unzigzag32_zigzag32)

lemma decode_sint64_encode: "decode_sint64 (encode_sint64 v) = v"
  by (simp add: decode_sint64_def encode_sint64_def unzigzag64_zigzag64)

section \<open>Properties\<close>

text \<open>The \<open>int32\<close> domain (and \<open>enum\<close>, its alias) accepts exactly the sign-extended words, so
  decoding inverts the writer's widening and refuses everything else.\<close>

theorem int32_domain:
  "(decode_int32 w = Inr v \<longleftrightarrow> w = encode_int64 (scast v)) \<and> decode_enum w = decode_int32 w \<and>
   (decode_int32 w = Inl OutOfDomain \<longleftrightarrow> (\<forall>v :: i32. w \<noteq> encode_int64 (scast v)))"
proof (intro conjI)
  show "decode_int32 w = Inr v \<longleftrightarrow> w = encode_int64 (scast v)"
    by (simp add: decode_int32_iff encode_int64_def)
  show "decode_enum w = decode_int32 w" by (simp add: decode_enum_def)
  show "decode_int32 w = Inl OutOfDomain \<longleftrightarrow> (\<forall>v :: i32. w \<noteq> encode_int64 (scast v))"
  proof (cases "decode_int32 w")
    case (Inl e)
    then have "\<forall>v :: i32. w \<noteq> encode_int64 (scast v)" using decode_int32_iff [of w] by (simp add: encode_int64_def)
    with Inl show ?thesis by (cases e) simp
  next
    case (Inr v)
    with decode_int32_iff [of w v] show ?thesis by (auto simp: encode_int64_def)
  qed
qed

text \<open>\<open>uint32\<close> and \<open>bool\<close> accept exactly the words their writers produce.\<close>

theorem narrow_domains:
  "(decode_uint32 w = Inr v \<longleftrightarrow> w = ucast v) \<and> (decode_bool w = Inr b \<longleftrightarrow> w = encode_bool b)"
  by (simp_all add: decode_uint32_iff decode_bool_iff)

text \<open>The zigzag scalars round-trip, and \<open>sint32\<close> truncates before it unzigzags: a word
  decodes as its low 32 bits do.\<close>

theorem sint_round_trip:
  "decode_sint64 (encode_sint64 x) = x \<and> decode_sint32 (encode_sint32 y) = y \<and>
   decode_sint32 w = decode_sint32 (ucast (ucast w :: u32))"
  by (simp add: decode_sint64_encode decode_sint32_encode) (simp add: decode_sint32_def)

end
