(* ===== verification/Wire.thy ===== *)
theory Wire
  imports Prelude
begin

text \<open>
  The wire vocabulary stratum (\<open>src/src/wire.rs\<close>, \<open>src/src/wire/grouped.rs\<close>,
  \<open>src/src/wire/groupless.rs\<close>): the contract types with their admission functions, the tag
  word, and the two dialect tables with their typed emission faces.

  A pattern type \<open>u32 in 0..=2^31-1\<close> or \<open>u8 in 0..=7\<close> is a word of 31 or 3 bits: its range is
  a fact of the type, as in the source. A field number is a 29-bit word; that it is not zero
  is the predicate \<open>field_ok\<close>, which every minting function establishes.
\<close>

section \<open>Contract types\<close>

type_synonym field_number = "29 word"
type_synonym payload_len = "31 word"
type_synonym low3 = "3 word"

definition field_ok :: "field_number \<Rightarrow> bool" where
  "field_ok f \<longleftrightarrow> f \<noteq> 0"

definition FieldNumber_new :: "u32 \<Rightarrow> field_number option" where
  "FieldNumber_new val = (if 1 \<le> val \<and> val \<le> 536870911 then Some (ucast val) else None)"

definition field_inner :: "field_number \<Rightarrow> u32" where
  "field_inner f = ucast f"

definition PayloadLen_new :: "u32 \<Rightarrow> payload_len option" where
  "PayloadLen_new val = (if 0 \<le> val \<and> val \<le> 2147483647 then Some (ucast val) else None)"

definition len_inner :: "payload_len \<Rightarrow> u32" where
  "len_inner l = ucast l"

definition Low3_new :: "u8 \<Rightarrow> low3 option" where
  "Low3_new val = (if 0 \<le> val \<and> val \<le> 7 then Some (ucast val) else None)"

definition low3_inner :: "low3 \<Rightarrow> u8" where
  "low3_inner c = ucast c"

definition FieldNumber_from_word :: "u32 \<Rightarrow> field_number option" where
  "FieldNumber_from_word word = FieldNumber_new (drop_bit 3 word)"

definition Low3_from_word :: "u32 \<Rightarrow> low3" where
  "Low3_from_word word = ucast (ucast (word AND 7) :: u8)"

definition wire_tag_word :: "field_number \<Rightarrow> low3 \<Rightarrow> u32" where
  "wire_tag_word field code = push_bit 3 (field_inner field) OR ucast (low3_inner code)"

section \<open>The grouped dialect\<close>

datatype record_kind_gr = GrVarint | GrI64 | GrLen | GrGroup | GrI32

datatype tag_class_gr = GrRecord record_kind_gr | GrGroupEnd | GrUnassigned

fun low3_gr :: "record_kind_gr \<Rightarrow> low3" where
  "low3_gr GrVarint = 0"
| "low3_gr GrI64 = 1"
| "low3_gr GrLen = 2"
| "low3_gr GrGroup = 3"
| "low3_gr GrI32 = 5"

definition TABLE_gr :: "tag_class_gr list" where
  "TABLE_gr =
     [GrRecord GrVarint, GrRecord GrI64, GrRecord GrLen, GrRecord GrGroup,
      GrGroupEnd, GrRecord GrI32, GrUnassigned, GrUnassigned]"

definition classify_gr :: "low3 \<Rightarrow> tag_class_gr" where
  "classify_gr low3 = TABLE_gr ! unat (low3_inner low3)"

definition head_word_gr :: "field_number \<Rightarrow> record_kind_gr \<Rightarrow> u32" where
  "head_word_gr field kind = wire_tag_word field (low3_gr kind)"

definition group_end_word :: "field_number \<Rightarrow> u32" where
  "group_end_word field = wire_tag_word field 4"

section \<open>The groupless dialect\<close>

datatype record_kind_gl = GlVarint | GlI64 | GlLen | GlI32

datatype tag_class_gl = GlRecord record_kind_gl | GlGroupCode | GlUnassigned

fun low3_gl :: "record_kind_gl \<Rightarrow> low3" where
  "low3_gl GlVarint = 0"
| "low3_gl GlI64 = 1"
| "low3_gl GlLen = 2"
| "low3_gl GlI32 = 5"

definition TABLE_gl :: "tag_class_gl list" where
  "TABLE_gl =
     [GlRecord GlVarint, GlRecord GlI64, GlRecord GlLen, GlGroupCode,
      GlGroupCode, GlRecord GlI32, GlUnassigned, GlUnassigned]"

definition classify_gl :: "low3 \<Rightarrow> tag_class_gl" where
  "classify_gl low3 = TABLE_gl ! unat (low3_inner low3)"

definition head_word_gl :: "field_number \<Rightarrow> record_kind_gl \<Rightarrow> u32" where
  "head_word_gl field kind = wire_tag_word field (low3_gl kind)"

section \<open>Ranges of the contract types\<close>

lemma unat_field_inner [simp]: "unat (field_inner f) = unat f"
  unfolding field_inner_def by (rule unat_ucast_le) simp

lemma unat_len_inner [simp]: "unat (len_inner l) = unat l"
  unfolding len_inner_def by (rule unat_ucast_le) simp

lemma unat_low3_inner [simp]: "unat (low3_inner c) = unat c"
  unfolding low3_inner_def by (rule unat_ucast_le) simp

lemma unat_field_less: "unat (f :: field_number) < 2 ^ 29"
  using unsigned_less [of f, where ?'a = nat] by simp

lemma unat_len_less: "unat (l :: payload_len) < 2 ^ 31"
  using unsigned_less [of l, where ?'a = nat] by simp

lemma unat_low3_less: "unat (c :: low3) < 8"
  using unsigned_less [of c, where ?'a = nat] by simp

lemma FieldNumber_new_Some:
  "FieldNumber_new w = Some f \<longleftrightarrow> unat f = unat w \<and> f \<noteq> 0"
proof (cases "1 \<le> w \<and> w \<le> 536870911")
  case True
  then have b: "1 \<le> unat w" "unat w \<le> 536870911" by (simp_all add: word_le_nat_alt)
  then have u: "unat (ucast w :: field_number) = unat w" by (intro unat_ucast_down_less) simp
  then have "(ucast w :: field_number) \<noteq> 0" using b by (metis unat_0 not_one_le_zero)
  with True u show ?thesis by (auto simp: FieldNumber_new_def word_eq_unat_iff)
next
  case False
  have "\<not> (unat f = unat w \<and> f \<noteq> 0)"
  proof
    assume a: "unat f = unat w \<and> f \<noteq> 0"
    then have "0 < unat w" by (metis unat_gt_0)
    moreover have "unat w \<le> 536870911" using a unat_field_less [of f] by simp
    ultimately show False using False by (simp add: word_le_nat_alt)
  qed
  with False show ?thesis by (auto simp: FieldNumber_new_def)
qed

lemma FieldNumber_from_word_Some:
  "FieldNumber_from_word w = Some f \<longleftrightarrow> unat f = unat w div 8 \<and> f \<noteq> 0"
  by (simp add: FieldNumber_from_word_def FieldNumber_new_Some unat_drop_bit)

lemma FieldNumber_from_word_None: "FieldNumber_from_word w = None \<longleftrightarrow> unat w < 8"
proof -
  have "unat w div 8 \<le> 536870911" using unat_u32_less [of w] by simp
  then show ?thesis
    by (auto simp: FieldNumber_from_word_def FieldNumber_new_def word_le_nat_alt unat_drop_bit)
qed

lemma field_ok_from_word: "FieldNumber_from_word w = Some f \<Longrightarrow> field_ok f"
  by (simp add: FieldNumber_from_word_Some field_ok_def)

lemma unat_Low3_from_word: "unat (Low3_from_word w) = unat w mod 8"
proof -
  have a: "unat (w AND 7) = unat w mod 8" by (rule unat_and_mask3)
  then have "unat (ucast (w AND 7) :: u8) = unat w mod 8"
    by (subst unat_ucast_down_less) simp_all
  then show ?thesis
    unfolding Low3_from_word_def by (subst unat_ucast_down_less) simp_all
qed

lemma unat_wire_tag_word: "unat (wire_tag_word f c) = unat f * 8 + unat c"
proof -
  have c: "unat (ucast (low3_inner c) :: u32) = unat c" by simp
  have "unat (ucast (low3_inner c) OR push_bit 3 (field_inner f)) = unat c + unat f * 8"
    using unat_or_push [of "ucast (low3_inner c) :: u32" 3 "field_inner f"]
      c unat_low3_less [of c] unat_field_less [of f] by simp
  then show ?thesis by (simp add: wire_tag_word_def or.commute)
qed

section \<open>Emission inverts classification\<close>

lemma from_word_tag_word:
  "field_ok f \<Longrightarrow> FieldNumber_from_word (wire_tag_word f c) = Some f"
  using unat_low3_less [of c]
  by (simp add: FieldNumber_from_word_Some unat_wire_tag_word field_ok_def)

lemma low3_tag_word: "Low3_from_word (wire_tag_word f c) = c"
  using unat_low3_less [of c]
  by (simp add: word_eq_unat_iff unat_Low3_from_word unat_wire_tag_word)

lemma tag_word_from_word:
  "FieldNumber_from_word w = Some f \<Longrightarrow> wire_tag_word f (Low3_from_word w) = w"
  by (simp add: word_eq_unat_iff unat_wire_tag_word FieldNumber_from_word_Some
      unat_Low3_from_word)

lemma less_8_cases:
  "n < (8::nat) \<Longrightarrow> n = 0 \<or> n = 1 \<or> n = 2 \<or> n = 3 \<or> n = 4 \<or> n = 5 \<or> n = 6 \<or> n = 7"
  by arith

lemma low3_cases: "(c :: low3) = 0 \<or> c = 1 \<or> c = 2 \<or> c = 3 \<or> c = 4 \<or> c = 5 \<or> c = 6 \<or> c = 7"
  using less_8_cases [OF unat_low3_less [of c]] by (auto simp: word_eq_unat_iff)

lemma classify_gr_simps [kernel_simps]:
  "classify_gr 0 = GrRecord GrVarint" "classify_gr 1 = GrRecord GrI64"
  "classify_gr 2 = GrRecord GrLen" "classify_gr 3 = GrRecord GrGroup"
  "classify_gr 4 = GrGroupEnd" "classify_gr 5 = GrRecord GrI32"
  "classify_gr 6 = GrUnassigned" "classify_gr 7 = GrUnassigned"
  by (simp_all add: classify_gr_def TABLE_gr_def)

lemma classify_gl_simps [kernel_simps]:
  "classify_gl 0 = GlRecord GlVarint" "classify_gl 1 = GlRecord GlI64"
  "classify_gl 2 = GlRecord GlLen" "classify_gl 3 = GlGroupCode"
  "classify_gl 4 = GlGroupCode" "classify_gl 5 = GlRecord GlI32"
  "classify_gl 6 = GlUnassigned" "classify_gl 7 = GlUnassigned"
  by (simp_all add: classify_gl_def TABLE_gl_def)

lemma classify_gr_record: "classify_gr c = GrRecord k \<longleftrightarrow> c = low3_gr k"
  using low3_cases [of c] by (cases k) (auto simp: kernel_simps)

lemma classify_gl_record: "classify_gl c = GlRecord k \<longleftrightarrow> c = low3_gl k"
  using low3_cases [of c] by (cases k) (auto simp: kernel_simps)

lemma classify_gr_end: "classify_gr c = GrGroupEnd \<longleftrightarrow> c = 4"
  using low3_cases [of c] by (auto simp: kernel_simps)

lemma classify_gl_group: "classify_gl c = GlGroupCode \<longleftrightarrow> c = 3 \<or> c = 4"
  using low3_cases [of c] by (auto simp: kernel_simps)

section \<open>Properties\<close>

text \<open>A tag word determines its field and code and is determined by them: a word has a field and
  a code as its projections if and only if it is their composition.\<close>

theorem tag_word_projections:
  assumes "field_ok f"
  shows "FieldNumber_from_word w = Some f \<and> Low3_from_word w = c \<longleftrightarrow> w = wire_tag_word f c"
  using from_word_tag_word [OF assms, of c] low3_tag_word [of f c] tag_word_from_word [of w f] by auto

lemma tag_word_projections_witness:
  "FieldNumber_from_word 0x2A = Some 5 \<and> Low3_from_word 0x2A = 2 \<longleftrightarrow> 0x2A = wire_tag_word 5 2"
  by (rule tag_word_projections) (simp add: field_ok_def)

text \<open>Emission inverts classification in both dialects: a typed head word classifies back as its
  record kind, the grouped end word as a group end, and no other code classifies as a record.\<close>

theorem head_words_classify:
  "(classify_gr c = GrRecord k \<longleftrightarrow> c = low3_gr k) \<and> (classify_gl c = GlRecord j \<longleftrightarrow> c = low3_gl j) \<and>
   classify_gr (Low3_from_word (head_word_gr f k)) = GrRecord k \<and>
   classify_gl (Low3_from_word (head_word_gl f j)) = GlRecord j \<and>
   classify_gr (Low3_from_word (group_end_word f)) = GrGroupEnd"
  by (simp_all add: classify_gr_record classify_gl_record classify_gr_end head_word_gr_def head_word_gl_def
      group_end_word_def low3_tag_word)

end
