(* ===== verification/Slice.thy ===== *)
theory Slice
  imports Varint Wire
begin

text \<open>
  The buffered reading kernel (\<open>src/src/varint/slice.rs\<close>): one construct read at a position of a
  byte slice, bounded by an extent end. The kernel's two tiers (the contiguous walk without
  bounds checks and the per-byte walk of a short extent), its packed verdict code, the three
  checked faces with their trusted twins, the width-only walk and the unchecked re-read.

  \<open>contiguous\<close>, \<open>width64_trusted\<close> and \<open>value64_unchecked\<close> read through \<open>get_unchecked\<close>: a read
  past the slice is undefined behaviour and is the value \<open>None\<close> here, as is the panic of the
  checked faces' extent assertion. The theorems show neither happens under the documented
  preconditions and that every face is the reference reader of \<open>Varint_Spec\<close>.
\<close>

section \<open>The kernel\<close>

datatype read_fault = Truncated | TooWide | OutOfClass

text \<open>The \<open>repr(i8)\<close> enum of packed results; \<open>Width w\<close> stands for \<open>Width1\<close> to \<open>Width10\<close>.\<close>

datatype packed_code = PcTruncated | PcOutOfClass | PcTooWide | PcWidth nat

definition unpack :: "u64 \<Rightarrow> packed_code \<Rightarrow> read_fault + (u64 \<times> nat)" where
  "unpack val code =
     (case code of
        PcWidth raw \<Rightarrow> Inr (val, raw)
      | PcTruncated \<Rightarrow> Inl Truncated
      | PcTooWide \<Rightarrow> Inl TooWide
      | PcOutOfClass \<Rightarrow> Inl OutOfClass)"

function contiguous_loop ::
  "nat \<Rightarrow> u8 \<Rightarrow> bytes \<Rightarrow> nat \<Rightarrow> u64 \<Rightarrow> nat \<Rightarrow> (u64 \<times> packed_code) option" where
  "contiguous_loop cap lst data at val i =
     (if i < cap then
        if at + i < length data then
          let byte = data ! (at + i) in
          if byte < CONT_BIT then
            if i = cap - 1 \<and> byte > lst then Some (0, PcOutOfClass)
            else Some (val OR push_bit (PAYLOAD_BITS * i) (ucast byte), PcWidth (i + 1))
          else contiguous_loop cap lst data at
                 (val OR push_bit (PAYLOAD_BITS * i) (ucast byte AND PAYLOAD_MASK)) (i + 1)
        else None
      else Some (0, PcTooWide))"
  by pat_completeness auto
termination
  by (relation "measure (\<lambda>(cap, lst, data, at, val, i). cap - i)") auto

declare contiguous_loop.simps [simp del]

definition contiguous :: "nat \<Rightarrow> u8 \<Rightarrow> bytes \<Rightarrow> nat \<Rightarrow> (u64 \<times> packed_code) option" where
  "contiguous cap lst data at = contiguous_loop cap lst data at 0 0"

function short_loop ::
  "nat \<Rightarrow> u8 \<Rightarrow> bytes \<Rightarrow> nat \<Rightarrow> nat \<Rightarrow> u64 \<Rightarrow> nat \<Rightarrow> (u64 \<times> packed_code) option" where
  "short_loop cap lst data at end val i =
     (if i < cap then
        let pos = at + i in
        if pos \<ge> end then Some (0, PcTruncated)
        else if pos < length data then
          let byte = data ! pos in
          if byte < CONT_BIT then
            if i = cap - 1 \<and> byte > lst then Some (0, PcOutOfClass)
            else Some (val OR push_bit (PAYLOAD_BITS * i) (ucast byte), PcWidth (i + 1))
          else short_loop cap lst data at end
                 (val OR push_bit (PAYLOAD_BITS * i) (ucast byte AND PAYLOAD_MASK)) (i + 1)
        else None
      else Some (0, PcTooWide))"
  by pat_completeness auto
termination
  by (relation "measure (\<lambda>(cap, lst, data, at, end, val, i). cap - i)") auto

declare short_loop.simps [simp del]

definition short :: "nat \<Rightarrow> u8 \<Rightarrow> bytes \<Rightarrow> nat \<Rightarrow> nat \<Rightarrow> (u64 \<times> packed_code) option" where
  "short cap lst data at end = short_loop cap lst data at end 0 0"

definition tiers :: "nat \<Rightarrow> u8 \<Rightarrow> bytes \<Rightarrow> nat \<Rightarrow> nat \<Rightarrow> (read_fault + (u64 \<times> nat)) option" where
  "tiers cap lst data at end =
     (if at \<ge> end then Some (Inl Truncated)
      else if at < length data then
        let first = data ! at in
        if first < CONT_BIT then Some (Inr (ucast first, 1))
        else if end - at \<ge> cap then
          do { (val, code) \<leftarrow> contiguous cap lst data at; Some (unpack val code) }
        else if end - 1 < length data then
          if data ! (end - 1) < CONT_BIT then
            do { (val, code) \<leftarrow> contiguous cap lst data at; Some (unpack val code) }
          else
            do { (val, code) \<leftarrow> short cap lst data at end; Some (unpack val code) }
        else None
      else None)"

definition tolerant :: "nat \<Rightarrow> u8 \<Rightarrow> bytes \<Rightarrow> nat \<Rightarrow> nat \<Rightarrow> (read_fault + (u64 \<times> nat)) option" where
  "tolerant cap lst data at end =
     (if end \<le> length data then tiers cap lst data at end else None)"

definition tolerant_trusted ::
  "nat \<Rightarrow> u8 \<Rightarrow> bytes \<Rightarrow> nat \<Rightarrow> nat \<Rightarrow> (read_fault + (u64 \<times> nat)) option" where
  "tolerant_trusted cap lst data at end =
     (if end \<le> length data then tiers cap lst data at end else None)"

section \<open>The faces\<close>

definition tag_word :: "bytes \<Rightarrow> nat \<Rightarrow> nat \<Rightarrow> (read_fault + (u32 \<times> nat)) option" where
  "tag_word data at end =
     do { r \<leftarrow> tolerant MAX_LEN32 LAST32 data at end;
          Some (case r of Inr (val, width) \<Rightarrow> Inr (ucast val, width) | Inl fault \<Rightarrow> Inl fault) }"

definition tag_word_trusted :: "bytes \<Rightarrow> nat \<Rightarrow> nat \<Rightarrow> (read_fault + (u32 \<times> nat)) option" where
  "tag_word_trusted data at end =
     do { r \<leftarrow> tolerant_trusted MAX_LEN32 LAST32 data at end;
          Some (case r of Inr (val, width) \<Rightarrow> Inr (ucast val, width) | Inl fault \<Rightarrow> Inl fault) }"

text \<open>\<open>PayloadLen::new_unchecked\<close> is sound only inside the length class: outside it the model
  has no value.\<close>

definition len_word :: "bytes \<Rightarrow> nat \<Rightarrow> nat \<Rightarrow> (read_fault + (payload_len \<times> nat)) option" where
  "len_word data at end =
     do { r \<leftarrow> tolerant MAX_LEN32 LAST_LEN data at end;
          case r of
            Inr (val, width) \<Rightarrow>
              do { len \<leftarrow> PayloadLen_new (ucast val); Some (Inr (len, width)) }
          | Inl fault \<Rightarrow> Some (Inl fault) }"

definition len_word_trusted :: "bytes \<Rightarrow> nat \<Rightarrow> nat \<Rightarrow> (read_fault + (payload_len \<times> nat)) option" where
  "len_word_trusted data at end =
     do { r \<leftarrow> tolerant_trusted MAX_LEN32 LAST_LEN data at end;
          case r of
            Inr (val, width) \<Rightarrow>
              do { len \<leftarrow> PayloadLen_new (ucast val); Some (Inr (len, width)) }
          | Inl fault \<Rightarrow> Some (Inl fault) }"

definition value64 :: "bytes \<Rightarrow> nat \<Rightarrow> nat \<Rightarrow> (read_fault + (u64 \<times> nat)) option" where
  "value64 data at end = tolerant MAX_LEN64 LAST64 data at end"

definition value64_trusted :: "bytes \<Rightarrow> nat \<Rightarrow> nat \<Rightarrow> (read_fault + (u64 \<times> nat)) option" where
  "value64_trusted data at end = tolerant_trusted MAX_LEN64 LAST64 data at end"

text \<open>The width-only walk. The source increments \<open>i\<close> before it compares with the cap.\<close>

function width64_loop :: "bytes \<Rightarrow> nat \<Rightarrow> nat \<Rightarrow> nat \<Rightarrow> (read_fault + nat) option" where
  "width64_loop data at end i =
     (if at + i \<ge> end then Some (Inl Truncated)
      else if at + i < length data then
        let byte = data ! (at + i) in
        if byte < CONT_BIT then
          if i = MAX_LEN64 - 1 \<and> byte > LAST64 then Some (Inl OutOfClass) else Some (Inr (i + 1))
        else if i + 1 \<ge> MAX_LEN64 then Some (Inl TooWide)
        else width64_loop data at end (i + 1)
      else None)"
  by pat_completeness auto
termination
  by (relation "measure (\<lambda>(data, at, end, i). 10 - i)") auto

declare width64_loop.simps [simp del]

definition width64_trusted :: "bytes \<Rightarrow> nat \<Rightarrow> nat \<Rightarrow> (read_fault + nat) option" where
  "width64_trusted data at end = width64_loop data at end 0"

text \<open>The unchecked re-read: its loop has no bound of its own, so a read past the slice
  (\<open>None\<close>) is what stops the model where the source would be undefined.\<close>

function unchecked_loop :: "bytes \<Rightarrow> nat \<Rightarrow> u64 \<Rightarrow> nat \<Rightarrow> u64 option" where
  "unchecked_loop data at val i =
     (if at + i < length data then
        let byte = data ! (at + i) in
        if byte < CONT_BIT then Some (val OR push_bit (PAYLOAD_BITS * i) (ucast byte))
        else unchecked_loop data at
               (val OR push_bit (PAYLOAD_BITS * i) (ucast byte AND PAYLOAD_MASK)) (i + 1)
      else None)"
  by pat_completeness auto
termination
  by (relation "measure (\<lambda>(data, at, val, i). length data - (at + i))") auto

declare unchecked_loop.simps [simp del]

definition value64_unchecked :: "bytes \<Rightarrow> nat \<Rightarrow> u64 option" where
  "value64_unchecked data at = unchecked_loop data at 0 0"

section \<open>Every window is the reference reader\<close>

text \<open>
  The kernel is generic in \<open>CAP\<close> and \<open>LAST\<close>. The facts below hold for any window the kernel's
  own constant assertion admits whose values fit 64 bits.
\<close>

definition packed_of :: "verdict \<Rightarrow> (u64 \<times> packed_code) option" where
  "packed_of vd =
     (case vd of
        VDone r w \<Rightarrow> Some (of_nat r, PcWidth w)
      | VTruncated \<Rightarrow> None
      | VTooWide \<Rightarrow> Some (0, PcTooWide)
      | VOutOfClass \<Rightarrow> Some (0, PcOutOfClass))"

definition result_of :: "verdict \<Rightarrow> read_fault + ('a::len word \<times> nat)" where
  "result_of vd =
     (case vd of
        VDone r w \<Rightarrow> Inr (of_nat r, w)
      | VTruncated \<Rightarrow> Inl Truncated
      | VTooWide \<Rightarrow> Inl TooWide
      | VOutOfClass \<Rightarrow> Inl OutOfClass)"

lemma less_CONT_BIT: "b < CONT_BIT \<longleftrightarrow> \<not> cont b"
  by (simp add: not_cont_less)

lemma u64_add_shift:
  fixes val x :: u64
  assumes "unat val = v" "v < 128 ^ i" "unat x * 128 ^ i < 2 ^ 64"
  shows "unat (val OR push_bit (7 * i) x) = v + unat x * 128 ^ i"
proof -
  have p: "(128 :: nat) ^ i = 2 ^ (7 * i)" by (simp add: power_mult)
  with assms show ?thesis using unat_or_push [of val "7 * i" x] by simp
qed

locale window =
  fixes cap :: nat and lst :: u8
  assumes cap_two: "1 < cap" and cap_le: "cap \<le> 10"
    and lst_less: "unat lst < 128"
    and class_fits: "(unat lst + 1) * 128 ^ (cap - 1) \<le> 2 ^ 64"
begin

lemma pow_fits: "i < cap - 1 \<Longrightarrow> (128 :: nat) ^ Suc i \<le> 2 ^ 64"
proof -
  assume "i < cap - 1"
  then have "Suc i \<le> 9" using cap_le by simp
  then have "(128 :: nat) ^ Suc i \<le> 128 ^ 9" by (rule power_increasing) simp
  also have "\<dots> \<le> (2 :: nat) ^ 64" by simp
  finally show ?thesis .
qed

text \<open>A terminal byte of the class extends the value without loss.\<close>

lemma terminal_step:
  assumes "i < cap" "\<not> cont b" "\<not> (i = cap - 1 \<and> lst < b)" "unat val = v" "v < 128 ^ i"
  shows "unat (val OR push_bit (7 * i) (ucast b :: u64)) = v + unat b * 128 ^ i"
proof -
  have "unat (ucast b :: u64) * 128 ^ i < 2 ^ 64"
  proof (cases "i = cap - 1")
    case True
    with assms(3) have "unat b \<le> unat lst" by (simp add: word_less_nat_alt)
    then have "unat b * 128 ^ i < (unat lst + 1) * 128 ^ i" by (intro mult_strict_right_mono) simp_all
    with class_fits True show ?thesis by simp
  next
    case False
    have "unat b * 128 ^ i < 128 * 128 ^ i"
      using assms(2) by (intro mult_strict_right_mono) (simp_all add: cont_unat)
    also have "128 * 128 ^ i = (128 :: nat) ^ Suc i" by simp
    also have "\<dots> \<le> 2 ^ 64" using False assms(1) by (intro pow_fits) simp
    finally show ?thesis by simp
  qed
  from u64_add_shift [OF assms(4,5) this] show ?thesis by simp
qed

lemma cont_step:
  fixes b :: u8
  assumes "i < cap - 1" "unat val = v" "v < 128 ^ i"
  shows "unat (val OR push_bit (7 * i) (ucast b AND 127 :: u64)) = v + unat b mod 128 * 128 ^ i"
    and "v + unat b mod 128 * 128 ^ i < 128 ^ Suc i"
proof -
  have m: "unat (ucast b AND 127 :: u64) = unat b mod 128" by (simp add: unat_and_mask7)
  have l: "unat b mod 128 * 128 ^ i \<le> 127 * 128 ^ i"
    using mod_less_divisor [of 128 "unat b"] by (intro mult_le_mono1) simp
  have "unat b mod 128 * 128 ^ i < 128 ^ Suc i" using l by simp
  also have "\<dots> \<le> 2 ^ 64" by (rule pow_fits [OF assms(1)])
  finally have "unat (ucast b AND 127 :: u64) * 128 ^ i < 2 ^ 64" by (simp only: m)
  from u64_add_shift [OF assms(2,3) this]
  show "unat (val OR push_bit (7 * i) (ucast b AND 127 :: u64)) = v + unat b mod 128 * 128 ^ i"
    by (simp add: m)
  show "v + unat b mod 128 * 128 ^ i < 128 ^ Suc i"
    using l assms(3) by (simp only: power_Suc)
qed

lemma contiguous_loop_ref:
  "cap = i + n \<Longrightarrow> (0 < n \<Longrightarrow> unat val = v \<and> v < 128 ^ i) \<Longrightarrow>
   contiguous_loop cap lst data at val i = packed_of (ref_step lst n i v (drop (at + i) data))"
proof (induction n arbitrary: i val v)
  case 0
  then show ?case by (subst contiguous_loop.simps) (simp add: packed_of_def)
next
  case (Suc n)
  show ?case
  proof (cases "at + i < length data")
    case False
    then show ?thesis using Suc.prems
      by (subst contiguous_loop.simps) (simp add: packed_of_def)
  next
    case True
    define b where "b = data ! (at + i)"
    have d: "drop (at + i) data = b # drop (at + Suc i) data"
      using True by (simp add: Cons_nth_drop_Suc b_def)
    show ?thesis
    proof (cases "cont b")
      case c: True
      have "contiguous_loop cap lst data at val i =
          contiguous_loop cap lst data at (val OR push_bit (7 * i) (ucast b AND 127)) (Suc i)"
        using True c Suc.prems
        by (subst contiguous_loop.simps) (simp add: b_def less_CONT_BIT [simplified] Let_def)
      also have "\<dots> = packed_of (ref_step lst n (Suc i) (v + unat b mod 128 * 128 ^ i)
          (drop (at + Suc i) data))"
        using Suc.prems cont_step [of i val v b] by (intro Suc.IH) auto
      finally show ?thesis using c by (simp add: d)
    next
      case c: False
      show ?thesis
      proof (cases "i = cap - 1 \<and> lst < b")
        case bad: True
        then show ?thesis using True c Suc.prems
          by (subst contiguous_loop.simps)
            (auto simp: b_def less_CONT_BIT [simplified] Let_def packed_of_def d)
      next
        case False
        have "unat (val OR push_bit (7 * i) (ucast b :: u64)) = v + unat b * 128 ^ i"
          using Suc.prems c False by (intro terminal_step) auto
        then have r: "(of_nat (v + unat b * 128 ^ i) :: u64) = val OR push_bit (7 * i) (ucast b)"
          by (metis word_of_nat_unat)
        have "contiguous_loop cap lst data at val i =
            Some (val OR push_bit (7 * i) (ucast b), PcWidth (Suc i))"
          using True c False Suc.prems
          by (subst contiguous_loop.simps) (auto simp: b_def less_CONT_BIT [simplified] Let_def)
        moreover have "ref_step lst (Suc n) i v (drop (at + i) data) =
            VDone (v + unat b * 128 ^ i) (Suc i)"
          using c False Suc.prems by (auto simp: d)
        ultimately show ?thesis by (simp only: r packed_of_def verdict.case)
      qed
    qed
  qed
qed

lemma short_loop_ref:
  "cap = i + n \<Longrightarrow> (0 < n \<Longrightarrow> unat val = v \<and> v < 128 ^ i) \<Longrightarrow> end \<le> length data \<Longrightarrow>
   short_loop cap lst data at end val i =
     (case ref_step lst n i v (extent_of data (at + i) end) of
        VTruncated \<Rightarrow> Some (0, PcTruncated)
      | vd \<Rightarrow> packed_of vd)"
proof (induction n arbitrary: i val v)
  case 0
  then show ?case by (subst short_loop.simps) (simp add: packed_of_def)
next
  case (Suc n)
  show ?case
  proof (cases "at + i < end")
    case False
    then show ?thesis using Suc.prems
      by (subst short_loop.simps) (simp add: packed_of_def extent_of_empty)
  next
    case True
    define b where "b = data ! (at + i)"
    have d: "extent_of data (at + i) end = b # extent_of data (at + Suc i) end"
      using True Suc.prems by (simp add: extent_of_Cons b_def)
    show ?thesis
    proof (cases "cont b")
      case c: True
      have "short_loop cap lst data at end val i =
          short_loop cap lst data at end (val OR push_bit (7 * i) (ucast b AND 127)) (Suc i)"
        using True c Suc.prems
        by (subst short_loop.simps) (simp add: b_def less_CONT_BIT [simplified] Let_def)
      also have "\<dots> = (case ref_step lst n (Suc i) (v + unat b mod 128 * 128 ^ i)
          (extent_of data (at + Suc i) end) of
            VTruncated \<Rightarrow> Some (0, PcTruncated) | vd \<Rightarrow> packed_of vd)"
        using Suc.prems cont_step [of i val v b] by (intro Suc.IH) auto
      finally show ?thesis using c by (simp add: d)
    next
      case c: False
      show ?thesis
      proof (cases "i = cap - 1 \<and> lst < b")
        case bad: True
        then show ?thesis using True c Suc.prems
          by (subst short_loop.simps)
            (auto simp: b_def less_CONT_BIT [simplified] Let_def packed_of_def d)
      next
        case False
        have "unat (val OR push_bit (7 * i) (ucast b :: u64)) = v + unat b * 128 ^ i"
          using Suc.prems c False by (intro terminal_step) auto
        then have r: "(of_nat (v + unat b * 128 ^ i) :: u64) = val OR push_bit (7 * i) (ucast b)"
          by (metis word_of_nat_unat)
        have "short_loop cap lst data at end val i =
            Some (val OR push_bit (7 * i) (ucast b), PcWidth (Suc i))"
          using True c False Suc.prems
          by (subst short_loop.simps) (auto simp: b_def less_CONT_BIT [simplified] Let_def)
        moreover have "ref_step lst (Suc n) i v (extent_of data (at + i) end) =
            VDone (v + unat b * 128 ^ i) (Suc i)"
          using c False Suc.prems by (auto simp: d)
        ultimately show ?thesis by (simp only: r packed_of_def verdict.case)
      qed
    qed
  qed
qed

text \<open>The tiers, with any dispatch between them, are the reference reader on the extent.\<close>

lemma unpack_packed_of:
  "vd \<noteq> VTruncated \<Longrightarrow>
   do { (val, code) \<leftarrow> packed_of vd; Some (unpack val code) } = Some (result_of vd)"
  by (cases vd) (simp_all add: packed_of_def unpack_def result_of_def)

lemma contiguous_ref: "contiguous cap lst data at = packed_of (ref_read cap lst (drop at data))"
  using contiguous_loop_ref [of 0 cap 0 0 data at] by (simp add: contiguous_def ref_read_def)

lemma short_ref:
  "end \<le> length data \<Longrightarrow>
   do { (val, code) \<leftarrow> short cap lst data at end; Some (unpack val code) } =
     Some (result_of (ref_read cap lst (extent_of data at end)))"
  using short_loop_ref [of 0 cap 0 0 "end" data at]
  by (cases "ref_read cap lst (extent_of data at end)")
    (simp_all add: short_def ref_read_def packed_of_def unpack_def result_of_def)

lemma contiguous_tier:
  assumes "ref_read cap lst (extent_of data at end) \<noteq> VTruncated" and "at \<le> end"
  shows "do { (val, code) \<leftarrow> contiguous cap lst data at; Some (unpack val code) } =
     Some (result_of (ref_read cap lst (extent_of data at end)))"
proof -
  have "ref_read cap lst (drop at data) = ref_read cap lst (extent_of data at end)"
    using assms by (simp add: drop_extent_of [of at "end"] ref_read_append)
  then show ?thesis using assms by (simp add: contiguous_ref unpack_packed_of)
qed

lemma tiers_ref:
  assumes "end \<le> length data"
  shows "tiers cap lst data at end = Some (result_of (ref_read cap lst (extent_of data at end)))"
proof (cases "at < end")
  case False
  then show ?thesis using cap_two
    by (cases cap) (simp_all add: tiers_def extent_of_empty ref_read_def result_of_def)
next
  case True
  define b where "b = data ! at"
  have d: "extent_of data at end = b # extent_of data (Suc at) end"
    using True assms by (simp add: extent_of_Cons b_def)
  show ?thesis
  proof (cases "cont b")
    case False
    obtain k where "cap = Suc (Suc k)" using cap_two by (cases cap; cases "cap - 1") auto
    then have "ref_read cap lst (extent_of data at end) = VDone (unat b) 1"
      using False by (simp add: ref_read_def d)
    then show ?thesis using True assms False
      by (simp add: tiers_def b_def less_CONT_BIT [simplified] Let_def result_of_def)
  next
    case c: True
    show ?thesis
    proof (cases "cap \<le> end - at \<or> \<not> cont (data ! (end - 1))")
      case t: True
      have "ref_read cap lst (extent_of data at end) \<noteq> VTruncated"
      proof
        assume "ref_read cap lst (extent_of data at end) = VTruncated"
        then have s: "end - at < cap" "list_all cont (extent_of data at end)"
          using assms by (simp_all add: ref_read_def ref_step_Truncated)
        with t have "\<not> cont (data ! (end - 1))" by simp
        moreover have "extent_of data at end ! (end - 1 - at) = data ! (end - 1)"
          using True assms by simp
        moreover have "end - 1 - at < length (extent_of data at end)" using True assms by simp
        ultimately show False using s(2) by (metis list_all_length)
      qed
      then show ?thesis using t True c assms contiguous_tier [of data at "end"]
        by (auto simp: tiers_def b_def less_CONT_BIT [simplified] Let_def)
    next
      case f: False
      then show ?thesis using True c assms short_ref [of "end" data at]
        by (auto simp: tiers_def b_def less_CONT_BIT [simplified] Let_def)
    qed
  qed
qed

end

interpretation tag_window: window MAX_LEN32 LAST32
  by unfold_locales simp_all

interpretation len_window: window MAX_LEN32 LAST_LEN
  by unfold_locales simp_all

interpretation value_window: window MAX_LEN64 LAST64
  by unfold_locales simp_all

section \<open>The contract of a reading face\<close>

text \<open>
  What the consumers of the kernel rely on: a face with a window of \<open>fcap\<close> bytes and a class of
  \<open>2 ^ LENGTH('v)\<close> values, which on every extent inside the data is the reference reader.
\<close>

locale varint_face =
  fixes read :: "bytes \<Rightarrow> nat \<Rightarrow> nat \<Rightarrow> (read_fault + ('v::len word \<times> nat)) option"
    and fcap :: nat and flast :: u8
  assumes fcap_pos: "0 < fcap"
    and class_is_type: "(unat flast + 1) * 128 ^ (fcap - 1) = 2 ^ LENGTH('v)"
    and read_ref: "end \<le> length data \<Longrightarrow>
      read data at end = Some (result_of (ref_read fcap flast (extent_of data at end)))"
begin

lemma read_returns: "end \<le> length data \<Longrightarrow> \<exists>r. read data at end = Some r"
  by (simp add: read_ref)

lemma ref_extent_Done:
  assumes "end \<le> length data"
  shows "ref_read fcap flast (extent_of data at end) = VDone r w \<longleftrightarrow>
    0 < w \<and> w \<le> fcap \<and> at + w \<le> end \<and> well_formed (extent_of data at (at + w)) \<and>
    r = varint_nat (extent_of data at (at + w)) \<and> r < 2 ^ LENGTH('v)"
proof (cases "0 < w \<and> at + w \<le> end")
  case True
  then have "take w (extent_of data at end) = extent_of data at (at + w)"
    by (intro take_extent_of) simp
  moreover have "w \<le> length (extent_of data at end)" using True assms by simp arith
  ultimately show ?thesis using True
    by (simp only: ref_read_Done [OF fcap_pos] class_is_type simp_thms)
next
  case False
  then have "\<not> (0 < w \<and> w \<le> length (extent_of data at end))" using assms by auto
  with False show ?thesis unfolding ref_read_Done [OF fcap_pos] by blast
qed

lemma read_Inr:
  assumes "end \<le> length data"
  shows "read data at end = Some (Inr (v, w)) \<longleftrightarrow>
    0 < w \<and> w \<le> fcap \<and> at + w \<le> end \<and> well_formed (extent_of data at (at + w)) \<and>
    unat v = varint_nat (extent_of data at (at + w))"
proof -
  have "read data at end = Some (Inr (v, w)) \<longleftrightarrow>
      (\<exists>r. ref_read fcap flast (extent_of data at end) = VDone r w \<and> v = of_nat r)"
    using assms by (auto simp: read_ref result_of_def split: verdict.splits)
  then show ?thesis
    unfolding ref_extent_Done [OF assms] unat_eq_of_nat_iff by blast
qed

lemma read_width: "end \<le> length data \<Longrightarrow> read data at end = Some (Inr (v, w)) \<Longrightarrow>
    0 < w \<and> w \<le> fcap \<and> at + w \<le> end"
  by (simp add: read_Inr)

text \<open>No forgery: a terminated construct of the full window refuses exactly when its number
  is outside the face's type.\<close>

lemma read_OutOfClass:
  assumes "end \<le> length data"
  shows "read data at end = Some (Inl OutOfClass) \<longleftrightarrow>
    at + fcap \<le> end \<and> well_formed (extent_of data at (at + fcap)) \<and>
    2 ^ LENGTH('v) \<le> varint_nat (extent_of data at (at + fcap))"
proof -
  have t: "take fcap (extent_of data at end) = extent_of data at (at + fcap)" if "at + fcap \<le> end"
    using that by (simp add: extent_of_def min_def)
  have "read data at end = Some (Inl OutOfClass) \<longleftrightarrow>
      ref_read fcap flast (extent_of data at end) = VOutOfClass"
    using assms by (auto simp: read_ref result_of_def split: verdict.splits)
  then show ?thesis
    unfolding ref_read_OutOfClass [OF fcap_pos, of flast, unfolded class_is_type]
    using assms t fcap_pos by auto
qed

lemma read_TooWide:
  "end \<le> length data \<Longrightarrow> read data at end = Some (Inl TooWide) \<longleftrightarrow>
    fcap \<le> end - at \<and> list_all cont (take fcap (extent_of data at end))"
  using ref_step_TooWide [of flast fcap 0 0 "extent_of data at end"]
  by (auto simp: read_ref result_of_def ref_read_def split: verdict.splits)

lemma read_Truncated:
  "end \<le> length data \<Longrightarrow> read data at end = Some (Inl Truncated) \<longleftrightarrow>
    end - at < fcap \<and> list_all cont (extent_of data at end)"
  using ref_step_Truncated [of flast fcap 0 0 "extent_of data at end"]
  by (auto simp: read_ref result_of_def ref_read_def split: verdict.splits)

text \<open>Reading inverts writing, at every lawful width and inside any document.\<close>

lemma read_enc:
  assumes "extent_of data at (at + w) = enc w (unat v)" and "0 < w" "w \<le> fcap"
    and "unat (v :: 'v word) < 128 ^ w" and "at + w \<le> end" "end \<le> length data"
  shows "read data at end = Some (Inr (v, w))"
  using assms by (simp add: read_Inr varint_nat_enc well_formed_enc)

text \<open>Writing inverts reading: what was read is the spelling of the value at the met width.\<close>

lemma read_reemit:
  assumes "end \<le> length data" and "read data at end = Some (Inr (v, w))"
  shows "extent_of data at (at + w) = enc w (unat v)"
proof -
  from assms have "well_formed (extent_of data at (at + w))" "unat v = varint_nat (extent_of data at (at + w))"
    "at + w \<le> end" by (simp_all add: read_Inr)
  with assms enc_varint_nat [of "extent_of data at (at + w)"] show ?thesis by simp
qed

end

lemma ucast_of_nat:
  assumes "LENGTH('a) \<le> LENGTH('b)"
  shows "(ucast (of_nat r :: 'b::len word) :: 'a::len word) = of_nat r"
proof -
  have "(2 :: nat) ^ LENGTH('a) dvd 2 ^ LENGTH('b)" using assms by (rule le_imp_power_dvd)
  then have "r mod 2 ^ LENGTH('b) mod 2 ^ LENGTH('a) = r mod 2 ^ LENGTH('a)" by (rule mod_mod_cancel)
  then show ?thesis by (simp add: word_eq_unat_iff unsigned_ucast_eq unat_of_nat take_bit_eq_mod)
qed

lemma tag_word_ref:
  "end \<le> length data \<Longrightarrow> tag_word data at end =
     Some (result_of (ref_read MAX_LEN32 LAST32 (extent_of data at end)))"
  by (simp add: tag_word_def tolerant_def tag_window.tiers_ref del: varint_constants varint_last_bytes)
    (auto simp: result_of_def ucast_of_nat split: verdict.splits)

lemma value64_ref:
  "end \<le> length data \<Longrightarrow> value64 data at end =
     Some (result_of (ref_read MAX_LEN64 LAST64 (extent_of data at end)))"
  by (simp add: value64_def tolerant_def value_window.tiers_ref del: varint_constants varint_last_bytes)

lemma PayloadLen_new_of_nat:
  "r < 2 ^ 31 \<Longrightarrow> PayloadLen_new (ucast (of_nat r :: u64)) = Some (of_nat r)"
  by (simp add: PayloadLen_new_def ucast_of_nat word_le_nat_alt unat_of_nat)

lemma len_word_ref:
  assumes "end \<le> length data"
  shows "len_word data at end =
     Some (result_of (ref_read MAX_LEN32 LAST_LEN (extent_of data at end)))"
proof -
  have "r < 2 ^ 31" if "ref_read 5 7 (extent_of data at end) = VDone r w" for r w
    using that by (simp add: ref_read_Done)
  then show ?thesis using assms
    by (simp add: len_word_def tolerant_def len_window.tiers_ref del: varint_constants varint_last_bytes)
      (auto simp: result_of_def PayloadLen_new_of_nat split: verdict.splits)
qed

text \<open>The trusted twins differ from the checked faces only in who checks the extent.\<close>

lemma tag_word_trusted_eq: "tag_word_trusted = tag_word"
  by (intro ext) (simp add: tag_word_trusted_def tag_word_def tolerant_trusted_def tolerant_def)

lemma len_word_trusted_eq: "len_word_trusted = len_word"
  by (intro ext) (simp add: len_word_trusted_def len_word_def tolerant_trusted_def tolerant_def)

lemma value64_trusted_eq: "value64_trusted = value64"
  by (intro ext) (simp add: value64_trusted_def value64_def tolerant_trusted_def tolerant_def)

interpretation tag_face: varint_face tag_word MAX_LEN32 LAST32
  by unfold_locales (simp_all add: tag_word_ref)

interpretation len_face: varint_face len_word MAX_LEN32 LAST_LEN
  by unfold_locales (simp_all add: len_word_ref)

interpretation value_face: varint_face value64 MAX_LEN64 LAST64
  by unfold_locales (simp_all add: value64_ref)

section \<open>The width-only walk and the unchecked re-read\<close>

lemma width64_loop_ref:
  "10 = i + n \<Longrightarrow> 0 < n \<Longrightarrow> end \<le> length data \<Longrightarrow>
   width64_loop data at end i =
     Some (map_sum id snd (result_of (ref_step LAST64 n i v (extent_of data (at + i) end))
             :: read_fault + (u64 \<times> nat)))"
proof (induction n arbitrary: i v)
  case (Suc n)
  show ?case
  proof (cases "at + i < end")
    case False
    then show ?thesis
      by (subst width64_loop.simps) (simp add: extent_of_empty result_of_def)
  next
    case True
    define b where "b = data ! (at + i)"
    have d: "extent_of data (at + i) end = b # extent_of data (at + Suc i) end"
      using True Suc.prems by (simp add: extent_of_Cons b_def)
    show ?thesis
    proof (cases "cont b \<and> 0 < n")
      case c: True
      have "width64_loop data at end i = width64_loop data at end (Suc i)"
        using True c Suc.prems
        by (subst width64_loop.simps) (simp add: b_def less_CONT_BIT [simplified] Let_def)
      also have "\<dots> = Some (map_sum id snd (result_of (ref_step LAST64 n (Suc i)
          (v + unat b mod 128 * 128 ^ i) (extent_of data (at + Suc i) end))
             :: read_fault + (u64 \<times> nat)))"
        using Suc.prems c by (intro Suc.IH) auto
      finally show ?thesis using c by (simp add: d id_def)
    next
      case c: False
      then show ?thesis using True Suc.prems
        by (subst width64_loop.simps)
          (auto simp: b_def less_CONT_BIT [simplified] Let_def d result_of_def)
    qed
  qed
qed simp

lemma width64_trusted_ref:
  assumes "end \<le> length data"
  shows "width64_trusted data at end = map_option (map_sum id snd) (value64 data at end)"
  using width64_loop_ref [of 0 10 "end" data at 0] assms
  by (simp add: width64_trusted_def value64_ref ref_read_def)

lemma unchecked_loop_contiguous:
  "contiguous_loop cap lst data at val i = Some (r, PcWidth w) \<Longrightarrow>
   unchecked_loop data at val i = Some r"
proof (induction cap lst data at val i rule: contiguous_loop.induct)
  case (1 cap lst data at val i)
  then show ?case
    by (subst unchecked_loop.simps, subst (asm) contiguous_loop.simps)
      (auto simp: Let_def split: if_splits)
qed

lemma value64_unchecked_ref:
  assumes "value64 data at end = Some (Inr (v, w))" and "end \<le> length data"
  shows "value64_unchecked data at = Some v"
proof -
  from assms have d: "ref_read 10 1 (extent_of data at end) = VDone (unat v) w"
    by (auto simp: value64_ref result_of_def ref_read_Done unat_of_nat split: verdict.splits)
  moreover have "at \<le> end" using value_face.read_width [OF assms(2,1)] by simp
  ultimately have "ref_read 10 1 (drop at data) = VDone (unat v) w"
    by (simp add: drop_extent_of [of at "end"] ref_read_append)
  then have "contiguous 10 1 data at = Some (v, PcWidth w)"
    using value_window.contiguous_ref [of data at] by (simp add: packed_of_def)
  then show ?thesis
    by (simp add: contiguous_def value64_unchecked_def unchecked_loop_contiguous)
qed

section \<open>Properties\<close>

text \<open>C30: The padded writer and the value reader are inverse inside any document: what \<open>emit64_at\<close>
  wrote at any lawful width reads back as the value and that width, whatever surrounds it.\<close>

theorem value64_reads_emit64_at:
  assumes "encoded_len64 v \<le> w" "w \<le> 10" "w \<le> length out"
  shows "\<exists>bs. emit64_at v w out = Some bs \<and>
    value64 (pre @ take w bs @ post) (length pre) (length pre + w + length post) = Some (Inr (v, w))"
proof -
  have w: "0 < w" "unat v < 128 ^ w"
    using assms encoded_len64_pos [of v] encoded_len64_least [of w v] by auto
  have "value64 (pre @ enc w (unat v) @ post) (length pre) (length pre + w + length post) = Some (Inr (v, w))"
    using w assms by (intro value_face.read_enc) (simp_all add: extent_of_def)
  with emit64_at_enc [OF assms] show ?thesis by simp
qed

lemma value64_reads_emit64_at_witness:
  "\<exists>bs. emit64_at 300 3 [0, 0, 0, 7] = Some bs \<and>
     value64 ([9] @ take 3 bs @ [8]) (length [9 :: u8]) (length [9 :: u8] + 3 + length [8 :: u8]) = Some (Inr (300, 3))"
proof -
  have "encoded_len64 300 \<le> 3" by code_simp
  then show ?thesis by (intro value64_reads_emit64_at) simp_all
qed

text \<open>The tag face reads back what the 32-bit writer wrote, at every lawful width.\<close>

theorem tag_word_reads_emit32_at:
  assumes "encoded_len32 word \<le> w" "w \<le> 5" "w \<le> length out"
  shows "\<exists>bs. emit32_at word w out = Some bs \<and>
    tag_word (pre @ take w bs @ post) (length pre) (length pre + w + length post) = Some (Inr (word, w))"
proof -
  have w: "0 < w" "unat word < 128 ^ w"
    using assms encoded_len32_pos [of word] encoded_len32_least [of w word] by auto
  have "tag_word (pre @ enc w (unat word) @ post) (length pre) (length pre + w + length post) = Some (Inr (word, w))"
    using w assms by (intro tag_face.read_enc) (simp_all add: extent_of_def)
  with emit32_at_enc [OF assms] show ?thesis by simp
qed

lemma tag_word_reads_emit32_at_witness:
  "\<exists>bs. emit32_at 10 2 [0, 0] = Some bs \<and>
     tag_word ([] @ take 2 bs @ [5]) (length ([] :: bytes)) (length ([] :: bytes) + 2 + length [5 :: u8]) = Some (Inr (10, 2))"
proof -
  have "encoded_len32 10 \<le> 2" by code_simp
  then show ?thesis by (intro tag_word_reads_emit32_at) simp_all
qed

text \<open>C29: The value face accepts exactly the terminated constructs of at most ten bytes inside the
  extent whose number fits \<open>u64\<close>, and answers their value and width.\<close>

theorem value64_accepts:
  assumes "end \<le> length data"
  shows "value64 data at end = Some (Inr (v, w)) \<longleftrightarrow>
    0 < w \<and> w \<le> 10 \<and> at + w \<le> end \<and> well_formed (extent_of data at (at + w)) \<and>
    unat v = varint_nat (extent_of data at (at + w))"
  using value_face.read_Inr [OF assms] by simp

lemma value64_accepts_witness: "value64 [0xAC, 0x02, 0x55] 0 3 = Some (Inr (300, 2))"
  by (subst value64_accepts) (simp_all add: well_formed_def extent_of_def cont_def)

text \<open>No forgery. A face refuses a full-window terminated construct as out of its class exactly
  when the number does not fit the face's type: 64 bits for values, 32 for tags, 31 for lengths.\<close>

theorem faces_out_of_class:
  assumes "end \<le> length data"
  shows "(value64 data at end = Some (Inl OutOfClass) \<longleftrightarrow>
      at + 10 \<le> end \<and> well_formed (extent_of data at (at + 10)) \<and>
      2 ^ 64 \<le> varint_nat (extent_of data at (at + 10))) \<and>
    (tag_word data at end = Some (Inl OutOfClass) \<longleftrightarrow>
      at + 5 \<le> end \<and> well_formed (extent_of data at (at + 5)) \<and>
      2 ^ 32 \<le> varint_nat (extent_of data at (at + 5))) \<and>
    (len_word data at end = Some (Inl OutOfClass) \<longleftrightarrow>
      at + 5 \<le> end \<and> well_formed (extent_of data at (at + 5)) \<and>
      2 ^ 31 \<le> varint_nat (extent_of data at (at + 5)))"
  using value_face.read_OutOfClass [OF assms, of at] tag_face.read_OutOfClass [OF assms, of at]
    len_face.read_OutOfClass [OF assms, of at] by simp

lemma faces_out_of_class_witness: "len_word [0xFF, 0xFF, 0xFF, 0xFF, 0x08] 0 5 = Some (Inl OutOfClass)"
  using faces_out_of_class [of 5 "[0xFF, 0xFF, 0xFF, 0xFF, 0x08]" 0]
  by (simp add: well_formed_def extent_of_def cont_unat)

text \<open>On every extent inside the slice each face, checked or trusted, returns: no panic, no read
  past the slice, and no length outside its class reaches the unchecked construction.\<close>

theorem faces_return:
  assumes "end \<le> length data"
  shows "(\<exists>r. tag_word data at end = Some r) \<and> (\<exists>r. tag_word_trusted data at end = Some r) \<and>
    (\<exists>r. len_word data at end = Some r) \<and> (\<exists>r. len_word_trusted data at end = Some r) \<and>
    (\<exists>r. value64 data at end = Some r) \<and> (\<exists>r. value64_trusted data at end = Some r) \<and>
    (\<exists>r. width64_trusted data at end = Some r)"
proof (intro conjI)
  show "\<exists>r. tag_word data at end = Some r" by (rule tag_face.read_returns [OF assms])
  then show "\<exists>r. tag_word_trusted data at end = Some r" by (simp add: tag_word_trusted_eq)
  show "\<exists>r. len_word data at end = Some r" by (rule len_face.read_returns [OF assms])
  then show "\<exists>r. len_word_trusted data at end = Some r" by (simp add: len_word_trusted_eq)
  show v: "\<exists>r. value64 data at end = Some r" by (rule value_face.read_returns [OF assms])
  then show "\<exists>r. value64_trusted data at end = Some r" by (simp add: value64_trusted_eq)
  from v show "\<exists>r. width64_trusted data at end = Some r" using width64_trusted_ref [OF assms] by auto
qed

lemma faces_return_witness: "\<exists>r. value64_trusted [0x80, 0x80] 1 2 = Some r"
  using faces_return [of 2 "[0x80, 0x80]" 1] by simp

text \<open>The width-only walk is the value face with the value forgotten.\<close>

theorem width64_is_value64_width:
  assumes "end \<le> length data"
  shows "width64_trusted data at end = map_option (map_sum id snd) (value64 data at end)"
  by (rule width64_trusted_ref [OF assms])

lemma width64_is_value64_width_witness:
  "width64_trusted [0x96, 0x01] 0 2 = map_option (map_sum id snd) (value64 [0x96, 0x01] 0 2)"
  by (rule width64_is_value64_width) simp

text \<open>The unchecked re-read of a construct some validated read accepted returns, and returns the
  same value.\<close>

theorem value64_unchecked_rereads:
  assumes "value64 data at end = Some (Inr (v, w))" and "end \<le> length data"
  shows "value64_unchecked data at = Some v"
  by (rule value64_unchecked_ref [OF assms])

lemma value64_unchecked_rereads_witness: "value64_unchecked [0x96, 0x01] 0 = Some 150"
proof (rule value64_unchecked_rereads)
  show "value64 [0x96, 0x01] 0 2 = Some (Inr (150, 2))"
    by (simp add: value_face.read_Inr well_formed_def extent_of_def cont_unat)
qed simp

end
