(* ===== verification/Carry.thy ===== *)
theory Carry
  imports Slice
begin

text \<open>
  The streaming reading kernel (\<open>src/src/varint/carry.rs\<close>): one construct reassembled across
  chunk boundaries. A carry holds the bytes met so far and their value; a step consumes chunk
  bytes up to a sealed endpoint and reports completion, suspension (\<open>StMore\<close>), the endpoint
  (\<open>StCut\<close>) or a refusal. Its one-pass path over a fresh carry and its resumable path are both
  proved to be the reference reader on "bytes held, then bytes of the zone", which makes every
  result independent of where the chunks are cut.

  The source's ten-byte buffer with a length is the list of its initialised bytes. A \<open>Complete\<close>
  borrow is the carry still holding the construct; consuming it is \<open>carry_clear\<close>, \<open>retain\<close>
  keeps the bytes.
\<close>

section \<open>State and results\<close>

datatype 'a step = StDone 'a | StMore | StCut | StTooWide | StOutOfClass

datatype collect = CoDone | CoMore | CoCut

record carry =
  acc :: u64
  cbuf :: bytes

definition carry_new :: carry where
  "carry_new = \<lparr>acc = 0, cbuf = []\<rparr>"

definition carry_bytes :: "carry \<Rightarrow> bytes" where
  "carry_bytes c = cbuf c"

definition carry_len :: "carry \<Rightarrow> nat" where
  "carry_len c = length (cbuf c)"

definition carry_is_empty :: "carry \<Rightarrow> bool" where
  "carry_is_empty c \<longleftrightarrow> carry_len c = 0"

definition carry_clear :: "carry \<Rightarrow> carry" where
  "carry_clear c = c\<lparr>acc := 0, cbuf := []\<rparr>"

section \<open>Stepping\<close>

text \<open>The resumable path, one byte per turn.\<close>

function step_resumable ::
  "nat \<Rightarrow> u8 \<Rightarrow> carry \<Rightarrow> bytes \<Rightarrow> nat \<Rightarrow> nat \<Rightarrow> carry \<times> bytes \<times> nat \<times> u64 step" where
  "step_resumable cap lst c chunk off zone_end =
     (if carry_len c < cap then
        if off = zone_end then (c, chunk, off, StCut)
        else
          (case chunk of
             [] \<Rightarrow> (c, chunk, off, StMore)
           | byte # rest \<Rightarrow>
               let c' = c\<lparr>acc := acc c OR push_bit (PAYLOAD_BITS * carry_len c)
                                        (ucast byte AND PAYLOAD_MASK),
                          cbuf := cbuf c @ [byte]\<rparr>;
                   off' = off + 1 in
               if byte < CONT_BIT then
                 if carry_len c' = cap \<and> byte > lst then (c', rest, off', StOutOfClass)
                 else (c', rest, off', StDone (acc c'))
               else step_resumable cap lst c' rest off' zone_end)
      else (c, chunk, off, StTooWide))"
  by pat_completeness auto
termination
  by (relation "measure (\<lambda>(cap, lst, c, chunk, off, zone_end). length chunk)") auto

declare step_resumable.simps [simp del]

text \<open>The one-pass loop over a fresh carry: it stores each byte, gathers the value and stops at
  the cap or at a terminal byte. The result is the bytes stored, the value, the last byte
  read and the width (0 at the cap).\<close>

function fresh_loop :: "nat \<Rightarrow> bytes \<Rightarrow> bytes \<Rightarrow> u64 \<Rightarrow> nat \<Rightarrow> u8 \<Rightarrow> (bytes \<times> u64 \<times> u8 \<times> nat) option" where
  "fresh_loop cap chunk buf val i byte =
     (if i = cap then Some (buf, val, byte, 0)
      else if i < length chunk \<and> i < 10 then
        let byte' = chunk ! i;
            buf' = buf @ [byte'];
            val' = val OR push_bit (PAYLOAD_BITS * i) (ucast byte' AND PAYLOAD_MASK);
            i' = i + 1 in
        if byte' < CONT_BIT then Some (buf', val', byte', i')
        else fresh_loop cap chunk buf' val' i' byte'
      else None)"
  by pat_completeness auto
termination
  by (relation "measure (\<lambda>(cap, chunk, buf, val, i, byte). length chunk - i)") auto

declare fresh_loop.simps [simp del]

definition carry_step ::
  "nat \<Rightarrow> u8 \<Rightarrow> carry \<Rightarrow> bytes \<Rightarrow> nat \<Rightarrow> nat \<Rightarrow> (carry \<times> bytes \<times> nat \<times> u64 step) option" where
  "carry_step CAP lst c chunk off zone_end =
     (let win = zone_end - off;
          cap = (if CAP \<le> win then CAP else win) in
      if carry_len c = 0 \<and> cap > 0 \<and> cap \<le> length chunk then
        do { (buf, val, byte, width) \<leftarrow> fresh_loop cap chunk [] 0 0 0;
             let i = length buf;
                 c' = c\<lparr>cbuf := buf\<rparr>;
                 off' = off + i;
                 rest = drop i chunk in
             Some (c', rest, off',
                   if width = 0 then (if cap = CAP then StTooWide else StCut)
                   else if width = CAP \<and> byte > lst then StOutOfClass
                   else StDone val) }
      else Some (step_resumable CAP lst c chunk off zone_end))"

definition step_tag :: "carry \<Rightarrow> bytes \<Rightarrow> nat \<Rightarrow> nat \<Rightarrow> (carry \<times> bytes \<times> nat \<times> u32 step) option" where
  "step_tag c chunk off zone_end =
     do { (c', chunk', off', r) \<leftarrow> carry_step MAX_LEN32 LAST32 c chunk off zone_end;
          Some (c', chunk', off',
            (case r of StDone val \<Rightarrow> StDone (ucast val) | StMore \<Rightarrow> StMore | StCut \<Rightarrow> StCut
             | StTooWide \<Rightarrow> StTooWide | StOutOfClass \<Rightarrow> StOutOfClass)) }"

definition step_len ::
  "carry \<Rightarrow> bytes \<Rightarrow> nat \<Rightarrow> nat \<Rightarrow> (carry \<times> bytes \<times> nat \<times> payload_len step) option" where
  "step_len c chunk off zone_end =
     do { (c', chunk', off', r) \<leftarrow> carry_step MAX_LEN32 LAST_LEN c chunk off zone_end;
          (case r of
             StDone val \<Rightarrow> do { len \<leftarrow> PayloadLen_new (ucast val); Some (c', chunk', off', StDone len) }
           | StMore \<Rightarrow> Some (c', chunk', off', StMore)
           | StCut \<Rightarrow> Some (c', chunk', off', StCut)
           | StTooWide \<Rightarrow> Some (c', chunk', off', StTooWide)
           | StOutOfClass \<Rightarrow> Some (c', chunk', off', StOutOfClass)) }"

definition step_value64 ::
  "carry \<Rightarrow> bytes \<Rightarrow> nat \<Rightarrow> nat \<Rightarrow> (carry \<times> bytes \<times> nat \<times> u64 step) option" where
  "step_value64 c chunk off zone_end = carry_step MAX_LEN64 LAST64 c chunk off zone_end"

text \<open>\<open>collect\<close> gathers a fixed-width payload; its contract is the \<open>assert_unchecked\<close> of the
  source.\<close>

definition carry_collect ::
  "carry \<Rightarrow> bytes \<Rightarrow> nat \<Rightarrow> nat \<Rightarrow> nat \<Rightarrow> (carry \<times> bytes \<times> nat \<times> collect) option" where
  "carry_collect c chunk off zone_end need =
     (if need \<le> 10 \<and> carry_len c \<le> need \<and> off \<le> zone_end then
        let missing = need - carry_len c;
            zone_room = zone_end - off;
            tk = min (min missing zone_room) (length chunk);
            c' = c\<lparr>cbuf := cbuf c @ take tk chunk\<rparr>;
            off' = off + tk;
            rest = drop tk chunk in
        Some (c', rest, off',
          if carry_len c' = need then CoDone else if off' = zone_end then CoCut else CoMore)
      else None)"

section \<open>The step is the reference reader\<close>

text \<open>A suspended construct: continuation bytes only, short of the window, with their value.\<close>

definition carry_open :: "nat \<Rightarrow> carry \<Rightarrow> bool" where
  "carry_open cap c \<longleftrightarrow>
     carry_len c < cap \<and> list_all cont (cbuf c) \<and> unat (acc c) = varint_nat (cbuf c)"

definition taken :: "nat \<Rightarrow> nat \<Rightarrow> nat \<Rightarrow> verdict \<Rightarrow> nat" where
  "taken cap held avail vd =
     (case vd of VDone r w \<Rightarrow> w - held | VTruncated \<Rightarrow> avail | _ \<Rightarrow> cap - held)"

definition step_result :: "bool \<Rightarrow> verdict \<Rightarrow> u64 step" where
  "step_result sealed vd =
     (case vd of VDone r w \<Rightarrow> StDone (of_nat r) | VTooWide \<Rightarrow> StTooWide | VOutOfClass \<Rightarrow> StOutOfClass
      | VTruncated \<Rightarrow> if sealed then StCut else StMore)"

lemma carry_open_new: "0 < cap \<Longrightarrow> carry_open cap carry_new"
  by (simp add: carry_open_def carry_new_def carry_len_def)

lemma carry_open_clear [simp]: "0 < cap \<Longrightarrow> carry_open cap (carry_clear c)"
  by (simp add: carry_open_def carry_clear_def carry_len_def)

text \<open>What one step must do: continue the reference reader over the zone's bytes, consume exactly
  what it read, keep every byte it consumed, and stay open when it suspends.\<close>

definition step_spec ::
  "nat \<Rightarrow> u8 \<Rightarrow> carry \<Rightarrow> bytes \<Rightarrow> nat \<Rightarrow> nat \<Rightarrow> carry \<times> bytes \<times> nat \<times> u64 step \<Rightarrow> bool" where
  "step_spec cap lst c chunk off z out \<longleftrightarrow>
     (let zone = take (z - off) chunk;
          vd = ref_step lst (cap - carry_len c) (carry_len c) (varint_nat (cbuf c)) zone;
          k = taken cap (carry_len c) (length zone) vd in
      case out of (c', chunk', off', r) \<Rightarrow>
        chunk' = drop k chunk \<and> off' = off + k \<and> k \<le> length zone \<and>
        r = step_result (z - off \<le> length chunk) vd \<and>
        cbuf c' = cbuf c @ take k chunk \<and> (r = StMore \<longrightarrow> carry_open cap c'))"

lemma ref_step_Done_less: "ref_step l n i v bs = VDone r w \<Longrightarrow> i < w"
  by (auto simp: ref_step_Done)

lemma step_spec_Cons:
  assumes "step_spec cap lst c' rest (Suc off) z out" and b: "cont b"
    and "cbuf c' = cbuf c @ [b]" "carry_len c < cap" "off < z"
  shows "step_spec cap lst c (b # rest) off z out"
proof -
  obtain q d where q: "cap - carry_len c = Suc q" and d: "z - off = Suc d" "z - Suc off = d"
    using assms by (cases "cap - carry_len c"; cases "z - off") auto
  have l: "carry_len c' = Suc (carry_len c)" "cap - Suc (carry_len c) = q"
    using assms q by (simp_all add: carry_len_def)
  have v: "varint_nat (cbuf c') = varint_nat (cbuf c) + unat b mod 128 * 128 ^ carry_len c"
    by (simp add: assms varint_nat_append carry_len_def)
  define vd where "vd = ref_step lst q (Suc (carry_len c))
    (varint_nat (cbuf c) + unat b mod 128 * 128 ^ carry_len c) (take d rest)"
  have outer: "ref_step lst (cap - carry_len c) (carry_len c) (varint_nat (cbuf c))
      (take (z - off) (b # rest)) = vd"
    using b by (simp add: q d vd_def)
  have inner: "ref_step lst (cap - carry_len c') (carry_len c') (varint_nat (cbuf c'))
      (take (z - Suc off) rest) = vd"
    by (simp add: l v d vd_def)
  have k: "taken cap (carry_len c) (Suc (length (take d rest))) vd =
      Suc (taken cap (Suc (carry_len c)) (length (take d rest)) vd)"
  proof (cases vd)
    case (VDone r w)
    then have "Suc (carry_len c) < w" unfolding vd_def by (rule ref_step_Done_less)
    with VDone show ?thesis by (simp add: taken_def)
  qed (use q in \<open>auto simp: taken_def\<close>)
  show ?thesis using assms(1) k unfolding step_spec_def Let_def outer inner
    by (auto simp: d l assms(3))
qed

context window
begin

lemma fresh_loop_ref:
  assumes "m = i + n" "m \<le> cap" "m \<le> length chunk" "buf = take i chunk"
    and "0 < n \<Longrightarrow> unat val = v \<and> v < 128 ^ i"
  shows "\<exists>val' byte' k w. fresh_loop m chunk buf val i byte = Some (take k chunk, val', byte', w) \<and> k \<le> m \<and>
    (case ref_step lst (cap - i) i v (take n (drop i chunk)) of
       VDone r w' \<Rightarrow> w = w' \<and> k = w' \<and> 0 < w' \<and> val' = of_nat r \<and> \<not> (w' = cap \<and> lst < byte')
     | VOutOfClass \<Rightarrow> k = cap \<and> w = cap \<and> lst < byte'
     | VTooWide \<Rightarrow> m = cap \<and> k = cap \<and> w = 0
     | VTruncated \<Rightarrow> m < cap \<and> k = m \<and> w = 0)"
  using assms
proof (induction n arbitrary: i v val buf byte)
  case 0
  then have "fresh_loop m chunk buf val i byte = Some (take m chunk, val, byte, 0)"
    by (subst fresh_loop.simps) simp
  moreover have "ref_step lst (cap - i) i v [] = (if m = cap then VTooWide else VTruncated)"
    using 0 by (cases "cap - i") auto
  ultimately show ?case using 0 by auto
next
  case (Suc n)
  define b where "b = chunk ! i"
  have i: "i < length chunk" "i < 10" "i \<noteq> m" using Suc.prems cap_le by simp_all
  have d: "take (Suc n) (drop i chunk) = b # take n (drop (Suc i) chunk)"
    using i by (simp add: b_def Cons_nth_drop_Suc [symmetric])
  have t: "take i chunk @ [b] = take (Suc i) chunk"
    using i by (simp add: take_Suc_conv_app_nth b_def)
  obtain q where q: "cap - i = Suc q" using Suc.prems by (cases "cap - i") auto
  show ?case
  proof (cases "cont b")
    case True
    let ?val = "val OR push_bit (7 * i) (ucast b AND 127) :: u64"
    have "fresh_loop m chunk buf val i byte = fresh_loop m chunk (take (Suc i) chunk) ?val (Suc i) b"
      using i True Suc.prems
      by (subst fresh_loop.simps) (simp add: b_def [symmetric] Let_def less_CONT_BIT [simplified] t)
    moreover have "0 < n \<Longrightarrow> unat ?val = v + unat b mod 128 * 128 ^ i \<and> v + unat b mod 128 * 128 ^ i < 128 ^ Suc i"
      using Suc.prems cont_step [of i val v b] by auto
    note Suc.IH [of "Suc i" "take (Suc i) chunk" ?val "v + unat b mod 128 * 128 ^ i" b, OF _ _ _ _ this]
    ultimately show ?thesis using Suc.prems True q
      by (simp add: d Suc_diff_Suc [symmetric])
  next
    case False
    let ?val = "val OR push_bit (7 * i) (ucast b) :: u64"
    have a: "(ucast b AND 127 :: u64) = ucast b"
      using False by (simp add: word_eq_unat_iff unat_and_mask7 cont_unat)
    have f: "fresh_loop m chunk buf val i byte = Some (take (Suc i) chunk, ?val, b, Suc i)"
      using i False Suc.prems
      by (subst fresh_loop.simps) (simp add: b_def [symmetric] Let_def less_CONT_BIT [simplified] t a push_bit_and [symmetric]
            del: push_bit_and)
    show ?thesis
    proof (cases "q = 0 \<and> lst < b")
      case True
      moreover from this q have "cap = Suc i" by simp
      ultimately show ?thesis using f False Suc.prems unfolding d q
        by (intro exI [of _ ?val] exI [of _ b] exI [of _ "Suc i"]) (simp add: d)
    next
      case ok: False
      have "unat ?val = v + unat b * 128 ^ i"
        using Suc.prems False ok q by (intro terminal_step) auto
      then have "?val = of_nat (v + unat b * 128 ^ i)" by (metis word_of_nat_unat)
      then show ?thesis using f False q ok Suc.prems by (auto simp: d simp del: of_nat_add)
    qed
  qed
qed

text \<open>The resumable loop, from any carry of continuation bytes.\<close>

lemma step_resumable_ref:
  assumes "carry_len c \<le> cap" "list_all cont (cbuf c)"
    and "carry_len c < cap \<Longrightarrow> unat (acc c) = varint_nat (cbuf c)" and "off \<le> z"
  shows "step_spec cap lst c chunk off z (step_resumable cap lst c chunk off z)"
  using assms
proof (induction chunk arbitrary: c off)
  case Nil
  then show ?case
    by (subst step_resumable.simps)
      (cases "cap - carry_len c"; auto simp: step_spec_def taken_def step_result_def carry_open_def)
next
  case (Cons b rest)
  let ?i = "carry_len c" and ?v = "varint_nat (cbuf c)"
  show ?case
  proof (cases "?i < cap \<and> off \<noteq> z")
    case False
    then show ?thesis using Cons.prems
      by (subst step_resumable.simps)
        (cases "cap - carry_len c"; auto simp: step_spec_def taken_def step_result_def carry_open_def)
  next
    case True
    then obtain q where q: "cap - ?i = Suc q" by (cases "cap - carry_len c") auto
    have v: "unat (acc c) = ?v" "?v < 128 ^ ?i"
      using Cons.prems True varint_nat_less [of "cbuf c"] by (simp_all add: carry_len_def)
    have vb: "varint_nat (cbuf c @ [b]) = ?v + unat b mod 128 * 128 ^ ?i"
      by (simp add: varint_nat_append carry_len_def)
    obtain d where d: "z - off = Suc d" "z - Suc off = d" using True Cons.prems by (cases "z - off") auto
    show ?thesis
    proof (cases "cont b")
      case b: True
      let ?c = "c\<lparr>acc := acc c OR push_bit (7 * ?i) (ucast b AND 127), cbuf := cbuf c @ [b]\<rparr>"
      have l: "carry_len ?c = Suc ?i" by (simp add: carry_len_def)
      have s: "step_resumable cap lst c (b # rest) off z = step_resumable cap lst ?c rest (Suc off) z"
        using True b by (subst step_resumable.simps) (simp add: Let_def less_CONT_BIT [simplified])
      have "carry_len ?c < cap \<Longrightarrow> unat (acc ?c) = varint_nat (cbuf ?c)"
        using cont_step(1) [of ?i "acc c" ?v b] v True unfolding l by (simp add: vb)
      then have "step_spec cap lst ?c rest (Suc off) z (step_resumable cap lst ?c rest (Suc off) z)"
        using Cons.prems(2,4) True b l by (intro Cons.IH) simp_all
      then show ?thesis unfolding s by (rule step_spec_Cons [OF _ b]) (use True Cons.prems in auto)
    next
      case b: False
      have a: "(ucast b AND 127 :: u64) = ucast b"
        using b by (simp add: word_eq_unat_iff unat_and_mask7 cont_unat)
      let ?val = "acc c OR push_bit (7 * ?i) (ucast b)"
      have s: "step_resumable cap lst c (b # rest) off z =
          (c\<lparr>acc := ?val, cbuf := cbuf c @ [b]\<rparr>, rest, Suc off,
           if Suc ?i = cap \<and> lst < b then StOutOfClass else StDone ?val)"
        using True b by (subst step_resumable.simps)
          (simp add: Let_def less_CONT_BIT [simplified] carry_len_def a push_bit_and [symmetric]
            del: push_bit_and)
      have t: "(Suc ?i = cap \<and> lst < b) = (q = 0 \<and> lst < b)" using q by auto
      have "?val = of_nat (?v + unat b * 128 ^ ?i)" if ok: "\<not> (q = 0 \<and> lst < b)"
      proof -
        have "\<not> (?i = cap - 1 \<and> lst < b)" using ok q by auto
        then have "unat ?val = ?v + unat b * 128 ^ ?i"
          using True b v by (intro terminal_step) simp_all
        then show ?thesis by (metis word_of_nat_unat)
      qed
      then show ?thesis using b q d unfolding s t
        by (auto simp: step_spec_def taken_def step_result_def simp del: of_nat_add)
    qed
  qed
qed

text \<open>Both paths: a step over an open carry returns, and does what the reference reader does.\<close>

lemma carry_step_ref:
  assumes c: "carry_open cap c" and "off \<le> z"
  shows "\<exists>out. carry_step cap lst c chunk off z = Some out \<and> step_spec cap lst c chunk off z out"
proof -
  define m where "m = (if cap \<le> z - off then cap else z - off)"
  have m: "m \<le> cap" "m \<le> z - off" "m = cap \<or> m = z - off" by (auto simp: m_def)
  show ?thesis
  proof (cases "carry_len c = 0 \<and> m > 0 \<and> m \<le> length chunk")
    case False
    then have "carry_step cap lst c chunk off z = Some (step_resumable cap lst c chunk off z)"
      by (simp only: carry_step_def Let_def if_False m_def [symmetric])
    moreover have "step_spec cap lst c chunk off z (step_resumable cap lst c chunk off z)"
      using assms by (intro step_resumable_ref) (simp_all add: carry_open_def)
    ultimately show ?thesis by blast
  next
    case True
    then have e: "cbuf c = []" "carry_len c = 0" "m \<le> length chunk" by (simp_all add: carry_len_def)
    define vd where "vd = ref_step lst cap 0 0 (take m chunk)"
    obtain val byte k w where f: "fresh_loop m chunk [] 0 0 0 = Some (take k chunk, val, byte, w)" "k \<le> m"
      and r: "case vd of
         VDone r w' \<Rightarrow> w = w' \<and> k = w' \<and> 0 < w' \<and> val = of_nat r \<and> \<not> (w' = cap \<and> lst < byte)
       | VOutOfClass \<Rightarrow> k = cap \<and> w = cap \<and> lst < byte
       | VTooWide \<Rightarrow> m = cap \<and> k = cap \<and> w = 0
       | VTruncated \<Rightarrow> m < cap \<and> k = m \<and> w = 0"
      using fresh_loop_ref [of m 0 m chunk "[]" 0 0 0] m e by (auto simp: vd_def)
    have k: "length (take k chunk) = k" using f e by simp
    have s: "carry_step cap lst c chunk off z = Some (c\<lparr>cbuf := take k chunk\<rparr>, drop k chunk, off + k,
          if w = 0 then (if m = cap then StTooWide else StCut)
          else if w = cap \<and> byte > lst then StOutOfClass else StDone val)"
      unfolding carry_step_def Let_def m_def [symmetric] using True f k by simp
    have z: "ref_step lst (cap - carry_len c) (carry_len c) (varint_nat (cbuf c)) (take (z - off) chunk) = vd"
    proof (cases "m = cap")
      case True
      have "take (z - off) chunk = take m chunk @ drop m (take (z - off) chunk)"
        using m append_take_drop_id [of m "take (z - off) chunk"] by (simp add: min_absorb1)
      moreover have "vd \<noteq> VTruncated" using r True by auto
      ultimately show ?thesis unfolding vd_def using e by (metis diff_zero ref_step_append varint_nat.simps(1))
    next
      case False
      with m e show ?thesis by (simp add: vd_def)
    qed
    have t: "k = taken cap (carry_len c) (length (take (z - off) chunk)) vd"
      using r m e by (cases vd) (auto simp: taken_def)
    have res: "(if w = 0 then (if m = cap then StTooWide else StCut)
        else if w = cap \<and> byte > lst then StOutOfClass else StDone val) =
      step_result (z - off \<le> length chunk) vd"
      using r m e cap_two by (cases vd) (auto simp: step_result_def)
    have more: "step_result (z - off \<le> length chunk) vd \<noteq> StMore"
      using r m e by (cases vd) (auto simp: step_result_def)
    have "step_spec cap lst c chunk off z (c\<lparr>cbuf := take k chunk\<rparr>, drop k chunk, off + k,
        step_result (z - off \<le> length chunk) vd)"
      using f m e more unfolding step_spec_def Let_def z t [symmetric] by auto
    with s res show ?thesis by simp
  qed
qed

lemma step_more:
  assumes "carry_open cap c" "off \<le> z" and x: "carry_step cap lst c x off z = Some (c1, x1, off1, StMore)"
  shows "x1 = []" "off1 = off + length x" "length x < z - off" "cbuf c1 = cbuf c @ x" "carry_open cap c1"
    "ref_step lst (cap - carry_len c) (carry_len c) (varint_nat (cbuf c)) x = VTruncated"
proof -
  from carry_step_ref [OF assms(1,2), of x] x
  have s: "step_spec cap lst c x off z (c1, x1, off1, StMore)" by simp
  define vd where "vd = ref_step lst (cap - carry_len c) (carry_len c) (varint_nat (cbuf c)) (take (z - off) x)"
  from s have "StMore = step_result (z - off \<le> length x) vd"
    by (simp add: step_spec_def Let_def vd_def)
  then have "vd = VTruncated" and l: "length x < z - off"
    by (simp_all add: step_result_def split: verdict.splits if_splits)
  with s show "x1 = []" "off1 = off + length x" "length x < z - off" "cbuf c1 = cbuf c @ x" "carry_open cap c1"
    "ref_step lst (cap - carry_len c) (carry_len c) (varint_nat (cbuf c)) x = VTruncated"
    unfolding vd_def by (simp_all add: step_spec_def Let_def taken_def)
qed

lemma taken_append:
  assumes "ref_step lst n (i + j) v bs = vd" and "i + j < cap"
  shows "taken cap i (j + a) vd = j + taken cap (i + j) a vd"
proof (cases vd)
  case (VDone r w)
  with assms have "i + j < w" using ref_step_Done_less by blast
  with VDone show ?thesis by (simp add: taken_def)
qed (use assms in \<open>auto simp: taken_def\<close>)

text \<open>A chunk boundary inside the construct changes nothing: the step over \<open>x @ y\<close> is the step
  over \<open>x\<close> and, when that suspends, the step over \<open>y\<close>.\<close>

lemma step_split_more:
  assumes o: "carry_open cap c" and off: "off \<le> z"
    and x: "carry_step cap lst c x off z = Some (c1, x1, off1, StMore)"
    and y: "carry_step cap lst c1 y off1 z = Some (c2, y2, off2, r2)"
  shows "\<exists>c3. carry_step cap lst c (x @ y) off z = Some (c3, y2, off2, r2) \<and> cbuf c3 = cbuf c2"
proof -
  note m = step_more [OF o off x]
  let ?i = "carry_len c" and ?j = "length x"
  have l: "carry_len c1 = ?i + ?j" using m by (simp add: carry_len_def)
  have lt: "?i + ?j < cap" using m(5) l by (simp add: carry_open_def)
  have off1: "off1 \<le> z" using m off by simp
  define vd where "vd = ref_step lst (cap - (?i + ?j)) (?i + ?j)
    (varint_nat (cbuf c) + 128 ^ ?i * varint_nat x) (take (z - off1) y)"
  have vy: "ref_step lst (cap - carry_len c1) (carry_len c1) (varint_nat (cbuf c1)) (take (z - off1) y) = vd"
    unfolding vd_def l m(4) by (simp add: varint_nat_append carry_len_def)
  have t: "take (z - off) (x @ y) = x @ take (z - off1) y" using m by simp
  have vx: "ref_step lst (cap - ?i) ?i (varint_nat (cbuf c)) (x @ take (z - off1) y) = vd"
    unfolding vd_def ref_step_append using m(6) by (simp add: mult.commute diff_diff_eq)
  have k: "taken cap ?i (length (x @ take (z - off1) y)) vd = ?j + taken cap (?i + ?j) (length (take (z - off1) y)) vd"
    unfolding length_append using vd_def lt by (intro taken_append) auto
  have sealed: "(z - off \<le> length (x @ y)) = (z - off1 \<le> length y)" using m by auto
  from carry_step_ref [OF m(5) off1, of y] y
  have sy: "step_spec cap lst c1 y off1 z (c2, y2, off2, r2)" by simp
  from carry_step_ref [OF o off, of "x @ y"] obtain c3 q off3 r3
    where s3: "carry_step cap lst c (x @ y) off z = Some (c3, q, off3, r3)"
      and sp: "step_spec cap lst c (x @ y) off z (c3, q, off3, r3)" by auto
  have "q = y2 \<and> off3 = off2 \<and> r3 = r2 \<and> cbuf c3 = cbuf c2"
    using sp sy unfolding step_spec_def Let_def t vx vy unfolding l k sealed by (simp add: m)
  with s3 show ?thesis by simp
qed

lemma step_split_stop:
  assumes o: "carry_open cap c" and off: "off \<le> z"
    and x: "carry_step cap lst c x off z = Some (c1, x1, off1, r1)" and r: "r1 \<noteq> StMore"
  shows "\<exists>c3. carry_step cap lst c (x @ y) off z = Some (c3, x1 @ y, off1, r1) \<and> cbuf c3 = cbuf c1"
proof -
  from carry_step_ref [OF o off, of x] x
  have sx: "step_spec cap lst c x off z (c1, x1, off1, r1)" by simp
  from carry_step_ref [OF o off, of "x @ y"] obtain c3 q off3 r3
    where s3: "carry_step cap lst c (x @ y) off z = Some (c3, q, off3, r3)"
      and sp: "step_spec cap lst c (x @ y) off z (c3, q, off3, r3)" by auto
  define vd where "vd = ref_step lst (cap - carry_len c) (carry_len c) (varint_nat (cbuf c)) (take (z - off) x)"
  define vd2 where "vd2 = ref_step lst (cap - carry_len c) (carry_len c) (varint_nat (cbuf c)) (take (z - off) (x @ y))"
  have rr: "r1 = step_result (z - off \<le> length x) vd"
    using sx by (simp add: step_spec_def Let_def vd_def)
  have v: "vd2 = vd \<and> taken cap (carry_len c) (length (take (z - off) (x @ y))) vd =
      taken cap (carry_len c) (length (take (z - off) x)) vd \<and>
      step_result (z - off \<le> length (x @ y)) vd = step_result (z - off \<le> length x) vd"
  proof (cases "vd = VTruncated")
    case True
    with rr r have "z - off \<le> length x" by (auto simp: step_result_def split: if_splits)
    then show ?thesis by (simp add: vd2_def vd_def)
  next
    case False
    then have "vd2 = vd" unfolding vd2_def vd_def take_append ref_step_append by simp
    with False show ?thesis by (auto simp: taken_def step_result_def split: verdict.splits)
  qed
  define k where "k = taken cap (carry_len c) (length (take (z - off) x)) vd"
  have k: "taken cap (carry_len c) (length (take (z - off) (x @ y))) vd = k" using v by (simp add: k_def)
  have v2: "vd2 = vd" using v by simp
  have "q = x1 @ y \<and> off3 = off1 \<and> r3 = r1 \<and> cbuf c3 = cbuf c1"
    using sx sp v unfolding step_spec_def Let_def vd_def [symmetric] vd2_def [symmetric] v2 k_def [symmetric] k
    by auto
  with s3 show ?thesis by simp
qed

end

section \<open>Suspending readers\<close>

text \<open>The contract of every operation that consumes a chunk and may suspend: it returns, a
  suspension has consumed its whole chunk and left a state to resume, and a boundary between two
  chunks is invisible. \<open>feed\<close> drives such an operation over a list of chunks; the client fact is
  that the list's cuts do not matter.\<close>

fun feed ::
  "('c \<Rightarrow> bytes \<Rightarrow> nat \<Rightarrow> nat \<Rightarrow> ('c \<times> bytes \<times> nat \<times> 'r) option) \<Rightarrow> 'r \<Rightarrow>
   'c \<Rightarrow> bytes list \<Rightarrow> nat \<Rightarrow> nat \<Rightarrow> ('c \<times> bytes \<times> nat \<times> 'r) option" where
  "feed f again c [] off z = Some (c, [], off, again)"
| "feed f again c (x # xs) off z =
     do { (c', x', off', r) \<leftarrow> f c x off z;
          if r = again then feed f again c' xs off' z else Some (c', x' @ concat xs, off', r) }"

locale suspending =
  fixes step :: "'c \<Rightarrow> bytes \<Rightarrow> nat \<Rightarrow> nat \<Rightarrow> ('c \<times> bytes \<times> nat \<times> 'r) option"
    and again :: 'r and ok :: "'c \<Rightarrow> bool" and view :: "'c \<Rightarrow> bytes"
  assumes total: "ok c \<Longrightarrow> off \<le> z \<Longrightarrow> \<exists>out. step c x off z = Some out"
    and suspend: "ok c \<Longrightarrow> off \<le> z \<Longrightarrow> step c x off z = Some (c1, x1, off1, again) \<Longrightarrow>
      ok c1 \<and> x1 = [] \<and> off1 \<le> z"
    and split_more: "ok c \<Longrightarrow> off \<le> z \<Longrightarrow> step c x off z = Some (c1, x1, off1, again) \<Longrightarrow>
      step c1 y off1 z = Some (c2, y2, off2, r2) \<Longrightarrow>
      \<exists>c3. step c (x @ y) off z = Some (c3, y2, off2, r2) \<and> view c3 = view c2"
    and split_stop: "ok c \<Longrightarrow> off \<le> z \<Longrightarrow> step c x off z = Some (c1, x1, off1, r1) \<Longrightarrow>
      r1 \<noteq> again \<Longrightarrow>
      \<exists>c3. step c (x @ y) off z = Some (c3, x1 @ y, off1, r1) \<and> view c3 = view c1"
begin

lemma feed_concat:
  "xs \<noteq> [] \<Longrightarrow> ok c \<Longrightarrow> off \<le> z \<Longrightarrow>
   \<exists>c2 c3 x' off' r. feed step again c xs off z = Some (c2, x', off', r) \<and>
     step c (concat xs) off z = Some (c3, x', off', r) \<and> view c3 = view c2"
proof (induction xs arbitrary: c off)
  case (Cons x xs)
  obtain c1 x1 off1 r1 where x: "step c x off z = Some (c1, x1, off1, r1)"
    using total [OF Cons.prems(2,3), of x] by auto
  show ?case
  proof (cases "r1 = again")
    case False
    with x split_stop [OF Cons.prems(2,3) x False, of "concat xs"] show ?thesis by auto
  next
    case True
    note x = x [unfolded True]
    have s: "ok c1" "x1 = []" "off1 \<le> z" using suspend [OF Cons.prems(2,3) x] by auto
    show ?thesis
    proof (cases "xs = []")
      case True
      with x s show ?thesis by simp
    next
      case False
      from Cons.IH [OF this s(1,3)] obtain c2 c3 x' off' r where
        "feed step again c1 xs off1 z = Some (c2, x', off', r)"
        and j: "step c1 (concat xs) off1 z = Some (c3, x', off', r)" and "view c3 = view c2"
        by blast
      with x split_more [OF Cons.prems(2,3) x j] show ?thesis by auto
    qed
  qed
qed simp

lemma feed_suspended:
  "ok c \<Longrightarrow> off \<le> z \<Longrightarrow> feed step again c xs off z = Some (c', x', off', again) \<Longrightarrow> ok c'"
proof (induction xs arbitrary: c off)
  case (Cons x xs)
  from Cons.prems(3) obtain c1 x1 off1 where x: "step c x off z = Some (c1, x1, off1, again)"
    and f: "feed step again c1 xs off1 z = Some (c', x', off', again)"
    by (auto split: bind_splits if_splits)
  from suspend [OF Cons.prems(1,2) x] have "ok c1" "off1 \<le> z" by simp_all
  from Cons.IH [OF this f] show ?case .
qed simp


end

text \<open>The three faces answer where the kernel does, with the same consumption: each is the
  kernel with its completed value mapped.\<close>

definition face_of :: "('a \<Rightarrow> 'b) \<Rightarrow> (carry \<times> bytes \<times> nat \<times> 'a step) option \<Rightarrow> (carry \<times> bytes \<times> nat \<times> 'b step) option" where
  "face_of f = map_option (\<lambda>(c, x, off, r). (c, x, off, map_step f r))"

lemma face_of_Some:
  "face_of f o1 = Some (c, x, off, r) \<longleftrightarrow> (\<exists>r0. o1 = Some (c, x, off, r0) \<and> r = map_step f r0)"
  by (auto simp: face_of_def)

lemma map_step_More: "map_step f r = StMore \<longleftrightarrow> r = StMore"
  by (cases r) simp_all

context window
begin

lemma step_Done_less:
  assumes "carry_open cap c" "off \<le> z" "carry_step cap lst c x off z = Some (c', x', off', StDone val)"
  shows "unat val < (unat lst + 1) * 128 ^ (cap - 1)"
proof -
  let ?vd = "ref_step lst (cap - carry_len c) (carry_len c) (varint_nat (cbuf c)) (take (z - off) x)"
  from carry_step_ref [OF assms(1,2), of x] assms(3)
  have "StDone val = step_result (z - off \<le> length x) ?vd"
    by (auto simp: step_spec_def Let_def)
  then obtain r w where d: "?vd = VDone r w" "val = of_nat r"
    by (auto simp: step_result_def split: verdict.splits if_splits)
  have "ref_step lst cap 0 0 (cbuf c) = VTruncated"
    using assms(1) by (simp add: ref_step_Truncated carry_open_def carry_len_def)
  with d have "ref_read cap lst (cbuf c @ take (z - off) x) = VDone r w"
    by (simp add: ref_read_def ref_step_append carry_len_def)
  then have "r < (unat lst + 1) * 128 ^ (cap - 1)" using cap_two by (simp add: ref_read_Done)
  moreover from this have "unat val = r" using class_fits d by (simp add: unat_of_nat)
  ultimately show ?thesis by simp
qed

lemma face_suspending:
  assumes f: "\<And>c x off z. carry_open cap c \<Longrightarrow> off \<le> z \<Longrightarrow> stp c x off z = face_of f (carry_step cap lst c x off z)"
  shows "suspending stp StMore (carry_open cap) cbuf"
proof
  fix c off z x
  assume a: "carry_open cap c" "off \<le> (z :: nat)"
  with carry_step_ref [OF this, of x] show "\<exists>out. stp c x off z = Some out"
    by (auto simp: f face_of_def)
next
  fix c off z x c1 x1 off1
  assume a: "carry_open cap c" "off \<le> (z :: nat)" "stp c x off z = Some (c1, x1, off1, StMore)"
  then have "carry_step cap lst c x off z = Some (c1, x1, off1, StMore)"
    by (metis f face_of_Some map_step_More)
  from step_more [OF a(1,2) this] a(2)
  show "carry_open cap c1 \<and> x1 = [] \<and> off1 \<le> z" by simp
next
  fix c off z x c1 x1 off1 y c2 y2 off2 r2
  assume a: "carry_open cap c" "off \<le> (z :: nat)" "stp c x off z = Some (c1, x1, off1, StMore)"
    and y: "stp c1 y off1 z = Some (c2, y2, off2, r2)"
  have s: "carry_step cap lst c x off z = Some (c1, x1, off1, StMore)"
    using a by (metis f face_of_Some map_step_More)
  note m = step_more [OF a(1,2) s]
  from y m a(2) obtain r0 where r0: "carry_step cap lst c1 y off1 z = Some (c2, y2, off2, r0)" "r2 = map_step f r0"
    by (auto simp: f face_of_Some)
  from step_split_more [OF a(1,2) s r0(1)] a r0(2)
  show "\<exists>c3. stp c (x @ y) off z = Some (c3, y2, off2, r2) \<and> cbuf c3 = cbuf c2"
    by (auto simp: f face_of_Some)
next
  fix c off z x c1 x1 off1 r1 y
  assume a: "carry_open cap c" "off \<le> (z :: nat)" "stp c x off z = Some (c1, x1, off1, r1)"
    and r1: "r1 \<noteq> StMore"
  then obtain r0 where r0: "carry_step cap lst c x off z = Some (c1, x1, off1, r0)" "r1 = map_step f r0"
    by (auto simp: f face_of_Some)
  with r1 have "r0 \<noteq> StMore" by auto
  from step_split_stop [OF a(1,2) r0(1) this, of y] obtain c3
    where "carry_step cap lst c (x @ y) off z = Some (c3, x1 @ y, off1, r0)" "cbuf c3 = cbuf c1" by blast
  then show "\<exists>c3. stp c (x @ y) off z = Some (c3, x1 @ y, off1, r1) \<and> cbuf c3 = cbuf c1"
    using a r0(2) by (intro exI [of _ c3]) (simp add: f face_of_def)
qed

end

lemma step_tag_face: "step_tag c x off z = face_of ucast (carry_step MAX_LEN32 LAST32 c x off z)"
  unfolding step_tag_def face_of_def
  by (cases "carry_step MAX_LEN32 LAST32 c x off z") (auto split: step.splits)

lemma step_value64_face: "step_value64 c x off z = face_of id (carry_step MAX_LEN64 LAST64 c x off z)"
  unfolding step_value64_def face_of_def
  by (cases "carry_step MAX_LEN64 LAST64 c x off z") (auto simp: step.map_id)

text \<open>The length face never leaves its class: the unchecked construction is sound.\<close>

lemma step_len_face:
  assumes "carry_open MAX_LEN32 c" "off \<le> z"
  shows "step_len c x off z = face_of ucast (carry_step MAX_LEN32 LAST_LEN c x off z)"
proof (cases "carry_step MAX_LEN32 LAST_LEN c x off z")
  case None
  then show ?thesis by (simp add: step_len_def face_of_def)
next
  case (Some out)
  obtain c' x' off' r where o: "out = (c', x', off', r)" by (cases out)
  show ?thesis
  proof (cases r)
    case (StDone val)
    with len_window.step_Done_less [OF assms, of x c' x' off' val] Some o
    have "unat val < 2 ^ 31" by simp
    from PayloadLen_new_of_nat [OF this]
    have "PayloadLen_new (ucast val) = Some (ucast val)" by simp
    with StDone Some o show ?thesis by (simp add: step_len_def face_of_def)
  qed (use Some o in \<open>simp_all add: step_len_def face_of_def\<close>)
qed

interpretation tag_feed: suspending step_tag StMore "carry_open MAX_LEN32" cbuf
  by (rule tag_window.face_suspending) (rule step_tag_face)

interpretation len_feed: suspending step_len StMore "carry_open MAX_LEN32" cbuf
  by (rule len_window.face_suspending) (rule step_len_face)

interpretation value_feed: suspending step_value64 StMore "carry_open MAX_LEN64" cbuf
  by (rule value_window.face_suspending) (rule step_value64_face)

text \<open>Fixed-width collection obeys the same contract.\<close>

lemma carry_collect_eq:
  fixes c x off z need
  defines "t \<equiv> min (min (need - carry_len c) (z - off)) (length x)"
  assumes "need \<le> 10" "carry_len c \<le> need" "off \<le> z"
  shows "carry_collect c x off z need = Some (c\<lparr>cbuf := cbuf c @ take t x\<rparr>, drop t x, off + t,
    if carry_len c + t = need then CoDone else if off + t = z then CoCut else CoMore)"
proof -
  have "t \<le> length x" by (simp add: t_def)
  then show ?thesis using assms(2-) unfolding carry_collect_def Let_def t_def [symmetric]
    by (simp add: carry_len_def)
qed

lemma carry_collect_More:
  assumes "carry_collect c x off z need = Some (c1, x1, off1, CoMore)"
  shows "length x < need - carry_len c" "length x < z - off" "c1 = c\<lparr>cbuf := cbuf c @ x\<rparr>" "x1 = []"
    "off1 = off + length x"
proof -
  have ok: "need \<le> 10" "carry_len c \<le> need" "off \<le> z"
    using assms by (simp_all add: carry_collect_def split: if_splits)
  define t where "t = min (min (need - carry_len c) (z - off)) (length x)"
  note e = assms [unfolded carry_collect_eq [OF ok] t_def [symmetric]]
  have n: "carry_len c + t \<noteq> need" "off + t \<noteq> z" using e by (auto split: if_splits)
  then have l: "length x < need - carry_len c" "length x < z - off"
    using ok by (auto simp: t_def min_def split: if_splits)
  then have t: "t = length x" by (simp add: t_def)
  show "length x < need - carry_len c" "length x < z - off" "c1 = c\<lparr>cbuf := cbuf c @ x\<rparr>" "x1 = []"
    "off1 = off + length x"
    using l e [unfolded t] by simp_all
qed

interpretation collect_feed:
  suspending "\<lambda>c x off z. carry_collect c x off z need" CoMore
    "\<lambda>c. carry_len c \<le> need \<and> need \<le> 10" cbuf for need
proof
  fix c off z x
  assume "carry_len c \<le> need \<and> need \<le> 10" "off \<le> (z :: nat)"
  then show "\<exists>out. carry_collect c x off z need = Some out"
    by (simp add: carry_collect_eq)
next
  fix c off z x c1 x1 off1
  assume a: "carry_len c \<le> need \<and> need \<le> 10" "off \<le> (z :: nat)"
    "carry_collect c x off z need = Some (c1, x1, off1, CoMore)"
  from carry_collect_More [OF a(3)] a
  show "(carry_len c1 \<le> need \<and> need \<le> 10) \<and> x1 = [] \<and> off1 \<le> z"
    by (auto simp: carry_len_def)
next
  fix c off z x c1 x1 off1 y c2 y2 off2 r2
  assume a: "carry_len c \<le> need \<and> need \<le> 10" "off \<le> (z :: nat)"
    "carry_collect c x off z need = Some (c1, x1, off1, CoMore)"
    and y: "carry_collect c1 y off1 z need = Some (c2, y2, off2, r2)"
  note m = carry_collect_More [OF a(3)]
  define t where "t = min (min (need - carry_len c1) (z - off1)) (length y)"
  have l: "carry_len c1 = carry_len c + length x" using m by (simp add: carry_len_def)
  have ok: "need \<le> 10" "carry_len c1 \<le> need" "off1 \<le> z" "carry_len c \<le> need" using a m l by simp_all
  have t: "min (min (need - carry_len c) (z - off)) (length (x @ y)) = length x + t"
    unfolding t_def l m(5) length_append using m(1,2) by (simp add: min_def) linarith
  from y [unfolded carry_collect_eq [OF ok(1-3)] t_def [symmetric]]
  show "\<exists>c3. carry_collect c (x @ y) off z need = Some (c3, y2, off2, r2) \<and> cbuf c3 = cbuf c2"
    unfolding carry_collect_eq [OF ok(1) ok(4) a(2)] t using m by (auto simp: carry_len_def add.assoc)
next
  fix c off z x c1 x1 off1 r1 y
  assume a: "carry_len c \<le> need \<and> need \<le> 10" "off \<le> (z :: nat)"
    "carry_collect c x off z need = Some (c1, x1, off1, r1)" "r1 \<noteq> CoMore"
  define t where "t = min (min (need - carry_len c) (z - off)) (length x)"
  have ok: "need \<le> 10" "carry_len c \<le> need" "off \<le> z" using a by simp_all
  note e = a(3) [unfolded carry_collect_eq [OF ok] t_def [symmetric]]
  have t: "min (min (need - carry_len c) (z - off)) (length (x @ y)) = t" and l: "t \<le> length x"
    using e a(4) ok by (auto simp: t_def min_def split: if_splits)
  from e l show "\<exists>c3. carry_collect c (x @ y) off z need = Some (c3, x1 @ y, off1, r1) \<and> cbuf c3 = cbuf c1"
    unfolding carry_collect_eq [OF ok] t by auto
qed

section \<open>A fresh carry over a whole extent is the buffered reader\<close>

definition as_step :: "read_fault + ('a \<times> nat) \<Rightarrow> 'a step" where
  "as_step r =
     (case r of Inr (v, w) \<Rightarrow> StDone v | Inl Truncated \<Rightarrow> StCut
      | Inl TooWide \<Rightarrow> StTooWide | Inl OutOfClass \<Rightarrow> StOutOfClass)"

context window
begin

lemma carry_step_fresh:
  assumes c: "carry_open cap c" "cbuf c = []" and "off \<le> z" "z - off \<le> length chunk"
  defines "vd \<equiv> ref_read cap lst (take (z - off) chunk)"
  shows "\<exists>c' k. carry_step cap lst c chunk off z =
      Some (c', drop k chunk, off + k, as_step (result_of vd)) \<and>
    k \<le> z - off \<and> carry_bytes c' = take k chunk \<and> (\<forall>r w. vd = VDone r w \<longrightarrow> k = w)"
proof -
  have h: "carry_len c = 0" using c by (simp add: carry_len_def)
  obtain c' x' off' r where s: "carry_step cap lst c chunk off z = Some (c', x', off', r)"
    and sp: "step_spec cap lst c chunk off z (c', x', off', r)"
    using carry_step_ref [OF c(1) assms(3), of chunk] by auto
  have r: "step_result True vd = as_step (result_of vd)"
    by (cases vd) (simp_all add: step_result_def as_step_def result_of_def)
  define k where "k = taken cap 0 (length (take (z - off) chunk)) vd"
  have "x' = drop k chunk \<and> off' = off + k \<and> k \<le> z - off \<and> r = step_result True vd \<and> cbuf c' = take k chunk"
    using sp assms(4) c h by (auto simp: step_spec_def Let_def vd_def ref_read_def k_def)
  moreover have "\<forall>r w. vd = VDone r w \<longrightarrow> k = w" by (simp add: k_def taken_def)
  ultimately show ?thesis using s r by (auto simp: carry_bytes_def)
qed

end

lemma width_of_result:
  "\<forall>r w. vd = VDone r w \<longrightarrow> k = w \<Longrightarrow>
   \<forall>v w. (result_of vd :: read_fault + ('a::len word \<times> nat)) = Inr (v, w) \<longrightarrow> k = w"
  by (cases vd) (auto simp: result_of_def)

lemma as_step_ucast:
  "LENGTH('b) \<le> 64 \<Longrightarrow> map_step ucast (as_step (result_of vd :: read_fault + (u64 \<times> nat))) =
   as_step (result_of vd :: read_fault + ('b::len word \<times> nat))"
  by (cases vd) (simp_all add: result_of_def as_step_def ucast_of_nat)

section \<open>Properties\<close>

lemma open_carry_eq: "carry_open cap c \<Longrightarrow> carry_open cap c' \<Longrightarrow> cbuf c = cbuf c' \<Longrightarrow> c = c'"
  by (cases c; cases c') (auto simp: carry_open_def word_unat_eq_iff)

text \<open>C31: Where the stream is cut does not matter: a value stepped chunk by chunk, resuming at each
  suspension, gives the result, the coordinate, the bytes kept and the bytes left over of one step
  over the concatenated chunks; and while the value is still unfinished the whole carry, its accumulator included, is the same.\<close>

theorem step_value64_chunks:
  assumes "carry_open MAX_LEN64 c" "off \<le> zone_end" "chunks \<noteq> []"
  shows "\<exists>c1 c2 left off' r.
    feed step_value64 StMore c chunks off zone_end = Some (c1, left, off', r) \<and>
    step_value64 c (concat chunks) off zone_end = Some (c2, left, off', r) \<and>
    carry_bytes c1 = carry_bytes c2 \<and> (r = StMore \<longrightarrow> c1 = c2)"
proof -
  from value_feed.feed_concat [OF assms(3,1,2)] obtain c1 c2 left off' r where
    f: "feed step_value64 StMore c chunks off zone_end = Some (c1, left, off', r)"
      "step_value64 c (concat chunks) off zone_end = Some (c2, left, off', r)" "cbuf c2 = cbuf c1" by blast
  have "c1 = c2" if r: "r = StMore"
  proof (rule open_carry_eq)
    show "carry_open MAX_LEN64 c1" by (rule value_feed.feed_suspended [OF assms(1,2) f(1) [unfolded r]])
    show "carry_open MAX_LEN64 c2" using value_feed.suspend [OF assms(1,2) f(2) [unfolded r]] by simp
    show "cbuf c1 = cbuf c2" using f(3) by simp
  qed
  with f show ?thesis by (simp add: carry_bytes_def)
qed

lemma step_value64_chunks_witness:
  "\<exists>c1 c2 left off' r.
    feed step_value64 StMore carry_new [[0x96], [], [0x81]] 4 9 = Some (c1, left, off', r) \<and>
    step_value64 carry_new (concat [[0x96], [], [0x81]]) 4 9 = Some (c2, left, off', r) \<and>
    carry_bytes c1 = carry_bytes c2 \<and> (r = StMore \<longrightarrow> c1 = c2)"
  by (rule step_value64_chunks) (simp_all add: carry_open_new)

text \<open>The same for tags and length prefixes.\<close>

theorem step_words_chunks:
  assumes "carry_open MAX_LEN32 c" "off \<le> zone_end" "chunks \<noteq> []"
  shows "(\<exists>c1 c2 left off' r.
      feed step_tag StMore c chunks off zone_end = Some (c1, left, off', r) \<and>
      step_tag c (concat chunks) off zone_end = Some (c2, left, off', r) \<and> carry_bytes c1 = carry_bytes c2) \<and>
    (\<exists>c1 c2 left off' r.
      feed step_len StMore c chunks off zone_end = Some (c1, left, off', r) \<and>
      step_len c (concat chunks) off zone_end = Some (c2, left, off', r) \<and> carry_bytes c1 = carry_bytes c2)"
  using tag_feed.feed_concat [OF assms(3,1,2)] len_feed.feed_concat [OF assms(3,1,2)]
  unfolding carry_bytes_def by (intro conjI; metis)

lemma step_words_chunks_witness:
  "\<exists>c1 c2 left off' r.
      feed step_len StMore carry_new [[0x80], [0x01]] 0 9 = Some (c1, left, off', r) \<and>
      step_len carry_new (concat [[0x80], [0x01]]) 0 9 = Some (c2, left, off', r) \<and> carry_bytes c1 = carry_bytes c2"
  by (rule conjunct2 [OF step_words_chunks]) (simp_all add: carry_open_new)

text \<open>The same for a fixed-width payload collected in pieces.\<close>

theorem collect_chunks:
  assumes "carry_len c \<le> need" "need \<le> 10" "off \<le> zone_end" "chunks \<noteq> []"
  shows "\<exists>c1 c2 left off' r.
    feed (\<lambda>c x off z. carry_collect c x off z need) CoMore c chunks off zone_end = Some (c1, left, off', r) \<and>
    carry_collect c (concat chunks) off zone_end need = Some (c2, left, off', r) \<and>
    carry_bytes c1 = carry_bytes c2"
  using collect_feed.feed_concat [OF assms(4) conjI [OF assms(1,2)] assms(3)]
  unfolding carry_bytes_def by metis

lemma collect_chunks_witness:
  "\<exists>c1 c2 left off' r.
    feed (\<lambda>c x off z. carry_collect c x off z 4) CoMore carry_new [[1, 2], [3, 4, 5]] 0 9 = Some (c1, left, off', r) \<and>
    carry_collect carry_new (concat [[1, 2], [3, 4, 5]]) 0 9 4 = Some (c2, left, off', r) \<and>
    carry_bytes c1 = carry_bytes c2"
  by (rule collect_chunks) (simp_all add: carry_new_def carry_len_def)

text \<open>A fresh carry over a chunk that holds the whole sealed extent answers what the buffered
  faces answer on that extent, value for value and fault for fault, and a completed construct has
  consumed and kept exactly its width.\<close>

theorem fresh_carry_is_slice:
  assumes "off \<le> zone_end" "zone_end - off \<le> length chunk"
  shows "(\<exists>r c' k. value64 chunk 0 (zone_end - off) = Some r \<and>
      step_value64 (carry_clear c) chunk off zone_end = Some (c', drop k chunk, off + k, as_step r) \<and>
      carry_bytes c' = take k chunk \<and> (\<forall>v w. r = Inr (v, w) \<longrightarrow> k = w)) \<and>
    (\<exists>r c' k. tag_word chunk 0 (zone_end - off) = Some r \<and>
      step_tag (carry_clear c) chunk off zone_end = Some (c', drop k chunk, off + k, as_step r) \<and>
      carry_bytes c' = take k chunk \<and> (\<forall>v w. r = Inr (v, w) \<longrightarrow> k = w)) \<and>
    (\<exists>r c' k. len_word chunk 0 (zone_end - off) = Some r \<and>
      step_len (carry_clear c) chunk off zone_end = Some (c', drop k chunk, off + k, as_step r) \<and>
      carry_bytes c' = take k chunk \<and> (\<forall>v w. r = Inr (v, w) \<longrightarrow> k = w))"
proof (intro conjI)
  let ?z = "take (zone_end - off) chunk"
  have x: "extent_of chunk 0 (zone_end - off) = ?z" by (simp add: extent_of_def)
  have e: "cbuf (carry_clear c) = []" by (simp add: carry_clear_def)
  have o: "carry_open MAX_LEN64 (carry_clear c)" "carry_open MAX_LEN32 (carry_clear c)" by simp_all
  obtain c1 k1 where f1: "carry_step MAX_LEN64 LAST64 (carry_clear c) chunk off zone_end =
      Some (c1, drop k1 chunk, off + k1, as_step (result_of (ref_read MAX_LEN64 LAST64 ?z)))"
    "carry_bytes c1 = take k1 chunk" "\<forall>r w. ref_read MAX_LEN64 LAST64 ?z = VDone r w \<longrightarrow> k1 = w"
    using value_window.carry_step_fresh [OF o(1) e assms] by blast
  show "\<exists>r c' k. value64 chunk 0 (zone_end - off) = Some r \<and>
      step_value64 (carry_clear c) chunk off zone_end = Some (c', drop k chunk, off + k, as_step r) \<and>
      carry_bytes c' = take k chunk \<and> (\<forall>v w. r = Inr (v, w) \<longrightarrow> k = w)"
    using value64_ref [OF assms(2), of 0, unfolded x] f1(1,2) width_of_result [OF f1(3)]
    unfolding step_value64_def by metis
  obtain c2 k2 where f2: "carry_step MAX_LEN32 LAST32 (carry_clear c) chunk off zone_end =
      Some (c2, drop k2 chunk, off + k2, as_step (result_of (ref_read MAX_LEN32 LAST32 ?z)))"
    "carry_bytes c2 = take k2 chunk" "\<forall>r w. ref_read MAX_LEN32 LAST32 ?z = VDone r w \<longrightarrow> k2 = w"
    using tag_window.carry_step_fresh [OF o(2) e assms] by blast
  have "step_tag (carry_clear c) chunk off zone_end =
      Some (c2, drop k2 chunk, off + k2, as_step (result_of (ref_read MAX_LEN32 LAST32 ?z)))"
    unfolding step_tag_face f1 f2 face_of_def by (simp add: as_step_ucast)
  then show "\<exists>r c' k. tag_word chunk 0 (zone_end - off) = Some r \<and>
      step_tag (carry_clear c) chunk off zone_end = Some (c', drop k chunk, off + k, as_step r) \<and>
      carry_bytes c' = take k chunk \<and> (\<forall>v w. r = Inr (v, w) \<longrightarrow> k = w)"
    using tag_word_ref [OF assms(2), of 0, unfolded x] f2(2) width_of_result [OF f2(3)] by metis
  obtain c3 k3 where f3: "carry_step MAX_LEN32 LAST_LEN (carry_clear c) chunk off zone_end =
      Some (c3, drop k3 chunk, off + k3, as_step (result_of (ref_read MAX_LEN32 LAST_LEN ?z)))"
    "carry_bytes c3 = take k3 chunk" "\<forall>r w. ref_read MAX_LEN32 LAST_LEN ?z = VDone r w \<longrightarrow> k3 = w"
    using len_window.carry_step_fresh [OF o(2) e assms] by blast
  have "step_len (carry_clear c) chunk off zone_end =
      Some (c3, drop k3 chunk, off + k3, as_step (result_of (ref_read MAX_LEN32 LAST_LEN ?z)))"
    unfolding step_len_face [OF o(2) assms(1)] f3 face_of_def by (simp add: as_step_ucast)
  then show "\<exists>r c' k. len_word chunk 0 (zone_end - off) = Some r \<and>
      step_len (carry_clear c) chunk off zone_end = Some (c', drop k chunk, off + k, as_step r) \<and>
      carry_bytes c' = take k chunk \<and> (\<forall>v w. r = Inr (v, w) \<longrightarrow> k = w)"
    using len_word_ref [OF assms(2), of 0, unfolded x] f3(2) width_of_result [OF f3(3)] by metis
qed

lemma fresh_carry_is_slice_witness:
  "\<exists>r c' k. value64 [0x96, 0x01, 7] 0 (8 - 5) = Some r \<and>
      step_value64 (carry_clear carry_new) [0x96, 0x01, 7] 5 8 = Some (c', drop k [0x96, 0x01, 7], 5 + k, as_step r) \<and>
      carry_bytes c' = take k [0x96, 0x01, 7] \<and> (\<forall>v w. r = Inr (v, w) \<longrightarrow> k = w)"
  by (rule conjunct1 [OF fresh_carry_is_slice]) simp_all

end
