(* ===== verification/Admission.thy ===== *)
theory Admission
  imports Wire
begin

text \<open>
  The admission conversions (\<open>src/src/admission.rs\<close>): the bound every buffered input is admitted
  under, the conversions between \<open>u32\<close> and \<open>usize\<close> it licenses, and the coordinate and extent
  classes with their arithmetic. A \<open>usize\<close> is a natural number; \<open>Coord\<close> and \<open>Extent\<close> are the
  31-bit words their valid range describes, and the sum in \<open>advanced_by\<close> is the \<open>u32\<close> sum.
\<close>

section \<open>Conversions\<close>

definition usize_of :: "u32 \<Rightarrow> nat" where
  "usize_of val = unat val"

definition PayloadLen_MAX :: payload_len where
  "PayloadLen_MAX = 2147483647"

definition admission_MAX :: nat where
  "admission_MAX = usize_of (len_inner PayloadLen_MAX)"

definition admitted_u32 :: "nat \<Rightarrow> u32" where
  "admitted_u32 val = of_nat val"

lemma admission_MAX_eq: "admission_MAX = 2147483647"
  by (simp add: admission_MAX_def usize_of_def len_inner_def PayloadLen_MAX_def unat_ucast_le)

lemma admitted_u32_inverse: "n \<le> admission_MAX \<Longrightarrow> usize_of (admitted_u32 n) = n"
  by (simp add: usize_of_def admitted_u32_def admission_MAX_eq unat_of_nat)

lemma usize_of_len_le: "usize_of (len_inner l) \<le> admission_MAX"
  using unat_len_less [of l] by (simp add: usize_of_def admission_MAX_eq)

section \<open>Coordinates and extents\<close>

type_synonym coord = "31 word"
type_synonym extent = "31 word"

definition Coord_new :: "u32 \<Rightarrow> coord option" where
  "Coord_new val = (if 0 \<le> val \<and> val \<le> 2147483647 then Some (ucast val) else None)"

definition coord_inner :: "coord \<Rightarrow> u32" where
  "coord_inner c = ucast c"

definition Extent_new :: "u32 \<Rightarrow> extent option" where
  "Extent_new val = (if 0 \<le> val \<and> val \<le> 2147483647 then Some (ucast val) else None)"

definition extent_inner :: "extent \<Rightarrow> u32" where
  "extent_inner e = ucast e"

definition extent_from :: "coord \<Rightarrow> coord \<Rightarrow> extent option" where
  "extent_from self start =
     (if coord_inner start \<le> coord_inner self
      then Some (ucast (coord_inner self - coord_inner start))
      else None)"

definition advanced_by :: "coord \<Rightarrow> extent \<Rightarrow> coord option" where
  "advanced_by self b = Coord_new (coord_inner self + extent_inner b)"

definition extent_from_len :: "payload_len \<Rightarrow> extent" where
  "extent_from_len l = ucast (len_inner l)"

definition extent_from_width :: "u8 \<Rightarrow> extent" where
  "extent_from_width width = ucast width"

lemma unat_31_less: "unat (c :: 31 word) < 2147483648"
  using unsigned_less [of c, where ?'a = nat] by simp

lemma unat_coord_inner [simp]: "unat (coord_inner c) = unat c"
  by (simp add: coord_inner_def unat_ucast_le)

lemma unat_extent_inner [simp]: "unat (extent_inner c) = unat c"
  by (simp add: extent_inner_def unat_ucast_le)

text \<open>The sum of a coordinate and an extent stays inside \<open>u32\<close>: the move is exact or refused.\<close>

lemma unat_coord_sum: "unat (coord_inner c + extent_inner e) = unat c + unat e"
  using unat_31_less [of c] unat_31_less [of e] by (simp add: unat_word_ariths)

lemma advanced_by_eq:
  "advanced_by c e = (if unat c + unat e < 2147483648 then Some (of_nat (unat c + unat e)) else None)"
proof -
  have "(ucast (coord_inner c + extent_inner e) :: coord) = of_nat (unat c + unat e)"
    unfolding unat_coord_sum [symmetric] by simp
  then show ?thesis
    by (auto simp: advanced_by_def Coord_new_def word_le_nat_alt unat_coord_sum)
qed

lemma advanced_by_iff: "advanced_by s e = Some c \<longleftrightarrow> unat c = unat s + unat e"
  using unat_31_less [of c]
  by (auto simp: advanced_by_eq unat_eq_of_nat_iff unat_of_nat simp del: of_nat_add split: if_splits)

lemma extent_from_iff: "extent_from c s = Some e \<longleftrightarrow> unat c = unat s + unat e"
proof (cases "unat s \<le> unat c")
  case True
  then have d: "unat (coord_inner c - coord_inner s) = unat c - unat s"
    using unat_sub [of "coord_inner s" "coord_inner c"] by (simp add: word_le_nat_alt)
  then have "unat (ucast (coord_inner c - coord_inner s) :: coord) = unat c - unat s"
    using unat_31_less [of c] by (subst unat_ucast_down_less) simp_all
  with True show ?thesis by (auto simp: extent_from_def word_le_nat_alt word_eq_unat_iff)
qed (auto simp: extent_from_def word_le_nat_alt)

section \<open>Properties\<close>

text \<open>Coordinate arithmetic is exact or refused: moving forward by an extent and measuring back
  are inverse, and no \<open>u32\<close> sum wraps.\<close>

theorem coordinate_moves:
  "(advanced_by s e = Some c \<longleftrightarrow> unat c = unat s + unat e) \<and>
   (extent_from c s = Some e \<longleftrightarrow> unat c = unat s + unat e) \<and>
   (advanced_by s e = Some c \<longleftrightarrow> extent_from c s = Some e)"
  by (simp_all add: advanced_by_iff extent_from_iff)

end
