(* ===== verification/Vocab.thy ===== *)
theory Vocab
  imports Slice Admission
begin

text \<open>
  Crate vocabulary the readers share: fault classes, the acceptance standard and the read stages
  (\<open>src/src/lib.rs\<close>), the two nesting bounds (\<open>src/src/lib.rs\<close>, \<open>src/src/cursor.rs\<close>), and the
  little-endian loads of fixed-width payloads. A load past the slice is undefined behaviour and
  has no value, as has a \<open>usize\<close> subtraction below zero (\<open>usub\<close>).
\<close>

section \<open>Vocabulary\<close>

datatype fault_class = Grammar | Policy | Capability

datatype standard = Tolerant | CanonicalMinimal

datatype stage = StageTag | StageLenPrefix field_number | StageValue field_number

datatype oversize = Oversize

text \<open>A \<open>u16\<close> restricted to \<open>1..=10000\<close>; the range is a predicate.\<close>

type_synonym depth_limit = "16 word"
type_synonym group_depth = "16 word"

definition depth_ok :: "16 word \<Rightarrow> bool" where
  "depth_ok d \<longleftrightarrow> 1 \<le> d \<and> d \<le> 10000"

definition DepthLimit_new :: "16 word \<Rightarrow> depth_limit option" where
  "DepthLimit_new val = (if 1 \<le> val \<and> val \<le> 10000 then Some val else None)"

definition DepthLimit_REFERENCE :: depth_limit where
  "DepthLimit_REFERENCE = the (DepthLimit_new 100)"

definition GroupDepth_new :: "16 word \<Rightarrow> group_depth option" where
  "GroupDepth_new val = (if 1 \<le> val \<and> val \<le> 10000 then Some val else None)"

definition GroupDepth_REFERENCE :: group_depth where
  "GroupDepth_REFERENCE = the (GroupDepth_new 100)"

definition GroupDepth_from :: "depth_limit \<Rightarrow> group_depth" where
  "GroupDepth_from limit = limit"

lemma DepthLimit_new_Some: "DepthLimit_new v = Some d \<longleftrightarrow> d = v \<and> depth_ok v"
  by (auto simp: DepthLimit_new_def depth_ok_def)

lemma GroupDepth_from_valid: "depth_ok d \<Longrightarrow> GroupDepth_new (GroupDepth_from d) = Some d"
  by (simp add: GroupDepth_new_def GroupDepth_from_def depth_ok_def)

lemma depth_ok_pos: "depth_ok d \<Longrightarrow> 0 < unat d \<and> unat d \<le> 10000"
  by (auto simp: depth_ok_def word_le_nat_alt)

section \<open>Checked subtraction and little-endian loads\<close>

definition usub :: "nat \<Rightarrow> nat \<Rightarrow> nat option" where
  "usub a b = (if b \<le> a then Some (a - b) else None)"

lemma usub_Some [simp]: "b \<le> a \<Longrightarrow> usub a b = Some (a - b)"
  by (simp add: usub_def)

fun le_nat :: "bytes \<Rightarrow> nat" where
  "le_nat [] = 0"
| "le_nat (b # bs) = unat b + 256 * le_nat bs"

fun le_bytes :: "nat \<Rightarrow> nat \<Rightarrow> bytes" where
  "le_bytes 0 v = []"
| "le_bytes (Suc n) v = of_nat (v mod 256) # le_bytes n (v div 256)"

definition load_le :: "nat \<Rightarrow> bytes \<Rightarrow> nat \<Rightarrow> nat option" where
  "load_le n data at = (if at + n \<le> length data then Some (le_nat (take n (drop at data))) else None)"

definition load_u64 :: "bytes \<Rightarrow> nat \<Rightarrow> u64 option" where
  "load_u64 data at = map_option of_nat (load_le 8 data at)"

definition load_u32 :: "bytes \<Rightarrow> nat \<Rightarrow> u32 option" where
  "load_u32 data at = map_option of_nat (load_le 4 data at)"

lemma length_le_bytes [simp]: "length (le_bytes n v) = n"
  by (induction n arbitrary: v) simp_all

lemma le_nat_less: "le_nat bs < 256 ^ length bs"
proof (induction bs)
  case (Cons b bs)
  have "unat b < 256" by simp
  with Cons.IH have "unat b + 256 * le_nat bs < 256 * 256 ^ length bs" by linarith
  then show ?case by simp
qed simp

lemma le_nat_le_bytes: "v < 256 ^ n \<Longrightarrow> le_nat (le_bytes n v) = v"
proof (induction n arbitrary: v)
  case (Suc n)
  then have "v div 256 < 256 ^ n" by (simp add: div_less_iff_less_mult mult.commute)
  with Suc show ?case by (simp add: unat_of_nat)
qed simp

lemma le_bytes_le_nat: "le_bytes (length bs) (le_nat bs) = bs"
proof (induction bs)
  case (Cons b bs)
  have "(unat b + 256 * le_nat bs) mod 256 = unat b" "(unat b + 256 * le_nat bs) div 256 = le_nat bs"
    by simp_all
  with Cons show ?case by (simp del: mod_mult_self2)
qed simp

lemma take_drop_append_iff:
  "at \<le> length data \<Longrightarrow> (\<exists>rest. drop at data = xs @ rest) \<longleftrightarrow>
   at + length xs \<le> length data \<and> take (length xs) (drop at data) = xs"
proof
  assume a: "at \<le> length data" and "\<exists>rest. drop at data = xs @ rest"
  then obtain rest where r: "drop at data = xs @ rest" by blast
  then have "length data - at = length xs + length rest" by (metis length_append length_drop)
  with r a show "at + length xs \<le> length data \<and> take (length xs) (drop at data) = xs" by simp
qed (metis append_take_drop_id)

lemma load_le_iff:
  assumes "at \<le> length data" and "v < 256 ^ n"
  shows "load_le n data at = Some v \<longleftrightarrow> (\<exists>rest. drop at data = le_bytes n v @ rest)"
proof -
  have "le_nat (take n (drop at data)) = v \<longleftrightarrow> take n (drop at data) = le_bytes n v"
    if "at + n \<le> length data"
    using le_bytes_le_nat [of "take n (drop at data)"] that le_nat_le_bytes [OF assms(2)]
    by (auto simp: min_absorb2)
  then show ?thesis using assms(1) by (auto simp: load_le_def take_drop_append_iff)
qed

lemma load_u64_iff:
  assumes "at \<le> length data"
  shows "load_u64 data at = Some v \<longleftrightarrow> (\<exists>rest. drop at data = le_bytes 8 (unat v) @ rest)"
proof -
  have l: "n < 2 ^ 64" if "load_le 8 data at = Some n" for n
    using that le_nat_less [of "take 8 (drop at data)"] assms
    by (auto simp: load_le_def min_absorb2 split: if_splits)
  have "load_u64 data at = Some v \<longleftrightarrow> load_le 8 data at = Some (unat v)"
    using l by (auto simp: load_u64_def unat_of_nat)
  then show ?thesis using assms unat_u64_less [of v] by (simp add: load_le_iff)
qed

lemma load_u32_iff:
  assumes "at \<le> length data"
  shows "load_u32 data at = Some v \<longleftrightarrow> (\<exists>rest. drop at data = le_bytes 4 (unat v) @ rest)"
proof -
  have l: "n < 2 ^ 32" if "load_le 4 data at = Some n" for n
    using that le_nat_less [of "take 4 (drop at data)"] assms
    by (auto simp: load_le_def min_absorb2 split: if_splits)
  have "load_u32 data at = Some v \<longleftrightarrow> load_le 4 data at = Some (unat v)"
    using l by (auto simp: load_u32_def unat_of_nat)
  then show ?thesis using assms unat_u32_less [of v] by (simp add: load_le_iff)
qed

lemma load_u64_returns: "at + 8 \<le> length data \<Longrightarrow> \<exists>v. load_u64 data at = Some v"
  by (simp add: load_u64_def load_le_def)

lemma load_u32_returns: "at + 4 \<le> length data \<Longrightarrow> \<exists>v. load_u32 data at = Some v"
  by (simp add: load_u32_def load_le_def)

lemma load_u64_room: "load_u64 data at = Some v \<Longrightarrow> at + 8 \<le> length data"
  by (auto simp: load_u64_def load_le_def split: if_splits)

lemma load_u32_room: "load_u32 data at = Some v \<Longrightarrow> at + 4 \<le> length data"
  by (auto simp: load_u32_def load_le_def split: if_splits)

lemma len_inner_of_nat: "n < 2 ^ 31 \<Longrightarrow> len_inner (of_nat n) = of_nat n"
  by (simp add: word_eq_unat_iff unat_of_nat)

end
