(* ===== verification/Grammar.thy ===== *)
theory Grammar
  imports Vocab
begin

text \<open>
  The abstract wire grammar: a document is a sequence of tokens, each with the widths its
  varints were spelled at. \<open>emit_tok\<close> is a token's spelling, \<open>tok_ok\<close> its lawfulness under
  the tolerant standard, \<open>tok_minimal\<close> the canonical one, \<open>opens_after\<close> the group discipline
  under a depth bound. The cursors and the scanners are proved against this grammar; none of
  these definitions is code of the crate.
\<close>

section \<open>Tokens\<close>

datatype payload =
    PVarint u64 nat | PI64 u64 | PLen bytes nat | PI32 u32 | PEnter | PExit

datatype token = Token (tk_field: field_number) (tk_width: nat) (tk_payload: payload)

fun code_of :: "payload \<Rightarrow> low3" where
  "code_of (PVarint v w) = 0"
| "code_of (PI64 v) = 1"
| "code_of (PLen bs w) = 2"
| "code_of PEnter = 3"
| "code_of PExit = 4"
| "code_of (PI32 v) = 5"

fun emit_payload :: "payload \<Rightarrow> bytes" where
  "emit_payload (PVarint v w) = enc w (unat v)"
| "emit_payload (PI64 v) = le_bytes 8 (unat v)"
| "emit_payload (PLen bs w) = enc w (length bs) @ bs"
| "emit_payload (PI32 v) = le_bytes 4 (unat v)"
| "emit_payload PEnter = []"
| "emit_payload PExit = []"

definition tag_of :: "field_number \<Rightarrow> payload \<Rightarrow> u32" where
  "tag_of f p = wire_tag_word f (code_of p)"

fun emit_tok :: "token \<Rightarrow> bytes" where
  "emit_tok (Token f w p) = enc w (unat (tag_of f p)) @ emit_payload p"

definition emit :: "token list \<Rightarrow> bytes" where
  "emit ts = concat (map emit_tok ts)"

fun payload_ok :: "payload \<Rightarrow> bool" where
  "payload_ok (PVarint v w) \<longleftrightarrow> 0 < w \<and> w \<le> 10 \<and> unat v < 128 ^ w"
| "payload_ok (PLen bs w) \<longleftrightarrow> 0 < w \<and> w \<le> 5 \<and> length bs < 128 ^ w \<and> length bs < 2 ^ 31"
| "payload_ok _ \<longleftrightarrow> True"

fun tok_ok :: "token \<Rightarrow> bool" where
  "tok_ok (Token f w p) \<longleftrightarrow>
     field_ok f \<and> 0 < w \<and> w \<le> 5 \<and> unat (tag_of f p) < 128 ^ w \<and> payload_ok p"

fun payload_minimal :: "payload \<Rightarrow> bool" where
  "payload_minimal (PVarint v w) \<longleftrightarrow> w = encoded_len64 v"
| "payload_minimal (PLen bs w) \<longleftrightarrow> w = encoded_len32 (of_nat (length bs))"
| "payload_minimal _ \<longleftrightarrow> True"

fun tok_minimal :: "token \<Rightarrow> bool" where
  "tok_minimal (Token f w p) \<longleftrightarrow> w = encoded_len32 (tag_of f p) \<and> payload_minimal p"

fun is_group :: "payload \<Rightarrow> bool" where
  "is_group PEnter = True"
| "is_group PExit = True"
| "is_group _ = False"

text \<open>The codes partition the payloads.\<close>

lemma code_of_iff:
  "code_of p = 0 \<longleftrightarrow> (\<exists>v w. p = PVarint v w)" "code_of p = 1 \<longleftrightarrow> (\<exists>v. p = PI64 v)"
  "code_of p = 2 \<longleftrightarrow> (\<exists>bs w. p = PLen bs w)" "code_of p = 3 \<longleftrightarrow> p = PEnter"
  "code_of p = 4 \<longleftrightarrow> p = PExit" "code_of p = 5 \<longleftrightarrow> (\<exists>v. p = PI32 v)"
  "code_of p \<noteq> 6" "code_of p \<noteq> 7"
  by (cases p; simp)+

lemma ex_code:
  "(\<exists>p. code_of p = 0 \<and> Q p) \<longleftrightarrow> (\<exists>v w. Q (PVarint v w))"
  "(\<exists>p. code_of p = 1 \<and> Q p) \<longleftrightarrow> (\<exists>v. Q (PI64 v))"
  "(\<exists>p. code_of p = 2 \<and> Q p) \<longleftrightarrow> (\<exists>bs w. Q (PLen bs w))"
  "(\<exists>p. code_of p = 3 \<and> Q p) \<longleftrightarrow> Q PEnter"
  "(\<exists>p. code_of p = 4 \<and> Q p) \<longleftrightarrow> Q PExit"
  "(\<exists>p. code_of p = 5 \<and> Q p) \<longleftrightarrow> (\<exists>v. Q (PI32 v))"
  "\<not> (\<exists>p. code_of p = 6 \<and> Q p)" "\<not> (\<exists>p. code_of p = 7 \<and> Q p)"
  by (auto simp: code_of_iff)

text \<open>The widths a cursor reports: the tag's in the low byte, a length prefix's in the high.\<close>

fun geo_of :: "token \<Rightarrow> 16 word" where
  "geo_of (Token f w (PLen bs lw)) = push_bit 8 (of_nat lw) OR of_nat w"
| "geo_of (Token f w p) = of_nat w"

text \<open>The two bytes of the geometry word are the two widths.\<close>

lemma geo_bytes:
  assumes "w \<le> 5" "l \<le> 5"
  shows "(ucast (push_bit 8 (of_nat l) OR of_nat w :: 16 word) :: u8) = of_nat w"
    "(ucast (drop_bit 8 (push_bit 8 (of_nat l) OR of_nat w :: 16 word)) :: u8) = of_nat l"
    "(ucast (of_nat w :: 16 word) :: u8) = of_nat w"
    "(ucast (drop_bit 8 (of_nat w :: 16 word)) :: u8) = 0"
proof -
  have "\<forall>w \<in> set [0..<6]. \<forall>l \<in> set [0..<6].
     (ucast (push_bit 8 (of_nat l) OR of_nat w :: 16 word) :: u8) = of_nat w \<and>
     (ucast (drop_bit 8 (push_bit 8 (of_nat l) OR of_nat w :: 16 word)) :: u8) = of_nat l \<and>
     (ucast (of_nat w :: 16 word) :: u8) = of_nat w \<and> (ucast (drop_bit 8 (of_nat w :: 16 word)) :: u8) = 0"
    by code_simp
  moreover have "w \<in> set [0..<6]" "l \<in> set [0..<6]" using assms by simp_all
  ultimately show "(ucast (push_bit 8 (of_nat l) OR of_nat w :: 16 word) :: u8) = of_nat w"
    "(ucast (drop_bit 8 (push_bit 8 (of_nat l) OR of_nat w :: 16 word)) :: u8) = of_nat l"
    "(ucast (of_nat w :: 16 word) :: u8) = of_nat w"
    "(ucast (drop_bit 8 (of_nat w :: 16 word)) :: u8) = 0" by blast+
qed

lemma geo_of_widths:
  assumes "tok_ok t"
  shows "(ucast (geo_of t) :: u8) = of_nat (tk_width t) \<and>
    (ucast (drop_bit 8 (geo_of t)) :: u8) = (case tk_payload t of PLen bs w \<Rightarrow> of_nat w | _ \<Rightarrow> 0)"
proof (cases t)
  case (Token f w p)
  with assms have w: "w \<le> 5" by simp
  show ?thesis
  proof (cases p)
    case (PLen bs l)
    with Token assms have "l \<le> 5" by simp
    with geo_bytes(1,2) [OF w this] Token PLen show ?thesis by simp
  qed (use geo_bytes(3,4) [OF w w] Token in simp_all)
qed

section \<open>The group discipline\<close>

text \<open>The stack of open groups, newest first: field and coordinate of the opening tag.\<close>

definition opens_after ::
  "nat \<Rightarrow> (field_number \<times> u32) list \<Rightarrow> nat \<Rightarrow> token \<Rightarrow> (field_number \<times> u32) list option" where
  "opens_after limit opens at t =
     (case tk_payload t of
        PEnter \<Rightarrow> if length opens < limit then Some ((tk_field t, of_nat at) # opens) else None
      | PExit \<Rightarrow> (case opens of (f, _) # rest \<Rightarrow> if f = tk_field t then Some rest else None | [] \<Rightarrow> None)
      | _ \<Rightarrow> Some opens)"

fun balance ::
  "nat \<Rightarrow> (field_number \<times> u32) list \<Rightarrow> nat \<Rightarrow> token list \<Rightarrow> (field_number \<times> u32) list option" where
  "balance limit opens at [] = Some opens"
| "balance limit opens at (t # ts) =
     do { o' \<leftarrow> opens_after limit opens at t; balance limit o' (at + length (emit_tok t)) ts }"

lemma emit_Nil [simp]: "emit [] = []"
  by (simp add: emit_def)

lemma emit_Cons [simp]: "emit (t # ts) = emit_tok t @ emit ts"
  by (simp add: emit_def)

lemma emit_append [simp]: "emit (ts @ us) = emit ts @ emit us"
  by (simp add: emit_def)

lemma length_emit_tok_pos: "tok_ok t \<Longrightarrow> 0 < length (emit_tok t)"
  by (cases t) auto

lemma balance_append:
  "balance limit opens at (ts @ us) =
     do { o' \<leftarrow> balance limit opens at ts; balance limit o' (at + length (emit ts)) us }"
  by (induction ts arbitrary: opens at) (simp_all add: add.assoc split: bind_split)

section \<open>Reading at the head of a document suffix\<close>

context varint_face
begin

lemma read_suffix_iff:
  assumes "at \<le> length data"
  shows "read data at (length data) = Some (Inr (v, w)) \<longleftrightarrow>
    0 < w \<and> w \<le> fcap \<and> unat v < 128 ^ w \<and> (\<exists>rest. drop at data = enc w (unat v) @ rest)"
proof -
  have x: "extent_of data at (at + w) = take w (drop at data)" by (simp add: extent_of_def)
  show ?thesis
  proof
    assume r: "read data at (length data) = Some (Inr (v, w))"
    then have w: "0 < w \<and> w \<le> fcap \<and> at + w \<le> length data" by (rule read_width [OF order_refl])
    from r have "unat v = varint_nat (take w (drop at data))" by (simp add: read_Inr x)
    moreover have "length (take w (drop at data)) = w" using w by auto
    ultimately have "unat v < 128 ^ w" using varint_nat_less [of "take w (drop at data)"] by metis
    moreover have "take w (drop at data) = enc w (unat v)"
      using read_reemit [OF order_refl r] by (simp add: x)
    ultimately show "0 < w \<and> w \<le> fcap \<and> unat v < 128 ^ w \<and> (\<exists>rest. drop at data = enc w (unat v) @ rest)"
      using w by (metis append_take_drop_id)
  next
    assume "0 < w \<and> w \<le> fcap \<and> unat v < 128 ^ w \<and> (\<exists>rest. drop at data = enc w (unat v) @ rest)"
    then show "read data at (length data) = Some (Inr (v, w))"
      using take_drop_append_iff [OF assms, of "enc w (unat v)"] by (intro read_enc) (auto simp: x)
  qed
qed

end

text \<open>The head of a record: tag word, field and code together.\<close>

lemma head_iff:
  assumes "at \<le> length data"
  shows "(tag_word data at (length data) = Some (Inr (word, w)) \<and>
      FieldNumber_from_word word = Some f \<and> Low3_from_word word = c) \<longleftrightarrow>
    field_ok f \<and> word = wire_tag_word f c \<and> 0 < w \<and> w \<le> 5 \<and> unat word < 128 ^ w \<and>
    (\<exists>rest. drop at data = enc w (unat word) @ rest)"
  using tag_face.read_suffix_iff [OF assms, of word w] from_word_tag_word [of f c] low3_tag_word [of f c]
    tag_word_from_word [of word f] field_ok_from_word [of word f]
  by auto

lemma head_split:
  assumes "drop h d = enc w v @ rest" and "h \<le> length d"
  shows "drop (h + w) d = rest \<and> h + w \<le> length d"
proof
  have "drop (h + w) d = drop w (drop h d)" by (simp add: add.commute)
  then show "drop (h + w) d = rest" using assms by simp
  have "length (drop h d) = w + length rest" using assms by simp
  then show "h + w \<le> length d" using assms(2) by simp
qed

text \<open>A length prefix and its payload together.\<close>

lemma unat_of_nat_len: "n < 2 ^ 31 \<Longrightarrow> unat (of_nat n :: payload_len) = n"
  by (simp add: unat_of_nat)

lemma len_suffix_iff:
  assumes at: "at \<le> length data"
  shows "(len_word data at (length data) = Some (Inr (len, w)) \<and> at + w + unat len \<le> length data \<and>
      bs = extent_of data (at + w) (at + w + unat len)) \<longleftrightarrow>
    (payload_ok (PLen bs w) \<and> len = of_nat (length bs) \<and>
      (\<exists>rest. drop at data = emit_payload (PLen bs w) @ rest))"
proof
  assume a: "len_word data at (length data) = Some (Inr (len, w)) \<and> at + w + unat len \<le> length data \<and>
      bs = extent_of data (at + w) (at + w + unat len)"
  then have l: "length bs = unat len" by simp
  from a obtain rest where r: "0 < w" "w \<le> 5" "unat len < 128 ^ w" "drop at data = enc w (unat len) @ rest"
    unfolding len_face.read_suffix_iff [OF at] by auto
  then have "drop (at + w) data = rest" by (metis add.commute append_eq_conv_conj drop_drop length_enc)
  then have "rest = bs @ drop (unat len) rest" using a by (simp add: extent_of_def)
  with r l have "drop at data = emit_payload (PLen bs w) @ drop (unat len) rest" by (metis append.assoc emit_payload.simps(3))
  moreover have "payload_ok (PLen bs w)" "len = of_nat (length bs)"
    using r l unat_len_less [of len] by simp_all
  ultimately show "payload_ok (PLen bs w) \<and> len = of_nat (length bs) \<and>
      (\<exists>rest. drop at data = emit_payload (PLen bs w) @ rest)" by blast
next
  assume a: "payload_ok (PLen bs w) \<and> len = of_nat (length bs) \<and>
      (\<exists>rest. drop at data = emit_payload (PLen bs w) @ rest)"
  then obtain rest where r: "drop at data = enc w (length bs) @ bs @ rest" by auto
  have l: "unat len = length bs" using a by (simp add: unat_of_nat_len)
  have "len_word data at (length data) = Some (Inr (len, w))"
    unfolding len_face.read_suffix_iff [OF at] using a r l by auto
  moreover have d: "drop (at + w) data = bs @ rest"
    using arg_cong [OF r, of "drop w"] by (simp add: add.commute)
  moreover have "at + w + length bs \<le> length data"
    using arg_cong [OF r, of length] at by simp
  ultimately show "len_word data at (length data) = Some (Inr (len, w)) \<and> at + w + unat len \<le> length data \<and>
      bs = extent_of data (at + w) (at + w + unat len)"
    by (simp add: l extent_of_def)
qed

section \<open>Payloads in two parts\<close>

text \<open>A payload's spelling is a head, which a reader reads, and a body, which it may pass over.\<close>

fun pay_head :: "payload \<Rightarrow> bytes" where
  "pay_head (PLen bs w) = enc w (length bs)"
| "pay_head p = emit_payload p"

fun pay_body :: "payload \<Rightarrow> bytes" where
  "pay_body (PLen bs w) = bs"
| "pay_body p = []"

lemma emit_payload_split: "emit_payload p = pay_head p @ pay_body p"
  by (cases p) simp_all

lemma spells_u64: "(\<exists>v :: u64. bs = le_bytes 8 (unat v)) \<longleftrightarrow> length bs = 8"
proof
  assume l: "length bs = 8"
  then have "le_nat bs < 2 ^ 64" using le_nat_less [of bs] by simp
  then have "unat (of_nat (le_nat bs) :: u64) = le_nat bs" by (simp add: unat_of_nat)
  with le_bytes_le_nat [of bs] l show "\<exists>v :: u64. bs = le_bytes 8 (unat v)" by metis
qed auto

lemma spells_u32: "(\<exists>v :: u32. bs = le_bytes 4 (unat v)) \<longleftrightarrow> length bs = 4"
proof
  assume l: "length bs = 4"
  then have "le_nat bs < 2 ^ 32" using le_nat_less [of bs] by simp
  then have "unat (of_nat (le_nat bs) :: u32) = le_nat bs" by (simp add: unat_of_nat)
  with le_bytes_le_nat [of bs] l show "\<exists>v :: u32. bs = le_bytes 4 (unat v)" by metis
qed auto

end
