(* ===== verification/Walk.thy ===== *)
theory Walk
  imports Grammar
begin

text \<open>
  Iterating a cursor. \<open>walk\<close> is the consumer's loop (\<open>for\<close> or \<open>collect\<close> over the iterator): it
  gathers the entries until the iterator is exhausted or answers a fault, and returns the fault
  and the cursor as they were left. The locale states what a cursor promises per step; the loop
  then returns, and a walk ends cleanly exactly when the bytes ahead are spelled by a lawful sequence of tokens. What a token is and how
  it is spelled are parameters: wire records for the cursors, elements for the packed iterators.
\<close>

partial_function (option) walk ::
  "('c \<Rightarrow> ('c \<times> ('f + 'e) option) option) \<Rightarrow> 'c \<Rightarrow> ('e list \<times> 'f option \<times> 'c) option" where
  "walk step c =
     do { (c', item) \<leftarrow> step c;
          (case item of
             None \<Rightarrow> Some ([], None, c')
           | Some r \<Rightarrow>
               (case r of
                  Inl f \<Rightarrow> Some ([], Some f, c')
                | Inr e \<Rightarrow> do { (es, f, c'') \<leftarrow> walk step c'; Some (e # es, f, c'') })) }"

declare walk.simps [code]

text \<open>A lawful token sequence from a cursor state to its clean end.\<close>

fun lawful_seq ::
  "('c \<Rightarrow> 't \<Rightarrow> bool) \<Rightarrow> ('c \<Rightarrow> 't \<Rightarrow> 'c) \<Rightarrow> ('c \<Rightarrow> bool) \<Rightarrow> 'c \<Rightarrow> 't list \<Rightarrow> bool" where
  "lawful_seq lawful adv closed c [] \<longleftrightarrow> closed c"
| "lawful_seq lawful adv closed c (t # ts) \<longleftrightarrow>
     lawful c t \<and> lawful_seq lawful adv closed (adv c t) ts"

locale token_cursor =
  fixes step :: "'c \<Rightarrow> ('c \<times> ('f + 'e) option) option"
    and ok :: "'c \<Rightarrow> bool"
    and suffix :: "'c \<Rightarrow> bytes"
    and spell :: "'t \<Rightarrow> bytes"
    and lawful :: "'c \<Rightarrow> 't \<Rightarrow> bool"
    and adv :: "'c \<Rightarrow> 't \<Rightarrow> 'c"
    and entry :: "'t \<Rightarrow> 'e"
    and closed :: "'c \<Rightarrow> bool"
  assumes spell_pos: "lawful c t \<Longrightarrow> 0 < length (spell t)"
    and step_total: "ok c \<Longrightarrow> \<exists>out. step c = Some out"
    and step_ok: "ok c \<Longrightarrow> step c = Some (c', item) \<Longrightarrow> ok c'"
    and step_entry: "ok c \<Longrightarrow> step c = Some (c', Some (Inr e)) \<longleftrightarrow>
      (\<exists>t rest. suffix c = spell t @ rest \<and> lawful c t \<and> e = entry t \<and> c' = adv c t)"
    and suffix_adv: "ok c \<Longrightarrow> suffix c = spell t @ rest \<Longrightarrow> lawful c t \<Longrightarrow> suffix (adv c t) = rest"
    and step_end: "ok c \<Longrightarrow> (\<exists>c'. step c = Some (c', None)) \<longleftrightarrow> suffix c = [] \<and> closed c"
    and step_stays: "ok c \<Longrightarrow> step c = Some (c', None) \<Longrightarrow> step c' = Some (c', None)"
    and step_fault: "ok c \<Longrightarrow> step c = Some (c', Some (Inl f)) \<Longrightarrow> step c' = Some (c', None)"
begin

lemma walk_step:
  "step c = Some (c', None) \<Longrightarrow> walk step c = Some ([], None, c')"
  "step c = Some (c', Some (Inl f)) \<Longrightarrow> walk step c = Some ([], Some f, c')"
  "step c = Some (c', Some (Inr e)) \<Longrightarrow>
     walk step c = do { (es, f, c'') \<leftarrow> walk step c'; Some (e # es, f, c'') }"
  by (subst walk.simps; simp)+

lemma step_cases:
  assumes "ok c"
  obtains (finished) c' where "step c = Some (c', None)" "suffix c = []" "closed c"
  | (fault) c' f where "step c = Some (c', Some (Inl f))"
  | (entry) t rest where "step c = Some (adv c t, Some (Inr (entry t)))" "suffix c = spell t @ rest"
      "lawful c t" "suffix (adv c t) = rest" "ok (adv c t)" "length (suffix (adv c t)) < length (suffix c)"
proof -
  obtain c' item where s: "step c = Some (c', item)" using step_total [OF assms] by auto
  show ?thesis
  proof (cases item)
    case None
    with s step_end [OF assms] show ?thesis by (auto intro: finished)
  next
    case (Some r)
    show ?thesis
    proof (cases r)
      case (Inl f)
      with s Some show ?thesis by (auto intro: fault)
    next
      case (Inr e)
      with s Some step_entry [OF assms, of c' e] obtain t rest where
        t: "suffix c = spell t @ rest" "lawful c t" "e = entry t" "c' = adv c t" by blast
      with assms have r: "suffix (adv c t) = rest" by (intro suffix_adv)
      have "ok (adv c t)" using step_ok [OF assms s] t by simp
      moreover have "length (suffix (adv c t)) < length (suffix c)" using r t spell_pos [of c t] by simp
      ultimately show ?thesis using s Some Inr t r by (auto intro: entry)
    qed
  qed
qed

text \<open>The consumer's loop ends.\<close>

lemma walk_returns: "ok c \<Longrightarrow> \<exists>out. walk step c = Some out"
proof (induction "length (suffix c)" arbitrary: c rule: less_induct)
  case less
  from less.prems show ?case
  proof (cases c rule: step_cases)
    case finished
    then show ?thesis by (auto simp: walk_step)
  next
    case (fault c' f)
    then show ?thesis by (simp add: walk_step)
  next
    case (entry t rest)
    from less.hyps [OF entry(6,5)] obtain es f c'' where "walk step (adv c t) = Some (es, f, c'')" by auto
    with entry show ?thesis by (simp add: walk_step)
  qed
qed

text \<open>A clean walk is a lawful token sequence, entry by entry, and conversely.\<close>

lemma walk_clean_sound:
  "ok c \<Longrightarrow> walk step c = Some (es, None, c') \<Longrightarrow>
   \<exists>ts. suffix c = concat (map spell ts) \<and> lawful_seq lawful adv closed c ts \<and> es = map entry ts"
proof (induction "length (suffix c)" arbitrary: c es rule: less_induct)
  case less
  from less.prems(1) show ?case
  proof (cases c rule: step_cases)
    case finished
    with less.prems show ?thesis by (intro exI [of _ "[]"]) (simp add: walk_step)
  next
    case (fault c' f)
    with less.prems show ?thesis by (simp add: walk_step)
  next
    case (entry t rest)
    from less.prems entry obtain es' where es: "es = entry t # es'" "walk step (adv c t) = Some (es', None, c')"
      by (auto simp: walk_step split: bind_splits)
    from less.hyps [OF entry(6,5) es(2)] obtain ts where "suffix (adv c t) = concat (map spell ts)"
      "lawful_seq lawful adv closed (adv c t) ts" "es' = map entry ts" by blast
    with entry es show ?thesis by (intro exI [of _ "t # ts"]) simp
  qed
qed

lemma walk_clean_complete:
  "ok c \<Longrightarrow> suffix c = concat (map spell ts) \<Longrightarrow> lawful_seq lawful adv closed c ts \<Longrightarrow>
   \<exists>c'. walk step c = Some (map entry ts, None, c')"
proof (induction ts arbitrary: c)
  case Nil
  then obtain c' where "step c = Some (c', None)" using step_end by auto
  then show ?case by (simp add: walk_step)
next
  case (Cons t ts)
  then have s: "step c = Some (adv c t, Some (Inr (entry t)))" using step_entry by auto
  moreover have "ok (adv c t)" using step_ok [OF Cons.prems(1) s] .
  moreover have "suffix (adv c t) = concat (map spell ts)" using Cons.prems suffix_adv by auto
  ultimately obtain c' where "walk step (adv c t) = Some (map entry ts, None, c')" using Cons by auto
  with s show ?case by (simp add: walk_step)
qed

lemma walk_clean_iff:
  "ok c \<Longrightarrow> (\<exists>c'. walk step c = Some (es, None, c')) \<longleftrightarrow>
   (\<exists>ts. suffix c = concat (map spell ts) \<and> lawful_seq lawful adv closed c ts \<and> es = map entry ts)"
  using walk_clean_sound walk_clean_complete by blast

text \<open>The iterator is fused: after a walk, clean or faulted, it stays exhausted.\<close>

lemma walk_fused: "ok c \<Longrightarrow> walk step c = Some (es, f, c') \<Longrightarrow> step c' = Some (c', None)"
proof (induction "length (suffix c)" arbitrary: c es rule: less_induct)
  case less
  from less.prems(1) show ?case
  proof (cases c rule: step_cases)
    case finished
    with less.prems step_stays show ?thesis by (auto simp: walk_step)
  next
    case (fault c' f)
    with less.prems step_fault show ?thesis by (simp add: walk_step)
  next
    case (entry t rest)
    from less.prems entry obtain es' where "walk step (adv c t) = Some (es', f, c')"
      by (auto simp: walk_step split: bind_splits)
    from less.hyps [OF entry(6,5) this] show ?thesis .
  qed
qed

text \<open>A loop whose step never faults ends without a fault.\<close>

lemma walk_faultless:
  "(\<And>c c' f. step c \<noteq> Some (c', Some (Inl f))) \<Longrightarrow> ok c \<Longrightarrow> walk step c = Some (es, f, c') \<Longrightarrow> f = None"
proof (induction "length (suffix c)" arbitrary: c es rule: less_induct)
  case less
  from less.prems(2) show ?case
  proof (cases c rule: step_cases)
    case finished
    with less.prems show ?thesis by (auto simp: walk_step)
  next
    case (fault c' f)
    with less.prems(1) show ?thesis by simp
  next
    case (entry t rest)
    from less.prems entry obtain es' where "walk step (adv c t) = Some (es', f, c')"
      by (auto simp: walk_step split: bind_splits)
    from less.hyps [OF entry(6) less.prems(1) entry(5) this] show ?thesis .
  qed
qed

end

end
