(* ===== verification/Cursor_Grouped.thy ===== *)
theory Cursor_Grouped
  imports Walk
begin

text \<open>
  The grouped cursor (\<open>src/src/cursor/grouped.rs\<close>, re-exported by \<open>src/src/traverse/grouped.rs\<close>):
  a pull iterator over the records of a buffered document in which groups are in-band brackets.
  \<open>step_gr\<close> is the source's generic step; \<open>Cursor\<close> and \<open>CanonicalCursor\<close> are its two instances.

  A step returns an option whose \<open>None\<close> is a panic or undefined behaviour; inside it the
  updated cursor and the iterator's answer (\<open>None\<close>: exhausted; \<open>Inl\<close>: fault; \<open>Inr\<close>: entry).
  The stack of open groups is the source's vector with its last element first.
\<close>

section \<open>Data\<close>

datatype entry_kind_gr =
    EkVarint_gr u64 | EkI64_gr u64 | EkLen_gr bytes | EkGroupEnter_gr | EkGroupExit_gr | EkI32_gr u32

record entry_gr =
  entry_field_gr :: field_number
  entry_kind_gr :: entry_kind_gr

datatype fault_kind_gr =
    FkRead_gr stage read_fault
  | FkFieldZero_gr u32
  | FkUnassigned_gr field_number low3
  | FkFixedTruncated_gr field_number
  | FkLenOverrun_gr field_number payload_len
  | FkGroupEndMismatch_gr field_number u32 field_number
  | FkGroupEndOrphan_gr field_number
  | FkGroupUnclosed_gr field_number u32
  | FkDepthExceeded_gr field_number group_depth
  | FkNonMinimalTag_gr
  | FkNonMinimalLen_gr field_number
  | FkNonMinimalValue_gr field_number

record fault_gr =
  fault_at_gr :: u32
  fault_kind_gr :: fault_kind_gr

fun fault_class_gr :: "fault_kind_gr \<Rightarrow> fault_class" where
  "fault_class_gr (FkRead_gr _ _) = Grammar"
| "fault_class_gr (FkFieldZero_gr _) = Grammar"
| "fault_class_gr (FkUnassigned_gr _ _) = Grammar"
| "fault_class_gr (FkFixedTruncated_gr _) = Grammar"
| "fault_class_gr (FkLenOverrun_gr _ _) = Grammar"
| "fault_class_gr (FkGroupEndMismatch_gr _ _ _) = Grammar"
| "fault_class_gr (FkGroupEndOrphan_gr _) = Grammar"
| "fault_class_gr (FkGroupUnclosed_gr _ _) = Grammar"
| "fault_class_gr (FkDepthExceeded_gr _ _) = Policy"
| "fault_class_gr FkNonMinimalTag_gr = Policy"
| "fault_class_gr (FkNonMinimalLen_gr _) = Policy"
| "fault_class_gr (FkNonMinimalValue_gr _) = Policy"

record cursor_gr =
  cur_data_gr :: bytes
  cur_opens_gr :: "(field_number \<times> u32) list"
  cur_at_gr :: nat
  cur_limit_gr :: group_depth
  cur_geo_gr :: "16 word"

type_synonym item_gr = "(fault_gr + entry_gr) option"

section \<open>Operations\<close>

definition cursor_over_gr :: "bytes \<Rightarrow> group_depth \<Rightarrow> oversize + cursor_gr" where
  "cursor_over_gr data limit =
     (if length data > admission_MAX then Inl Oversize
      else Inr \<lparr>cur_data_gr = data, cur_opens_gr = [], cur_at_gr = 0, cur_limit_gr = limit, cur_geo_gr = 0\<rparr>)"

definition cursor_within_gr :: "bytes \<Rightarrow> group_depth \<Rightarrow> cursor_gr option" where
  "cursor_within_gr payload limit =
     (if length payload \<le> admission_MAX
      then Some \<lparr>cur_data_gr = payload, cur_opens_gr = [], cur_at_gr = 0, cur_limit_gr = limit, cur_geo_gr = 0\<rparr>
      else None)"

definition cursor_pos_gr :: "cursor_gr \<Rightarrow> u32" where
  "cursor_pos_gr c = admitted_u32 (cur_at_gr c)"

definition tag_width_gr :: "cursor_gr \<Rightarrow> u8" where
  "tag_width_gr c = ucast (cur_geo_gr c)"

definition prefix_width_gr :: "cursor_gr \<Rightarrow> u8" where
  "prefix_width_gr c = ucast (drop_bit 8 (cur_geo_gr c))"

definition cursor_fault_gr :: "cursor_gr \<Rightarrow> nat \<Rightarrow> fault_kind_gr \<Rightarrow> cursor_gr \<times> item_gr" where
  "cursor_fault_gr c at kind =
     (c\<lparr>cur_data_gr := [], cur_opens_gr := []\<rparr>,
      Some (Inl \<lparr>fault_at_gr = admitted_u32 at, fault_kind_gr = kind\<rparr>))"

definition deliver_gr ::
  "cursor_gr \<Rightarrow> nat \<Rightarrow> 16 word \<Rightarrow> field_number \<Rightarrow> entry_kind_gr \<Rightarrow> cursor_gr \<times> item_gr" where
  "deliver_gr c at geo field kind =
     (c\<lparr>cur_at_gr := at, cur_geo_gr := geo\<rparr>,
      Some (Inr \<lparr>entry_field_gr = field, entry_kind_gr = kind\<rparr>))"

text \<open>The arms of the step, one per tag class.\<close>

definition varint_arm_gr ::
  "bool \<Rightarrow> cursor_gr \<Rightarrow> field_number \<Rightarrow> nat \<Rightarrow> nat \<Rightarrow> (cursor_gr \<times> item_gr) option" where
  "varint_arm_gr MINIMAL c field tag_w value_at =
     do { r \<leftarrow> value64 (cur_data_gr c) value_at (length (cur_data_gr c));
          Some (case r of
              Inl cause \<Rightarrow> cursor_fault_gr c value_at (FkRead_gr (StageValue field) cause)
            | Inr (val, width) \<Rightarrow>
                if MINIMAL \<and> width \<noteq> encoded_len64 val
                then cursor_fault_gr c value_at (FkNonMinimalValue_gr field)
                else deliver_gr c (value_at + width) (of_nat tag_w) field (EkVarint_gr val)) }"

definition i64_arm_gr :: "cursor_gr \<Rightarrow> field_number \<Rightarrow> nat \<Rightarrow> nat \<Rightarrow> (cursor_gr \<times> item_gr) option" where
  "i64_arm_gr c field tag_w value_at =
     do { room \<leftarrow> usub (length (cur_data_gr c)) value_at;
          if room < 8 then Some (cursor_fault_gr c value_at (FkFixedTruncated_gr field))
          else do { raw \<leftarrow> load_u64 (cur_data_gr c) value_at;
                    Some (deliver_gr c (value_at + 8) (of_nat tag_w) field (EkI64_gr raw)) } }"

definition i32_arm_gr :: "cursor_gr \<Rightarrow> field_number \<Rightarrow> nat \<Rightarrow> nat \<Rightarrow> (cursor_gr \<times> item_gr) option" where
  "i32_arm_gr c field tag_w value_at =
     do { room \<leftarrow> usub (length (cur_data_gr c)) value_at;
          if room < 4 then Some (cursor_fault_gr c value_at (FkFixedTruncated_gr field))
          else do { raw \<leftarrow> load_u32 (cur_data_gr c) value_at;
                    Some (deliver_gr c (value_at + 4) (of_nat tag_w) field (EkI32_gr raw)) } }"

definition len_arm_gr ::
  "bool \<Rightarrow> cursor_gr \<Rightarrow> field_number \<Rightarrow> nat \<Rightarrow> nat \<Rightarrow> (cursor_gr \<times> item_gr) option" where
  "len_arm_gr MINIMAL c field tag_w value_at =
     do { r \<leftarrow> len_word (cur_data_gr c) value_at (length (cur_data_gr c));
          (case r of
             Inl cause \<Rightarrow> Some (cursor_fault_gr c value_at (FkRead_gr (StageLenPrefix field) cause))
           | Inr (len, width) \<Rightarrow>
               if MINIMAL \<and> width \<noteq> encoded_len32 (len_inner len)
               then Some (cursor_fault_gr c value_at (FkNonMinimalLen_gr field))
               else
                 let payload_at = value_at + width; need = usize_of (len_inner len) in
                 do { room \<leftarrow> usub (length (cur_data_gr c)) payload_at;
                      Some (if room < need
                            then cursor_fault_gr c payload_at (FkLenOverrun_gr field len)
                            else deliver_gr c (payload_at + need)
                                   (push_bit 8 (of_nat width) OR of_nat tag_w) field
                                   (EkLen_gr (extent_of (cur_data_gr c) payload_at (payload_at + need)))) }) }"

definition enter_arm_gr :: "cursor_gr \<Rightarrow> field_number \<Rightarrow> nat \<Rightarrow> nat \<Rightarrow> cursor_gr \<times> item_gr" where
  "enter_arm_gr c field tag_w value_at =
     (if length (cur_opens_gr c) \<ge> unat (cur_limit_gr c)
      then cursor_fault_gr c (cur_at_gr c) (FkDepthExceeded_gr field (cur_limit_gr c))
      else deliver_gr (c\<lparr>cur_opens_gr := (field, admitted_u32 (cur_at_gr c)) # cur_opens_gr c\<rparr>)
             value_at (of_nat tag_w) field EkGroupEnter_gr)"

definition exit_arm_gr :: "cursor_gr \<Rightarrow> field_number \<Rightarrow> nat \<Rightarrow> nat \<Rightarrow> cursor_gr \<times> item_gr" where
  "exit_arm_gr c field tag_w value_at =
     (case cur_opens_gr c of
        (open, opened_at) # rest \<Rightarrow>
          if open = field
          then deliver_gr (c\<lparr>cur_opens_gr := rest\<rparr>) value_at (of_nat tag_w) field EkGroupExit_gr
          else cursor_fault_gr (c\<lparr>cur_opens_gr := rest\<rparr>) (cur_at_gr c)
                 (FkGroupEndMismatch_gr open opened_at field)
      | [] \<Rightarrow> cursor_fault_gr c (cur_at_gr c) (FkGroupEndOrphan_gr field))"

definition dispatch_gr ::
  "bool \<Rightarrow> cursor_gr \<Rightarrow> field_number \<Rightarrow> low3 \<Rightarrow> nat \<Rightarrow> (cursor_gr \<times> item_gr) option" where
  "dispatch_gr MINIMAL c field low3 tag_w =
     (let head = cur_at_gr c; value_at = head + tag_w in
      case classify_gr low3 of
        GrRecord GrVarint \<Rightarrow> varint_arm_gr MINIMAL c field tag_w value_at
      | GrRecord GrI64 \<Rightarrow> i64_arm_gr c field tag_w value_at
      | GrRecord GrI32 \<Rightarrow> i32_arm_gr c field tag_w value_at
      | GrRecord GrLen \<Rightarrow> len_arm_gr MINIMAL c field tag_w value_at
      | GrRecord GrGroup \<Rightarrow> Some (enter_arm_gr c field tag_w value_at)
      | GrGroupEnd \<Rightarrow> Some (exit_arm_gr c field tag_w value_at)
      | GrUnassigned \<Rightarrow> Some (cursor_fault_gr c head (FkUnassigned_gr field low3)))"

definition step_gr :: "bool \<Rightarrow> cursor_gr \<Rightarrow> (cursor_gr \<times> item_gr) option" where
  "step_gr MINIMAL c =
     (let data = cur_data_gr c; end = length data; head = cur_at_gr c in
      if head \<ge> end then
        (case cur_opens_gr c of
           [] \<Rightarrow> Some (c, None)
         | (open, opened_at) # _ \<Rightarrow> Some (cursor_fault_gr c head (FkGroupUnclosed_gr open opened_at)))
      else
        do { r \<leftarrow> tag_word data head end;
             (case r of
                Inl cause \<Rightarrow> Some (cursor_fault_gr c head (FkRead_gr StageTag cause))
              | Inr (word, tag_w) \<Rightarrow>
                  if MINIMAL \<and> tag_w \<noteq> encoded_len32 word
                  then Some (cursor_fault_gr c head FkNonMinimalTag_gr)
                  else
                    (case FieldNumber_from_word word of
                       None \<Rightarrow> Some (cursor_fault_gr c head (FkFieldZero_gr word))
                     | Some field \<Rightarrow> dispatch_gr MINIMAL c field (Low3_from_word word) tag_w)) })"

definition cursor_next_gr :: "cursor_gr \<Rightarrow> (cursor_gr \<times> item_gr) option" where
  "cursor_next_gr c = step_gr False c"

record canonical_gr =
  canon_walk_gr :: cursor_gr

definition canonical_over_gr :: "bytes \<Rightarrow> group_depth \<Rightarrow> oversize + canonical_gr" where
  "canonical_over_gr data limit =
     (if length data > admission_MAX then Inl Oversize
      else Inr \<lparr>canon_walk_gr = \<lparr>cur_data_gr = data, cur_opens_gr = [], cur_at_gr = 0,
                                  cur_limit_gr = limit, cur_geo_gr = 0\<rparr>\<rparr>)"

definition canonical_within_gr :: "bytes \<Rightarrow> group_depth \<Rightarrow> canonical_gr option" where
  "canonical_within_gr payload limit =
     map_option (\<lambda>w. \<lparr>canon_walk_gr = w\<rparr>) (cursor_within_gr payload limit)"

definition canonical_next_gr :: "canonical_gr \<Rightarrow> (canonical_gr \<times> item_gr) option" where
  "canonical_next_gr c =
     map_option (\<lambda>(w, item). (c\<lparr>canon_walk_gr := w\<rparr>, item)) (step_gr True (canon_walk_gr c))"

section \<open>A step delivers exactly the next token\<close>

fun entry_kind_of_gr :: "payload \<Rightarrow> entry_kind_gr" where
  "entry_kind_of_gr (PVarint v w) = EkVarint_gr v"
| "entry_kind_of_gr (PI64 v) = EkI64_gr v"
| "entry_kind_of_gr (PLen bs w) = EkLen_gr bs"
| "entry_kind_of_gr PEnter = EkGroupEnter_gr"
| "entry_kind_of_gr PExit = EkGroupExit_gr"
| "entry_kind_of_gr (PI32 v) = EkI32_gr v"

definition entry_of_gr :: "token \<Rightarrow> entry_gr" where
  "entry_of_gr t = \<lparr>entry_field_gr = tk_field t, entry_kind_gr = entry_kind_of_gr (tk_payload t)\<rparr>"

definition deliver_tok_gr :: "cursor_gr \<Rightarrow> (field_number \<times> u32) list \<Rightarrow> token \<Rightarrow> cursor_gr \<times> item_gr" where
  "deliver_tok_gr c opens t =
     (c\<lparr>cur_opens_gr := opens, cur_at_gr := cur_at_gr c + length (emit_tok t), cur_geo_gr := geo_of t\<rparr>,
      Some (Inr (entry_of_gr t)))"

lemma fault_not_entry_gr [simp]: "cursor_fault_gr c at k \<noteq> (c', Some (Inr e))" "cursor_fault_gr c at k \<noteq> (c', None)"
  by (simp_all add: cursor_fault_gr_def)

lemma varint_arm_iff_gr:
  assumes "va \<le> length (cur_data_gr c)"
  shows "varint_arm_gr m c f tw va = Some (c', Some (Inr e)) \<longleftrightarrow>
    (\<exists>v w rest. drop va (cur_data_gr c) = emit_payload (PVarint v w) @ rest \<and> payload_ok (PVarint v w) \<and>
      (m \<longrightarrow> payload_minimal (PVarint v w)) \<and>
      (c', Some (Inr e)) = deliver_gr c (va + w) (of_nat tw) f (EkVarint_gr v))"
proof -
  have "varint_arm_gr m c f tw va = Some (c', Some (Inr e)) \<longleftrightarrow>
    (\<exists>v w. value64 (cur_data_gr c) va (length (cur_data_gr c)) = Some (Inr (v, w)) \<and>
      (m \<longrightarrow> w = encoded_len64 v) \<and>
      (c', Some (Inr e)) = deliver_gr c (va + w) (of_nat tw) f (EkVarint_gr v))"
    by (auto simp: varint_arm_gr_def split: bind_splits sum.splits if_splits)
  then show ?thesis unfolding value_face.read_suffix_iff [OF assms] by auto
qed

lemma i64_arm_iff_gr:
  assumes "va \<le> length (cur_data_gr c)"
  shows "i64_arm_gr c f tw va = Some (c', Some (Inr e)) \<longleftrightarrow>
    (\<exists>v rest. drop va (cur_data_gr c) = emit_payload (PI64 v) @ rest \<and>
      (c', Some (Inr e)) = deliver_gr c (va + 8) (of_nat tw) f (EkI64_gr v))"
proof -
  have "i64_arm_gr c f tw va = Some (c', Some (Inr e)) \<longleftrightarrow>
    (\<exists>v. load_u64 (cur_data_gr c) va = Some v \<and>
      (c', Some (Inr e)) = deliver_gr c (va + 8) (of_nat tw) f (EkI64_gr v))"
    using assms load_u64_room [of "cur_data_gr c" va] by (auto simp: i64_arm_gr_def split: bind_splits)
  then show ?thesis unfolding load_u64_iff [OF assms] by auto
qed

lemma i32_arm_iff_gr:
  assumes "va \<le> length (cur_data_gr c)"
  shows "i32_arm_gr c f tw va = Some (c', Some (Inr e)) \<longleftrightarrow>
    (\<exists>v rest. drop va (cur_data_gr c) = emit_payload (PI32 v) @ rest \<and>
      (c', Some (Inr e)) = deliver_gr c (va + 4) (of_nat tw) f (EkI32_gr v))"
proof -
  have "i32_arm_gr c f tw va = Some (c', Some (Inr e)) \<longleftrightarrow>
    (\<exists>v. load_u32 (cur_data_gr c) va = Some v \<and>
      (c', Some (Inr e)) = deliver_gr c (va + 4) (of_nat tw) f (EkI32_gr v))"
    using assms load_u32_room [of "cur_data_gr c" va] by (auto simp: i32_arm_gr_def split: bind_splits)
  then show ?thesis unfolding load_u32_iff [OF assms] by auto
qed

lemma len_arm_iff_gr:
  assumes "va \<le> length (cur_data_gr c)"
  shows "len_arm_gr m c f tw va = Some (c', Some (Inr e)) \<longleftrightarrow>
    (\<exists>bs w rest. drop va (cur_data_gr c) = emit_payload (PLen bs w) @ rest \<and> payload_ok (PLen bs w) \<and>
      (m \<longrightarrow> payload_minimal (PLen bs w)) \<and>
      (c', Some (Inr e)) = deliver_gr c (va + w + length bs) (push_bit 8 (of_nat w) OR of_nat tw) f (EkLen_gr bs))"
proof -
  let ?d = "cur_data_gr c"
  have "len_arm_gr m c f tw va = Some (c', Some (Inr e)) \<longleftrightarrow>
    (\<exists>len w. len_word ?d va (length ?d) = Some (Inr (len, w)) \<and>
      (m \<longrightarrow> w = encoded_len32 (len_inner len)) \<and> va + w + unat len \<le> length ?d \<and>
      (c', Some (Inr e)) = deliver_gr c (va + w + unat len) (push_bit 8 (of_nat w) OR of_nat tw) f
        (EkLen_gr (extent_of ?d (va + w) (va + w + unat len))))"
    using len_face.read_width [of "length ?d" ?d va]
    by (fastforce simp: len_arm_gr_def Let_def usize_of_def not_less split: bind_splits sum.splits if_splits)
  also have "\<dots> \<longleftrightarrow> (\<exists>bs w. payload_ok (PLen bs w) \<and> (m \<longrightarrow> payload_minimal (PLen bs w)) \<and>
      (\<exists>rest. drop va ?d = emit_payload (PLen bs w) @ rest) \<and>
      (c', Some (Inr e)) = deliver_gr c (va + w + length bs) (push_bit 8 (of_nat w) OR of_nat tw) f (EkLen_gr bs))"
    (is "?L \<longleftrightarrow> ?R")
  proof
    assume ?L
    then obtain len w where r: "len_word ?d va (length ?d) = Some (Inr (len, w))" "va + w + unat len \<le> length ?d"
      and m: "m \<longrightarrow> w = encoded_len32 (len_inner len)"
      and e: "(c', Some (Inr e)) = deliver_gr c (va + w + unat len) (push_bit 8 (of_nat w) OR of_nat tw) f
        (EkLen_gr (extent_of ?d (va + w) (va + w + unat len)))" by blast
    define bs where "bs = extent_of ?d (va + w) (va + w + unat len)"
    from len_suffix_iff [OF assms, of len w bs] r bs_def
    have p: "payload_ok (PLen bs w)" "len = of_nat (length bs)" "\<exists>rest. drop va ?d = emit_payload (PLen bs w) @ rest"
      by blast+
    moreover from p have "unat len = length bs" by (simp add: unat_of_nat_len)
    moreover from p(1,2) have "len_inner len = of_nat (length bs)" by (simp add: len_inner_of_nat)
    ultimately show ?R using m e unfolding bs_def [symmetric]
      by (intro exI [of _ bs] exI [of _ w]) simp
  next
    assume ?R
    then obtain bs w where p: "payload_ok (PLen bs w)" "\<exists>rest. drop va ?d = emit_payload (PLen bs w) @ rest"
      and m: "m \<longrightarrow> payload_minimal (PLen bs w)"
      and e: "(c', Some (Inr e)) = deliver_gr c (va + w + length bs) (push_bit 8 (of_nat w) OR of_nat tw) f (EkLen_gr bs)"
      by blast
    define len :: payload_len where "len = of_nat (length bs)"
    from len_suffix_iff [OF assms, of len w bs] p len_def
    have r: "len_word ?d va (length ?d) = Some (Inr (len, w))" "va + w + unat len \<le> length ?d"
      "bs = extent_of ?d (va + w) (va + w + unat len)" by blast+
    have "unat len = length bs" "len_inner len = of_nat (length bs)"
      using p(1) by (simp_all add: len_def unat_of_nat_len len_inner_of_nat)
    with r(1,2) r(3) [symmetric] m e show ?L by (intro exI [of _ len] exI [of _ w]) simp
  qed
  finally show ?thesis unfolding ex_simps(1,2) [symmetric] conj_assoc conj_left_commute [of "drop va ?d = _"] .
qed

lemma opens_same_gr: "c\<lparr>cur_opens_gr := cur_opens_gr c, cur_at_gr := a, cur_geo_gr := g\<rparr> = c\<lparr>cur_at_gr := a, cur_geo_gr := g\<rparr>"
  by (cases c) simp

lemma deliver_tok_eq_gr:
  "deliver_tok_gr c o' (Token f w p) =
     deliver_gr (c\<lparr>cur_opens_gr := o'\<rparr>) (cur_at_gr c + w + length (emit_payload p)) (geo_of (Token f w p)) f (entry_kind_of_gr p)"
  by (simp add: deliver_tok_gr_def deliver_gr_def entry_of_gr_def add.assoc)

lemma deliver_same_gr: "deliver_gr (c\<lparr>cur_opens_gr := cur_opens_gr c\<rparr>) = deliver_gr c"
  by (intro ext) (simp add: deliver_gr_def opens_same_gr)

lemma dispatch_entry_gr:
  assumes "cur_at_gr c + w \<le> length (cur_data_gr c)"
  shows "dispatch_gr m c f k w = Some (c', Some (Inr e)) \<longleftrightarrow>
    (\<exists>p. code_of p = k \<and> (\<exists>rest o'. drop (cur_at_gr c + w) (cur_data_gr c) = emit_payload p @ rest \<and>
      payload_ok p \<and> (m \<longrightarrow> payload_minimal p) \<and>
      opens_after (unat (cur_limit_gr c)) (cur_opens_gr c) (cur_at_gr c) (Token f w p) = Some o' \<and>
      (c', Some (Inr e)) = deliver_tok_gr c o' (Token f w p)))" (is "_ \<longleftrightarrow> ?R k")
proof -
  consider "k = 0" | "k = 1" | "k = 2" | "k = 3" | "k = 4" | "k = 5" | "k = 6" | "k = 7"
    using low3_cases by blast
  then show ?thesis
  proof cases
    case 1
    then show ?thesis unfolding 1 ex_code deliver_tok_eq_gr
      by (simp add: dispatch_gr_def kernel_simps varint_arm_iff_gr [OF assms] opens_after_def deliver_same_gr)
  next
    case 2
    then show ?thesis unfolding 2 ex_code deliver_tok_eq_gr
      by (simp add: dispatch_gr_def kernel_simps i64_arm_iff_gr [OF assms] opens_after_def deliver_same_gr)
  next
    case 3
    then show ?thesis unfolding 3 ex_code deliver_tok_eq_gr
      by (simp add: dispatch_gr_def kernel_simps len_arm_iff_gr [OF assms] opens_after_def deliver_same_gr add.assoc)
  next
    case 4
    then show ?thesis unfolding 4 ex_code deliver_tok_eq_gr
      by (auto simp: dispatch_gr_def kernel_simps enter_arm_gr_def opens_after_def admitted_u32_def)
  next
    case 5
    then show ?thesis unfolding 5 ex_code deliver_tok_eq_gr
      by (auto simp: dispatch_gr_def kernel_simps exit_arm_gr_def opens_after_def split: list.split)
  next
    case 6
    then show ?thesis unfolding 6 ex_code deliver_tok_eq_gr
      by (simp add: dispatch_gr_def kernel_simps i32_arm_iff_gr [OF assms] opens_after_def deliver_same_gr)
  qed (simp_all add: dispatch_gr_def kernel_simps ex_code)
qed

lemma step_dispatch_gr:
  assumes "cur_at_gr c < length (cur_data_gr c)"
  shows "step_gr m c = Some (c', Some (Inr e)) \<longleftrightarrow>
    (\<exists>word w f. tag_word (cur_data_gr c) (cur_at_gr c) (length (cur_data_gr c)) = Some (Inr (word, w)) \<and>
      FieldNumber_from_word word = Some f \<and> (m \<longrightarrow> w = encoded_len32 word) \<and>
      dispatch_gr m c f (Low3_from_word word) w = Some (c', Some (Inr e)))"
proof (cases "tag_word (cur_data_gr c) (cur_at_gr c) (length (cur_data_gr c))")
  case None
  then show ?thesis using assms by (simp add: step_gr_def)
next
  case (Some r)
  show ?thesis
  proof (cases r)
    case (Inl cause)
    then show ?thesis using assms Some by (simp add: step_gr_def)
  next
    case (Inr vw)
    then show ?thesis using assms Some
      by (cases vw; cases "FieldNumber_from_word (fst vw)") (auto simp: step_gr_def Let_def)
  qed
qed

lemma step_entry_gr:
  assumes lt: "cur_at_gr c < length (cur_data_gr c)"
  shows "step_gr m c = Some (c', Some (Inr e)) \<longleftrightarrow>
    (\<exists>t rest o'. drop (cur_at_gr c) (cur_data_gr c) = emit_tok t @ rest \<and> tok_ok t \<and> (m \<longrightarrow> tok_minimal t) \<and>
      opens_after (unat (cur_limit_gr c)) (cur_opens_gr c) (cur_at_gr c) t = Some o' \<and>
      (c', Some (Inr e)) = deliver_tok_gr c o' t)" (is "_ \<longleftrightarrow> ?R")
proof
  let ?d = "cur_data_gr c" and ?h = "cur_at_gr c"
  have le: "?h \<le> length ?d" using lt by simp
  assume "step_gr m c = Some (c', Some (Inr e))"
  then obtain word w f where h: "tag_word ?d ?h (length ?d) = Some (Inr (word, w))"
    "FieldNumber_from_word word = Some f" and m: "m \<longrightarrow> w = encoded_len32 word"
    and s: "dispatch_gr m c f (Low3_from_word word) w = Some (c', Some (Inr e))"
    unfolding step_dispatch_gr [OF lt] by blast
  define k where "k = Low3_from_word word"
  obtain rest where f: "field_ok f" and word: "word = wire_tag_word f k" and w: "0 < w" "w \<le> 5" "unat word < 128 ^ w"
    and rest: "drop ?h ?d = enc w (unat word) @ rest"
    using head_iff [OF le, of word w f k] h k_def by auto
  have hw: "drop (?h + w) ?d = rest" "?h + w \<le> length ?d"
    using head_split [OF rest le] by simp_all
  from s obtain p rest' o' where p: "code_of p = k" "rest = emit_payload p @ rest'" "payload_ok p" "m \<longrightarrow> payload_minimal p"
    "opens_after (unat (cur_limit_gr c)) (cur_opens_gr c) ?h (Token f w p) = Some o'"
    "(c', Some (Inr e)) = deliver_tok_gr c o' (Token f w p)"
    unfolding k_def [symmetric] dispatch_entry_gr [OF hw(2)] hw(1) by blast
  have "tag_of f p = word" by (simp add: tag_of_def p(1) word)
  with f w p m rest show ?R
    by (intro exI [of _ "Token f w p"] exI [of _ rest'] exI [of _ o']) simp
next
  let ?d = "cur_data_gr c" and ?h = "cur_at_gr c"
  have le: "?h \<le> length ?d" using lt by simp
  assume ?R
  then obtain t rest o' where t: "drop ?h ?d = emit_tok t @ rest" "tok_ok t" "m \<longrightarrow> tok_minimal t"
    "opens_after (unat (cur_limit_gr c)) (cur_opens_gr c) ?h t = Some o'"
    "(c', Some (Inr e)) = deliver_tok_gr c o' t" by blast
  obtain f w p where tok: "t = Token f w p" by (cases t)
  note t = t [unfolded tok]
  have d: "drop ?h ?d = enc w (unat (tag_of f p)) @ emit_payload p @ rest" using t(1) by simp
  have hw: "drop (?h + w) ?d = emit_payload p @ rest" "?h + w \<le> length ?d"
    using head_split [OF d le] by simp_all
  have h: "tag_word ?d ?h (length ?d) = Some (Inr (tag_of f p, w)) \<and>
      FieldNumber_from_word (tag_of f p) = Some f \<and> Low3_from_word (tag_of f p) = code_of p"
    unfolding head_iff [OF le] using d t(2) by (auto simp: tag_of_def)
  have "dispatch_gr m c f (code_of p) w = Some (c', Some (Inr e))"
    unfolding dispatch_entry_gr [OF hw(2)] hw(1) using t by auto
  with h t(3) show "step_gr m c = Some (c', Some (Inr e))"
    unfolding step_dispatch_gr [OF lt] by (intro exI [of _ "tag_of f p"] exI [of _ w] exI [of _ f]) simp
qed

section \<open>A step returns, and a fault fuses the cursor\<close>

lemma varint_arm_returns_gr: "\<exists>out. varint_arm_gr m c f tw va = Some out"
  using value_face.read_returns [OF order_refl, of "cur_data_gr c" va] by (auto simp: varint_arm_gr_def)

lemma i64_arm_returns_gr: "va \<le> length (cur_data_gr c) \<Longrightarrow> \<exists>out. i64_arm_gr c f tw va = Some out"
  by (cases "va + 8 \<le> length (cur_data_gr c)")
    (auto simp: i64_arm_gr_def dest!: load_u64_returns)

lemma i32_arm_returns_gr: "va \<le> length (cur_data_gr c) \<Longrightarrow> \<exists>out. i32_arm_gr c f tw va = Some out"
  by (cases "va + 4 \<le> length (cur_data_gr c)")
    (auto simp: i32_arm_gr_def dest!: load_u32_returns)

lemma len_arm_returns_gr: "\<exists>out. len_arm_gr m c f tw va = Some out"
proof -
  obtain r where r: "len_word (cur_data_gr c) va (length (cur_data_gr c)) = Some r"
    using len_face.read_returns [OF order_refl, of "cur_data_gr c" va] by blast
  show ?thesis
  proof (cases r)
    case (Inr lw)
    then obtain l w where "r = Inr (l, w)" by (cases lw) auto
    moreover from this r len_face.read_width [OF order_refl] have "va + w \<le> length (cur_data_gr c)" by blast
    ultimately show ?thesis using r by (simp add: len_arm_gr_def Let_def)
  qed (use r in \<open>simp add: len_arm_gr_def\<close>)
qed

lemma dispatch_returns_gr:
  "cur_at_gr c + w \<le> length (cur_data_gr c) \<Longrightarrow> \<exists>out. dispatch_gr m c f k w = Some out"
  using varint_arm_returns_gr i64_arm_returns_gr i32_arm_returns_gr len_arm_returns_gr
  by (simp add: dispatch_gr_def Let_def split: tag_class_gr.split record_kind_gr.split)

lemma step_returns_gr: "\<exists>out. step_gr m c = Some out"
proof (cases "cur_at_gr c \<ge> length (cur_data_gr c)")
  case True
  then show ?thesis by (auto simp: step_gr_def Let_def split: list.split)
next
  case False
  obtain r where r: "tag_word (cur_data_gr c) (cur_at_gr c) (length (cur_data_gr c)) = Some r"
    using tag_face.read_returns [OF order_refl, of "cur_data_gr c" "cur_at_gr c"] by blast
  show ?thesis
  proof (cases r)
    case (Inl cause)
    with False r show ?thesis by (simp add: step_gr_def Let_def)
  next
    case (Inr vw)
    then obtain word w where vw: "r = Inr (word, w)" by (cases vw) auto
    with r tag_face.read_width [OF order_refl] have "cur_at_gr c + w \<le> length (cur_data_gr c)" by blast
    with dispatch_returns_gr False r vw show ?thesis
      by (cases "FieldNumber_from_word word") (auto simp: step_gr_def Let_def)
  qed
qed

text \<open>Faults are answered in one way only.\<close>

definition answered_gr :: "cursor_gr \<Rightarrow> cursor_gr \<times> item_gr \<Rightarrow> bool" where
  "answered_gr c out \<longleftrightarrow>
     snd out \<noteq> None \<and>
     (\<forall>f. snd out = Some (Inl f) \<longrightarrow>
        fst out = c\<lparr>cur_data_gr := [], cur_opens_gr := []\<rparr> \<and>
        (\<exists>at. cur_at_gr c \<le> at \<and> (at = cur_at_gr c \<or> at \<le> length (cur_data_gr c)) \<and>
           fault_at_gr f = admitted_u32 at))"

lemma answered_fault_gr:
  "cur_at_gr c \<le> at \<Longrightarrow> at = cur_at_gr c \<or> at \<le> length (cur_data_gr c) \<Longrightarrow> answered_gr c (cursor_fault_gr c at k)"
  "answered_gr c (cursor_fault_gr (c\<lparr>cur_opens_gr := os\<rparr>) (cur_at_gr c) k)"
  by (cases c; auto simp: answered_gr_def cursor_fault_gr_def)+

lemma answered_deliver_gr [simp]: "answered_gr c (deliver_gr c' a g f k)"
  by (simp add: answered_gr_def deliver_gr_def)

lemma arms_answered_gr:
  assumes va: "cur_at_gr c \<le> va" "va \<le> length (cur_data_gr c)"
  shows "varint_arm_gr m c f tw va = Some out \<Longrightarrow> answered_gr c out"
    "i64_arm_gr c f tw va = Some out \<Longrightarrow> answered_gr c out"
    "i32_arm_gr c f tw va = Some out \<Longrightarrow> answered_gr c out"
    "len_arm_gr m c f tw va = Some out \<Longrightarrow> answered_gr c out"
    "answered_gr c (enter_arm_gr c f tw va)" "answered_gr c (exit_arm_gr c f tw va)"
proof -
  have w: "va + w \<le> length (cur_data_gr c)" if "len_word (cur_data_gr c) va (length (cur_data_gr c)) = Some (Inr (l, w))" for l w
    using len_face.read_width [OF order_refl that] by simp
  show "len_arm_gr m c f tw va = Some out \<Longrightarrow> answered_gr c out"
    using va w by (fastforce simp: len_arm_gr_def Let_def intro!: answered_fault_gr split: bind_splits sum.splits if_splits)
qed (use va in \<open>auto simp: varint_arm_gr_def i64_arm_gr_def i32_arm_gr_def enter_arm_gr_def exit_arm_gr_def
      intro!: answered_fault_gr split: bind_splits sum.splits if_splits list.splits\<close>)

lemma step_end_gr:
  "cur_at_gr c \<ge> length (cur_data_gr c) \<Longrightarrow> cur_opens_gr c = [] \<Longrightarrow> step_gr m c = Some (c, None)"
  by (simp add: step_gr_def Let_def)

lemma step_answered_gr:
  assumes "step_gr m c = Some out" "\<not> (cur_at_gr c \<ge> length (cur_data_gr c) \<and> cur_opens_gr c = [])"
  shows "answered_gr c out"
proof (cases "cur_at_gr c \<ge> length (cur_data_gr c)")
  case True
  then obtain f a os where "cur_opens_gr c = (f, a) # os" using assms(2) by (cases "cur_opens_gr c") auto
  then show ?thesis using assms True
    by (auto simp: step_gr_def Let_def intro!: answered_fault_gr)
next
  case False
  obtain r where r: "tag_word (cur_data_gr c) (cur_at_gr c) (length (cur_data_gr c)) = Some r"
    using tag_face.read_returns [OF order_refl, of "cur_data_gr c" "cur_at_gr c"] by blast
  show ?thesis
  proof (cases r)
    case (Inl cause)
    with False r assms show ?thesis by (auto simp: step_gr_def Let_def intro!: answered_fault_gr)
  next
    case (Inr vw)
    then obtain word w where vw: "r = Inr (word, w)" by (cases vw) auto
    with r tag_face.read_width [OF order_refl] have w: "cur_at_gr c + w \<le> length (cur_data_gr c)" by blast
    have "dispatch_gr m c f k w = Some out \<Longrightarrow> answered_gr c out" for f k
      using arms_answered_gr [OF _ w]
      by (auto simp: dispatch_gr_def Let_def intro!: answered_fault_gr split: tag_class_gr.splits record_kind_gr.splits)
    with False r vw assms show ?thesis
      by (cases "FieldNumber_from_word word")
        (auto simp: step_gr_def Let_def intro!: answered_fault_gr split: if_splits)
  qed
qed

section \<open>The cursor as a token cursor\<close>

definition suffix_gr :: "cursor_gr \<Rightarrow> bytes" where
  "suffix_gr c = drop (cur_at_gr c) (cur_data_gr c)"

definition lawful_gr :: "bool \<Rightarrow> cursor_gr \<Rightarrow> token \<Rightarrow> bool" where
  "lawful_gr m c t \<longleftrightarrow> tok_ok t \<and> (m \<longrightarrow> tok_minimal t) \<and>
     opens_after (unat (cur_limit_gr c)) (cur_opens_gr c) (cur_at_gr c) t \<noteq> None"

definition adv_gr :: "cursor_gr \<Rightarrow> token \<Rightarrow> cursor_gr" where
  "adv_gr c t = fst (deliver_tok_gr c (the (opens_after (unat (cur_limit_gr c)) (cur_opens_gr c) (cur_at_gr c) t)) t)"

definition closed_gr :: "cursor_gr \<Rightarrow> bool" where
  "closed_gr c \<longleftrightarrow> cur_opens_gr c = []"

lemma suffix_adv_gr: "suffix_gr (adv_gr c t) = drop (length (emit_tok t)) (suffix_gr c)"
  by (simp add: suffix_gr_def adv_gr_def deliver_tok_gr_def add.commute)

interpretation walk_gr: token_cursor "step_gr m" "\<lambda>_. True" suffix_gr emit_tok "lawful_gr m" adv_gr entry_of_gr closed_gr for m
proof
  fix c c' e f t rest item
  show "lawful_gr m c t \<Longrightarrow> 0 < length (emit_tok t)" using length_emit_tok_pos by (simp add: lawful_gr_def)
  show "\<exists>out. step_gr m c = Some out" by (rule step_returns_gr)
  show "step_gr m c = Some (c', Some (Inr e)) \<longleftrightarrow>
      (\<exists>t rest. suffix_gr c = emit_tok t @ rest \<and> lawful_gr m c t \<and> e = entry_of_gr t \<and> c' = adv_gr c t)"
    (is "?L \<longleftrightarrow> ?R")
  proof (cases "cur_at_gr c < length (cur_data_gr c)")
    case True
    show ?thesis unfolding step_entry_gr [OF True]
      by (auto simp: suffix_gr_def lawful_gr_def adv_gr_def deliver_tok_gr_def)
  next
    case False
    then have "\<not> ?L" by (auto simp: step_gr_def Let_def split: list.splits)
    moreover have "\<not> ?R" using False by (auto simp: suffix_gr_def dest: length_emit_tok_pos simp: lawful_gr_def)
    ultimately show ?thesis by blast
  qed
  show "suffix_gr c = emit_tok t @ rest \<Longrightarrow> lawful_gr m c t \<Longrightarrow> suffix_gr (adv_gr c t) = rest"
    by (simp add: suffix_adv_gr)
  show "(\<exists>c'. step_gr m c = Some (c', None)) \<longleftrightarrow> suffix_gr c = [] \<and> closed_gr c"
  proof (cases "length (cur_data_gr c) \<le> cur_at_gr c \<and> cur_opens_gr c = []")
    case True
    then show ?thesis using step_end_gr [of c m] by (auto simp: suffix_gr_def closed_gr_def)
  next
    case False
    then have "step_gr m c \<noteq> Some (c', None)" for c'
      using step_answered_gr [of m c]
      by (fastforce simp: answered_gr_def)
    with False show ?thesis by (auto simp: suffix_gr_def closed_gr_def)
  qed
  show "step_gr m c' = Some (c', None)" if n: "step_gr m c = Some (c', None)"
  proof (cases "\<not> (length (cur_data_gr c) \<le> cur_at_gr c \<and> cur_opens_gr c = [])")
    case True
    with n step_answered_gr [of m c] show ?thesis by (fastforce simp: answered_gr_def)
  next
    case False
    with n step_end_gr [of c m] show ?thesis by simp
  qed
  show "step_gr m c' = Some (c', None)" if f: "step_gr m c = Some (c', Some (Inl f))"
  proof -
    have "\<not> (length (cur_data_gr c) \<le> cur_at_gr c \<and> cur_opens_gr c = [])"
      using step_end_gr [of c m] f by auto
    from step_answered_gr [OF f this] show ?thesis
      by (auto simp: answered_gr_def intro: step_end_gr)
  qed
qed

lemma lawful_seq_gr:
  "lawful_seq (lawful_gr m) adv_gr closed_gr c ts \<longleftrightarrow>
     list_all tok_ok ts \<and> (m \<longrightarrow> list_all tok_minimal ts) \<and>
     balance (unat (cur_limit_gr c)) (cur_opens_gr c) (cur_at_gr c) ts = Some []"
proof (induction ts arbitrary: c)
  case Nil
  then show ?case by (simp add: closed_gr_def)
next
  case (Cons t ts)
  show ?case
  proof (cases "opens_after (unat (cur_limit_gr c)) (cur_opens_gr c) (cur_at_gr c) t")
    case None
    then show ?thesis by (simp add: lawful_gr_def)
  next
    case (Some o')
    then have "adv_gr c t = c\<lparr>cur_opens_gr := o', cur_at_gr := cur_at_gr c + length (emit_tok t), cur_geo_gr := geo_of t\<rparr>"
      by (simp add: adv_gr_def deliver_tok_gr_def)
    with Some Cons.IH [of "adv_gr c t"] show ?thesis by (auto simp: lawful_gr_def)
  qed
qed

lemma fresh_walk_gr:
  assumes "cur_at_gr c = 0" "cur_opens_gr c = []"
  shows "(\<exists>c'. walk (step_gr m) c = Some (es, None, c')) \<longleftrightarrow>
    (\<exists>ts. cur_data_gr c = emit ts \<and> list_all tok_ok ts \<and> (m \<longrightarrow> list_all tok_minimal ts) \<and>
      balance (unat (cur_limit_gr c)) [] 0 ts = Some [] \<and> es = map entry_of_gr ts)"
  unfolding walk_gr.walk_clean_iff [OF TrueI] lawful_seq_gr assms emit_def suffix_gr_def by auto

section \<open>The cursor's state is well-formed\<close>

definition cursor_ok_gr :: "cursor_gr \<Rightarrow> bool" where
  "cursor_ok_gr c \<longleftrightarrow>
     length (cur_data_gr c) \<le> admission_MAX \<and> cur_at_gr c \<le> admission_MAX \<and>
     (cur_data_gr c = [] \<or> cur_at_gr c \<le> length (cur_data_gr c)) \<and>
     length (cur_opens_gr c) \<le> unat (cur_limit_gr c) \<and>
     list_all (\<lambda>(f, a). field_ok f \<and> unat a < cur_at_gr c) (cur_opens_gr c)"

lemma length_opens_after_gr:
  "opens_after limit opens at t = Some o' \<Longrightarrow> length opens \<le> limit \<Longrightarrow> length o' \<le> limit"
  by (auto simp: opens_after_def split: payload.splits if_splits list.splits)

lemma step_ok_gr:
  assumes ok: "cursor_ok_gr c" and s: "step_gr m c = Some (c', item)"
  shows "cursor_ok_gr c'"
proof (cases c rule: walk_gr.step_cases [OF TrueI, of m, case_names finished fault entry])
  case (finished c'')
  then have "c' = c" using s step_end_gr [of c m] by (simp add: suffix_gr_def closed_gr_def)
  with ok show ?thesis by simp
next
  case (fault c'' f)
  then have "\<not> (length (cur_data_gr c) \<le> cur_at_gr c \<and> cur_opens_gr c = [])"
    using step_end_gr [of c m] by auto
  from step_answered_gr [OF fault this] fault s ok show ?thesis
    by (auto simp: answered_gr_def cursor_ok_gr_def)
next
  case (entry t rest)
  then have tok: "tok_ok t" by (simp add: lawful_gr_def)
  from entry obtain o' where o': "opens_after (unat (cur_limit_gr c)) (cur_opens_gr c) (cur_at_gr c) t = Some o'"
    by (auto simp: lawful_gr_def)
  have c': "c' = c\<lparr>cur_opens_gr := o', cur_at_gr := cur_at_gr c + length (emit_tok t), cur_geo_gr := geo_of t\<rparr>"
    using entry s o' by (simp add: adv_gr_def deliver_tok_gr_def)
  have n: "suffix_gr c \<noteq> []" and p: "0 < length (emit_tok t)"
    using entry tok length_emit_tok_pos [of t] by auto
  then have le: "cur_at_gr c < length (cur_data_gr c)" by (simp add: suffix_gr_def)
  have "length (suffix_gr c) = length (emit_tok t) + length rest" using entry by simp
  with le have at: "cur_at_gr c + length (emit_tok t) \<le> length (cur_data_gr c)" by (simp add: suffix_gr_def)
  have old: "\<And>f a. (f, a) \<in> set (cur_opens_gr c) \<Longrightarrow> field_ok f \<and> unat a < cur_at_gr c + length (emit_tok t)"
    using ok by (fastforce simp: cursor_ok_gr_def list_all_iff)
  have "unat (of_nat (cur_at_gr c) :: u32) = cur_at_gr c"
    using ok le by (simp add: cursor_ok_gr_def unat_of_nat admission_MAX_eq)
  moreover have "set o' \<subseteq> insert (tk_field t, of_nat (cur_at_gr c)) (set (cur_opens_gr c))"
    using o' by (auto simp: opens_after_def split: payload.splits if_splits list.splits)
  moreover have "field_ok (tk_field t)" using tok by (cases t) simp
  ultimately have "list_all (\<lambda>(f, a). field_ok f \<and> unat a < cur_at_gr c + length (emit_tok t)) o'"
    using old p unfolding list_all_iff by fastforce
  with ok at length_opens_after_gr [OF o'] show ?thesis by (auto simp: cursor_ok_gr_def c')
qed

section \<open>Properties\<close>

text \<open>C26: The grouped cursor accepts exactly the wire grammar. From an admitted document the walk ends
  cleanly, having delivered \<open>es\<close>, if and only if the bytes are the spelling of lawful tokens whose
  groups close in order within the depth bound (each spelled minimally, for the canonical twin), and
  the deliveries are those tokens, one by one.\<close>

theorem cursor_accepts_gr:
  assumes "cursor_over_gr data limit = Inr c"
  shows "(\<exists>c'. walk (step_gr m) c = Some (es, None, c')) \<longleftrightarrow>
    (\<exists>ts. data = emit ts \<and> list_all tok_ok ts \<and> (m \<longrightarrow> list_all tok_minimal ts) \<and>
      balance (unat limit) [] 0 ts = Some [] \<and> es = map entry_of_gr ts)"
proof -
  have "c = \<lparr>cur_data_gr = data, cur_opens_gr = [], cur_at_gr = 0, cur_limit_gr = limit, cur_geo_gr = 0\<rparr>"
    using assms by (simp add: cursor_over_gr_def split: if_splits)
  then show ?thesis using fresh_walk_gr [of c m es] by simp
qed

lemma cursor_accepts_gr_witness:
  "\<exists>c c'. cursor_over_gr [0x0B, 0x08, 0x96, 0x01, 0x0C] 100 = Inr c \<and>
     walk (step_gr True) c = Some (map entry_of_gr [Token 1 1 PEnter, Token 1 1 (PVarint 150 2), Token 1 1 PExit], None, c')"
proof -
  obtain c where c: "cursor_over_gr [0x0B, 0x08, 0x96, 0x01, 0x0C] 100 = Inr c"
    by (simp add: cursor_over_gr_def admission_MAX_eq)
  let ?ts = "[Token 1 1 PEnter, Token 1 1 (PVarint 150 2), Token 1 1 PExit]"
  have d: "[0x0B, 0x08, 0x96, 0x01, 0x0C] = emit ?ts" by code_simp
  have o: "list_all tok_ok ?ts" by code_simp
  have m: "list_all tok_minimal ?ts" by code_simp
  have b: "balance (unat (100 :: 16 word)) [] 0 ?ts = Some []" by code_simp
  have "\<exists>c'. walk (step_gr True) c = Some (map entry_of_gr ?ts, None, c')"
    by (rule iffD2 [OF cursor_accepts_gr [OF c]], rule exI [of _ ?ts]) (intro conjI impI d o m b refl)
  then obtain c' where "walk (step_gr True) c = Some (map entry_of_gr ?ts, None, c')" ..
  with c show ?thesis by (intro exI conjI)
qed

text \<open>C32: Every step returns. No panic, no subtraction below zero, no load past the input, and the
  unwrapped invariants hold: the walk coordinate stays inside the admitted input, the open groups stay
  within the depth bound and name fields and earlier coordinates.\<close>

theorem step_returns_ok_gr:
  assumes "cursor_ok_gr c"
  shows "\<exists>c' item. step_gr m c = Some (c', item) \<and> cursor_ok_gr c'"
  using step_returns_gr [of m c] step_ok_gr [OF assms] by (metis surj_pair)

lemma step_returns_ok_gr_witness:
  "\<exists>c' item. step_gr False \<lparr>cur_data_gr = [0x0C], cur_opens_gr = [], cur_at_gr = 0, cur_limit_gr = 1, cur_geo_gr = 0\<rparr>
     = Some (c', item) \<and> cursor_ok_gr c'"
  by (rule step_returns_ok_gr) (simp add: cursor_ok_gr_def admission_MAX_eq)

text \<open>C35: Iteration ends, and the iterator is fused: the consumer's loop over any cursor returns, and
  whatever ended it the cursor answers \<open>None\<close> from then on, unchanged.\<close>

theorem walk_ends_fused_gr:
  "\<exists>es f c'. walk (step_gr m) c = Some (es, f, c') \<and> step_gr m c' = Some (c', None)"
  using walk_gr.walk_returns [OF TrueI, of m c] walk_gr.walk_fused [OF TrueI, of m c] by (metis surj_pair)

text \<open>Where a refused construct begins, by what the bytes at the head spell: the tag itself and every refusal of its word or its code
  at the head; a value or a length prefix behind the tag; a payload that does not fit behind its prefix; an unclosed group at the end.\<close>

definition tag_at :: "bytes \<Rightarrow> nat \<Rightarrow> nat \<Rightarrow> field_number \<Rightarrow> low3 \<Rightarrow> bool" where
  "tag_at data head w f code \<longleftrightarrow>
     field_ok f \<and> 0 < w \<and> w \<le> 5 \<and> unat (wire_tag_word f code) < 128 ^ w \<and>
     (\<exists>rest. drop head data = enc w (unat (wire_tag_word f code)) @ rest)"

fun refused_at_gr :: "bytes \<Rightarrow> (field_number \<times> u32) list \<Rightarrow> nat \<Rightarrow> fault_kind_gr \<Rightarrow> nat \<Rightarrow> bool" where
  "refused_at_gr data opens head (FkRead_gr StageTag _) at \<longleftrightarrow> at = head \<and> head < length data"
| "refused_at_gr data opens head (FkRead_gr (StageLenPrefix f) _) at \<longleftrightarrow> (\<exists>w. tag_at data head w f 2 \<and> at = head + w)"
| "refused_at_gr data opens head (FkRead_gr (StageValue f) _) at \<longleftrightarrow> (\<exists>w. tag_at data head w f 0 \<and> at = head + w)"
| "refused_at_gr data opens head (FkFieldZero_gr _) at \<longleftrightarrow> at = head \<and> head < length data"
| "refused_at_gr data opens head (FkUnassigned_gr f code) at \<longleftrightarrow> (\<exists>w. tag_at data head w f code) \<and> at = head"
| "refused_at_gr data opens head (FkFixedTruncated_gr f) at \<longleftrightarrow>
     (\<exists>w. at = head + w \<and> (tag_at data head w f 1 \<and> length data < at + 8 \<or> tag_at data head w f 5 \<and> length data < at + 4))"
| "refused_at_gr data opens head (FkLenOverrun_gr f len) at \<longleftrightarrow>
     (\<exists>w lw rest. tag_at data head w f 2 \<and> 0 < lw \<and> lw \<le> 5 \<and> unat len < 128 ^ lw \<and>
        drop (head + w) data = enc lw (unat len) @ rest \<and> at = head + w + lw \<and> length data < at + unat len)"
| "refused_at_gr data opens head (FkGroupEndMismatch_gr open opened_at found) at \<longleftrightarrow>
     (\<exists>w. tag_at data head w found 4) \<and> at = head \<and> open \<noteq> found \<and> (\<exists>os. opens = (open, opened_at) # os)"
| "refused_at_gr data opens head (FkGroupEndOrphan_gr found) at \<longleftrightarrow> (\<exists>w. tag_at data head w found 4) \<and> at = head \<and> opens = []"
| "refused_at_gr data opens head (FkGroupUnclosed_gr open opened_at) at \<longleftrightarrow>
     at = head \<and> length data \<le> head \<and> (\<exists>os. opens = (open, opened_at) # os)"
| "refused_at_gr data opens head (FkDepthExceeded_gr f limit) at \<longleftrightarrow> (\<exists>w. tag_at data head w f 3) \<and> at = head"
| "refused_at_gr data opens head FkNonMinimalTag_gr at \<longleftrightarrow> at = head \<and> head < length data"
| "refused_at_gr data opens head (FkNonMinimalLen_gr f) at \<longleftrightarrow> (\<exists>w. tag_at data head w f 2 \<and> at = head + w)"
| "refused_at_gr data opens head (FkNonMinimalValue_gr f) at \<longleftrightarrow> (\<exists>w. tag_at data head w f 0 \<and> at = head + w)"

definition placed_gr :: "cursor_gr \<Rightarrow> cursor_gr \<times> item_gr \<Rightarrow> bool" where
  "placed_gr c out \<longleftrightarrow>
     (\<forall>f. snd out = Some (Inl f) \<longrightarrow>
        (\<exists>at. fault_at_gr f = admitted_u32 at \<and> (at = cur_at_gr c \<or> at \<le> length (cur_data_gr c)) \<and>
           refused_at_gr (cur_data_gr c) (cur_opens_gr c) (cur_at_gr c) (fault_kind_gr f) at))"

lemma placed_faultI:
  "at = cur_at_gr c \<or> at \<le> length (cur_data_gr c) \<Longrightarrow>
   refused_at_gr (cur_data_gr c) (cur_opens_gr c) (cur_at_gr c) k at \<Longrightarrow> placed_gr c (cursor_fault_gr c' at k)"
  by (auto simp: placed_gr_def cursor_fault_gr_def)

lemma placed_others [simp]: "placed_gr c (deliver_gr c' a g f k)" "placed_gr c (c', None)"
  by (simp_all add: placed_gr_def deliver_gr_def)

lemma arms_placed_gr:
  assumes h: "va = cur_at_gr c + w" "va \<le> length (cur_data_gr c)" and t: "tag_at (cur_data_gr c) (cur_at_gr c) w f k"
  shows "k = 0 \<Longrightarrow> varint_arm_gr m c f w va = Some out \<Longrightarrow> placed_gr c out"
    "k = 1 \<Longrightarrow> i64_arm_gr c f w va = Some out \<Longrightarrow> placed_gr c out"
    "k = 5 \<Longrightarrow> i32_arm_gr c f w va = Some out \<Longrightarrow> placed_gr c out"
    "k = 2 \<Longrightarrow> len_arm_gr m c f w va = Some out \<Longrightarrow> placed_gr c out"
    "k = 3 \<Longrightarrow> placed_gr c (enter_arm_gr c f w va)" "k = 4 \<Longrightarrow> placed_gr c (exit_arm_gr c f w va)"
proof -
  let ?d = "cur_data_gr c"
  show "k = 0 \<Longrightarrow> varint_arm_gr m c f w va = Some out \<Longrightarrow> placed_gr c out"
    using h t by (auto simp: varint_arm_gr_def intro!: placed_faultI split: bind_splits sum.splits if_splits)
  show "k = 1 \<Longrightarrow> i64_arm_gr c f w va = Some out \<Longrightarrow> placed_gr c out"
    using h t by (auto simp: i64_arm_gr_def usub_def intro!: placed_faultI split: bind_splits if_splits)
  show "k = 5 \<Longrightarrow> i32_arm_gr c f w va = Some out \<Longrightarrow> placed_gr c out"
    using h t by (auto simp: i32_arm_gr_def usub_def intro!: placed_faultI split: bind_splits if_splits)
  show "k = 3 \<Longrightarrow> placed_gr c (enter_arm_gr c f w va)" "k = 4 \<Longrightarrow> placed_gr c (exit_arm_gr c f w va)"
    using t by (auto simp: enter_arm_gr_def exit_arm_gr_def intro!: placed_faultI split: list.splits)
  show "placed_gr c out" if k: "k = 2" and a: "len_arm_gr m c f w va = Some out"
  proof -
    obtain r where r: "len_word ?d va (length ?d) = Some r" using len_face.read_returns [OF order_refl, of ?d va] by blast
    show ?thesis
    proof (cases r)
      case (Inl cause)
      with a r k h t show ?thesis by (auto simp: len_arm_gr_def intro!: placed_faultI)
    next
      case (Inr lw)
      then obtain len l where l: "len_word ?d va (length ?d) = Some (Inr (len, l))" using r by (cases lw) auto
      obtain rest where s: "0 < l" "l \<le> 5" "unat len < 128 ^ l" "drop va ?d = enc l (unat len) @ rest"
        using l unfolding len_face.read_suffix_iff [OF h(2)] by auto
      have b: "va + l \<le> length ?d" using len_face.read_width [OF order_refl l] by simp
      have o: "placed_gr c (cursor_fault_gr c (va + l) (FkLenOverrun_gr f len))" if n: "length ?d - (va + l) < unat len"
      proof (rule placed_faultI)
        show "va + l = cur_at_gr c \<or> va + l \<le> length ?d" using b by simp
        show "refused_at_gr ?d (cur_opens_gr c) (cur_at_gr c) (FkLenOverrun_gr f len) (va + l)"
          using s b k h(1) t n unfolding refused_at_gr.simps
          by (intro exI [of _ w] exI [of _ l] exI [of _ rest]) simp
      qed
      have "placed_gr c (cursor_fault_gr c va (FkNonMinimalLen_gr f))" using k h t by (auto intro!: placed_faultI)
      with a l b o show ?thesis by (auto simp: len_arm_gr_def Let_def usub_def usize_of_def split: if_splits)
    qed
  qed
qed

lemma dispatch_placed_gr:
  assumes "cur_at_gr c + w \<le> length (cur_data_gr c)" "tag_at (cur_data_gr c) (cur_at_gr c) w f k"
    and d: "dispatch_gr m c f k w = Some out"
  shows "placed_gr c out"
proof -
  note arms = arms_placed_gr [OF refl assms(1,2)]
  have u: "placed_gr c (cursor_fault_gr c (cur_at_gr c) (FkUnassigned_gr f k))" using assms(2) by (auto intro!: placed_faultI)
  consider "k = 0" | "k = 1" | "k = 2" | "k = 3" | "k = 4" | "k = 5" | "k = 6" | "k = 7" using low3_cases by blast
  then show ?thesis
    using d arms u by cases (simp_all add: dispatch_gr_def classify_gr_simps Let_def)
qed

lemma step_placed_gr:
  assumes "step_gr m c = Some out"
  shows "placed_gr c out"
proof (cases "length (cur_data_gr c) \<le> cur_at_gr c")
  case True
  with assms show ?thesis by (auto simp: step_gr_def Let_def intro!: placed_faultI split: list.splits)
next
  case False
  let ?d = "cur_data_gr c" and ?h = "cur_at_gr c"
  have le: "?h \<le> length ?d" using False by simp
  obtain r where r: "tag_word ?d ?h (length ?d) = Some r" using tag_face.read_returns [OF order_refl, of ?d ?h] by blast
  show ?thesis
  proof (cases r)
    case (Inl cause)
    with False r assms show ?thesis by (auto simp: step_gr_def Let_def intro!: placed_faultI)
  next
    case (Inr vw)
    then obtain word w where vw: "tag_word ?d ?h (length ?d) = Some (Inr (word, w))" using r by (cases vw) auto
    show ?thesis
    proof (cases "FieldNumber_from_word word")
      case None
      with False vw assms show ?thesis by (auto simp: step_gr_def Let_def intro!: placed_faultI split: if_splits)
    next
      case (Some f)
      with vw have "tag_at ?d ?h w f (Low3_from_word word)"
        using head_iff [OF le, of word w f "Low3_from_word word"] unfolding tag_at_def by auto
      moreover have "?h + w \<le> length ?d" using tag_face.read_width [OF order_refl vw] by simp
      ultimately have "dispatch_gr m c f (Low3_from_word word) w = Some out \<Longrightarrow> placed_gr c out" by (intro dispatch_placed_gr)
      with False vw Some assms show ?thesis by (auto simp: step_gr_def Let_def intro!: placed_faultI split: if_splits)
    qed
  qed
qed

text \<open>C37: A fault's coordinate is exact: its 32-bit position is that of the construct refused, as the bytes at the head spell it
  (the head for a tag or a group, behind the tag for a value or a length prefix, behind the prefix for a payload that overruns, the end for
  an unclosed group); it is not past the end unless it is the head; and the cursor forgets its input and its groups.\<close>

theorem fault_coordinate_gr:
  assumes "cursor_ok_gr c" "step_gr m c = Some (c', Some (Inl f))"
  shows "refused_at_gr (cur_data_gr c) (cur_opens_gr c) (cur_at_gr c) (fault_kind_gr f) (usize_of (fault_at_gr f)) \<and>
    cur_at_gr c \<le> usize_of (fault_at_gr f) \<and>
    (usize_of (fault_at_gr f) = cur_at_gr c \<or> usize_of (fault_at_gr f) \<le> length (cur_data_gr c)) \<and>
    c' = c\<lparr>cur_data_gr := [], cur_opens_gr := []\<rparr>"
proof -
  have "\<not> (length (cur_data_gr c) \<le> cur_at_gr c \<and> cur_opens_gr c = [])"
    using step_end_gr [of c m] assms(2) by auto
  from step_answered_gr [OF assms(2) this] obtain at where at: "cur_at_gr c \<le> at"
    "at = cur_at_gr c \<or> at \<le> length (cur_data_gr c)" "fault_at_gr f = admitted_u32 at"
    "c' = c\<lparr>cur_data_gr := [], cur_opens_gr := []\<rparr>"
    by (auto simp: answered_gr_def)
  from step_placed_gr [OF assms(2)] obtain at' where at': "at' = cur_at_gr c \<or> at' \<le> length (cur_data_gr c)"
    "fault_at_gr f = admitted_u32 at'" "refused_at_gr (cur_data_gr c) (cur_opens_gr c) (cur_at_gr c) (fault_kind_gr f) at'"
    by (auto simp: placed_gr_def)
  have "at \<le> admission_MAX" "at' \<le> admission_MAX" using at at' assms(1) by (auto simp: cursor_ok_gr_def)
  then have "usize_of (fault_at_gr f) = at" "usize_of (fault_at_gr f) = at'"
    using admitted_u32_inverse [of at] admitted_u32_inverse [of at'] at(3) at'(2) by simp_all
  with at at' show ?thesis by metis
qed

lemma fault_coordinate_gr_witness:
  "\<exists>c' f. step_gr False \<lparr>cur_data_gr = [0x09, 7], cur_opens_gr = [], cur_at_gr = 0, cur_limit_gr = 1, cur_geo_gr = 0\<rparr>
     = Some (c', Some (Inl f)) \<and> usize_of (fault_at_gr f) = 1 \<and>
       refused_at_gr [0x09, 7] [] 0 (fault_kind_gr f) (usize_of (fault_at_gr f))"
proof -
  let ?c = "\<lparr>cur_data_gr = [0x09, 7], cur_opens_gr = [], cur_at_gr = 0, cur_limit_gr = 1, cur_geo_gr = 0\<rparr>"
  have s: "step_gr False ?c = Some (?c\<lparr>cur_data_gr := []\<rparr>,
      Some (Inl \<lparr>fault_at_gr = 1, fault_kind_gr = FkFixedTruncated_gr 1\<rparr>))" by code_simp
  have "cursor_ok_gr ?c" by (simp add: cursor_ok_gr_def admission_MAX_eq)
  from fault_coordinate_gr [OF this s] s show ?thesis by (auto simp: usize_of_def)
qed

text \<open>A delivery is exact. It consumed exactly the bytes of one lawful token, the entry is that
  token's field and payload, and the two widths the cursor reports are the widths its tag and its
  length prefix were spelled at (no prefix: zero).\<close>

theorem delivery_geometry_gr:
  assumes "step_gr m c = Some (c', Some (Inr e))"
  shows "\<exists>t. tok_ok t \<and> extent_of (cur_data_gr c) (cur_at_gr c) (cur_at_gr c') = emit_tok t \<and>
    e = entry_of_gr t \<and> tag_width_gr c' = of_nat (tk_width t) \<and>
    prefix_width_gr c' = (case tk_payload t of PLen bs w \<Rightarrow> of_nat w | _ \<Rightarrow> 0)"
proof -
  from assms walk_gr.step_entry [OF TrueI, of m c c' e] obtain t rest where
    t: "suffix_gr c = emit_tok t @ rest" "lawful_gr m c t" "e = entry_of_gr t" "c' = adv_gr c t" by blast
  have at: "cur_at_gr c' = cur_at_gr c + length (emit_tok t)" "cur_geo_gr c' = geo_of t"
    by (simp_all add: t(4) adv_gr_def deliver_tok_gr_def)
  have "extent_of (cur_data_gr c) (cur_at_gr c) (cur_at_gr c') = emit_tok t"
    using t(1) by (simp add: at extent_of_def suffix_gr_def)
  moreover have "tok_ok t" using t(2) by (simp add: lawful_gr_def)
  moreover from this have "tag_width_gr c' = of_nat (tk_width t) \<and>
      prefix_width_gr c' = (case tk_payload t of PLen bs w \<Rightarrow> of_nat w | _ \<Rightarrow> 0)"
    unfolding tag_width_gr_def prefix_width_gr_def at by (rule geo_of_widths)
  ultimately show ?thesis using t(3) by blast
qed

lemma delivery_geometry_gr_witness:
  "\<exists>c' e t. step_gr False \<lparr>cur_data_gr = [0x0A, 0x81, 0x00, 0x2A], cur_opens_gr = [], cur_at_gr = 0,
       cur_limit_gr = 1, cur_geo_gr = 0\<rparr> = Some (c', Some (Inr e)) \<and> e = entry_of_gr t \<and> tok_ok t"
proof -
  let ?c = "\<lparr>cur_data_gr = [0x0A, 0x81, 0x00, 0x2A], cur_opens_gr = [], cur_at_gr = 0, cur_limit_gr = 1, cur_geo_gr = 0\<rparr>"
  have s: "step_gr False ?c = Some (?c\<lparr>cur_at_gr := 4, cur_geo_gr := 0x0201\<rparr>,
      Some (Inr \<lparr>entry_field_gr = 1, entry_kind_gr = EkLen_gr [0x2A]\<rparr>))" by code_simp
  from delivery_geometry_gr [OF s] s show ?thesis by blast
qed

end
