(* ===== verification/Cursor_Groupless.thy ===== *)
theory Cursor_Groupless
  imports Walk
begin

text \<open>
  The groupless cursor (\<open>src/src/cursor/groupless.rs\<close>, re-exported by
  \<open>src/src/traverse/groupless.rs\<close>): the pull iterator of the dialect without groups. A group code
  is a fault of the capability class and no bracket is ever open.

  As in the grouped twin, the \<open>None\<close> of a step is a panic or undefined behaviour; inside it are the
  updated cursor and the iterator's answer.
\<close>

section \<open>Data\<close>

datatype entry_kind_gl =
    EkVarint_gl u64 | EkI64_gl u64 | EkLen_gl bytes | EkI32_gl u32

record entry_gl =
  entry_field_gl :: field_number
  entry_kind_gl :: entry_kind_gl

datatype fault_kind_gl =
    FkRead_gl stage read_fault
  | FkFieldZero_gl u32
  | FkUnassigned_gl field_number low3
  | FkFixedTruncated_gl field_number
  | FkLenOverrun_gl field_number payload_len
  | FkNonMinimalTag_gl
  | FkNonMinimalLen_gl field_number
  | FkNonMinimalValue_gl field_number
  | FkGroupCode_gl field_number low3

record fault_gl =
  fault_at_gl :: u32
  fault_kind_gl :: fault_kind_gl

fun fault_class_gl :: "fault_kind_gl \<Rightarrow> fault_class" where
  "fault_class_gl (FkRead_gl _ _) = Grammar"
| "fault_class_gl (FkFieldZero_gl _) = Grammar"
| "fault_class_gl (FkUnassigned_gl _ _) = Grammar"
| "fault_class_gl (FkFixedTruncated_gl _) = Grammar"
| "fault_class_gl (FkLenOverrun_gl _ _) = Grammar"
| "fault_class_gl FkNonMinimalTag_gl = Policy"
| "fault_class_gl (FkNonMinimalLen_gl _) = Policy"
| "fault_class_gl (FkNonMinimalValue_gl _) = Policy"
| "fault_class_gl (FkGroupCode_gl _ _) = Capability"

record cursor_gl =
  cur_data_gl :: bytes
  cur_at_gl :: nat
  cur_geo_gl :: "16 word"

type_synonym item_gl = "(fault_gl + entry_gl) option"

section \<open>Operations\<close>

definition cursor_over_gl :: "bytes \<Rightarrow> oversize + cursor_gl" where
  "cursor_over_gl data =
     (if length data > admission_MAX then Inl Oversize
      else Inr \<lparr>cur_data_gl = data, cur_at_gl = 0, cur_geo_gl = 0\<rparr>)"

definition cursor_within_gl :: "bytes \<Rightarrow> cursor_gl option" where
  "cursor_within_gl payload =
     (if length payload \<le> admission_MAX
      then Some \<lparr>cur_data_gl = payload, cur_at_gl = 0, cur_geo_gl = 0\<rparr>
      else None)"

definition cursor_pos_gl :: "cursor_gl \<Rightarrow> u32" where
  "cursor_pos_gl c = admitted_u32 (cur_at_gl c)"

definition tag_width_gl :: "cursor_gl \<Rightarrow> u8" where
  "tag_width_gl c = ucast (cur_geo_gl c)"

definition prefix_width_gl :: "cursor_gl \<Rightarrow> u8" where
  "prefix_width_gl c = ucast (drop_bit 8 (cur_geo_gl c))"

definition cursor_fault_gl :: "cursor_gl \<Rightarrow> nat \<Rightarrow> fault_kind_gl \<Rightarrow> cursor_gl \<times> item_gl" where
  "cursor_fault_gl c at kind =
     (c\<lparr>cur_data_gl := []\<rparr>,
      Some (Inl \<lparr>fault_at_gl = admitted_u32 at, fault_kind_gl = kind\<rparr>))"

definition deliver_gl ::
  "cursor_gl \<Rightarrow> nat \<Rightarrow> 16 word \<Rightarrow> field_number \<Rightarrow> entry_kind_gl \<Rightarrow> cursor_gl \<times> item_gl" where
  "deliver_gl c at geo field kind =
     (c\<lparr>cur_at_gl := at, cur_geo_gl := geo\<rparr>,
      Some (Inr \<lparr>entry_field_gl = field, entry_kind_gl = kind\<rparr>))"

text \<open>The arms of the step, one per tag class.\<close>

definition varint_arm_gl ::
  "bool \<Rightarrow> cursor_gl \<Rightarrow> field_number \<Rightarrow> nat \<Rightarrow> nat \<Rightarrow> (cursor_gl \<times> item_gl) option" where
  "varint_arm_gl MINIMAL c field tag_w value_at =
     do { r \<leftarrow> value64 (cur_data_gl c) value_at (length (cur_data_gl c));
          Some (case r of
              Inl cause \<Rightarrow> cursor_fault_gl c value_at (FkRead_gl (StageValue field) cause)
            | Inr (val, width) \<Rightarrow>
                if MINIMAL \<and> width \<noteq> encoded_len64 val
                then cursor_fault_gl c value_at (FkNonMinimalValue_gl field)
                else deliver_gl c (value_at + width) (of_nat tag_w) field (EkVarint_gl val)) }"

definition i64_arm_gl :: "cursor_gl \<Rightarrow> field_number \<Rightarrow> nat \<Rightarrow> nat \<Rightarrow> (cursor_gl \<times> item_gl) option" where
  "i64_arm_gl c field tag_w value_at =
     do { room \<leftarrow> usub (length (cur_data_gl c)) value_at;
          if room < 8 then Some (cursor_fault_gl c value_at (FkFixedTruncated_gl field))
          else do { raw \<leftarrow> load_u64 (cur_data_gl c) value_at;
                    Some (deliver_gl c (value_at + 8) (of_nat tag_w) field (EkI64_gl raw)) } }"

definition i32_arm_gl :: "cursor_gl \<Rightarrow> field_number \<Rightarrow> nat \<Rightarrow> nat \<Rightarrow> (cursor_gl \<times> item_gl) option" where
  "i32_arm_gl c field tag_w value_at =
     do { room \<leftarrow> usub (length (cur_data_gl c)) value_at;
          if room < 4 then Some (cursor_fault_gl c value_at (FkFixedTruncated_gl field))
          else do { raw \<leftarrow> load_u32 (cur_data_gl c) value_at;
                    Some (deliver_gl c (value_at + 4) (of_nat tag_w) field (EkI32_gl raw)) } }"

definition len_arm_gl ::
  "bool \<Rightarrow> cursor_gl \<Rightarrow> field_number \<Rightarrow> nat \<Rightarrow> nat \<Rightarrow> (cursor_gl \<times> item_gl) option" where
  "len_arm_gl MINIMAL c field tag_w value_at =
     do { r \<leftarrow> len_word (cur_data_gl c) value_at (length (cur_data_gl c));
          (case r of
             Inl cause \<Rightarrow> Some (cursor_fault_gl c value_at (FkRead_gl (StageLenPrefix field) cause))
           | Inr (len, width) \<Rightarrow>
               if MINIMAL \<and> width \<noteq> encoded_len32 (len_inner len)
               then Some (cursor_fault_gl c value_at (FkNonMinimalLen_gl field))
               else
                 let payload_at = value_at + width; need = usize_of (len_inner len) in
                 do { room \<leftarrow> usub (length (cur_data_gl c)) payload_at;
                      Some (if room < need
                            then cursor_fault_gl c payload_at (FkLenOverrun_gl field len)
                            else deliver_gl c (payload_at + need)
                                   (push_bit 8 (of_nat width) OR of_nat tag_w) field
                                   (EkLen_gl (extent_of (cur_data_gl c) payload_at (payload_at + need)))) }) }"

definition dispatch_gl ::
  "bool \<Rightarrow> cursor_gl \<Rightarrow> field_number \<Rightarrow> low3 \<Rightarrow> nat \<Rightarrow> (cursor_gl \<times> item_gl) option" where
  "dispatch_gl MINIMAL c field low3 tag_w =
     (let head = cur_at_gl c; value_at = head + tag_w in
      case classify_gl low3 of
        GlRecord GlVarint \<Rightarrow> varint_arm_gl MINIMAL c field tag_w value_at
      | GlRecord GlI64 \<Rightarrow> i64_arm_gl c field tag_w value_at
      | GlRecord GlI32 \<Rightarrow> i32_arm_gl c field tag_w value_at
      | GlRecord GlLen \<Rightarrow> len_arm_gl MINIMAL c field tag_w value_at
      | GlGroupCode \<Rightarrow> Some (cursor_fault_gl c head (FkGroupCode_gl field low3))
      | GlUnassigned \<Rightarrow> Some (cursor_fault_gl c head (FkUnassigned_gl field low3)))"

definition step_gl :: "bool \<Rightarrow> cursor_gl \<Rightarrow> (cursor_gl \<times> item_gl) option" where
  "step_gl MINIMAL c =
     (let data = cur_data_gl c; end = length data; head = cur_at_gl c in
      if head \<ge> end then Some (c, None)
      else
        do { r \<leftarrow> tag_word data head end;
             (case r of
                Inl cause \<Rightarrow> Some (cursor_fault_gl c head (FkRead_gl StageTag cause))
              | Inr (word, tag_w) \<Rightarrow>
                  if MINIMAL \<and> tag_w \<noteq> encoded_len32 word
                  then Some (cursor_fault_gl c head FkNonMinimalTag_gl)
                  else
                    (case FieldNumber_from_word word of
                       None \<Rightarrow> Some (cursor_fault_gl c head (FkFieldZero_gl word))
                     | Some field \<Rightarrow> dispatch_gl MINIMAL c field (Low3_from_word word) tag_w)) })"

definition cursor_next_gl :: "cursor_gl \<Rightarrow> (cursor_gl \<times> item_gl) option" where
  "cursor_next_gl c = step_gl False c"

record canonical_gl =
  canon_walk_gl :: cursor_gl

definition canonical_over_gl :: "bytes \<Rightarrow> oversize + canonical_gl" where
  "canonical_over_gl data =
     (case cursor_over_gl data of
        Inr w \<Rightarrow> Inr \<lparr>canon_walk_gl = w\<rparr>
      | Inl refusal \<Rightarrow> Inl refusal)"

definition canonical_within_gl :: "bytes \<Rightarrow> canonical_gl option" where
  "canonical_within_gl payload =
     map_option (\<lambda>w. \<lparr>canon_walk_gl = w\<rparr>) (cursor_within_gl payload)"

definition canonical_next_gl :: "canonical_gl \<Rightarrow> (canonical_gl \<times> item_gl) option" where
  "canonical_next_gl c =
     map_option (\<lambda>(w, item). (c\<lparr>canon_walk_gl := w\<rparr>, item)) (step_gl True (canon_walk_gl c))"

section \<open>A step delivers exactly the next token\<close>

fun entry_kind_of_gl :: "payload \<Rightarrow> entry_kind_gl" where
  "entry_kind_of_gl (PVarint v w) = EkVarint_gl v"
| "entry_kind_of_gl (PI64 v) = EkI64_gl v"
| "entry_kind_of_gl (PLen bs w) = EkLen_gl bs"
| "entry_kind_of_gl (PI32 v) = EkI32_gl v"


definition entry_of_gl :: "token \<Rightarrow> entry_gl" where
  "entry_of_gl t = \<lparr>entry_field_gl = tk_field t, entry_kind_gl = entry_kind_of_gl (tk_payload t)\<rparr>"

definition deliver_tok_gl :: "cursor_gl \<Rightarrow> token \<Rightarrow> cursor_gl \<times> item_gl" where
  "deliver_tok_gl c t =
     (c\<lparr>cur_at_gl := cur_at_gl c + length (emit_tok t), cur_geo_gl := geo_of t\<rparr>,
      Some (Inr (entry_of_gl t)))"

lemma fault_not_entry_gl [simp]: "cursor_fault_gl c at k \<noteq> (c', Some (Inr e))" "cursor_fault_gl c at k \<noteq> (c', None)"
  by (simp_all add: cursor_fault_gl_def)

lemma varint_arm_iff_gl:
  assumes "va \<le> length (cur_data_gl c)"
  shows "varint_arm_gl m c f tw va = Some (c', Some (Inr e)) \<longleftrightarrow>
    (\<exists>v w rest. drop va (cur_data_gl c) = emit_payload (PVarint v w) @ rest \<and> payload_ok (PVarint v w) \<and>
      (m \<longrightarrow> payload_minimal (PVarint v w)) \<and>
      (c', Some (Inr e)) = deliver_gl c (va + w) (of_nat tw) f (EkVarint_gl v))"
proof -
  have "varint_arm_gl m c f tw va = Some (c', Some (Inr e)) \<longleftrightarrow>
    (\<exists>v w. value64 (cur_data_gl c) va (length (cur_data_gl c)) = Some (Inr (v, w)) \<and>
      (m \<longrightarrow> w = encoded_len64 v) \<and>
      (c', Some (Inr e)) = deliver_gl c (va + w) (of_nat tw) f (EkVarint_gl v))"
    by (auto simp: varint_arm_gl_def split: bind_splits sum.splits if_splits)
  then show ?thesis unfolding value_face.read_suffix_iff [OF assms] by auto
qed

lemma i64_arm_iff_gl:
  assumes "va \<le> length (cur_data_gl c)"
  shows "i64_arm_gl c f tw va = Some (c', Some (Inr e)) \<longleftrightarrow>
    (\<exists>v rest. drop va (cur_data_gl c) = emit_payload (PI64 v) @ rest \<and>
      (c', Some (Inr e)) = deliver_gl c (va + 8) (of_nat tw) f (EkI64_gl v))"
proof -
  have "i64_arm_gl c f tw va = Some (c', Some (Inr e)) \<longleftrightarrow>
    (\<exists>v. load_u64 (cur_data_gl c) va = Some v \<and>
      (c', Some (Inr e)) = deliver_gl c (va + 8) (of_nat tw) f (EkI64_gl v))"
    using assms load_u64_room [of "cur_data_gl c" va] by (auto simp: i64_arm_gl_def split: bind_splits)
  then show ?thesis unfolding load_u64_iff [OF assms] by auto
qed

lemma i32_arm_iff_gl:
  assumes "va \<le> length (cur_data_gl c)"
  shows "i32_arm_gl c f tw va = Some (c', Some (Inr e)) \<longleftrightarrow>
    (\<exists>v rest. drop va (cur_data_gl c) = emit_payload (PI32 v) @ rest \<and>
      (c', Some (Inr e)) = deliver_gl c (va + 4) (of_nat tw) f (EkI32_gl v))"
proof -
  have "i32_arm_gl c f tw va = Some (c', Some (Inr e)) \<longleftrightarrow>
    (\<exists>v. load_u32 (cur_data_gl c) va = Some v \<and>
      (c', Some (Inr e)) = deliver_gl c (va + 4) (of_nat tw) f (EkI32_gl v))"
    using assms load_u32_room [of "cur_data_gl c" va] by (auto simp: i32_arm_gl_def split: bind_splits)
  then show ?thesis unfolding load_u32_iff [OF assms] by auto
qed

lemma len_arm_iff_gl:
  assumes "va \<le> length (cur_data_gl c)"
  shows "len_arm_gl m c f tw va = Some (c', Some (Inr e)) \<longleftrightarrow>
    (\<exists>bs w rest. drop va (cur_data_gl c) = emit_payload (PLen bs w) @ rest \<and> payload_ok (PLen bs w) \<and>
      (m \<longrightarrow> payload_minimal (PLen bs w)) \<and>
      (c', Some (Inr e)) = deliver_gl c (va + w + length bs) (push_bit 8 (of_nat w) OR of_nat tw) f (EkLen_gl bs))"
proof -
  let ?d = "cur_data_gl c"
  have "len_arm_gl m c f tw va = Some (c', Some (Inr e)) \<longleftrightarrow>
    (\<exists>len w. len_word ?d va (length ?d) = Some (Inr (len, w)) \<and>
      (m \<longrightarrow> w = encoded_len32 (len_inner len)) \<and> va + w + unat len \<le> length ?d \<and>
      (c', Some (Inr e)) = deliver_gl c (va + w + unat len) (push_bit 8 (of_nat w) OR of_nat tw) f
        (EkLen_gl (extent_of ?d (va + w) (va + w + unat len))))"
    using len_face.read_width [of "length ?d" ?d va]
    by (fastforce simp: len_arm_gl_def Let_def usize_of_def not_less split: bind_splits sum.splits if_splits)
  also have "\<dots> \<longleftrightarrow> (\<exists>bs w. payload_ok (PLen bs w) \<and> (m \<longrightarrow> payload_minimal (PLen bs w)) \<and>
      (\<exists>rest. drop va ?d = emit_payload (PLen bs w) @ rest) \<and>
      (c', Some (Inr e)) = deliver_gl c (va + w + length bs) (push_bit 8 (of_nat w) OR of_nat tw) f (EkLen_gl bs))"
    (is "?L \<longleftrightarrow> ?R")
  proof
    assume ?L
    then obtain len w where r: "len_word ?d va (length ?d) = Some (Inr (len, w))" "va + w + unat len \<le> length ?d"
      and m: "m \<longrightarrow> w = encoded_len32 (len_inner len)"
      and e: "(c', Some (Inr e)) = deliver_gl c (va + w + unat len) (push_bit 8 (of_nat w) OR of_nat tw) f
        (EkLen_gl (extent_of ?d (va + w) (va + w + unat len)))" by blast
    define bs where "bs = extent_of ?d (va + w) (va + w + unat len)"
    from len_suffix_iff [OF assms, of len w bs] r bs_def
    have p: "payload_ok (PLen bs w)" "len = of_nat (length bs)" "\<exists>rest. drop va ?d = emit_payload (PLen bs w) @ rest"
      by blast+
    moreover from p have "unat len = length bs" by (simp add: unat_of_nat_len)
    moreover from p(1,2) have "len_inner len = of_nat (length bs)" by (simp add: len_inner_of_nat)
    ultimately show ?R using m e unfolding bs_def [symmetric]
      by (intro exI [of _ bs] exI [of _ w]) simp
  next
    assume ?R
    then obtain bs w where p: "payload_ok (PLen bs w)" "\<exists>rest. drop va ?d = emit_payload (PLen bs w) @ rest"
      and m: "m \<longrightarrow> payload_minimal (PLen bs w)"
      and e: "(c', Some (Inr e)) = deliver_gl c (va + w + length bs) (push_bit 8 (of_nat w) OR of_nat tw) f (EkLen_gl bs)"
      by blast
    define len :: payload_len where "len = of_nat (length bs)"
    from len_suffix_iff [OF assms, of len w bs] p len_def
    have r: "len_word ?d va (length ?d) = Some (Inr (len, w))" "va + w + unat len \<le> length ?d"
      "bs = extent_of ?d (va + w) (va + w + unat len)" by blast+
    have "unat len = length bs" "len_inner len = of_nat (length bs)"
      using p(1) by (simp_all add: len_def unat_of_nat_len len_inner_of_nat)
    with r(1,2) r(3) [symmetric] m e show ?L by (intro exI [of _ len] exI [of _ w]) simp
  qed
  finally show ?thesis unfolding ex_simps(1,2) [symmetric] conj_assoc conj_left_commute [of "drop va ?d = _"] .
qed

lemma deliver_tok_eq_gl:
  "deliver_tok_gl c (Token f w p) =
     deliver_gl c (cur_at_gl c + w + length (emit_payload p)) (geo_of (Token f w p)) f (entry_kind_of_gl p)"
  by (simp add: deliver_tok_gl_def deliver_gl_def entry_of_gl_def add.assoc)

lemma dispatch_entry_gl:
  assumes "cur_at_gl c + w \<le> length (cur_data_gl c)"
  shows "dispatch_gl m c f k w = Some (c', Some (Inr e)) \<longleftrightarrow>
    (\<exists>p. code_of p = k \<and> (\<exists>rest. drop (cur_at_gl c + w) (cur_data_gl c) = emit_payload p @ rest \<and>
      payload_ok p \<and> (m \<longrightarrow> payload_minimal p) \<and> \<not> is_group p \<and>
      (c', Some (Inr e)) = deliver_tok_gl c (Token f w p)))" (is "_ \<longleftrightarrow> ?R k")
proof -
  consider "k = 0" | "k = 1" | "k = 2" | "k = 3" | "k = 4" | "k = 5" | "k = 6" | "k = 7"
    using low3_cases by blast
  then show ?thesis
  proof cases
    case 1
    then show ?thesis unfolding 1 ex_code deliver_tok_eq_gl
      by (simp add: dispatch_gl_def kernel_simps varint_arm_iff_gl [OF assms])
  next
    case 2
    then show ?thesis unfolding 2 ex_code deliver_tok_eq_gl
      by (simp add: dispatch_gl_def kernel_simps i64_arm_iff_gl [OF assms])
  next
    case 3
    then show ?thesis unfolding 3 ex_code deliver_tok_eq_gl
      by (simp add: dispatch_gl_def kernel_simps len_arm_iff_gl [OF assms] add.assoc)
  next
    case 6
    then show ?thesis unfolding 6 ex_code deliver_tok_eq_gl
      by (simp add: dispatch_gl_def kernel_simps i32_arm_iff_gl [OF assms])
  qed (simp_all add: dispatch_gl_def kernel_simps ex_code)
qed

lemma step_dispatch_gl:
  assumes "cur_at_gl c < length (cur_data_gl c)"
  shows "step_gl m c = Some (c', Some (Inr e)) \<longleftrightarrow>
    (\<exists>word w f. tag_word (cur_data_gl c) (cur_at_gl c) (length (cur_data_gl c)) = Some (Inr (word, w)) \<and>
      FieldNumber_from_word word = Some f \<and> (m \<longrightarrow> w = encoded_len32 word) \<and>
      dispatch_gl m c f (Low3_from_word word) w = Some (c', Some (Inr e)))"
proof (cases "tag_word (cur_data_gl c) (cur_at_gl c) (length (cur_data_gl c))")
  case None
  then show ?thesis using assms by (simp add: step_gl_def)
next
  case (Some r)
  show ?thesis
  proof (cases r)
    case (Inl cause)
    then show ?thesis using assms Some by (simp add: step_gl_def)
  next
    case (Inr vw)
    then show ?thesis using assms Some
      by (cases vw; cases "FieldNumber_from_word (fst vw)") (auto simp: step_gl_def Let_def)
  qed
qed

lemma step_entry_gl:
  assumes lt: "cur_at_gl c < length (cur_data_gl c)"
  shows "step_gl m c = Some (c', Some (Inr e)) \<longleftrightarrow>
    (\<exists>t rest. drop (cur_at_gl c) (cur_data_gl c) = emit_tok t @ rest \<and> tok_ok t \<and> (m \<longrightarrow> tok_minimal t) \<and>
      \<not> is_group (tk_payload t) \<and> (c', Some (Inr e)) = deliver_tok_gl c t)" (is "_ \<longleftrightarrow> ?R")
proof
  let ?d = "cur_data_gl c" and ?h = "cur_at_gl c"
  have le: "?h \<le> length ?d" using lt by simp
  assume "step_gl m c = Some (c', Some (Inr e))"
  then obtain word w f where h: "tag_word ?d ?h (length ?d) = Some (Inr (word, w))"
    "FieldNumber_from_word word = Some f" and m: "m \<longrightarrow> w = encoded_len32 word"
    and s: "dispatch_gl m c f (Low3_from_word word) w = Some (c', Some (Inr e))"
    unfolding step_dispatch_gl [OF lt] by blast
  define k where "k = Low3_from_word word"
  obtain rest where f: "field_ok f" and word: "word = wire_tag_word f k" and w: "0 < w" "w \<le> 5" "unat word < 128 ^ w"
    and rest: "drop ?h ?d = enc w (unat word) @ rest"
    using head_iff [OF le, of word w f k] h k_def by auto
  have hw: "drop (?h + w) ?d = rest" "?h + w \<le> length ?d"
    using head_split [OF rest le] by simp_all
  from s obtain p rest' where p: "code_of p = k" "rest = emit_payload p @ rest'" "payload_ok p" "m \<longrightarrow> payload_minimal p"
    "\<not> is_group p" "(c', Some (Inr e)) = deliver_tok_gl c (Token f w p)"
    unfolding k_def [symmetric] dispatch_entry_gl [OF hw(2)] hw(1) by blast
  have "tag_of f p = word" by (simp add: tag_of_def p(1) word)
  with f w p m rest show ?R
    by (intro exI [of _ "Token f w p"] exI [of _ rest']) simp
next
  let ?d = "cur_data_gl c" and ?h = "cur_at_gl c"
  have le: "?h \<le> length ?d" using lt by simp
  assume ?R
  then obtain t rest where t: "drop ?h ?d = emit_tok t @ rest" "tok_ok t" "m \<longrightarrow> tok_minimal t"
    "\<not> is_group (tk_payload t)" "(c', Some (Inr e)) = deliver_tok_gl c t" by blast
  obtain f w p where tok: "t = Token f w p" by (cases t)
  note t = t [unfolded tok]
  have d: "drop ?h ?d = enc w (unat (tag_of f p)) @ emit_payload p @ rest" using t(1) by simp
  have hw: "drop (?h + w) ?d = emit_payload p @ rest" "?h + w \<le> length ?d"
    using head_split [OF d le] by simp_all
  have h: "tag_word ?d ?h (length ?d) = Some (Inr (tag_of f p, w)) \<and>
      FieldNumber_from_word (tag_of f p) = Some f \<and> Low3_from_word (tag_of f p) = code_of p"
    unfolding head_iff [OF le] using d t(2) by (auto simp: tag_of_def)
  have "dispatch_gl m c f (code_of p) w = Some (c', Some (Inr e))"
    unfolding dispatch_entry_gl [OF hw(2)] hw(1) using t by auto
  with h t(3) show "step_gl m c = Some (c', Some (Inr e))"
    unfolding step_dispatch_gl [OF lt] by (intro exI [of _ "tag_of f p"] exI [of _ w] exI [of _ f]) simp
qed

section \<open>A step returns, and a fault fuses the cursor\<close>

lemma varint_arm_returns_gl: "\<exists>out. varint_arm_gl m c f tw va = Some out"
  using value_face.read_returns [OF order_refl, of "cur_data_gl c" va] by (auto simp: varint_arm_gl_def)

lemma i64_arm_returns_gl: "va \<le> length (cur_data_gl c) \<Longrightarrow> \<exists>out. i64_arm_gl c f tw va = Some out"
  by (cases "va + 8 \<le> length (cur_data_gl c)")
    (auto simp: i64_arm_gl_def dest!: load_u64_returns)

lemma i32_arm_returns_gl: "va \<le> length (cur_data_gl c) \<Longrightarrow> \<exists>out. i32_arm_gl c f tw va = Some out"
  by (cases "va + 4 \<le> length (cur_data_gl c)")
    (auto simp: i32_arm_gl_def dest!: load_u32_returns)

lemma len_arm_returns_gl: "\<exists>out. len_arm_gl m c f tw va = Some out"
proof -
  obtain r where r: "len_word (cur_data_gl c) va (length (cur_data_gl c)) = Some r"
    using len_face.read_returns [OF order_refl, of "cur_data_gl c" va] by blast
  show ?thesis
  proof (cases r)
    case (Inr lw)
    then obtain l w where "r = Inr (l, w)" by (cases lw) auto
    moreover from this r len_face.read_width [OF order_refl] have "va + w \<le> length (cur_data_gl c)" by blast
    ultimately show ?thesis using r by (simp add: len_arm_gl_def Let_def)
  qed (use r in \<open>simp add: len_arm_gl_def\<close>)
qed

lemma dispatch_returns_gl:
  "cur_at_gl c + w \<le> length (cur_data_gl c) \<Longrightarrow> \<exists>out. dispatch_gl m c f k w = Some out"
  using varint_arm_returns_gl i64_arm_returns_gl i32_arm_returns_gl len_arm_returns_gl
  by (simp add: dispatch_gl_def Let_def split: tag_class_gl.split record_kind_gl.split)

lemma step_returns_gl: "\<exists>out. step_gl m c = Some out"
proof (cases "cur_at_gl c \<ge> length (cur_data_gl c)")
  case True
  then show ?thesis by (auto simp: step_gl_def Let_def split: list.split)
next
  case False
  obtain r where r: "tag_word (cur_data_gl c) (cur_at_gl c) (length (cur_data_gl c)) = Some r"
    using tag_face.read_returns [OF order_refl, of "cur_data_gl c" "cur_at_gl c"] by blast
  show ?thesis
  proof (cases r)
    case (Inl cause)
    with False r show ?thesis by (simp add: step_gl_def Let_def)
  next
    case (Inr vw)
    then obtain word w where vw: "r = Inr (word, w)" by (cases vw) auto
    with r tag_face.read_width [OF order_refl] have "cur_at_gl c + w \<le> length (cur_data_gl c)" by blast
    with dispatch_returns_gl False r vw show ?thesis
      by (cases "FieldNumber_from_word word") (auto simp: step_gl_def Let_def)
  qed
qed

text \<open>Faults are answered in one way only.\<close>

definition answered_gl :: "cursor_gl \<Rightarrow> cursor_gl \<times> item_gl \<Rightarrow> bool" where
  "answered_gl c out \<longleftrightarrow>
     snd out \<noteq> None \<and>
     (\<forall>f. snd out = Some (Inl f) \<longrightarrow>
        fst out = c\<lparr>cur_data_gl := []\<rparr> \<and>
        (\<exists>at. cur_at_gl c \<le> at \<and> (at = cur_at_gl c \<or> at \<le> length (cur_data_gl c)) \<and>
           fault_at_gl f = admitted_u32 at))"

lemma answered_fault_gl:
  "cur_at_gl c \<le> at \<Longrightarrow> at = cur_at_gl c \<or> at \<le> length (cur_data_gl c) \<Longrightarrow> answered_gl c (cursor_fault_gl c at k)"
  by (auto simp: answered_gl_def cursor_fault_gl_def)

lemma answered_deliver_gl [simp]: "answered_gl c (deliver_gl c' a g f k)"
  by (simp add: answered_gl_def deliver_gl_def)

lemma arms_answered_gl:
  assumes va: "cur_at_gl c \<le> va" "va \<le> length (cur_data_gl c)"
  shows "varint_arm_gl m c f tw va = Some out \<Longrightarrow> answered_gl c out"
    "i64_arm_gl c f tw va = Some out \<Longrightarrow> answered_gl c out"
    "i32_arm_gl c f tw va = Some out \<Longrightarrow> answered_gl c out"
    "len_arm_gl m c f tw va = Some out \<Longrightarrow> answered_gl c out"
proof -
  have w: "va + w \<le> length (cur_data_gl c)" if "len_word (cur_data_gl c) va (length (cur_data_gl c)) = Some (Inr (l, w))" for l w
    using len_face.read_width [OF order_refl that] by simp
  show "len_arm_gl m c f tw va = Some out \<Longrightarrow> answered_gl c out"
    using va w by (fastforce simp: len_arm_gl_def Let_def intro!: answered_fault_gl split: bind_splits sum.splits if_splits)
qed (use va in \<open>auto simp: varint_arm_gl_def i64_arm_gl_def i32_arm_gl_def
      intro!: answered_fault_gl split: bind_splits sum.splits if_splits\<close>)

lemma step_end_gl: "cur_at_gl c \<ge> length (cur_data_gl c) \<Longrightarrow> step_gl m c = Some (c, None)"
  by (simp add: step_gl_def Let_def)

lemma step_answered_gl:
  assumes "step_gl m c = Some out" "cur_at_gl c < length (cur_data_gl c)"
  shows "answered_gl c out"
proof -
  obtain r where r: "tag_word (cur_data_gl c) (cur_at_gl c) (length (cur_data_gl c)) = Some r"
    using tag_face.read_returns [OF order_refl, of "cur_data_gl c" "cur_at_gl c"] by blast
  show ?thesis
  proof (cases r)
    case (Inl cause)
    with assms r show ?thesis by (auto simp: step_gl_def Let_def intro!: answered_fault_gl)
  next
    case (Inr vw)
    then obtain word w where vw: "r = Inr (word, w)" by (cases vw) auto
    with r tag_face.read_width [OF order_refl] have w: "cur_at_gl c + w \<le> length (cur_data_gl c)" by blast
    have "dispatch_gl m c f k w = Some out \<Longrightarrow> answered_gl c out" for f k
      using arms_answered_gl [OF _ w]
      by (auto simp: dispatch_gl_def Let_def intro!: answered_fault_gl split: tag_class_gl.splits record_kind_gl.splits)
    with r vw assms show ?thesis
      by (cases "FieldNumber_from_word word")
        (auto simp: step_gl_def Let_def intro!: answered_fault_gl split: if_splits)
  qed
qed

section \<open>The cursor as a token cursor\<close>

definition suffix_gl :: "cursor_gl \<Rightarrow> bytes" where
  "suffix_gl c = drop (cur_at_gl c) (cur_data_gl c)"

definition lawful_gl :: "bool \<Rightarrow> cursor_gl \<Rightarrow> token \<Rightarrow> bool" where
  "lawful_gl m c t \<longleftrightarrow> tok_ok t \<and> (m \<longrightarrow> tok_minimal t) \<and> \<not> is_group (tk_payload t)"

definition adv_gl :: "cursor_gl \<Rightarrow> token \<Rightarrow> cursor_gl" where
  "adv_gl c t = fst (deliver_tok_gl c t)"

definition closed_gl :: "cursor_gl \<Rightarrow> bool" where
  "closed_gl c \<longleftrightarrow> True"

lemma suffix_adv_gl: "suffix_gl (adv_gl c t) = drop (length (emit_tok t)) (suffix_gl c)"
  by (simp add: suffix_gl_def adv_gl_def deliver_tok_gl_def add.commute)

interpretation walk_gl: token_cursor "step_gl m" "\<lambda>_. True" suffix_gl emit_tok "lawful_gl m" adv_gl entry_of_gl closed_gl for m
proof
  fix c c' e f t rest item
  show "lawful_gl m c t \<Longrightarrow> 0 < length (emit_tok t)" using length_emit_tok_pos by (simp add: lawful_gl_def)
  show "\<exists>out. step_gl m c = Some out" by (rule step_returns_gl)
  show "step_gl m c = Some (c', Some (Inr e)) \<longleftrightarrow>
      (\<exists>t rest. suffix_gl c = emit_tok t @ rest \<and> lawful_gl m c t \<and> e = entry_of_gl t \<and> c' = adv_gl c t)"
    (is "?L \<longleftrightarrow> ?R")
  proof (cases "cur_at_gl c < length (cur_data_gl c)")
    case True
    show ?thesis unfolding step_entry_gl [OF True]
      by (auto simp: suffix_gl_def lawful_gl_def adv_gl_def deliver_tok_gl_def)
  next
    case False
    then have "\<not> ?L" by (simp add: step_gl_def Let_def)
    moreover have "\<not> ?R" using False by (auto simp: suffix_gl_def dest: length_emit_tok_pos simp: lawful_gl_def)
    ultimately show ?thesis by blast
  qed
  show "suffix_gl c = emit_tok t @ rest \<Longrightarrow> lawful_gl m c t \<Longrightarrow> suffix_gl (adv_gl c t) = rest"
    by (simp add: suffix_adv_gl)
  show "(\<exists>c'. step_gl m c = Some (c', None)) \<longleftrightarrow> suffix_gl c = [] \<and> closed_gl c"
  proof (cases "length (cur_data_gl c) \<le> cur_at_gl c")
    case True
    then show ?thesis using step_end_gl [of c m] by (auto simp: suffix_gl_def closed_gl_def)
  next
    case False
    then have "step_gl m c \<noteq> Some (c', None)" for c'
      using step_answered_gl [of m c]
      by (fastforce simp: answered_gl_def)
    with False show ?thesis by (auto simp: suffix_gl_def)
  qed
  show "step_gl m c' = Some (c', None)" if n: "step_gl m c = Some (c', None)"
  proof (cases "\<not> length (cur_data_gl c) \<le> cur_at_gl c")
    case True
    with n step_answered_gl [of m c] show ?thesis by (fastforce simp: answered_gl_def)
  next
    case False
    with n step_end_gl [of c m] show ?thesis by simp
  qed
  show "step_gl m c' = Some (c', None)" if f: "step_gl m c = Some (c', Some (Inl f))"
  proof -
    have "cur_at_gl c < length (cur_data_gl c)"
      using step_end_gl [of c m] f by (cases "length (cur_data_gl c) \<le> cur_at_gl c") auto
    from step_answered_gl [OF f this] show ?thesis
      by (auto simp: answered_gl_def intro: step_end_gl)
  qed
qed

lemma lawful_seq_gl:
  "lawful_seq (lawful_gl m) adv_gl closed_gl c ts \<longleftrightarrow>
     list_all tok_ok ts \<and> (m \<longrightarrow> list_all tok_minimal ts) \<and> list_all (\<lambda>t. \<not> is_group (tk_payload t)) ts"
  by (induction ts arbitrary: c) (auto simp: lawful_gl_def closed_gl_def)

lemma fresh_walk_gl:
  assumes "cur_at_gl c = 0"
  shows "(\<exists>c'. walk (step_gl m) c = Some (es, None, c')) \<longleftrightarrow>
    (\<exists>ts. cur_data_gl c = emit ts \<and> list_all tok_ok ts \<and> (m \<longrightarrow> list_all tok_minimal ts) \<and>
      list_all (\<lambda>t. \<not> is_group (tk_payload t)) ts \<and> es = map entry_of_gl ts)"
  unfolding walk_gl.walk_clean_iff [OF TrueI] lawful_seq_gl assms emit_def suffix_gl_def by auto

section \<open>The cursor's state is well-formed\<close>

definition cursor_ok_gl :: "cursor_gl \<Rightarrow> bool" where
  "cursor_ok_gl c \<longleftrightarrow>
     length (cur_data_gl c) \<le> admission_MAX \<and> cur_at_gl c \<le> admission_MAX \<and>
     (cur_data_gl c = [] \<or> cur_at_gl c \<le> length (cur_data_gl c))"

lemma step_ok_gl:
  assumes ok: "cursor_ok_gl c" and s: "step_gl m c = Some (c', item)"
  shows "cursor_ok_gl c'"
proof (cases c rule: walk_gl.step_cases [OF TrueI, of m, case_names finished fault entry])
  case (finished c'')
  then have "c' = c" using s step_end_gl [of c m] by (simp add: suffix_gl_def closed_gl_def)
  with ok show ?thesis by simp
next
  case (fault c'' f)
  then have "cur_at_gl c < length (cur_data_gl c)"
    using step_end_gl [of c m] by (cases "length (cur_data_gl c) \<le> cur_at_gl c") auto
  from step_answered_gl [OF fault this] fault s ok show ?thesis
    by (auto simp: answered_gl_def cursor_ok_gl_def)
next
  case (entry t rest)
  then have tok: "tok_ok t" by (simp add: lawful_gl_def)
  have c': "c' = c\<lparr>cur_at_gl := cur_at_gl c + length (emit_tok t), cur_geo_gl := geo_of t\<rparr>"
    using entry s by (simp add: adv_gl_def deliver_tok_gl_def)
  have "suffix_gl c \<noteq> []" using entry tok length_emit_tok_pos [of t] by auto
  then have le: "cur_at_gl c < length (cur_data_gl c)" by (simp add: suffix_gl_def)
  have "length (suffix_gl c) = length (emit_tok t) + length rest" using entry by simp
  with le have "cur_at_gl c + length (emit_tok t) \<le> length (cur_data_gl c)" by (simp add: suffix_gl_def)
  with ok show ?thesis by (auto simp: cursor_ok_gl_def c')
qed

section \<open>Properties\<close>

text \<open>C27: The groupless cursor accepts exactly the wire grammar. From an admitted document the walk ends
  cleanly, having delivered \<open>es\<close>, if and only if the bytes are the spelling of lawful tokens none of
  which is a group bracket (each spelled minimally, for the canonical twin), and the deliveries are those
  tokens, one by one.\<close>

theorem cursor_accepts_gl:
  assumes "cursor_over_gl data = Inr c"
  shows "(\<exists>c'. walk (step_gl m) c = Some (es, None, c')) \<longleftrightarrow>
    (\<exists>ts. data = emit ts \<and> list_all tok_ok ts \<and> (m \<longrightarrow> list_all tok_minimal ts) \<and>
      list_all (\<lambda>t. \<not> is_group (tk_payload t)) ts \<and> es = map entry_of_gl ts)"
proof -
  have "c = \<lparr>cur_data_gl = data, cur_at_gl = 0, cur_geo_gl = 0\<rparr>"
    using assms by (simp add: cursor_over_gl_def split: if_splits)
  then show ?thesis using fresh_walk_gl [of c m es] by simp
qed

lemma cursor_accepts_gl_witness:
  "\<exists>c c'. cursor_over_gl [0x08, 0x96, 0x01, 0x0A, 0x00] = Inr c \<and>
     walk (step_gl True) c = Some (map entry_of_gl [Token 1 1 (PVarint 150 2), Token 1 1 (PLen [] 1)], None, c')"
proof -
  let ?c = "\<lparr>cur_data_gl = [0x08, 0x96, 0x01, 0x0A, 0x00], cur_at_gl = 0, cur_geo_gl = 0\<rparr> :: cursor_gl"
  have c: "cursor_over_gl [0x08, 0x96, 0x01, 0x0A, 0x00] = Inr ?c"
    by (simp add: cursor_over_gl_def admission_MAX_eq)
  let ?ts = "[Token 1 1 (PVarint 150 2), Token 1 1 (PLen [] 1)]"
  have d: "[0x08, 0x96, 0x01, 0x0A, 0x00] = emit ?ts" by code_simp
  have "unat (tag_of 1 (PVarint 150 2)) = 8" "unat (tag_of 1 (PLen [] 1)) = 10" "field_ok 1"
    by code_simp+
  then have o: "list_all tok_ok ?ts" by simp
  have m: "list_all tok_minimal ?ts" by code_simp
  have b: "list_all (\<lambda>t. \<not> is_group (tk_payload t)) ?ts" by code_simp
  have "\<exists>c'. walk (step_gl True) ?c = Some (map entry_of_gl ?ts, None, c')"
    by (rule iffD2 [OF cursor_accepts_gl [OF c]], rule exI [of _ ?ts]) (intro conjI impI d o m b refl)
  then obtain c' where "walk (step_gl True) ?c = Some (map entry_of_gl ?ts, None, c')" ..
  with c show ?thesis by (intro exI conjI)
qed

text \<open>Every step returns. No panic, no subtraction below zero, no load past the input, and the
  walk coordinate stays inside the admitted input.\<close>

theorem step_returns_ok_gl:
  assumes "cursor_ok_gl c"
  shows "\<exists>c' item. step_gl m c = Some (c', item) \<and> cursor_ok_gl c'"
  using step_returns_gl [of m c] step_ok_gl [OF assms] by (metis surj_pair)

lemma step_returns_ok_gl_witness:
  "\<exists>c' item. step_gl False \<lparr>cur_data_gl = [0x0C], cur_at_gl = 0, cur_geo_gl = 0\<rparr>
     = Some (c', item) \<and> cursor_ok_gl c'"
  by (rule step_returns_ok_gl) (simp add: cursor_ok_gl_def admission_MAX_eq)

text \<open>Iteration ends, and the iterator is fused: the consumer's loop over any cursor returns, and
  whatever ended it the cursor answers \<open>None\<close> from then on, unchanged.\<close>

theorem walk_ends_fused_gl:
  "\<exists>es f c'. walk (step_gl m) c = Some (es, f, c') \<and> step_gl m c' = Some (c', None)"
  using walk_gl.walk_returns [OF TrueI, of m c] walk_gl.walk_fused [OF TrueI, of m c] by (metis surj_pair)

text \<open>A fault names a coordinate of the input: its 32-bit position loses nothing, it is at or after the head
  of the refused record and not past the end, and the cursor forgets its input.\<close>

theorem fault_coordinate_gl:
  assumes "cursor_ok_gl c" "step_gl m c = Some (c', Some (Inl f))"
  shows "cur_at_gl c \<le> usize_of (fault_at_gl f) \<and>
    (usize_of (fault_at_gl f) = cur_at_gl c \<or> usize_of (fault_at_gl f) \<le> length (cur_data_gl c)) \<and>
    c' = c\<lparr>cur_data_gl := []\<rparr>"
proof -
  have "cur_at_gl c < length (cur_data_gl c)"
    using step_end_gl [of c m] assms(2) by (cases "length (cur_data_gl c) \<le> cur_at_gl c") auto
  from step_answered_gl [OF assms(2) this] obtain at where at: "cur_at_gl c \<le> at"
    "at = cur_at_gl c \<or> at \<le> length (cur_data_gl c)" "fault_at_gl f = admitted_u32 at"
    "c' = c\<lparr>cur_data_gl := []\<rparr>"
    by (auto simp: answered_gl_def)
  moreover have "at \<le> admission_MAX" using at assms(1) by (auto simp: cursor_ok_gl_def)
  ultimately show ?thesis using admitted_u32_inverse [of at] by auto
qed

lemma fault_coordinate_gl_witness:
  "\<exists>c' f. step_gl False \<lparr>cur_data_gl = [0x0C], cur_at_gl = 0, cur_geo_gl = 0\<rparr>
     = Some (c', Some (Inl f)) \<and> usize_of (fault_at_gl f) \<le> 1"
proof -
  let ?c = "\<lparr>cur_data_gl = [0x0C], cur_at_gl = 0, cur_geo_gl = 0\<rparr>"
  have s: "step_gl False ?c = Some (?c\<lparr>cur_data_gl := []\<rparr>,
      Some (Inl \<lparr>fault_at_gl = 0, fault_kind_gl = FkGroupCode_gl 1 4\<rparr>))" by code_simp
  have "cursor_ok_gl ?c" by (simp add: cursor_ok_gl_def admission_MAX_eq)
  from fault_coordinate_gl [OF this s] s show ?thesis by auto
qed

text \<open>A delivery is exact. It consumed exactly the bytes of one lawful token, the entry is that
  token's field and payload, and the two widths the cursor reports are the widths its tag and its
  length prefix were spelled at (no prefix: zero).\<close>

theorem delivery_geometry_gl:
  assumes "step_gl m c = Some (c', Some (Inr e))"
  shows "\<exists>t. tok_ok t \<and> extent_of (cur_data_gl c) (cur_at_gl c) (cur_at_gl c') = emit_tok t \<and>
    e = entry_of_gl t \<and> tag_width_gl c' = of_nat (tk_width t) \<and>
    prefix_width_gl c' = (case tk_payload t of PLen bs w \<Rightarrow> of_nat w | _ \<Rightarrow> 0)"
proof -
  from assms walk_gl.step_entry [OF TrueI, of m c c' e] obtain t rest where
    t: "suffix_gl c = emit_tok t @ rest" "lawful_gl m c t" "e = entry_of_gl t" "c' = adv_gl c t" by blast
  have at: "cur_at_gl c' = cur_at_gl c + length (emit_tok t)" "cur_geo_gl c' = geo_of t"
    by (simp_all add: t(4) adv_gl_def deliver_tok_gl_def)
  have "extent_of (cur_data_gl c) (cur_at_gl c) (cur_at_gl c') = emit_tok t"
    using t(1) by (simp add: at extent_of_def suffix_gl_def)
  moreover have "tok_ok t" using t(2) by (simp add: lawful_gl_def)
  moreover from this have "tag_width_gl c' = of_nat (tk_width t) \<and>
      prefix_width_gl c' = (case tk_payload t of PLen bs w \<Rightarrow> of_nat w | _ \<Rightarrow> 0)"
    unfolding tag_width_gl_def prefix_width_gl_def at by (rule geo_of_widths)
  ultimately show ?thesis using t(3) by blast
qed

lemma delivery_geometry_gl_witness:
  "\<exists>c' e t. step_gl False \<lparr>cur_data_gl = [0x0A, 0x81, 0x00, 0x2A], cur_at_gl = 0, cur_geo_gl = 0\<rparr> = Some (c', Some (Inr e)) \<and> e = entry_of_gl t \<and> tok_ok t"
proof -
  let ?c = "\<lparr>cur_data_gl = [0x0A, 0x81, 0x00, 0x2A], cur_at_gl = 0, cur_geo_gl = 0\<rparr>"
  have s: "step_gl False ?c = Some (?c\<lparr>cur_at_gl := 4, cur_geo_gl := 0x0201\<rparr>,
      Some (Inr \<lparr>entry_field_gl = 1, entry_kind_gl = EkLen_gl [0x2A]\<rparr>))" by code_simp
  from delivery_geometry_gl [OF s] s show ?thesis by blast
qed

end
