(* ===== verification/Packed.thy ===== *)
theory Packed
  imports Walk
begin

text \<open>
  The packed-payload iterators (\<open>src/src/traverse/packed.rs\<close>): varint elements, each validated as
  it is met, and the two fixed-width families whose construction proves the shape. The macro
  \<open>fixed_family!\<close> is modelled at its two instances, \<open>Fixed32s\<close> and \<open>Fixed64s\<close>.
\<close>

section \<open>Varint elements\<close>

record packed_fault =
  pf_at :: u32
  pf_cause :: read_fault

record varints =
  vs_data :: bytes
  vs_at :: nat
  vs_done :: bool

definition varints_over :: "bytes \<Rightarrow> varints option" where
  "varints_over payload =
     (if length payload \<le> admission_MAX
      then Some \<lparr>vs_data = payload, vs_at = 0, vs_done = False\<rparr> else None)"

definition varints_next :: "varints \<Rightarrow> (varints \<times> (packed_fault + u64) option) option" where
  "varints_next c =
     (if vs_done c \<or> vs_at c = length (vs_data c) then Some (c\<lparr>vs_done := True\<rparr>, None)
      else
        do { r \<leftarrow> value64 (vs_data c) (vs_at c) (length (vs_data c));
             Some (case r of
                 Inr (val, width) \<Rightarrow> (c\<lparr>vs_at := vs_at c + width\<rparr>, Some (Inr val))
               | Inl cause \<Rightarrow>
                   (c\<lparr>vs_done := True\<rparr>,
                    Some (Inl \<lparr>pf_at = admitted_u32 (vs_at c), pf_cause = cause\<rparr>))) })"

section \<open>Fixed-width elements\<close>

datatype packed_cut = PackedCut

record fixed32s =
  f32_data :: bytes
  f32_at :: nat

record fixed64s =
  f64_data :: bytes
  f64_at :: nat

definition fixed32s_over :: "bytes \<Rightarrow> packed_cut + fixed32s" where
  "fixed32s_over payload =
     (if length payload mod 4 \<noteq> 0 then Inl PackedCut else Inr \<lparr>f32_data = payload, f32_at = 0\<rparr>)"

definition fixed32s_next :: "fixed32s \<Rightarrow> (fixed32s \<times> u32 option) option" where
  "fixed32s_next c =
     (if f32_at c = length (f32_data c) then Some (c, None)
      else do { raw \<leftarrow> load_u32 (f32_data c) (f32_at c);
                Some (c\<lparr>f32_at := f32_at c + 4\<rparr>, Some raw) })"

definition fixed32s_size_hint :: "fixed32s \<Rightarrow> (nat \<times> nat option) option" where
  "fixed32s_size_hint c =
     do { room \<leftarrow> usub (length (f32_data c)) (f32_at c); let left = room div 4 in Some (left, Some left) }"

definition fixed64s_over :: "bytes \<Rightarrow> packed_cut + fixed64s" where
  "fixed64s_over payload =
     (if length payload mod 8 \<noteq> 0 then Inl PackedCut else Inr \<lparr>f64_data = payload, f64_at = 0\<rparr>)"

definition fixed64s_next :: "fixed64s \<Rightarrow> (fixed64s \<times> u64 option) option" where
  "fixed64s_next c =
     (if f64_at c = length (f64_data c) then Some (c, None)
      else do { raw \<leftarrow> load_u64 (f64_data c) (f64_at c);
                Some (c\<lparr>f64_at := f64_at c + 8\<rparr>, Some raw) })"

definition fixed64s_size_hint :: "fixed64s \<Rightarrow> (nat \<times> nat option) option" where
  "fixed64s_size_hint c =
     do { room \<leftarrow> usub (length (f64_data c)) (f64_at c); let left = room div 8 in Some (left, Some left) }"

section \<open>The iterators as token cursors\<close>

text \<open>An infallible iterator answers elements only.\<close>

definition infallible :: "('c \<Rightarrow> ('c \<times> 'e option) option) \<Rightarrow> 'c \<Rightarrow> ('c \<times> (unit + 'e) option) option" where
  "infallible next_op c = map_option (\<lambda>(c', item). (c', map_option Inr item)) (next_op c)"

lemma infallible_Some:
  "infallible f c = Some (c', Some (Inr e)) \<longleftrightarrow> f c = Some (c', Some e)"
  "infallible f c = Some (c', None) \<longleftrightarrow> f c = Some (c', None)"
  "infallible f c \<noteq> Some (c', Some (Inl u))"
  by (auto simp: infallible_def)

definition spell_varint :: "u64 \<times> nat \<Rightarrow> bytes" where
  "spell_varint t = enc (snd t) (unat (fst t))"

definition elem_ok :: "u64 \<times> nat \<Rightarrow> bool" where
  "elem_ok t \<longleftrightarrow> 0 < snd t \<and> snd t \<le> 10 \<and> unat (fst t) < 128 ^ snd t"

definition varints_ok :: "varints \<Rightarrow> bool" where
  "varints_ok c \<longleftrightarrow> vs_at c \<le> length (vs_data c)"

definition varints_suffix :: "varints \<Rightarrow> bytes" where
  "varints_suffix c = (if vs_done c then [] else drop (vs_at c) (vs_data c))"

lemma varints_next_entry:
  assumes "varints_ok c"
  shows "varints_next c = Some (c', Some (Inr v)) \<longleftrightarrow>
    (\<exists>t rest. varints_suffix c = spell_varint t @ rest \<and> elem_ok t \<and> v = fst t \<and>
       c' = c\<lparr>vs_at := vs_at c + snd t\<rparr>)"
proof (cases "vs_done c \<or> vs_at c = length (vs_data c)")
  case True
  moreover have "spell_varint t @ rest \<noteq> []" if "elem_ok t" for t rest
    using that length_enc [of "snd t" "unat (fst t)"]
    by (auto simp: spell_varint_def elem_ok_def simp del: length_enc)
  ultimately show ?thesis by (auto simp: varints_next_def varints_suffix_def)
next
  case False
  have le: "vs_at c \<le> length (vs_data c)" using assms by (simp add: varints_ok_def)
  have "varints_next c = Some (c', Some (Inr v)) \<longleftrightarrow>
    (\<exists>w. value64 (vs_data c) (vs_at c) (length (vs_data c)) = Some (Inr (v, w)) \<and> c' = c\<lparr>vs_at := vs_at c + w\<rparr>)"
    using False by (auto simp: varints_next_def split: bind_splits sum.splits)
  then show ?thesis using False unfolding value_face.read_suffix_iff [OF le]
    by (auto simp: varints_suffix_def spell_varint_def elem_ok_def)
qed

interpretation varints_walk: token_cursor varints_next varints_ok varints_suffix spell_varint
  "\<lambda>_. elem_ok" "\<lambda>c t. c\<lparr>vs_at := vs_at c + snd t\<rparr>" fst "\<lambda>_. True"
proof
  fix c c' item v t rest f
  show "elem_ok t \<Longrightarrow> 0 < length (spell_varint t)" by (simp add: elem_ok_def spell_varint_def)
  assume ok: "varints_ok c"
  obtain r where r: "value64 (vs_data c) (vs_at c) (length (vs_data c)) = Some r"
    using value_face.read_returns [OF order_refl] by blast
  show "\<exists>out. varints_next c = Some out" by (simp add: varints_next_def r)
  show "varints_next c = Some (c', Some (Inr v)) \<longleftrightarrow>
    (\<exists>t rest. varints_suffix c = spell_varint t @ rest \<and> elem_ok t \<and> v = fst t \<and>
       c' = c\<lparr>vs_at := vs_at c + snd t\<rparr>)" by (rule varints_next_entry [OF ok])
  show "varints_ok c'" if "varints_next c = Some (c', item)"
    using that ok r value_face.read_width [OF order_refl, of "vs_data c" "vs_at c"]
    by (auto simp: varints_next_def varints_ok_def split: if_splits sum.splits)
  show "varints_suffix (c\<lparr>vs_at := vs_at c + snd t\<rparr>) = rest" if "varints_suffix c = spell_varint t @ rest" "elem_ok t"
    using that head_split [of "vs_at c" "vs_data c" "snd t" "unat (fst t)" rest] ok
    by (auto simp: varints_suffix_def varints_ok_def spell_varint_def elem_ok_def split: if_splits)
  show "(\<exists>c'. varints_next c = Some (c', None)) \<longleftrightarrow> varints_suffix c = [] \<and> True"
    using ok r by (auto simp: varints_next_def varints_suffix_def varints_ok_def split: sum.splits)
  show "varints_next c = Some (c', None) \<Longrightarrow> varints_next c' = Some (c', None)"
    "varints_next c = Some (c', Some (Inl f)) \<Longrightarrow> varints_next c' = Some (c', None)"
    by (auto simp: varints_next_def r split: if_splits sum.splits)
qed

definition fixed32s_ok :: "fixed32s \<Rightarrow> bool" where
  "fixed32s_ok c \<longleftrightarrow> f32_at c \<le> length (f32_data c) \<and> (length (f32_data c) - f32_at c) mod 4 = 0"

definition fixed64s_ok :: "fixed64s \<Rightarrow> bool" where
  "fixed64s_ok c \<longleftrightarrow> f64_at c \<le> length (f64_data c) \<and> (length (f64_data c) - f64_at c) mod 8 = 0"

lemma multiple_room: "at \<le> n \<Longrightarrow> (n - at) mod k = 0 \<Longrightarrow> at \<noteq> n \<Longrightarrow> at + k \<le> (n :: nat)"
  by (metis add_le_imp_le_diff le_add_diff_inverse le_antisym diff_is_0_eq dvd_imp_le mod_0_imp_dvd
      nat_add_left_cancel_le not_gr_zero)

lemma multiple_next: "at + k \<le> n \<Longrightarrow> (n - at) mod k = 0 \<Longrightarrow> (n - (at + k)) mod k = (0 :: nat)"
  by (metis diff_diff_left mod_if le_add_diff_inverse2 add_leD2 mod_add_self2 diff_add_inverse
      Nat.le_diff_conv2 add_leD1 add.commute)

lemma drop_append_split:
  "drop h d = xs @ rest \<Longrightarrow> drop (h + length xs) d = rest"
  by (metis add.commute append_eq_conv_conj drop_drop)

interpretation fixed32s_walk: token_cursor "infallible fixed32s_next" fixed32s_ok
  "\<lambda>c. drop (f32_at c) (f32_data c)" "\<lambda>v. le_bytes 4 (unat v)" "\<lambda>_ _. True"
  "\<lambda>c _. c\<lparr>f32_at := f32_at c + 4\<rparr>" id "\<lambda>_. True"
proof
  fix c :: fixed32s and c' item v t rest f
  show "0 < length (le_bytes 4 (unat (t :: u32)))" by simp
  assume ok: "fixed32s_ok c"
  then have le: "f32_at c \<le> length (f32_data c)" by (simp add: fixed32s_ok_def)
  have room: "f32_at c + 4 \<le> length (f32_data c)" if "f32_at c \<noteq> length (f32_data c)"
    using multiple_room [OF le] ok that by (simp add: fixed32s_ok_def)
  show "\<exists>out. infallible fixed32s_next c = Some out"
    using room load_u32_returns [of "f32_at c" "f32_data c"] by (auto simp: infallible_def fixed32s_next_def)
  show "fixed32s_ok c'" if "infallible fixed32s_next c = Some (c', item)"
    using that ok room multiple_next [of "f32_at c" 4 "length (f32_data c)"]
    by (auto simp: infallible_def fixed32s_next_def fixed32s_ok_def split: if_splits bind_splits)
  show "infallible fixed32s_next c = Some (c', Some (Inr v)) \<longleftrightarrow>
    (\<exists>t rest. drop (f32_at c) (f32_data c) = le_bytes 4 (unat t) @ rest \<and> True \<and> v = id t \<and>
       c' = c\<lparr>f32_at := f32_at c + 4\<rparr>)"
  proof -
    have "fixed32s_next c = Some (c', Some v) \<longleftrightarrow>
        load_u32 (f32_data c) (f32_at c) = Some v \<and> c' = c\<lparr>f32_at := f32_at c + 4\<rparr>"
      using load_u32_room [of "f32_data c" "f32_at c"] by (auto simp: fixed32s_next_def split: bind_splits)
    then show ?thesis unfolding infallible_Some load_u32_iff [OF le] by auto
  qed
  show "drop (f32_at (c\<lparr>f32_at := f32_at c + 4\<rparr>)) (f32_data (c\<lparr>f32_at := f32_at c + 4\<rparr>)) = rest"
    if "drop (f32_at c) (f32_data c) = le_bytes 4 (unat (t :: u32)) @ rest"
    using drop_append_split [OF that] by simp
  show "(\<exists>c'. infallible fixed32s_next c = Some (c', None)) \<longleftrightarrow> drop (f32_at c) (f32_data c) = [] \<and> True"
    unfolding infallible_Some using le by (auto simp: fixed32s_next_def split: bind_splits)
  show "infallible fixed32s_next c' = Some (c', None)" if "infallible fixed32s_next c = Some (c', None)"
    using that unfolding infallible_Some by (auto simp: fixed32s_next_def split: if_splits bind_splits)
  show "infallible fixed32s_next c' = Some (c', None)" if "infallible fixed32s_next c = Some (c', Some (Inl f))"
    using that by (simp add: infallible_Some)
qed

interpretation fixed64s_walk: token_cursor "infallible fixed64s_next" fixed64s_ok
  "\<lambda>c. drop (f64_at c) (f64_data c)" "\<lambda>v. le_bytes 8 (unat v)" "\<lambda>_ _. True"
  "\<lambda>c _. c\<lparr>f64_at := f64_at c + 8\<rparr>" id "\<lambda>_. True"
proof
  fix c :: fixed64s and c' item v t rest f
  show "0 < length (le_bytes 8 (unat (t :: u64)))" by simp
  assume ok: "fixed64s_ok c"
  then have le: "f64_at c \<le> length (f64_data c)" by (simp add: fixed64s_ok_def)
  have room: "f64_at c + 8 \<le> length (f64_data c)" if "f64_at c \<noteq> length (f64_data c)"
    using multiple_room [OF le] ok that by (simp add: fixed64s_ok_def)
  show "\<exists>out. infallible fixed64s_next c = Some out"
    using room load_u64_returns [of "f64_at c" "f64_data c"] by (auto simp: infallible_def fixed64s_next_def)
  show "fixed64s_ok c'" if "infallible fixed64s_next c = Some (c', item)"
    using that ok room multiple_next [of "f64_at c" 8 "length (f64_data c)"]
    by (auto simp: infallible_def fixed64s_next_def fixed64s_ok_def split: if_splits bind_splits)
  show "infallible fixed64s_next c = Some (c', Some (Inr v)) \<longleftrightarrow>
    (\<exists>t rest. drop (f64_at c) (f64_data c) = le_bytes 8 (unat t) @ rest \<and> True \<and> v = id t \<and>
       c' = c\<lparr>f64_at := f64_at c + 8\<rparr>)"
  proof -
    have "fixed64s_next c = Some (c', Some v) \<longleftrightarrow>
        load_u64 (f64_data c) (f64_at c) = Some v \<and> c' = c\<lparr>f64_at := f64_at c + 8\<rparr>"
      using load_u64_room [of "f64_data c" "f64_at c"] by (auto simp: fixed64s_next_def split: bind_splits)
    then show ?thesis unfolding infallible_Some load_u64_iff [OF le] by auto
  qed
  show "drop (f64_at (c\<lparr>f64_at := f64_at c + 8\<rparr>)) (f64_data (c\<lparr>f64_at := f64_at c + 8\<rparr>)) = rest"
    if "drop (f64_at c) (f64_data c) = le_bytes 8 (unat (t :: u64)) @ rest"
    using drop_append_split [OF that] by simp
  show "(\<exists>c'. infallible fixed64s_next c = Some (c', None)) \<longleftrightarrow> drop (f64_at c) (f64_data c) = [] \<and> True"
    unfolding infallible_Some using le by (auto simp: fixed64s_next_def split: bind_splits)
  show "infallible fixed64s_next c' = Some (c', None)" if "infallible fixed64s_next c = Some (c', None)"
    using that unfolding infallible_Some by (auto simp: fixed64s_next_def split: if_splits bind_splits)
  show "infallible fixed64s_next c' = Some (c', None)" if "infallible fixed64s_next c = Some (c', Some (Inl f))"
    using that by (simp add: infallible_Some)
qed

lemma lawful_seq_elems:
  "lawful_seq (\<lambda>_ t. P t) adv (\<lambda>_. True) c ts \<longleftrightarrow> list_all P ts"
  by (induction ts arbitrary: c) simp_all

section \<open>Properties\<close>

text \<open>The packed varint iterator reads exactly the packed encodings. From an admitted payload the
  consumer's loop ends without a fault having delivered \<open>vs\<close> if and only if the payload is the
  concatenation of spellings of those values, each one to ten bytes wide and holding its value.\<close>

theorem varints_deliver:
  assumes "varints_over payload = Some c"
  shows "(\<exists>c'. walk varints_next c = Some (vs, None, c')) \<longleftrightarrow>
    (\<exists>ts. payload = concat (map (\<lambda>(v, w). enc w (unat v)) ts) \<and>
       (\<forall>(v, w) \<in> set ts. 0 < w \<and> w \<le> 10 \<and> unat v < 128 ^ w) \<and> vs = map fst ts)"
proof -
  have c: "c = \<lparr>vs_data = payload, vs_at = 0, vs_done = False\<rparr>"
    using assms by (simp add: varints_over_def split: if_splits)
  then have "varints_ok c" "varints_suffix c = payload" by (simp_all add: varints_ok_def varints_suffix_def)
  then have "(\<exists>c'. walk varints_next c = Some (vs, None, c')) \<longleftrightarrow>
    (\<exists>ts. payload = concat (map spell_varint ts) \<and> list_all elem_ok ts \<and> vs = map fst ts)"
    using varints_walk.walk_clean_iff [of c vs] by (simp add: lawful_seq_elems)
  moreover have "spell_varint = (\<lambda>(v, w). enc w (unat v))" by (auto simp: spell_varint_def)
  moreover have "list_all elem_ok ts \<longleftrightarrow> (\<forall>(v, w) \<in> set ts. 0 < w \<and> w \<le> 10 \<and> unat v < 128 ^ w)" for ts
    by (auto simp: list_all_iff elem_ok_def)
  ultimately show ?thesis by simp
qed

lemma varints_deliver_witness:
  "\<exists>c c'. varints_over [0x96, 0x01, 0x80, 0x00] = Some c \<and> walk varints_next c = Some ([150, 0], None, c')"
proof -
  let ?c = "\<lparr>vs_data = [0x96, 0x01, 0x80, 0x00], vs_at = 0, vs_done = False\<rparr> :: varints"
  have c: "varints_over [0x96, 0x01, 0x80, 0x00] = Some ?c" by (simp add: varints_over_def admission_MAX_eq)
  let ?ts = "[(150, 2), (0, 2)] :: (u64 \<times> nat) list"
  have d: "[0x96, 0x01, 0x80, 0x00] = concat (map (\<lambda>(v, w). enc w (unat v)) ?ts)" by code_simp
  have o: "\<forall>(v, w) \<in> set ?ts. 0 < w \<and> w \<le> 10 \<and> unat v < 128 ^ w" by simp
  have m: "[150, 0] = map fst ?ts" by simp
  have "\<exists>c'. walk varints_next ?c = Some ([150, 0], None, c')"
    by (rule iffD2 [OF varints_deliver [OF c]], rule exI [of _ ?ts]) (intro conjI d o m)
  then obtain c' where "walk varints_next ?c = Some ([150, 0], None, c')" ..
  with c show ?thesis by (intro exI conjI)
qed

text \<open>Construction proves the shape of a packed fixed-width payload, so iteration cannot fail. Both
  families refuse exactly the payloads that are not whole elements; over an accepted payload the loop ends,
  and it delivers \<open>vs\<close> if and only if the payload is the little-endian spelling of those values.\<close>

theorem fixed_deliver:
  "(case fixed32s_over payload of
      Inl _ \<Rightarrow> length payload mod 4 \<noteq> 0
    | Inr c \<Rightarrow> length payload mod 4 = 0 \<and>
        (\<forall>vs. (\<exists>c'. walk (infallible fixed32s_next) c = Some (vs, None, c')) \<longleftrightarrow>
          payload = concat (map (\<lambda>v. le_bytes 4 (unat v)) vs))) \<and>
   (case fixed64s_over payload of
      Inl _ \<Rightarrow> length payload mod 8 \<noteq> 0
    | Inr c \<Rightarrow> length payload mod 8 = 0 \<and>
        (\<forall>vs. (\<exists>c'. walk (infallible fixed64s_next) c = Some (vs, None, c')) \<longleftrightarrow>
          payload = concat (map (\<lambda>v. le_bytes 8 (unat v)) vs)))"
proof
  show "case fixed32s_over payload of
      Inl _ \<Rightarrow> length payload mod 4 \<noteq> 0
    | Inr c \<Rightarrow> length payload mod 4 = 0 \<and>
        (\<forall>vs. (\<exists>c'. walk (infallible fixed32s_next) c = Some (vs, None, c')) \<longleftrightarrow>
          payload = concat (map (\<lambda>v. le_bytes 4 (unat v)) vs))"
  proof (cases "length payload mod 4 = 0")
    case True
    then have "fixed32s_ok \<lparr>f32_data = payload, f32_at = 0\<rparr>" by (simp add: fixed32s_ok_def)
    from fixed32s_walk.walk_clean_iff [OF this] True show ?thesis
      by (simp add: fixed32s_over_def lawful_seq_elems list_all_iff)
  qed (simp add: fixed32s_over_def)
  show "case fixed64s_over payload of
      Inl _ \<Rightarrow> length payload mod 8 \<noteq> 0
    | Inr c \<Rightarrow> length payload mod 8 = 0 \<and>
        (\<forall>vs. (\<exists>c'. walk (infallible fixed64s_next) c = Some (vs, None, c')) \<longleftrightarrow>
          payload = concat (map (\<lambda>v. le_bytes 8 (unat v)) vs))"
  proof (cases "length payload mod 8 = 0")
    case True
    then have "fixed64s_ok \<lparr>f64_data = payload, f64_at = 0\<rparr>" by (simp add: fixed64s_ok_def)
    from fixed64s_walk.walk_clean_iff [OF this] True show ?thesis
      by (simp add: fixed64s_over_def lawful_seq_elems list_all_iff)
  qed (simp add: fixed64s_over_def)
qed

text \<open>The size hint of a fixed-width iterator is exact: it is both bounds of the number of elements
  the loop still delivers.\<close>

theorem fixed_hint_exact:
  assumes "fixed64s_ok c" "walk (infallible fixed64s_next) c = Some (vs, f, c')"
  shows "fixed64s_size_hint c = Some (length vs, Some (length vs))"
proof -
  have "f = None"
    using fixed64s_walk.walk_faultless [OF _ assms] by (simp add: infallible_Some)
  with assms(2) have "\<exists>c'. walk (infallible fixed64s_next) c = Some (vs, None, c')" by blast
  then have "drop (f64_at c) (f64_data c) = concat (map (\<lambda>v. le_bytes 8 (unat v)) vs)"
    using fixed64s_walk.walk_clean_iff [OF assms(1), of vs] by (auto simp: lawful_seq_elems)
  then have "length (drop (f64_at c) (f64_data c)) = 8 * length vs"
    by (simp add: length_concat comp_def sum_list_triv)
  with assms(1) show ?thesis by (simp add: fixed64s_size_hint_def fixed64s_ok_def usub_def Let_def)
qed

lemma fixed_hint_exact_witness:
  "fixed64s_size_hint \<lparr>f64_data = le_bytes 8 7 @ le_bytes 8 9, f64_at = 8\<rparr> = Some (1, Some 1)"
proof -
  let ?c = "\<lparr>f64_data = le_bytes 8 7 @ le_bytes 8 9, f64_at = 8\<rparr> :: fixed64s"
  have ok: "fixed64s_ok ?c" by (simp add: fixed64s_ok_def)
  have "\<exists>c'. walk (infallible fixed64s_next) ?c = Some ([9], None, c')"
    using fixed64s_walk.walk_clean_iff [OF ok, of "[9]"] by (simp add: lawful_seq_elems)
  then obtain c' where "walk (infallible fixed64s_next) ?c = Some ([9], None, c')" ..
  from fixed_hint_exact [OF ok this] show ?thesis by simp
qed

end
