(* ===== verification/Path.thy ===== *)
theory Path
  imports Wire
begin

text \<open>
  Paths and their admission (\<open>src/src/path.rs\<close>, the shape core and \<open>Program\<close>). A path is a list of
  segments, a field or a wildcard run over a set of descendable fields. Admission judges every
  path's shape, then refuses duplicates. The index loops of the source are recursions over the
  list that carry the index; \<open>Result<(), E>\<close> is \<open>'e + unit\<close>.
\<close>

section \<open>Segments, breaches and the program\<close>

datatype segment = SField field_number | SAnyDepth "field_number list"

type_synonym path = "segment list"

record crossing =
  crossing_field :: field_number
  crossing_at :: u32

datatype program_error =
    TooManyPaths nat
  | PathTooLong u32
  | EmptyPath u32
  | WildcardTarget u32
  | EmptyDescendSet u32 u32
  | UnsortedDescend u32 u32
  | AdjacentWildcards u32 u32
  | DuplicatePath u32 u32

datatype shape_breach =
    BrEmptyPath
  | BrWildcardTarget
  | BrEmptyDescendSet u32
  | BrUnsortedDescend u32
  | BrAdjacentWildcards u32

record program =
  program_paths :: "path list"

definition ix_u32 :: "nat \<Rightarrow> u32" where
  "ix_u32 i = of_nat i"

definition shape_error :: "shape_breach \<Rightarrow> u32 \<Rightarrow> program_error" where
  "shape_error breach p =
     (case breach of
        BrEmptyPath \<Rightarrow> EmptyPath p
      | BrWildcardTarget \<Rightarrow> WildcardTarget p
      | BrEmptyDescendSet s \<Rightarrow> EmptyDescendSet p s
      | BrUnsortedDescend s \<Rightarrow> UnsortedDescend p s
      | BrAdjacentWildcards s \<Rightarrow> AdjacentWildcards p s)"

section \<open>The shape of one path\<close>

fun ascending_loop :: "field_number list \<Rightarrow> bool" where
  "ascending_loop (a # b # rest) = (if field_inner a \<ge> field_inner b then False else ascending_loop (b # rest))"
| "ascending_loop _ = True"

fun member_loop :: "field_number \<Rightarrow> field_number list \<Rightarrow> bool" where
  "member_loop x [] = False"
| "member_loop x (y # ys) = (if field_inner x = field_inner y then True else member_loop x ys)"

fun descend_subset :: "field_number list \<Rightarrow> field_number list \<Rightarrow> bool" where
  "descend_subset [] outer = True"
| "descend_subset (x # xs) outer = (if \<not> member_loop x outer then False else descend_subset xs outer)"

fun judge_segments :: "nat \<Rightarrow> nat \<Rightarrow> path \<Rightarrow> shape_breach + unit" where
  "judge_segments terminal seg [] = Inr ()"
| "judge_segments terminal seg (SField f # rest) = judge_segments terminal (seg + 1) rest"
| "judge_segments terminal seg (SAnyDepth descend # rest) =
     (if seg = terminal then Inl BrWildcardTarget
      else if descend = [] then Inl (BrEmptyDescendSet (ix_u32 seg))
      else if \<not> ascending_loop descend then Inl (BrUnsortedDescend (ix_u32 seg))
      else judge_segments terminal (seg + 1) rest)"

fun judge_adjacent :: "nat \<Rightarrow> path \<Rightarrow> shape_breach + unit" where
  "judge_adjacent seg (SAnyDepth a # SAnyDepth b # rest) =
     (if descend_subset a b \<or> descend_subset b a then Inl (BrAdjacentWildcards (ix_u32 seg))
      else judge_adjacent (seg + 1) (SAnyDepth b # rest))"
| "judge_adjacent seg (p # q # rest) = judge_adjacent (seg + 1) (q # rest)"
| "judge_adjacent seg _ = Inr ()"

definition judge_path :: "path \<Rightarrow> shape_breach + unit" where
  "judge_path p =
     (if p = [] then Inl BrEmptyPath
      else
        let terminal = length p - 1 in
        (case judge_segments terminal 0 p of
           Inl breach \<Rightarrow> Inl breach
         | Inr _ \<Rightarrow> judge_adjacent 1 p))"

section \<open>Duplicates\<close>

fun descend_equal_loop :: "field_number list \<Rightarrow> field_number list \<Rightarrow> bool" where
  "descend_equal_loop (x # xs) (y # ys) =
     (if field_inner x \<noteq> field_inner y then False else descend_equal_loop xs ys)"
| "descend_equal_loop _ _ = True"

definition descend_equal :: "field_number list \<Rightarrow> field_number list \<Rightarrow> bool" where
  "descend_equal a b = (if length a \<noteq> length b then False else descend_equal_loop a b)"

fun segment_equal :: "segment \<Rightarrow> segment \<Rightarrow> bool" where
  "segment_equal (SField x) (SField y) = (field_inner x = field_inner y)"
| "segment_equal (SAnyDepth x) (SAnyDepth y) = descend_equal x y"
| "segment_equal _ _ = False"

fun paths_equal_loop :: "path \<Rightarrow> path \<Rightarrow> bool" where
  "paths_equal_loop (a # as) (b # bs) = (if \<not> segment_equal a b then False else paths_equal_loop as bs)"
| "paths_equal_loop _ _ = True"

definition paths_equal :: "path \<Rightarrow> path \<Rightarrow> bool" where
  "paths_equal a b = (if length a \<noteq> length b then False else paths_equal_loop a b)"

section \<open>Admission\<close>

fun judge_paths_loop :: "nat \<Rightarrow> path list \<Rightarrow> program_error + unit" where
  "judge_paths_loop index [] = Inr ()"
| "judge_paths_loop index (p # ps) =
     (let at = ix_u32 index in
      if length p > 65535 then Inl (PathTooLong at)
      else (case judge_path p of
              Inl breach \<Rightarrow> Inl (shape_error breach at)
            | Inr _ \<Rightarrow> judge_paths_loop (index + 1) ps))"

fun duplicate_inner :: "path \<Rightarrow> nat \<Rightarrow> nat \<Rightarrow> path list \<Rightarrow> program_error + unit" where
  "duplicate_inner p first second [] = Inr ()"
| "duplicate_inner p first second (q # qs) =
     (if paths_equal p q then Inl (DuplicatePath (ix_u32 first) (ix_u32 second))
      else duplicate_inner p first (second + 1) qs)"

fun duplicate_outer :: "nat \<Rightarrow> path list \<Rightarrow> program_error + unit" where
  "duplicate_outer first [] = Inr ()"
| "duplicate_outer first (p # ps) =
     (case duplicate_inner p first (first + 1) ps of
        Inl e \<Rightarrow> Inl e
      | Inr _ \<Rightarrow> duplicate_outer (first + 1) ps)"

definition program_over :: "path list \<Rightarrow> program_error + program" where
  "program_over paths =
     (if length paths > 65535 then Inl (TooManyPaths (length paths))
      else
        (case judge_paths_loop 0 paths of
           Inl e \<Rightarrow> Inl e
         | Inr _ \<Rightarrow>
             (case duplicate_outer 0 paths of
                Inl e \<Rightarrow> Inl e
              | Inr _ \<Rightarrow> Inr \<lparr>program_paths = paths\<rparr>)))"

definition program_len :: "program \<Rightarrow> u32" where
  "program_len p = ix_u32 (length (program_paths p))"

definition program_is_empty :: "program \<Rightarrow> bool" where
  "program_is_empty p \<longleftrightarrow> program_paths p = []"

section \<open>What admission admits\<close>

text \<open>The specification: descend sets in their one spelling, no redundant neighbours, a field at
  the end.\<close>

fun descend_ok :: "segment \<Rightarrow> bool" where
  "descend_ok (SField f) = True"
| "descend_ok (SAnyDepth d) = (d \<noteq> [] \<and> sorted_wrt (<) d)"

fun neighbours_ok :: "path \<Rightarrow> bool" where
  "neighbours_ok (SAnyDepth a # SAnyDepth b # rest) =
     (\<not> set a \<subseteq> set b \<and> \<not> set b \<subseteq> set a \<and> neighbours_ok (SAnyDepth b # rest))"
| "neighbours_ok (p # rest) = neighbours_ok rest"
| "neighbours_ok [] = True"

definition path_shape :: "path \<Rightarrow> bool" where
  "path_shape p \<longleftrightarrow> p \<noteq> [] \<and> (\<exists>f. last p = SField f) \<and> list_all descend_ok p \<and> neighbours_ok p"

lemma field_inner_le: "field_inner a \<le> field_inner b \<longleftrightarrow> a \<le> b"
  by (simp add: word_le_nat_alt)

lemma field_inner_eq: "field_inner a = field_inner b \<longleftrightarrow> a = b"
  by (simp add: word_eq_unat_iff)

lemma ascending_sorted: "ascending_loop d \<longleftrightarrow> sorted_wrt (<) d"
proof (induction d rule: ascending_loop.induct)
  case (1 a b rest)
  then show ?case
    by (auto simp: field_inner_le not_le intro: less_trans)
qed simp_all

lemma member_loop_iff: "member_loop x ys \<longleftrightarrow> x \<in> set ys"
  by (induction ys) (auto simp: field_inner_eq)

lemma descend_subset_iff: "descend_subset xs ys \<longleftrightarrow> set xs \<subseteq> set ys"
  by (induction xs) (auto simp: member_loop_iff)

lemma descend_equal_iff: "descend_equal a b \<longleftrightarrow> a = b"
proof -
  have "length a = length b \<Longrightarrow> descend_equal_loop a b \<longleftrightarrow> a = b"
    by (induction a b rule: list_induct2) (auto simp: field_inner_eq)
  then show ?thesis by (auto simp: descend_equal_def)
qed

lemma segment_equal_iff: "segment_equal a b \<longleftrightarrow> a = b"
  by (cases a; cases b) (auto simp: field_inner_eq descend_equal_iff)

lemma paths_equal_iff: "paths_equal a b \<longleftrightarrow> a = b"
proof -
  have "length a = length b \<Longrightarrow> paths_equal_loop a b \<longleftrightarrow> a = b"
    by (induction a b rule: list_induct2) (auto simp: segment_equal_iff)
  then show ?thesis by (auto simp: paths_equal_def)
qed

lemma judge_segments_Inr:
  "judge_segments terminal seg p = Inr () \<longleftrightarrow>
   list_all descend_ok p \<and> (\<forall>i < length p. seg + i = terminal \<longrightarrow> (\<exists>f. p ! i = SField f))"
proof (induction terminal seg p rule: judge_segments.induct)
  case (2 terminal seg f rest)
  have "(\<forall>i < length (SField f # rest). seg + i = terminal \<longrightarrow> (\<exists>g. (SField f # rest) ! i = SField g)) \<longleftrightarrow>
      (\<forall>i < length rest. seg + 1 + i = terminal \<longrightarrow> (\<exists>g. rest ! i = SField g))"
    by (auto simp: nth_Cons' less_Suc_eq_0_disj)
  with 2 show ?case by simp
next
  case (3 terminal seg d rest)
  have "(\<forall>i < length (SAnyDepth d # rest). seg + i = terminal \<longrightarrow> (\<exists>g. (SAnyDepth d # rest) ! i = SField g)) \<longleftrightarrow>
      seg \<noteq> terminal \<and> (\<forall>i < length rest. seg + 1 + i = terminal \<longrightarrow> (\<exists>g. rest ! i = SField g))"
    by (auto simp: nth_Cons' less_Suc_eq_0_disj)
  with 3 show ?case by (auto simp: ascending_sorted)
qed simp

lemma judge_adjacent_Inr: "judge_adjacent seg p = Inr () \<longleftrightarrow> neighbours_ok p"
  by (induction seg p rule: judge_adjacent.induct) (auto simp: descend_subset_iff)

lemma judge_path_Inr: "judge_path p = Inr () \<longleftrightarrow> path_shape p"
proof (cases "p = []")
  case False
  then have "(\<forall>i < length p. 0 + i = length p - 1 \<longrightarrow> (\<exists>f. p ! i = SField f)) \<longleftrightarrow> (\<exists>f. last p = SField f)"
    by (auto simp: last_conv_nth)
  with False judge_segments_Inr [of "length p - 1" 0 p] show ?thesis
    by (auto simp: judge_path_def path_shape_def judge_adjacent_Inr split: sum.split)
qed (simp add: judge_path_def path_shape_def)

lemma judge_paths_Inr:
  "judge_paths_loop index ps = Inr () \<longleftrightarrow> list_all (\<lambda>p. length p \<le> 65535 \<and> path_shape p) ps"
proof (induction index ps rule: judge_paths_loop.induct)
  case (2 index p ps)
  then show ?case using judge_path_Inr [of p]
    by (cases "judge_path p") (auto simp: Let_def)
qed simp

lemma duplicate_inner_Inr: "duplicate_inner p i j qs = Inr () \<longleftrightarrow> p \<notin> set qs"
  by (induction qs arbitrary: j) (auto simp: paths_equal_iff)

lemma duplicate_outer_Inr: "duplicate_outer i ps = Inr () \<longleftrightarrow> distinct ps"
proof (induction ps arbitrary: i)
  case (Cons p ps)
  then show ?case using duplicate_inner_Inr [of p i "i + 1" ps]
    by (auto split: sum.split)
qed simp

lemma program_over_Inr:
  "program_over ps = Inr g \<longleftrightarrow>
   length ps \<le> 65535 \<and> list_all (\<lambda>p. length p \<le> 65535 \<and> path_shape p) ps \<and> distinct ps \<and>
   g = \<lparr>program_paths = ps\<rparr>"
  using judge_paths_Inr [of 0 ps] duplicate_outer_Inr [of 0 ps]
  by (cases "judge_paths_loop 0 ps"; cases "duplicate_outer 0 ps") (auto simp: program_over_def)

text \<open>The refusal of duplicates names the first pair in lexicographic order.\<close>

lemma duplicate_inner_Inl:
  "duplicate_inner p i j qs = Inl e \<longleftrightarrow>
   (\<exists>k < length qs. qs ! k = p \<and> (\<forall>l < k. qs ! l \<noteq> p) \<and> e = DuplicatePath (ix_u32 i) (ix_u32 (j + k)))"
proof (induction qs arbitrary: j)
  case (Cons q qs)
  show ?case
  proof (cases "q = p")
    case True
    have "(\<exists>k < length (q # qs). (q # qs) ! k = p \<and> (\<forall>l < k. (q # qs) ! l \<noteq> p) \<and> Q k) \<longleftrightarrow> Q 0" for Q
    proof
      assume "\<exists>k < length (q # qs). (q # qs) ! k = p \<and> (\<forall>l < k. (q # qs) ! l \<noteq> p) \<and> Q k"
      then obtain k where k: "\<forall>l < k. (q # qs) ! l \<noteq> p" "Q k" by blast
      with True have "\<not> 0 < k" by auto
      with k show "Q 0" by simp
    qed (use True in auto)
    with True show ?thesis by (simp add: paths_equal_iff) auto
  next
    case False
    have "(\<exists>k < length (q # qs). (q # qs) ! k = p \<and> (\<forall>l < k. (q # qs) ! l \<noteq> p) \<and>
        e = DuplicatePath (ix_u32 i) (ix_u32 (j + k))) \<longleftrightarrow>
      (\<exists>k < length qs. qs ! k = p \<and> (\<forall>l < k. qs ! l \<noteq> p) \<and> e = DuplicatePath (ix_u32 i) (ix_u32 (j + 1 + k)))"
      using False by (simp add: Ex_less_Suc2 All_less_Suc2)
    with False Cons.IH [of "j + 1"] show ?thesis by (simp add: paths_equal_iff)
  qed
qed simp

definition first_pair :: "path list \<Rightarrow> nat \<Rightarrow> nat \<Rightarrow> bool" where
  "first_pair ps a b \<longleftrightarrow> a < b \<and> b < length ps \<and> ps ! a = ps ! b \<and>
     (\<forall>l < a. ps ! l \<notin> set (drop (Suc l) ps)) \<and> (\<forall>l. a < l \<and> l < b \<longrightarrow> ps ! l \<noteq> ps ! a)"

lemma all_between_Suc: "(\<forall>l. Suc a < l \<and> l < Suc b \<longrightarrow> P l) \<longleftrightarrow> (\<forall>l. a < l \<and> l < b \<longrightarrow> P (Suc l))"
  by (metis Suc_less_eq Suc_lessE)

lemma all_below_Suc: "(\<forall>l. 0 < l \<and> l < Suc b \<longrightarrow> P l) \<longleftrightarrow> (\<forall>l < b. P (Suc l))"
  by (metis Suc_less_eq gr0_implies_Suc zero_less_Suc)

lemma first_pair_Cons:
  "first_pair (p # ps) (Suc a) b \<longleftrightarrow> p \<notin> set ps \<and> (\<exists>b'. b = Suc b' \<and> first_pair ps a b')"
  "first_pair (p # ps) 0 b \<longleftrightarrow> (\<exists>k < length ps. b = Suc k \<and> ps ! k = p \<and> (\<forall>l < k. ps ! l \<noteq> p))"
   apply (cases b; simp add: first_pair_def All_less_Suc2 all_between_Suc; blast)
  apply (cases b; simp add: first_pair_def all_below_Suc; metis)
  done

lemma duplicate_outer_Inl:
  "duplicate_outer i ps = Inl e \<longleftrightarrow>
   (\<exists>a b. first_pair ps a b \<and> e = DuplicatePath (ix_u32 (i + a)) (ix_u32 (i + b)))"
proof (induction ps arbitrary: i)
  case Nil
  show ?case by (simp add: first_pair_def)
next
  case (Cons p ps)
  show ?case
  proof (cases "p \<in> set ps")
    case False
    then have "duplicate_inner p i (i + 1) ps = Inr ()" by (simp add: duplicate_inner_Inr)
    then have eq: "duplicate_outer i (p # ps) = duplicate_outer (i + 1) ps" by simp
    have fp: "first_pair (p # ps) a b \<longleftrightarrow> (\<exists>a' b'. a = Suc a' \<and> b = Suc b' \<and> first_pair ps a' b')" for a b
      using False by (cases a) (auto simp: first_pair_Cons)
    have ex: "(\<exists>a b. first_pair (p # ps) a b \<and> Q a b) \<longleftrightarrow> (\<exists>a b. first_pair ps a b \<and> Q (Suc a) (Suc b))" for Q
      unfolding fp by blast
    show ?thesis unfolding eq Cons.IH ex by simp
  next
    case True
    then obtain d where d: "duplicate_inner p i (i + 1) ps = Inl d"
      using duplicate_inner_Inr [of p i "i + 1" ps] by (cases "duplicate_inner p i (i + 1) ps") auto
    then have eq: "duplicate_outer i (p # ps) = duplicate_inner p i (i + 1) ps" by simp
    have fp: "first_pair (p # ps) a b \<longleftrightarrow>
        a = 0 \<and> (\<exists>k < length ps. b = Suc k \<and> ps ! k = p \<and> (\<forall>l < k. ps ! l \<noteq> p))" for a b
      using True by (cases a) (auto simp: first_pair_Cons)
    have ex: "(\<exists>a b. first_pair (p # ps) a b \<and> Q a b) \<longleftrightarrow>
        (\<exists>k < length ps. ps ! k = p \<and> (\<forall>l < k. ps ! l \<noteq> p) \<and> Q 0 (Suc k))" for Q
      unfolding fp by blast
    show ?thesis unfolding eq duplicate_inner_Inl ex by simp
  qed
qed

section \<open>Properties\<close>

text \<open>C36: Admission of a program is exactly its specification. \<open>Program::over\<close> answers a program if
  and only if there are at most 65535 paths, every path has at most 65535 segments and the admitted shape
  (nonempty, ending in a field, every descend set nonempty and strictly ascending, no wildcard beside one
  whose descend set contains or is contained in its own), and no two paths are equal; the program then
  holds the paths as given.\<close>

theorem program_admits:
  "program_over ps = Inr g \<longleftrightarrow>
   length ps \<le> 65535 \<and> list_all (\<lambda>p. length p \<le> 65535 \<and> path_shape p) ps \<and> distinct ps \<and>
   g = \<lparr>program_paths = ps\<rparr>"
  by (rule program_over_Inr)

text \<open>C39: The duplicate a refusal names. When the paths pass every other judgement, \<open>Program::over\<close>
  refuses exactly when two are equal, and the refusal carries the lexicographically first such pair of
  indices: no earlier path has a duplicate, and none lies between the two.\<close>

theorem duplicate_pair_first:
  assumes "length ps \<le> 65535" "list_all (\<lambda>p. length p \<le> 65535 \<and> path_shape p) ps"
  shows "program_over ps = Inl e \<longleftrightarrow>
    (\<exists>a b. a < b \<and> b < length ps \<and> ps ! a = ps ! b \<and> (\<forall>a' < a. ps ! a' \<notin> set (drop (Suc a') ps)) \<and>
      (\<forall>l. a < l \<and> l < b \<longrightarrow> ps ! l \<noteq> ps ! a) \<and> e = DuplicatePath (of_nat a) (of_nat b))"
proof -
  have "judge_paths_loop 0 ps = Inr ()" using assms by (simp add: judge_paths_Inr)
  then have "program_over ps = Inl e \<longleftrightarrow> duplicate_outer 0 ps = Inl e"
    using assms(1) by (auto simp: program_over_def split: sum.split)
  then show ?thesis by (simp add: duplicate_outer_Inl ix_u32_def first_pair_def conj_ac)
qed

lemma duplicate_pair_first_witness:
  "program_over [[SField 1], [SAnyDepth [2, 3], SField 4], [SField 1], [SField 1]] = Inl (DuplicatePath 0 2)"
proof -
  let ?ps = "[[SField 1], [SAnyDepth [2, 3], SField 4], [SField 1], [SField 1]]"
  have "length ?ps \<le> 65535" by simp
  moreover have "list_all (\<lambda>p. length p \<le> 65535 \<and> path_shape p) ?ps" by (simp add: path_shape_def)
  moreover have "?ps ! 0 = ?ps ! 2 \<and> (\<forall>l. 0 < l \<and> l < 2 \<longrightarrow> ?ps ! l \<noteq> ?ps ! 0)"
    by (auto simp: less_2_cases_iff)
  ultimately show ?thesis
    by (intro iffD2 [OF duplicate_pair_first] exI [of _ 0] exI [of _ 2]) simp_all
qed

end
