(* ===== verification/Gaps.thy ===== *)
theory Gaps
  imports Path
begin

text \<open>
  The gap store of a laned matcher (\<open>src/src/path.rs\<close>: \<open>Lane\<close>, \<open>GapMask\<close>, the trait
  \<open>GapStore\<close>, its unit instance and \<open>GapTable\<close>). The trait is a record of operations. An unchecked
  range start past the table and an unchecked pop of an empty stack are undefined behaviour
  and have no value. A vector used as a stack keeps its last element first.
\<close>

section \<open>Lanes, masks and the trait\<close>

datatype lane = LTarget | LHead | LTail

type_synonym gap_mask = u8

definition mask_empty :: gap_mask where
  "mask_empty = 0"

definition mask_add :: "gap_mask \<Rightarrow> lane \<Rightarrow> gap_mask" where
  "mask_add m lane = m OR (case lane of LTarget \<Rightarrow> 0 | LHead \<Rightarrow> 1 | LTail \<Rightarrow> 2)"

definition mask_is_empty :: "gap_mask \<Rightarrow> bool" where
  "mask_is_empty m \<longleftrightarrow> m = 0"

definition mask_head :: "gap_mask \<Rightarrow> bool" where
  "mask_head m \<longleftrightarrow> m AND 1 \<noteq> 0"

definition mask_tail :: "gap_mask \<Rightarrow> bool" where
  "mask_tail m \<longleftrightarrow> m AND 2 \<noteq> 0"

record 'g gap_ops =
  gap_default :: 'g
  gap_set_any :: "'g \<Rightarrow> bool \<Rightarrow> 'g"
  gap_any :: "'g \<Rightarrow> bool"
  gap_push :: "'g \<Rightarrow> field_number \<Rightarrow> nat \<Rightarrow> lane \<Rightarrow> 'g"
  gap_enter :: "'g \<Rightarrow> 'g"
  gap_exit :: "'g \<Rightarrow> 'g option"
  gap_probe :: "'g \<Rightarrow> field_number \<Rightarrow> gap_mask option"
  gap_visit :: "'g \<Rightarrow> field_number \<Rightarrow> lane \<Rightarrow> nat list option"
  gap_first :: "'g \<Rightarrow> field_number \<Rightarrow> nat option option"

definition unit_gaps :: "unit gap_ops" where
  "unit_gaps = \<lparr>gap_default = (), gap_set_any = (\<lambda>_ _. ()), gap_any = (\<lambda>_. False),
     gap_push = (\<lambda>_ _ _ _. ()), gap_enter = (\<lambda>_. ()), gap_exit = (\<lambda>_. Some ()),
     gap_probe = (\<lambda>_ _. Some mask_empty), gap_visit = (\<lambda>_ _ _. Some []), gap_first = (\<lambda>_ _. Some None)\<rparr>"

section \<open>The table\<close>

definition tail_from :: "'a list \<Rightarrow> nat \<Rightarrow> 'a list option" where
  "tail_from xs k = (if k \<le> length xs then Some (drop k xs) else None)"

record gap_table =
  gt_entries :: "(field_number \<times> nat \<times> lane) list"
  gt_marks :: "nat list"
  gt_layer :: nat
  gt_any :: bool

definition table_set_any :: "gap_table \<Rightarrow> bool \<Rightarrow> gap_table" where
  "table_set_any g any = g\<lparr>gt_any := any\<rparr>"

definition table_push :: "gap_table \<Rightarrow> field_number \<Rightarrow> nat \<Rightarrow> lane \<Rightarrow> gap_table" where
  "table_push g field p lane = g\<lparr>gt_entries := gt_entries g @ [(field, p, lane)]\<rparr>"

definition table_enter :: "gap_table \<Rightarrow> gap_table" where
  "table_enter g =
     (if gt_any g then g\<lparr>gt_marks := gt_layer g # gt_marks g, gt_layer := length (gt_entries g)\<rparr> else g)"

definition table_exit :: "gap_table \<Rightarrow> gap_table option" where
  "table_exit g =
     (if gt_any g then
        (case gt_marks g of
           mark # rest \<Rightarrow>
             Some (g\<lparr>gt_entries := take (gt_layer g) (gt_entries g), gt_marks := rest, gt_layer := mark\<rparr>)
         | [] \<Rightarrow> None)
      else Some g)"

fun mask_loop :: "field_number \<Rightarrow> gap_mask \<Rightarrow> (field_number \<times> nat \<times> lane) list \<Rightarrow> gap_mask" where
  "mask_loop field gaps [] = gaps"
| "mask_loop field gaps ((f, _, lane) # rest) =
     mask_loop field (if f = field then mask_add gaps lane else gaps) rest"

definition table_probe :: "gap_table \<Rightarrow> field_number \<Rightarrow> gap_mask option" where
  "table_probe g field = map_option (mask_loop field mask_empty) (tail_from (gt_entries g) (gt_layer g))"

fun visit_loop :: "field_number \<Rightarrow> lane \<Rightarrow> nat option \<Rightarrow> (field_number \<times> nat \<times> lane) list \<Rightarrow> nat list" where
  "visit_loop field lane lst [] = []"
| "visit_loop field lane lst ((f, i, l) # rest) =
     (if f = field \<and> l = lane \<and> lst \<noteq> Some i then i # visit_loop field lane (Some i) rest
      else visit_loop field lane lst rest)"

definition table_visit :: "gap_table \<Rightarrow> field_number \<Rightarrow> lane \<Rightarrow> nat list option" where
  "table_visit g field lane = map_option (visit_loop field lane None) (tail_from (gt_entries g) (gt_layer g))"

fun first_loop :: "field_number \<Rightarrow> (field_number \<times> nat \<times> lane) list \<Rightarrow> nat option" where
  "first_loop field [] = None"
| "first_loop field ((f, i, _) # rest) = (if f = field then Some i else first_loop field rest)"

definition table_first :: "gap_table \<Rightarrow> field_number \<Rightarrow> nat option option" where
  "table_first g field = map_option (first_loop field) (tail_from (gt_entries g) (gt_layer g))"

definition table_gaps :: "gap_table gap_ops" where
  "table_gaps = \<lparr>gap_default = \<lparr>gt_entries = [], gt_marks = [], gt_layer = 0, gt_any = False\<rparr>,
     gap_set_any = table_set_any, gap_any = gt_any, gap_push = table_push, gap_enter = table_enter,
     gap_exit = table_exit, gap_probe = table_probe, gap_visit = table_visit, gap_first = table_first\<rparr>"

section \<open>The contract of a gap store\<close>

text \<open>What the matcher relies on: leaving a layer undoes everything pushed since it was entered,
  provided the store was told that gap rules exist, and unconditionally when nothing was pushed.\<close>

definition push_all :: "'g gap_ops \<Rightarrow> 'g \<Rightarrow> (field_number \<times> nat \<times> lane) list \<Rightarrow> 'g" where
  "push_all ops g xs = foldl (\<lambda>g (f, p, l). gap_push ops g f p l) g xs"

locale gap_store =
  fixes ops :: "'g gap_ops" and armed :: "'g \<Rightarrow> bool"
  assumes set_any_armed: "armed (gap_set_any ops g True)"
    and push_armed: "armed g \<Longrightarrow> armed (gap_push ops g f p l)"
    and enter_armed: "armed g \<Longrightarrow> armed (gap_enter ops g)"
    and exit_enter: "gap_exit ops (gap_enter ops g) = Some g"
    and exit_pushes: "armed g \<Longrightarrow> gap_exit ops (push_all ops (gap_enter ops g) xs) = Some g"
begin

lemma exit_restores:
  "xs = [] \<or> armed g \<Longrightarrow> gap_exit ops (push_all ops (gap_enter ops g) xs) = Some g"
  using exit_enter exit_pushes by (auto simp: push_all_def)

lemma push_all_armed: "armed g \<Longrightarrow> armed (push_all ops g xs)"
  unfolding push_all_def by (induction xs arbitrary: g) (auto intro: push_armed)

end

interpretation unit_store: gap_store unit_gaps "\<lambda>_. True"
proof
  fix g xs
  show "gap_exit unit_gaps (push_all unit_gaps (gap_enter unit_gaps g) xs) = Some g"
    by (simp add: unit_gaps_def)
qed (simp_all add: unit_gaps_def)

lemma push_all_table:
  "push_all table_gaps g xs = g\<lparr>gt_entries := gt_entries g @ xs\<rparr>"
  by (induction xs arbitrary: g) (auto simp: push_all_def table_gaps_def table_push_def)

interpretation table_store: gap_store table_gaps gt_any
proof
  fix g xs
  show "gap_exit table_gaps (gap_enter table_gaps g) = Some g"
    by (simp add: table_gaps_def table_enter_def table_exit_def)
  show "gt_any g \<Longrightarrow> gap_exit table_gaps (push_all table_gaps (gap_enter table_gaps g) xs) = Some g"
    unfolding push_all_table by (simp add: table_gaps_def table_enter_def table_exit_def)
qed (simp_all add: table_gaps_def table_set_any_def table_push_def table_enter_def)

section \<open>What the probes answer\<close>

lemma mask_bits: "mask_head m \<longleftrightarrow> bit m 0" "mask_tail m \<longleftrightarrow> bit m 1"
  using bit_iff_and_push_bit_not_eq_0 [of m 0] bit_iff_and_push_bit_not_eq_0 [of m 1]
  by (simp_all add: mask_head_def mask_tail_def)

lemma mask_add_bits:
  "mask_head (mask_add m lane) \<longleftrightarrow> mask_head m \<or> lane = LHead"
  "mask_tail (mask_add m lane) \<longleftrightarrow> mask_tail m \<or> lane = LTail"
  by (cases lane; simp add: mask_bits mask_add_def bit_simps)+

lemma mask_loop_bits:
  "mask_head (mask_loop f m xs) \<longleftrightarrow> mask_head m \<or> (\<exists>i. (f, i, LHead) \<in> set xs)"
  "mask_tail (mask_loop f m xs) \<longleftrightarrow> mask_tail m \<or> (\<exists>i. (f, i, LTail) \<in> set xs)"
proof (induction f m xs rule: mask_loop.induct)
  case (2 field gaps f u lane rest)
  from 2 mask_add_bits [of gaps lane] show "mask_head (mask_loop field gaps ((f, u, lane) # rest)) \<longleftrightarrow>
      mask_head gaps \<or> (\<exists>i. (field, i, LHead) \<in> set ((f, u, lane) # rest))"
    "mask_tail (mask_loop field gaps ((f, u, lane) # rest)) \<longleftrightarrow>
      mask_tail gaps \<or> (\<exists>i. (field, i, LTail) \<in> set ((f, u, lane) # rest))"
    by auto
qed simp_all

lemma first_loop_iff:
  "first_loop f xs = None \<longleftrightarrow> (\<forall>i l. (f, i, l) \<notin> set xs)"
  by (induction f xs rule: first_loop.induct) auto

lemma first_loop_Some:
  "first_loop f xs = Some i \<longleftrightarrow> (\<exists>ys l zs. xs = ys @ (f, i, l) # zs \<and> f \<notin> fst ` set ys)"
proof (induction xs)
  case (Cons x xs)
  obtain g j k where x: "x = (g, j, k)" by (cases x)
  show ?case
  proof (cases "g = f")
    case True
    have "(\<exists>ys l zs. x # xs = ys @ (f, i, l) # zs \<and> f \<notin> fst ` set ys) \<longleftrightarrow> j = i"
      using x True by (auto simp: Cons_eq_append_conv intro!: exI [of _ "[]"])
    with x True show ?thesis by simp
  next
    case False
    have "(\<exists>ys l zs. x # xs = ys @ (f, i, l) # zs \<and> f \<notin> fst ` set ys) \<longleftrightarrow>
        (\<exists>ys l zs. xs = ys @ (f, i, l) # zs \<and> f \<notin> fst ` set ys)"
      using x False by (fastforce simp: Cons_eq_append_conv)
    with x False Cons.IH show ?thesis by simp
  qed
qed simp

lemma first_loop_least:
  assumes "first_loop f xs = Some i" "sorted (map (\<lambda>(_, i, _). i) xs)" "(f, j, l) \<in> set xs"
  shows "i \<le> j"
proof -
  from assms(1) obtain ys k zs where xs: "xs = ys @ (f, i, k) # zs" "f \<notin> fst ` set ys" unfolding first_loop_Some by blast
  then have "(f, j, l) \<notin> set ys" by force
  with assms(3) xs(1) have "(f, j, l) = (f, i, k) \<or> (f, j, l) \<in> set zs" by auto
  with assms(2) xs(1) show ?thesis by (auto simp: sorted_append)
qed

lemma visit_loop_set:
  "set (visit_loop f lane lst xs) \<union> set_option lst = {i. (f, i, lane) \<in> set xs} \<union> set_option lst"
proof (induction f lane lst xs rule: visit_loop.induct)
  case (2 field lane lst f i l rest)
  then show ?case by (cases "f = field \<and> l = lane"; cases "lst = Some i"; force)
qed simp

section \<open>Properties\<close>

text \<open>C40: A layer of the gap table is exact. In a table told that gap rules exist, entering a layer and
  pushing \<open>xs\<close> makes the probe of a field report a head lane exactly when a head gap on that field was
  pushed in this layer, and a tail lane likewise; visiting a lane hands out exactly the rules pushed for it; the first gap
  query answers nothing exactly when no gap on the field was pushed, otherwise the rule pushed first, which is the lowest-indexed one
  when the pushes were in index order; leaving the layer restores the table, marks and entries, to what it was before the layer was entered.\<close>

theorem gap_layer_exact:
  assumes "gt_any g"
  shows "(\<exists>m. table_probe (push_all table_gaps (table_enter g) xs) f = Some m \<and>
      (mask_head m \<longleftrightarrow> (\<exists>i. (f, i, LHead) \<in> set xs)) \<and> (mask_tail m \<longleftrightarrow> (\<exists>i. (f, i, LTail) \<in> set xs))) \<and>
    (\<exists>ids. table_visit (push_all table_gaps (table_enter g) xs) f lane = Some ids \<and> set ids = {i. (f, i, lane) \<in> set xs}) \<and>
    (\<exists>r. table_first (push_all table_gaps (table_enter g) xs) f = Some r \<and>
      (r = None \<longleftrightarrow> (\<forall>i l. (f, i, l) \<notin> set xs)) \<and>
      (\<forall>i. r = Some i \<longleftrightarrow> (\<exists>ys l zs. xs = ys @ (f, i, l) # zs \<and> f \<notin> fst ` set ys)) \<and>
      (\<forall>i j l. r = Some i \<longrightarrow> sorted (map (\<lambda>(_, i, _). i) xs) \<longrightarrow> (f, j, l) \<in> set xs \<longrightarrow> i \<le> j)) \<and>
    table_exit (push_all table_gaps (table_enter g) xs) = Some g"
proof (intro conjI)
  have "\<not> mask_head mask_empty" "\<not> mask_tail mask_empty"
    by (simp_all add: mask_head_def mask_tail_def mask_empty_def)
  then show "\<exists>m. table_probe (push_all table_gaps (table_enter g) xs) f = Some m \<and>
      (mask_head m \<longleftrightarrow> (\<exists>i. (f, i, LHead) \<in> set xs)) \<and> (mask_tail m \<longleftrightarrow> (\<exists>i. (f, i, LTail) \<in> set xs))"
    using assms by (simp add: table_probe_def push_all_table table_enter_def tail_from_def mask_loop_bits)
  show "\<exists>ids. table_visit (push_all table_gaps (table_enter g) xs) f lane = Some ids \<and> set ids = {i. (f, i, lane) \<in> set xs}"
    using assms visit_loop_set [of f lane None xs] by (simp add: table_visit_def push_all_table table_enter_def tail_from_def)
  have "table_first (push_all table_gaps (table_enter g) xs) f = Some (first_loop f xs)"
    using assms by (simp add: table_first_def push_all_table table_enter_def tail_from_def)
  then show "\<exists>r. table_first (push_all table_gaps (table_enter g) xs) f = Some r \<and>
      (r = None \<longleftrightarrow> (\<forall>i l. (f, i, l) \<notin> set xs)) \<and>
      (\<forall>i. r = Some i \<longleftrightarrow> (\<exists>ys l zs. xs = ys @ (f, i, l) # zs \<and> f \<notin> fst ` set ys)) \<and>
      (\<forall>i j l. r = Some i \<longrightarrow> sorted (map (\<lambda>(_, i, _). i) xs) \<longrightarrow> (f, j, l) \<in> set xs \<longrightarrow> i \<le> j)"
    using first_loop_iff [of f xs] first_loop_Some [of f xs]
    by (intro exI [of _ "first_loop f xs"] conjI allI impI) (assumption | rule refl | erule first_loop_least)+
  show "table_exit (push_all table_gaps (table_enter g) xs) = Some g"
    using table_store.exit_pushes [OF assms, of xs] by (simp add: table_gaps_def)
qed

lemma gap_layer_exact_witness:
  "(\<exists>m. table_probe (push_all table_gaps
      (table_enter \<lparr>gt_entries = [(7, 0, LTail)], gt_marks = [], gt_layer = 0, gt_any = True\<rparr>)
      [(5, 1, LTarget), (7, 2, LHead), (7, 3, LTail)]) 7 = Some m \<and> mask_head m \<and> mask_tail m) \<and>
   table_first (push_all table_gaps
      (table_enter \<lparr>gt_entries = [(7, 0, LTail)], gt_marks = [], gt_layer = 0, gt_any = True\<rparr>)
      [(5, 1, LTarget), (7, 2, LHead), (7, 3, LTail)]) 7 = Some (Some 2)"
proof -
  let ?g = "\<lparr>gt_entries = [(7, 0, LTail)], gt_marks = [], gt_layer = 0, gt_any = True\<rparr> :: gap_table"
  let ?xs = "[(5, 1, LTarget), (7, 2, LHead), (7, 3, LTail)] :: (field_number \<times> nat \<times> lane) list"
  have xs: "?xs = [(5, 1, LTarget)] @ (7, 2, LHead) # [(7, 3, LTail)]" "7 \<notin> fst ` set [(5 :: field_number, 1 :: nat, LTarget)]" by simp_all
  have "gt_any ?g" by simp
  note h = gap_layer_exact [OF this, of ?xs 7 LHead]
  obtain m where m: "table_probe (push_all table_gaps (table_enter ?g) ?xs) 7 = Some m"
    "mask_head m \<longleftrightarrow> (\<exists>i. (7, i, LHead) \<in> set ?xs)" "mask_tail m \<longleftrightarrow> (\<exists>i. (7, i, LTail) \<in> set ?xs)"
    using conjunct1 [OF h] by (elim exE conjE)
  obtain r where r: "table_first (push_all table_gaps (table_enter ?g) ?xs) 7 = Some r"
    "\<forall>i. r = Some i \<longleftrightarrow> (\<exists>ys l zs. ?xs = ys @ (7, i, l) # zs \<and> 7 \<notin> fst ` set ys)"
    using conjunct1 [OF conjunct2 [OF conjunct2 [OF h]]] by (elim exE conjE)
  have "r = Some 2" using r(2) xs by blast
  with r(1) m show ?thesis by auto
qed

end
