(* ===== verification/Matcher.thy ===== *)
theory Matcher
  imports Gaps "HOL-Library.Product_Lexorder"
begin

text \<open>
  The compiled matcher (\<open>src/src/path.rs\<close>): an automaton over the paths of a program, its layer
  tables stacked as the walk descends and truncated as it leaves. Generic in the path provider,
  as in the source: \<open>paths_ops\<close> is the trait \<open>Paths\<close>, \<open>program_ops\<close> its instance for a program.

  Path ids and segment indices are natural numbers; \<open>states_in_u16\<close> shows that the \<open>u16\<close> casts of
  the source lose nothing. Unchecked indexing out of range and an unchecked pop of an empty stack
  are undefined behaviour and have no value. \<open>levels\<close> keeps its last element first.
\<close>

section \<open>State\<close>

type_synonym state = "nat \<times> nat"

datatype hits = HitsNone | HitsOne nat | HitsConflict nat nat

record marks =
  mk_targets :: nat
  mk_stages :: nat
  mk_wilds :: nat

record 'g paths_ops =
  p_laned :: bool
  p_count :: nat
  p_path :: "nat \<Rightarrow> path option"
  p_lane :: "nat \<Rightarrow> lane"
  p_gaps :: "'g gap_ops"

definition program_ops :: "program \<Rightarrow> unit paths_ops" where
  "program_ops prog =
     \<lparr>p_laned = False, p_count = length (program_paths prog),
      p_path = (\<lambda>i. if i < length (program_paths prog) then Some (program_paths prog ! i) else None),
      p_lane = (\<lambda>_. LTarget), p_gaps = unit_gaps\<rparr>"

record 'g tables =
  tb_targets :: "(field_number \<times> nat) list"
  tb_stages :: "(field_number \<times> state) list"
  tb_wilds :: "(field_number list \<times> state) list"
  tb_gaps :: 'g

record 'g matcher = "'g tables" +
  m_layer :: marks
  m_levels :: "marks list"
  m_staged :: "state list"

section \<open>Operations\<close>

function flatten_loop ::
  "'g paths_ops \<Rightarrow> path \<Rightarrow> nat \<Rightarrow> nat \<Rightarrow> ('g, 'z) tables_scheme \<Rightarrow> ('g, 'z) tables_scheme option" where
  "flatten_loop P steps pid i tb =
     (if i < length steps then
        (case steps ! i of
           SField field \<Rightarrow>
             Some (if i + 1 = length steps then
                     if p_laned P \<and> p_lane P pid \<noteq> LTarget
                     then tb\<lparr>tb_gaps := gap_push (p_gaps P) (tb_gaps tb) field pid (p_lane P pid)\<rparr>
                     else tb\<lparr>tb_targets := tb_targets tb @ [(field, pid)]\<rparr>
                   else tb\<lparr>tb_stages := tb_stages tb @ [(field, (pid, i + 1))]\<rparr>)
         | SAnyDepth descend \<Rightarrow>
             flatten_loop P steps pid (i + 1) (tb\<lparr>tb_wilds := tb_wilds tb @ [(descend, (pid, i))]\<rparr>))
      else None)"
  by pat_completeness auto
termination
  by (relation "measure (\<lambda>(P, steps, pid, i, tb). length steps - i)") auto

declare flatten_loop.simps [simp del]

definition flatten_state ::
  "'g paths_ops \<Rightarrow> state \<Rightarrow> ('g, 'z) tables_scheme \<Rightarrow> ('g, 'z) tables_scheme option" where
  "flatten_state P st tb =
     (case st of (pid, seg) \<Rightarrow>
        do { steps \<leftarrow> p_path P pid;
             if p_laned P \<and> steps = [] then Some tb else flatten_loop P steps pid seg tb })"

fun flatten_all ::
  "'g paths_ops \<Rightarrow> state list \<Rightarrow> ('g, 'z) tables_scheme \<Rightarrow> ('g, 'z) tables_scheme option" where
  "flatten_all P [] tb = Some tb"
| "flatten_all P (st # sts) tb = do { tb' \<leftarrow> flatten_state P st tb; flatten_all P sts tb' }"

definition matcher_new :: "'g paths_ops \<Rightarrow> 'g matcher option" where
  "matcher_new P =
     do { m \<leftarrow> flatten_all P (map (\<lambda>i. (i, 0)) [0..<p_count P])
                \<lparr>tb_targets = [], tb_stages = [], tb_wilds = [], tb_gaps = gap_default (p_gaps P),
                 m_layer = \<lparr>mk_targets = 0, mk_stages = 0, mk_wilds = 0\<rparr>, m_levels = [], m_staged = []\<rparr>;
          let gapped = (\<exists>i \<in> set [0..<p_count P]. p_laned P \<and> p_lane P i \<noteq> LTarget) in
          Some (m\<lparr>tb_gaps := gap_set_any (p_gaps P) (tb_gaps m) gapped\<rparr>) }"

definition matcher_gapped :: "'g paths_ops \<Rightarrow> 'g matcher \<Rightarrow> bool" where
  "matcher_gapped P m = gap_any (p_gaps P) (tb_gaps m)"

fun target_loop :: "field_number \<Rightarrow> nat option \<Rightarrow> (field_number \<times> nat) list \<Rightarrow> hits" where
  "target_loop field found [] = (case found of None \<Rightarrow> HitsNone | Some i \<Rightarrow> HitsOne i)"
| "target_loop field found ((f, pid) # rest) =
     (if f = field then
        (case found of
           None \<Rightarrow> target_loop field (Some pid) rest
         | Some first \<Rightarrow>
             if first \<noteq> pid then HitsConflict first pid else target_loop field found rest)
      else target_loop field found rest)"

definition probe_target :: "'g matcher \<Rightarrow> field_number \<Rightarrow> hits option" where
  "probe_target m field =
     map_option (target_loop field None) (tail_from (tb_targets m) (mk_targets (m_layer m)))"

definition first_target :: "'g matcher \<Rightarrow> field_number \<Rightarrow> nat option option" where
  "first_target m field =
     map_option (\<lambda>ts. map_option snd (find (\<lambda>(f, _). f = field) ts))
       (tail_from (tb_targets m) (mk_targets (m_layer m)))"

fun visit_targets_loop :: "field_number \<Rightarrow> nat option \<Rightarrow> (field_number \<times> nat) list \<Rightarrow> nat list" where
  "visit_targets_loop field lst [] = []"
| "visit_targets_loop field lst ((f, i) # rest) =
     (if f = field \<and> lst \<noteq> Some i then i # visit_targets_loop field (Some i) rest
      else visit_targets_loop field lst rest)"

definition visit_targets :: "'g matcher \<Rightarrow> field_number \<Rightarrow> nat list option" where
  "visit_targets m field =
     map_option (visit_targets_loop field None) (tail_from (tb_targets m) (mk_targets (m_layer m)))"

definition probe_routes :: "'g matcher \<Rightarrow> field_number \<Rightarrow> (bool \<times> 'g matcher) option" where
  "probe_routes m field =
     do { st \<leftarrow> tail_from (tb_stages m) (mk_stages (m_layer m));
          wl \<leftarrow> tail_from (tb_wilds m) (mk_wilds (m_layer m));
          let staged = map snd (filter (\<lambda>(f, _). f = field) st) @
                       map snd (filter (\<lambda>(descend, _). field \<in> set descend) wl) in
          Some (staged \<noteq> [], m\<lparr>m_staged := staged\<rparr>) }"

definition matcher_probe :: "'g matcher \<Rightarrow> field_number \<Rightarrow> ((hits \<times> bool) \<times> 'g matcher) option" where
  "matcher_probe m field =
     do { hits \<leftarrow> probe_target m field;
          (case hits of
             HitsConflict _ _ \<Rightarrow> Some ((hits, False), m)
           | _ \<Rightarrow> do { (routed, m') \<leftarrow> probe_routes m field; Some ((hits, routed), m') }) }"

definition probe_gaps :: "'g paths_ops \<Rightarrow> 'g matcher \<Rightarrow> field_number \<Rightarrow> gap_mask option" where
  "probe_gaps P m field = gap_probe (p_gaps P) (tb_gaps m) field"

definition commit_descent :: "'g paths_ops \<Rightarrow> 'g matcher \<Rightarrow> 'g matcher option" where
  "commit_descent P m =
     (let staged = remdups_adj (sort (m_staged m));
          m = m\<lparr>m_staged := staged, m_levels := m_layer m # m_levels m,
                m_layer := \<lparr>mk_targets = length (tb_targets m), mk_stages = length (tb_stages m),
                            mk_wilds = length (tb_wilds m)\<rparr>,
                tb_gaps := gap_enter (p_gaps P) (tb_gaps m)\<rparr> in
      flatten_all P staged m)"

definition matcher_exit :: "'g paths_ops \<Rightarrow> 'g matcher \<Rightarrow> 'g matcher option" where
  "matcher_exit P m =
     (let m = m\<lparr>tb_targets := take (mk_targets (m_layer m)) (tb_targets m),
                tb_stages := take (mk_stages (m_layer m)) (tb_stages m),
                tb_wilds := take (mk_wilds (m_layer m)) (tb_wilds m)\<rparr> in
      do { gaps \<leftarrow> gap_exit (p_gaps P) (tb_gaps m);
           (case m_levels m of
              layer # rest \<Rightarrow> Some (m\<lparr>tb_gaps := gaps, m_layer := layer, m_levels := rest\<rparr>)
            | [] \<Rightarrow> None) })"

section \<open>What flattening adds\<close>

text \<open>From a suffix of a path starting at segment \<open>i\<close>: the fields that end the path here, the fields
  that advance it, and the wildcard runs it may stay in.\<close>

fun run_targets :: "path \<Rightarrow> field_number list" where
  "run_targets (SField f # rest) = (if rest = [] then [f] else [])"
| "run_targets (SAnyDepth d # rest) = run_targets rest"
| "run_targets [] = []"

fun run_stages :: "nat \<Rightarrow> path \<Rightarrow> (field_number \<times> nat) list" where
  "run_stages i (SField f # rest) = (if rest = [] then [] else [(f, i + 1)])"
| "run_stages i (SAnyDepth d # rest) = run_stages (i + 1) rest"
| "run_stages i [] = []"

fun run_wilds :: "nat \<Rightarrow> path \<Rightarrow> (field_number list \<times> nat) list" where
  "run_wilds i (SAnyDepth d # rest) = (d, i) # run_wilds (i + 1) rest"
| "run_wilds i _ = []"

definition steps_of :: "'g paths_ops \<Rightarrow> nat \<Rightarrow> path" where
  "steps_of P i = the (p_path P i)"

definition gap_path :: "'g paths_ops \<Rightarrow> nat \<Rightarrow> bool" where
  "gap_path P i \<longleftrightarrow> p_laned P \<and> p_lane P i \<noteq> LTarget"

definition st_targets :: "'g paths_ops \<Rightarrow> state \<Rightarrow> (field_number \<times> nat) list" where
  "st_targets P st =
     (if gap_path P (fst st) then [] else map (\<lambda>f. (f, fst st)) (run_targets (drop (snd st) (steps_of P (fst st)))))"

definition st_gaps :: "'g paths_ops \<Rightarrow> state \<Rightarrow> (field_number \<times> nat \<times> lane) list" where
  "st_gaps P st =
     (if gap_path P (fst st)
      then map (\<lambda>f. (f, fst st, p_lane P (fst st))) (run_targets (drop (snd st) (steps_of P (fst st)))) else [])"

definition st_stages :: "'g paths_ops \<Rightarrow> state \<Rightarrow> (field_number \<times> state) list" where
  "st_stages P st = map (\<lambda>(f, j). (f, (fst st, j))) (run_stages (snd st) (drop (snd st) (steps_of P (fst st))))"

definition st_wilds :: "'g paths_ops \<Rightarrow> state \<Rightarrow> (field_number list \<times> state) list" where
  "st_wilds P st = map (\<lambda>(d, j). (d, (fst st, j))) (run_wilds (snd st) (drop (snd st) (steps_of P (fst st))))"

definition extend_by :: "'g paths_ops \<Rightarrow> state list \<Rightarrow> ('g, 'z) tables_scheme \<Rightarrow> ('g, 'z) tables_scheme" where
  "extend_by P sts tb =
     tb\<lparr>tb_targets := tb_targets tb @ concat (map (st_targets P) sts),
        tb_stages := tb_stages tb @ concat (map (st_stages P) sts),
        tb_wilds := tb_wilds tb @ concat (map (st_wilds P) sts),
        tb_gaps := push_all (p_gaps P) (tb_gaps tb) (concat (map (st_gaps P) sts))\<rparr>"

lemma push_all_append: "push_all ops g (xs @ ys) = push_all ops (push_all ops g xs) ys"
  by (simp add: push_all_def)

lemma extend_by_append: "extend_by P (xs @ ys) tb = extend_by P ys (extend_by P xs tb)"
  by (simp add: extend_by_def push_all_append)

lemma extend_by_Nil: "extend_by P [] tb = tb"
  by (simp add: extend_by_def push_all_def)

definition paths_valid :: "'g paths_ops \<Rightarrow> bool" where
  "paths_valid P \<longleftrightarrow> p_count P \<le> 65535 \<and>
     (\<forall>i < p_count P. p_path P i = Some (steps_of P i) \<and> length (steps_of P i) \<le> 65535 \<and>
        (path_shape (steps_of P i) \<or> p_laned P \<and> steps_of P i = []))"

definition state_ok :: "'g paths_ops \<Rightarrow> state \<Rightarrow> bool" where
  "state_ok P st \<longleftrightarrow> fst st < p_count P \<and>
     (snd st < length (steps_of P (fst st)) \<or> p_laned P \<and> steps_of P (fst st) = [])"

lemma flatten_loop_runs:
  assumes "i < length steps" "\<exists>f. last steps = SField f"
  shows "flatten_loop P steps pid i tb = Some
    (tb\<lparr>tb_targets := tb_targets tb @ (if gap_path P pid then [] else map (\<lambda>f. (f, pid)) (run_targets (drop i steps))),
        tb_stages := tb_stages tb @ map (\<lambda>(f, j). (f, (pid, j))) (run_stages i (drop i steps)),
        tb_wilds := tb_wilds tb @ map (\<lambda>(d, j). (d, (pid, j))) (run_wilds i (drop i steps)),
        tb_gaps := push_all (p_gaps P) (tb_gaps tb)
          (if gap_path P pid then map (\<lambda>f. (f, pid, p_lane P pid)) (run_targets (drop i steps)) else [])\<rparr>)"
  using assms
proof (induction "length steps - i" arbitrary: i tb)
  case (Suc n)
  have d: "drop i steps = steps ! i # drop (Suc i) steps" using Suc.prems by (simp add: Cons_nth_drop_Suc)
  show ?case
  proof (cases "steps ! i")
    case (SField f)
    then show ?thesis using Suc.prems d
      by (subst flatten_loop.simps) (auto simp: gap_path_def push_all_def)
  next
    case (SAnyDepth w)
    moreover have "last steps = steps ! (length steps - 1)" using Suc.prems(1) by (intro last_conv_nth) auto
    ultimately have "Suc i \<noteq> length steps" using Suc.prems(2) by (metis diff_Suc_1 segment.distinct(1))
    then have i: "Suc i < length steps" using Suc.prems by simp
    show ?thesis using Suc.prems SAnyDepth i Suc.hyps(1) [of "Suc i"] Suc.hyps(2) d
      by (subst flatten_loop.simps) simp
  qed
qed simp

lemma flatten_state_extend:
  assumes "paths_valid P" "state_ok P st"
  shows "flatten_state P st tb = Some (extend_by P [st] tb)"
proof -
  obtain pid seg where st: "st = (pid, seg)" by (cases st)
  have p: "p_path P pid = Some (steps_of P pid)" using assms by (simp add: paths_valid_def state_ok_def st)
  show ?thesis
  proof (cases "p_laned P \<and> steps_of P pid = []")
    case True
    with p show ?thesis
      by (simp add: st flatten_state_def extend_by_def st_targets_def st_stages_def
          st_wilds_def st_gaps_def push_all_def)
  next
    case False
    then have i: "seg < length (steps_of P pid)" and l: "\<exists>f. last (steps_of P pid) = SField f"
      using assms by (auto simp: paths_valid_def state_ok_def path_shape_def st)
    have "flatten_state P st tb = flatten_loop P (steps_of P pid) pid seg tb"
      using False p by (auto simp: st flatten_state_def)
    then show ?thesis unfolding flatten_loop_runs [OF i l]
      by (simp add: st extend_by_def st_targets_def st_stages_def st_wilds_def st_gaps_def)
  qed
qed

lemma flatten_all_extend:
  assumes "paths_valid P" "list_all (state_ok P) sts"
  shows "flatten_all P sts tb = Some (extend_by P sts tb)"
  using assms(2)
proof (induction sts arbitrary: tb)
  case (Cons st sts)
  then show ?case
    using extend_by_append [of P "[st]" sts tb] by (simp add: flatten_state_extend [OF assms(1)])
qed (simp add: extend_by_Nil)

lemma run_stages_bounds: "(f, j) \<in> set (run_stages i r) \<Longrightarrow> i < j \<and> j < i + length r"
  by (induction i r rule: run_stages.induct) (fastforce split: if_splits)+

lemma run_wilds_bounds: "(d, j) \<in> set (run_wilds i r) \<Longrightarrow> i \<le> j \<and> j < i + length r"
  by (induction i r rule: run_wilds.induct) fastforce+

lemma succ_ok:
  assumes "state_ok P st"
  shows "(f, st') \<in> set (st_stages P st) \<Longrightarrow> state_ok P st'"
    and "(d, st') \<in> set (st_wilds P st) \<Longrightarrow> state_ok P st'"
  using assms run_stages_bounds [of f _ "snd st"] run_wilds_bounds [of d _ "snd st"]
  by (fastforce simp: st_stages_def st_wilds_def state_ok_def)+

section \<open>The meaning of a path\<close>

text \<open>A path accepts a trail of fields: a field segment crosses that field, a wildcard run crosses any
  number of fields of its set, none included.\<close>

fun accepts :: "path \<Rightarrow> field_number list \<Rightarrow> bool" where
  "accepts [] t \<longleftrightarrow> t = []"
| "accepts (SField g # r) [] \<longleftrightarrow> False"
| "accepts (SField g # r) (f # t) \<longleftrightarrow> f = g \<and> accepts r t"
| "accepts (SAnyDepth d # r) [] \<longleftrightarrow> accepts r []"
| "accepts (SAnyDepth d # r) (f # t) \<longleftrightarrow>
     accepts r (f # t) \<or> f \<in> set d \<and> accepts (SAnyDepth d # r) t"

lemma accepts_Nil: "r \<noteq> [] \<Longrightarrow> last r = SField g \<Longrightarrow> \<not> accepts r []"
proof (induction r)
  case (Cons a r)
  then show ?case by (cases a) (auto split: if_splits)
qed simp

lemma accepts_target:
  "r \<noteq> [] \<Longrightarrow> last r = SField g \<Longrightarrow> accepts r [f] \<longleftrightarrow> f \<in> set (run_targets r)"
proof (induction r)
  case (Cons a r)
  show ?case
  proof (cases a)
    case (SField h)
    then show ?thesis using Cons.prems accepts_Nil [of r g] by (cases "r = []") auto
  next
    case (SAnyDepth d)
    then have "r \<noteq> []" "last r = SField g" using Cons.prems by (auto split: if_splits)
    with Cons.IH accepts_Nil [of r g] SAnyDepth show ?thesis by simp
  qed
qed simp

lemma accepts_step:
  assumes "drop i steps = r" "r \<noteq> []" "last r = SField g" "t \<noteq> []"
  shows "accepts r (f # t) \<longleftrightarrow>
    (\<exists>j. (f, j) \<in> set (run_stages i r) \<and> accepts (drop j steps) t) \<or>
    (\<exists>d j. (d, j) \<in> set (run_wilds i r) \<and> f \<in> set d \<and> accepts (drop j steps) t)"
  using assms
proof (induction r arbitrary: i)
  case (Cons a r)
  have d: "drop (Suc i) steps = r" using Cons.prems(1) by (metis drop_Suc list.sel(3) tl_drop)
  show ?case
  proof (cases a)
    case (SField h)
    with Cons.prems d show ?thesis by (cases t) auto
  next
    case (SAnyDepth w)
    then have "r \<noteq> []" "last r = SField g" using Cons.prems by (auto split: if_splits)
    with Cons.IH [OF d] Cons.prems(4) have IH: "accepts r (f # t) \<longleftrightarrow>
      (\<exists>j. (f, j) \<in> set (run_stages (Suc i) r) \<and> accepts (drop j steps) t) \<or>
      (\<exists>d j. (d, j) \<in> set (run_wilds (Suc i) r) \<and> f \<in> set d \<and> accepts (drop j steps) t)" by simp
    have "accepts (a # r) (f # t) \<longleftrightarrow> accepts r (f # t) \<or> f \<in> set w \<and> accepts (drop i steps) t"
      using SAnyDepth Cons.prems(1) by simp
    then show ?thesis unfolding IH using SAnyDepth by auto
  qed
qed simp

section \<open>The states of a layer\<close>

definition st_accepts :: "'g paths_ops \<Rightarrow> state \<Rightarrow> field_number list \<Rightarrow> bool" where
  "st_accepts P st u \<longleftrightarrow> accepts (drop (snd st) (steps_of P (fst st))) u"

definition root_states :: "'g paths_ops \<Rightarrow> state list" where
  "root_states P = map (\<lambda>i. (i, 0)) [0..<p_count P]"

definition raw_states :: "'g paths_ops \<Rightarrow> state list \<Rightarrow> field_number \<Rightarrow> state list" where
  "raw_states P S f =
     map snd (filter (\<lambda>(g, _). g = f) (concat (map (st_stages P) S))) @
     map snd (filter (\<lambda>(d, _). f \<in> set d) (concat (map (st_wilds P) S)))"

definition next_states :: "'g paths_ops \<Rightarrow> state list \<Rightarrow> field_number \<Rightarrow> state list" where
  "next_states P S f = remdups_adj (sort (raw_states P S f))"

definition states_at :: "'g paths_ops \<Rightarrow> field_number list \<Rightarrow> state list" where
  "states_at P t = foldl (next_states P) (root_states P) t"

lemma states_at_simps [simp]:
  "states_at P [] = root_states P" "states_at P (t @ [f]) = next_states P (states_at P t) f"
  by (simp_all add: states_at_def)

lemma set_next_states: "set (next_states P S f) = set (raw_states P S f)"
  by (simp add: next_states_def)

lemma raw_states_iff:
  "st' \<in> set (raw_states P S f) \<longleftrightarrow>
   (\<exists>st \<in> set S. (f, st') \<in> set (st_stages P st) \<or> (\<exists>d. (d, st') \<in> set (st_wilds P st) \<and> f \<in> set d))"
  by (force simp: raw_states_def)

lemma states_ok: "paths_valid P \<Longrightarrow> list_all (state_ok P) (states_at P t)"
proof (induction t rule: rev_induct)
  case Nil
  then show ?case by (auto simp: list_all_iff root_states_def state_ok_def paths_valid_def path_shape_def)
next
  case (snoc f t)
  then show ?case unfolding list_all_iff states_at_simps set_next_states
    using succ_ok unfolding Ball_def raw_states_iff by blast
qed

lemma suffix_shape:
  assumes "paths_valid P" "state_ok P st"
  shows "steps_of P (fst st) = [] \<or>
    drop (snd st) (steps_of P (fst st)) \<noteq> [] \<and> (\<exists>g. last (drop (snd st) (steps_of P (fst st))) = SField g)"
  using assms by (auto simp: paths_valid_def state_ok_def path_shape_def)

lemma st_accepts_step:
  assumes "paths_valid P" "state_ok P st" "u \<noteq> []"
  shows "st_accepts P st (f # u) \<longleftrightarrow>
    (\<exists>st'. ((f, st') \<in> set (st_stages P st) \<or> (\<exists>d. (d, st') \<in> set (st_wilds P st) \<and> f \<in> set d)) \<and>
       fst st' = fst st \<and> st_accepts P st' u)"
  using suffix_shape [OF assms(1,2)]
proof
  assume "steps_of P (fst st) = []"
  then show ?thesis by (auto simp: st_accepts_def st_stages_def st_wilds_def)
next
  assume "drop (snd st) (steps_of P (fst st)) \<noteq> [] \<and> (\<exists>g. last (drop (snd st) (steps_of P (fst st))) = SField g)"
  then obtain g where "drop (snd st) (steps_of P (fst st)) \<noteq> []" "last (drop (snd st) (steps_of P (fst st))) = SField g"
    by blast
  from accepts_step [OF refl this assms(3), of f]
  show ?thesis by (force simp: st_accepts_def st_stages_def st_wilds_def)
qed

lemma st_accepts_target:
  assumes "paths_valid P" "state_ok P st"
  shows "st_accepts P st [f] \<longleftrightarrow> f \<in> set (run_targets (drop (snd st) (steps_of P (fst st))))"
  using suffix_shape [OF assms]
proof
  assume "steps_of P (fst st) = []"
  then show ?thesis by (simp add: st_accepts_def)
next
  assume "drop (snd st) (steps_of P (fst st)) \<noteq> [] \<and> (\<exists>g. last (drop (snd st) (steps_of P (fst st))) = SField g)"
  then show ?thesis using accepts_target by (auto simp: st_accepts_def)
qed

text \<open>The states of the layer below a trail accept exactly what the paths accept after it.\<close>

lemma states_at_accepts:
  assumes "paths_valid P" "u \<noteq> []"
  shows "(\<exists>st \<in> set (states_at P t). fst st = i \<and> st_accepts P st u) \<longleftrightarrow>
    i < p_count P \<and> accepts (steps_of P i) (t @ u)"
  using assms(2)
proof (induction t arbitrary: u rule: rev_induct)
  case Nil
  then show ?case by (auto simp: root_states_def st_accepts_def)
next
  case (snoc f t)
  have ok: "\<And>st. st \<in> set (states_at P t) \<Longrightarrow> state_ok P st"
    using states_ok [OF assms(1), of t] by (simp add: list_all_iff)
  have "(\<exists>st \<in> set (states_at P (t @ [f])). fst st = i \<and> st_accepts P st u) \<longleftrightarrow>
      (\<exists>st \<in> set (states_at P t). fst st = i \<and> st_accepts P st (f # u))" (is "?L \<longleftrightarrow> ?R")
  proof
    assume ?L
    then obtain st' where "st' \<in> set (raw_states P (states_at P t) f)" and st': "fst st' = i" "st_accepts P st' u"
      unfolding states_at_simps set_next_states by blast
    then obtain st where st: "st \<in> set (states_at P t)" "fst st' = i" "st_accepts P st' u"
      and s: "(f, st') \<in> set (st_stages P st) \<or> (\<exists>d. (d, st') \<in> set (st_wilds P st) \<and> f \<in> set d)"
      unfolding raw_states_iff by blast
    have "fst st' = fst st" using s by (auto simp: st_stages_def st_wilds_def)
    with st s st_accepts_step [OF assms(1) ok [OF st(1)] snoc.prems] show ?R by metis
  next
    assume ?R
    then obtain st where st: "st \<in> set (states_at P t)" "fst st = i" "st_accepts P st (f # u)" by blast
    with st_accepts_step [OF assms(1) ok [OF st(1)] snoc.prems] show ?L
      unfolding states_at_simps set_next_states Bex_def raw_states_iff by metis
  qed
  with snoc.IH [of "f # u"] show ?case by simp
qed

text \<open>A layer's target table: the fields and paths that end here.\<close>

lemma layer_targets:
  assumes "paths_valid P"
  shows "(f, i) \<in> set (concat (map (st_targets P) (states_at P t))) \<longleftrightarrow>
    i < p_count P \<and> \<not> gap_path P i \<and> accepts (steps_of P i) (t @ [f])"
proof -
  have ok: "\<And>st. st \<in> set (states_at P t) \<Longrightarrow> state_ok P st"
    using states_ok [OF assms, of t] by (simp add: list_all_iff)
  have "(f, i) \<in> set (concat (map (st_targets P) (states_at P t))) \<longleftrightarrow>
      \<not> gap_path P i \<and> (\<exists>st \<in> set (states_at P t). fst st = i \<and> st_accepts P st [f])"
    using st_accepts_target [OF assms ok] by (auto simp: st_targets_def split: if_splits)
  then show ?thesis using states_at_accepts [OF assms, of "[f]" t i] by auto
qed

section \<open>The tables of a layer\<close>

definition at_layer :: "'g paths_ops \<Rightarrow> state list \<Rightarrow> 'g matcher \<Rightarrow> bool" where
  "at_layer P S m \<longleftrightarrow>
     tail_from (tb_targets m) (mk_targets (m_layer m)) = Some (concat (map (st_targets P) S)) \<and>
     tail_from (tb_stages m) (mk_stages (m_layer m)) = Some (concat (map (st_stages P) S)) \<and>
     tail_from (tb_wilds m) (mk_wilds (m_layer m)) = Some (concat (map (st_wilds P) S))"

lemma extend_by_fields [simp]:
  "tb_targets (extend_by P S tb) = tb_targets tb @ concat (map (st_targets P) S)"
  "tb_stages (extend_by P S tb) = tb_stages tb @ concat (map (st_stages P) S)"
  "tb_wilds (extend_by P S tb) = tb_wilds tb @ concat (map (st_wilds P) S)"
  "tb_gaps (extend_by P S tb) = push_all (p_gaps P) (tb_gaps tb) (concat (map (st_gaps P) S))"
  by (simp_all add: extend_by_def)

lemma extend_by_more [simp]:
  "m_layer (extend_by P S m) = m_layer m" "m_levels (extend_by P S m) = m_levels m"
  "m_staged (extend_by P S m) = m_staged m"
  by (simp_all add: extend_by_def)

lemma tail_from_append: "tail_from (xs @ ys) (length xs) = Some ys"
  by (simp add: tail_from_def)

text \<open>The layer below \<open>m\<close> through \<open>field\<close>, as the two operations of a descent build it.\<close>

definition below :: "'g paths_ops \<Rightarrow> 'g matcher \<Rightarrow> state list \<Rightarrow> 'g matcher" where
  "below P m S =
     extend_by P S
       (m\<lparr>m_staged := S, m_levels := m_layer m # m_levels m,
          m_layer := \<lparr>mk_targets = length (tb_targets m), mk_stages = length (tb_stages m),
                      mk_wilds = length (tb_wilds m)\<rparr>,
          tb_gaps := gap_enter (p_gaps P) (tb_gaps m)\<rparr>)"

lemma at_layer_below: "at_layer P S (below P m S)"
  by (simp add: at_layer_def below_def tail_from_append)

lemma probe_routes_layer:
  assumes "at_layer P S m"
  shows "probe_routes m f = Some (raw_states P S f \<noteq> [], m\<lparr>m_staged := raw_states P S f\<rparr>)"
  using assms by (simp add: probe_routes_def at_layer_def raw_states_def Let_def)

lemma commit_layer:
  assumes "paths_valid P" "list_all (state_ok P) (m_staged m)"
  shows "commit_descent P m = Some (below P m (remdups_adj (sort (m_staged m))))"
proof -
  have "list_all (state_ok P) (remdups_adj (sort (m_staged m)))" using assms(2) by (simp add: list_all_iff)
  from flatten_all_extend [OF assms(1) this] show ?thesis
    by (simp add: commit_descent_def below_def Let_def)
qed

lemma new_layer:
  assumes "paths_valid P"
  obtains m where "matcher_new P = Some m" "at_layer P (root_states P) m" "m_levels m = []"
    "tb_gaps m = gap_set_any (p_gaps P) (push_all (p_gaps P) (gap_default (p_gaps P))
        (concat (map (st_gaps P) (root_states P)))) (\<exists>i < p_count P. gap_path P i)"
proof -
  have "list_all (state_ok P) (root_states P)" using states_ok [OF assms, of "[]"] by simp
  note fl = flatten_all_extend [OF assms this]
  have g: "(p_laned P \<and> (\<exists>i < p_count P. p_lane P i \<noteq> LTarget)) = (\<exists>i < p_count P. p_laned P \<and> p_lane P i \<noteq> LTarget)"
    by blast
  show ?thesis
    by (intro that [of "the (matcher_new P)"])
      (simp_all add: matcher_new_def root_states_def [symmetric] at_layer_def tail_from_def Bex_def fl g
        gap_path_def atLeast0LessThan Let_def)
qed

section \<open>Walking with a matcher\<close>

text \<open>What a walker does: from a new matcher it probes, descends through a field whose routes it has
  just probed (an inert group may be entered unrouted, as an empty layer), and leaves the containers it
  entered. The trail is the fields it is below.\<close>

inductive walker :: "'g paths_ops \<Rightarrow> 'g matcher \<Rightarrow> field_number list \<Rightarrow> bool" for P where
  walker_new: "matcher_new P = Some m \<Longrightarrow> walker P m []"
| walker_probe: "walker P m t \<Longrightarrow> probe_routes m f = Some (routed, m') \<Longrightarrow> walker P m' t"
| walker_enter: "walker P m t \<Longrightarrow> probe_routes m f = Some (routed, m1) \<Longrightarrow>
    commit_descent P m1 = Some m2 \<Longrightarrow> walker P m2 (t @ [f])"
| walker_leave: "walker P m (t @ [f]) \<Longrightarrow> matcher_exit P m = Some m' \<Longrightarrow> walker P m' t"

inductive_cases walker_nil_cases: "walker P m []"

text \<open>The matcher of a trail, \<open>staged\<close> forgotten: the scratch list is dead between operations.\<close>

definition unstaged :: "'g matcher \<Rightarrow> 'g matcher" where
  "unstaged m = m\<lparr>m_staged := []\<rparr>"

definition root_matcher :: "'g paths_ops \<Rightarrow> 'g matcher" where
  "root_matcher P = unstaged (the (matcher_new P))"

fun matcher_on :: "'g paths_ops \<Rightarrow> field_number list \<Rightarrow> 'g matcher" where
  "matcher_on P [] = root_matcher P"
| "matcher_on P (f # rt) = unstaged (below P (matcher_on P rt) (states_at P (rev (f # rt))))"

lemma unstaged_layer [simp]: "at_layer P S (unstaged m) = at_layer P S m"
  by (simp add: at_layer_def unstaged_def)

lemma matcher_on_layer:
  assumes "paths_valid P"
  shows "at_layer P (states_at P (rev rt)) (matcher_on P rt)"
proof (cases rt)
  case Nil
  obtain m where "matcher_new P = Some m" "at_layer P (root_states P) m" using new_layer [OF assms] by metis
  with Nil show ?thesis by (simp add: root_matcher_def)
next
  case (Cons f rt')
  then show ?thesis using at_layer_below [of P "states_at P (rev rt)"] by simp
qed

lemma below_unstaged: "unstaged (below P m S) = unstaged (below P (unstaged m) S)"
  by (simp add: below_def unstaged_def extend_by_def)

lemma below_staged: "unstaged (below P (m\<lparr>m_staged := x\<rparr>) S) = unstaged (below P m S)"
  by (simp add: below_def unstaged_def extend_by_def)

lemma probe_unstaged: "probe_routes m f = Some (routed, m') \<Longrightarrow> unstaged m' = unstaged m"
  by (auto simp: probe_routes_def unstaged_def Let_def split: bind_splits)

lemma exit_unstaged_eq: "map_option unstaged (matcher_exit P m) = map_option unstaged (matcher_exit P (unstaged m))"
  by (auto simp: matcher_exit_def unstaged_def Let_def split: list.split bind_split)

lemma exit_unstaged:
  "unstaged m = unstaged n \<Longrightarrow> map_option unstaged (matcher_exit P m) = map_option unstaged (matcher_exit P n)"
  using exit_unstaged_eq by metis

context gap_store
begin

lemma exit_below:
  assumes "p_gaps P = ops" and "concat (map (st_gaps P) S) = [] \<or> armed (tb_gaps m)"
  shows "matcher_exit P (below P m S) = Some (m\<lparr>m_staged := S\<rparr>)"
proof -
  have "gap_exit ops (push_all ops (gap_enter ops (tb_gaps m)) (concat (map (st_gaps P) S))) = Some (tb_gaps m)"
    using assms(2) by (intro exit_restores) auto
  with assms(1) show ?thesis by (simp add: matcher_exit_def below_def Let_def extend_by_def)
qed

lemma matcher_on_armed:
  assumes "paths_valid P" "p_gaps P = ops" "\<exists>i < p_count P. gap_path P i"
  shows "armed (tb_gaps (matcher_on P rt))"
proof (induction rt)
  case Nil
  show ?case
  proof (rule new_layer [OF assms(1)])
    fix m
    assume "matcher_new P = Some m" "tb_gaps m = gap_set_any (p_gaps P) (push_all (p_gaps P) (gap_default (p_gaps P))
        (concat (map (st_gaps P) (root_states P)))) (\<exists>i < p_count P. gap_path P i)"
    with assms(2,3) show "armed (tb_gaps (matcher_on P []))"
      by (simp add: root_matcher_def unstaged_def set_any_armed)
  qed
next
  case (Cons f rt)
  then show ?case using assms(2) by (simp add: unstaged_def below_def push_all_armed enter_armed)
qed

lemma no_gaps:
  assumes "\<not> (\<exists>i < p_count P. gap_path P i)" "list_all (state_ok P) S"
  shows "concat (map (st_gaps P) S) = []"
  using assms by (auto simp: st_gaps_def state_ok_def list_all_iff)

text \<open>Whatever a walker did, its matcher is the matcher of its trail.\<close>

lemma walker_on:
  assumes P: "paths_valid P" "p_gaps P = ops" and w: "walker P m t"
  shows "unstaged m = matcher_on P (rev t)"
  using w
proof (induction rule: walker.induct)
  case (walker_new m)
  then show ?case by (simp add: root_matcher_def)
next
  case (walker_probe m t f routed m')
  then show ?case using probe_unstaged by metis
next
  case (walker_enter m t f routed m1 m2)
  let ?S = "states_at P t"
  have "at_layer P ?S m" using matcher_on_layer [OF P(1), of "rev t"] walker_enter.IH
    by (metis rev_rev_ident unstaged_layer)
  from probe_routes_layer [OF this, of f] walker_enter.hyps
  have m1: "m1 = m\<lparr>m_staged := raw_states P ?S f\<rparr>" by simp
  have "list_all (state_ok P) (raw_states P ?S f)"
    using states_ok [OF P(1), of "t @ [f]"] by (simp add: list_all_iff set_next_states)
  with commit_layer [OF P(1), of m1] walker_enter.hyps m1
  have "m2 = below P m1 (next_states P ?S f)" by (simp add: next_states_def)
  then have "unstaged m2 = unstaged (below P m (next_states P ?S f))" by (simp add: m1 below_staged)
  also have "\<dots> = unstaged (below P (matcher_on P (rev t)) (states_at P (t @ [f])))"
    unfolding below_unstaged [of P m] walker_enter.IH by simp
  finally show ?case by simp
next
  case (walker_leave m t f m')
  let ?S = "states_at P (t @ [f])"
  have m: "unstaged m = unstaged (below P (matcher_on P (rev t)) ?S)" using walker_leave.IH by simp
  have "concat (map (st_gaps P) ?S) = [] \<or> armed (tb_gaps (matcher_on P (rev t)))"
    using no_gaps [OF _ states_ok [OF P(1)]] matcher_on_armed [OF P] by blast
  from exit_below [OF P(2) this]
  have "map_option unstaged (matcher_exit P (below P (matcher_on P (rev t)) ?S)) =
      Some (unstaged (matcher_on P (rev t)))"
    by (simp add: unstaged_def)
  moreover have "map_option unstaged (matcher_exit P m) =
      map_option unstaged (matcher_exit P (below P (matcher_on P (rev t)) ?S))"
    using m by (rule exit_unstaged)
  moreover have "unstaged (matcher_on P (rev t)) = matcher_on P (rev t)"
    by (cases "rev t") (simp_all add: unstaged_def root_matcher_def)
  ultimately have "map_option unstaged (matcher_exit P m) = Some (matcher_on P (rev t))" by metis
  then show ?case using walker_leave.hyps by simp
qed

end

section \<open>What the probes answer\<close>

definition hit_ids :: "field_number \<Rightarrow> (field_number \<times> nat) list \<Rightarrow> nat list" where
  "hit_ids f ts = map snd (filter (\<lambda>(g, _). g = f) ts)"

lemma hit_ids_simps [simp]:
  "hit_ids f [] = []" "hit_ids f ((g, i) # ts) = (if g = f then i # hit_ids f ts else hit_ids f ts)"
  by (simp_all add: hit_ids_def)

lemma set_hit_ids: "set (hit_ids f ts) = {i. (f, i) \<in> set ts}"
  by (force simp: hit_ids_def)

lemma target_loop_Some:
  "target_loop f (Some i) ts =
     (case filter (\<lambda>j. j \<noteq> i) (hit_ids f ts) of [] \<Rightarrow> HitsOne i | j # _ \<Rightarrow> HitsConflict i j)"
  by (induction ts) auto

lemma target_loop_None:
  "target_loop f None ts =
     (case hit_ids f ts of [] \<Rightarrow> HitsNone
      | i # is \<Rightarrow> (case filter (\<lambda>j. j \<noteq> i) is of [] \<Rightarrow> HitsOne i | j # _ \<Rightarrow> HitsConflict i j))"
  by (induction ts) (auto simp: target_loop_Some)

lemma target_loop_iff:
  "target_loop f None ts = HitsNone \<longleftrightarrow> set (hit_ids f ts) = {}"
  "target_loop f None ts = HitsOne i \<longleftrightarrow> set (hit_ids f ts) = {i}"
  "target_loop f None ts = HitsConflict a b \<Longrightarrow> a \<noteq> b \<and> a \<in> set (hit_ids f ts) \<and> b \<in> set (hit_ids f ts)"
proof -
  let ?xs = "hit_ids f ts"
  show "target_loop f None ts = HitsNone \<longleftrightarrow> set ?xs = {}"
    by (simp add: target_loop_None split: list.split)
  show "target_loop f None ts = HitsOne i \<longleftrightarrow> set ?xs = {i}"
  proof (cases ?xs)
    case (Cons j js)
    then show ?thesis
      by (cases "filter (\<lambda>k. k \<noteq> j) js") (auto simp: target_loop_None filter_empty_conv dest: filter_eq_ConsD)
  qed (simp add: target_loop_None)
  show "target_loop f None ts = HitsConflict a b \<Longrightarrow> a \<noteq> b \<and> a \<in> set ?xs \<and> b \<in> set ?xs"
  proof (cases ?xs)
    case (Cons j js)
    assume "target_loop f None ts = HitsConflict a b"
    with Cons have "a = j" and "\<exists>ks. filter (\<lambda>k. k \<noteq> j) js = b # ks"
      by (auto simp: target_loop_None split: list.splits)
    then have "b \<in> set (filter (\<lambda>k. k \<noteq> j) js)" by (metis list.set_intros(1))
    with Cons \<open>a = j\<close> show ?thesis by auto
  qed (simp add: target_loop_None)
qed

lemma visit_loop_Some: "visit_targets_loop f (Some i) ts = tl (remdups_adj (i # hit_ids f ts))"
  by (induction ts arbitrary: i) auto

lemma visit_loop_None: "visit_targets_loop f None ts = remdups_adj (hit_ids f ts)"
proof (induction ts)
  case (Cons t ts)
  obtain g i where t: "t = (g, i)" by (cases t)
  have "i # tl (remdups_adj (i # xs)) = remdups_adj (i # xs)" for xs :: "nat list"
    by (cases xs) (auto simp: remdups_adj_Cons split: list.split)
  with Cons t show ?case by (simp add: visit_loop_Some)
qed simp

text \<open>Layers are sorted, so paths come up in order and once.\<close>

lemma sorted_states: "sorted (states_at P t)"
proof (cases t rule: rev_cases)
  case Nil
  have "sorted_wrt (\<le>) (map (\<lambda>i. (i, 0 :: nat)) [0..<n])" for n
    unfolding sorted_wrt_map by (rule sorted_wrt_mono_rel [OF _ sorted_wrt_upt]) auto
  with Nil show ?thesis by (simp add: root_states_def)
next
  case (snoc t' f)
  then show ?thesis by (simp add: next_states_def)
qed

lemma run_targets_length: "length (run_targets r) \<le> 1"
  by (induction r rule: run_targets.induct) auto

lemma sorted_targets: "sorted (hit_ids f (concat (map (st_targets P) S)))" if "sorted S"
  using that
proof (induction S)
  case (Cons st S)
  have "hit_ids f (xs @ ys) = hit_ids f xs @ hit_ids f ys" for xs ys by (simp add: hit_ids_def)
  moreover have "sorted (hit_ids f (st_targets P st))"
    using run_targets_length [of "drop (snd st) (steps_of P (fst st))"]
    by (cases "run_targets (drop (snd st) (steps_of P (fst st)))") (auto simp: st_targets_def)
  moreover have "i = fst st" if "i \<in> set (hit_ids f (st_targets P st))" for i
    using that by (auto simp: set_hit_ids st_targets_def split: if_splits)
  moreover have "fst st \<le> i" if "i \<in> set (hit_ids f (concat (map (st_targets P) S)))" for i
  proof -
    from that obtain st' where "st' \<in> set S" "i = fst st'"
      by (auto simp: set_hit_ids st_targets_def split: if_splits)
    with Cons.prems show ?thesis by (auto simp: less_eq_prod_def)
  qed
  ultimately show ?case using Cons by (auto simp: sorted_append)
qed simp

lemma strict_remdups: "sorted xs \<Longrightarrow> sorted_wrt (<) (remdups_adj (xs :: nat list))"
proof (induction xs rule: remdups_adj.induct)
  case (3 x y xs)
  show ?case
  proof (cases "x = y")
    case False
    with 3 have "\<forall>z \<in> set (remdups_adj (y # xs)). x < z" by fastforce
    with 3 False show ?thesis by simp
  qed (use 3 in simp)
qed simp_all

lemma accepts_some: "r \<noteq> [] \<Longrightarrow> last r = SField g \<Longrightarrow> \<exists>u. u \<noteq> [] \<and> accepts r u"
proof (induction r)
  case (Cons a r)
  show ?case
  proof (cases a)
    case (SField h)
    show ?thesis
    proof (cases "r = []")
      case True
      with SField show ?thesis by (intro exI [of _ "[h]"]) simp
    next
      case False
      with Cons obtain u where "accepts r u" by auto
      with SField show ?thesis by (intro exI [of _ "h # u"]) simp
    qed
  next
    case (SAnyDepth d)
    then have "r \<noteq> []" "last r = SField g" using Cons.prems by (auto split: if_splits)
    with Cons.IH obtain u where "u \<noteq> []" "accepts r u" by blast
    with SAnyDepth show ?thesis by (cases u) auto
  qed
qed simp

text \<open>A field routes exactly when some record below it can still be selected.\<close>

lemma routed_iff:
  assumes "paths_valid P"
  shows "raw_states P (states_at P t) f \<noteq> [] \<longleftrightarrow>
    (\<exists>i < p_count P. \<exists>u. u \<noteq> [] \<and> accepts (steps_of P i) (t @ f # u))"
proof
  assume "raw_states P (states_at P t) f \<noteq> []"
  then obtain st where st: "st \<in> set (states_at P (t @ [f]))"
    by (metis ex_in_conv set_empty2 set_next_states states_at_simps(2))
  then have ok: "state_ok P st" using states_ok [OF assms, of "t @ [f]"] by (simp only: list_all_iff)
  have ne: "steps_of P (fst st) \<noteq> []"
  proof
    assume "steps_of P (fst st) = []"
    moreover from st obtain st' where "(f, st) \<in> set (st_stages P st') \<or> (\<exists>d. (d, st) \<in> set (st_wilds P st'))"
      unfolding states_at_simps set_next_states raw_states_iff by blast
    ultimately show False by (auto simp: st_stages_def st_wilds_def)
  qed
  with suffix_shape [OF assms ok] obtain u where "u \<noteq> []" "st_accepts P st u"
    using accepts_some by (metis st_accepts_def)
  with states_at_accepts [OF assms, of u "t @ [f]" "fst st"] st
  show "\<exists>i < p_count P. \<exists>u. u \<noteq> [] \<and> accepts (steps_of P i) (t @ f # u)" by auto
next
  assume "\<exists>i < p_count P. \<exists>u. u \<noteq> [] \<and> accepts (steps_of P i) (t @ f # u)"
  then obtain i u where "i < p_count P" "u \<noteq> []" "accepts (steps_of P i) (t @ f # u)" by blast
  with states_at_accepts [OF assms, of u "t @ [f]" i] obtain st where "st \<in> set (states_at P (t @ [f]))" by auto
  then show "raw_states P (states_at P t) f \<noteq> []"
    by (metis empty_iff empty_set set_next_states states_at_simps(2))
qed

context gap_store
begin

lemma walker_layer:
  assumes "paths_valid P" "p_gaps P = ops" "walker P m t"
  shows "at_layer P (states_at P t) m"
  using matcher_on_layer [OF assms(1), of "rev t"] walker_on [OF assms]
  by (metis rev_rev_ident unstaged_layer)

lemma walker_exit:
  assumes P: "paths_valid P" "p_gaps P = ops" and w: "walker P m (t @ [f])"
  shows "\<exists>m'. matcher_exit P m = Some m' \<and> unstaged m' = matcher_on P (rev t)"
proof -
  let ?S = "states_at P (t @ [f])"
  have m: "unstaged m = unstaged (below P (matcher_on P (rev t)) ?S)" using walker_on [OF P w] by simp
  have "concat (map (st_gaps P) ?S) = [] \<or> armed (tb_gaps (matcher_on P (rev t)))"
    using no_gaps [OF _ states_ok [OF P(1)]] matcher_on_armed [OF P] by blast
  from exit_below [OF P(2) this] exit_unstaged [OF m, of P]
  have "map_option unstaged (matcher_exit P m) \<noteq> None" by auto
  then obtain m' where m': "matcher_exit P m = Some m'" by auto
  from walker_on [OF P walker_leave [OF w m']] m' show ?thesis by blast
qed

lemma walker_commit:
  assumes P: "paths_valid P" "p_gaps P = ops" and w: "walker P m t"
    and p: "probe_routes m f = Some (r, m1)"
  shows "\<exists>m2. commit_descent P m1 = Some m2"
proof -
  from probe_routes_layer [OF walker_layer [OF P w], of f] p
  have "m_staged m1 = raw_states P (states_at P t) f" by auto
  moreover have "list_all (state_ok P) (raw_states P (states_at P t) f)"
    using states_ok [OF P(1), of "t @ [f]"] by (simp add: list_all_iff set_next_states)
  ultimately show ?thesis using commit_layer [OF P(1), of m1] by simp
qed

end

section \<open>The matcher of a program\<close>

lemma program_valid:
  assumes "program_over ps = Inr g"
  shows "paths_valid (program_ops g)" "p_gaps (program_ops g) = unit_gaps" "p_count (program_ops g) = length ps"
    "i < length ps \<Longrightarrow> steps_of (program_ops g) i = ps ! i" "\<not> gap_path (program_ops g) i"
  using assms
  by (auto simp: program_over_Inr paths_valid_def program_ops_def steps_of_def list_all_length gap_path_def)

lemma program_targets:
  assumes "program_over ps = Inr g" "walker (program_ops g) m t"
  obtains ts where "tail_from (tb_targets m) (mk_targets (m_layer m)) = Some ts"
    "set (hit_ids f ts) = {i. i < length ps \<and> accepts (ps ! i) (t @ [f])}" "sorted (hit_ids f ts)"
proof -
  note v = program_valid [OF assms(1)]
  let ?ts = "concat (map (st_targets (program_ops g)) (states_at (program_ops g) t))"
  have "tail_from (tb_targets m) (mk_targets (m_layer m)) = Some ?ts"
    using unit_store.walker_layer [OF v(1,2) assms(2)] by (simp add: at_layer_def)
  moreover have "set (hit_ids f ?ts) = {i. i < length ps \<and> accepts (ps ! i) (t @ [f])}"
    unfolding set_hit_ids layer_targets [OF v(1)] using v(3-5) by auto
  moreover have "sorted (hit_ids f ?ts)" by (rule sorted_targets [OF sorted_states])
  ultimately show ?thesis by (rule that)
qed

lemma program_routed:
  assumes "program_over ps = Inr g"
  shows "raw_states (program_ops g) (states_at (program_ops g) t) f \<noteq> [] \<longleftrightarrow>
    (\<exists>i < length ps. \<exists>u. u \<noteq> [] \<and> accepts (ps ! i) (t @ f # u))"
  unfolding routed_iff [OF program_valid(1) [OF assms]]
  by (simp add: program_valid(3,4) [OF assms] cong: conj_cong)

lemma walker_visits:
  assumes "program_over ps = Inr g" "walker (program_ops g) m t"
  shows "visit_targets m f = Some (sorted_list_of_set {i. i < length ps \<and> accepts (ps ! i) (t @ [f])})"
proof (rule program_targets [OF assms, of f])
  fix ts
  assume ts: "tail_from (tb_targets m) (mk_targets (m_layer m)) = Some ts"
    "set (hit_ids f ts) = {i. i < length ps \<and> accepts (ps ! i) (t @ [f])}" "sorted (hit_ids f ts)"
  from strict_remdups [OF ts(3)] have "sorted (remdups_adj (hit_ids f ts))" "distinct (remdups_adj (hit_ids f ts))"
    by (simp_all add: strict_sorted_iff)
  then have "sorted_list_of_set (set (remdups_adj (hit_ids f ts))) = remdups_adj (hit_ids f ts)"
    by (rule sorted_list_of_set.idem_if_sorted_distinct)
  with ts show ?thesis by (simp add: visit_targets_def visit_loop_None)
qed

lemma walker_routes:
  assumes "program_over ps = Inr g" "walker (program_ops g) m t"
  shows "\<exists>m1. probe_routes m f = Some (\<exists>i < length ps. \<exists>u. u \<noteq> [] \<and> accepts (ps ! i) (t @ f # u), m1) \<and>
    (\<exists>m2. commit_descent (program_ops g) m1 = Some m2)"
proof -
  note v = program_valid [OF assms(1)]
  from probe_routes_layer [OF unit_store.walker_layer [OF v(1,2) assms(2)], of f]
  obtain m1 where m1: "probe_routes m f = Some (raw_states (program_ops g) (states_at (program_ops g) t) f \<noteq> [], m1)"
    by blast
  with m1 show ?thesis using unit_store.walker_commit [OF v(1,2) assms(2) m1]
    program_routed [OF assms(1), of t f] by auto
qed

lemma walker_exits:
  assumes "program_over ps = Inr g" "walker (program_ops g) m (t @ [f])"
  obtains m' where "matcher_exit (program_ops g) m = Some m'" "walker (program_ops g) m' t"
  using unit_store.walker_exit [OF program_valid(1,2) [OF assms(1)] assms(2)] walker_leave [OF assms(2)] by blast

section \<open>Properties\<close>

text \<open>C28: The matcher decides selection. For an admitted program, whatever a walker probed, entered and
  left, the probe of a field below its trail answers no hit exactly when no path accepts the trail extended
  by the field, one hit \<open>i\<close> exactly when path \<open>i\<close> alone does, and a conflict otherwise, naming
  two different paths that both do.\<close>

theorem matcher_selects:
  assumes "program_over ps = Inr g" "walker (program_ops g) m t"
  shows "\<exists>h. probe_target m f = Some h \<and>
    (h = HitsNone \<longleftrightarrow> (\<forall>i < length ps. \<not> accepts (ps ! i) (t @ [f]))) \<and>
    (\<forall>i. h = HitsOne i \<longleftrightarrow> {i. i < length ps \<and> accepts (ps ! i) (t @ [f])} = {i}) \<and>
    (\<forall>a b. h = HitsConflict a b \<longrightarrow> a \<noteq> b \<and>
       a < length ps \<and> accepts (ps ! a) (t @ [f]) \<and> b < length ps \<and> accepts (ps ! b) (t @ [f]))"
proof (rule program_targets [OF assms, of f])
  fix ts
  assume ts: "tail_from (tb_targets m) (mk_targets (m_layer m)) = Some ts"
    "set (hit_ids f ts) = {i. i < length ps \<and> accepts (ps ! i) (t @ [f])}"
  from target_loop_iff(1) [of f ts] target_loop_iff(2) [of f ts] target_loop_iff(3) [of f ts] ts
  show ?thesis by (simp add: probe_target_def)
qed

text \<open>The visit of a field's targets hands out each path that accepts it, in ascending order and
  once, although several states of the layer may stand for one path.\<close>

theorem matcher_visits:
  assumes "program_over ps = Inr g" "walker (program_ops g) m t"
  shows "visit_targets m f = Some (sorted_list_of_set {i. i < length ps \<and> accepts (ps ! i) (t @ [f])})"
  by (rule walker_visits [OF assms])

text \<open>C33: Routing prunes exactly. The route probe of a field returns, and answers true exactly when some
  path accepts a record strictly below the field; a container it answers false for may be skipped whole, and
  the descent through a probed field returns.\<close>

theorem matcher_routes:
  assumes "program_over ps = Inr g" "walker (program_ops g) m t"
  shows "\<exists>m1. probe_routes m f = Some (\<exists>i < length ps. \<exists>u. u \<noteq> [] \<and> accepts (ps ! i) (t @ f # u), m1) \<and>
    (\<exists>m2. commit_descent (program_ops g) m1 = Some m2)"
  by (rule walker_routes [OF assms])

text \<open>C34: Leaving is the inverse of entering. Below a container the exit returns, and the matcher it
  leaves is, its scratch list apart, the matcher any walk to the enclosing trail has.\<close>

theorem matcher_leaves:
  assumes "program_over ps = Inr g" "walker (program_ops g) m (t @ [f])" "walker (program_ops g) m0 t"
  shows "\<exists>m'. matcher_exit (program_ops g) m = Some m' \<and> m'\<lparr>m_staged := []\<rparr> = m0\<lparr>m_staged := []\<rparr>"
  using unit_store.walker_exit [OF program_valid(1,2) [OF assms(1)] assms(2)]
    unit_store.walker_on [OF program_valid(1,2) [OF assms(1)] assms(3)] by (simp add: unstaged_def)

text \<open>A walk to instantiate them at: the program of two paths below, entered through field 1.\<close>

definition demo_paths :: "path list" where
  "demo_paths = [[SField 1, SField 2], [SAnyDepth [1, 3], SField 2]]"

lemma demo_admitted: "program_over demo_paths = Inr \<lparr>program_paths = demo_paths\<rparr>"
  unfolding program_over_Inr by (simp add: demo_paths_def path_shape_def)

lemma demo_root: "\<exists>m. walker (program_ops \<lparr>program_paths = demo_paths\<rparr>) m []"
  by (rule exI, rule walker_new) code_simp

lemma demo_walk:
  "\<exists>m. walker (program_ops \<lparr>program_paths = demo_paths\<rparr>) m [1]"
proof -
  obtain m where m: "walker (program_ops \<lparr>program_paths = demo_paths\<rparr>) m []" using demo_root ..
  have "\<exists>i < length demo_paths. \<exists>u. u \<noteq> [] \<and> accepts (demo_paths ! i) ([] @ 1 # u)"
    by (intro exI [of _ 0] conjI exI [of _ "[2]"]) (simp_all add: demo_paths_def)
  then have "raw_states (program_ops \<lparr>program_paths = demo_paths\<rparr>) (states_at (program_ops \<lparr>program_paths = demo_paths\<rparr>) []) 1 \<noteq> []"
    unfolding program_routed [OF demo_admitted] .
  note v = program_valid [OF demo_admitted]
  from \<open>raw_states _ _ 1 \<noteq> []\<close> probe_routes_layer [OF unit_store.walker_layer [OF v(1,2) m], of 1]
  obtain m1 where m1: "probe_routes m 1 = Some (True, m1)" by auto
  from unit_store.walker_commit [OF v(1,2) m this]
  obtain m2 where "commit_descent (program_ops \<lparr>program_paths = demo_paths\<rparr>) m1 = Some m2" ..
  from walker_enter [OF m m1 this] show ?thesis by auto
qed

lemma matcher_selects_witness:
  "\<exists>m a b. walker (program_ops \<lparr>program_paths = demo_paths\<rparr>) m [1] \<and> probe_target m 5 = Some HitsNone \<and>
     probe_target m 2 \<noteq> Some HitsNone"
proof -
  obtain m where m: "walker (program_ops \<lparr>program_paths = demo_paths\<rparr>) m [1]" using demo_walk ..
  have "\<forall>i < length demo_paths. \<not> accepts (demo_paths ! i) ([1] @ [5])"
    by (auto simp: demo_paths_def less_Suc_eq)
  with matcher_selects [OF demo_admitted m, of 5] have "probe_target m 5 = Some HitsNone" by auto
  moreover have "\<exists>i < length demo_paths. accepts (demo_paths ! i) ([1] @ [2])"
    by (intro exI [of _ 0]) (simp add: demo_paths_def)
  with matcher_selects [OF demo_admitted m, of 2] have "probe_target m 2 \<noteq> Some HitsNone" by auto
  ultimately show ?thesis using m by blast
qed

lemma matcher_visits_witness:
  "\<exists>m. walker (program_ops \<lparr>program_paths = demo_paths\<rparr>) m [1] \<and> visit_targets m 2 = Some [0, 1]"
proof -
  obtain m where m: "walker (program_ops \<lparr>program_paths = demo_paths\<rparr>) m [1]" using demo_walk ..
  have "{i. i < length demo_paths \<and> accepts (demo_paths ! i) ([1] @ [2])} = {0, 1}"
    by (auto simp: demo_paths_def less_Suc_eq)
  with matcher_visits [OF demo_admitted m, of 2] m show ?thesis by auto
qed

lemma matcher_routes_witness:
  "\<exists>m m1. walker (program_ops \<lparr>program_paths = demo_paths\<rparr>) m [] \<and> probe_routes m 3 = Some (True, m1)"
proof -
  obtain m where m: "walker (program_ops \<lparr>program_paths = demo_paths\<rparr>) m []" using demo_root ..
  have "\<exists>i < length demo_paths. \<exists>u. u \<noteq> [] \<and> accepts (demo_paths ! i) ([] @ 3 # u)"
    by (intro exI [of _ 1] conjI exI [of _ "[2]"]) (simp_all add: demo_paths_def)
  with matcher_routes [OF demo_admitted m, of 3] m show ?thesis by auto
qed

lemma matcher_leaves_witness:
  "\<exists>m m'. walker (program_ops \<lparr>program_paths = demo_paths\<rparr>) m [1] \<and>
     matcher_exit (program_ops \<lparr>program_paths = demo_paths\<rparr>) m = Some m'"
proof -
  obtain m m0 where m: "walker (program_ops \<lparr>program_paths = demo_paths\<rparr>) m ([] @ [1])"
    and m0: "walker (program_ops \<lparr>program_paths = demo_paths\<rparr>) m0 []"
    using demo_walk demo_root by auto
  from matcher_leaves [OF demo_admitted m m0] m show ?thesis by auto
qed

end
