(* ===== verification/Pump.thy ===== *)
theory Pump
  imports Carry Vocab
begin

text \<open>
  The stream-stepping pump (\<open>src/src/pump.rs\<close>): the carry kernel pulled over arriving chunks, with the
  admission standard judged where a construct completes, and its root twin, which knows no sealed
  extent. Stream coordinates are natural numbers; \<open>admits\<close> bounds them below \<open>u64::MAX\<close>, so no sum
  of the source wraps. The head buffer of the writing machines (\<open>StagedHead\<close>) is a byte list.

  \<open>None\<close> is an unreachable branch declared to the compiler, or a subtraction below zero.
\<close>

section \<open>State\<close>

definition standard_of :: "bool \<Rightarrow> standard" where
  "standard_of minimal = (if minimal then CanonicalMinimal else Tolerant)"

lemma canonical_standard [simp]: "standard_of m = CanonicalMinimal \<longleftrightarrow> m"
  by (simp add: standard_of_def)

datatype fixed_kind = FixI32 | FixI64

fun fixed_need :: "fixed_kind \<Rightarrow> nat" where
  "fixed_need FixI32 = 4"
| "fixed_need FixI64 = 8"

datatype 'a pump_verdict = PvDone 'a | PvMore | PvCut | PvTooWide | PvOutOfClass | PvNonMinimal

record pump =
  pu_off :: nat
  pu_zone :: nat
  pu_carry :: carry
  pu_standard :: standard
  pu_terminal :: bool

definition pump_new :: "standard \<Rightarrow> pump" where
  "pump_new standard =
     \<lparr>pu_off = 0, pu_zone = u64_max, pu_carry = carry_new, pu_standard = standard, pu_terminal = False\<rparr>"

definition pump_admits :: "pump \<Rightarrow> bytes \<Rightarrow> bool" where
  "pump_admits p chunk \<longleftrightarrow> length chunk \<le> (u64_max - 1) - pu_off p"

definition pump_construct_start :: "pump \<Rightarrow> nat option" where
  "pump_construct_start p = usub (pu_off p) (carry_len (pu_carry p))"

definition pump_locked :: "pump \<Rightarrow> bool" where
  "pump_locked p \<longleftrightarrow> pu_zone p \<noteq> u64_max"

section \<open>Stepping a word\<close>

definition width_padded :: "nat \<Rightarrow> 'a \<Rightarrow> standard \<Rightarrow> ('a \<Rightarrow> nat) \<Rightarrow> bool" where
  "width_padded width val standard minimal \<longleftrightarrow> standard = CanonicalMinimal \<and> width \<noteq> minimal val"

text \<open>The body the three held steps share: step the carry, retain a completed construct, judge its width.\<close>

definition held ::
  "(carry \<Rightarrow> bytes \<Rightarrow> nat \<Rightarrow> nat \<Rightarrow> (carry \<times> bytes \<times> nat \<times> 'a step) option) \<Rightarrow> ('a \<Rightarrow> nat) \<Rightarrow> standard \<Rightarrow>
   carry \<Rightarrow> bytes \<Rightarrow> nat \<Rightarrow> nat \<Rightarrow> (carry \<times> bytes \<times> nat \<times> 'a pump_verdict) option" where
  "held step minimal standard c chunk off zone =
     do { (c', chunk', off', r) \<leftarrow> step c chunk off zone;
          Some (c', chunk', off',
            (case r of
               StDone v \<Rightarrow> if width_padded (carry_len c') v standard minimal then PvNonMinimal else PvDone v
             | StMore \<Rightarrow> PvMore | StCut \<Rightarrow> PvCut | StTooWide \<Rightarrow> PvTooWide | StOutOfClass \<Rightarrow> PvOutOfClass)) }"

abbreviation len_minimal :: "payload_len \<Rightarrow> nat" where
  "len_minimal len \<equiv> encoded_len32 (len_inner len)"

definition pump_step_tag_held :: "pump \<Rightarrow> bytes \<Rightarrow> standard \<Rightarrow> (pump \<times> bytes \<times> u32 pump_verdict) option" where
  "pump_step_tag_held p chunk standard =
     do { (c, chunk', off, v) \<leftarrow> held step_tag encoded_len32 standard (pu_carry p) chunk (pu_off p) (pu_zone p);
          Some (p\<lparr>pu_carry := c, pu_off := off\<rparr>, chunk', v) }"

definition pump_step_len_held :: "pump \<Rightarrow> bytes \<Rightarrow> standard \<Rightarrow> (pump \<times> bytes \<times> payload_len pump_verdict) option" where
  "pump_step_len_held p chunk standard =
     do { (c, chunk', off, v) \<leftarrow> held step_len len_minimal standard (pu_carry p) chunk (pu_off p) (pu_zone p);
          Some (p\<lparr>pu_carry := c, pu_off := off\<rparr>, chunk', v) }"

definition pump_step_value_held :: "pump \<Rightarrow> bytes \<Rightarrow> standard \<Rightarrow> (pump \<times> bytes \<times> u64 pump_verdict) option" where
  "pump_step_value_held p chunk standard =
     do { (c, chunk', off, v) \<leftarrow> held step_value64 encoded_len64 standard (pu_carry p) chunk (pu_off p) (pu_zone p);
          Some (p\<lparr>pu_carry := c, pu_off := off\<rparr>, chunk', v) }"

text \<open>The plain steps take a completed construct: the carry is cleared.\<close>

definition cleared :: "(pump \<times> bytes \<times> 'a pump_verdict) option \<Rightarrow> (pump \<times> bytes \<times> 'a pump_verdict) option" where
  "cleared out =
     do { (p, chunk, v) \<leftarrow> out;
          Some (case v of PvDone _ \<Rightarrow> (p\<lparr>pu_carry := carry_clear (pu_carry p)\<rparr>, chunk, v) | _ \<Rightarrow> (p, chunk, v)) }"

definition pump_step_tag :: "pump \<Rightarrow> bytes \<Rightarrow> standard \<Rightarrow> (pump \<times> bytes \<times> u32 pump_verdict) option" where
  "pump_step_tag p chunk standard = cleared (pump_step_tag_held p chunk standard)"

definition pump_step_len :: "pump \<Rightarrow> bytes \<Rightarrow> standard \<Rightarrow> (pump \<times> bytes \<times> payload_len pump_verdict) option" where
  "pump_step_len p chunk standard = cleared (pump_step_len_held p chunk standard)"

definition pump_step_value :: "pump \<Rightarrow> bytes \<Rightarrow> standard \<Rightarrow> (pump \<times> bytes \<times> u64 pump_verdict) option" where
  "pump_step_value p chunk standard = cleared (pump_step_value_held p chunk standard)"

section \<open>Fixed payloads\<close>

definition pump_collect_fixed :: "nat \<Rightarrow> pump \<Rightarrow> bytes \<Rightarrow> (pump \<times> bytes \<times> bytes option) option" where
  "pump_collect_fixed NEED p chunk =
     do { (c, chunk', off, r) \<leftarrow> carry_collect (pu_carry p) chunk (pu_off p) (pu_zone p) NEED;
          (case r of
             CoDone \<Rightarrow> Some (p\<lparr>pu_carry := carry_clear c, pu_off := off\<rparr>, chunk', Some (take NEED (carry_bytes c)))
           | CoMore \<Rightarrow> Some (p\<lparr>pu_carry := c, pu_off := off\<rparr>, chunk', None)
           | CoCut \<Rightarrow> None) }"

definition pump_grab_fixed :: "nat \<Rightarrow> pump \<Rightarrow> bytes \<Rightarrow> (pump \<times> bytes \<times> bytes option) option" where
  "pump_grab_fixed NEED p chunk =
     (if carry_is_empty (pu_carry p) \<and> NEED \<le> length chunk
      then Some (p\<lparr>pu_off := pu_off p + NEED\<rparr>, drop NEED chunk, Some (take NEED chunk))
      else pump_collect_fixed NEED p chunk)"

section \<open>The root pump\<close>

datatype 'a root_verdict = RvDone 'a | RvMore | RvTooWide | RvOutOfClass | RvNonMinimal

record root_pump =
  rp_off :: nat
  rp_carry :: carry
  rp_standard :: standard
  rp_terminal :: bool

definition ROOT_ZONE :: nat where
  "ROOT_ZONE = u64_max"

definition root_new :: "standard \<Rightarrow> root_pump" where
  "root_new standard = \<lparr>rp_off = 0, rp_carry = carry_new, rp_standard = standard, rp_terminal = False\<rparr>"

definition root_admits :: "root_pump \<Rightarrow> bytes \<Rightarrow> bool" where
  "root_admits p chunk \<longleftrightarrow> length chunk \<le> (u64_max - 1) - rp_off p"

definition root_construct_start :: "root_pump \<Rightarrow> nat option" where
  "root_construct_start p = usub (rp_off p) (carry_len (rp_carry p))"

text \<open>The body the three root steps share; the root zone is never cut.\<close>

definition root_held ::
  "(carry \<Rightarrow> bytes \<Rightarrow> nat \<Rightarrow> nat \<Rightarrow> (carry \<times> bytes \<times> nat \<times> 'a step) option) \<Rightarrow> ('a \<Rightarrow> nat) \<Rightarrow> standard \<Rightarrow>
   root_pump \<Rightarrow> bytes \<Rightarrow> (root_pump \<times> bytes \<times> 'a root_verdict) option" where
  "root_held step minimal standard p chunk =
     do { (c, chunk', off, r) \<leftarrow> step (rp_carry p) chunk (rp_off p) ROOT_ZONE;
          (case r of
             StDone v \<Rightarrow>
               if width_padded (carry_len c) v standard minimal
               then Some (p\<lparr>rp_carry := c, rp_off := off\<rparr>, chunk', RvNonMinimal)
               else Some (p\<lparr>rp_carry := carry_clear c, rp_off := off\<rparr>, chunk', RvDone v)
           | StMore \<Rightarrow> Some (p\<lparr>rp_carry := c, rp_off := off\<rparr>, chunk', RvMore)
           | StCut \<Rightarrow> None
           | StTooWide \<Rightarrow> Some (p\<lparr>rp_carry := c, rp_off := off\<rparr>, chunk', RvTooWide)
           | StOutOfClass \<Rightarrow> Some (p\<lparr>rp_carry := c, rp_off := off\<rparr>, chunk', RvOutOfClass)) }"

definition root_step_tag :: "root_pump \<Rightarrow> bytes \<Rightarrow> standard \<Rightarrow> (root_pump \<times> bytes \<times> u32 root_verdict) option" where
  "root_step_tag p chunk standard = root_held step_tag encoded_len32 standard p chunk"

definition root_step_len :: "root_pump \<Rightarrow> bytes \<Rightarrow> standard \<Rightarrow> (root_pump \<times> bytes \<times> payload_len root_verdict) option" where
  "root_step_len p chunk standard = root_held step_len len_minimal standard p chunk"

definition root_step_value :: "root_pump \<Rightarrow> bytes \<Rightarrow> standard \<Rightarrow> (root_pump \<times> bytes \<times> u64 root_verdict) option" where
  "root_step_value p chunk standard = root_held step_value64 encoded_len64 standard p chunk"

definition root_collect_fixed :: "nat \<Rightarrow> root_pump \<Rightarrow> bytes \<Rightarrow> (root_pump \<times> bytes \<times> bytes option) option" where
  "root_collect_fixed NEED p chunk =
     do { (c, chunk', off, r) \<leftarrow> carry_collect (rp_carry p) chunk (rp_off p) ROOT_ZONE NEED;
          (case r of
             CoDone \<Rightarrow> Some (p\<lparr>rp_carry := carry_clear c, rp_off := off\<rparr>, chunk', Some (take NEED (carry_bytes c)))
           | CoMore \<Rightarrow> Some (p\<lparr>rp_carry := c, rp_off := off\<rparr>, chunk', None)
           | CoCut \<Rightarrow> None) }"

definition root_grab_fixed :: "nat \<Rightarrow> root_pump \<Rightarrow> bytes \<Rightarrow> (root_pump \<times> bytes \<times> bytes option) option" where
  "root_grab_fixed NEED p chunk =
     (if carry_is_empty (rp_carry p) \<and> NEED \<le> length chunk
      then Some (p\<lparr>rp_off := rp_off p + NEED\<rparr>, drop NEED chunk, Some (take NEED chunk))
      else root_collect_fixed NEED p chunk)"

section \<open>Staged heads\<close>

record staged_head =
  sh_buf :: bytes

definition staged_new :: staged_head where
  "staged_new = \<lparr>sh_buf = []\<rparr>"

definition staged_capture :: "staged_head \<Rightarrow> carry \<Rightarrow> staged_head option" where
  "staged_capture h c = (if length (carry_bytes c) \<le> 5 then Some (h\<lparr>sh_buf := carry_bytes c\<rparr>) else None)"

definition staged_bytes :: "staged_head \<Rightarrow> bytes" where
  "staged_bytes h = sh_buf h"

definition staged_len :: "staged_head \<Rightarrow> nat" where
  "staged_len h = length (sh_buf h)"

section \<open>What a reader owes the pumps\<close>

lemma carry_clear_new [simp]: "carry_clear c = carry_new"
  by (simp add: carry_clear_def carry_new_def)

lemma carry_new_fields [simp]: "cbuf carry_new = []" "acc carry_new = 0" "carry_len carry_new = 0"
  by (simp_all add: carry_new_def carry_len_def)

text \<open>An open carry is determined by its bytes.\<close>

lemma carry_open_unique:
  "carry_open cap c \<Longrightarrow> carry_open cap d \<Longrightarrow> cbuf c = cbuf d \<Longrightarrow> c = d"
  by (auto simp: carry_open_def word_eq_unat_iff intro!: carry.equality)

lemma carry_open_empty: "carry_open cap c \<Longrightarrow> cbuf c = [] \<Longrightarrow> c = carry_new"
  by (auto simp: carry_open_def carry_new_def word_eq_unat_iff intro!: carry.equality)

locale word_reader = suspending step StMore "carry_open cap" cbuf
  for step :: "carry \<Rightarrow> bytes \<Rightarrow> nat \<Rightarrow> nat \<Rightarrow> (carry \<times> bytes \<times> nat \<times> 'a step) option" and cap +
  assumes cap_pos: "0 < cap"
    and consumes: "carry_open cap c \<Longrightarrow> off \<le> z \<Longrightarrow> step c x off z = Some (c1, x1, off1, r) \<Longrightarrow>
      \<exists>k \<le> length x. x1 = drop k x \<and> off1 = off + k \<and> off1 \<le> z \<and> cbuf c1 = cbuf c @ take k x \<and>
        ((\<exists>v. r = StDone v) \<longrightarrow> 0 < k) \<and> (r = StCut \<longrightarrow> off1 = z)"
begin

lemma held_cases:
  assumes "carry_open cap c" "off \<le> z"
  obtains (complete) c1 k v where "held step minimal standard c x off z = Some (c1, drop k x, off + k, PvDone v)"
      "0 < k" "k \<le> length x" "off + k \<le> z" "cbuf c1 = cbuf c @ take k x"
      "\<And>y. \<exists>c3. held step minimal standard c (x @ y) off z = Some (c3, drop k x @ y, off + k, PvDone v)"
  | (suspended) c1 where "held step minimal standard c x off z = Some (c1, [], off + length x, PvMore)"
      "off + length x \<le> z" "carry_open cap c1" "cbuf c1 = cbuf c @ x"
      "\<And>y c2 y2 off2 v2. held step minimal standard c1 y (off + length x) z = Some (c2, y2, off2, v2) \<Longrightarrow>
        \<exists>c3. held step minimal standard c (x @ y) off z = Some (c3, y2, off2, v2) \<and> (v2 = PvMore \<longrightarrow> c3 = c2)
          \<and> cbuf c3 = cbuf c2"
  | (refused) c1 k v where "held step minimal standard c x off z = Some (c1, drop k x, off + k, v)"
      "k \<le> length x" "off + k \<le> z" "cbuf c1 = cbuf c @ take k x" "v \<in> {PvCut, PvTooWide, PvOutOfClass, PvNonMinimal}" "v = PvCut \<Longrightarrow> off + k = z"
      "\<And>y. \<exists>c3. held step minimal standard c (x @ y) off z = Some (c3, drop k x @ y, off + k, v) \<and> cbuf c3 = cbuf c1"
proof -
  obtain c1 x1 off1 r where s: "step c x off z = Some (c1, x1, off1, r)"
    using total [OF assms] by (metis surj_pair)
  from consumes [OF assms s] obtain k where k: "k \<le> length x" "x1 = drop k x" "off1 = off + k" "off1 \<le> z"
    "cbuf c1 = cbuf c @ take k x" "(\<exists>v. r = StDone v) \<longrightarrow> 0 < k" "r = StCut \<longrightarrow> off1 = z" by blast
  have stop: "\<exists>c3. step c (x @ y) off z = Some (c3, drop k x @ y, off + k, r) \<and> cbuf c3 = cbuf c1"
    if "r \<noteq> StMore" for y using split_stop [OF assms s that] k by simp
  define v where "v = (case r of
      StDone v \<Rightarrow> if width_padded (carry_len c1) v standard minimal then PvNonMinimal else PvDone v
    | StMore \<Rightarrow> PvMore | StCut \<Rightarrow> PvCut | StTooWide \<Rightarrow> PvTooWide | StOutOfClass \<Rightarrow> PvOutOfClass)"
  have h: "held step minimal standard c x off z = Some (c1, drop k x, off + k, v)"
    by (simp add: held_def s v_def k)
  have h2: "\<exists>c3. held step minimal standard c (x @ y) off z = Some (c3, drop k x @ y, off + k, v) \<and> cbuf c3 = cbuf c1"
    if "r \<noteq> StMore" for y
    using stop [OF that, of y] by (auto simp: held_def v_def carry_len_def split: step.split)
  show ?thesis
  proof (cases "r = StMore")
    case True
    with suspend [OF assms, of x c1 x1 off1] s have m: "carry_open cap c1" "x1 = []" "off1 \<le> z" by auto
    with k have kl: "k = length x" by simp
    show ?thesis
    proof (rule suspended)
      show "held step minimal standard c x off z = Some (c1, [], off + length x, PvMore)"
        using h kl True by (simp add: v_def)
      show "off + length x \<le> z" using m k kl by simp
      show "carry_open cap c1" by (rule m)
      show "cbuf c1 = cbuf c @ x" using k kl by simp
      fix y c2 y2 off2 v2
      assume "held step minimal standard c1 y (off + length x) z = Some (c2, y2, off2, v2)"
      then obtain r2 where r2: "step c1 y (off + length x) z = Some (c2, y2, off2, r2)"
        and v2: "v2 = (case r2 of
            StDone v \<Rightarrow> if width_padded (carry_len c2) v standard minimal then PvNonMinimal else PvDone v
          | StMore \<Rightarrow> PvMore | StCut \<Rightarrow> PvCut | StTooWide \<Rightarrow> PvTooWide | StOutOfClass \<Rightarrow> PvOutOfClass)"
        by (auto simp: held_def split: bind_splits)
      from split_more [OF assms s [unfolded True], of y c2 y2 off2 r2] r2 k kl obtain c3
        where c3: "step c (x @ y) off z = Some (c3, y2, off2, r2)" "cbuf c3 = cbuf c2" by auto
      have "c3 = c2" if "v2 = PvMore"
      proof -
        have r: "r2 = StMore" using that v2 by (cases r2) (auto split: if_splits)
        have "carry_open cap c3" using suspend [OF assms c3(1) [unfolded r]] by simp
        moreover have "carry_open cap c2"
          using suspend [OF m(1) _ r2 [unfolded r]] m k kl by simp
        ultimately show ?thesis using c3(2) carry_open_unique by blast
      qed
      with c3 v2 show "\<exists>c3. held step minimal standard c (x @ y) off z = Some (c3, y2, off2, v2) \<and>
          (v2 = PvMore \<longrightarrow> c3 = c2) \<and> cbuf c3 = cbuf c2"
        by (intro exI [of _ c3]) (auto simp: held_def carry_len_def split: step.split)
    qed
  next
    case False
    show ?thesis
    proof (cases "\<exists>w. v = PvDone w")
      case True
      then obtain w where w: "v = PvDone w" ..
      then have "\<exists>w. r = StDone w" by (cases r) (auto simp: v_def)
      with h h2 [OF False] k w show ?thesis by (intro complete [of c1 k w]) auto
    next
      case nd: False
      have "v \<in> {PvCut, PvTooWide, PvOutOfClass, PvNonMinimal}"
        using nd False by (cases r) (auto simp: v_def split: if_splits)
      moreover have "off + k = z" if "v = PvCut"
        using that k by (cases r) (auto simp: v_def split: if_splits)
      ultimately show ?thesis using h h2 [OF False] k by (intro refused [of c1 k v]) auto
    qed
  qed
qed

end

context window
begin

lemma face_consumes:
  assumes f: "\<And>c x off z. carry_open cap c \<Longrightarrow> off \<le> z \<Longrightarrow> stp c x off z = face_of f (carry_step cap lst c x off z)"
    and a: "carry_open cap c" "off \<le> z" "stp c x off z = Some (c1, x1, off1, r)"
  shows "\<exists>k \<le> length x. x1 = drop k x \<and> off1 = off + k \<and> off1 \<le> z \<and> cbuf c1 = cbuf c @ take k x \<and>
    ((\<exists>v. r = StDone v) \<longrightarrow> 0 < k) \<and> (r = StCut \<longrightarrow> off1 = z)"
proof -
  obtain r0 where s: "carry_step cap lst c x off z = Some (c1, x1, off1, r0)" and r: "r = map_step f r0"
    using a by (auto simp: f face_of_Some)
  define vd where "vd = ref_step lst (cap - carry_len c) (carry_len c) (varint_nat (cbuf c)) (take (z - off) x)"
  define k where "k = taken cap (carry_len c) (min (length x) (z - off)) vd"
  from carry_step_ref [OF a(1,2), of x] s
  have k: "x1 = drop k x" "off1 = off + k" "k \<le> length x" "k \<le> z - off"
    "r0 = step_result (z - off \<le> length x) vd" "cbuf c1 = cbuf c @ take k x"
    by (auto simp: step_spec_def Let_def vd_def [symmetric] k_def [symmetric])
  have "0 < k" if "r = StDone v" for v
  proof -
    from that r k(5) obtain n w where vd: "vd = VDone n w"
      by (cases vd) (auto simp: step_result_def split: if_splits)
    then have "carry_len c < w" unfolding vd_def by (rule ref_step_Done_less)
    with vd show ?thesis by (simp add: k_def taken_def)
  qed
  moreover have "off1 = z" if "r = StCut"
  proof -
    from that r k(5) have "vd = VTruncated" "z - off \<le> length x"
      by (cases vd; auto simp: step_result_def split: if_splits)+
    with k(2) a(2) show ?thesis by (simp add: k_def taken_def)
  qed
  ultimately show ?thesis using k a(2) by (intro exI [of _ k]) auto
qed

lemma face_reader:
  assumes "\<And>c x off z. carry_open cap c \<Longrightarrow> off \<le> z \<Longrightarrow> stp c x off z = face_of f (carry_step cap lst c x off z)"
  shows "word_reader stp cap"
proof (rule word_reader.intro)
  show "suspending stp StMore (carry_open cap) cbuf" by (rule face_suspending [OF assms])
  show "word_reader_axioms stp cap"
  proof
    show "0 < cap" using cap_two by simp
  qed (rule face_consumes [OF assms])
qed

end

interpretation tag_reader: word_reader step_tag MAX_LEN32
  by (rule tag_window.face_reader) (rule step_tag_face)

interpretation len_reader: word_reader step_len MAX_LEN32
  by (rule len_window.face_reader) (rule step_len_face)

interpretation value_reader: word_reader step_value64 MAX_LEN64
  by (rule value_window.face_reader) (rule step_value64_face)

section \<open>Fixed payloads, in one formula\<close>

text \<open>A collection in flight: short of its width, over an accumulator no word is in.\<close>

definition fixed_open :: "nat \<Rightarrow> carry \<Rightarrow> bool" where
  "fixed_open need c \<longleftrightarrow> carry_len c < need \<and> acc c = 0"

lemma collect_room:
  assumes "fixed_open need c" "need \<le> 10" "off + (need - carry_len c) \<le> z"
  shows "carry_collect c x off z need =
    (let d = need - carry_len c in
     if d \<le> length x then Some (c\<lparr>cbuf := cbuf c @ take d x\<rparr>, drop d x, off + d, CoDone)
     else Some (c\<lparr>cbuf := cbuf c @ x\<rparr>, [], off + length x, CoMore))"
proof -
  have o: "carry_len c \<le> need" "off \<le> z"
    using assms(1) assms(3) [THEN add_leD1] by (simp_all add: fixed_open_def)
  have m: "min (need - carry_len c) (z - off) = need - carry_len c" using assms by simp
  show ?thesis
    unfolding carry_collect_eq [OF assms(2) o] m Let_def using assms o
    by (auto simp: min_def fixed_open_def)
qed

section \<open>The root steps\<close>

lemma root_held_eq:
  "root_held step minimal standard p x =
     do { (c, x', off, v) \<leftarrow> held step minimal standard (rp_carry p) x (rp_off p) ROOT_ZONE;
          (case v of
             PvDone w \<Rightarrow> Some (p\<lparr>rp_carry := carry_new, rp_off := off\<rparr>, x', RvDone w)
           | PvMore \<Rightarrow> Some (p\<lparr>rp_carry := c, rp_off := off\<rparr>, x', RvMore)
           | PvCut \<Rightarrow> None
           | PvTooWide \<Rightarrow> Some (p\<lparr>rp_carry := c, rp_off := off\<rparr>, x', RvTooWide)
           | PvOutOfClass \<Rightarrow> Some (p\<lparr>rp_carry := c, rp_off := off\<rparr>, x', RvOutOfClass)
           | PvNonMinimal \<Rightarrow> Some (p\<lparr>rp_carry := c, rp_off := off\<rparr>, x', RvNonMinimal)) }"
  by (cases "step (rp_carry p) x (rp_off p) ROOT_ZONE")
    (auto simp: root_held_def held_def split: step.splits)

text \<open>The pump that forgets what it carries.\<close>

definition uncarried :: "root_pump \<Rightarrow> root_pump" where
  "uncarried p = p\<lparr>rp_carry := carry_new\<rparr>"

context word_reader
begin

text \<open>A root step over an open carry, with room for its chunk and \<open>y\<close> below the root zone.\<close>

lemma root_cases:
  assumes "carry_open cap (rp_carry p)" "rp_off p + (length x + length y) < u64_max"
  obtains (complete) k v where
      "root_held step minimal standard p x = Some (p\<lparr>rp_carry := carry_new, rp_off := rp_off p + k\<rparr>, drop k x, RvDone v)"
      "0 < k" "k \<le> length x"
      "root_held step minimal standard p (x @ y) =
         Some (p\<lparr>rp_carry := carry_new, rp_off := rp_off p + k\<rparr>, drop k x @ y, RvDone v)"
  | (suspended) c1 where
      "root_held step minimal standard p x = Some (p\<lparr>rp_carry := c1, rp_off := rp_off p + length x\<rparr>, [], RvMore)"
      "carry_open cap c1" "cbuf c1 = cbuf (rp_carry p) @ x"
      "\<And>q. rp_carry q = c1 \<Longrightarrow> rp_off q = rp_off p + length x \<Longrightarrow>
        \<exists>p2 p3 y2 v2. root_held step minimal standard q y = Some (p2, y2, v2) \<and>
          root_held step minimal standard p (x @ y) = Some (p3, y2, v2) \<and>
          rp_off p2 = rp_off p3 \<and> carry_len (rp_carry p2) = carry_len (rp_carry p3) \<and>
          ((\<exists>w. v2 = RvDone w) \<or> v2 = RvMore \<longrightarrow> rp_carry p2 = rp_carry p3) \<and>
          p2 = q\<lparr>rp_carry := rp_carry p2, rp_off := rp_off p2\<rparr> \<and> p3 = p\<lparr>rp_carry := rp_carry p3, rp_off := rp_off p3\<rparr>"
  | (refused) c1 c3 k v where
      "root_held step minimal standard p x = Some (p\<lparr>rp_carry := c1, rp_off := rp_off p + k\<rparr>, drop k x, v)"
      "k \<le> length x" "carry_len c1 = carry_len (rp_carry p) + k" "carry_len c3 = carry_len c1"
      "v \<in> {RvTooWide, RvOutOfClass, RvNonMinimal}"
      "root_held step minimal standard p (x @ y) = Some (p\<lparr>rp_carry := c3, rp_off := rp_off p + k\<rparr>, drop k x @ y, v)"
proof -
  have z: "rp_off p \<le> ROOT_ZONE" using assms(2) by (simp add: ROOT_ZONE_def)
  show ?thesis
  proof (cases rule: held_cases [OF assms(1) z, of minimal standard x, case_names complete suspended refused])
    case (complete c1 k v)
    from complete(6) [of y] obtain c3 where
      "held step minimal standard (rp_carry p) (x @ y) (rp_off p) ROOT_ZONE = Some (c3, drop k x @ y, rp_off p + k, PvDone v)" ..
    with complete show ?thesis by (intro that(1) [of k v]) (simp_all add: root_held_eq)
  next
    case (suspended c1)
    show ?thesis
    proof (rule that(2))
      show "root_held step minimal standard p x = Some (p\<lparr>rp_carry := c1, rp_off := rp_off p + length x\<rparr>, [], RvMore)"
        using suspended by (simp add: root_held_eq)
      show "carry_open cap c1" "cbuf c1 = cbuf (rp_carry p) @ x" by fact+
      fix q :: root_pump
      assume q: "rp_carry q = c1" "rp_off q = rp_off p + length x"
      obtain c2 y2 off2 v2 where h: "held step minimal standard c1 y (rp_off p + length x) ROOT_ZONE = Some (c2, y2, off2, v2)"
        and nc: "v2 \<noteq> PvCut"
        using assms(2)
        by (cases rule: held_cases [OF suspended(3,2), of minimal standard y]) (auto simp: ROOT_ZONE_def)
      from suspended(5) [OF h] obtain c3
        where "held step minimal standard (rp_carry p) (x @ y) (rp_off p) ROOT_ZONE = Some (c3, y2, off2, v2)"
          "v2 = PvMore \<longrightarrow> c3 = c2" "cbuf c3 = cbuf c2" by blast
      with h nc q show "\<exists>p2 p3 y2 v2. root_held step minimal standard q y = Some (p2, y2, v2) \<and>
          root_held step minimal standard p (x @ y) = Some (p3, y2, v2) \<and>
          rp_off p2 = rp_off p3 \<and> carry_len (rp_carry p2) = carry_len (rp_carry p3) \<and>
          ((\<exists>w. v2 = RvDone w) \<or> v2 = RvMore \<longrightarrow> rp_carry p2 = rp_carry p3) \<and>
          p2 = q\<lparr>rp_carry := rp_carry p2, rp_off := rp_off p2\<rparr> \<and> p3 = p\<lparr>rp_carry := rp_carry p3, rp_off := rp_off p3\<rparr>"
        by (cases v2) (simp_all add: root_held_eq carry_len_def)
    qed
  next
    case (refused c1 k v)
    from refused(7) [of y] obtain c3 where
      c3: "held step minimal standard (rp_carry p) (x @ y) (rp_off p) ROOT_ZONE = Some (c3, drop k x @ y, rp_off p + k, v)"
      "cbuf c3 = cbuf c1" by blast
    have nc: "v \<noteq> PvCut" using refused(2,6) assms(2) by (auto simp: ROOT_ZONE_def)
    define w :: "'a root_verdict" where "w = (case v of PvTooWide \<Rightarrow> RvTooWide | PvOutOfClass \<Rightarrow> RvOutOfClass | _ \<Rightarrow> RvNonMinimal)"
    have "root_held step minimal standard p x = Some (p\<lparr>rp_carry := c1, rp_off := rp_off p + k\<rparr>, drop k x, w)"
      "root_held step minimal standard p (x @ y) = Some (p\<lparr>rp_carry := c3, rp_off := rp_off p + k\<rparr>, drop k x @ y, w)"
      using refused(1,5) c3 nc by (auto simp: root_held_eq w_def)
    moreover have "w \<in> {RvTooWide, RvOutOfClass, RvNonMinimal}" by (cases v) (simp_all add: w_def)
    ultimately show ?thesis using refused(2,4) c3(2)
      by (intro that(3) [of k c1 w c3]) (auto simp: carry_len_def)
  qed
qed

end

text \<open>A root grab with a collection in flight.\<close>

lemma root_grab_eq:
  assumes "fixed_open need (rp_carry p)" "need \<le> 10" "rp_off p + (need - carry_len (rp_carry p)) \<le> u64_max"
  shows "root_grab_fixed need p x =
    (let d = need - carry_len (rp_carry p) in
     if d \<le> length x
     then Some (p\<lparr>rp_carry := carry_new, rp_off := rp_off p + d\<rparr>, drop d x, Some (cbuf (rp_carry p) @ take d x))
     else Some (p\<lparr>rp_carry := (rp_carry p)\<lparr>cbuf := cbuf (rp_carry p) @ x\<rparr>, rp_off := rp_off p + length x\<rparr>, [], None))"
proof -
  have "rp_carry p = carry_new" if "carry_is_empty (rp_carry p)"
    using that assms(1) by (auto simp: carry_is_empty_def carry_len_def fixed_open_def carry_new_def intro: carry.equality)
  then show ?thesis
    using collect_room [of need "rp_carry p" "rp_off p" u64_max x] assms
    by (auto simp: root_grab_fixed_def root_collect_fixed_def ROOT_ZONE_def Let_def carry_is_empty_def
        carry_bytes_def carry_len_def fixed_open_def)
qed

end
