(* ===== verification/Turn.thy ===== *)
theory Turn
  imports Prelude
begin

text \<open>
  The loop every streaming machine of the crate drives over a chunk: resolve what is due at the
  current coordinate, stop at an empty chunk, else take one turn in the current mode. Written once
  here; the machines instantiate the two operations. The contract \<open>turning\<close> says what a machine
  owes for its chunk boundaries to be invisible; none of this is code of the crate but the loop itself.
\<close>

section \<open>The loop\<close>

partial_function (option) drive_loop ::
  "('s \<Rightarrow> ('s \<times> ('r, unit) control_flow) option) \<Rightarrow>
   ('s \<Rightarrow> bytes \<Rightarrow> ('s \<times> bytes \<times> ('r, unit) control_flow) option) \<Rightarrow>
   'r \<Rightarrow> 's \<Rightarrow> bytes \<Rightarrow> ('s \<times> 'r) option" where
  "drive_loop due turn idle s chunk =
     do { (s, flow) \<leftarrow> due s;
          (case flow of
             Break r \<Rightarrow> Some (s, r)
           | Continue _ \<Rightarrow>
               if chunk = [] then Some (s, idle)
               else do { (s, chunk, flow) \<leftarrow> turn s chunk;
                         (case flow of
                            Break r \<Rightarrow> Some (s, r)
                          | Continue _ \<Rightarrow> drive_loop due turn idle s chunk) }) }"

declare drive_loop.simps [code]

text \<open>What holds wherever the loop can stop, holds of what it returns.\<close>

lemma drive_stops:
  assumes "drive_loop due turn idle s x = Some out"
    and "\<forall>s s1 r. due s = Some (s1, Break r) \<longrightarrow> P (s1, r)"
    and "\<forall>s s1 u. due s = Some (s1, Continue u) \<longrightarrow> P (s1, idle)"
    and "\<forall>s x s1 x1 r. turn s x = Some (s1, x1, Break r) \<longrightarrow> P (s1, r)"
  shows "P out"
proof -
  have "(\<forall>s s1 r. due s = Some (s1, Break r) \<longrightarrow> P (s1, r)) \<and>
      (\<forall>s s1 u. due s = Some (s1, Continue u) \<longrightarrow> P (s1, idle)) \<and>
      (\<forall>s x s1 x1 r. turn s x = Some (s1, x1, Break r) \<longrightarrow> P (s1, r)) \<longrightarrow> P out"
    by (rule drive_loop.raw_induct [where P = "\<lambda>due turn idle s x out.
        (\<forall>s s1 r. due s = Some (s1, Break r) \<longrightarrow> P (s1, r)) \<and>
        (\<forall>s s1 u. due s = Some (s1, Continue u) \<longrightarrow> P (s1, idle)) \<and>
        (\<forall>s x s1 x1 r. turn s x = Some (s1, x1, Break r) \<longrightarrow> P (s1, r)) \<longrightarrow> P out", OF _ assms(1)])
      (auto split: bind_splits control_flow.splits if_splits)
  with assms(2-4) show ?thesis by blast
qed

text \<open>Two outcomes of a turn that no consumer can tell apart: the same residue and flow, the same
  state where the machine goes on, and states alike where it is over.\<close>

definition same_turn ::
  "('s \<Rightarrow> 's \<Rightarrow> bool) \<Rightarrow> 'r \<Rightarrow> ('s \<times> bytes \<times> ('r, unit) control_flow) option \<Rightarrow>
   ('s \<times> bytes \<times> ('r, unit) control_flow) option \<Rightarrow> bool" where
  "same_turn alike idle o1 o2 \<longleftrightarrow>
     (\<forall>s2 x2 fl. o2 = Some (s2, x2, fl) \<longrightarrow>
        (\<exists>s1. o1 = Some (s1, x2, fl) \<and> alike s1 s2 \<and> (fl = Continue () \<or> fl = Break idle \<longrightarrow> s1 = s2)))"

definition same_drive :: "('s \<Rightarrow> 's \<Rightarrow> bool) \<Rightarrow> 'r \<Rightarrow> ('s \<times> 'r) option \<Rightarrow> ('s \<times> 'r) option \<Rightarrow> bool" where
  "same_drive alike idle o1 o2 \<longleftrightarrow>
     (\<exists>s1 s2 r. o1 = Some (s1, r) \<and> o2 = Some (s2, r) \<and> alike s1 s2 \<and> (r = idle \<longrightarrow> s1 = s2))"

lemma same_turnI:
  "o1 = Some (s1, x2, fl) \<Longrightarrow> o2 = Some (s2, x2, fl) \<Longrightarrow> alike s1 s2 \<Longrightarrow>
   (fl = Continue () \<or> fl = Break idle \<Longrightarrow> s1 = s2) \<Longrightarrow> same_turn alike idle o1 o2"
  by (auto simp: same_turn_def)

lemma same_turn_eq: "(\<And>s. alike s s) \<Longrightarrow> o1 = o2 \<Longrightarrow> same_turn alike idle o1 o2"
  by (auto simp: same_turn_def)

section \<open>The contract\<close>

text \<open>What one operation \<open>act\<close> of a machine owes at a state, a chunk and its continuation \<open>y\<close>: it returns;
  when the machine goes on it has left less than \<open>N\<close> bytes, when it suspends it has consumed the chunk and left
  nothing due, and in both cases it has kept the room of what is still to come; and, where
  \<open>seamless\<close> is claimed, had the chunk gone on with \<open>y\<close>, the machine could not tell.\<close>

definition acts ::
  "bool \<Rightarrow> nat \<Rightarrow> ('s \<Rightarrow> nat \<Rightarrow> bool) \<Rightarrow> ('s \<Rightarrow> 's \<Rightarrow> bool) \<Rightarrow> 'r \<Rightarrow> ('s \<Rightarrow> ('s \<times> ('r, unit) control_flow) option) \<Rightarrow>
   ('s \<Rightarrow> bytes \<Rightarrow> ('s \<times> bytes \<times> ('r, unit) control_flow) option) \<Rightarrow>
   ('s \<Rightarrow> bytes \<Rightarrow> ('s \<times> bytes \<times> ('r, unit) control_flow) option) \<Rightarrow> 's \<Rightarrow> bytes \<Rightarrow> bytes \<Rightarrow> bool" where
  "acts seamless N ok alike idle due turn act s x y \<longleftrightarrow>
     (\<exists>s1 x1 fl. act s x = Some (s1, x1, fl) \<and>
        (case fl of
           Continue _ \<Rightarrow>
             ok s1 (length x1 + length y) \<and> length x1 < N \<and>
             (seamless \<and> y \<noteq> [] \<longrightarrow> act s (x @ y) = Some (s1, x1 @ y, Continue ()) \<or>
                x1 = [] \<and> due s1 = Some (s1, Continue ()) \<and> same_turn alike idle (act s (x @ y)) (turn s1 y))
         | Break r \<Rightarrow>
             if r = idle
             then ok s1 (length y) \<and> x1 = [] \<and> due s1 = Some (s1, Continue ()) \<and>
                  (seamless \<and> y \<noteq> [] \<longrightarrow> same_turn alike idle (act s (x @ y)) (turn s1 y))
             else seamless \<and> y \<noteq> [] \<longrightarrow> (\<exists>s2 x2. act s (x @ y) = Some (s2, x2, Break r) \<and> alike s2 s1)))"

lemma acts_continue:
  "act s x = Some (s1, x1, Continue ()) \<Longrightarrow> ok s1 (length x1 + length y) \<Longrightarrow> length x1 < N \<Longrightarrow>
   (seamless \<Longrightarrow> y \<noteq> [] \<Longrightarrow> act s (x @ y) = Some (s1, x1 @ y, Continue ()) \<or>
      x1 = [] \<and> due s1 = Some (s1, Continue ()) \<and> same_turn alike idle (act s (x @ y)) (turn s1 y)) \<Longrightarrow>
   acts seamless N ok alike idle due turn act s x y"
  by (auto simp: acts_def)

lemma acts_idle:
  "act s x = Some (s1, [], Break idle) \<Longrightarrow> ok s1 (length y) \<Longrightarrow> due s1 = Some (s1, Continue ()) \<Longrightarrow>
   (seamless \<Longrightarrow> y \<noteq> [] \<Longrightarrow> same_turn alike idle (act s (x @ y)) (turn s1 y)) \<Longrightarrow> acts seamless N ok alike idle due turn act s x y"
  by (auto simp: acts_def)

lemma acts_break:
  "act s x = Some (s1, x1, Break r) \<Longrightarrow> r \<noteq> idle \<Longrightarrow>
   (seamless \<Longrightarrow> y \<noteq> [] \<Longrightarrow> \<exists>s2 x2. act s (x @ y) = Some (s2, x2, Break r) \<and> alike s2 s1) \<Longrightarrow>
   acts seamless N ok alike idle due turn act s x y"
  by (auto simp: acts_def)

lemma acts_mono:
  "acts seamless N ok alike idle due turn act s x y \<Longrightarrow> N \<le> N' \<Longrightarrow> acts seamless N' ok alike idle due turn act s x y"
  unfolding acts_def by (fastforce split: control_flow.splits)

text \<open>An operation that reads a complete construct and then acts on the rest.\<close>

lemma acts_then:
  assumes "acts seamless N ok alike idle due turn act s1 x1 y"
    and "act0 s x = act s1 x1" "seamless \<Longrightarrow> y \<noteq> [] \<Longrightarrow> act0 s (x @ y) = act s1 (x1 @ y)"
  shows "acts seamless N ok alike idle due turn act0 s x y"
proof -
  from assms(1) obtain t1 z fl where a: "act s1 x1 = Some (t1, z, fl)" by (auto simp: acts_def)
  then have a0: "act0 s x = Some (t1, z, fl)" by (simp add: assms(2))
  show ?thesis
  proof (cases fl)
    case (Continue u)
    with assms(1) a have "ok t1 (length z + length y)" "length z < N"
      by (simp_all add: acts_def)
    with a0 Continue show ?thesis
      by (intro acts_continue) (use assms(1,3) a in \<open>auto simp: acts_def\<close>)
  next
    case (Break r)
    show ?thesis
    proof (cases "r = idle")
      case True
      with assms(1) a Break have "ok t1 (length y)" "z = []" "due t1 = Some (t1, Continue ())"
        by (simp_all add: acts_def)
      with a0 Break True show ?thesis
        by (intro acts_idle) (use assms(1,3) a in \<open>auto simp: acts_def\<close>)
    next
      case False
      with a0 Break show ?thesis
        by (intro acts_break) (use assms(1,3) a in \<open>auto simp: acts_def\<close>)
    qed
  qed
qed

locale turning =
  fixes due :: "'s \<Rightarrow> ('s \<times> ('r, unit) control_flow) option"
    and turn :: "'s \<Rightarrow> bytes \<Rightarrow> ('s \<times> bytes \<times> ('r, unit) control_flow) option"
    and idle :: 'r and ok :: "'s \<Rightarrow> nat \<Rightarrow> bool" and alike :: "'s \<Rightarrow> 's \<Rightarrow> bool" and seamless :: bool
  assumes alike_refl: "alike s s"
    and alike_sym: "alike s t \<Longrightarrow> alike t s"
    and alike_trans: "alike s t \<Longrightarrow> alike t w \<Longrightarrow> alike s w"
    and ok_room: "ok s n \<Longrightarrow> m \<le> n \<Longrightarrow> ok s m"
    and due_total: "ok s n \<Longrightarrow> \<exists>out. due s = Some out"
    and due_ok: "ok s n \<Longrightarrow> due s = Some (s', Continue u) \<Longrightarrow> ok s' n \<and> due s' = Some (s', Continue ())"
    and due_break: "ok s n \<Longrightarrow> due s = Some (s', Break r) \<Longrightarrow> r \<noteq> idle"
    and turn_acts: "ok s (length x + length y) \<Longrightarrow> due s = Some (s, Continue ()) \<Longrightarrow> x \<noteq> [] \<Longrightarrow>
      acts seamless (length x) ok alike idle due turn turn s x y"
begin

abbreviation drive :: "'s \<Rightarrow> bytes \<Rightarrow> ('s \<times> 'r) option" where
  "drive \<equiv> drive_loop due turn idle"

lemma turn_acts_n:
  assumes "ok s (length x + n)" "due s = Some (s, Continue ())" "x \<noteq> []"
  shows "acts seamless (length x) ok alike idle due turn turn s x (replicate n 0)"
  using turn_acts [of s x "replicate n 0"] assms by simp

lemma turn_total:
  "ok s (length x) \<Longrightarrow> due s = Some (s, Continue ()) \<Longrightarrow> x \<noteq> [] \<Longrightarrow> \<exists>out. turn s x = Some out"
  using turn_acts_n [of s x 0] by (auto simp: acts_def)

lemma turn_continue:
  "ok s (length x + n) \<Longrightarrow> due s = Some (s, Continue ()) \<Longrightarrow> x \<noteq> [] \<Longrightarrow>
   turn s x = Some (s1, x1, Continue u) \<Longrightarrow> ok s1 (length x1 + n) \<and> length x1 < length x"
  using turn_acts_n [of s x n] by (auto simp: acts_def)

lemma turn_idle:
  "ok s (length x + n) \<Longrightarrow> due s = Some (s, Continue ()) \<Longrightarrow> x \<noteq> [] \<Longrightarrow>
   turn s x = Some (s1, x1, Break idle) \<Longrightarrow> ok s1 n \<and> x1 = [] \<and> due s1 = Some (s1, Continue ())"
  using turn_acts_n [of s x n] by (auto simp: acts_def)

lemma split_idle:
  "seamless \<Longrightarrow> ok s (length x + length y) \<Longrightarrow> due s = Some (s, Continue ()) \<Longrightarrow> x \<noteq> [] \<Longrightarrow> y \<noteq> [] \<Longrightarrow>
   turn s x = Some (s1, x1, Break idle) \<Longrightarrow> same_turn alike idle (turn s (x @ y)) (turn s1 y)"
  using turn_acts [of s x y] by (auto simp: acts_def)

lemma split_continue:
  "seamless \<Longrightarrow> ok s (length x + length y) \<Longrightarrow> due s = Some (s, Continue ()) \<Longrightarrow> x \<noteq> [] \<Longrightarrow> y \<noteq> [] \<Longrightarrow>
   turn s x = Some (s1, x1, Continue u) \<Longrightarrow>
   turn s (x @ y) = Some (s1, x1 @ y, Continue ()) \<or>
   x1 = [] \<and> due s1 = Some (s1, Continue ()) \<and> same_turn alike idle (turn s (x @ y)) (turn s1 y)"
  using turn_acts [of s x y] by (auto simp: acts_def)

lemma split_break:
  "seamless \<Longrightarrow> ok s (length x + length y) \<Longrightarrow> due s = Some (s, Continue ()) \<Longrightarrow> x \<noteq> [] \<Longrightarrow> y \<noteq> [] \<Longrightarrow>
   turn s x = Some (s1, x1, Break r) \<Longrightarrow> r \<noteq> idle \<Longrightarrow>
   \<exists>s2 x2. turn s (x @ y) = Some (s2, x2, Break r) \<and> alike s2 s1"
  using turn_acts [of s x y] by (auto simp: acts_def)

lemma drive_steps:
  "due s = Some (s', Break r) \<Longrightarrow> drive s x = Some (s', r)"
  "due s = Some (s', Continue ()) \<Longrightarrow> drive s [] = Some (s', idle)"
  "due s = Some (s', Continue ()) \<Longrightarrow> x \<noteq> [] \<Longrightarrow> turn s' x = Some (s1, x1, Break r) \<Longrightarrow> drive s x = Some (s1, r)"
  "due s = Some (s', Continue ()) \<Longrightarrow> x \<noteq> [] \<Longrightarrow> turn s' x = Some (s1, x1, Continue ()) \<Longrightarrow> drive s x = drive s1 x1"
  by (subst drive_loop.simps; simp)+

lemma drive_cases:
  assumes "ok s (length x + n)"
  obtains (due_stop) s' r where "due s = Some (s', Break r)" "r \<noteq> idle" "\<And>y. drive s y = Some (s', r)"
  | (empty) s' where "due s = Some (s', Continue ())" "ok s' n" "due s' = Some (s', Continue ())" "x = []"
      "drive s x = Some (s', idle)"
  | (turn) s' s1 x1 fl where "due s = Some (s', Continue ())" "ok s' (length x + n)" "due s' = Some (s', Continue ())"
      "x \<noteq> []" "turn s' x = Some (s1, x1, fl)"
proof -
  obtain s' fl where d: "due s = Some (s', fl)" using due_total [OF assms] by auto
  show ?thesis
  proof (cases fl)
    case (Break r)
    with d due_break [OF assms] show ?thesis by (intro due_stop) (auto simp: drive_steps)
  next
    case (Continue u)
    with d due_ok [OF assms, of s' u] have c: "ok s' (length x + n)" "due s' = Some (s', Continue ())" by auto
    show ?thesis
    proof (cases "x = []")
      case True
      with c d Continue show ?thesis by (intro empty) (auto simp: drive_steps)
    next
      case False
      from c(1) have "ok s' (length x)" by (rule ok_room) simp
      from turn_total [OF this c(2) False] obtain s1 x1 fl1 where "turn s' x = Some (s1, x1, fl1)" by auto
      with c d Continue False show ?thesis by (intro turn) auto
    qed
  qed
qed

text \<open>The loop returns, and an idle machine is ready for what is still admitted.\<close>

lemma drive_returns:
  "ok s (length x + n) \<Longrightarrow> \<exists>s1 r. drive s x = Some (s1, r) \<and> (r = idle \<longrightarrow> ok s1 n \<and> due s1 = Some (s1, Continue ()))"
proof (induction "length x" arbitrary: s x rule: less_induct)
  case less
  from less.prems show ?case
  proof (cases rule: drive_cases)
    case (turn s' s1 x1 fl)
    show ?thesis
    proof (cases fl)
      case (Break r)
      with turn turn_idle [OF turn(2,3,4), of s1 x1] show ?thesis by (auto simp: drive_steps)
    next
      case (Continue u)
      with turn turn_continue [OF turn(2,3,4), of s1 x1 u] have "ok s1 (length x1 + n)" "length x1 < length x"
        "drive s x = drive s1 x1" by (auto simp: drive_steps)
      with less.hyps [of x1 s1] show ?thesis by simp
    qed
  qed auto
qed

text \<open>What every step keeps at the residue, the loop keeps; an idle loop has no residue.\<close>

lemma drive_keeps:
  assumes due: "\<And>s s1 fl n. due s = Some (s1, fl) \<Longrightarrow> K s n \<Longrightarrow> K s1 n"
    and turn: "\<And>s x s1 x1 fl. turn s x = Some (s1, x1, fl) \<Longrightarrow> ok s (length x) \<Longrightarrow> K s (length x) \<Longrightarrow> K s1 (length x1)"
  shows "ok s (length x) \<Longrightarrow> K s (length x) \<Longrightarrow> drive s x = Some (s1, r) \<Longrightarrow> \<exists>n. K s1 n \<and> (r = idle \<longrightarrow> n = 0)"
proof (induction "length x" arbitrary: s x rule: less_induct)
  case less
  have "ok s (length x + 0)" using less.prems(1) by simp
  then show ?case
  proof (cases rule: drive_cases)
    case (due_stop s' q)
    with less.prems(2,3) due [of s s' "Break q" "length x"] show ?thesis by auto
  next
    case (empty s')
    with less.prems(2,3) due [of s s' "Continue ()" "length x"] show ?thesis by auto
  next
    case (turn s' s2 x2 fl)
    note k = assms(2) [OF turn(5) _ due [OF turn(1) less.prems(2)]]
    show ?thesis
    proof (cases fl)
      case (Break q)
      with turn less.prems(3) have "s1 = s2" "r = q" by (auto simp: drive_steps)
      then show ?thesis using k turn turn_idle [OF turn(2,3,4)] Break by (intro exI [of _ "length x2"]) auto
    next
      case (Continue u)
      with turn turn_continue [OF turn(2,3,4), of s2 x2 u] less.prems(3) have "ok s2 (length x2)" "length x2 < length x"
        "drive s2 x2 = Some (s1, r)" by (auto simp: drive_steps)
      with less.hyps k turn(2) show ?thesis by auto
    qed
  qed
qed

text \<open>A chunk boundary is invisible to the loop.\<close>

lemma drive_turn_same:
  assumes "due s = Some (s', Continue ())" "ok s' (length x + length y)" "due s' = Some (s', Continue ())" "x \<noteq> []" "y \<noteq> []"
    and "due s1 = Some (s1, Continue ())" "ok s1 (length y)"
    and same: "same_turn alike idle (turn s' (x @ y)) (turn s1 y)"
  shows "same_drive alike idle (drive s (x @ y)) (drive s1 y)"
proof -
  obtain s2 x2 fl where t: "turn s1 y = Some (s2, x2, fl)" using turn_total [OF assms(7,6,5)] by auto
  with same obtain s3 where t3: "turn s' (x @ y) = Some (s3, x2, fl)" "alike s3 s2"
    "fl = Continue () \<or> fl = Break idle \<longrightarrow> s3 = s2" by (auto simp: same_turn_def)
  show ?thesis
  proof (cases fl)
    case (Break r)
    with t t3 assms(1,4,5,6) show ?thesis by (auto simp: same_drive_def drive_steps)
  next
    case (Continue u)
    with t3 have "s3 = s2" by simp
    with t t3 Continue assms(1,4,5,6) have "drive s (x @ y) = drive s2 x2" "drive s1 y = drive s2 x2"
      by (auto simp: drive_steps)
    moreover have "ok s2 (length x2 + 0)" using turn_continue [of s1 y 0 s2 x2 u] assms t Continue by simp
    from drive_returns [OF this] obtain s5 r where "drive s2 x2 = Some (s5, r)" by auto
    ultimately show ?thesis using alike_refl by (auto simp: same_drive_def)
  qed
qed

lemma drive_split:
  assumes seamless: seamless
  shows "ok s (length x + length y) \<Longrightarrow> drive s x = Some (s1, r) \<Longrightarrow>
   (r = idle \<longrightarrow> same_drive alike idle (drive s (x @ y)) (drive s1 y)) \<and>
   (r \<noteq> idle \<longrightarrow> (\<exists>s2. drive s (x @ y) = Some (s2, r) \<and> alike s2 s1))"
proof (induction "length x" arbitrary: s x rule: less_induct)
  case less
  note ret = drive_returns [OF less.prems(1)]
  show ?case
  proof (cases "y = []")
    case True
    with ret less.prems(2) have "r = idle \<Longrightarrow> due s1 = Some (s1, Continue ())" by auto
    with True less.prems(2) alike_refl show ?thesis by (auto simp: same_drive_def drive_steps)
  next
    case y: False
    from less.prems(1) show ?thesis
    proof (cases rule: drive_cases)
      case (due_stop s' r')
      with less.prems(2) alike_refl show ?thesis by auto
    next
      case (empty s')
      with less.prems(2) have s1: "s1 = s'" "r = idle" by auto
      obtain s2 x2 fl where t: "turn s' y = Some (s2, x2, fl)" using turn_total [OF empty(2,3) y] by auto
      have "drive s y = drive s' y" using empty(1,3) y t by (cases fl) (auto simp: drive_steps)
      moreover obtain s5 r5 where "drive s' y = Some (s5, r5)"
        using drive_returns [of s' y 0] empty(2) by auto
      ultimately show ?thesis using s1 empty(4) alike_refl by (simp add: same_drive_def)
    next
      case (turn s' t1 x1 fl)
      show ?thesis
      proof (cases fl)
        case (Break q)
        with turn less.prems(2) have q: "t1 = s1" "q = r" by (auto simp: drive_steps)
        show ?thesis
        proof (cases "r = idle")
          case True
          note t = turn(5) [unfolded Break q True]
          from turn_idle [OF turn(2-4) t] have "ok s1 (length y)" "due s1 = Some (s1, Continue ())" by auto
          with drive_turn_same [OF turn(1-4) y _ _ split_idle [OF seamless turn(2-4) y t]] True
          show ?thesis by simp
        next
          case False
          from split_break [OF seamless turn(2-4) y turn(5) [unfolded Break q] False] obtain s2 x2
            where "turn s' (x @ y) = Some (s2, x2, Break r)" "alike s2 s1" by blast
          with turn False show ?thesis by (auto simp: drive_steps)
        qed
      next
        case (Continue u)
        with turn less.prems(2) have d: "drive t1 x1 = Some (s1, r)" by (auto simp: drive_steps)
        from turn_continue [OF turn(2-4)] turn(5) Continue
        have o: "ok t1 (length x1 + length y)" "length x1 < length x" by auto
        from split_continue [OF seamless turn(2-4) y turn(5) [unfolded Continue]] show ?thesis
        proof
          assume "turn s' (x @ y) = Some (t1, x1 @ y, Continue ())"
          with turn have "drive s (x @ y) = drive t1 (x1 @ y)" by (auto simp: drive_steps)
          with less.hyps [OF o(2,1) d] show ?thesis by simp
        next
          assume a: "x1 = [] \<and> due t1 = Some (t1, Continue ()) \<and> same_turn alike idle (turn s' (x @ y)) (turn t1 y)"
          with d have "s1 = t1" "r = idle" by (auto simp: drive_steps)
          with a o drive_turn_same [OF turn(1-4) y, of t1] show ?thesis by simp
        qed
      qed
    qed
  qed
qed

end

section \<open>Feeding a list of chunks\<close>

fun feed_all :: "('s \<Rightarrow> bytes \<Rightarrow> ('s \<times> 'r) option) \<Rightarrow> 'r \<Rightarrow> 's \<Rightarrow> bytes list \<Rightarrow> ('s \<times> 'r) option" where
  "feed_all feed idle s [] = Some (s, idle)"
| "feed_all feed idle s (x # xs) =
     do { (s', r) \<leftarrow> feed s x; if r = idle then feed_all feed idle s' xs else Some (s', r) }"

text \<open>A feed that, on an admitted chunk, is the loop between two state changes of its own.\<close>

locale feeding = turning due turn idle ok alike seamless
  for due :: "'s \<Rightarrow> ('s \<times> ('r, unit) control_flow) option"
    and turn :: "'s \<Rightarrow> bytes \<Rightarrow> ('s \<times> bytes \<times> ('r, unit) control_flow) option"
    and idle :: 'r and ok :: "'s \<Rightarrow> nat \<Rightarrow> bool" and alike :: "'s \<Rightarrow> 's \<Rightarrow> bool" and seamless +
  fixes feed :: "'s \<Rightarrow> bytes \<Rightarrow> ('s \<times> 'r) option"
    and ready :: "'s \<Rightarrow> nat \<Rightarrow> bool" and start :: "'s \<Rightarrow> 's" and fin :: "'s \<Rightarrow> 'r \<Rightarrow> 's"
  assumes feed_drive: "ready s (length x) \<Longrightarrow>
      feed s x = map_option (\<lambda>(s', r). (fin s' r, r)) (drive_loop due turn idle (start s) x)"
    and ready_room: "ready s n \<Longrightarrow> m \<le> n \<Longrightarrow> ready s m"
    and ready_ok: "ready s n \<Longrightarrow> ok (start s) n"
    and ready_back: "ok s n \<Longrightarrow> ready (fin s idle) n \<and> start (fin s idle) = s"
    and fin_alike: "alike s1 s2 \<Longrightarrow> alike (fin s1 r) (fin s2 r)"
begin

lemma feed_returns:
  assumes "ready s (length x + n)" and "ready s (length x)"
  shows "\<exists>s1 r. feed s x = Some (s1, r) \<and> (r = idle \<longrightarrow> ready s1 n)"
proof -
  from drive_returns [OF ready_ok [OF assms(1)]] obtain s1 r where "drive (start s) x = Some (s1, r)"
    "r = idle \<longrightarrow> ok s1 n" by blast
  with feed_drive [OF assms(2)] ready_back [of s1 n] show ?thesis by auto
qed

text \<open>A session returns, however its stream is cut and whatever its verdict.\<close>

lemma feed_all_returns:
  "ready s (length (concat xs)) \<Longrightarrow>
   \<exists>s1 r. feed_all feed idle s xs = Some (s1, r) \<and> (r = idle \<longrightarrow> ready s1 0)"
proof (induction xs arbitrary: s)
  case (Cons x xs)
  then have "ready s (length x + length (concat xs))" "ready s (length x)"
    using ready_room [OF Cons.prems, of "length x"] by simp_all
  from feed_returns [OF this] obtain s1 r where "feed s x = Some (s1, r)" "r = idle \<longrightarrow> ready s1 (length (concat xs))"
    by blast
  with Cons.IH [of s1] show ?case by auto
qed simp

lemma feed_append:
  assumes seamless "ready s (length x + length y)" "ready s (length x)" "feed s x = Some (s1, r)"
  shows "r = idle \<Longrightarrow> same_drive alike idle (feed s (x @ y)) (feed s1 y)"
    and "r \<noteq> idle \<Longrightarrow> \<exists>s2. feed s (x @ y) = Some (s2, r) \<and> alike s2 s1"
proof -
  note ok = ready_ok [OF assms(2)]
  from assms(3,4) feed_drive obtain t1 where t1: "drive (start s) x = Some (t1, r)" "s1 = fin t1 r" by auto
  have xy: "feed s (x @ y) = map_option (\<lambda>(s', r). (fin s' r, r)) (drive (start s) (x @ y))"
    using assms(2) by (intro feed_drive) simp
  note sp = drive_split [OF assms(1) ok t1(1)]
  show "\<exists>s2. feed s (x @ y) = Some (s2, r) \<and> alike s2 s1" if "r \<noteq> idle"
    using sp that xy t1(2) fin_alike by auto
  assume r: "r = idle"
  from drive_returns [OF ok] t1(1) r have "ok t1 (length y)" by auto
  with r t1(2) ready_back have b: "ready s1 (length y)" "start s1 = t1" by auto
  from sp r have "same_drive alike idle (drive (start s) (x @ y)) (drive t1 y)" by simp
  then show "same_drive alike idle (feed s (x @ y)) (feed s1 y)"
    unfolding xy feed_drive [OF b(1)] b(2) using fin_alike by (auto simp: same_drive_def)
qed

text \<open>Where a stream is cut does not matter.\<close>

lemma feed_all_concat:
  assumes seamless: seamless
  shows "ready s (length (concat xs)) \<Longrightarrow> xs \<noteq> [] \<Longrightarrow>
   same_drive alike idle (feed_all feed idle s xs) (feed s (concat xs))"
proof (induction xs arbitrary: s)
  case (Cons x xs)
  have rd: "ready s (length x + length (concat xs))" "ready s (length x)"
    using Cons.prems(1) ready_room [OF Cons.prems(1), of "length x"] by simp_all
  obtain s1 r where f: "feed s x = Some (s1, r)" "r = idle \<longrightarrow> ready s1 (length (concat xs))"
    using feed_returns [OF rd] by blast
  note ap = feed_append [OF seamless rd f(1)]
  show ?case
  proof (cases "r = idle")
    case False
    with ap(2) f obtain s2 where "feed s (x @ concat xs) = Some (s2, r)" "alike s2 s1" by blast
    moreover have "alike s1 s2" if "alike s2 s1" for s1 s2 :: 's using alike_sym that .
    ultimately show ?thesis using False f by (auto simp: same_drive_def)
  next
    case True
    show ?thesis
    proof (cases "xs = []")
      case True
      with f \<open>r = idle\<close> alike_refl show ?thesis by (simp add: same_drive_def)
    next
      case False
      with Cons.IH [of s1] f True have ih: "same_drive alike idle (feed_all feed idle s1 xs) (feed s1 (concat xs))"
        by simp
      then obtain t1 t2 q where q: "feed_all feed idle s1 xs = Some (t1, q)" "feed s1 (concat xs) = Some (t2, q)"
        "alike t1 t2" "q = idle \<longrightarrow> t1 = t2" by (auto simp: same_drive_def)
      with ap(1) [OF True] obtain t3 where t3: "feed s (x @ concat xs) = Some (t3, q)" "alike t3 t2"
        "q = idle \<longrightarrow> t3 = t2" by (auto simp: same_drive_def)
      have "alike t1 t3" using q(3) t3(2) alike_sym alike_trans by blast
      moreover have "feed_all feed idle s (x # xs) = Some (t1, q)" using f(1) True q(1) by simp
      ultimately show ?thesis using t3 q(4) by (auto simp: same_drive_def)
    qed
  qed
qed simp

end

end
