(* ===== verification/Scan.thy ===== *)
theory Scan
  imports Pump Turn
begin

text \<open>
  The dialect-orthogonal scan vocabulary (\<open>src/src/scan.rs\<close>): read faults in stream coordinates, a
  feed's outcomes, the per-length disposition and the resume modes. A counted mode's \<open>NonZeroU32\<close> is
  a \<open>u32\<close> whose zero the constructors never build.
\<close>

datatype stream_fault = SealCut | StreamEnd | StreamTooWide | StreamOutOfClass

datatype flow = FlowMore | FlowStopped

datatype len_disposition = Commit | OpaqueBytes | OpaqueSkip

datatype mode =
    MHead
  | MVarintValue field_number
  | MLenWord field_number
  | MFixedTail field_number fixed_kind
  | MForward u32
  | MSwallow u32

text \<open>\<open>NonZeroU32::new(n).map_or(head, counted)\<close>.\<close>

definition counted :: "'m \<Rightarrow> (u32 \<Rightarrow> 'm) \<Rightarrow> u32 \<Rightarrow> 'm" where
  "counted quiet busy n = (if n = 0 then quiet else busy n)"

text \<open>\<open>remaining.get().min(u32::try_from(chunk.len()).unwrap_or(u32::MAX))\<close>.\<close>

definition count_take :: "u32 \<Rightarrow> bytes \<Rightarrow> u32" where
  "count_take remaining chunk =
     min remaining (if length chunk < 2 ^ 32 then of_nat (length chunk) else - 1)"

lemma unat_count_take: "unat (count_take r x) = min (unat r) (length x)"
proof (cases "length x < 2 ^ 32")
  case True
  then have "unat (of_nat (length x) :: u32) = length x" by (simp add: unat_of_nat)
  with True show ?thesis by (simp add: count_take_def min_def word_le_nat_alt)
next
  case False
  have "unat r < 2 ^ 32" using unsigned_less [of r, where 'a = nat] by simp
  moreover have "count_take r x = r" using False by (simp add: count_take_def min_absorb1)
  ultimately show ?thesis using False by simp
qed

lemma unat_count_left: "unat (r - count_take r x) = unat r - length x"
proof -
  have "count_take r x \<le> r" by (simp add: count_take_def)
  then have "unat (r - count_take r x) = unat r - unat (count_take r x)" by (simp add: unat_sub)
  then show ?thesis by (simp add: unat_count_take)
qed

text \<open>Counting over a cut chunk counts the whole.\<close>

lemma count_split:
  assumes "length x < unat r"
  shows "r - count_take r x - count_take (r - count_take r x) y = r - count_take r (x @ y)"
    and "unat (count_take (r - count_take r x) y) + length x = unat (count_take r (x @ y))"
proof -
  have l: "unat (r - count_take r x) = unat r - length x" by (rule unat_count_left)
  have "unat (r - count_take r x - count_take (r - count_take r x) y) = unat r - length x - length y"
    unfolding unat_count_left [of "r - count_take r x" y] l ..
  moreover have "unat (r - count_take r (x @ y)) = unat r - (length x + length y)"
    unfolding unat_count_left by simp
  ultimately show "r - count_take r x - count_take (r - count_take r x) y = r - count_take r (x @ y)"
    by (simp add: word_eq_unat_iff)
  show "unat (count_take (r - count_take r x) y) + length x = unat (count_take r (x @ y))"
    unfolding unat_count_take l length_append using assms by linarith
qed

end
