(* ===== verification/Reading.thy ===== *)
theory Reading
  imports Pump Grammar
begin

text \<open>
  What the stream readers read where no construct is in flight: a completed step consumed exactly one
  spelling of its value, at a width the window admits. The carry kernel meets the grammar here; the
  scanners rest on it.
\<close>

section \<open>What a fresh step reads\<close>

context window
begin

lemma carry_step_new:
  fixes x :: bytes
  assumes "off \<le> z" "0 < cap"
  defines "x0 \<equiv> take (z - off) x"
  shows "\<exists>c1 k b. carry_step cap lst carry_new x off z =
      Some (c1, drop k x, off + k, step_result b (ref_read cap lst x0)) \<and>
    cbuf c1 = take k x \<and> k \<le> length x0 \<and> (\<forall>r w. ref_read cap lst x0 = VDone r w \<longrightarrow> k = w)"
proof -
  from carry_step_ref [OF carry_open_new [OF assms(2)] assms(1), of x] obtain c1 x1 off1 r1 where
    "carry_step cap lst carry_new x off z = Some (c1, x1, off1, r1)"
    "step_spec cap lst carry_new x off z (c1, x1, off1, r1)" by auto
  then show ?thesis
    by (auto simp: step_spec_def Let_def ref_read_def x0_def taken_def split: verdict.splits)
qed

end

locale spelled = word_reader step cap + varint_face read cap lst
  for step :: "carry \<Rightarrow> bytes \<Rightarrow> nat \<Rightarrow> nat \<Rightarrow> (carry \<times> bytes \<times> nat \<times> 'v::len word step) option"
    and read :: "bytes \<Rightarrow> nat \<Rightarrow> nat \<Rightarrow> (read_fault + ('v word \<times> nat)) option" and cap lst +
  assumes fresh: "off \<le> z \<Longrightarrow> \<exists>c1 k b. step carry_new x off z =
      Some (c1, drop k x, off + k, map_step of_nat (case ref_read cap lst (take (z - off) x) of 
         VDone r w \<Rightarrow> StDone r | VTooWide \<Rightarrow> StTooWide | VOutOfClass \<Rightarrow> StOutOfClass | VTruncated \<Rightarrow> if b then StCut else StMore)) \<and>
    cbuf c1 = take k x \<and> k \<le> length (take (z - off) x) \<and> (\<forall>r w. ref_read cap lst (take (z - off) x) = VDone r w \<longrightarrow> k = w)"
begin

lemma fresh_done_iff:
  assumes "off \<le> z"
  shows "(\<exists>c1. step carry_new x off z = Some (c1, x1, off1, StDone v) \<and> carry_len c1 = w) \<longleftrightarrow>
    off1 = off + w \<and> off1 \<le> z \<and> 0 < w \<and> w \<le> cap \<and> unat v < 128 ^ w \<and> x = enc w (unat v) @ x1"
proof -
  let ?x = "take (z - off) x"
  have e: "extent_of ?x 0 (length ?x) = ?x" by (simp only: extent_of_def drop_0 diff_zero take_all order_refl)
  from fresh [OF assms, of x] obtain c1 k b where s: "step carry_new x off z =
      Some (c1, drop k x, off + k, map_step of_nat (case ref_read cap lst ?x of 
         VDone r w \<Rightarrow> StDone r | VTooWide \<Rightarrow> StTooWide | VOutOfClass \<Rightarrow> StOutOfClass | VTruncated \<Rightarrow> if b then StCut else StMore))"
    "cbuf c1 = take k x" "k \<le> length ?x" "\<forall>r w. ref_read cap lst ?x = VDone r w \<longrightarrow> k = w" by blast
  have "(\<exists>c1. step carry_new x off z = Some (c1, x1, off1, StDone v) \<and> carry_len c1 = w) \<longleftrightarrow>
    read ?x 0 (length ?x) = Some (Inr (v, w)) \<and> x1 = drop w x \<and> off1 = off + w"
    using s(3,4) read_ref [of "length ?x" ?x 0, unfolded e]
    by (auto simp: s(1,2) carry_len_def result_of_def split: verdict.splits if_splits)
  also have "\<dots> \<longleftrightarrow> 0 < w \<and> w \<le> cap \<and> unat v < 128 ^ w \<and> (\<exists>rest. ?x = enc w (unat v) @ rest) \<and>
      x1 = drop w x \<and> off1 = off + w"
    using read_suffix_iff [of 0 ?x v w] by auto
  also have "\<dots> \<longleftrightarrow> off1 = off + w \<and> off1 \<le> z \<and> 0 < w \<and> w \<le> cap \<and> unat v < 128 ^ w \<and> x = enc w (unat v) @ x1"
  proof -
    have "(\<exists>rest. ?x = enc w (unat v) @ rest) \<and> x1 = drop w x \<longleftrightarrow> w \<le> z - off \<and> x = enc w (unat v) @ x1"
    proof
      assume a: "(\<exists>rest. ?x = enc w (unat v) @ rest) \<and> x1 = drop w x"
      then obtain rest where r: "?x = enc w (unat v) @ rest" by blast
      from arg_cong [OF r, of length] have l: "w \<le> z - off" by simp
      have "take w x = take w ?x" using l by (simp add: min_absorb1)
      also have "\<dots> = enc w (unat v)" unfolding r by simp
      finally show "w \<le> z - off \<and> x = enc w (unat v) @ x1" using l a by (metis append_take_drop_id)
    next
      assume a: "w \<le> z - off \<and> x = enc w (unat v) @ x1"
      then show "(\<exists>rest. ?x = enc w (unat v) @ rest) \<and> x1 = drop w x"
        by (metis append_eq_conv_conj length_enc take_all_iff take_append)
    qed
    then show ?thesis using assms by auto
  qed
  finally show ?thesis .
qed

lemma root_reads_iff:
  assumes "rp_carry p = carry_new" "rp_off p + length x < u64_max"
  shows "root_held step minimal standard p x = Some (p', x', RvDone v) \<longleftrightarrow>
    (\<exists>w. 0 < w \<and> w \<le> cap \<and> unat v < 128 ^ w \<and> x = enc w (unat v) @ x' \<and>
      (standard = CanonicalMinimal \<longrightarrow> w = minimal v) \<and> p' = p\<lparr>rp_carry := carry_new, rp_off := rp_off p + w\<rparr>)"
proof -
  have z: "rp_off p \<le> ROOT_ZONE" using assms(2) by (simp add: ROOT_ZONE_def)
  have "root_held step minimal standard p x = Some (p', x', RvDone v) \<longleftrightarrow>
      (\<exists>c1 off1 w. (step carry_new x (rp_off p) ROOT_ZONE = Some (c1, x', off1, StDone v) \<and> carry_len c1 = w) \<and>
        (standard = CanonicalMinimal \<longrightarrow> w = minimal v) \<and> p' = p\<lparr>rp_carry := carry_new, rp_off := off1\<rparr>)"
    by (auto simp: root_held_def assms(1) width_padded_def split: bind_splits step.splits if_splits)
  also have "\<dots> \<longleftrightarrow> (\<exists>off1 w. (\<exists>c1. step carry_new x (rp_off p) ROOT_ZONE = Some (c1, x', off1, StDone v) \<and> carry_len c1 = w) \<and>
        (standard = CanonicalMinimal \<longrightarrow> w = minimal v) \<and> p' = p\<lparr>rp_carry := carry_new, rp_off := off1\<rparr>)"
    by blast
  also have "\<dots> \<longleftrightarrow> (\<exists>w. 0 < w \<and> w \<le> cap \<and> unat v < 128 ^ w \<and> x = enc w (unat v) @ x' \<and>
      (standard = CanonicalMinimal \<longrightarrow> w = minimal v) \<and> p' = p\<lparr>rp_carry := carry_new, rp_off := rp_off p + w\<rparr>)"
  proof -
    have "rp_off p + w \<le> ROOT_ZONE" if "x = enc w (unat v) @ x'" for w
      using arg_cong [OF that, of length] assms(2) by (simp add: ROOT_ZONE_def)
    then show ?thesis unfolding fresh_done_iff [OF z] by blast
  qed
  finally show ?thesis .
qed

end

context window
begin

lemma face_spelled:
  fixes read :: "bytes \<Rightarrow> nat \<Rightarrow> nat \<Rightarrow> (read_fault + ('v::len word \<times> nat)) option"
  assumes "word_reader stp cap" "varint_face read cap lst" "LENGTH('v) \<le> 64"
    and f: "\<And>c x off z. carry_open cap c \<Longrightarrow> off \<le> z \<Longrightarrow> stp c x off z = face_of ucast (carry_step cap lst c x off z)"
  shows "spelled stp read cap lst"
proof (intro spelled.intro assms(1,2) spelled_axioms.intro)
  fix off z :: nat and x
  assume z: "off \<le> z"
  have cap: "0 < cap" using cap_two by simp
  from carry_step_new [OF z cap, of x] obtain c1 k b where
    s: "carry_step cap lst carry_new x off z =
      Some (c1, drop k x, off + k, step_result b (ref_read cap lst (take (z - off) x)))"
    "cbuf c1 = take k x" "k \<le> length (take (z - off) x)"
    "\<forall>r w. ref_read cap lst (take (z - off) x) = VDone r w \<longrightarrow> k = w" by blast
  show "\<exists>c1 k b. stp carry_new x off z =
      Some (c1, drop k x, off + k, map_step of_nat (case ref_read cap lst (take (z - off) x) of 
         VDone r w \<Rightarrow> StDone r | VTooWide \<Rightarrow> StTooWide | VOutOfClass \<Rightarrow> StOutOfClass | VTruncated \<Rightarrow> if b then StCut else StMore)) \<and>
    cbuf c1 = take k x \<and> k \<le> length (take (z - off) x) \<and> (\<forall>r w. ref_read cap lst (take (z - off) x) = VDone r w \<longrightarrow> k = w)"
    using s assms(3)
    by (intro exI [of _ c1] exI [of _ k] exI [of _ b])
      (auto simp: f [OF carry_open_new [OF cap] z] face_of_def step_result_def ucast_of_nat split: verdict.splits)
qed

end

interpretation tag_spelled: spelled step_tag tag_word MAX_LEN32 LAST32
  by (rule tag_window.face_spelled [OF tag_reader.word_reader_axioms tag_face.varint_face_axioms]) (simp_all add: step_tag_face)

interpretation len_spelled: spelled step_len len_word MAX_LEN32 LAST_LEN
  by (rule len_window.face_spelled [OF len_reader.word_reader_axioms len_face.varint_face_axioms]) (simp_all add: step_len_face)

lemma ucast_u64_id: "ucast = (id :: u64 \<Rightarrow> u64)"
  by (simp add: fun_eq_iff)

interpretation value_spelled: spelled step_value64 value64 MAX_LEN64 LAST64
  by (rule value_window.face_spelled [OF value_reader.word_reader_axioms value_face.varint_face_axioms])
    (simp_all add: step_value64_face ucast_u64_id)

end
