(* ===== verification/Scan_Groupless.thy ===== *)
theory Scan_Groupless
  imports Scan Reading
begin

text \<open>
  The groupless stream scanner (\<open>src/src/scan/groupless.rs\<close>): its faults and the sink-free
  \<open>Validator\<close> over the root pump. The chunk a handler advances is threaded; a handler's
  \<open>ControlFlow\<close> is a value. \<open>None\<close> is a panic (\<open>feed\<close> after the terminal latch), an unreachable
  branch, or a subtraction below zero.
\<close>

section \<open>Faults\<close>

datatype scan_kind_gl =
    SgRead stage stream_fault
  | SgFieldZero
  | SgUnassigned field_number low3
  | SgLenOverrun field_number payload_len
  | SgFixedOverrun field_number
  | SgFixedTruncated field_number
  | SgPayloadTruncated u32
  | SgUnclosedLen field_number
  | SgNonMinimalTag
  | SgNonMinimalLen field_number
  | SgNonMinimalValue field_number
  | SgDepthExceeded field_number
  | SgGroupCode field_number low3
  | SgOffsetExhausted
  | SgLenUnsatisfiable field_number payload_len

record scan_fault_gl =
  sg_at :: nat
  sg_kind :: scan_kind_gl

fun scan_padded_gl :: "stage \<Rightarrow> scan_kind_gl" where
  "scan_padded_gl StageTag = SgNonMinimalTag"
| "scan_padded_gl (StageLenPrefix field) = SgNonMinimalLen field"
| "scan_padded_gl (StageValue field) = SgNonMinimalValue field"

fun scan_class_gl :: "scan_kind_gl \<Rightarrow> fault_class" where
  "scan_class_gl (SgRead _ _) = Grammar"
| "scan_class_gl SgFieldZero = Grammar"
| "scan_class_gl (SgUnassigned _ _) = Grammar"
| "scan_class_gl (SgLenOverrun _ _) = Grammar"
| "scan_class_gl (SgFixedOverrun _) = Grammar"
| "scan_class_gl (SgFixedTruncated _) = Grammar"
| "scan_class_gl (SgPayloadTruncated _) = Grammar"
| "scan_class_gl (SgUnclosedLen _) = Grammar"
| "scan_class_gl SgNonMinimalTag = Policy"
| "scan_class_gl (SgNonMinimalLen _) = Policy"
| "scan_class_gl (SgNonMinimalValue _) = Policy"
| "scan_class_gl (SgDepthExceeded _) = Policy"
| "scan_class_gl (SgGroupCode _ _) = Capability"
| "scan_class_gl SgOffsetExhausted = Capability"
| "scan_class_gl (SgLenUnsatisfiable _ _) = Capability"

section \<open>The validator\<close>

datatype resume =
    RHead
  | RVarintValue field_number
  | RLenWord field_number
  | RFixedTail field_number fixed_kind
  | RSwallow u32

record validator_gl =
  va_pump :: root_pump
  va_mode :: resume

type_synonym va_result = "scan_fault_gl + unit"

type_synonym va_turn = "(validator_gl \<times> bytes \<times> (va_result, unit) control_flow) option"

definition va_new :: "standard \<Rightarrow> validator_gl" where
  "va_new standard = \<lparr>va_pump = root_new standard, va_mode = RHead\<rparr>"

definition va_offset :: "validator_gl \<Rightarrow> nat" where
  "va_offset v = rp_off (va_pump v)"

definition va_fault :: "validator_gl \<Rightarrow> nat \<Rightarrow> scan_kind_gl \<Rightarrow> validator_gl \<times> scan_fault_gl" where
  "va_fault v at kind = (v\<lparr>va_pump := (va_pump v)\<lparr>rp_terminal := True\<rparr>\<rparr>, \<lparr>sg_at = at, sg_kind = kind\<rparr>)"

definition va_halt :: "validator_gl \<Rightarrow> bytes \<Rightarrow> nat \<Rightarrow> scan_kind_gl \<Rightarrow> va_turn" where
  "va_halt v chunk at kind = (case va_fault v at kind of (v', f) \<Rightarrow> Some (v', chunk, Break (Inl f)))"

definition va_halt_read :: "validator_gl \<Rightarrow> bytes \<Rightarrow> stage \<Rightarrow> stream_fault \<Rightarrow> va_turn" where
  "va_halt_read v chunk stage cause =
     do { at \<leftarrow> root_construct_start (va_pump v); va_halt v chunk at (SgRead stage cause) }"

definition va_halt_padded :: "validator_gl \<Rightarrow> bytes \<Rightarrow> stage \<Rightarrow> va_turn" where
  "va_halt_padded v chunk stage =
     do { at \<leftarrow> root_construct_start (va_pump v); va_halt v chunk at (scan_padded_gl stage) }"

definition va_varint_value :: "bool \<Rightarrow> field_number \<Rightarrow> validator_gl \<Rightarrow> bytes \<Rightarrow> va_turn" where
  "va_varint_value MINIMAL field v chunk =
     do { (p, chunk, verdict) \<leftarrow> root_step_value (va_pump v) chunk (standard_of MINIMAL);
          let v = v\<lparr>va_pump := p\<rparr> in
          (case verdict of
             RvDone _ \<Rightarrow> Some (v\<lparr>va_mode := RHead\<rparr>, chunk, Continue ())
           | RvMore \<Rightarrow> Some (v\<lparr>va_mode := RVarintValue field\<rparr>, chunk, Break (Inr ()))
           | RvTooWide \<Rightarrow> va_halt_read v chunk (StageValue field) StreamTooWide
           | RvOutOfClass \<Rightarrow> va_halt_read v chunk (StageValue field) StreamOutOfClass
           | RvNonMinimal \<Rightarrow> va_halt_padded v chunk (StageValue field)) }"

definition va_len_word :: "bool \<Rightarrow> field_number \<Rightarrow> validator_gl \<Rightarrow> bytes \<Rightarrow> va_turn" where
  "va_len_word MINIMAL field v chunk =
     do { (p, chunk, verdict) \<leftarrow> root_step_len (va_pump v) chunk (standard_of MINIMAL);
          let v = v\<lparr>va_pump := p\<rparr> in
          (case verdict of
             RvDone len \<Rightarrow>
               let end = rp_off p + usize_of (len_inner len) in
               if end \<le> u64_max \<and> end \<noteq> u64_max
               then Some (v\<lparr>va_mode := counted RHead RSwallow (len_inner len)\<rparr>, chunk, Continue ())
               else va_halt v chunk (rp_off p) (SgLenUnsatisfiable field len)
           | RvMore \<Rightarrow> Some (v\<lparr>va_mode := RLenWord field\<rparr>, chunk, Break (Inr ()))
           | RvTooWide \<Rightarrow> va_halt_read v chunk (StageLenPrefix field) StreamTooWide
           | RvOutOfClass \<Rightarrow> va_halt_read v chunk (StageLenPrefix field) StreamOutOfClass
           | RvNonMinimal \<Rightarrow> va_halt_padded v chunk (StageLenPrefix field)) }"

definition va_fixed_tail :: "field_number \<Rightarrow> fixed_kind \<Rightarrow> validator_gl \<Rightarrow> bytes \<Rightarrow> va_turn" where
  "va_fixed_tail field kind v chunk =
     do { (p, chunk, bytes) \<leftarrow> root_grab_fixed (fixed_need kind) (va_pump v) chunk;
          let v = v\<lparr>va_pump := p\<rparr> in
          Some (case bytes of
              None \<Rightarrow> (v\<lparr>va_mode := RFixedTail field kind\<rparr>, chunk, Break (Inr ()))
            | Some _ \<Rightarrow> (v\<lparr>va_mode := RHead\<rparr>, chunk, Continue ())) }"

definition va_swallow :: "u32 \<Rightarrow> validator_gl \<Rightarrow> bytes \<Rightarrow> va_turn" where
  "va_swallow remaining v chunk =
     (let tk = count_take remaining chunk in
      Some (v\<lparr>va_pump := (va_pump v)\<lparr>rp_off := rp_off (va_pump v) + unat tk\<rparr>,
              va_mode := counted RHead RSwallow (remaining - tk)\<rparr>, drop (unat tk) chunk, Continue ()))"

definition va_head :: "bool \<Rightarrow> validator_gl \<Rightarrow> bytes \<Rightarrow> va_turn" where
  "va_head MINIMAL v chunk =
     do { start \<leftarrow> root_construct_start (va_pump v);
          (p, chunk, verdict) \<leftarrow> root_step_tag (va_pump v) chunk (standard_of MINIMAL);
          let v = v\<lparr>va_pump := p\<rparr> in
          (case verdict of
             RvDone word \<Rightarrow>
               let low3 = Low3_from_word word in
               (case FieldNumber_from_word word of
                  None \<Rightarrow> va_halt v chunk start SgFieldZero
                | Some field \<Rightarrow>
                    (case classify_gl low3 of
                       GlRecord GlVarint \<Rightarrow> va_varint_value MINIMAL field v chunk
                     | GlRecord GlLen \<Rightarrow> va_len_word MINIMAL field v chunk
                     | GlRecord kind \<Rightarrow>
                         let fixed = (if kind = GlI64 then FixI64 else FixI32) in
                         do { room \<leftarrow> usub u64_max (rp_off p);
                              if room < fixed_need fixed then va_halt v chunk (rp_off p) (SgFixedOverrun field)
                              else va_fixed_tail field fixed v chunk }
                     | GlGroupCode \<Rightarrow> va_halt v chunk start (SgGroupCode field low3)
                     | GlUnassigned \<Rightarrow> va_halt v chunk start (SgUnassigned field low3)))
           | RvMore \<Rightarrow> Some (v, chunk, Break (Inr ()))
           | RvTooWide \<Rightarrow> va_halt_read v chunk StageTag StreamTooWide
           | RvOutOfClass \<Rightarrow> va_halt_read v chunk StageTag StreamOutOfClass
           | RvNonMinimal \<Rightarrow> va_halt_padded v chunk StageTag) }"

definition va_turn :: "bool \<Rightarrow> validator_gl \<Rightarrow> bytes \<Rightarrow> va_turn" where
  "va_turn MINIMAL v chunk =
     (case va_mode v of
        RHead \<Rightarrow> va_head MINIMAL v chunk
      | RVarintValue field \<Rightarrow> va_varint_value MINIMAL field v chunk
      | RLenWord field \<Rightarrow> va_len_word MINIMAL field v chunk
      | RFixedTail field kind \<Rightarrow> va_fixed_tail field kind v chunk
      | RSwallow remaining \<Rightarrow> va_swallow remaining v chunk)"

definition va_due :: "validator_gl \<Rightarrow> (validator_gl \<times> (va_result, unit) control_flow) option" where
  "va_due v = Some (v, Continue ())"

definition va_drive :: "bool \<Rightarrow> validator_gl \<Rightarrow> bytes \<Rightarrow> (validator_gl \<times> va_result) option" where
  "va_drive MINIMAL v chunk = drive_loop va_due (va_turn MINIMAL) (Inr ()) v chunk"

definition va_feed :: "validator_gl \<Rightarrow> bytes \<Rightarrow> (validator_gl \<times> va_result) option" where
  "va_feed v chunk =
     (if rp_terminal (va_pump v) then None
      else if \<not> root_admits (va_pump v) chunk
      then (case va_fault v (rp_off (va_pump v)) SgOffsetExhausted of (v', f) \<Rightarrow> Some (v', Inl f))
      else (case rp_standard (va_pump v) of
              Tolerant \<Rightarrow> va_drive False v chunk
            | CanonicalMinimal \<Rightarrow> va_drive True v chunk))"

definition va_finish :: "validator_gl \<Rightarrow> va_result option" where
  "va_finish v =
     (if rp_terminal (va_pump v) then None
      else
        let refuse = (\<lambda>kind. Some (Inl \<lparr>sg_at = rp_off (va_pump v), sg_kind = kind\<rparr>)) in
        (case va_mode v of
           RHead \<Rightarrow>
             if carry_is_empty (rp_carry (va_pump v)) then Some (Inr ()) else refuse (SgRead StageTag StreamEnd)
         | RVarintValue field \<Rightarrow> refuse (SgRead (StageValue field) StreamEnd)
         | RLenWord field \<Rightarrow> refuse (SgRead (StageLenPrefix field) StreamEnd)
         | RFixedTail field _ \<Rightarrow> refuse (SgFixedTruncated field)
         | RSwallow remaining \<Rightarrow> refuse (SgPayloadTruncated remaining)))"

section \<open>The validator owes its loop\<close>

fun resume_ok :: "resume \<Rightarrow> root_pump \<Rightarrow> bool" where
  "resume_ok RHead p \<longleftrightarrow> carry_open MAX_LEN32 (rp_carry p)"
| "resume_ok (RVarintValue _) p \<longleftrightarrow> carry_open MAX_LEN64 (rp_carry p)"
| "resume_ok (RLenWord _) p \<longleftrightarrow> carry_open MAX_LEN32 (rp_carry p)"
| "resume_ok (RFixedTail _ kind) p \<longleftrightarrow> fixed_open (fixed_need kind) (rp_carry p) \<and>
     rp_off p + (fixed_need kind - carry_len (rp_carry p)) \<le> u64_max"
| "resume_ok (RSwallow remaining) p \<longleftrightarrow> rp_carry p = carry_new \<and> remaining \<noteq> 0"

text \<open>A running validator with room for \<open>n\<close> more bytes, whatever its mode.\<close>

definition va_room :: "bool \<Rightarrow> validator_gl \<Rightarrow> nat \<Rightarrow> bool" where
  "va_room m v n \<longleftrightarrow> \<not> rp_terminal (va_pump v) \<and> rp_standard (va_pump v) = standard_of m \<and>
     rp_off (va_pump v) + n < u64_max \<and> carry_len (rp_carry (va_pump v)) \<le> rp_off (va_pump v)"

definition va_ok :: "bool \<Rightarrow> validator_gl \<Rightarrow> nat \<Rightarrow> bool" where
  "va_ok m v n \<longleftrightarrow> va_room m v n \<and> resume_ok (va_mode v) (va_pump v)"

text \<open>Alike to its owner: the offset and the terminal latch. After a fault nothing else is observable.\<close>

definition va_alike :: "validator_gl \<Rightarrow> validator_gl \<Rightarrow> bool" where
  "va_alike v w \<longleftrightarrow> rp_off (va_pump v) = rp_off (va_pump w) \<and>
     rp_terminal (va_pump v) = rp_terminal (va_pump w) \<and> rp_standard (va_pump v) = rp_standard (va_pump w)"

abbreviation va_acts where
  "va_acts N m act v x y \<equiv> acts True N (va_ok m) va_alike (Inr ()) va_due (va_turn m) act v x y"

lemma MAX_LEN_pos [simp]: "0 < MAX_LEN32" "0 < MAX_LEN64"
  by (simp_all add: tag_reader.cap_pos value_reader.cap_pos)

lemma start_of: "carry_len (rp_carry p) \<le> rp_off p \<Longrightarrow> root_construct_start p = Some (rp_off p - carry_len (rp_carry p))"
  by (simp add: root_construct_start_def usub_def)

lemma start_cong:
  "rp_off p = rp_off q \<Longrightarrow> carry_len (rp_carry p) = carry_len (rp_carry q) \<Longrightarrow>
   root_construct_start p = root_construct_start q"
  by (simp add: root_construct_start_def)

lemma va_haltI:
  "va_halt v x at kind = Some (v\<lparr>va_pump := (va_pump v)\<lparr>rp_terminal := True\<rparr>\<rparr>, x, Break (Inl \<lparr>sg_at = at, sg_kind = kind\<rparr>))"
  by (simp add: va_halt_def va_fault_def)

text \<open>The common shape of the word operations: step a reader, then go on, suspend or refuse.\<close>

lemma va_word_acts:
  fixes step :: "carry \<Rightarrow> bytes \<Rightarrow> nat \<Rightarrow> nat \<Rightarrow> (carry \<times> bytes \<times> nat \<times> 'a step) option"
  assumes r: "word_reader step cap" and room: "va_room m v (length x + length y)"
    and opn: "carry_open cap (rp_carry (va_pump v))"
    and act: "\<And>u x. root_construct_start (va_pump u) = root_construct_start (va_pump v) \<Longrightarrow> act u x =
      do { (p, x, verdict) \<leftarrow> root_held step minimal (standard_of m) (va_pump u) x;
           (case verdict of
              RvDone w \<Rightarrow> go w (u\<lparr>va_pump := p\<rparr>) x
            | RvMore \<Rightarrow> Some ((suspend u)\<lparr>va_pump := p\<rparr>, x, Break (Inr ()))
            | _ \<Rightarrow> do { at \<leftarrow> root_construct_start p; va_halt (u\<lparr>va_pump := p\<rparr>) x at (refuse verdict) }) }"
    and go: "\<And>w k. 0 < k \<Longrightarrow> k \<le> length x \<Longrightarrow> va_acts N m (go w)
      (v\<lparr>va_pump := (va_pump v)\<lparr>rp_carry := carry_new, rp_off := rp_off (va_pump v) + k\<rparr>\<rparr>) (drop k x) y"
    and sus_ok: "\<And>p. carry_open cap (rp_carry p) \<Longrightarrow> resume_ok (va_mode (suspend v)) p"
    and sus_turn: "\<And>p z. va_turn m ((suspend v)\<lparr>va_pump := p\<rparr>) z = act ((suspend v)\<lparr>va_pump := p\<rparr>) z"
    and sus_sus: "\<And>p p'. (suspend ((suspend v)\<lparr>va_pump := p\<rparr>))\<lparr>va_pump := p'\<rparr> = (suspend v)\<lparr>va_pump := p'\<rparr>"
    and sus_go: "\<And>w p z. same_turn va_alike (Inr ()) (go w (v\<lparr>va_pump := p\<rparr>) z) (go w ((suspend v)\<lparr>va_pump := p\<rparr>) z)"
  shows "va_acts N m act v x y"
proof -
  let ?p = "va_pump v"
  have off: "rp_off ?p + (length x + length y) < u64_max" using room by (simp add: va_room_def)
  show ?thesis
  proof (cases rule: word_reader.root_cases [OF r opn off, of minimal "standard_of m", case_names complete suspended refused])
    case (complete k w)
    show ?thesis
    proof (rule acts_then [OF go [of k w]])
      show "act v x = go w (v\<lparr>va_pump := ?p\<lparr>rp_carry := carry_new, rp_off := rp_off ?p + k\<rparr>\<rparr>) (drop k x)"
        using complete by (simp add: act)
      show "act v (x @ y) = go w (v\<lparr>va_pump := ?p\<lparr>rp_carry := carry_new, rp_off := rp_off ?p + k\<rparr>\<rparr>) (drop k x @ y)"
        using complete by (simp add: act)
    qed (use complete in auto)
  next
    case (suspended c1)
    let ?q = "?p\<lparr>rp_carry := c1, rp_off := rp_off ?p + length x\<rparr>"
    let ?w = "(suspend v)\<lparr>va_pump := ?q\<rparr>"
    show ?thesis
    proof (rule acts_idle)
      show "act v x = Some (?w, [], Break (Inr ()))" using suspended by (simp add: act)
      have len: "carry_len c1 = carry_len (rp_carry ?p) + length x" using suspended by (simp add: carry_len_def)
      then show "va_ok m ?w (length y)" using room suspended sus_ok by (simp add: va_ok_def va_room_def add.assoc)
      show "va_due ?w = Some (?w, Continue ())" by (simp add: va_due_def)
      have "rp_carry ?q = c1" "rp_off ?q = rp_off ?p + length x" by simp_all
      from suspended(4) [OF this] obtain p2 p3 y2 v2 where
        h: "root_held step minimal (standard_of m) ?q y = Some (p2, y2, v2)"
           "root_held step minimal (standard_of m) ?p (x @ y) = Some (p3, y2, v2)"
        and e: "rp_off p2 = rp_off p3" "carry_len (rp_carry p2) = carry_len (rp_carry p3)"
          "(\<exists>w. v2 = RvDone w) \<or> v2 = RvMore \<longrightarrow> rp_carry p2 = rp_carry p3"
        and p2: "p2 = ?q\<lparr>rp_carry := rp_carry p2, rp_off := rp_off p2\<rparr>"
        and p3: "p3 = ?p\<lparr>rp_carry := rp_carry p3, rp_off := rp_off p3\<rparr>" by (elim exE conjE)
      have s: "rp_standard p2 = rp_standard p3" "rp_terminal p2 = rp_terminal p3"
        using arg_cong [OF p2, of rp_standard] arg_cong [OF p3, of rp_standard]
          arg_cong [OF p2, of rp_terminal] arg_cong [OF p3, of rp_terminal] by simp_all
      have eq: "p2 = p3" if "rp_carry p2 = rp_carry p3"
        using that e(1) s by (intro root_pump.equality) simp_all
      have "root_construct_start ?q = root_construct_start ?p"
        using room len start_of [of ?p] start_of [of ?q] by (simp add: va_room_def)
      then have actw: "act ?w y =
          do { (p, x, verdict) \<leftarrow> root_held step minimal (standard_of m) ?q y;
               (case verdict of
                  RvDone w \<Rightarrow> go w ((suspend v)\<lparr>va_pump := p\<rparr>) x
                | RvMore \<Rightarrow> Some ((suspend v)\<lparr>va_pump := p\<rparr>, x, Break (Inr ()))
                | _ \<Rightarrow> do { at \<leftarrow> root_construct_start p; va_halt ((suspend v)\<lparr>va_pump := p\<rparr>) x at (refuse verdict) }) }"
        by (subst act) (simp_all add: sus_sus cong: root_verdict.case_cong)
      have start: "root_construct_start p2 = root_construct_start p3" using e by (intro start_cong)
      show "same_turn va_alike (Inr ()) (act v (x @ y)) (va_turn m ?w y)"
      proof (cases v2)
        case (RvDone w)
        with e eq have "p2 = p3" by blast
        with h RvDone sus_go [of w p3 y2] show ?thesis unfolding sus_turn by (simp add: act actw)
      next
        case RvMore
        with e eq have "p2 = p3" by blast
        with h RvMore show ?thesis unfolding sus_turn by (simp add: act actw same_turn_def va_alike_def)
      qed (use h e s start in \<open>unfold sus_turn, auto simp: act actw va_haltI same_turn_def va_alike_def split: bind_splits\<close>)
    qed
  next
    case (refused c1 c3 k w)
    let ?q = "?p\<lparr>rp_carry := c1, rp_off := rp_off ?p + k\<rparr>"
    let ?r = "?p\<lparr>rp_carry := c3, rp_off := rp_off ?p + k\<rparr>"
    have le: "carry_len c1 \<le> rp_off ?q" using refused room by (simp add: va_room_def)
    then have st: "root_construct_start ?q = Some (rp_off ?q - carry_len c1)" "root_construct_start ?r = Some (rp_off ?q - carry_len c1)"
      using refused(4) by (simp_all add: start_of)
    show ?thesis
    proof (rule acts_break)
      show "act v x = Some (v\<lparr>va_pump := ?q\<lparr>rp_terminal := True\<rparr>\<rparr>, drop k x,
          Break (Inl \<lparr>sg_at = rp_off ?q - carry_len c1, sg_kind = refuse w\<rparr>))"
        using refused st by (auto simp: act va_haltI)
      have "act v (x @ y) = Some (v\<lparr>va_pump := ?r\<lparr>rp_terminal := True\<rparr>\<rparr>, drop k x @ y,
          Break (Inl \<lparr>sg_at = rp_off ?q - carry_len c1, sg_kind = refuse w\<rparr>))"
        using refused st by (auto simp: act va_haltI)
      then show "\<exists>s2 x2. act v (x @ y) = Some (s2, x2, Break (Inl \<lparr>sg_at = rp_off ?q - carry_len c1, sg_kind = refuse w\<rparr>)) \<and>
          va_alike s2 (v\<lparr>va_pump := ?q\<lparr>rp_terminal := True\<rparr>\<rparr>)"
        by (intro exI conjI) (assumption, simp add: va_alike_def)
    qed simp
  qed
qed

lemma va_varint_acts:
  assumes "va_room m v (length x + length y)" "carry_open MAX_LEN64 (rp_carry (va_pump v))" "length x \<le> N"
  shows "va_acts N m (va_varint_value m field) v x y"
proof (rule va_word_acts [OF value_reader.word_reader_axioms assms(1,2)])
  let ?suspend = "\<lambda>v. v\<lparr>va_mode := RVarintValue field\<rparr>"
  let ?go = "\<lambda>(_ :: u64) v z. Some (v\<lparr>va_mode := RHead\<rparr>, z, Continue ()) :: va_turn"
  let ?refuse = "\<lambda>verdict :: u64 root_verdict. case verdict of RvTooWide \<Rightarrow> SgRead (StageValue field) StreamTooWide
    | RvOutOfClass \<Rightarrow> SgRead (StageValue field) StreamOutOfClass | _ \<Rightarrow> SgNonMinimalValue field"
  show "va_varint_value m field u x =
      do { (p, x, verdict) \<leftarrow> root_held step_value64 encoded_len64 (standard_of m) (va_pump u) x;
           (case verdict of
              RvDone w \<Rightarrow> ?go w (u\<lparr>va_pump := p\<rparr>) x
            | RvMore \<Rightarrow> Some ((?suspend u)\<lparr>va_pump := p\<rparr>, x, Break (Inr ()))
            | _ \<Rightarrow> do { at \<leftarrow> root_construct_start p; va_halt (u\<lparr>va_pump := p\<rparr>) x at (?refuse verdict) }) }" for u x
    by (cases "root_held step_value64 encoded_len64 (standard_of m) (va_pump u) x")
      (auto simp: va_varint_value_def root_step_value_def Let_def va_halt_read_def va_halt_padded_def split: root_verdict.splits)
  show "va_acts N m (?go w) (v\<lparr>va_pump := (va_pump v)\<lparr>rp_carry := carry_new, rp_off := rp_off (va_pump v) + k\<rparr>\<rparr>) (drop k x) y"
    if "0 < k" "k \<le> length x" for w :: u64 and k
    by (rule acts_continue) (use that assms in \<open>auto simp: va_ok_def va_room_def carry_open_new\<close>)
qed (auto simp: va_turn_def same_turn_def va_alike_def)

lemma va_len_acts:
  assumes "va_room m v (length x + length y)" "carry_open MAX_LEN32 (rp_carry (va_pump v))" "length x \<le> N"
  shows "va_acts N m (va_len_word m field) v x y"
proof (rule va_word_acts [OF len_reader.word_reader_axioms assms(1,2)])
  let ?suspend = "\<lambda>v. v\<lparr>va_mode := RLenWord field\<rparr>"
  let ?go = "\<lambda>len v z.
    let end = rp_off (va_pump v) + usize_of (len_inner len) in
    if end \<le> u64_max \<and> end \<noteq> u64_max
    then Some (v\<lparr>va_mode := counted RHead RSwallow (len_inner len)\<rparr>, z, Continue ())
    else va_halt v z (rp_off (va_pump v)) (SgLenUnsatisfiable field len)"
  let ?refuse = "\<lambda>verdict :: payload_len root_verdict. case verdict of RvTooWide \<Rightarrow> SgRead (StageLenPrefix field) StreamTooWide
    | RvOutOfClass \<Rightarrow> SgRead (StageLenPrefix field) StreamOutOfClass | _ \<Rightarrow> SgNonMinimalLen field"
  show "va_len_word m field u x =
      do { (p, x, verdict) \<leftarrow> root_held step_len len_minimal (standard_of m) (va_pump u) x;
           (case verdict of
              RvDone w \<Rightarrow> ?go w (u\<lparr>va_pump := p\<rparr>) x
            | RvMore \<Rightarrow> Some ((?suspend u)\<lparr>va_pump := p\<rparr>, x, Break (Inr ()))
            | _ \<Rightarrow> do { at \<leftarrow> root_construct_start p; va_halt (u\<lparr>va_pump := p\<rparr>) x at (?refuse verdict) }) }" for u x
    by (cases "root_held step_len len_minimal (standard_of m) (va_pump u) x")
      (auto simp: va_len_word_def root_step_len_def Let_def va_halt_read_def va_halt_padded_def split: root_verdict.splits)
  show "va_acts N m (?go w) (v\<lparr>va_pump := (va_pump v)\<lparr>rp_carry := carry_new, rp_off := rp_off (va_pump v) + k\<rparr>\<rparr>) (drop k x) y"
    if "0 < k" "k \<le> length x" for w :: payload_len and k
  proof (cases "rp_off (va_pump v) + k + usize_of (len_inner w) < u64_max")
    case True
    then show ?thesis
      by (intro acts_continue)
        (use that assms in \<open>auto simp: va_ok_def va_room_def carry_open_new counted_def Let_def\<close>)
  next
    case False
    then show ?thesis
      by (intro acts_break) (auto simp: Let_def va_haltI va_alike_def)
  qed
qed (auto simp: va_turn_def same_turn_def va_alike_def va_haltI Let_def)

lemma va_fixed_acts:
  assumes "va_room m v (length x + length y)" "resume_ok (RFixedTail field kind) (va_pump v)" "length x \<le> N"
  shows "va_acts N m (va_fixed_tail field kind) v x y"
proof -
  let ?n = "fixed_need kind" and ?p = "va_pump v"
  let ?d = "?n - carry_len (rp_carry ?p)"
  have n: "?n \<le> 10" by (cases kind) simp_all
  have o: "fixed_open ?n (rp_carry ?p)" "rp_off ?p + ?d \<le> u64_max" using assms(2) by simp_all
  note grab = root_grab_eq [OF o(1) n o(2)]
  have d: "0 < ?d" using o by (simp add: fixed_open_def)
  show ?thesis
  proof (cases "?d \<le> length x")
    case True
    with grab [of x] grab [of "x @ y"] show ?thesis
      by (intro acts_continue) (use d assms in \<open>auto simp: va_fixed_tail_def Let_def va_ok_def va_room_def carry_open_new\<close>)
  next
    case False
    let ?q = "?p\<lparr>rp_carry := (rp_carry ?p)\<lparr>cbuf := cbuf (rp_carry ?p) @ x\<rparr>, rp_off := rp_off ?p + length x\<rparr>"
    let ?w = "v\<lparr>va_pump := ?q, va_mode := RFixedTail field kind\<rparr>"
    have l: "carry_len (rp_carry ?q) = carry_len (rp_carry ?p) + length x" by (simp add: carry_len_def)
    have q: "fixed_open ?n (rp_carry ?q)" "rp_off ?q + (?n - carry_len (rp_carry ?q)) \<le> u64_max"
      using o False l by (auto simp: fixed_open_def)
    show ?thesis
    proof (rule acts_idle)
      show "va_fixed_tail field kind v x = Some (?w, [], Break (Inr ()))"
        using grab [of x] False by (simp add: va_fixed_tail_def Let_def)
      show "va_ok m ?w (length y)" using assms(1) q l by (simp add: va_ok_def va_room_def add.assoc)
      show "va_due ?w = Some (?w, Continue ())" by (simp add: va_due_def)
      have d2: "?n - carry_len (rp_carry ?q) = ?d - length x" using l by simp
      show "same_turn va_alike (Inr ()) (va_fixed_tail field kind v (x @ y)) (va_turn m ?w y)"
        using False grab [of "x @ y"] root_grab_eq [OF q(1) n q(2), of y] unfolding d2 Let_def
        by (auto simp: va_turn_def va_fixed_tail_def same_turn_def va_alike_def Let_def)
    qed
  qed
qed

lemma va_swallow_acts:
  assumes "va_room m v (length x + length y)" "resume_ok (RSwallow r) (va_pump v)" "length x \<le> N" "x \<noteq> []"
  shows "va_acts N m (va_swallow r) v x y"
proof -
  let ?t = "count_take r x" and ?u = "count_take r (x @ y)" and ?p = "va_pump v"
  have r: "r \<noteq> 0" "rp_carry ?p = carry_new" using assms(2) by simp_all
  then have r0: "unat r \<noteq> 0" by (simp add: unat_eq_0)
  let ?w = "v\<lparr>va_pump := ?p\<lparr>rp_off := rp_off ?p + unat ?t\<rparr>, va_mode := counted RHead RSwallow (r - ?t)\<rparr>"
  have t: "unat ?t = min (unat r) (length x)" by (rule unat_count_take)
  have l: "unat (r - ?t) = unat r - length x" by (rule unat_count_left)
  show ?thesis
  proof (rule acts_continue)
    show "va_swallow r v x = Some (?w, drop (unat ?t) x, Continue ())" by (simp add: va_swallow_def Let_def)
    show "va_ok m ?w (length (drop (unat ?t) x) + length y)"
      using assms(1) r t by (auto simp: va_ok_def va_room_def counted_def carry_open_new)
    show "length (drop (unat ?t) x) < N" using assms(3,4) t r0 by (cases x) (auto simp: min_def)
    assume "y \<noteq> []"
    show "va_swallow r v (x @ y) = Some (?w, drop (unat ?t) x @ y, Continue ()) \<or>
      drop (unat ?t) x = [] \<and> va_due ?w = Some (?w, Continue ()) \<and>
      same_turn va_alike (Inr ()) (va_swallow r v (x @ y)) (va_turn m ?w y)"
    proof (cases "unat r \<le> length x")
      case True
      then have "?u = ?t" by (simp add: word_eq_unat_iff unat_count_take)
      with True t show ?thesis by (simp add: va_swallow_def Let_def)
    next
      case False
      note sp = count_split [of x r y]
      from False l have nz: "r - ?t \<noteq> 0" by (auto simp: word_eq_unat_iff)
      let ?t2 = "count_take (r - ?t) y"
      have u: "unat ?u = length x + unat ?t2" "r - ?u = r - ?t - ?t2" using sp False by simp_all
      have tl: "unat ?t = length x" using t False by simp
      have "va_swallow r v (x @ y) = va_turn m ?w y"
        using nz by (simp add: va_turn_def counted_def [of _ _ "r - ?t"] va_swallow_def Let_def u tl add.assoc)
      then show ?thesis using tl by (simp add: va_due_def same_turn_def va_alike_def)
    qed
  qed
qed

text \<open>What \<open>head\<close> does with a complete tag word.\<close>

definition va_tagged :: "bool \<Rightarrow> nat \<Rightarrow> u32 \<Rightarrow> validator_gl \<Rightarrow> bytes \<Rightarrow> va_turn" where
  "va_tagged m start word v chunk =
     (case FieldNumber_from_word word of
        None \<Rightarrow> va_halt v chunk start SgFieldZero
      | Some field \<Rightarrow>
          (case classify_gl (Low3_from_word word) of
             GlRecord GlVarint \<Rightarrow> va_varint_value m field v chunk
           | GlRecord GlLen \<Rightarrow> va_len_word m field v chunk
           | GlRecord kind \<Rightarrow>
               let fixed = (if kind = GlI64 then FixI64 else FixI32) in
               do { room \<leftarrow> usub u64_max (rp_off (va_pump v));
                    if room < fixed_need fixed then va_halt v chunk (rp_off (va_pump v)) (SgFixedOverrun field)
                    else va_fixed_tail field fixed v chunk }
           | GlGroupCode \<Rightarrow> va_halt v chunk start (SgGroupCode field (Low3_from_word word))
           | GlUnassigned \<Rightarrow> va_halt v chunk start (SgUnassigned field (Low3_from_word word))))"

lemma va_halt_acts: "va_acts N m (\<lambda>v z. va_halt v z at kind) v x y"
  by (rule acts_break [OF va_haltI]) (auto simp: va_haltI va_alike_def)

lemma va_fixed_head_acts:
  assumes "va_room m v (length x + length y)" "rp_carry (va_pump v) = carry_new" "length x \<le> N"
  shows "va_acts N m (\<lambda>v z. do { room \<leftarrow> usub u64_max (rp_off (va_pump v));
      if room < fixed_need kind then va_halt v z (rp_off (va_pump v)) (SgFixedOverrun field)
      else va_fixed_tail field kind v z }) v x y"
proof -
  have room: "usub u64_max (rp_off (va_pump v)) = Some (u64_max - rp_off (va_pump v))"
    using assms(1) by (simp add: usub_def va_room_def)
  show ?thesis
  proof (cases "u64_max - rp_off (va_pump v) < fixed_need kind")
    case True
    then show ?thesis by (intro acts_then [OF va_halt_acts]) (simp_all add: room)
  next
    case False
    moreover have "0 < fixed_need kind" by (cases kind) simp_all
    ultimately have "resume_ok (RFixedTail field kind) (va_pump v)"
      using assms by (simp add: fixed_open_def va_room_def)
    with False show ?thesis by (intro acts_then [OF va_fixed_acts [OF assms(1) _ assms(3)]]) (simp_all add: room)
  qed
qed

lemma va_tagged_acts:
  assumes "va_room m v (length x + length y)" "rp_carry (va_pump v) = carry_new" "length x \<le> N"
  shows "va_acts N m (va_tagged m start word) v x y"
proof -
  note word = va_varint_acts [OF assms(1) _ assms(3)] va_len_acts [OF assms(1) _ assms(3)]
  note arms = va_halt_acts va_fixed_head_acts [OF assms] va_fixed_head_acts [OF assms, of FixI32, simplified]
    va_fixed_head_acts [OF assms, of FixI64, simplified] word carry_open_new assms(2)
  show ?thesis
  proof (cases "FieldNumber_from_word word")
    case (Some field)
    show ?thesis
    proof (cases "classify_gl (Low3_from_word word)")
      case (GlRecord kind)
      with Some show ?thesis unfolding va_tagged_def Let_def by (cases kind) (simp_all add: arms)
    qed (unfold va_tagged_def, simp_all add: Some arms)
  qed (unfold va_tagged_def, simp add: arms)
qed

definition head_refusal :: "u32 root_verdict \<Rightarrow> scan_kind_gl" where
  "head_refusal verdict = (case verdict of RvTooWide \<Rightarrow> SgRead StageTag StreamTooWide
    | RvOutOfClass \<Rightarrow> SgRead StageTag StreamOutOfClass | _ \<Rightarrow> SgNonMinimalTag)"

lemma va_head_eq:
  "root_construct_start (va_pump u) = Some start \<Longrightarrow> va_head m u x =
     do { (p, x, verdict) \<leftarrow> root_held step_tag encoded_len32 (standard_of m) (va_pump u) x;
          (case verdict of
             RvDone w \<Rightarrow> va_tagged m start w (u\<lparr>va_pump := p\<rparr>) x
           | RvMore \<Rightarrow> Some (u\<lparr>va_pump := p\<rparr>, x, Break (Inr ()))
           | _ \<Rightarrow> do { at \<leftarrow> root_construct_start p; va_halt (u\<lparr>va_pump := p\<rparr>) x at (head_refusal verdict) }) }"
  by (cases "root_held step_tag encoded_len32 (standard_of m) (va_pump u) x")
    (auto simp: va_head_def va_tagged_def root_step_tag_def Let_def va_halt_read_def va_halt_padded_def head_refusal_def
      split: root_verdict.splits option.splits tag_class_gl.splits record_kind_gl.splits cong: if_cong)

lemma va_head_acts:
  assumes "va_room m v (length x + length y)" "carry_open MAX_LEN32 (rp_carry (va_pump v))" "length x \<le> N"
    and "va_mode v = RHead"
  shows "va_acts N m (va_head m) v x y"
proof (rule va_word_acts [OF tag_reader.word_reader_axioms assms(1,2)])
  let ?start = "rp_off (va_pump v) - carry_len (rp_carry (va_pump v))"
  have start: "root_construct_start (va_pump v) = Some ?start" using assms(1) by (simp add: start_of va_room_def)
  show "va_head m u x =
      do { (p, x, verdict) \<leftarrow> root_held step_tag encoded_len32 (standard_of m) (va_pump u) x;
           (case verdict of
              RvDone w \<Rightarrow> va_tagged m ?start w (u\<lparr>va_pump := p\<rparr>) x
            | RvMore \<Rightarrow> Some ((id u)\<lparr>va_pump := p\<rparr>, x, Break (Inr ()))
            | _ \<Rightarrow> do { at \<leftarrow> root_construct_start p; va_halt (u\<lparr>va_pump := p\<rparr>) x at (head_refusal verdict) }) }"
    if "root_construct_start (va_pump u) = root_construct_start (va_pump v)" for u x
    unfolding id_apply by (rule va_head_eq) (simp add: that start)
  show "va_acts N m (va_tagged m ?start w) (v\<lparr>va_pump := (va_pump v)\<lparr>rp_carry := carry_new, rp_off := rp_off (va_pump v) + k\<rparr>\<rparr>) (drop k x) y"
    if "0 < k" "k \<le> length x" for w :: u32 and k
    by (rule va_tagged_acts) (use that assms in \<open>auto simp: va_room_def\<close>)
qed (auto simp: assms(4) va_turn_def same_turn_def va_alike_def)

lemma va_turn_acts:
  assumes "va_ok m v (length x + length y)" "x \<noteq> []"
  shows "va_acts (length x) m (va_turn m) v x y"
proof -
  have r: "va_room m v (length x + length y)" "resume_ok (va_mode v) (va_pump v)" using assms(1) by (simp_all add: va_ok_def)
  have go: ?thesis if "va_acts (length x) m f v x y" "\<And>z. va_turn m v z = f v z" for f
    by (rule acts_then [OF that(1)]) (simp_all add: that(2))
  show ?thesis
  proof (cases "va_mode v")
    case RHead
    with r show ?thesis by (intro go [OF va_head_acts]) (simp_all add: va_turn_def)
  next
    case (RVarintValue field)
    with r show ?thesis by (intro go [OF va_varint_acts]) (auto simp: va_turn_def)
  next
    case (RLenWord field)
    with r show ?thesis by (intro go [OF va_len_acts]) (auto simp: va_turn_def)
  next
    case (RFixedTail field kind)
    with r show ?thesis by (intro go [OF va_fixed_acts]) (auto simp: va_turn_def)
  next
    case (RSwallow left)
    with r assms(2) show ?thesis by (intro go [OF va_swallow_acts]) (auto simp: va_turn_def)
  qed
qed

lemma va_feed_drive:
  assumes "va_ok m v (length x)"
  shows "va_feed v x = va_drive m v x"
proof -
  have "rp_standard (va_pump v) = standard_of m" "\<not> rp_terminal (va_pump v)" "rp_off (va_pump v) + length x < u64_max"
    using assms by (simp_all add: va_ok_def va_room_def)
  moreover from this have "root_admits (va_pump v) x" unfolding root_admits_def by linarith
  ultimately show ?thesis by (cases m) (simp_all add: va_feed_def standard_of_def)
qed

lemma va_ok_room: "va_ok m v n \<Longrightarrow> k \<le> n \<Longrightarrow> va_ok m v k"
  by (simp add: va_ok_def va_room_def)

lemma va_feeding:
  "feeding va_due (va_turn m) (Inr ()) (va_ok m) va_alike True va_feed (va_ok m) id (\<lambda>v _. v)"
proof (rule feeding.intro)
  show "turning va_due (va_turn m) (Inr ()) (va_ok m) va_alike True"
    by unfold_locales (auto simp: va_alike_def va_due_def va_ok_room va_turn_acts)
  show "feeding_axioms va_due (va_turn m) (Inr ()) (va_ok m) va_alike va_feed (va_ok m) id (\<lambda>v _. v)"
    by unfold_locales (auto simp: id_def [symmetric] va_feed_drive va_drive_def option.map_id va_ok_room)
qed

interpretation va: feeding va_due "va_turn m" "Inr ()" "va_ok m" va_alike True va_feed "va_ok m" id "\<lambda>v _. v" for m
  by (rule va_feeding)

end
