(* ===== verification/Validate_Groupless.thy ===== *)
theory Validate_Groupless
  imports Scan_Groupless
begin

text \<open>
  The language of the groupless stream validator: fed a whole document, and asked to finish, it accepts
  exactly the spellings of lawful group-free token sequences; and where the document was cut into chunks
  does not matter.
\<close>

section \<open>What a fresh validator reads\<close>

definition va_fresh :: "validator_gl \<Rightarrow> bool" where
  "va_fresh v \<longleftrightarrow> va_mode v = RHead \<and> rp_carry (va_pump v) = carry_new"

definition va_moved :: "validator_gl \<Rightarrow> nat \<Rightarrow> resume \<Rightarrow> validator_gl" where
  "va_moved v k mode = v\<lparr>va_pump := (va_pump v)\<lparr>rp_carry := carry_new, rp_off := rp_off (va_pump v) + k\<rparr>, va_mode := mode\<rparr>"

lemma moved_fields [simp]:
  "va_mode (va_moved v k md) = md" "rp_carry (va_pump (va_moved v k md)) = carry_new"
  "rp_off (va_pump (va_moved v k md)) = rp_off (va_pump v) + k"
  "rp_terminal (va_pump (va_moved v k md)) = rp_terminal (va_pump v)"
  "rp_standard (va_pump (va_moved v k md)) = rp_standard (va_pump v)"
  "va_moved (va_moved v k md) l md' = va_moved v (k + l) md'"
  by (simp_all add: va_moved_def add.assoc)

lemma moved_ok:
  "va_ok m v (k + n) \<Longrightarrow> resume_ok md (va_pump (va_moved v k md)) \<Longrightarrow> va_ok m (va_moved v k md) n"
  by (simp add: va_ok_def va_room_def)

lemma halt_not_continue [simp]:
  "va_halt v x at kind \<noteq> Some (v', x', Continue ())" "va_halt v x at kind \<noteq> Some (v', x', Break (Inr ()))"
  by (simp_all add: va_haltI)

lemma start_halt_not_continue [simp]:
  "root_construct_start p \<bind> (\<lambda>at. va_halt v x at kind) \<noteq> Some (v', x', Continue ())"
  "root_construct_start p \<bind> (\<lambda>at. va_halt v x at kind) \<noteq> Some (v', x', Break (Inr ()))"
  by (simp_all add: bind_eq_Some_conv)

lemma halts_not_continue [simp]:
  "va_halt_read v x st c \<noteq> Some (v', x', Continue ())" "va_halt_read v x st c \<noteq> Some (v', x', Break (Inr ()))"
  "va_halt_padded v x st \<noteq> Some (v', x', Continue ())" "va_halt_padded v x st \<noteq> Some (v', x', Break (Inr ()))"
  by (simp_all add: va_halt_read_def va_halt_padded_def bind_eq_Some_conv)

lemma va_varint_iff:
  assumes "rp_carry (va_pump v) = carry_new" "rp_off (va_pump v) + length x < u64_max"
  shows "va_varint_value m field v x = Some (v', x', Continue ()) \<longleftrightarrow>
    (\<exists>val w. x = emit_payload (PVarint val w) @ x' \<and> payload_ok (PVarint val w) \<and>
      (m \<longrightarrow> payload_minimal (PVarint val w)) \<and> v' = va_moved v w RHead)"
proof -
  have "va_varint_value m field v x = Some (v', x', Continue ()) \<longleftrightarrow>
      (\<exists>p' val. root_held step_value64 encoded_len64 (standard_of m) (va_pump v) x = Some (p', x', RvDone val) \<and>
        v' = v\<lparr>va_pump := p', va_mode := RHead\<rparr>)"
    by (cases "root_held step_value64 encoded_len64 (standard_of m) (va_pump v) x")
      (auto simp: va_varint_value_def root_step_value_def Let_def split: root_verdict.splits)
  then show ?thesis unfolding value_spelled.root_reads_iff [OF assms] by (auto simp: va_moved_def)
qed

lemma va_len_iff:
  assumes "rp_carry (va_pump v) = carry_new" "rp_off (va_pump v) + length x < u64_max"
  shows "va_len_word m field v x = Some (v', x', Continue ()) \<longleftrightarrow>
    (\<exists>len w. x = enc w (unat (len :: payload_len)) @ x' \<and> 0 < w \<and> w \<le> 5 \<and> unat len < 128 ^ w \<and>
      (m \<longrightarrow> w = encoded_len32 (len_inner len)) \<and> rp_off (va_pump v) + w + unat len < u64_max \<and>
      v' = va_moved v w (counted RHead RSwallow (len_inner len)))"
proof -
  have "va_len_word m field v x = Some (v', x', Continue ()) \<longleftrightarrow>
      (\<exists>p' len. root_held step_len len_minimal (standard_of m) (va_pump v) x = Some (p', x', RvDone len) \<and>
        rp_off p' + unat len < u64_max \<and> v' = v\<lparr>va_pump := p', va_mode := counted RHead RSwallow (len_inner len)\<rparr>)"
    by (cases "root_held step_len len_minimal (standard_of m) (va_pump v) x")
      (auto simp: va_len_word_def root_step_len_def Let_def usize_of_def split: root_verdict.splits if_splits)
  then show ?thesis unfolding len_spelled.root_reads_iff [OF assms] by (fastforce simp: va_moved_def)
qed

lemma va_fixed_iff:
  assumes "rp_carry (va_pump v) = carry_new" "rp_off (va_pump v) + length x < u64_max"
  shows "do { room \<leftarrow> usub u64_max (rp_off (va_pump v));
      if room < fixed_need kind then va_halt v x (rp_off (va_pump v)) (SgFixedOverrun field)
      else va_fixed_tail field kind v x } = Some (v', x', Continue ()) \<longleftrightarrow>
    (\<exists>bs. length bs = fixed_need kind \<and> x = bs @ x' \<and> v' = va_moved v (fixed_need kind) RHead)"
proof -
  let ?n = "fixed_need kind" and ?o = "rp_off (va_pump v)"
  have n: "0 < ?n" "?n \<le> 10" by (cases kind; simp)+
  have room: "usub u64_max ?o = Some (u64_max - ?o)" using assms(2) by (simp add: usub_def)
  have "(\<exists>bs. length bs = ?n \<and> x = bs @ x') \<longleftrightarrow> ?n \<le> length x \<and> x' = drop ?n x"
  proof
    assume "?n \<le> length x \<and> x' = drop ?n x"
    then show "\<exists>bs. length bs = ?n \<and> x = bs @ x'" by (intro exI [of _ "take ?n x"]) simp
  qed auto
  then have r: "(\<exists>bs. length bs = ?n \<and> x = bs @ x' \<and> v' = va_moved v ?n RHead) \<longleftrightarrow>
      ?n \<le> length x \<and> x' = drop ?n x \<and> v' = va_moved v ?n RHead" by blast
  show ?thesis
  proof (cases "?n \<le> u64_max - ?o")
    case True
    have "fixed_open ?n (rp_carry (va_pump v))" using assms(1) n by (simp add: fixed_open_def)
    then have "root_grab_fixed ?n (va_pump v) x =
        (if ?n \<le> length x then Some ((va_pump v)\<lparr>rp_carry := carry_new, rp_off := ?o + ?n\<rparr>, drop ?n x, Some (take ?n x))
         else Some ((va_pump v)\<lparr>rp_carry := carry_new\<lparr>cbuf := x\<rparr>, rp_off := ?o + length x\<rparr>, [], None))"
      using root_grab_eq [of ?n "va_pump v" x] n(2) True assms by (simp add: Let_def)
    then show ?thesis unfolding r using True by (auto simp: room va_fixed_tail_def Let_def va_moved_def)
  next
    case False
    then show ?thesis unfolding r using assms(2) by (auto simp: room)
  qed
qed

section \<open>A record, head and payload\<close>

definition pay_lawful :: "bool \<Rightarrow> payload \<Rightarrow> bool" where
  "pay_lawful m p \<longleftrightarrow> payload_ok p \<and> (m \<longrightarrow> payload_minimal p) \<and> \<not> is_group p"

definition after_pay :: "validator_gl \<Rightarrow> payload \<Rightarrow> validator_gl" where
  "after_pay v p = va_moved v (length (pay_head p)) (counted RHead RSwallow (of_nat (length (pay_body p))))"

lemma counted_0 [simp]: "counted q b 0 = q"
  by (simp add: counted_def)

lemma va_len_pay_iff:
  assumes "rp_carry (va_pump v) = carry_new" "rp_off (va_pump v) + length x < u64_max"
  shows "va_len_word m field v x = Some (v', x', Continue ()) \<longleftrightarrow>
    (\<exists>bs w. pay_lawful m (PLen bs w) \<and> x = pay_head (PLen bs w) @ x' \<and>
      rp_off (va_pump v) + length (emit_payload (PLen bs w)) < u64_max \<and> v' = after_pay v (PLen bs w))"
    (is "?L \<longleftrightarrow> ?R")
proof
  assume ?L
  then obtain len :: payload_len and w where a: "x = enc w (unat len) @ x'" "0 < w" "w \<le> 5" "unat len < 128 ^ w"
      "m \<longrightarrow> w = encoded_len32 (len_inner len)" "rp_off (va_pump v) + w + unat len < u64_max"
      "v' = va_moved v w (counted RHead RSwallow (len_inner len))"
    unfolding va_len_iff [OF assms] by blast
  define bs :: bytes where "bs = replicate (unat len) 0"
  have "length bs < 2 ^ 31" "len_inner len = of_nat (length bs)" "length bs = unat len"
    using unat_len_less [of len] by (simp_all add: bs_def len_inner_def)
  with a show ?R by (intro exI [of _ bs] exI [of _ w]) (simp add: pay_lawful_def after_pay_def)
next
  assume ?R
  then obtain bs w where a: "pay_lawful m (PLen bs w)" "x = enc w (length bs) @ x'"
      "rp_off (va_pump v) + (w + length bs) < u64_max" "v' = after_pay v (PLen bs w)"
    by auto
  define len :: payload_len where "len = of_nat (length bs)"
  have "length bs < 2 ^ 31" using a(1) by (simp add: pay_lawful_def)
  then have "unat len = length bs" "len_inner len = of_nat (length bs)"
    by (simp_all add: len_def unat_of_nat_len len_inner_of_nat)
  with a show ?L unfolding va_len_iff [OF assms]
    by (intro exI [of _ len] exI [of _ w]) (simp add: pay_lawful_def after_pay_def)
qed

lemma va_tagged_iff:
  assumes "rp_carry (va_pump v) = carry_new" "rp_off (va_pump v) + length x < u64_max"
    and f: "FieldNumber_from_word word = Some field"
  shows "va_tagged m start word v x = Some (v', x', Continue ()) \<longleftrightarrow>
    (\<exists>p. code_of p = Low3_from_word word \<and> pay_lawful m p \<and> x = pay_head p @ x' \<and>
      rp_off (va_pump v) + length (emit_payload p) < u64_max \<and> v' = after_pay v p)" (is "_ \<longleftrightarrow> ?R (Low3_from_word word)")
proof -
  let ?k = "Low3_from_word word"
  note fixed = va_fixed_iff [OF assms(1,2)]
  consider "?k = 0" | "?k = 1" | "?k = 2" | "?k = 3" | "?k = 4" | "?k = 5" | "?k = 6" | "?k = 7"
    using low3_cases by blast
  then show ?thesis
  proof cases
    case 1
    have "rp_off (va_pump v) + w < u64_max" if "x = enc w n @ x'" for w n
      using arg_cong [OF that, of length] assms(2) by simp
    then show ?thesis unfolding 1 ex_code
      by (simp add: va_tagged_def f 1 kernel_simps va_varint_iff [OF assms(1,2)] pay_lawful_def after_pay_def) blast
  next
    case 2
    show ?thesis unfolding 2 ex_code using assms(2) fixed [of FixI64] spells_u64
      by (auto simp: va_tagged_def f 2 kernel_simps pay_lawful_def after_pay_def)
  next
    case 3
    show ?thesis unfolding 3 ex_code
      by (simp add: va_tagged_def f 3 kernel_simps va_len_pay_iff [OF assms(1,2)])
  next
    case 6
    show ?thesis unfolding 6 ex_code using assms(2) fixed [of FixI32] spells_u32
      by (auto simp: va_tagged_def f 6 kernel_simps pay_lawful_def after_pay_def)
  qed (simp_all add: va_tagged_def f kernel_simps ex_code pay_lawful_def)
qed

lemma va_head_tagged:
  assumes "va_fresh v" "rp_off (va_pump v) + length x < u64_max"
  shows "va_head m v x = Some (v', x', Continue ()) \<longleftrightarrow>
    (\<exists>word w x1. 0 < w \<and> w \<le> 5 \<and> unat (word :: u32) < 128 ^ w \<and> x = enc w (unat word) @ x1 \<and>
      (m \<longrightarrow> w = encoded_len32 word) \<and>
      va_tagged m (rp_off (va_pump v)) word (va_moved v w RHead) x1 = Some (v', x', Continue ()))"
proof -
  let ?p = "va_pump v"
  have f: "rp_carry ?p = carry_new" "va_mode v = RHead" using assms(1) by (simp_all add: va_fresh_def)
  define Q where "Q word w x1 \<longleftrightarrow> 0 < w \<and> w \<le> 5 \<and> unat (word :: u32) < 128 ^ w \<and> x = enc w (unat word) @ x1 \<and>
      (m \<longrightarrow> w = encoded_len32 word)" for word w x1
  have start: "root_construct_start ?p = Some (rp_off ?p)" by (simp add: start_of f)
  have "va_head m v x = Some (v', x', Continue ()) \<longleftrightarrow>
      (\<exists>p' x1 word. root_held step_tag encoded_len32 (standard_of m) ?p x = Some (p', x1, RvDone word) \<and>
        va_tagged m (rp_off ?p) word (v\<lparr>va_pump := p'\<rparr>) x1 = Some (v', x', Continue ()))"
    unfolding va_head_eq [OF start]
    by (cases "root_held step_tag encoded_len32 (standard_of m) ?p x")
      (auto split: root_verdict.splits)
  also have "\<dots> \<longleftrightarrow> (\<exists>word w x1. Q word w x1 \<and> va_tagged m (rp_off ?p) word (va_moved v w RHead) x1 = Some (v', x', Continue ()))"
  proof -
    have "root_held step_tag encoded_len32 (standard_of m) ?p x = Some (p', x1, RvDone word) \<longleftrightarrow>
        (\<exists>w. Q word w x1 \<and> p' = ?p\<lparr>rp_carry := carry_new, rp_off := rp_off ?p + w\<rparr>)" for p' x1 word
      by (simp add: tag_spelled.root_reads_iff [OF f(1) assms(2)] Q_def)
    moreover have "va_moved v w RHead = v\<lparr>va_pump := ?p\<lparr>rp_carry := carry_new, rp_off := rp_off ?p + w\<rparr>\<rparr>" for w
      by (simp add: va_moved_def flip: f(2))
    ultimately show ?thesis by auto
  qed
  finally show ?thesis by (simp add: Q_def)
qed

text \<open>The first token: head word, payload head, and what is left to swallow.\<close>

lemma va_head_iff:
  assumes "va_fresh v" "rp_off (va_pump v) + length x < u64_max"
  shows "va_head m v x = Some (v', x', Continue ()) \<longleftrightarrow>
    (\<exists>f w p. field_ok f \<and> 0 < w \<and> w \<le> 5 \<and> unat (tag_of f p) < 128 ^ w \<and> (m \<longrightarrow> w = encoded_len32 (tag_of f p)) \<and>
      pay_lawful m p \<and> x = enc w (unat (tag_of f p)) @ pay_head p @ x' \<and>
      rp_off (va_pump v) + w + length (emit_payload p) < u64_max \<and> v' = after_pay (va_moved v w RHead) p)"
    (is "?L \<longleftrightarrow> ?R")
proof
  assume ?L
  then obtain word :: u32 and w x1 where h: "0 < w" "w \<le> 5" "unat word < 128 ^ w" "x = enc w (unat word) @ x1"
    "m \<longrightarrow> w = encoded_len32 word" and t: "va_tagged m (rp_off (va_pump v)) word (va_moved v w RHead) x1 = Some (v', x', Continue ())"
    unfolding va_head_tagged [OF assms] by blast
  from t obtain f where f: "FieldNumber_from_word word = Some f"
    by (cases "FieldNumber_from_word word") (auto simp: va_tagged_def)
  have room: "rp_off (va_pump (va_moved v w RHead)) + length x1 < u64_max" using assms(2) h(4) by simp
  from t obtain p where p: "code_of p = Low3_from_word word" "pay_lawful m p" "x1 = pay_head p @ x'"
    "rp_off (va_pump v) + w + length (emit_payload p) < u64_max" "v' = after_pay (va_moved v w RHead) p"
    unfolding va_tagged_iff [OF _ room f, simplified] by auto
  have "word = tag_of f p" "field_ok f"
    using f p(1) tag_word_from_word [of word f] field_ok_from_word [of word f] by (auto simp: tag_of_def)
  with h p show ?R by (intro exI [of _ f] exI [of _ w] exI [of _ p]) simp
next
  assume ?R
  then obtain f w p where f: "field_ok f" and h: "0 < w" "w \<le> 5" "unat (tag_of f p) < 128 ^ w"
      "m \<longrightarrow> w = encoded_len32 (tag_of f p)" and p: "pay_lawful m p" "x = enc w (unat (tag_of f p)) @ pay_head p @ x'"
      "rp_off (va_pump v) + w + length (emit_payload p) < u64_max" "v' = after_pay (va_moved v w RHead) p" by blast
  have room: "rp_off (va_pump (va_moved v w RHead)) + length (pay_head p @ x') < u64_max" using assms(2) p(2) by simp
  have fw: "FieldNumber_from_word (tag_of f p) = Some f" "Low3_from_word (tag_of f p) = code_of p"
    using f from_word_tag_word low3_tag_word by (simp_all add: tag_of_def)
  have "va_tagged m (rp_off (va_pump v)) (tag_of f p) (va_moved v w RHead) (pay_head p @ x') = Some (v', x', Continue ())"
    unfolding va_tagged_iff [OF _ room fw(1), simplified] fw(2) using p by auto
  with h p show ?L unfolding va_head_tagged [OF assms] by blast
qed

section \<open>Swallowing\<close>

lemma va_drive_turn:
  "x \<noteq> [] \<Longrightarrow> va_turn m v x = Some (v', x', Continue ()) \<Longrightarrow> va_drive m v x = va_drive m v' x'"
  "x \<noteq> [] \<Longrightarrow> va_turn m v x = Some (v', x', Break r) \<Longrightarrow> va_drive m v x = Some (v', r)"
  "va_drive m v [] = Some (v, Inr ())"
  by (simp_all add: va_drive_def va.drive_steps va_due_def)

lemma counted_of_nat_0: "n < 2 ^ 32 \<Longrightarrow> n \<noteq> 0 \<Longrightarrow> counted q b (of_nat n) = b (of_nat n)"
  by (auto simp: counted_def word_eq_unat_iff unat_of_nat)

text \<open>The bytes a length announced are passed over; a chunk that ends among them leaves the rest owed.\<close>

lemma va_drive_swallow:
  fixes n :: u32
  shows "va_drive m (va_moved v k (counted RHead RSwallow n)) x =
    (if unat n \<le> length x then va_drive m (va_moved v (k + unat n) RHead) (drop (unat n) x)
     else Some (va_moved v (k + length x) (RSwallow (n - of_nat (length x))), Inr ()))"
proof (cases "n = 0")
  case False
  then have c: "counted RHead RSwallow n = RSwallow n" by (simp add: counted_def)
  have lt: "length x < 2 ^ 32" if "\<not> unat n \<le> length x"
    using that unsigned_less [of n, where 'a = nat] by simp
  show ?thesis
  proof (cases "x = []")
    case True
    with False c show ?thesis by (simp add: va_drive_turn unat_eq_0)
  next
    case x: False
    let ?t = "count_take n x"
    have t: "unat ?t = min (unat n) (length x)" by (rule unat_count_take)
    have d: "va_drive m (va_moved v k (RSwallow n)) x =
        va_drive m (va_moved v (k + unat ?t) (counted RHead RSwallow (n - ?t))) (drop (unat ?t) x)"
      by (intro va_drive_turn(1) x) (simp add: va_turn_def va_swallow_def Let_def va_moved_def add.assoc)
    show ?thesis
    proof (cases "unat n \<le> length x")
      case True
      with t have "?t = n" by (simp add: word_eq_unat_iff)
      with True show ?thesis by (simp add: c d)
    next
      case nle: False
      have u: "unat ?t = length x" using t nle by simp
      have e: "?t = of_nat (length x)" using u lt [OF nle] by (simp add: word_eq_unat_iff unat_of_nat)
      have "unat (n - ?t) \<noteq> 0" using unat_count_left [of n x] nle by simp
      then have "counted RHead RSwallow (n - ?t) = RSwallow (n - ?t)" by (auto simp: counted_def)
      with nle u e show ?thesis by (simp add: c d va_drive_turn)
    qed
  qed
qed simp

lemma after_pay_drive:
  assumes "pay_lawful m p"
  shows "va_drive m (after_pay v p) x =
    (if length (pay_body p) \<le> length x
     then va_drive m (va_moved v (length (emit_payload p)) RHead) (drop (length (pay_body p)) x)
     else Some (va_moved v (length (pay_head p) + length x) (RSwallow (of_nat (length (pay_body p)) - of_nat (length x))), Inr ()))"
proof -
  have "length (pay_body p) < 2 ^ 31" using assms by (cases p) (simp_all add: pay_lawful_def)
  then have "unat (of_nat (length (pay_body p)) :: u32) = length (pay_body p)" by (simp add: unat_of_nat)
  then show ?thesis by (simp add: after_pay_def va_drive_swallow emit_payload_split)
qed

section \<open>Token by token\<close>

definition tok_lawful_gl :: "bool \<Rightarrow> token \<Rightarrow> bool" where
  "tok_lawful_gl m t \<longleftrightarrow> tok_ok t \<and> (m \<longrightarrow> tok_minimal t) \<and> \<not> is_group (tk_payload t)"

lemma tok_lawful_Token: "tok_lawful_gl m (Token f w p) \<longleftrightarrow>
    field_ok f \<and> 0 < w \<and> w \<le> 5 \<and> unat (tag_of f p) < 128 ^ w \<and> (m \<longrightarrow> w = encoded_len32 (tag_of f p)) \<and> pay_lawful m p"
  by (auto simp: tok_lawful_gl_def pay_lawful_def)

text \<open>A run is accepted when the loop ends idle and the validator finishes.\<close>

definition va_accepts :: "(validator_gl \<times> va_result) option \<Rightarrow> bool" where
  "va_accepts out \<longleftrightarrow> (\<exists>v. out = Some (v, Inr ()) \<and> va_finish v = Some (Inr ()))"

lemma va_drive_token:
  assumes "va_fresh v" "tok_lawful_gl m t" "rp_off (va_pump v) + length (emit_tok t @ rest) < u64_max"
  shows "va_drive m v (emit_tok t @ rest) = va_drive m (va_moved v (length (emit_tok t)) RHead) rest"
proof -
  obtain f w p where t: "t = Token f w p" by (cases t)
  let ?x = "emit_tok t @ rest" and ?v = "after_pay (va_moved v w RHead) p"
  have w: "0 < w" "pay_lawful m p" using assms(2) by (simp_all add: t tok_lawful_Token)
  then have x: "?x \<noteq> []" by (auto simp: t simp flip: length_0_conv)
  have "va_head m v ?x = Some (?v, pay_body p @ rest, Continue ())"
    unfolding va_head_iff [OF assms(1,3)]
    using assms(2,3) by (intro exI [of _ f] exI [of _ w] exI [of _ p]) (simp add: t tok_lawful_Token emit_payload_split)
  then have "va_turn m v ?x = Some (?v, pay_body p @ rest, Continue ())"
    using assms(1) by (simp add: va_turn_def va_fresh_def)
  then have "va_drive m v ?x = va_drive m ?v (pay_body p @ rest)" by (rule va_drive_turn(1) [OF x])
  then show ?thesis by (simp add: after_pay_drive [OF w(2)] t)
qed

text \<open>A head turn that suspends leaves a construct unfinished.\<close>

lemma finish_head:
  "va_finish v = Some (Inr ()) \<Longrightarrow> va_mode v = RHead \<and> cbuf (rp_carry (va_pump v)) = []"
  by (cases "va_mode v") (auto simp: va_finish_def carry_is_empty_def carry_len_def Let_def split: if_splits)

lemma suspended_modes:
  "va_varint_value m field v x = Some (v', x', Break (Inr ())) \<Longrightarrow> va_mode v' \<noteq> RHead"
  "va_len_word m field v x = Some (v', x', Break (Inr ())) \<Longrightarrow> va_mode v' \<noteq> RHead"
  "va_fixed_tail field kind v x = Some (v', x', Break (Inr ())) \<Longrightarrow> va_mode v' \<noteq> RHead"
  by (auto simp: va_varint_value_def va_len_word_def va_fixed_tail_def Let_def
      split: bind_splits root_verdict.splits if_splits option.splits)

lemma tagged_suspended:
  assumes "va_tagged m start word v x = Some (v', x', Break (Inr ()))"
  shows "va_mode v' \<noteq> RHead"
proof (cases "FieldNumber_from_word word")
  case (Some field)
  show ?thesis
  proof (cases "classify_gl (Low3_from_word word)")
    case (GlRecord kind)
    with Some assms show ?thesis
      by (cases kind) (auto simp: va_tagged_def suspended_modes split: bind_splits if_splits)
  qed (use Some assms in \<open>auto simp: va_tagged_def\<close>)
qed (use assms in \<open>auto simp: va_tagged_def\<close>)

lemma head_suspended:
  assumes v: "va_fresh v" "rp_off (va_pump v) + length x < u64_max" "x \<noteq> []"
    and h: "va_head m v x = Some (v', x', Break (Inr ()))"
  shows "va_finish v' \<noteq> Some (Inr ())"
proof -
  let ?p = "va_pump v"
  have f: "rp_carry ?p = carry_new" using v(1) by (simp add: va_fresh_def)
  have start: "root_construct_start ?p = Some (rp_off ?p)" by (simp add: start_of f)
  from h consider (word) p' x1 word where "va_tagged m (rp_off ?p) word (v\<lparr>va_pump := p'\<rparr>) x1 = Some (v', x', Break (Inr ()))"
    | (more) "root_held step_tag encoded_len32 (standard_of m) ?p x = Some (va_pump v', x', RvMore)"
    unfolding va_head_eq [OF start]
    by (cases "root_held step_tag encoded_len32 (standard_of m) ?p x") (auto split: root_verdict.splits)
  then show ?thesis
  proof cases
    case word
    with tagged_suspended finish_head show ?thesis by blast
  next
    case more
    have opn: "carry_open MAX_LEN32 (rp_carry ?p)" by (simp add: f carry_open_new)
    have off: "rp_off ?p + (length x + length ([] :: bytes)) < u64_max" using v(2) by simp
    have "cbuf (rp_carry (va_pump v')) = x"
    proof (cases rule: tag_reader.root_cases [OF opn off, of encoded_len32 "standard_of m", case_names complete suspended refused])
      case (suspended c1)
      with more f have "va_pump v' = ?p\<lparr>rp_carry := c1, rp_off := rp_off ?p + length x\<rparr>" "cbuf c1 = x" by simp_all
      then show ?thesis by simp
    qed (use more in auto)
    with v(3) finish_head show ?thesis by auto
  qed
qed

lemma va_accepts_step:
  assumes v: "va_fresh v" "va_ok m v (length x)" "x \<noteq> []" and a: "va_accepts (va_drive m v x)"
  shows "\<exists>t rest. x = emit_tok t @ rest \<and> tok_lawful_gl m t \<and>
    va_accepts (va_drive m (va_moved v (length (emit_tok t)) RHead) rest)"
proof -
  have room: "rp_off (va_pump v) + length x < u64_max" using v(2) by (simp add: va_ok_def va_room_def)
  have turn: "va_turn m v z = va_head m v z" for z using v(1) by (simp add: va_turn_def va_fresh_def)
  obtain v' x' fl where h: "va_head m v x = Some (v', x', fl)"
    using va.turn_total [of m v x] v turn by (auto simp: va_due_def)
  show ?thesis
  proof (cases fl)
    case (Break r)
    with h turn va_drive_turn(2) [OF v(3)] have "va_drive m v x = Some (v', r)" by simp
    with a have "r = Inr ()" "va_finish v' = Some (Inr ())" by (auto simp: va_accepts_def)
    with head_suspended [OF v(1) room v(3)] h Break show ?thesis by auto
  next
    case (Continue u)
    with h have c: "va_head m v x = Some (v', x', Continue ())" by simp
    then obtain f w p where t: "tok_lawful_gl m (Token f w p)" "x = enc w (unat (tag_of f p)) @ pay_head p @ x'"
      "v' = after_pay (va_moved v w RHead) p"
      unfolding va_head_iff [OF v(1) room] tok_lawful_Token by blast
    then have p: "pay_lawful m p" by (simp add: tok_lawful_Token)
    from a turn c va_drive_turn(1) [OF v(3)] have "va_accepts (va_drive m v' x')" by simp
    then have "va_accepts (va_drive m (after_pay (va_moved v w RHead) p) x')" by (simp add: t(3))
    then have l: "length (pay_body p) \<le> length x'"
      "va_accepts (va_drive m (va_moved v (w + length (emit_payload p)) RHead) (drop (length (pay_body p)) x'))"
      unfolding after_pay_drive [OF p] by (auto simp: va_accepts_def va_finish_def Let_def split: if_splits)
    text \<open>The token's payload body is what was swallowed.\<close>
    define body where "body = take (length (pay_body p)) x'"
    define q where "q = (case p of PLen bs lw \<Rightarrow> PLen body lw | _ \<Rightarrow> p)"
    have b: "length body = length (pay_body p)" using l(1) by (simp add: body_def)
    have q: "pay_head q = pay_head p" "pay_body q = body" "tag_of f q = tag_of f p" "pay_lawful m q" "length (emit_payload q) = length (emit_payload p)"
      using b p by (cases p; simp add: q_def body_def tag_of_def pay_lawful_def)+
    have "x = emit_tok (Token f w q) @ drop (length (pay_body p)) x'"
      using t(2) by (simp add: q emit_payload_split body_def)
    moreover have "tok_lawful_gl m (Token f w q)" using t(1) q by (simp add: tok_lawful_Token)
    moreover have "length (emit_tok (Token f w q)) = w + length (emit_payload p)" using q(5) by simp
    ultimately show ?thesis using l(2) by metis
  qed
qed

text \<open>The language of the loop: lawful token sequences, spelled out.\<close>

lemma moved_fresh: "va_fresh (va_moved v k RHead)"
  by (simp add: va_fresh_def)

lemma va_accepts_iff:
  "va_fresh v \<Longrightarrow> va_ok m v (length x) \<Longrightarrow>
   va_accepts (va_drive m v x) \<longleftrightarrow> (\<exists>ts. x = emit ts \<and> (\<forall>t \<in> set ts. tok_lawful_gl m t))"
proof (induction "length x" arbitrary: v x rule: less_induct)
  case less
  note v = less.prems
  show ?case
  proof (cases "x = []")
    case True
    have "va_accepts (va_drive m v x)"
      using v True by (simp add: va_accepts_def va_drive_turn va_finish_def va_fresh_def va_ok_def va_room_def carry_is_empty_def Let_def)
    with True show ?thesis by (auto intro: exI [of _ "[]"])
  next
    case False
    have ih: "va_accepts (va_drive m (va_moved v (length (emit_tok t)) RHead) rest) \<longleftrightarrow>
        (\<exists>ts. rest = emit ts \<and> (\<forall>t \<in> set ts. tok_lawful_gl m t))"
      if x: "x = emit_tok t @ rest" and t: "tok_lawful_gl m t" for t rest
    proof (rule less.hyps)
      have "0 < length (emit_tok t)" using t length_emit_tok_pos by (simp add: tok_lawful_gl_def)
      then show "length rest < length x" by (simp add: x)
      show "va_ok m (va_moved v (length (emit_tok t)) RHead) (length rest)"
        using v(2) by (intro moved_ok) (simp_all add: x carry_open_new)
    qed (rule moved_fresh)
    show ?thesis
    proof
      assume "va_accepts (va_drive m v x)"
      from va_accepts_step [OF v False this] ih obtain t ts where "x = emit_tok t @ emit ts" "tok_lawful_gl m t"
        "\<forall>t \<in> set ts. tok_lawful_gl m t" by blast
      then show "\<exists>ts. x = emit ts \<and> (\<forall>t \<in> set ts. tok_lawful_gl m t)" by (intro exI [of _ "t # ts"]) simp
    next
      assume "\<exists>ts. x = emit ts \<and> (\<forall>t \<in> set ts. tok_lawful_gl m t)"
      with False obtain t ts where x: "x = emit_tok t @ emit ts" and t: "tok_lawful_gl m t" and ts: "\<forall>t \<in> set ts. tok_lawful_gl m t"
        by (metis emit_Cons emit_Nil list.set_intros(1,2) neq_Nil_conv)
      have "rp_off (va_pump v) + length x < u64_max" using v(2) by (simp add: va_ok_def va_room_def)
      then show "va_accepts (va_drive m v x)"
        using va_drive_token [OF v(1) t, of "emit ts"] ih [OF x t] ts x by auto
    qed
  qed
qed

section \<open>Properties\<close>

text \<open>A whole stream, chunk by chunk, and its end: the offset reached and the verdict.\<close>

definition va_session :: "standard \<Rightarrow> bytes list \<Rightarrow> (nat \<times> va_result) option" where
  "va_session standard chunks =
     do { (v, r) \<leftarrow> feed_all va_feed (Inr ()) (va_new standard) chunks;
          (case r of
             Inl f \<Rightarrow> Some (va_offset v, Inl f)
           | Inr _ \<Rightarrow> do { r \<leftarrow> va_finish v; Some (va_offset v, r) }) }"

lemma va_new_ok: "n < u64_max \<Longrightarrow> va_ok (standard = CanonicalMinimal) (va_new standard) n"
  by (cases standard) (simp_all add: va_ok_def va_room_def va_new_def root_new_def standard_of_def carry_open_new)

lemma va_new_fresh: "va_fresh (va_new standard)"
  by (simp add: va_fresh_def va_new_def root_new_def)

lemma va_finish_returns: "\<not> rp_terminal (va_pump v) \<Longrightarrow> \<exists>r. va_finish v = Some r"
  by (cases "va_mode v") (auto simp: va_finish_def Let_def)

lemma va_session_whole:
  assumes "length (concat xs) < u64_max"
  shows "\<exists>out. va_session standard xs = Some out \<and> va_session standard [concat xs] = Some out"
proof (cases "xs = []")
  case True
  have "va_feed (va_new standard) [] = Some (va_new standard, Inr ())"
    using va_feed_drive [of "standard = CanonicalMinimal" "va_new standard" "[]"] va_new_ok [of 0 standard] assms True
    by (simp add: va_drive_turn)
  moreover have "\<exists>r. va_finish (va_new standard) = Some r"
    by (rule va_finish_returns) (simp add: va_new_def root_new_def)
  ultimately show ?thesis using True by (auto simp: va_session_def)
next
  case False
  let ?m = "standard = CanonicalMinimal" and ?v = "va_new standard"
  have ok: "va_ok ?m ?v (length (concat xs))" by (rule va_new_ok [OF assms])
  from va.feed_all_concat [OF TrueI ok False] obtain v1 v2 r where
    f: "feed_all va_feed (Inr ()) ?v xs = Some (v1, r)" "va_feed ?v (concat xs) = Some (v2, r)"
    "va_alike v1 v2" "r = Inr () \<longrightarrow> v1 = v2" by (auto simp: same_drive_def)
  have w: "feed_all va_feed (Inr ()) ?v [concat xs] = Some (v2, r)" using f(2) by simp
  show ?thesis
  proof (cases r)
    case (Inl e)
    with f w show ?thesis by (simp add: va_session_def va_alike_def va_offset_def)
  next
    case (Inr u)
    with va.feed_returns [of ?m ?v "concat xs" 0] ok f(2) have "va_ok ?m v2 0" by simp
    then obtain q where "va_finish v2 = Some q" using va_finish_returns by (auto simp: va_ok_def va_room_def)
    with f w Inr show ?thesis by (simp add: va_session_def)
  qed
qed

lemma va_drive_emit:
  "va_fresh v \<Longrightarrow> rp_off (va_pump v) + length (emit ts) < u64_max \<Longrightarrow> \<forall>t \<in> set ts. tok_lawful_gl m t \<Longrightarrow>
   va_drive m v (emit ts) = Some (va_moved v (length (emit ts)) RHead, Inr ())"
proof (induction ts arbitrary: v)
  case Nil
  then have "va_moved v 0 RHead = v" by (simp add: va_fresh_def va_moved_def)
  then show ?case by (simp add: va_drive_turn)
next
  case (Cons t ts)
  then have "va_drive m v (emit (t # ts)) = va_drive m (va_moved v (length (emit_tok t)) RHead) (emit ts)"
    using va_drive_token [of v m t "emit ts"] by simp
  with Cons show ?case by (simp add: moved_fresh add.assoc)
qed

lemma va_session_accepts:
  assumes "length x < u64_max"
  shows "(\<exists>at. va_session standard [x] = Some (at, Inr ())) \<longleftrightarrow>
      (\<exists>ts. x = emit ts \<and> (\<forall>t \<in> set ts. tok_lawful_gl (standard = CanonicalMinimal) t))"
    and "va_session standard [x] = Some (at, Inr ()) \<Longrightarrow> at = length x"
proof -
  let ?m = "standard = CanonicalMinimal" and ?v = "va_new standard"
  have ok: "va_ok ?m ?v (length x)" by (rule va_new_ok [OF assms])
  have f: "va_feed ?v x = va_drive ?m ?v x" by (rule va_feed_drive [OF ok])
  obtain v r where d: "va_drive ?m ?v x = Some (v, r)" using va.feed_returns [of ?m ?v x 0] ok f by auto
  have s: "va_session standard [x] = Some (at, Inr ()) \<longleftrightarrow> r = Inr () \<and> va_finish v = Some (Inr ()) \<and> at = va_offset v" for at
    using d by (cases r) (auto simp: va_session_def f split: bind_splits)
  then have a: "(\<exists>at. va_session standard [x] = Some (at, Inr ())) \<longleftrightarrow> va_accepts (va_drive ?m ?v x)"
    using d by (auto simp: va_accepts_def)
  then show l: "(\<exists>at. va_session standard [x] = Some (at, Inr ())) \<longleftrightarrow>
      (\<exists>ts. x = emit ts \<and> (\<forall>t \<in> set ts. tok_lawful_gl ?m t))"
    using va_accepts_iff [OF va_new_fresh ok] by simp
  assume h: "va_session standard [x] = Some (at, Inr ())"
  with l obtain ts where ts: "x = emit ts" "\<forall>t \<in> set ts. tok_lawful_gl ?m t" by blast
  have "rp_off (va_pump ?v) = 0" by (simp add: va_new_def root_new_def)
  with va_drive_emit [OF va_new_fresh _ ts(2)] assms ts(1) d have "v = va_moved ?v (length x) RHead" by auto
  with h s show "at = length x" by (simp add: va_offset_def va_new_def root_new_def)
qed

lemma va_session_lawful:
  assumes "length (concat chunks) < u64_max"
  shows "va_session standard chunks = Some (length (concat chunks), Inr ()) \<longleftrightarrow>
    (\<exists>ts. concat chunks = emit ts \<and> list_all tok_ok ts \<and> list_all (\<lambda>t. \<not> is_group (tk_payload t)) ts \<and>
      (standard = CanonicalMinimal \<longrightarrow> list_all tok_minimal ts))"
proof -
  have "va_session standard chunks = va_session standard [concat chunks]"
    using va_session_whole [OF assms, of standard] by auto
  moreover have "va_session standard [concat chunks] = Some (length (concat chunks), Inr ()) \<longleftrightarrow>
      (\<exists>at. va_session standard [concat chunks] = Some (at, Inr ()))"
    using va_session_accepts(2) [OF assms, of standard] by blast
  ultimately show ?thesis
    unfolding va_session_accepts(1) [OF assms] by (auto simp: tok_lawful_gl_def list_all_iff)
qed

text \<open>C22: The groupless stream validator is the grammar. Fed any chunks of a stream short of the coordinate space, it
  finishes cleanly, every byte consumed, if and only if the stream is the spelling of lawful tokens none of
  which is a group bracket (each spelled minimally, under the canonical standard).\<close>

theorem validator_accepts_gl:
  assumes "length (concat chunks) < u64_max"
  shows "va_session standard chunks = Some (length (concat chunks), Inr ()) \<longleftrightarrow>
    (\<exists>ts. concat chunks = emit ts \<and> list_all tok_ok ts \<and> list_all (\<lambda>t. \<not> is_group (tk_payload t)) ts \<and>
      (standard = CanonicalMinimal \<longrightarrow> list_all tok_minimal ts))"
  by (rule va_session_lawful [OF assms])

lemma validator_accepts_gl_witness:
  "va_session CanonicalMinimal [[0x08, 0x96], [], [0x01, 0x0A, 0x00]] = Some (5, Inr ())"
proof -
  let ?xs = "[[0x08, 0x96], [], [0x01, 0x0A, 0x00]] :: bytes list"
  let ?ts = "[Token 1 1 (PVarint 150 2), Token 1 1 (PLen [] 1)]"
  have l: "length (concat ?xs) < u64_max" by (simp add: u64_max_def)
  have d: "concat ?xs = emit ?ts" by code_simp
  have "unat (tag_of 1 (PVarint 150 2)) = 8" "unat (tag_of 1 (PLen [] 1)) = 10" "field_ok 1"
    by code_simp+
  then have o: "list_all tok_ok ?ts" by simp
  have m: "list_all tok_minimal ?ts" by code_simp
  have b: "list_all (\<lambda>t. \<not> is_group (tk_payload t)) ?ts" by code_simp
  have "va_session CanonicalMinimal ?xs = Some (length (concat ?xs), Inr ())"
    by (rule iffD2 [OF validator_accepts_gl [OF l]], rule exI [of _ ?ts]) (intro conjI impI d o m b)
  then show ?thesis by simp
qed

text \<open>C23: Where the stream is cut does not matter: the verdict (the fault and its coordinate included) and the
  offset reached are those of the whole stream in one feed, and every session returns.\<close>

theorem validator_chunks_gl:
  assumes "length (concat chunks) < u64_max"
  shows "\<exists>out. va_session standard chunks = Some out \<and> va_session standard [concat chunks] = Some out"
  by (rule va_session_whole [OF assms])

lemma validator_chunks_gl_witness:
  "\<exists>out. va_session Tolerant [[0x0A, 0x80], [0x80, 0x80, 0x80], [0x80, 7]] = Some out \<and>
     va_session Tolerant [[0x0A, 0x80, 0x80, 0x80, 0x80, 0x80, 7]] = Some out"
  using validator_chunks_gl [of "[[0x0A, 0x80], [0x80, 0x80, 0x80], [0x80, 7]]" Tolerant]
  by (simp add: u64_max_def)

text \<open>What a fault of \<open>feed\<close> can be, and where: the refusals of a sealed extent (a cut varint, a length past its owner), of depth and
  of the stream's end cannot arise at the root; a payload that does not fit is one the coordinate space itself has no room for.\<close>

fun root_fault :: "scan_kind_gl \<Rightarrow> nat \<Rightarrow> bool" where
  "root_fault (SgRead _ cause) at \<longleftrightarrow> cause = StreamTooWide \<or> cause = StreamOutOfClass"
| "root_fault (SgLenOverrun _ _) at \<longleftrightarrow> False"
| "root_fault (SgUnclosedLen _) at \<longleftrightarrow> False"
| "root_fault (SgDepthExceeded _) at \<longleftrightarrow> False"
| "root_fault (SgFixedTruncated _) at \<longleftrightarrow> False"
| "root_fault (SgPayloadTruncated _) at \<longleftrightarrow> False"
| "root_fault (SgFixedOverrun _) at \<longleftrightarrow> u64_max < at + 8"
| "root_fault (SgLenUnsatisfiable _ len) at \<longleftrightarrow> u64_max \<le> at + unat len"
| "root_fault _ at \<longleftrightarrow> True"

definition faulted :: "bool \<Rightarrow> validator_gl \<times> va_result \<Rightarrow> bool" where
  "faulted m out \<longleftrightarrow> (case out of (v, r) \<Rightarrow> (case r of
     Inl f \<Rightarrow> rp_terminal (va_pump v) \<and> root_fault (sg_kind f) (sg_at f) \<and> (\<not> m \<longrightarrow> scan_class_gl (sg_kind f) \<noteq> Policy)
   | Inr _ \<Rightarrow> True))"


lemma padded_fault [simp]: "root_fault (scan_padded_gl st) at"
  by (cases st) simp_all




lemma idle_faulted [simp]: "faulted m (v, Inr u)"
  by (simp add: faulted_def)











end
