(* ===== verification/Pumping.thy ===== *)
theory Pumping
  imports Pump Turn Scan
begin

text \<open>
  What the sink-driving scanners share: operations over a state that holds a \<open>Pump\<close>, in the loop of
  \<open>Turn\<close>. The locale names the pump inside the state and proves once, for every word operation, fixed
  payload and counted payload of either dialect, that it owes the loop its turn. No code of its own.
\<close>

section \<open>Pump steps, in one formula\<close>

definition pump_step ::
  "(carry \<Rightarrow> bytes \<Rightarrow> nat \<Rightarrow> nat \<Rightarrow> (carry \<times> bytes \<times> nat \<times> 'a step) option) \<Rightarrow> ('a \<Rightarrow> nat) \<Rightarrow> standard \<Rightarrow>
   pump \<Rightarrow> bytes \<Rightarrow> (pump \<times> bytes \<times> 'a pump_verdict) option" where
  "pump_step step minimal standard p x =
     do { (c, x', off, v) \<leftarrow> held step minimal standard (pu_carry p) x (pu_off p) (pu_zone p);
          Some (p\<lparr>pu_carry := (case v of PvDone _ \<Rightarrow> carry_new | _ \<Rightarrow> c), pu_off := off\<rparr>, x', v) }"

lemma pump_steps:
  "pump_step_tag p x standard = pump_step step_tag encoded_len32 standard p x"
  "pump_step_len p x standard = pump_step step_len len_minimal standard p x"
  "pump_step_value p x standard = pump_step step_value64 encoded_len64 standard p x"
proof -
  show "pump_step_tag p x standard = pump_step step_tag encoded_len32 standard p x"
    by (cases "held step_tag encoded_len32 standard (pu_carry p) x (pu_off p) (pu_zone p)")
      (auto simp: pump_step_def pump_step_tag_def pump_step_tag_held_def cleared_def split: pump_verdict.splits)
  show "pump_step_len p x standard = pump_step step_len len_minimal standard p x"
    by (cases "held step_len len_minimal standard (pu_carry p) x (pu_off p) (pu_zone p)")
      (auto simp: pump_step_def pump_step_len_def pump_step_len_held_def cleared_def split: pump_verdict.splits)
  show "pump_step_value p x standard = pump_step step_value64 encoded_len64 standard p x"
    by (cases "held step_value64 encoded_len64 standard (pu_carry p) x (pu_off p) (pu_zone p)")
      (auto simp: pump_step_def pump_step_value_def pump_step_value_held_def cleared_def split: pump_verdict.splits)
qed

context word_reader
begin

text \<open>A pump step over an open carry below its zone, and over the chunk gone on with \<open>y\<close>.\<close>

lemma pump_cases:
  assumes "carry_open cap (pu_carry p)" "pu_off p \<le> pu_zone p"
  obtains (complete) k v where
      "pump_step step minimal standard p x = Some (p\<lparr>pu_carry := carry_new, pu_off := pu_off p + k\<rparr>, drop k x, PvDone v)"
      "0 < k" "k \<le> length x" "pu_off p + k \<le> pu_zone p"
      "pump_step step minimal standard p (x @ y) =
         Some (p\<lparr>pu_carry := carry_new, pu_off := pu_off p + k\<rparr>, drop k x @ y, PvDone v)"
  | (suspended) c1 where
      "pump_step step minimal standard p x = Some (p\<lparr>pu_carry := c1, pu_off := pu_off p + length x\<rparr>, [], PvMore)"
      "carry_open cap c1" "cbuf c1 = cbuf (pu_carry p) @ x" "pu_off p + length x \<le> pu_zone p"
      "\<exists>p2 p3 y2 v2.
          pump_step step minimal standard (p\<lparr>pu_carry := c1, pu_off := pu_off p + length x\<rparr>) y = Some (p2, y2, v2) \<and>
          pump_step step minimal standard p (x @ y) = Some (p3, y2, v2) \<and>
          carry_len (pu_carry p2) = carry_len (pu_carry p3) \<and>
          ((\<exists>w. v2 = PvDone w) \<or> v2 = PvMore \<longrightarrow> p2 = p3) \<and> p2 = p3\<lparr>pu_carry := pu_carry p2\<rparr> \<and>
          pu_zone p3 = pu_zone p"
  | (refused) c1 c3 k v where
      "pump_step step minimal standard p x = Some (p\<lparr>pu_carry := c1, pu_off := pu_off p + k\<rparr>, drop k x, v)"
      "k \<le> length x" "pu_off p + k \<le> pu_zone p" "carry_len c1 = carry_len (pu_carry p) + k" "carry_len c3 = carry_len c1"
      "v \<in> {PvCut, PvTooWide, PvOutOfClass, PvNonMinimal}"
      "pump_step step minimal standard p (x @ y) = Some (p\<lparr>pu_carry := c3, pu_off := pu_off p + k\<rparr>, drop k x @ y, v)"
proof (cases rule: held_cases [OF assms, of minimal standard x, case_names complete suspended refused])
  case (complete c1 k v)
  from complete(6) [of y] obtain c3 where
    "held step minimal standard (pu_carry p) (x @ y) (pu_off p) (pu_zone p) = Some (c3, drop k x @ y, pu_off p + k, PvDone v)" ..
  with complete show ?thesis by (intro that(1) [of k v]) (simp_all add: pump_step_def)
next
  case (suspended c1)
  let ?z = "pu_zone p" and ?o = "pu_off p + length x"
  show ?thesis
  proof (rule that(2))
    show "pump_step step minimal standard p x = Some (p\<lparr>pu_carry := c1, pu_off := ?o\<rparr>, [], PvMore)"
      using suspended by (simp add: pump_step_def)
    show "carry_open cap c1" "cbuf c1 = cbuf (pu_carry p) @ x" "?o \<le> ?z" by fact+
    obtain c2 y2 off2 v2 where h: "held step minimal standard c1 y ?o ?z = Some (c2, y2, off2, v2)"
      by (cases rule: held_cases [OF suspended(3,2), of minimal standard y]) auto
    from suspended(5) [OF h] obtain c3
      where "held step minimal standard (pu_carry p) (x @ y) (pu_off p) ?z = Some (c3, y2, off2, v2)"
        "v2 = PvMore \<longrightarrow> c3 = c2" "cbuf c3 = cbuf c2" by blast
    with h show "\<exists>p2 p3 y2 v2.
        pump_step step minimal standard (p\<lparr>pu_carry := c1, pu_off := ?o\<rparr>) y = Some (p2, y2, v2) \<and>
        pump_step step minimal standard p (x @ y) = Some (p3, y2, v2) \<and>
        carry_len (pu_carry p2) = carry_len (pu_carry p3) \<and>
        ((\<exists>w. v2 = PvDone w) \<or> v2 = PvMore \<longrightarrow> p2 = p3) \<and> p2 = p3\<lparr>pu_carry := pu_carry p2\<rparr> \<and> pu_zone p3 = ?z"
      by (cases v2) (simp_all add: pump_step_def carry_len_def)
  qed
next
  case (refused c1 k v)
  from refused(7) [of y] obtain c3 where
    c3: "held step minimal standard (pu_carry p) (x @ y) (pu_off p) (pu_zone p) = Some (c3, drop k x @ y, pu_off p + k, v)"
    "cbuf c3 = cbuf c1" by blast
  have "(case v of PvDone _ \<Rightarrow> carry_new | _ \<Rightarrow> c) = c" for c using refused(5) by (cases v) simp_all
  with refused c3 show ?thesis
    by (intro that(3) [of k c1 v c3]) (simp_all add: pump_step_def carry_len_def)
qed

end

text \<open>A grab with a collection in flight and its bytes inside the zone.\<close>

lemma pump_grab_eq:
  assumes "fixed_open need (pu_carry p)" "need \<le> 10" "pu_off p + (need - carry_len (pu_carry p)) \<le> pu_zone p"
  shows "pump_grab_fixed need p x =
    (let d = need - carry_len (pu_carry p) in
     if d \<le> length x
     then Some (p\<lparr>pu_carry := carry_new, pu_off := pu_off p + d\<rparr>, drop d x, Some (cbuf (pu_carry p) @ take d x))
     else Some (p\<lparr>pu_carry := (pu_carry p)\<lparr>cbuf := cbuf (pu_carry p) @ x\<rparr>, pu_off := pu_off p + length x\<rparr>, [], None))"
proof -
  have "pu_carry p = carry_new" if "carry_is_empty (pu_carry p)"
    using that assms(1) by (auto simp: carry_is_empty_def carry_len_def fixed_open_def carry_new_def intro: carry.equality)
  then show ?thesis
    using collect_room [of need "pu_carry p" "pu_off p" "pu_zone p" x] assms
    by (auto simp: pump_grab_fixed_def pump_collect_fixed_def Let_def carry_is_empty_def
        carry_bytes_def carry_len_def fixed_open_def)
qed

section \<open>Operations over a state that holds a pump\<close>

text \<open>Where a refused read is placed: at the seal that cut it, else where its construct began.\<close>

definition halt_at :: "'a pump_verdict \<Rightarrow> pump \<Rightarrow> nat option" where
  "halt_at v p = (case v of PvCut \<Rightarrow> Some (pu_zone p) | _ \<Rightarrow> pump_construct_start p)"

lemma pump_start_of:
  "carry_len (pu_carry p) \<le> pu_off p \<Longrightarrow> pump_construct_start p = Some (pu_off p - carry_len (pu_carry p))"
  by (simp add: pump_construct_start_def usub_def)

lemma halt_at_cong:
  "pu_off p = pu_off q \<Longrightarrow> pu_zone p = pu_zone q \<Longrightarrow> carry_len (pu_carry p) = carry_len (pu_carry q) \<Longrightarrow>
   halt_at v p = halt_at v q"
  by (simp add: halt_at_def pump_construct_start_def split: pump_verdict.split)

lemma halt_at_Some: "carry_len (pu_carry p) \<le> pu_off p \<Longrightarrow> \<exists>at. halt_at v p = Some at"
  by (simp add: halt_at_def pump_start_of split: pump_verdict.split)

locale pumping =
  fixes pump_of :: "'z \<Rightarrow> pump" and put :: "pump \<Rightarrow> 'z \<Rightarrow> 'z"
    and due :: "'z \<Rightarrow> ('z \<times> ('r, unit) control_flow) option"
    and turn :: "'z \<Rightarrow> bytes \<Rightarrow> ('z \<times> bytes \<times> ('r, unit) control_flow) option"
    and idle :: 'r and ok :: "'z \<Rightarrow> nat \<Rightarrow> bool" and alike :: "'z \<Rightarrow> 'z \<Rightarrow> bool" and seamless :: bool
  assumes pump_put [simp]: "pump_of (put p z) = p"
    and put_put [simp]: "put p (put q z) = put p z"
    and alike_refl [simp]: "alike z z"
    and alike_put: "pu_off p = pu_off q \<Longrightarrow> pu_terminal p = pu_terminal q \<Longrightarrow> alike (put p z) (put q z)"
begin

abbreviation zacts where
  "zacts N act z x y \<equiv> acts seamless N ok alike idle due turn act z x y"

lemma word_acts:
  fixes step :: "carry \<Rightarrow> bytes \<Rightarrow> nat \<Rightarrow> nat \<Rightarrow> (carry \<times> bytes \<times> nat \<times> 'a step) option"
  assumes r: "word_reader step cap"
    and opn: "carry_open cap (pu_carry (pump_of z))" "pu_off (pump_of z) \<le> pu_zone (pump_of z)"
      "carry_len (pu_carry (pump_of z)) \<le> pu_off (pump_of z)"
    and act: "\<And>u x. pump_construct_start (pump_of u) = pump_construct_start (pump_of z) \<Longrightarrow>
      u = z \<or> (\<exists>p. u = put p (suspend z)) \<Longrightarrow> act u x =
      do { (p, x, verdict) \<leftarrow> pump_step step minimal standard (pump_of u) x;
           (case verdict of
              PvDone w \<Rightarrow> go w (put p u) x
            | PvMore \<Rightarrow> Some (put p (suspend u), x, Break idle)
            | _ \<Rightarrow> do { at \<leftarrow> halt_at verdict p;
                        Some (put (p\<lparr>pu_terminal := True\<rparr>) u, x, Break (out at verdict)) }) }"
    and out: "\<And>at v. out at v \<noteq> idle"
    and go: "\<And>w k. 0 < k \<Longrightarrow> k \<le> length x \<Longrightarrow> pu_off (pump_of z) + k \<le> pu_zone (pump_of z) \<Longrightarrow>
      zacts N (go w) (put ((pump_of z)\<lparr>pu_carry := carry_new, pu_off := pu_off (pump_of z) + k\<rparr>) z) (drop k x) y"
    and sus: "\<And>c s1. carry_open cap c \<Longrightarrow> cbuf c = cbuf (pu_carry (pump_of z)) @ x \<Longrightarrow>
      pu_off (pump_of z) + length x \<le> pu_zone (pump_of z) \<Longrightarrow>
      s1 = put ((pump_of z)\<lparr>pu_carry := c, pu_off := pu_off (pump_of z) + length x\<rparr>) (suspend z) \<Longrightarrow>
      ok s1 (length y) \<and> due s1 = Some (s1, Continue ())"
    and sus_turn: "\<And>p x. turn (put p (suspend z)) x = act (put p (suspend z)) x"
    and sus_sus: "\<And>p q. put q (suspend (put p (suspend z))) = put q (suspend z)"
    and sus_go: "\<And>w p x. same_turn alike idle (go w (put p z) x) (go w (put p (suspend z)) x)"
    and sus_alike: "\<And>p q. pu_off p = pu_off q \<Longrightarrow> pu_terminal p = pu_terminal q \<Longrightarrow> alike (put p z) (put q (suspend z))"
  shows "zacts N act z x y"
proof -
  let ?p = "pump_of z"
  show ?thesis
  proof (cases rule: word_reader.pump_cases [OF r opn(1,2), of minimal standard x y, case_names complete suspended refused])
    case (complete k w)
    show ?thesis
    proof (rule acts_then [OF go [of k w]])
      show "act z x = go w (put (?p\<lparr>pu_carry := carry_new, pu_off := pu_off ?p + k\<rparr>) z) (drop k x)"
        using complete by (simp add: act)
      show "act z (x @ y) = go w (put (?p\<lparr>pu_carry := carry_new, pu_off := pu_off ?p + k\<rparr>) z) (drop k x @ y)"
        using complete by (simp add: act)
    qed (use complete in auto)
  next
    case (suspended c1)
    let ?q = "?p\<lparr>pu_carry := c1, pu_off := pu_off ?p + length x\<rparr>"
    let ?w = "put ?q (suspend z)"
    from suspended(5) obtain p2 p3 y2 v2 where
      h: "pump_step step minimal standard ?q y = Some (p2, y2, v2)" "pump_step step minimal standard ?p (x @ y) = Some (p3, y2, v2)"
      and e: "carry_len (pu_carry p2) = carry_len (pu_carry p3)"
        "(\<exists>w. v2 = PvDone w) \<or> v2 = PvMore \<longrightarrow> p2 = p3" "p2 = p3\<lparr>pu_carry := pu_carry p2\<rparr>" by (elim exE conjE)
    have off: "pu_off p2 = pu_off p3" "pu_zone p2 = pu_zone p3" "pu_terminal p2 = pu_terminal p3"
      using arg_cong [OF e(3), of pu_off] arg_cong [OF e(3), of pu_zone] arg_cong [OF e(3), of pu_terminal] by simp_all
    have at: "halt_at v2 p2 = halt_at v2 p3" using off e(1) by (intro halt_at_cong)
    have "carry_len c1 = carry_len (pu_carry ?p) + length x" using suspended(3) by (simp add: carry_len_def)
    then have "pump_construct_start (pump_of ?w) = pump_construct_start ?p" using opn(3) by (simp add: pump_start_of)
    then have actw: "act ?w y =
        do { (p, x, verdict) \<leftarrow> pump_step step minimal standard ?q y;
             (case verdict of
                PvDone w \<Rightarrow> go w (put p (suspend z)) x
              | PvMore \<Rightarrow> Some (put p (suspend z), x, Break idle)
              | _ \<Rightarrow> do { at \<leftarrow> halt_at verdict p;
                          Some (put (p\<lparr>pu_terminal := True\<rparr>) (suspend z), x, Break (out at verdict)) }) }"
      by (subst act) (auto simp: sus_sus cong: pump_verdict.case_cong)
    note s = sus [OF suspended(2,3,4) refl]
    show ?thesis
    proof (rule acts_idle)
      show "act z x = Some (?w, [], Break idle)" using suspended by (simp add: act)
      show "ok ?w (length y)" "due ?w = Some (?w, Continue ())" using s by simp_all
      show "same_turn alike idle (act z (x @ y)) (turn ?w y)"
      proof (cases v2)
        case (PvDone w)
        with e(2) have "p2 = p3" by blast
        with h PvDone sus_go [of w p3 y2] show ?thesis unfolding sus_turn by (simp add: act actw)
      next
        case PvMore
        with e(2) have "p2 = p3" by blast
        with h PvMore show ?thesis unfolding sus_turn by (simp add: act actw same_turn_def)
      qed (use h off at out in \<open>unfold sus_turn, auto simp: act actw same_turn_def intro!: sus_alike split: bind_splits\<close>)
    qed
  next
    case (refused c1 c3 k v)
    let ?q = "?p\<lparr>pu_carry := c1, pu_off := pu_off ?p + k\<rparr>"
    let ?r = "?p\<lparr>pu_carry := c3, pu_off := pu_off ?p + k\<rparr>"
    have "carry_len (pu_carry ?q) \<le> pu_off ?q" using refused(4) opn(3) by simp
    then obtain at where at: "halt_at v ?q = Some at" using halt_at_Some by blast
    moreover have "halt_at v ?r = halt_at v ?q" using refused(5) by (intro halt_at_cong) simp_all
    ultimately have at': "halt_at v ?r = Some at" by simp
    show ?thesis
    proof (rule acts_break)
      show "act z x = Some (put (?q\<lparr>pu_terminal := True\<rparr>) z, drop k x, Break (out at v))"
        using refused(1,6) at by (auto simp: act)
      have "act z (x @ y) = Some (put (?r\<lparr>pu_terminal := True\<rparr>) z, drop k x @ y, Break (out at v))"
        using refused(6,7) at' by (auto simp: act)
      moreover have "alike (put (?r\<lparr>pu_terminal := True\<rparr>) z) (put (?q\<lparr>pu_terminal := True\<rparr>) z)"
        by (rule alike_put) simp_all
      ultimately show "\<exists>s2 x2. act z (x @ y) = Some (s2, x2, Break (out at v)) \<and> alike s2 (put (?q\<lparr>pu_terminal := True\<rparr>) z)"
        by blast
    qed (rule out)
  qed
qed

lemma fixed_acts:
  fixes z :: 'z and need x
  defines "d \<equiv> need - carry_len (pu_carry (pump_of z))"
  assumes opn: "fixed_open need (pu_carry (pump_of z))" "need \<le> 10" "pu_off (pump_of z) + d \<le> pu_zone (pump_of z)"
    and act: "\<And>u x. act u x =
      do { (p, x, raw) \<leftarrow> pump_grab_fixed need (pump_of u) x;
           (case raw of
              Some b \<Rightarrow> go b (put p u) x
            | None \<Rightarrow> Some (put p (suspend u), x, Break idle)) }"
    and go: "\<And>b. d \<le> length x \<Longrightarrow> zacts N (go b)
      (put ((pump_of z)\<lparr>pu_carry := carry_new, pu_off := pu_off (pump_of z) + d\<rparr>) z) (drop d x) y"
    and sus: "\<And>c s1. fixed_open need c \<Longrightarrow> carry_len c = carry_len (pu_carry (pump_of z)) + length x \<Longrightarrow>
      s1 = put ((pump_of z)\<lparr>pu_carry := c, pu_off := pu_off (pump_of z) + length x\<rparr>) (suspend z) \<Longrightarrow>
      pu_off (pump_of z) + length x + (need - carry_len c) \<le> pu_zone (pump_of z) \<Longrightarrow>
      ok s1 (length y) \<and> due s1 = Some (s1, Continue ())"
    and sus_turn: "\<And>p x. turn (put p (suspend z)) x = act (put p (suspend z)) x"
    and sus_sus: "\<And>p q. put q (suspend (put p (suspend z))) = put q (suspend z)"
    and sus_go: "\<And>b p x. same_turn alike idle (go b (put p z) x) (go b (put p (suspend z)) x)"
  shows "zacts N act z x y"
proof -
  let ?p = "pump_of z"
  note grab = pump_grab_eq [OF opn(1,2) opn(3) [unfolded d_def], folded d_def]
  show ?thesis
  proof (cases "d \<le> length x")
    case True
    let ?q = "put (?p\<lparr>pu_carry := carry_new, pu_off := pu_off ?p + d\<rparr>) z" and ?b = "cbuf (pu_carry ?p) @ take d x"
    show ?thesis
    proof (rule acts_then [OF go [OF True, of ?b]])
      show "act z x = go ?b ?q (drop d x)" using grab [of x] True by (simp add: act Let_def)
      show "act z (x @ y) = go ?b ?q (drop d x @ y)" using grab [of "x @ y"] True by (simp add: act Let_def)
    qed
  next
    case False
    let ?c = "(pu_carry ?p)\<lparr>cbuf := cbuf (pu_carry ?p) @ x\<rparr>"
    let ?q = "?p\<lparr>pu_carry := ?c, pu_off := pu_off ?p + length x\<rparr>"
    let ?w = "put ?q (suspend z)"
    have l: "carry_len ?c = carry_len (pu_carry ?p) + length x" by (simp add: carry_len_def)
    have dl: "need - carry_len ?c = d - length x" unfolding l d_def by simp
    have fo: "fixed_open need ?c" using opn(1) False l by (auto simp: fixed_open_def d_def)
    have room: "pu_off ?p + length x + (need - carry_len ?c) \<le> pu_zone ?p"
      using opn(3) False dl by simp
    note s = sus [OF fo l refl room]
    have q: "fixed_open need (pu_carry ?q)" "pu_off ?q + (need - carry_len (pu_carry ?q)) \<le> pu_zone ?q"
      using fo room by simp_all
    note grab' = pump_grab_eq [OF q(1) opn(2) q(2), of y]
    show ?thesis
    proof (rule acts_idle)
      show "act z x = Some (?w, [], Break idle)" using grab [of x] False by (simp add: act Let_def)
      show "ok ?w (length y)" "due ?w = Some (?w, Continue ())" using s by simp_all
      have dd: "need - carry_len (pu_carry ?q) = d - length x" using dl by simp
      show "same_turn alike idle (act z (x @ y)) (turn ?w y)"
      proof (cases "d - length x \<le> length y")
        case True
        let ?p3 = "?p\<lparr>pu_carry := carry_new, pu_off := pu_off ?p + d\<rparr>"
        have "d \<le> length x + length y" "take d (x @ y) = x @ take (d - length x) y" "drop d (x @ y) = drop (d - length x) y"
          using False True by simp_all
        then have "act z (x @ y) = go (cbuf (pu_carry ?p) @ x @ take (d - length x) y) (put ?p3 z) (drop (d - length x) y)"
          using grab [of "x @ y"] by (simp add: act Let_def del: take_append drop_append)
        moreover have "turn ?w y = go (cbuf (pu_carry ?p) @ x @ take (d - length x) y) (put ?p3 (suspend z)) (drop (d - length x) y)"
          using grab' False True unfolding dd sus_turn by (simp add: act Let_def)
        ultimately show ?thesis using sus_go by simp
      next
        case nle: False
        let ?p3 = "?p\<lparr>pu_carry := (pu_carry ?p)\<lparr>cbuf := cbuf (pu_carry ?p) @ x @ y\<rparr>, pu_off := pu_off ?p + (length x + length y)\<rparr>"
        have "\<not> d \<le> length x + length y" using nle by simp
        then have "act z (x @ y) = Some (put ?p3 (suspend z), [], Break idle)"
          using grab [of "x @ y"] by (simp add: act Let_def)
        moreover have "turn ?w y = Some (put ?p3 (suspend z), [], Break idle)"
          using grab' False nle unfolding dd sus_turn by (simp add: act Let_def sus_sus add.assoc)
        ultimately show ?thesis by (simp add: same_turn_def)
      qed
    qed
  qed
qed

text \<open>A counted payload, handed on or passed over: \<open>res\<close> is the state after \<open>k\<close> of its bytes \<open>b\<close>.\<close>

lemma counted_acts:
  fixes r :: u32
  assumes nz: "r \<noteq> 0" "x \<noteq> []" "length x \<le> N"
    and act: "\<And>x. act z x = Some (res (r - count_take r x) (take (unat (count_take r x)) x) z, drop (unat (count_take r x)) x, Continue ())"
    and res_turn: "\<And>q b y. q \<noteq> 0 \<Longrightarrow> turn (res q b z) y =
      Some (res (q - count_take q y) (b @ take (unat (count_take q y)) y) z, drop (unat (count_take q y)) y, Continue ())"
    and res_ok: "\<And>q b n. length b \<le> length x \<Longrightarrow> length b \<le> unat r \<Longrightarrow> unat q = unat r - length b \<Longrightarrow>
      n + length b \<le> length x + length y \<Longrightarrow> ok (res q b z) n"
    and res_due: "\<And>q b. q \<noteq> 0 \<Longrightarrow> due (res q b z) = Some (res q b z, Continue ())"
  shows "zacts N act z x y"
proof -
  let ?t = "count_take r x" and ?u = "count_take r (x @ y)"
  have r0: "unat r \<noteq> 0" using nz(1) by (simp add: unat_eq_0)
  let ?w = "res (r - ?t) (take (unat ?t) x) z"
  have t: "unat ?t = min (unat r) (length x)" by (rule unat_count_take)
  have l: "unat (r - ?t) = unat r - length x" by (rule unat_count_left)
  show ?thesis
  proof (rule acts_continue)
    show "act z x = Some (?w, drop (unat ?t) x, Continue ())" by (rule act)
    show "ok ?w (length (drop (unat ?t) x) + length y)" by (rule res_ok) (use t l in \<open>auto simp: min_def\<close>)
    show "length (drop (unat ?t) x) < N" using nz t r0 by (cases x) (auto simp: min_def)
    assume "y \<noteq> []"
    show "act z (x @ y) = Some (?w, drop (unat ?t) x @ y, Continue ()) \<or>
      drop (unat ?t) x = [] \<and> due ?w = Some (?w, Continue ()) \<and> same_turn alike idle (act z (x @ y)) (turn ?w y)"
    proof (cases "unat r \<le> length x")
      case True
      then have "?u = ?t" by (simp add: word_eq_unat_iff unat_count_take)
      with True t show ?thesis by (simp add: act)
    next
      case False
      note sp = count_split [of x r y]
      from False l have q: "r - ?t \<noteq> 0" by (auto simp: word_eq_unat_iff)
      let ?t2 = "count_take (r - ?t) y"
      have u: "unat ?u = length x + unat ?t2" "r - ?u = r - ?t - ?t2" using sp False by simp_all
      have tl: "unat ?t = length x" using t False by simp
      have "act z (x @ y) = turn ?w y" by (simp add: act res_turn [OF q] u tl)
      then show ?thesis using tl res_due [OF q] by (auto simp: same_turn_def)
    qed
  qed
qed

end

end
