(* ===== verification/Scan_Grouped.thy ===== *)
theory Scan_Grouped
  imports Pumping
begin

text \<open>
  The grouped stream scanner (\<open>src/src/scan/grouped.rs\<close>): the fault vocabulary, the \<open>Sink\<close> interface, the
  \<open>Parser\<close> that drives a sink over chunks, and the \<open>Validator\<close>, the parser over the unit sink. A sink is a
  record of operations on its own state; the parser and the sink state are threaded together. A \<open>Vec\<close>
  used as a stack is a list, innermost extent first.

  \<open>None\<close> is a panic (\<open>feed\<close> or \<open>finish\<close> after the terminal latch), an unreachable branch declared to the
  compiler, or a subtraction below zero.
\<close>

section \<open>Faults\<close>

datatype scan_kind_gr =
    SrRead stage stream_fault
  | SrFieldZero
  | SrUnassigned field_number low3
  | SrLenOverrun field_number payload_len
  | SrFixedOverrun field_number
  | SrFixedTruncated field_number
  | SrPayloadTruncated u32
  | SrUnclosedLen field_number
  | SrGroupEndOrphan field_number
  | SrGroupEndMismatch field_number field_number
  | SrGroupEndAcrossLen field_number field_number
  | SrGroupUnclosedAtLenEnd field_number
  | SrGroupUnclosed field_number
  | SrNonMinimalTag
  | SrNonMinimalLen field_number
  | SrNonMinimalValue field_number
  | SrDepthExceeded field_number
  | SrOffsetExhausted
  | SrLenUnsatisfiable field_number payload_len

record scan_fault_gr =
  sr_at :: nat
  sr_kind :: scan_kind_gr

fun scan_padded_gr :: "stage \<Rightarrow> scan_kind_gr" where
  "scan_padded_gr StageTag = SrNonMinimalTag"
| "scan_padded_gr (StageLenPrefix field) = SrNonMinimalLen field"
| "scan_padded_gr (StageValue field) = SrNonMinimalValue field"

fun scan_class_gr :: "scan_kind_gr \<Rightarrow> fault_class" where
  "scan_class_gr (SrRead _ _) = Grammar"
| "scan_class_gr SrFieldZero = Grammar"
| "scan_class_gr (SrUnassigned _ _) = Grammar"
| "scan_class_gr (SrLenOverrun _ _) = Grammar"
| "scan_class_gr (SrFixedOverrun _) = Grammar"
| "scan_class_gr (SrFixedTruncated _) = Grammar"
| "scan_class_gr (SrPayloadTruncated _) = Grammar"
| "scan_class_gr (SrUnclosedLen _) = Grammar"
| "scan_class_gr (SrGroupEndOrphan _) = Grammar"
| "scan_class_gr (SrGroupEndMismatch _ _) = Grammar"
| "scan_class_gr (SrGroupEndAcrossLen _ _) = Grammar"
| "scan_class_gr (SrGroupUnclosedAtLenEnd _) = Grammar"
| "scan_class_gr (SrGroupUnclosed _) = Grammar"
| "scan_class_gr SrNonMinimalTag = Policy"
| "scan_class_gr (SrNonMinimalLen _) = Policy"
| "scan_class_gr (SrNonMinimalValue _) = Policy"
| "scan_class_gr (SrDepthExceeded _) = Policy"
| "scan_class_gr SrOffsetExhausted = Capability"
| "scan_class_gr (SrLenUnsatisfiable _ _) = Capability"

section \<open>The sink\<close>

text \<open>\<open>S: Sink\<close>: what the owner supplies. An operation answers its sink's next state and whether to go on.\<close>

type_synonym told = "(unit, unit) control_flow"

record 's sink_gr =
  on_len_gr :: "field_number \<Rightarrow> payload_len \<Rightarrow> nat \<Rightarrow> 's \<Rightarrow> 's \<times> (unit, len_disposition) control_flow"
  on_len_exit_gr :: "field_number \<Rightarrow> nat \<Rightarrow> 's \<Rightarrow> 's \<times> told"
  on_group_enter_gr :: "field_number \<Rightarrow> nat \<Rightarrow> 's \<Rightarrow> 's \<times> told"
  on_group_exit_gr :: "field_number \<Rightarrow> nat \<Rightarrow> 's \<Rightarrow> 's \<times> told"
  on_varint_gr :: "field_number \<Rightarrow> u64 \<Rightarrow> 's \<Rightarrow> 's \<times> told"
  on_i32_gr :: "field_number \<Rightarrow> u32 \<Rightarrow> 's \<Rightarrow> 's \<times> told"
  on_i64_gr :: "field_number \<Rightarrow> u64 \<Rightarrow> 's \<Rightarrow> 's \<times> told"
  on_segment_gr :: "bytes \<Rightarrow> 's \<Rightarrow> 's \<times> told"

text \<open>The trait's provided bodies: every LEN is skipped, every event passes. \<open>impl Sink for ()\<close> takes them all.\<close>

definition default_sink_gr :: "'s sink_gr" where
  "default_sink_gr = \<lparr>
     on_len_gr = (\<lambda>field len at s. (s, Continue OpaqueSkip)),
     on_len_exit_gr = (\<lambda>field at s. (s, Continue ())),
     on_group_enter_gr = (\<lambda>field at s. (s, Continue ())),
     on_group_exit_gr = (\<lambda>field at s. (s, Continue ())),
     on_varint_gr = (\<lambda>field val s. (s, Continue ())),
     on_i32_gr = (\<lambda>field bits s. (s, Continue ())),
     on_i64_gr = (\<lambda>field bits s. (s, Continue ())),
     on_segment_gr = (\<lambda>bs s. (s, Continue ()))\<rparr>"

definition unit_sink_gr :: "unit sink_gr" where
  "unit_sink_gr = default_sink_gr"

section \<open>The parser\<close>

datatype extent_gr = ExLen nat field_number | ExGroup field_number

record parser_gr =
  ps_pump_gr :: pump
  ps_mode_gr :: mode
  ps_stack_gr :: "extent_gr list"
  ps_depth_gr :: depth_limit

type_synonym ps_result_gr = "scan_fault_gr + flow"
type_synonym 's ps_state_gr = "parser_gr \<times> 's"
type_synonym 's ps_turn_gr = "('s ps_state_gr \<times> bytes \<times> (ps_result_gr, unit) control_flow) option"

definition ps_new_gr :: "standard \<Rightarrow> depth_limit \<Rightarrow> parser_gr" where
  "ps_new_gr standard depth =
     \<lparr>ps_pump_gr = pump_new standard, ps_mode_gr = MHead, ps_stack_gr = [], ps_depth_gr = depth\<rparr>"

definition ps_offset_gr :: "parser_gr \<Rightarrow> nat" where
  "ps_offset_gr q = pu_off (ps_pump_gr q)"

definition ps_latch_gr :: "parser_gr \<Rightarrow> bool \<Rightarrow> parser_gr" where
  "ps_latch_gr q terminal = q\<lparr>ps_pump_gr := (ps_pump_gr q)\<lparr>pu_terminal := terminal\<rparr>\<rparr>"

definition ps_fault_gr :: "parser_gr \<Rightarrow> nat \<Rightarrow> scan_kind_gr \<Rightarrow> parser_gr \<times> scan_fault_gr" where
  "ps_fault_gr q at kind = (ps_latch_gr q True, \<lparr>sr_at = at, sr_kind = kind\<rparr>)"

definition ps_halt_gr :: "'s ps_state_gr \<Rightarrow> bytes \<Rightarrow> nat \<Rightarrow> scan_kind_gr \<Rightarrow> 's ps_turn_gr" where
  "ps_halt_gr z chunk at kind =
     (case ps_fault_gr (fst z) at kind of (q, f) \<Rightarrow> Some ((q, snd z), chunk, Break (Inl f)))"

definition ps_halt_read_gr :: "'s ps_state_gr \<Rightarrow> bytes \<Rightarrow> stage \<Rightarrow> stream_fault \<Rightarrow> 's ps_turn_gr" where
  "ps_halt_read_gr z chunk stage cause =
     do { at \<leftarrow> (case cause of
                  SealCut \<Rightarrow> Some (pu_zone (ps_pump_gr (fst z)))
                | _ \<Rightarrow> pump_construct_start (ps_pump_gr (fst z)));
          ps_halt_gr z chunk at (SrRead stage cause) }"

definition ps_halt_padded_gr :: "'s ps_state_gr \<Rightarrow> bytes \<Rightarrow> stage \<Rightarrow> 's ps_turn_gr" where
  "ps_halt_padded_gr z chunk stage =
     do { at \<leftarrow> pump_construct_start (ps_pump_gr (fst z)); ps_halt_gr z chunk at (scan_padded_gr stage) }"

definition ps_event_gr :: "parser_gr \<Rightarrow> told \<Rightarrow> parser_gr \<times> told" where
  "ps_event_gr q flow = (case flow of Break _ \<Rightarrow> (ps_latch_gr q True, flow) | Continue _ \<Rightarrow> (q, flow))"

definition ps_ask_gr ::
  "parser_gr \<Rightarrow> (unit, len_disposition) control_flow \<Rightarrow> parser_gr \<times> (ps_result_gr, len_disposition) control_flow" where
  "ps_ask_gr q flow =
     (case flow of
        Continue disposition \<Rightarrow> (q, Continue disposition)
      | Break _ \<Rightarrow> (ps_latch_gr q True, Break (Inr FlowStopped)))"

text \<open>The pattern every delivery ends in: \<open>if self.event(..).is_break()\<close> stop, else go on.\<close>

definition ps_told_gr :: "parser_gr \<Rightarrow> bytes \<Rightarrow> 's \<times> told \<Rightarrow> 's ps_turn_gr" where
  "ps_told_gr q chunk out =
     (case ps_event_gr q (snd out) of
        (q, Break _) \<Rightarrow> Some ((q, fst out), chunk, Break (Inr FlowStopped))
      | (q, Continue _) \<Rightarrow> Some ((q, fst out), chunk, Continue ()))"

definition ps_varint_value_gr ::
  "'s sink_gr \<Rightarrow> bool \<Rightarrow> field_number \<Rightarrow> 's ps_state_gr \<Rightarrow> bytes \<Rightarrow> 's ps_turn_gr" where
  "ps_varint_value_gr S MINIMAL field z chunk =
     do { (p, chunk, verdict) \<leftarrow> pump_step_value (ps_pump_gr (fst z)) chunk (standard_of MINIMAL);
          let q = (fst z)\<lparr>ps_pump_gr := p\<rparr>; s = snd z in
          (case verdict of
             PvDone val \<Rightarrow> ps_told_gr (q\<lparr>ps_mode_gr := MHead\<rparr>) chunk (on_varint_gr S field val s)
           | PvMore \<Rightarrow> Some ((q\<lparr>ps_mode_gr := MVarintValue field\<rparr>, s), chunk, Break (Inr FlowMore))
           | PvCut \<Rightarrow> ps_halt_read_gr (q, s) chunk (StageValue field) SealCut
           | PvTooWide \<Rightarrow> ps_halt_read_gr (q, s) chunk (StageValue field) StreamTooWide
           | PvOutOfClass \<Rightarrow> ps_halt_read_gr (q, s) chunk (StageValue field) StreamOutOfClass
           | PvNonMinimal \<Rightarrow> ps_halt_padded_gr (q, s) chunk (StageValue field)) }"

text \<open>What a complete length word does: fit it, ask the sink, take its disposition.\<close>

definition ps_len_done_gr ::
  "'s sink_gr \<Rightarrow> field_number \<Rightarrow> payload_len \<Rightarrow> 's ps_state_gr \<Rightarrow> bytes \<Rightarrow> 's ps_turn_gr" where
  "ps_len_done_gr S field len z chunk =
     (let (q, s) = z; p = ps_pump_gr q; end = pu_off p + usize_of (len_inner len) in
      if end \<le> u64_max \<and> end \<le> pu_zone p \<and> end \<noteq> u64_max
      then
        (case on_len_gr S field len (pu_off p) s of
           (s, flow) \<Rightarrow>
             (case ps_ask_gr q flow of
                (q, Break r) \<Rightarrow> Some ((q, s), chunk, Break r)
              | (q, Continue disposition) \<Rightarrow>
                  (case disposition of
                     Commit \<Rightarrow>
                       if length (ps_stack_gr q) \<ge> unat (ps_depth_gr q)
                       then ps_halt_gr (q, s) chunk (pu_off p) (SrDepthExceeded field)
                       else Some ((q\<lparr>ps_stack_gr := ExLen (pu_zone p) field # ps_stack_gr q,
                                      ps_pump_gr := p\<lparr>pu_zone := end\<rparr>, ps_mode_gr := MHead\<rparr>, s), chunk, Continue ())
                   | OpaqueBytes \<Rightarrow> Some ((q\<lparr>ps_mode_gr := counted MHead MForward (len_inner len)\<rparr>, s), chunk, Continue ())
                   | OpaqueSkip \<Rightarrow> Some ((q\<lparr>ps_mode_gr := counted MHead MSwallow (len_inner len)\<rparr>, s), chunk, Continue ()))))
      else if pu_zone p \<noteq> u64_max then ps_halt_gr z chunk (pu_off p) (SrLenOverrun field len)
      else ps_halt_gr z chunk (pu_off p) (SrLenUnsatisfiable field len))"

definition ps_len_word_gr ::
  "'s sink_gr \<Rightarrow> bool \<Rightarrow> field_number \<Rightarrow> 's ps_state_gr \<Rightarrow> bytes \<Rightarrow> 's ps_turn_gr" where
  "ps_len_word_gr S MINIMAL field z chunk =
     do { (p, chunk, verdict) \<leftarrow> pump_step_len (ps_pump_gr (fst z)) chunk (standard_of MINIMAL);
          let q = (fst z)\<lparr>ps_pump_gr := p\<rparr>; s = snd z in
          (case verdict of
             PvDone len \<Rightarrow> ps_len_done_gr S field len (q, s) chunk
           | PvMore \<Rightarrow> Some ((q\<lparr>ps_mode_gr := MLenWord field\<rparr>, s), chunk, Break (Inr FlowMore))
           | PvCut \<Rightarrow> ps_halt_read_gr (q, s) chunk (StageLenPrefix field) SealCut
           | PvTooWide \<Rightarrow> ps_halt_read_gr (q, s) chunk (StageLenPrefix field) StreamTooWide
           | PvOutOfClass \<Rightarrow> ps_halt_read_gr (q, s) chunk (StageLenPrefix field) StreamOutOfClass
           | PvNonMinimal \<Rightarrow> ps_halt_padded_gr (q, s) chunk (StageLenPrefix field)) }"

definition ps_fixed_tail_gr ::
  "'s sink_gr \<Rightarrow> field_number \<Rightarrow> fixed_kind \<Rightarrow> 's ps_state_gr \<Rightarrow> bytes \<Rightarrow> 's ps_turn_gr" where
  "ps_fixed_tail_gr S field kind z chunk =
     do { (p, chunk, raw) \<leftarrow> pump_grab_fixed (fixed_need kind) (ps_pump_gr (fst z)) chunk;
          let q = (fst z)\<lparr>ps_pump_gr := p\<rparr>; s = snd z in
          (case raw of
             None \<Rightarrow> Some ((q\<lparr>ps_mode_gr := MFixedTail field kind\<rparr>, s), chunk, Break (Inr FlowMore))
           | Some bs \<Rightarrow>
               ps_told_gr (q\<lparr>ps_mode_gr := MHead\<rparr>) chunk
                 (case kind of
                    FixI32 \<Rightarrow> on_i32_gr S field (of_nat (le_nat bs)) s
                  | FixI64 \<Rightarrow> on_i64_gr S field (of_nat (le_nat bs)) s)) }"

text \<open>The count both opaque modes keep.\<close>

definition ps_passed_gr :: "parser_gr \<Rightarrow> u32 \<Rightarrow> u32 \<Rightarrow> (u32 \<Rightarrow> mode) \<Rightarrow> parser_gr" where
  "ps_passed_gr q remaining tk mode =
     q\<lparr>ps_pump_gr := (ps_pump_gr q)\<lparr>pu_off := pu_off (ps_pump_gr q) + unat tk\<rparr>,
       ps_mode_gr := counted MHead mode (remaining - tk)\<rparr>"

definition ps_forward_gr :: "'s sink_gr \<Rightarrow> u32 \<Rightarrow> 's ps_state_gr \<Rightarrow> bytes \<Rightarrow> 's ps_turn_gr" where
  "ps_forward_gr S remaining z chunk =
     (let tk = count_take remaining chunk in
      ps_told_gr (ps_passed_gr (fst z) remaining tk MForward) (drop (unat tk) chunk)
        (on_segment_gr S (take (unat tk) chunk) (snd z)))"

definition ps_swallow_gr :: "u32 \<Rightarrow> 's ps_state_gr \<Rightarrow> bytes \<Rightarrow> 's ps_turn_gr" where
  "ps_swallow_gr remaining z chunk =
     (let tk = count_take remaining chunk in
      Some ((ps_passed_gr (fst z) remaining tk MSwallow, snd z), drop (unat tk) chunk, Continue ()))"

definition ps_group_end_gr ::
  "'s sink_gr \<Rightarrow> field_number \<Rightarrow> nat \<Rightarrow> 's ps_state_gr \<Rightarrow> bytes \<Rightarrow> 's ps_turn_gr" where
  "ps_group_end_gr S end at z chunk =
     (case ps_stack_gr (fst z) of
        [] \<Rightarrow> ps_halt_gr z chunk at (SrGroupEndOrphan end)
      | ExLen _ field # _ \<Rightarrow> ps_halt_gr z chunk at (SrGroupEndAcrossLen end field)
      | ExGroup field # rest \<Rightarrow>
          if field \<noteq> end then ps_halt_gr z chunk at (SrGroupEndMismatch end field)
          else ps_told_gr ((fst z)\<lparr>ps_stack_gr := rest\<rparr>) chunk (on_group_exit_gr S field at (snd z)))"

text \<open>What a complete tag word does.\<close>

definition ps_tagged_gr ::
  "'s sink_gr \<Rightarrow> bool \<Rightarrow> nat \<Rightarrow> u32 \<Rightarrow> 's ps_state_gr \<Rightarrow> bytes \<Rightarrow> 's ps_turn_gr" where
  "ps_tagged_gr S MINIMAL start word z chunk =
     (let low3 = Low3_from_word word; q = fst z; p = ps_pump_gr q in
      case FieldNumber_from_word word of
        None \<Rightarrow> ps_halt_gr z chunk start SrFieldZero
      | Some field \<Rightarrow>
          (case classify_gr low3 of
             GrRecord GrVarint \<Rightarrow> ps_varint_value_gr S MINIMAL field z chunk
           | GrRecord GrLen \<Rightarrow> ps_len_word_gr S MINIMAL field z chunk
           | GrRecord GrGroup \<Rightarrow>
               if length (ps_stack_gr q) \<ge> unat (ps_depth_gr q)
               then ps_halt_gr z chunk start (SrDepthExceeded field)
               else ps_told_gr (q\<lparr>ps_stack_gr := ExGroup field # ps_stack_gr q\<rparr>) chunk
                      (on_group_enter_gr S field (pu_off p) (snd z))
           | GrRecord kind \<Rightarrow>
               let fixed = (if kind = GrI64 then FixI64 else FixI32) in
               do { room \<leftarrow> usub (pu_zone p) (pu_off p);
                    if room < fixed_need fixed then ps_halt_gr z chunk (pu_off p) (SrFixedOverrun field)
                    else ps_fixed_tail_gr S field fixed z chunk }
           | GrGroupEnd \<Rightarrow> ps_group_end_gr S field start z chunk
           | GrUnassigned \<Rightarrow> ps_halt_gr z chunk start (SrUnassigned field low3)))"

definition ps_head_gr :: "'s sink_gr \<Rightarrow> bool \<Rightarrow> 's ps_state_gr \<Rightarrow> bytes \<Rightarrow> 's ps_turn_gr" where
  "ps_head_gr S MINIMAL z chunk =
     do { start \<leftarrow> pump_construct_start (ps_pump_gr (fst z));
          (p, chunk, verdict) \<leftarrow> pump_step_tag (ps_pump_gr (fst z)) chunk (standard_of MINIMAL);
          let q = (fst z)\<lparr>ps_pump_gr := p\<rparr>; s = snd z in
          (case verdict of
             PvDone word \<Rightarrow> ps_tagged_gr S MINIMAL start word (q, s) chunk
           | PvMore \<Rightarrow> Some ((q, s), chunk, Break (Inr FlowMore))
           | PvCut \<Rightarrow> ps_halt_read_gr (q, s) chunk StageTag SealCut
           | PvTooWide \<Rightarrow> ps_halt_read_gr (q, s) chunk StageTag StreamTooWide
           | PvOutOfClass \<Rightarrow> ps_halt_read_gr (q, s) chunk StageTag StreamOutOfClass
           | PvNonMinimal \<Rightarrow> ps_halt_padded_gr (q, s) chunk StageTag) }"

text \<open>Closing every extent that ends at the current coordinate.\<close>

function ps_cascade_gr ::
  "'s sink_gr \<Rightarrow> parser_gr \<Rightarrow> 's \<Rightarrow> ('s ps_state_gr \<times> (ps_result_gr, unit) control_flow) option" where
  "ps_cascade_gr S q s =
     (if pu_off (ps_pump_gr q) \<noteq> pu_zone (ps_pump_gr q) then Some ((q, s), Continue ())
      else if \<not> (ps_mode_gr q = MHead \<and> carry_is_empty (pu_carry (ps_pump_gr q))) then Some ((q, s), Continue ())
      else
        (case ps_stack_gr q of
           ExLen prev_zone field # rest \<Rightarrow>
             let q = q\<lparr>ps_stack_gr := rest, ps_pump_gr := (ps_pump_gr q)\<lparr>pu_zone := prev_zone\<rparr>\<rparr> in
             (case on_len_exit_gr S field (pu_off (ps_pump_gr q)) s of
                (s, flow) \<Rightarrow>
                  (case ps_event_gr q flow of
                     (q', Break _) \<Rightarrow> Some ((q', s), Break (Inr FlowStopped))
                   | (q', Continue _) \<Rightarrow> ps_cascade_gr S q s))
         | ExGroup field # _ \<Rightarrow>
             (case ps_fault_gr q (pu_off (ps_pump_gr q)) (SrGroupUnclosedAtLenEnd field) of
                (q, f) \<Rightarrow> Some ((q, s), Break (Inl f)))
         | [] \<Rightarrow> None))"
  by pat_completeness auto
termination by (relation "measure (\<lambda>(S, q, s). length (ps_stack_gr q))") auto

definition ps_due_gr :: "'s sink_gr \<Rightarrow> 's ps_state_gr \<Rightarrow> ('s ps_state_gr \<times> (ps_result_gr, unit) control_flow) option" where
  "ps_due_gr S z = ps_cascade_gr S (fst z) (snd z)"

definition ps_turn_gr :: "'s sink_gr \<Rightarrow> bool \<Rightarrow> 's ps_state_gr \<Rightarrow> bytes \<Rightarrow> 's ps_turn_gr" where
  "ps_turn_gr S MINIMAL z chunk =
     (case ps_mode_gr (fst z) of
        MHead \<Rightarrow> ps_head_gr S MINIMAL z chunk
      | MVarintValue field \<Rightarrow> ps_varint_value_gr S MINIMAL field z chunk
      | MLenWord field \<Rightarrow> ps_len_word_gr S MINIMAL field z chunk
      | MFixedTail field kind \<Rightarrow> ps_fixed_tail_gr S field kind z chunk
      | MForward remaining \<Rightarrow> ps_forward_gr S remaining z chunk
      | MSwallow remaining \<Rightarrow> ps_swallow_gr remaining z chunk)"

definition ps_drive_gr :: "'s sink_gr \<Rightarrow> bool \<Rightarrow> 's ps_state_gr \<Rightarrow> bytes \<Rightarrow> ('s ps_state_gr \<times> ps_result_gr) option" where
  "ps_drive_gr S MINIMAL z chunk = drive_loop (ps_due_gr S) (ps_turn_gr S MINIMAL) (Inr FlowMore) z chunk"

definition ps_feed_gr :: "'s sink_gr \<Rightarrow> 's ps_state_gr \<Rightarrow> bytes \<Rightarrow> ('s ps_state_gr \<times> ps_result_gr) option" where
  "ps_feed_gr S z chunk =
     (let (q, s) = z in
      if pu_terminal (ps_pump_gr q) then None
      else if \<not> pump_admits (ps_pump_gr q) chunk
      then (case ps_fault_gr q (pu_off (ps_pump_gr q)) SrOffsetExhausted of (q, f) \<Rightarrow> Some ((q, s), Inl f))
      else
        do { ((q, s), flow) \<leftarrow>
               (case pu_standard (ps_pump_gr q) of
                  Tolerant \<Rightarrow> ps_drive_gr S False (ps_latch_gr q True, s) chunk
                | CanonicalMinimal \<Rightarrow> ps_drive_gr S True (ps_latch_gr q True, s) chunk);
             Some ((ps_latch_gr q (flow \<noteq> Inr FlowMore), s), flow) })"

definition ps_finish_gr :: "parser_gr \<Rightarrow> (scan_fault_gr + unit) option" where
  "ps_finish_gr q =
     (let p = ps_pump_gr q; refuse = (\<lambda>kind. Some (Inl \<lparr>sr_at = pu_off p, sr_kind = kind\<rparr>));
          close = (case ps_stack_gr q of
              ExLen _ field # _ \<Rightarrow> refuse (SrUnclosedLen field)
            | ExGroup field # _ \<Rightarrow> refuse (SrGroupUnclosed field)
            | [] \<Rightarrow> Some (Inr ())) in
      if pu_terminal p then None
      else
        (case ps_mode_gr q of
           MHead \<Rightarrow> if \<not> carry_is_empty (pu_carry p) then refuse (SrRead StageTag StreamEnd) else close
         | MVarintValue field \<Rightarrow> refuse (SrRead (StageValue field) StreamEnd)
         | MLenWord field \<Rightarrow> refuse (SrRead (StageLenPrefix field) StreamEnd)
         | MFixedTail field _ \<Rightarrow> refuse (SrFixedTruncated field)
         | MForward remaining \<Rightarrow> refuse (SrPayloadTruncated remaining)
         | MSwallow remaining \<Rightarrow> refuse (SrPayloadTruncated remaining)))"

section \<open>The validator\<close>

record validator_gr =
  va_inner_gr :: parser_gr

definition va_new_gr :: "standard \<Rightarrow> depth_limit \<Rightarrow> validator_gr" where
  "va_new_gr standard depth = \<lparr>va_inner_gr = ps_new_gr standard depth\<rparr>"

definition va_offset_gr :: "validator_gr \<Rightarrow> nat" where
  "va_offset_gr v = ps_offset_gr (va_inner_gr v)"

definition va_feed_gr :: "validator_gr \<Rightarrow> bytes \<Rightarrow> (validator_gr \<times> (scan_fault_gr + unit)) option" where
  "va_feed_gr v chunk =
     do { ((q, u), r) \<leftarrow> ps_feed_gr unit_sink_gr (va_inner_gr v, ()) chunk;
          (case r of
             Inr FlowMore \<Rightarrow> Some (v\<lparr>va_inner_gr := q\<rparr>, Inr ())
           | Inr FlowStopped \<Rightarrow> None
           | Inl fault \<Rightarrow> Some (v\<lparr>va_inner_gr := q\<rparr>, Inl fault)) }"

definition va_finish_gr :: "validator_gr \<Rightarrow> (scan_fault_gr + unit) option" where
  "va_finish_gr v = ps_finish_gr (va_inner_gr v)"

end
