(* ===== verification/Drive_Grouped.thy ===== *)
theory Drive_Grouped
  imports Scan_Grouped
begin

text \<open>
  The grouped parser owes its loop: every turn returns and keeps the invariant, for every sink; and for a
  sink that only gathers the segments of a payload, the places where the stream was cut are invisible.
\<close>

section \<open>The invariant\<close>

fun mode_ok :: "mode \<Rightarrow> pump \<Rightarrow> bool" where
  "mode_ok MHead p \<longleftrightarrow> carry_open MAX_LEN32 (pu_carry p)"
| "mode_ok (MVarintValue _) p \<longleftrightarrow> carry_open MAX_LEN64 (pu_carry p)"
| "mode_ok (MLenWord _) p \<longleftrightarrow> carry_open MAX_LEN32 (pu_carry p)"
| "mode_ok (MFixedTail _ kind) p \<longleftrightarrow> fixed_open (fixed_need kind) (pu_carry p) \<and>
     pu_off p + (fixed_need kind - carry_len (pu_carry p)) \<le> pu_zone p"
| "mode_ok (MForward r) p \<longleftrightarrow> pu_carry p = carry_new \<and> r \<noteq> 0 \<and> pu_off p + unat r \<le> pu_zone p"
| "mode_ok (MSwallow r) p \<longleftrightarrow> pu_carry p = carry_new \<and> r \<noteq> 0 \<and> pu_off p + unat r \<le> pu_zone p"

text \<open>A driven pump with room for \<open>n\<close> more bytes.\<close>

definition pump_room :: "bool \<Rightarrow> pump \<Rightarrow> nat \<Rightarrow> bool" where
  "pump_room m p n \<longleftrightarrow> pu_terminal p \<and> pu_standard p = standard_of m \<and> pu_off p + n < u64_max \<and>
     carry_len (pu_carry p) \<le> pu_off p \<and> pu_off p \<le> pu_zone p"

text \<open>The zones nest, and the outermost is the root.\<close>

fun zones_gr :: "extent_gr list \<Rightarrow> nat \<Rightarrow> bool" where
  "zones_gr [] zone \<longleftrightarrow> zone = u64_max"
| "zones_gr (ExLen prev _ # rest) zone \<longleftrightarrow> zone \<le> prev \<and> zone < u64_max \<and> zones_gr rest prev"
| "zones_gr (ExGroup _ # rest) zone \<longleftrightarrow> zones_gr rest zone"

definition ps_room_gr :: "bool \<Rightarrow> 's ps_state_gr \<Rightarrow> nat \<Rightarrow> bool" where
  "ps_room_gr m z n \<longleftrightarrow> pump_room m (ps_pump_gr (fst z)) n \<and>
     zones_gr (ps_stack_gr (fst z)) (pu_zone (ps_pump_gr (fst z))) \<and>
     length (ps_stack_gr (fst z)) \<le> unat (ps_depth_gr (fst z))"

definition ps_ok_gr :: "bool \<Rightarrow> 's ps_state_gr \<Rightarrow> nat \<Rightarrow> bool" where
  "ps_ok_gr m z n \<longleftrightarrow> ps_room_gr m z n \<and> mode_ok (ps_mode_gr (fst z)) (ps_pump_gr (fst z))"

text \<open>Alike to the owner: the offset, the latch and the sink.\<close>

definition ps_alike_gr :: "'s ps_state_gr \<Rightarrow> 's ps_state_gr \<Rightarrow> bool" where
  "ps_alike_gr z w \<longleftrightarrow> pu_off (ps_pump_gr (fst z)) = pu_off (ps_pump_gr (fst w)) \<and>
     pu_terminal (ps_pump_gr (fst z)) = pu_terminal (ps_pump_gr (fst w)) \<and> snd z = snd w"

text \<open>A sink that gathers: it never stops at a segment, and two segments are one.\<close>

definition gathers_gr :: "'s sink_gr \<Rightarrow> bool" where
  "gathers_gr S \<longleftrightarrow> (\<forall>b s. snd (on_segment_gr S b s) = Continue ()) \<and>
     (\<forall>b c s. fst (on_segment_gr S c (fst (on_segment_gr S b s))) = fst (on_segment_gr S (b @ c) s))"

definition pump_of_gr :: "'s ps_state_gr \<Rightarrow> pump" where
  "pump_of_gr z = ps_pump_gr (fst z)"

definition put_gr :: "pump \<Rightarrow> 's ps_state_gr \<Rightarrow> 's ps_state_gr" where
  "put_gr p z = ((fst z)\<lparr>ps_pump_gr := p\<rparr>, snd z)"

interpretation pg: pumping pump_of_gr put_gr "ps_due_gr S" "ps_turn_gr S m" "Inr FlowMore" "ps_ok_gr m" ps_alike_gr "gathers_gr S" for S m
  by unfold_locales (simp_all add: pump_of_gr_def put_gr_def ps_alike_gr_def)

abbreviation pg_acts where
  "pg_acts N S m act z x y \<equiv> acts (gathers_gr S) N (ps_ok_gr m) ps_alike_gr (Inr FlowMore) (ps_due_gr S) (ps_turn_gr S m) act z x y"

section \<open>Due\<close>

declare ps_cascade_gr.simps [simp del]

lemma due_quiet_gr:
  "pu_off (ps_pump_gr (fst z)) \<noteq> pu_zone (ps_pump_gr (fst z)) \<or> ps_mode_gr (fst z) \<noteq> MHead \<or>
     \<not> carry_is_empty (pu_carry (ps_pump_gr (fst z))) \<Longrightarrow> ps_due_gr S z = Some (z, Continue ())"
  by (cases z) (auto simp: ps_due_gr_def ps_cascade_gr.simps)

lemma zones_above: "zones_gr st zone \<Longrightarrow> zone \<le> u64_max"
  by (induction st zone rule: zones_gr.induct) auto

lemma cascade_gr:
  "ps_ok_gr m (q, s) n \<Longrightarrow>
   (\<exists>z fl. ps_cascade_gr S q s = Some (z, fl) \<and> fl \<noteq> Break (Inr FlowMore) \<and>
      (fl = Continue () \<longrightarrow> ps_ok_gr m z n \<and> ps_due_gr S z = Some (z, Continue ())))"
proof (induction S q s rule: ps_cascade_gr.induct)
  case (1 S q s)
  let ?p = "ps_pump_gr q"
  show ?case
  proof (cases "pu_off ?p \<noteq> pu_zone ?p \<or> ps_mode_gr q \<noteq> MHead \<or> \<not> carry_is_empty (pu_carry ?p)")
    case True
    with due_quiet_gr [of "(q, s)" S] 1(2) show ?thesis by (auto simp: ps_due_gr_def)
  next
    case False
    note c = this [simplified]
    show ?thesis
    proof (cases "ps_stack_gr q")
      case Nil
      with 1(2) c have False by (auto simp: ps_ok_gr_def ps_room_gr_def pump_room_def)
      then show ?thesis ..
    next
      case (Cons e rest)
      show ?thesis
      proof (cases e)
        case (ExGroup field)
        with Cons c show ?thesis by (simp add: ps_cascade_gr.simps [of S q s] ps_fault_gr_def)
      next
        case (ExLen prev field)
        let ?q = "q\<lparr>ps_stack_gr := rest, ps_pump_gr := ?p\<lparr>pu_zone := prev\<rparr>\<rparr>"
        obtain s' fl where t: "on_len_exit_gr S field (pu_off ?p) s = (s', fl)" by (cases "on_len_exit_gr S field (pu_off ?p) s")
        have ok: "ps_ok_gr m (?q, s') n"
          using 1(2) Cons ExLen c by (auto simp: ps_ok_gr_def ps_room_gr_def pump_room_def)
        show ?thesis
        proof (cases fl)
          case (Break u)
          with Cons ExLen c t show ?thesis by (simp add: ps_cascade_gr.simps [of S q s] ps_event_gr_def)
        next
          case (Continue u)
          with Cons ExLen c t have "ps_cascade_gr S q s = ps_cascade_gr S ?q s'"
            by (simp add: ps_cascade_gr.simps [of S q s] ps_event_gr_def)
          moreover have "\<exists>z fl. ps_cascade_gr S ?q s' = Some (z, fl) \<and> fl \<noteq> Break (Inr FlowMore) \<and>
              (fl = Continue () \<longrightarrow> ps_ok_gr m z n \<and> ps_due_gr S z = Some (z, Continue ()))"
            by (rule 1(1)) (use Cons ExLen c t Continue ok in \<open>auto simp: ps_event_gr_def\<close>)
          ultimately show ?thesis by simp
        qed
      qed
    qed
  qed
qed

section \<open>Each operation\<close>

lemma halt_eq_gr:
  "ps_halt_gr z x at kind =
     Some (((fst z)\<lparr>ps_pump_gr := (ps_pump_gr (fst z))\<lparr>pu_terminal := True\<rparr>\<rparr>, snd z), x, Break (Inl \<lparr>sr_at = at, sr_kind = kind\<rparr>))"
  by (simp add: ps_halt_gr_def ps_fault_gr_def ps_latch_gr_def)

lemma halt_acts_gr: "pg_acts N S m (\<lambda>z x. ps_halt_gr z x at kind) z x y"
  by (rule acts_break [OF halt_eq_gr]) (auto simp: halt_eq_gr ps_alike_gr_def)

text \<open>A delivery that consumes nothing.\<close>

lemma told_acts_gr:
  assumes "length x < N" "ps_ok_gr m (f z, fst (g z)) (length x + length y)"
  shows "pg_acts N S m (\<lambda>z x. ps_told_gr (f z) x (g z)) z x y"
proof (cases "snd (g z)")
  case (Continue u)
  with assms show ?thesis by (intro acts_continue) (auto simp: ps_told_gr_def ps_event_gr_def)
next
  case (Break u)
  then have t: "ps_told_gr (f z) w (g z) = Some ((ps_latch_gr (f z) True, fst (g z)), w, Break (Inr FlowStopped))" for w
    by (simp add: ps_told_gr_def ps_event_gr_def)
  show ?thesis by (intro acts_break) (auto simp: t ps_alike_gr_def)
qed

lemma told_same_gr:
  "f z = f w \<Longrightarrow> g z = g w \<Longrightarrow> same_turn ps_alike_gr idle (ps_told_gr (f z) x (g z)) (ps_told_gr (f w) x (g w))"
  by (simp add: same_turn_def ps_alike_gr_def)

text \<open>What a refused word says.\<close>

definition refusal_gr :: "stage \<Rightarrow> 'a pump_verdict \<Rightarrow> scan_kind_gr" where
  "refusal_gr st v = (case v of PvCut \<Rightarrow> SrRead st SealCut | PvTooWide \<Rightarrow> SrRead st StreamTooWide
     | PvOutOfClass \<Rightarrow> SrRead st StreamOutOfClass | _ \<Rightarrow> scan_padded_gr st)"

text \<open>The shape the three word operations share.\<close>

definition word_op_gr ::
  "(carry \<Rightarrow> bytes \<Rightarrow> nat \<Rightarrow> nat \<Rightarrow> (carry \<times> bytes \<times> nat \<times> 'a step) option) \<Rightarrow> ('a \<Rightarrow> nat) \<Rightarrow> bool \<Rightarrow> stage \<Rightarrow> mode \<Rightarrow>
   ('a \<Rightarrow> 's ps_state_gr \<Rightarrow> bytes \<Rightarrow> 's ps_turn_gr) \<Rightarrow> 's ps_state_gr \<Rightarrow> bytes \<Rightarrow> 's ps_turn_gr" where
  "word_op_gr step minimal m st mode go u x =
     do { (p, x, verdict) \<leftarrow> pump_step step minimal (standard_of m) (pump_of_gr u) x;
          (case verdict of
             PvDone w \<Rightarrow> go w (put_gr p u) x
           | PvMore \<Rightarrow> Some (put_gr p ((fst u)\<lparr>ps_mode_gr := mode\<rparr>, snd u), x, Break (Inr FlowMore))
           | _ \<Rightarrow> do { at \<leftarrow> halt_at verdict p;
                       Some (put_gr (p\<lparr>pu_terminal := True\<rparr>) u, x, Break (Inl \<lparr>sr_at = at, sr_kind = refusal_gr st verdict\<rparr>)) }) }"

lemmas word_op_simps_gr = word_op_gr_def Let_def pump_steps ps_halt_read_gr_def ps_halt_padded_gr_def
  halt_eq_gr halt_at_def refusal_gr_def pump_of_gr_def put_gr_def

lemma varint_op_gr:
  "ps_varint_value_gr S m field z x = word_op_gr step_value64 encoded_len64 m (StageValue field) (MVarintValue field)
     (\<lambda>w z x. ps_told_gr ((fst z)\<lparr>ps_mode_gr := MHead\<rparr>) x (on_varint_gr S field w (snd z))) z x"
  by (cases "pump_step step_value64 encoded_len64 (standard_of m) (ps_pump_gr (fst z)) x")
    (auto simp: ps_varint_value_gr_def word_op_simps_gr split: pump_verdict.splits)

lemma len_op_gr:
  "ps_len_word_gr S m field z x = word_op_gr step_len len_minimal m (StageLenPrefix field) (MLenWord field)
     (\<lambda>w z x. ps_len_done_gr S field w z x) z x"
  by (cases "pump_step step_len len_minimal (standard_of m) (ps_pump_gr (fst z)) x")
    (auto simp: ps_len_word_gr_def word_op_simps_gr split: pump_verdict.splits)

lemma head_op_gr:
  "pump_construct_start (pump_of_gr z) = Some start \<Longrightarrow> ps_mode_gr (fst z) = MHead \<Longrightarrow>
   ps_head_gr S m z x = word_op_gr step_tag encoded_len32 m StageTag MHead (ps_tagged_gr S m start) z x"
  by (cases "pump_step step_tag encoded_len32 (standard_of m) (ps_pump_gr (fst z)) x")
    (auto simp: ps_head_gr_def word_op_simps_gr split: pump_verdict.splits)

text \<open>A word operation over an open carry, in the mode it suspends to or on the way there.\<close>

lemma word_op_acts_gr:
  fixes step :: "carry \<Rightarrow> bytes \<Rightarrow> nat \<Rightarrow> nat \<Rightarrow> (carry \<times> bytes \<times> nat \<times> 'a step) option"
  assumes r: "word_reader step cap" and room: "ps_room_gr m z (length x + length y)"
    and opn: "carry_open cap (pu_carry (pump_of_gr z))"
    and act: "\<And>u x. pump_construct_start (pump_of_gr u) = pump_construct_start (pump_of_gr z) \<Longrightarrow>
      ps_mode_gr (fst u) = ps_mode_gr (fst z) \<or> ps_mode_gr (fst u) = mode \<Longrightarrow>
      act u x = word_op_gr step minimal m st mode go u x"
    and mode: "\<And>p. carry_open cap (pu_carry p) \<Longrightarrow> mode_ok mode p" "mode \<noteq> MHead \<or> x \<noteq> []"
    and turn: "\<And>u x. ps_mode_gr (fst u) = mode \<Longrightarrow> ps_turn_gr S m u x = act u x"
    and go: "\<And>w k. 0 < k \<Longrightarrow> k \<le> length x \<Longrightarrow> pu_off (pump_of_gr z) + k \<le> pu_zone (pump_of_gr z) \<Longrightarrow>
      pg_acts N S m (go w) (put_gr ((pump_of_gr z)\<lparr>pu_carry := carry_new, pu_off := pu_off (pump_of_gr z) + k\<rparr>) z) (drop k x) y"
    and same: "\<And>w p x. same_turn ps_alike_gr (Inr FlowMore) (go w (put_gr p z) x)
      (go w (put_gr p ((fst z)\<lparr>ps_mode_gr := mode\<rparr>, snd z)) x)"
  shows "pg_acts N S m act z x y"
proof -
  let ?sus = "\<lambda>u :: 'b ps_state_gr. ((fst u)\<lparr>ps_mode_gr := mode\<rparr>, snd u)"
  let ?out = "\<lambda>at verdict. Inl \<lparr>sr_at = at, sr_kind = refusal_gr st verdict\<rparr> :: ps_result_gr"
  show ?thesis
  proof (rule pg.word_acts [OF r opn, where suspend = ?sus and out = ?out and go = go and minimal = minimal and standard = "standard_of m"])
    show "act u x =
        do { (p, x, verdict) \<leftarrow> pump_step step minimal (standard_of m) (pump_of_gr u) x;
             (case verdict of
                PvDone w \<Rightarrow> go w (put_gr p u) x
              | PvMore \<Rightarrow> Some (put_gr p (?sus u), x, Break (Inr FlowMore))
              | _ \<Rightarrow> do { at \<leftarrow> halt_at verdict p; Some (put_gr (p\<lparr>pu_terminal := True\<rparr>) u, x, Break (?out at verdict)) }) }"
      if "pump_construct_start (pump_of_gr u) = pump_construct_start (pump_of_gr z)" "u = z \<or> (\<exists>p. u = put_gr p (?sus z))" for u x
      using that(2) by (subst act [OF that(1)]) (auto simp: word_op_gr_def put_gr_def)
  next
    fix c and s1 :: "'b ps_state_gr"
    assume c: "carry_open cap c" "cbuf c = cbuf (pu_carry (pump_of_gr z)) @ x"
      "pu_off (pump_of_gr z) + length x \<le> pu_zone (pump_of_gr z)"
      and s1: "s1 = put_gr ((pump_of_gr z)\<lparr>pu_carry := c, pu_off := pu_off (pump_of_gr z) + length x\<rparr>) (?sus z)"
    have l: "carry_len c = carry_len (pu_carry (pump_of_gr z)) + length x" using c(2) by (simp add: carry_len_def)
    have "ps_ok_gr m s1 (length y)"
      using room c l mode(1) by (auto simp: s1 ps_ok_gr_def ps_room_gr_def pump_room_def put_gr_def pump_of_gr_def)
    moreover have "ps_due_gr S s1 = Some (s1, Continue ())"
      by (rule due_quiet_gr) (use mode(2) c(2) in \<open>auto simp: s1 put_gr_def carry_is_empty_def carry_len_def\<close>)
    ultimately show "ps_ok_gr m s1 (length y) \<and> ps_due_gr S s1 = Some (s1, Continue ())" by simp
  next
    show "ps_turn_gr S m (put_gr p (?sus z)) x = act (put_gr p (?sus z)) x" for p x
      by (rule turn) (simp add: put_gr_def)
  qed (use room go same in \<open>auto simp: ps_room_gr_def pump_room_def pump_of_gr_def put_gr_def ps_alike_gr_def\<close>)
qed

lemma room_moved_gr:
  "ps_room_gr m z (length x + n) \<Longrightarrow> k \<le> length x \<Longrightarrow> pu_off (pump_of_gr z) + k \<le> pu_zone (pump_of_gr z) \<Longrightarrow>
   ps_room_gr m (put_gr ((pump_of_gr z)\<lparr>pu_carry := carry_new, pu_off := pu_off (pump_of_gr z) + k\<rparr>) z) (length (drop k x) + n)"
  by (auto simp: ps_room_gr_def pump_room_def put_gr_def pump_of_gr_def)

lemma room_ok_gr:
  "ps_room_gr m z n \<Longrightarrow> pu_carry (pump_of_gr z) = carry_new \<Longrightarrow> ps_mode_gr q = MHead \<Longrightarrow>
   ps_pump_gr q = ps_pump_gr (fst z) \<Longrightarrow> ps_stack_gr q = ps_stack_gr (fst z) \<Longrightarrow> ps_depth_gr q = ps_depth_gr (fst z) \<Longrightarrow>
   ps_ok_gr m (q, s) n"
  by (simp add: ps_ok_gr_def ps_room_gr_def pump_of_gr_def carry_open_new)

lemma put_fields_gr [simp]:
  "snd (put_gr p z) = snd z" "ps_mode_gr (fst (put_gr p z)) = ps_mode_gr (fst z)"
  "ps_stack_gr (fst (put_gr p z)) = ps_stack_gr (fst z)" "ps_depth_gr (fst (put_gr p z)) = ps_depth_gr (fst z)"
  "ps_pump_gr (fst (put_gr p z)) = p"
  by (simp_all add: put_gr_def pump_of_gr_def)

lemma varint_acts_gr:
  assumes "ps_room_gr m z (length x + length y)" "carry_open MAX_LEN64 (pu_carry (pump_of_gr z))" "length x \<le> N"
  shows "pg_acts N S m (ps_varint_value_gr S m field) z x y"
proof (rule word_op_acts_gr [OF value_reader.word_reader_axioms assms(1,2), where mode = "MVarintValue field"])
  show "ps_varint_value_gr S m field u x = word_op_gr step_value64 encoded_len64 m (StageValue field) (MVarintValue field)
     (\<lambda>w z x. ps_told_gr ((fst z)\<lparr>ps_mode_gr := MHead\<rparr>) x (on_varint_gr S field w (snd z))) u x" for u x
    by (rule varint_op_gr)
next
  fix w k
  assume k: "0 < k" "k \<le> length x" "pu_off (pump_of_gr z) + k \<le> pu_zone (pump_of_gr z)"
  show "pg_acts N S m (\<lambda>z x. ps_told_gr ((fst z)\<lparr>ps_mode_gr := MHead\<rparr>) x (on_varint_gr S field w (snd z)))
      (put_gr ((pump_of_gr z)\<lparr>pu_carry := carry_new, pu_off := pu_off (pump_of_gr z) + k\<rparr>) z) (drop k x) y"
  proof (rule told_acts_gr)
    show "length (drop k x) < N" using k assms(3) by simp
  qed (rule room_ok_gr [OF room_moved_gr [OF assms(1) k(2,3)]]; simp)
next
  show "same_turn ps_alike_gr (Inr FlowMore)
      (ps_told_gr ((fst (put_gr p z))\<lparr>ps_mode_gr := MHead\<rparr>) w (on_varint_gr S field v (snd (put_gr p z))))
      (ps_told_gr ((fst (put_gr p ((fst z)\<lparr>ps_mode_gr := MVarintValue field\<rparr>, snd z)))\<lparr>ps_mode_gr := MHead\<rparr>) w
        (on_varint_gr S field v (snd (put_gr p ((fst z)\<lparr>ps_mode_gr := MVarintValue field\<rparr>, snd z)))))" for v p w
    by (rule told_same_gr) (simp_all add: put_gr_def)
qed (auto simp: ps_turn_gr_def)

lemma usize_len_less: "usize_of (len_inner len) = unat len"
  by (simp add: usize_of_def)

lemma len_done_acts_gr:
  assumes "ps_room_gr m z (length x + length y)" "pu_carry (pump_of_gr z) = carry_new" "length x < N"
  shows "pg_acts N S m (ps_len_done_gr S field len) z x y"
proof -
  obtain q s where z: "z = (q, s)" by (cases z)
  let ?p = "ps_pump_gr q"
  let ?stop = "pu_off ?p + usize_of (len_inner len)"
  show ?thesis
  proof (cases "?stop \<le> u64_max \<and> ?stop \<le> pu_zone ?p \<and> ?stop \<noteq> u64_max")
    case False
    have "ps_len_done_gr S field len z w = ps_halt_gr z w (pu_off ?p)
        (if pu_zone ?p \<noteq> u64_max then SrLenOverrun field len else SrLenUnsatisfiable field len)" for w
      unfolding z ps_len_done_gr_def Let_def prod.case if_not_P [OF False] by simp
    then show ?thesis by (intro acts_then [OF halt_acts_gr]) simp_all
  next
    case True
    note fits = this
    obtain s' fl where t: "on_len_gr S field len (pu_off ?p) s = (s', fl)" by (cases "on_len_gr S field len (pu_off ?p) s")
    show ?thesis
    proof (cases fl)
      case (Break u)
      with t fits show ?thesis
        by (intro acts_break) (auto simp: z ps_len_done_gr_def Let_def ps_ask_gr_def ps_alike_gr_def)
    next
      case (Continue d)
      show ?thesis
      proof (cases d)
        case Commit
        show ?thesis
        proof (cases "length (ps_stack_gr q) \<ge> unat (ps_depth_gr q)")
          case True
          with t fits Continue Commit show ?thesis
            by (intro acts_break) (auto simp: z ps_len_done_gr_def Let_def ps_ask_gr_def halt_eq_gr ps_alike_gr_def)
        next
          case False
          with t fits Continue Commit assms show ?thesis
            by (intro acts_continue)
              (auto simp: z ps_len_done_gr_def Let_def ps_ask_gr_def ps_ok_gr_def ps_room_gr_def pump_room_def pump_of_gr_def carry_open_new)
        qed
      next
        case OpaqueBytes
        with t fits Continue assms show ?thesis
          by (intro acts_continue)
            (auto simp: z ps_len_done_gr_def Let_def ps_ask_gr_def ps_ok_gr_def ps_room_gr_def pump_room_def pump_of_gr_def carry_open_new
              counted_def usize_of_def)
      next
        case OpaqueSkip
        with t fits Continue assms show ?thesis
          by (intro acts_continue)
            (auto simp: z ps_len_done_gr_def Let_def ps_ask_gr_def ps_ok_gr_def ps_room_gr_def pump_room_def pump_of_gr_def carry_open_new
              counted_def usize_of_def)
      qed
    qed
  qed
qed

lemma len_done_same_gr:
  "same_turn ps_alike_gr (Inr FlowMore) (ps_len_done_gr S field len (put_gr p z) x)
     (ps_len_done_gr S field len (put_gr p ((fst z)\<lparr>ps_mode_gr := mode\<rparr>, snd z)) x)"
  by (cases "on_len_gr S field len (pu_off p) (snd z)")
    (auto simp: ps_len_done_gr_def Let_def ps_ask_gr_def halt_eq_gr put_gr_def same_turn_def ps_alike_gr_def ps_latch_gr_def
      split: control_flow.splits len_disposition.splits)

lemma len_acts_gr:
  assumes "ps_room_gr m z (length x + length y)" "carry_open MAX_LEN32 (pu_carry (pump_of_gr z))" "length x \<le> N"
  shows "pg_acts N S m (ps_len_word_gr S m field) z x y"
proof (rule word_op_acts_gr [OF len_reader.word_reader_axioms assms(1,2), where mode = "MLenWord field"])
  show "ps_len_word_gr S m field u x = word_op_gr step_len len_minimal m (StageLenPrefix field) (MLenWord field)
     (\<lambda>w z x. ps_len_done_gr S field w z x) u x" for u x by (rule len_op_gr)
next
  fix w k
  assume k: "0 < k" "k \<le> length x" "pu_off (pump_of_gr z) + k \<le> pu_zone (pump_of_gr z)"
  show "pg_acts N S m (\<lambda>z x. ps_len_done_gr S field w z x)
      (put_gr ((pump_of_gr z)\<lparr>pu_carry := carry_new, pu_off := pu_off (pump_of_gr z) + k\<rparr>) z) (drop k x) y"
    by (rule len_done_acts_gr [OF room_moved_gr [OF assms(1) k(2,3)]]) (use k assms in auto)
qed (auto simp: ps_turn_gr_def intro: len_done_same_gr)

lemma fixed_op_gr:
  "ps_fixed_tail_gr S field kind u x =
     do { (p, x, raw) \<leftarrow> pump_grab_fixed (fixed_need kind) (pump_of_gr u) x;
          (case raw of
             Some bs \<Rightarrow>
               (\<lambda>bs z x. ps_told_gr ((fst z)\<lparr>ps_mode_gr := MHead\<rparr>) x
                 (case kind of
                    FixI32 \<Rightarrow> on_i32_gr S field (of_nat (le_nat bs)) (snd z)
                  | FixI64 \<Rightarrow> on_i64_gr S field (of_nat (le_nat bs)) (snd z))) bs (put_gr p u) x
           | None \<Rightarrow> Some (put_gr p ((fst u)\<lparr>ps_mode_gr := MFixedTail field kind\<rparr>, snd u), x, Break (Inr FlowMore))) }"
  by (cases "pump_grab_fixed (fixed_need kind) (pump_of_gr u) x")
    (auto simp: ps_fixed_tail_gr_def Let_def put_gr_def pump_of_gr_def split: option.splits fixed_kind.splits)

lemma fixed_acts_gr:
  assumes "ps_room_gr m z (length x + length y)" "length x \<le> N"
    and "mode_ok (MFixedTail field kind) (pump_of_gr z)"
  shows "pg_acts N S m (ps_fixed_tail_gr S field kind) z x y"
proof (rule pg.fixed_acts [where suspend = "\<lambda>u. ((fst u)\<lparr>ps_mode_gr := MFixedTail field kind\<rparr>, snd u)", OF _ _ _ fixed_op_gr])
  let ?n = "fixed_need kind" and ?p = "pump_of_gr z"
  let ?d = "?n - carry_len (pu_carry ?p)"
  show o: "fixed_open ?n (pu_carry ?p)" "pu_off ?p + ?d \<le> pu_zone ?p" using assms(3) by simp_all
  show "?n \<le> 10" by (cases kind) simp_all
  have d: "0 < ?d" using o by (simp add: fixed_open_def)
  show "pg_acts N S m (\<lambda>z x. ps_told_gr ((fst z)\<lparr>ps_mode_gr := MHead\<rparr>) x
      (case kind of FixI32 \<Rightarrow> on_i32_gr S field (of_nat (le_nat bs)) (snd z) | FixI64 \<Rightarrow> on_i64_gr S field (of_nat (le_nat bs)) (snd z)))
      (put_gr (?p\<lparr>pu_carry := carry_new, pu_off := pu_off ?p + ?d\<rparr>) z) (drop ?d x) y" if "?d \<le> length x" for bs
  proof (rule told_acts_gr)
    show "length (drop ?d x) < N" using d that assms(2) by simp
  qed (rule room_ok_gr [OF room_moved_gr [OF assms(1) that o(2)]]; simp)
next
  fix c and s1 :: "'a ps_state_gr"
  let ?p = "pump_of_gr z"
  assume c: "fixed_open (fixed_need kind) c" "carry_len c = carry_len (pu_carry ?p) + length x"
    "pu_off ?p + length x + (fixed_need kind - carry_len c) \<le> pu_zone ?p"
    and s1: "s1 = put_gr (?p\<lparr>pu_carry := c, pu_off := pu_off ?p + length x\<rparr>) ((fst z)\<lparr>ps_mode_gr := MFixedTail field kind\<rparr>, snd z)"
  have "ps_ok_gr m s1 (length y)"
    using assms(1) c by (auto simp: s1 ps_ok_gr_def ps_room_gr_def pump_room_def pump_of_gr_def put_gr_def)
  moreover have "ps_due_gr S s1 = Some (s1, Continue ())" by (rule due_quiet_gr) (simp add: s1 put_gr_def)
  ultimately show "ps_ok_gr m s1 (length y) \<and> ps_due_gr S s1 = Some (s1, Continue ())" by simp
qed (auto simp: ps_turn_gr_def put_gr_def intro: told_same_gr split: fixed_kind.splits)

text \<open>Counted payloads: where a parser stands after \<open>b\<close> of the bytes, \<open>r\<close> of them owed.\<close>

definition counted_at_gr :: "(bytes \<Rightarrow> 's \<Rightarrow> 's) \<Rightarrow> (u32 \<Rightarrow> mode) \<Rightarrow> u32 \<Rightarrow> bytes \<Rightarrow> 's ps_state_gr \<Rightarrow> 's ps_state_gr" where
  "counted_at_gr seg mode r b z =
     ((fst z)\<lparr>ps_pump_gr := (pump_of_gr z)\<lparr>pu_off := pu_off (pump_of_gr z) + length b\<rparr>, ps_mode_gr := counted MHead mode r\<rparr>, seg b (snd z))"

lemma counted_at_ok_gr:
  assumes "ps_room_gr m z (length x + n)" "mode_ok (mode r) (pump_of_gr z)" "mode = MForward \<or> mode = MSwallow"
    and "length b \<le> length x" "length b \<le> unat r" "unat q = unat r - length b" "k + length b \<le> length x + n"
  shows "ps_ok_gr m (counted_at_gr seg mode q b z) k"
  using assms
  by (auto simp: counted_at_gr_def ps_ok_gr_def ps_room_gr_def pump_room_def pump_of_gr_def counted_def carry_open_new)

lemma counted_acts_gr:
  assumes room: "ps_room_gr m z (length x + length y)" "mode_ok (mode r) (pump_of_gr z)" "mode = MForward \<or> mode = MSwallow"
    and x: "x \<noteq> []" "length x \<le> N"
    and seg: "\<And>b c s. seg c (seg b s) = seg (b @ c) s"
    and act: "\<And>r z x. act r z x = Some (counted_at_gr seg mode (r - count_take r x) (take (unat (count_take r x)) x) z,
      drop (unat (count_take r x)) x, Continue ())"
    and turn: "\<And>r z x. ps_mode_gr (fst z) = mode r \<Longrightarrow> ps_turn_gr S m z x = act r z x"
  shows "pg_acts N S m (act r) z x y"
proof (rule pg.counted_acts [where res = "counted_at_gr seg mode", OF _ x])
  show "r \<noteq> 0" using room by auto
  show "ps_ok_gr m (counted_at_gr seg mode q b z) n"
    if "length b \<le> length x" "length b \<le> unat r" "unat q = unat r - length b" "n + length b \<le> length x + length y" for q b n
    by (rule counted_at_ok_gr [OF room]) (use that in auto)
  show "ps_due_gr S (counted_at_gr seg mode q b z) = Some (counted_at_gr seg mode q b z, Continue ())" if "q \<noteq> 0" for q b
    by (rule due_quiet_gr) (use that room(3) in \<open>auto simp: counted_at_gr_def counted_def\<close>)
  show "ps_turn_gr S m (counted_at_gr seg mode q b z) w = Some (counted_at_gr seg mode (q - count_take q w)
      (b @ take (unat (count_take q w)) w) z, drop (unat (count_take q w)) w, Continue ())" if "q \<noteq> 0" for q b w
  proof -
    have "ps_mode_gr (fst (counted_at_gr seg mode q b z)) = mode q" using that by (simp add: counted_at_gr_def counted_def)
    from turn [OF this] show ?thesis by (simp add: act) (simp add: counted_at_gr_def pump_of_gr_def seg add.assoc)
  qed
qed (rule act)

lemma swallow_acts_gr:
  assumes "ps_room_gr m z (length x + length y)" "mode_ok (MSwallow r) (pump_of_gr z)" "x \<noteq> []" "length x \<le> N"
  shows "pg_acts N S m (ps_swallow_gr r) z x y"
  by (rule counted_acts_gr [where mode = MSwallow and seg = "\<lambda>b s. s", OF assms(1,2) _ assms(3,4)])
    (auto simp: ps_swallow_gr_def ps_passed_gr_def counted_at_gr_def Let_def pump_of_gr_def ps_turn_gr_def unat_count_take min_def)

text \<open>A segment handed on: the sink that gathers hears the same bytes; the one that stops, stops here.\<close>

lemma forward_eq_gr:
  "ps_forward_gr S r z x =
     (let k = unat (count_take r x);
          w = counted_at_gr (\<lambda>b s. fst (on_segment_gr S b s)) MForward (r - count_take r x) (take k x) z in
      (case snd (on_segment_gr S (take k x) (snd z)) of
         Continue _ \<Rightarrow> Some (w, drop k x, Continue ())
       | Break _ \<Rightarrow> Some ((ps_latch_gr (fst w) True, snd w), drop k x, Break (Inr FlowStopped))))"
  by (auto simp: ps_forward_gr_def ps_passed_gr_def counted_at_gr_def Let_def pump_of_gr_def ps_told_gr_def ps_event_gr_def
      unat_count_take min_def split: control_flow.splits)

lemma forward_acts_gr:
  assumes "ps_room_gr m z (length x + length y)" "mode_ok (MForward r) (pump_of_gr z)" "x \<noteq> []" "length x \<le> N"
  shows "pg_acts N S m (ps_forward_gr S r) z x y"
proof (cases "gathers_gr S")
  case True
  let ?seg = "\<lambda>b s. fst (on_segment_gr S b s)"
  have seg: "?seg c (?seg b s) = ?seg (b @ c) s" "snd (on_segment_gr S b s) = Continue ()" for b c s
    using True by (simp_all add: gathers_gr_def)
  show ?thesis
    by (rule counted_acts_gr [where mode = MForward and seg = ?seg, OF assms(1,2) _ assms(3,4) seg(1)])
      (simp_all add: forward_eq_gr seg(2) Let_def ps_turn_gr_def)
next
  case False
  let ?k = "unat (count_take r x)"
  have k: "?k = min (unat r) (length x)" by (rule unat_count_take)
  have r: "unat r \<noteq> 0" using assms(2) by (simp add: unat_eq_0)
  show ?thesis
  proof (cases "snd (on_segment_gr S (take ?k x) (snd z))")
    case (Break u)
    with False show ?thesis by (intro acts_break) (auto simp: forward_eq_gr Let_def)
  next
    case (Continue u)
    show ?thesis
    proof (rule acts_continue)
      show "ps_forward_gr S r z x =
          Some (counted_at_gr (\<lambda>b s. fst (on_segment_gr S b s)) MForward (r - count_take r x) (take ?k x) z, drop ?k x, Continue ())"
        using Continue by (simp add: forward_eq_gr Let_def)
      show "ps_ok_gr m (counted_at_gr (\<lambda>b s. fst (on_segment_gr S b s)) MForward (r - count_take r x) (take ?k x) z)
          (length (drop ?k x) + length y)"
        by (rule counted_at_ok_gr [OF assms(1), where r = r]) (use assms(2) k unat_count_left [of r x] in \<open>auto simp: min_def\<close>)
      show "length (drop ?k x) < N" using k r assms(3,4) by (cases x) (auto simp: min_def)
    qed (use False in simp)
  qed
qed

lemma group_end_acts_gr:
  assumes "ps_room_gr m z (length x + length y)" "pu_carry (pump_of_gr z) = carry_new" "ps_mode_gr (fst z) = MHead" "length x < N"
  shows "pg_acts N S m (ps_group_end_gr S end at) z x y"
proof (cases "ps_stack_gr (fst z)")
  case Nil
  then show ?thesis by (intro acts_then [OF halt_acts_gr]) (auto simp: ps_group_end_gr_def)
next
  case (Cons e rest)
  show ?thesis
  proof (cases e)
    case (ExLen prev field)
    with Cons show ?thesis by (intro acts_then [OF halt_acts_gr]) (auto simp: ps_group_end_gr_def)
  next
    case (ExGroup field)
    show ?thesis
    proof (cases "field = end")
      case False
      with Cons ExGroup show ?thesis by (intro acts_then [OF halt_acts_gr]) (auto simp: ps_group_end_gr_def)
    next
      case True
      have "pg_acts N S m (\<lambda>z x. ps_told_gr ((fst z)\<lparr>ps_stack_gr := rest\<rparr>) x (on_group_exit_gr S field at (snd z))) z x y"
        by (rule told_acts_gr [OF assms(4)])
          (use assms Cons ExGroup in \<open>auto simp: ps_ok_gr_def ps_room_gr_def pump_of_gr_def carry_open_new\<close>)
      with Cons ExGroup True show ?thesis by (elim acts_then) (auto simp: ps_group_end_gr_def)
    qed
  qed
qed

lemma fixed_head_acts_gr:
  assumes "ps_room_gr m z (length x + length y)" "pu_carry (pump_of_gr z) = carry_new" "length x < N"
  shows "pg_acts N S m (\<lambda>z x. do { room \<leftarrow> usub (pu_zone (ps_pump_gr (fst z))) (pu_off (ps_pump_gr (fst z)));
      if room < fixed_need kind then ps_halt_gr z x (pu_off (ps_pump_gr (fst z))) (SrFixedOverrun field)
      else ps_fixed_tail_gr S field kind z x }) z x y"
proof -
  let ?p = "ps_pump_gr (fst z)"
  have room: "usub (pu_zone ?p) (pu_off ?p) = Some (pu_zone ?p - pu_off ?p)" "pu_off ?p \<le> pu_zone ?p"
    using assms(1) by (simp_all add: usub_def ps_room_gr_def pump_room_def)
  show ?thesis
  proof (cases "pu_zone ?p - pu_off ?p < fixed_need kind")
    case True
    then show ?thesis by (intro acts_then [OF halt_acts_gr]) (simp_all add: room)
  next
    case False
    moreover have "0 < fixed_need kind" by (cases kind) simp_all
    ultimately have "mode_ok (MFixedTail field kind) (pump_of_gr z)"
      using assms(2) room(2) by (simp add: fixed_open_def pump_of_gr_def)
    with False assms show ?thesis
      by (intro acts_then [OF fixed_acts_gr [OF assms(1), of N field kind]]) (simp_all add: room)
  qed
qed

lemma tagged_acts_gr:
  assumes "ps_room_gr m z (length x + length y)" "pu_carry (pump_of_gr z) = carry_new" "ps_mode_gr (fst z) = MHead" "length x < N"
  shows "pg_acts N S m (ps_tagged_gr S m start word) z x y"
proof -
  have N: "length x \<le> N" using assms(4) by simp
  have new: "carry_open MAX_LEN32 (pu_carry (pump_of_gr z))" "carry_open MAX_LEN64 (pu_carry (pump_of_gr z))"
    by (simp_all add: assms(2) carry_open_new)
  have go: ?thesis if "pg_acts N S m f z x y" "\<And>x. ps_tagged_gr S m start word z x = f z x" for f
    by (rule acts_then [OF that(1)]) (simp_all add: that(2))
  show ?thesis
  proof (cases "FieldNumber_from_word word")
    case None
    then show ?thesis by (intro go [OF halt_acts_gr]) (simp add: ps_tagged_gr_def Let_def)
  next
    case (Some field)
    show ?thesis
    proof (cases "classify_gr (Low3_from_word word)")
      case GrGroupEnd
      with Some show ?thesis
        by (intro go [OF group_end_acts_gr [OF assms]]) (simp add: ps_tagged_gr_def Let_def)
    next
      case GrUnassigned
      with Some show ?thesis by (intro go [OF halt_acts_gr]) (simp add: ps_tagged_gr_def Let_def)
    next
      case (GrRecord kind)
      show ?thesis
      proof (cases kind)
        case GrVarint
        with Some GrRecord show ?thesis
          by (intro go [OF varint_acts_gr [OF assms(1) new(2) N]]) (simp add: ps_tagged_gr_def Let_def)
      next
        case GrLen
        with Some GrRecord show ?thesis
          by (intro go [OF len_acts_gr [OF assms(1) new(1) N]]) (simp add: ps_tagged_gr_def Let_def)
      next
        case GrI64
        with Some GrRecord show ?thesis
          by (intro go [OF fixed_head_acts_gr [OF assms(1,2,4), of S FixI64]]) (simp add: ps_tagged_gr_def Let_def)
      next
        case GrI32
        with Some GrRecord show ?thesis
          by (intro go [OF fixed_head_acts_gr [OF assms(1,2,4), of S FixI32]]) (simp add: ps_tagged_gr_def Let_def)
      next
        case GrGroup
        show ?thesis
        proof (cases "length (ps_stack_gr (fst z)) \<ge> unat (ps_depth_gr (fst z))")
          case True
          with Some GrRecord GrGroup show ?thesis by (intro go [OF halt_acts_gr]) (simp add: ps_tagged_gr_def Let_def)
        next
          case False
          have "pg_acts N S m (\<lambda>z x. ps_told_gr ((fst z)\<lparr>ps_stack_gr := ExGroup field # ps_stack_gr (fst z)\<rparr>) x
              (on_group_enter_gr S field (pu_off (ps_pump_gr (fst z))) (snd z))) z x y"
            by (rule told_acts_gr [OF assms(4)])
              (use assms False in \<open>auto simp: ps_ok_gr_def ps_room_gr_def pump_of_gr_def carry_open_new\<close>)
          with Some GrRecord GrGroup False show ?thesis by (elim go) (simp add: ps_tagged_gr_def Let_def)
        qed
      qed
    qed
  qed
qed

lemma head_acts_gr:
  assumes "ps_room_gr m z (length x + length y)" "carry_open MAX_LEN32 (pu_carry (pump_of_gr z))" "ps_mode_gr (fst z) = MHead"
    and x: "x \<noteq> []" "length x \<le> N"
  shows "pg_acts N S m (ps_head_gr S m) z x y"
proof -
  let ?start = "pu_off (pump_of_gr z) - carry_len (pu_carry (pump_of_gr z))"
  have start: "pump_construct_start (pump_of_gr z) = Some ?start"
    using assms(1) by (simp add: pump_start_of ps_room_gr_def pump_room_def pump_of_gr_def)
  have mode: "((fst z)\<lparr>ps_mode_gr := MHead\<rparr>, snd z) = z" using assms(3) by (cases z) simp
  show ?thesis
  proof (rule word_op_acts_gr [OF tag_reader.word_reader_axioms assms(1,2), where mode = MHead])
    show "ps_head_gr S m u x = word_op_gr step_tag encoded_len32 m StageTag MHead (ps_tagged_gr S m ?start) u x"
      if "pump_construct_start (pump_of_gr u) = pump_construct_start (pump_of_gr z)"
        "ps_mode_gr (fst u) = ps_mode_gr (fst z) \<or> ps_mode_gr (fst u) = MHead" for u x
      by (rule head_op_gr) (use that assms(3) start in auto)
  next
    fix w k
    assume k: "0 < k" "k \<le> length x" "pu_off (pump_of_gr z) + k \<le> pu_zone (pump_of_gr z)"
    show "pg_acts N S m (ps_tagged_gr S m ?start w)
        (put_gr ((pump_of_gr z)\<lparr>pu_carry := carry_new, pu_off := pu_off (pump_of_gr z) + k\<rparr>) z) (drop k x) y"
      by (rule tagged_acts_gr [OF room_moved_gr [OF assms(1) k(2,3)]]) (use k assms in auto)
  qed (use x in \<open>auto simp: ps_turn_gr_def mode same_turn_def ps_alike_gr_def\<close>)
qed

lemma turn_acts_gr:
  assumes "ps_ok_gr m z (length x + length y)" "x \<noteq> []"
  shows "pg_acts (length x) S m (ps_turn_gr S m) z x y"
proof -
  have r: "ps_room_gr m z (length x + length y)" "mode_ok (ps_mode_gr (fst z)) (pump_of_gr z)"
    using assms(1) by (simp_all add: ps_ok_gr_def pump_of_gr_def)
  have go: ?thesis if "pg_acts (length x) S m f z x y" "\<And>x. ps_turn_gr S m z x = f z x" for f
    by (rule acts_then [OF that(1)]) (simp_all add: that(2))
  show ?thesis
  proof (cases "ps_mode_gr (fst z)")
    case MHead
    with r assms(2) show ?thesis by (intro go [OF head_acts_gr]) (simp_all add: ps_turn_gr_def)
  next
    case (MVarintValue field)
    with r show ?thesis by (intro go [OF varint_acts_gr]) (auto simp: ps_turn_gr_def)
  next
    case (MLenWord field)
    with r show ?thesis by (intro go [OF len_acts_gr]) (auto simp: ps_turn_gr_def)
  next
    case (MFixedTail field kind)
    with r show ?thesis by (intro go [OF fixed_acts_gr [of m z x y "length x" field kind]]) (auto simp: ps_turn_gr_def)
  next
    case (MForward left)
    with r assms(2) show ?thesis by (intro go [OF forward_acts_gr]) (auto simp: ps_turn_gr_def)
  next
    case (MSwallow left)
    with r assms(2) show ?thesis by (intro go [OF swallow_acts_gr]) (auto simp: ps_turn_gr_def)
  qed
qed

section \<open>The feed\<close>

text \<open>Between feeds the latch is down.\<close>

definition ps_start_gr :: "'s ps_state_gr \<Rightarrow> 's ps_state_gr" where
  "ps_start_gr z = (ps_latch_gr (fst z) True, snd z)"

definition ps_fin_gr :: "'s ps_state_gr \<Rightarrow> ps_result_gr \<Rightarrow> 's ps_state_gr" where
  "ps_fin_gr z r = (ps_latch_gr (fst z) (r \<noteq> Inr FlowMore), snd z)"

definition ps_ready_gr :: "bool \<Rightarrow> 's ps_state_gr \<Rightarrow> nat \<Rightarrow> bool" where
  "ps_ready_gr m z n \<longleftrightarrow> \<not> pu_terminal (ps_pump_gr (fst z)) \<and> ps_ok_gr m (ps_start_gr z) n"

lemma mode_ok_latch [simp]: "mode_ok md (p\<lparr>pu_terminal := b\<rparr>) = mode_ok md p"
  by (cases md) simp_all

lemma ps_feed_drive_gr:
  assumes "ps_ready_gr m z (length x)"
  shows "ps_feed_gr S z x = map_option (\<lambda>(z, r). (ps_fin_gr z r, r)) (ps_drive_gr S m (ps_start_gr z) x)"
proof -
  have p: "\<not> pu_terminal (ps_pump_gr (fst z))" "pu_standard (ps_pump_gr (fst z)) = standard_of m"
    "pu_off (ps_pump_gr (fst z)) + length x < u64_max"
    using assms by (simp_all add: ps_ready_gr_def ps_ok_gr_def ps_room_gr_def pump_room_def ps_start_gr_def ps_latch_gr_def)
  from p(3) have "pump_admits (ps_pump_gr (fst z)) x" unfolding pump_admits_def by linarith
  with p show ?thesis
    by (cases m; cases z; cases "ps_drive_gr S m (ps_start_gr z) x")
      (auto simp: ps_feed_gr_def Let_def standard_of_def ps_start_gr_def ps_fin_gr_def)
qed

lemma ps_ok_room_gr: "ps_ok_gr m z n \<Longrightarrow> k \<le> n \<Longrightarrow> ps_ok_gr m z k"
  by (simp add: ps_ok_gr_def ps_room_gr_def pump_room_def)

lemma ps_feeding_gr:
  "feeding (ps_due_gr S) (ps_turn_gr S m) (Inr FlowMore) (ps_ok_gr m) ps_alike_gr (gathers_gr S)
     (ps_feed_gr S) (ps_ready_gr m) ps_start_gr ps_fin_gr"
proof (rule feeding.intro)
  show "turning (ps_due_gr S) (ps_turn_gr S m) (Inr FlowMore) (ps_ok_gr m) ps_alike_gr (gathers_gr S)"
  proof
    fix z z' :: "'a ps_state_gr" and n :: nat and u r
    assume ok: "ps_ok_gr m z n"
    from cascade_gr [of m "fst z" "snd z" n S] ok
    have c: "\<exists>w fl. ps_due_gr S z = Some (w, fl) \<and> fl \<noteq> Break (Inr FlowMore) \<and>
        (fl = Continue () \<longrightarrow> ps_ok_gr m w n \<and> ps_due_gr S w = Some (w, Continue ()))"
      by (simp add: ps_due_gr_def)
    then show "\<exists>out. ps_due_gr S z = Some out" by blast
    show "ps_ok_gr m z' n \<and> ps_due_gr S z' = Some (z', Continue ())" if "ps_due_gr S z = Some (z', Continue u)"
      using c that by auto
    show "r \<noteq> Inr FlowMore" if "ps_due_gr S z = Some (z', Break r)" using c that by auto
  qed (auto simp: ps_alike_gr_def ps_ok_room_gr turn_acts_gr)
  show "feeding_axioms (ps_due_gr S) (ps_turn_gr S m) (Inr FlowMore) (ps_ok_gr m) ps_alike_gr
      (ps_feed_gr S) (ps_ready_gr m) ps_start_gr ps_fin_gr"
    by unfold_locales
      (auto simp: ps_feed_drive_gr [unfolded ps_drive_gr_def] ps_ready_gr_def ps_ok_room_gr ps_start_gr_def ps_fin_gr_def ps_latch_gr_def
        ps_alike_gr_def ps_ok_gr_def ps_room_gr_def pump_room_def intro!: parser_gr.equality pump.equality)
qed

interpretation pf: feeding "ps_due_gr S" "ps_turn_gr S m" "Inr FlowMore" "ps_ok_gr m" ps_alike_gr "gathers_gr S"
    "ps_feed_gr S" "ps_ready_gr m" ps_start_gr ps_fin_gr for S m
  by (rule ps_feeding_gr)

end
