(* ===== verification/Session_Grouped.thy ===== *)
theory Session_Grouped
  imports Drive_Grouped
begin

text \<open>
  Whole sessions of the grouped parser: a new parser fed a stream chunk by chunk, then asked to finish. For
  every sink the session returns, keeps its books (the offset is the bytes consumed, the stack never
  outgrows the depth limit), and for a gathering sink does not depend on where the stream was cut.
\<close>

section \<open>What every turn keeps\<close>

text \<open>The parser's books at a residue of \<open>n\<close> bytes: the depth it was given, the stack within it, and
  the bytes consumed so far.\<close>

definition kept_gr :: "depth_limit \<Rightarrow> nat \<Rightarrow> 's ps_state_gr \<Rightarrow> nat \<Rightarrow> bool" where
  "kept_gr d tot z n \<longleftrightarrow> ps_depth_gr (fst z) = d \<and> length (ps_stack_gr (fst z)) \<le> unat d \<and> pu_off (ps_pump_gr (fst z)) + n = tot"

lemma kept_latch_gr [simp]: "kept_gr d tot (ps_latch_gr q b, s) n \<longleftrightarrow> kept_gr d tot (q, s) n"
  by (simp add: kept_gr_def ps_latch_gr_def)

lemma kept_sink_gr: "kept_gr d tot (q, s) n \<longleftrightarrow> kept_gr d tot (q, s') n"
  by (simp add: kept_gr_def)

lemma kept_start_gr [simp]:
  "kept_gr d tot (ps_start_gr z) n \<longleftrightarrow> kept_gr d tot z n" "kept_gr d tot (ps_fin_gr z r) n \<longleftrightarrow> kept_gr d tot z n"
  by (simp_all add: kept_gr_def ps_start_gr_def ps_fin_gr_def ps_latch_gr_def)

lemma halt_kept_gr: "ps_halt_gr z x at kind = Some (z1, x1, fl) \<Longrightarrow> kept_gr d tot z (length x) \<Longrightarrow> kept_gr d tot z1 (length x1)"
  by (auto simp: halt_eq_gr kept_gr_def)

lemma told_kept_gr:
  "ps_told_gr q x out = Some (z1, x1, fl) \<Longrightarrow> kept_gr d tot (q, s) (length x) \<Longrightarrow> kept_gr d tot z1 (length x1)"
  by (auto simp: ps_told_gr_def ps_event_gr_def kept_sink_gr [of d tot q s] split: control_flow.splits)
    (simp_all add: kept_gr_def)

lemma word_op_kept_gr:
  fixes step :: "carry \<Rightarrow> bytes \<Rightarrow> nat \<Rightarrow> nat \<Rightarrow> (carry \<times> bytes \<times> nat \<times> 'a step) option"
  assumes "word_reader step cap" "carry_open cap (pu_carry (pump_of_gr z))" "ps_room_gr m z n"
    and out: "word_op_gr step minimal m st md go z x = Some (z1, x1, fl)" and k: "kept_gr d tot z (length x)"
    and go: "\<And>w k p. k \<le> length x \<Longrightarrow> pu_off (pump_of_gr z) + k \<le> pu_zone (pump_of_gr z) \<Longrightarrow>
      p = (pump_of_gr z)\<lparr>pu_carry := carry_new, pu_off := pu_off (pump_of_gr z) + k\<rparr> \<Longrightarrow>
      go w (put_gr p z) (drop k x) = Some (z1, x1, fl) \<Longrightarrow> kept_gr d tot (put_gr p z) (length (drop k x)) \<Longrightarrow> kept_gr d tot z1 (length x1)"
  shows "kept_gr d tot z1 (length x1)"
proof -
  have z: "pu_off (pump_of_gr z) \<le> pu_zone (pump_of_gr z)"
    using assms(3) by (simp add: ps_room_gr_def pump_room_def pump_of_gr_def)
  have put: "kept_gr d tot (put_gr (p\<lparr>pu_carry := c, pu_off := pu_off (pump_of_gr z) + j\<rparr>) z) (length (drop j x))"
    if "j \<le> length x" for p c j
    using k that by (simp add: kept_gr_def pump_of_gr_def)
  show ?thesis
  proof (cases rule: word_reader.pump_cases [OF assms(1,2) z, of minimal "standard_of m" x "[]", case_names complete suspended refused])
    case (complete j w)
    with out have "go w (put_gr ((pump_of_gr z)\<lparr>pu_carry := carry_new, pu_off := pu_off (pump_of_gr z) + j\<rparr>) z) (drop j x) = Some (z1, x1, fl)"
      by (simp add: word_op_gr_def)
    from go [OF complete(3,4) refl this put [OF complete(3)]] show ?thesis .
  next
    case (suspended c1)
    with out k show ?thesis by (auto simp: word_op_gr_def kept_gr_def put_gr_def pump_of_gr_def)
  next
    case (refused c1 c3 j v)
    with out k show ?thesis
      by (auto simp: word_op_gr_def kept_gr_def put_gr_def pump_of_gr_def split: bind_splits)
  qed
qed

lemma varint_kept_gr:
  assumes "ps_varint_value_gr S m field z x = Some (z1, x1, fl)" "kept_gr d tot z (length x)"
    and "carry_open MAX_LEN64 (pu_carry (pump_of_gr z))" "ps_room_gr m z n"
  shows "kept_gr d tot z1 (length x1)"
  using assms(1) unfolding varint_op_gr
  by (rule word_op_kept_gr [OF value_reader.word_reader_axioms assms(3,4) _ assms(2)])
    (erule told_kept_gr [where s = undefined], simp add: kept_gr_def)

lemma len_done_kept_gr:
  assumes "ps_len_done_gr S field len z x = Some (z1, x1, fl)" "kept_gr d tot z (length x)"
  shows "kept_gr d tot z1 (length x1)"
  using assms
  by (auto simp: ps_len_done_gr_def Let_def ps_ask_gr_def kept_gr_def ps_latch_gr_def halt_eq_gr
      split: prod.splits control_flow.splits len_disposition.splits if_splits)

lemma len_kept_gr:
  assumes "ps_len_word_gr S m field z x = Some (z1, x1, fl)" "kept_gr d tot z (length x)"
    and "carry_open MAX_LEN32 (pu_carry (pump_of_gr z))" "ps_room_gr m z n"
  shows "kept_gr d tot z1 (length x1)"
  using assms(1) unfolding len_op_gr
  by (rule word_op_kept_gr [OF len_reader.word_reader_axioms assms(3,4) _ assms(2)]) (erule len_done_kept_gr)

lemma fixed_kept_gr:
  assumes "ps_fixed_tail_gr S field kind z x = Some (z1, x1, fl)" "kept_gr d tot z (length x)"
    and "mode_ok (MFixedTail field kind) (pump_of_gr z)"
  shows "kept_gr d tot z1 (length x1)"
proof -
  have o: "fixed_open (fixed_need kind) (pu_carry (pump_of_gr z))" "fixed_need kind \<le> 10"
    "pu_off (pump_of_gr z) + (fixed_need kind - carry_len (pu_carry (pump_of_gr z))) \<le> pu_zone (pump_of_gr z)"
    using assms(3) by (cases kind; simp)+
  show ?thesis
    using assms(1,2) unfolding fixed_op_gr pump_grab_eq [OF o]
    by (auto simp: Let_def kept_gr_def pump_of_gr_def put_gr_def split: if_splits elim!: told_kept_gr [where s = undefined, unfolded kept_gr_def])
qed

lemma passed_kept_gr:
  "kept_gr d tot z (length x) \<Longrightarrow> kept_gr d tot (ps_passed_gr (fst z) r (count_take r x) md, s) (length (drop (unat (count_take r x)) x))"
  using unat_count_take [of r x] by (auto simp: kept_gr_def ps_passed_gr_def)

lemma swallow_kept_gr: "ps_swallow_gr r z x = Some (z1, x1, fl) \<Longrightarrow> kept_gr d tot z (length x) \<Longrightarrow> kept_gr d tot z1 (length x1)"
  using passed_kept_gr [of d tot z x r MSwallow "snd z"] by (auto simp: ps_swallow_gr_def Let_def)

lemma forward_kept_gr: "ps_forward_gr S r z x = Some (z1, x1, fl) \<Longrightarrow> kept_gr d tot z (length x) \<Longrightarrow> kept_gr d tot z1 (length x1)"
  unfolding ps_forward_gr_def Let_def by (erule told_kept_gr) (erule passed_kept_gr)

lemma group_end_kept_gr:
  "ps_group_end_gr S end at z x = Some (z1, x1, fl) \<Longrightarrow> kept_gr d tot z (length x) \<Longrightarrow> kept_gr d tot z1 (length x1)"
  by (auto simp: ps_group_end_gr_def kept_gr_def split: list.splits extent_gr.splits if_splits
      elim!: told_kept_gr [where s = undefined, unfolded kept_gr_def] halt_kept_gr [unfolded kept_gr_def])

lemma tagged_kept_gr:
  assumes t: "ps_tagged_gr S m start word z x = Some (z1, x1, fl)" and k: "kept_gr d tot z (length x)"
    and room: "pu_carry (pump_of_gr z) = carry_new" "ps_room_gr m z n"
  shows "kept_gr d tot z1 (length x1)"
proof (cases "FieldNumber_from_word word")
  case None
  with t k show ?thesis by (auto simp: ps_tagged_gr_def Let_def intro: halt_kept_gr)
next
  case (Some field)
  have opn: "carry_open MAX_LEN32 (pu_carry (pump_of_gr z))" "carry_open MAX_LEN64 (pu_carry (pump_of_gr z))"
    by (simp_all add: room carry_open_new)
  have fixed: "kept_gr d tot z1 (length x1)"
    if "do { left \<leftarrow> usub (pu_zone (ps_pump_gr (fst z))) (pu_off (ps_pump_gr (fst z)));
      if left < fixed_need kind then ps_halt_gr z x (pu_off (ps_pump_gr (fst z))) (SrFixedOverrun field)
      else ps_fixed_tail_gr S field kind z x } = Some (z1, x1, fl)" for kind
  proof -
    have "0 < fixed_need kind" by (cases kind) simp_all
    then show ?thesis
      using that k room
      by (auto simp: usub_def fixed_open_def pump_of_gr_def split: if_splits intro: halt_kept_gr elim!: fixed_kept_gr)
  qed
  note ops = varint_kept_gr [OF _ k opn(2) room(2)] len_kept_gr [OF _ k opn(1) room(2)] group_end_kept_gr [OF _ k] halt_kept_gr [OF _ k]
  show ?thesis
  proof (cases "classify_gr (Low3_from_word word)")
    case (GrRecord kind)
    show ?thesis
    proof (cases "kind = GrGroup")
      case False
      with t Some GrRecord show ?thesis
        by (cases kind) (auto simp: ps_tagged_gr_def Let_def intro: ops fixed [of FixI64, simplified] fixed [of FixI32, simplified])
    next
      case True
      have k1: "kept_gr d tot ((fst z)\<lparr>ps_stack_gr := ExGroup field # ps_stack_gr (fst z)\<rparr>, snd z) (length x)"
        if "\<not> length (ps_stack_gr (fst z)) \<ge> unat (ps_depth_gr (fst z))"
        using k that by (simp add: kept_gr_def)
      have k2: "ps_told_gr ((fst z)\<lparr>ps_stack_gr := ExGroup field # ps_stack_gr (fst z)\<rparr>) x out = Some (z1, x1, fl) \<Longrightarrow>
          kept_gr d tot z1 (length x1)" if "\<not> length (ps_stack_gr (fst z)) \<ge> unat (ps_depth_gr (fst z))" for out
        by (rule told_kept_gr [OF _ k1 [OF that]])
      show ?thesis
        using t Some GrRecord True by (auto simp: ps_tagged_gr_def Let_def intro: ops k2 split: if_splits)
    qed
  qed (use t Some in \<open>auto simp: ps_tagged_gr_def Let_def intro: ops\<close>)
qed

lemma turn_kept_gr:
  assumes t: "ps_turn_gr S m z x = Some (z1, x1, fl)" and k: "kept_gr d tot z (length x)" and ok: "ps_ok_gr m z n" and n: "length x \<le> n"
  shows "kept_gr d tot z1 (length x1)"
proof -
  have room: "ps_room_gr m z n" "mode_ok (ps_mode_gr (fst z)) (pump_of_gr z)"
    using ok by (simp_all add: ps_ok_gr_def pump_of_gr_def)
  show ?thesis
  proof (cases "ps_mode_gr (fst z)")
    case MHead
    let ?start = "pu_off (pump_of_gr z) - carry_len (pu_carry (pump_of_gr z))"
    have "pump_construct_start (pump_of_gr z) = Some ?start"
      using room(1) by (simp add: pump_start_of ps_room_gr_def pump_room_def pump_of_gr_def)
    from head_op_gr [OF this MHead, of S m x] t MHead
    have h: "word_op_gr step_tag encoded_len32 m StageTag MHead (ps_tagged_gr S m ?start) z x = Some (z1, x1, fl)"
      by (simp add: ps_turn_gr_def)
    show ?thesis
    proof (rule word_op_kept_gr [OF tag_reader.word_reader_axioms _ room(1) h k])
      show "carry_open MAX_LEN32 (pu_carry (pump_of_gr z))" using room(2) MHead by simp
      fix w j p
      assume j: "j \<le> length x" "pu_off (pump_of_gr z) + j \<le> pu_zone (pump_of_gr z)"
        and p: "p = (pump_of_gr z)\<lparr>pu_carry := carry_new, pu_off := pu_off (pump_of_gr z) + j\<rparr>"
        and h: "ps_tagged_gr S m ?start w (put_gr p z) (drop j x) = Some (z1, x1, fl)" "kept_gr d tot (put_gr p z) (length (drop j x))"
      have r: "ps_room_gr m (put_gr p z) (length (drop j x) + (n - length x))"
        unfolding p by (rule room_moved_gr [OF _ j]) (use room(1) n in simp)
      show "kept_gr d tot z1 (length x1)"
        by (rule tagged_kept_gr [OF h _ r]) (simp add: p)
    qed
  qed (use t k room in \<open>auto simp: ps_turn_gr_def intro: varint_kept_gr len_kept_gr fixed_kept_gr swallow_kept_gr forward_kept_gr\<close>)
qed

lemma cascade_kept_gr: "ps_cascade_gr S q s = Some (z1, fl) \<Longrightarrow> kept_gr d tot (q, s) n \<Longrightarrow> kept_gr d tot z1 n"
proof (induction S q s rule: ps_cascade_gr.induct)
  case (1 S q s)
  let ?p = "ps_pump_gr q"
  show ?case
  proof (cases "pu_off ?p = pu_zone ?p \<and> ps_mode_gr q = MHead \<and> carry_is_empty (pu_carry ?p) \<and> (\<exists>prev f rest. ps_stack_gr q = ExLen prev f # rest)")
    case False
    with 1(2,3) show ?thesis
      by (auto simp: ps_cascade_gr.simps [of S q s] ps_fault_gr_def split: if_splits list.splits extent_gr.splits)
  next
    case True
    then obtain prev f rest where c: "pu_off ?p = pu_zone ?p" "ps_mode_gr q = MHead" "carry_is_empty (pu_carry ?p)"
      "ps_stack_gr q = ExLen prev f # rest" by blast
    let ?q = "q\<lparr>ps_stack_gr := rest, ps_pump_gr := ?p\<lparr>pu_zone := prev\<rparr>\<rparr>"
    obtain s' ex where t: "on_len_exit_gr S f (pu_off ?p) s = (s', ex)" by (cases "on_len_exit_gr S f (pu_off ?p) s")
    have k: "kept_gr d tot (?q, s') n" using 1(3) c(4) by (simp add: kept_gr_def)
    show ?thesis
    proof (cases ex)
      case (Break u)
      with 1(2) c t k show ?thesis by (auto simp: ps_cascade_gr.simps [of S q s] ps_event_gr_def)
    next
      case (Continue u)
      with 1(2) c t have r: "ps_cascade_gr S ?q s' = Some (z1, fl)"
        by (simp add: ps_cascade_gr.simps [of S q s] ps_event_gr_def)
      show ?thesis by (rule 1(1)) (use c t Continue r k in \<open>auto simp: ps_event_gr_def\<close>)
    qed
  qed
qed


section \<open>The loop keeps them\<close>

lemma feed_kept_gr:
  assumes r: "ps_ready_gr m z (length x)" and f: "ps_feed_gr S z x = Some (z1, r)" and k: "kept_gr d tot z (length x)"
  shows "\<exists>n. kept_gr d tot z1 n \<and> (r = Inr FlowMore \<longrightarrow> n = 0)"
proof -
  from f obtain w where d: "ps_drive_gr S m (ps_start_gr z) x = Some (w, r)" "z1 = ps_fin_gr w r"
    unfolding ps_feed_drive_gr [OF r] by auto
  have "\<exists>n. kept_gr d tot w n \<and> (r = Inr FlowMore \<longrightarrow> n = 0)"
  proof (rule pf.drive_keeps [where K = "kept_gr d tot"])
    show "kept_gr d tot w n" if "ps_due_gr S z = Some (w, fl)" "kept_gr d tot z n" for z w fl n
      using that cascade_kept_gr [of S "fst z" "snd z"] by (simp add: ps_due_gr_def)
    show "ps_ok_gr m (ps_start_gr z) (length x)" using r by (simp add: ps_ready_gr_def)
    show "drive_loop (ps_due_gr S) (ps_turn_gr S m) (Inr FlowMore) (ps_start_gr z) x = Some (w, r)"
      using d(1) by (simp add: ps_drive_gr_def)
  qed (use k in \<open>auto intro: turn_kept_gr\<close>)
  with d(2) show ?thesis by simp
qed

lemma feed_all_kept_gr:
  "ps_ready_gr m z (length (concat xs)) \<Longrightarrow> kept_gr d (pu_off (ps_pump_gr (fst z))) z 0 \<Longrightarrow>
   feed_all (ps_feed_gr S) (Inr FlowMore) z xs = Some (z1, r) \<Longrightarrow>
   \<exists>n. kept_gr d (pu_off (ps_pump_gr (fst z)) + length (concat xs)) z1 n \<and> (r = Inr FlowMore \<longrightarrow> n = 0)"
proof (induction xs arbitrary: z)
  case (Cons x xs)
  let ?o = "pu_off (ps_pump_gr (fst z))"
  have rd: "ps_ready_gr m z (length x + length (concat xs))" "ps_ready_gr m z (length x)"
    using Cons.prems(1) pf.ready_room [OF Cons.prems(1), of "length x"] by simp_all
  obtain z2 q where f: "ps_feed_gr S z x = Some (z2, q)" "q = Inr FlowMore \<longrightarrow> ps_ready_gr m z2 (length (concat xs))"
    using pf.feed_returns [OF rd] by blast
  have k: "kept_gr d (?o + length x) z (length x)" using Cons.prems(2) by (simp add: kept_gr_def)
  from feed_kept_gr [OF rd(2) f(1) k] obtain n where n: "kept_gr d (?o + length x) z2 n" "q = Inr FlowMore \<longrightarrow> n = 0" by blast
  show ?case
  proof (cases "q = Inr FlowMore")
    case True
    with n have k2: "kept_gr d (pu_off (ps_pump_gr (fst z2))) z2 0" and o: "pu_off (ps_pump_gr (fst z2)) = ?o + length x"
      by (simp_all add: kept_gr_def)
    from True f Cons.prems(3) have "feed_all (ps_feed_gr S) (Inr FlowMore) z2 xs = Some (z1, r)" by simp
    from Cons.IH [OF _ k2 this] f(2) True o show ?thesis by (simp add: add.assoc)
  next
    case False
    with n f Cons.prems(3) show ?thesis
      by (intro exI [of _ "n + length (concat xs)"]) (auto simp: kept_gr_def)
  qed
qed auto

section \<open>Sessions\<close>

text \<open>A whole stream, chunk by chunk, and its end: the offset reached, the sink's state, and the verdict
  (\<open>FlowMore\<close> where \<open>finish\<close> accepts).\<close>

definition ps_session_gr ::
  "'s sink_gr \<Rightarrow> standard \<Rightarrow> depth_limit \<Rightarrow> 's \<Rightarrow> bytes list \<Rightarrow> (nat \<times> 's \<times> ps_result_gr) option" where
  "ps_session_gr S standard depth s chunks =
     do { ((q, s), r) \<leftarrow> feed_all (ps_feed_gr S) (Inr FlowMore) (ps_new_gr standard depth, s) chunks;
          (case r of
             Inr FlowMore \<Rightarrow> do { v \<leftarrow> ps_finish_gr q; Some (ps_offset_gr q, s, map_sum id (\<lambda>_. FlowMore) v) }
           | _ \<Rightarrow> Some (ps_offset_gr q, s, r)) }"

lemma ps_new_ready_gr: "n < u64_max \<Longrightarrow> ps_ready_gr (standard = CanonicalMinimal) (ps_new_gr standard depth, s) n"
  by (cases standard)
    (simp_all add: ps_ready_gr_def ps_ok_gr_def ps_room_gr_def pump_room_def ps_new_gr_def pump_new_def ps_start_gr_def ps_latch_gr_def
      standard_of_def carry_open_new)

lemma ps_new_kept_gr: "kept_gr depth 0 (ps_new_gr standard depth, s) 0"
  by (simp add: kept_gr_def ps_new_gr_def pump_new_def)

lemma ps_finish_returns_gr: "\<not> pu_terminal (ps_pump_gr q) \<Longrightarrow> \<exists>v. ps_finish_gr q = Some v"
  by (cases "ps_mode_gr q") (auto simp: ps_finish_gr_def Let_def split: list.splits extent_gr.splits)

lemma new_pump_gr [simp]: "pu_off (ps_pump_gr (ps_new_gr standard depth)) = 0"
  by (simp add: ps_new_gr_def pump_new_def)

text \<open>An empty chunk changes nothing in a new parser.\<close>

lemma ps_feed_nil_gr: "ps_feed_gr S (ps_new_gr standard depth, s) [] = Some ((ps_new_gr standard depth, s), Inr FlowMore)"
proof -
  let ?z = "(ps_new_gr standard depth, s)"
  have rd: "ps_ready_gr (standard = CanonicalMinimal) ?z (length [])" by (rule ps_new_ready_gr) (simp add: u64_max_def)
  have "ps_due_gr S (ps_start_gr ?z) = Some (ps_start_gr ?z, Continue ())"
    by (rule due_quiet_gr) (simp add: ps_start_gr_def ps_latch_gr_def ps_new_gr_def pump_new_def u64_max_def)
  then show ?thesis
    unfolding ps_feed_drive_gr [OF rd] ps_drive_gr_def
    by (simp add: pf.drive_steps) (simp add: ps_fin_gr_def ps_start_gr_def ps_latch_gr_def ps_new_gr_def pump_new_def)
qed

text \<open>Where the stream is cut does not matter to a sink that gathers.\<close>

lemma ps_session_cut_gr:
  assumes "length (concat chunks) < u64_max" and "gathers_gr S"
  shows "\<exists>out. ps_session_gr S standard depth s chunks = Some out \<and> ps_session_gr S standard depth s [concat chunks] = Some out"
proof (cases "chunks = []")
  case True
  obtain v where "ps_finish_gr (ps_new_gr standard depth) = Some v"
    using ps_finish_returns_gr [of "ps_new_gr standard depth"] by (auto simp: ps_new_gr_def pump_new_def)
  with True show ?thesis by (simp add: ps_session_gr_def ps_feed_nil_gr)
next
  case False
  let ?m = "standard = CanonicalMinimal" and ?z = "(ps_new_gr standard depth, s)"
  note rd = ps_new_ready_gr [OF assms(1), of standard depth s]
  from pf.feed_all_concat [OF assms(2) rd False] obtain q1 s1 q2 s2 r where
    f: "feed_all (ps_feed_gr S) (Inr FlowMore) ?z chunks = Some ((q1, s1), r)" "ps_feed_gr S ?z (concat chunks) = Some ((q2, s2), r)"
    "ps_alike_gr (q1, s1) (q2, s2)" "r = Inr FlowMore \<longrightarrow> q1 = q2" by (auto simp: same_drive_def)
  from f(3) have a: "s1 = s2" "ps_offset_gr q1 = ps_offset_gr q2" by (simp_all add: ps_alike_gr_def ps_offset_gr_def)
  have w: "feed_all (ps_feed_gr S) (Inr FlowMore) ?z [concat chunks] = Some ((q2, s2), r)" using f(2) by simp
  show ?thesis
  proof (cases "r = Inr FlowMore")
    case False
    with f(1) w a show ?thesis by (auto simp: ps_session_gr_def split: sum.splits flow.splits)
  next
    case True
    with pf.feed_all_returns [OF rd, of S] f(1) have "ps_ready_gr ?m (q1, s1) 0" by auto
    then obtain v where "ps_finish_gr q1 = Some v" using ps_finish_returns_gr by (auto simp: ps_ready_gr_def)
    with f(1) w a True show ?thesis using f(4) by (simp add: ps_session_gr_def)
  qed
qed

section \<open>Properties\<close>

text \<open>C18: Whatever the sink does, a session of the grouped parser returns, on every stream short of the coordinate
  space and however it is cut; its stack never outgrows the depth limit, its offset never the stream; and
  a feed sequence that ends wanting more has consumed every byte and may be asked to finish.\<close>

theorem parser_returns_gr:
  assumes "length (concat chunks) < u64_max"
  shows "\<exists>q s' r. feed_all (ps_feed_gr S) (Inr FlowMore) (ps_new_gr standard depth, s) chunks = Some ((q, s'), r) \<and>
    length (ps_stack_gr q) \<le> unat depth \<and> ps_offset_gr q \<le> length (concat chunks) \<and>
    (r = Inr FlowMore \<longrightarrow> ps_offset_gr q = length (concat chunks) \<and> (\<exists>v. ps_finish_gr q = Some v))"
proof -
  let ?z = "(ps_new_gr standard depth, s)"
  note rd = ps_new_ready_gr [OF assms, of standard depth s]
  from pf.feed_all_returns [OF rd] obtain z r where f: "feed_all (ps_feed_gr S) (Inr FlowMore) ?z chunks = Some (z, r)"
    "r = Inr FlowMore \<longrightarrow> ps_ready_gr (standard = CanonicalMinimal) z 0" by blast
  have "kept_gr depth (pu_off (ps_pump_gr (fst ?z))) ?z 0" using ps_new_kept_gr [of depth standard s] by simp
  from feed_all_kept_gr [OF rd this f(1)] obtain n where "kept_gr depth (length (concat chunks)) z n" "r = Inr FlowMore \<longrightarrow> n = 0"
    by auto
  with f ps_finish_returns_gr show ?thesis
    by (cases z) (auto simp: kept_gr_def ps_offset_gr_def ps_ready_gr_def)
qed

lemma parser_returns_gr_witness:
  "\<exists>q s' r. feed_all (ps_feed_gr unit_sink_gr) (Inr FlowMore) (ps_new_gr Tolerant 100, ()) [[0x0B, 0x08], [0x01]] = Some ((q, s'), r) \<and>
     length (ps_stack_gr q) \<le> unat (100 :: depth_limit) \<and> ps_offset_gr q \<le> length (concat [[0x0B, 0x08], [0x01]] :: bytes) \<and>
     (r = Inr FlowMore \<longrightarrow> ps_offset_gr q = length (concat [[0x0B, 0x08], [0x01]] :: bytes) \<and> (\<exists>v. ps_finish_gr q = Some v))"
  by (rule parser_returns_gr) (simp add: u64_max_def)

text \<open>C19: For a sink that gathers (it never stops at a segment, and two segments are one), where the stream is cut
  does not matter: the sink's final state, the verdict (the fault and its coordinate included) and the offset are
  those of the whole stream in one feed.\<close>

theorem parser_chunks_gr:
  assumes "length (concat chunks) < u64_max" and "gathers_gr S"
  shows "\<exists>out. ps_session_gr S standard depth s chunks = Some out \<and> ps_session_gr S standard depth s [concat chunks] = Some out"
  by (rule ps_session_cut_gr [OF assms])

lemma default_gathers_gr: "gathers_gr default_sink_gr"
  by (simp add: gathers_gr_def default_sink_gr_def)

lemma parser_chunks_gr_witness:
  "\<exists>out. ps_session_gr default_sink_gr Tolerant 100 (0 :: nat) [[0x0B, 0x0A, 2], [], [7, 7, 0x0C]] = Some out \<and>
     ps_session_gr default_sink_gr Tolerant 100 (0 :: nat) [concat [[0x0B, 0x0A, 2], [], [7, 7, 0x0C]]] = Some out"
  by (rule parser_chunks_gr) (simp_all add: u64_max_def default_gathers_gr)

end
