(* ===== verification/Stream_Grouped.thy ===== *)
theory Stream_Grouped
  imports Session_Grouped Reading
begin

text \<open>
  What the grouped parser means, without chunks, carries or modes: a stream is a sequence of tokens, each
  spelled out whole inside the innermost sealed extent, and the sink hears them in order; a committed LEN
  seals an extent and its bytes are read as records. \<open>stream_gr S m limit at zone st s x s'\<close> says that
  from coordinate \<open>at\<close> under the extents \<open>st\<close>, the bytes \<open>x\<close> are a lawful rest of a stream that takes the
  sink from \<open>s\<close> to \<open>s'\<close>. The parser is proved to accept exactly these streams.
\<close>

section \<open>The token-level meaning\<close>

definition lawful_tok :: "bool \<Rightarrow> token \<Rightarrow> bool" where
  "lawful_tok m t \<longleftrightarrow> tok_ok t \<and> (m \<longrightarrow> tok_minimal t)"

inductive stream_gr ::
  "'s sink_gr \<Rightarrow> bool \<Rightarrow> nat \<Rightarrow> nat \<Rightarrow> nat \<Rightarrow> extent_gr list \<Rightarrow> 's \<Rightarrow> bytes \<Rightarrow> 's \<Rightarrow> bool" for S m limit where
  ended: "stream_gr S m limit at zone [] s [] s"
| closed: "on_len_exit_gr S f at s = (s1, Continue ()) \<Longrightarrow> stream_gr S m limit at prev st s1 x s2 \<Longrightarrow>
    stream_gr S m limit at at (ExLen prev f # st) s x s2"
| varint: "t = Token f w (PVarint v l) \<Longrightarrow> lawful_tok m t \<Longrightarrow> at + length (emit_tok t) \<le> zone \<Longrightarrow>
    on_varint_gr S f v s = (s1, Continue ()) \<Longrightarrow> stream_gr S m limit (at + length (emit_tok t)) zone st s1 x s2 \<Longrightarrow>
    stream_gr S m limit at zone st s (emit_tok t @ x) s2"
| i64: "t = Token f w (PI64 v) \<Longrightarrow> lawful_tok m t \<Longrightarrow> at + length (emit_tok t) \<le> zone \<Longrightarrow>
    on_i64_gr S f v s = (s1, Continue ()) \<Longrightarrow> stream_gr S m limit (at + length (emit_tok t)) zone st s1 x s2 \<Longrightarrow>
    stream_gr S m limit at zone st s (emit_tok t @ x) s2"
| i32: "t = Token f w (PI32 v) \<Longrightarrow> lawful_tok m t \<Longrightarrow> at + length (emit_tok t) \<le> zone \<Longrightarrow>
    on_i32_gr S f v s = (s1, Continue ()) \<Longrightarrow> stream_gr S m limit (at + length (emit_tok t)) zone st s1 x s2 \<Longrightarrow>
    stream_gr S m limit at zone st s (emit_tok t @ x) s2"
| enter: "t = Token f w PEnter \<Longrightarrow> lawful_tok m t \<Longrightarrow> at + length (emit_tok t) \<le> zone \<Longrightarrow> length st < limit \<Longrightarrow>
    on_group_enter_gr S f (at + w) s = (s1, Continue ()) \<Longrightarrow>
    stream_gr S m limit (at + length (emit_tok t)) zone (ExGroup f # st) s1 x s2 \<Longrightarrow>
    stream_gr S m limit at zone st s (emit_tok t @ x) s2"
| exit: "t = Token f w PExit \<Longrightarrow> lawful_tok m t \<Longrightarrow> at + length (emit_tok t) \<le> zone \<Longrightarrow>
    on_group_exit_gr S f at s = (s1, Continue ()) \<Longrightarrow>
    stream_gr S m limit (at + length (emit_tok t)) zone st s1 x s2 \<Longrightarrow>
    stream_gr S m limit at zone (ExGroup f # st) s (emit_tok t @ x) s2"
| skipped: "t = Token f w (PLen bs l) \<Longrightarrow> lawful_tok m t \<Longrightarrow> at + length (emit_tok t) \<le> zone \<Longrightarrow>
    on_len_gr S f (of_nat (length bs)) (at + w + l) s = (s1, Continue OpaqueSkip) \<Longrightarrow>
    stream_gr S m limit (at + length (emit_tok t)) zone st s1 x s2 \<Longrightarrow>
    stream_gr S m limit at zone st s (emit_tok t @ x) s2"
| handed: "t = Token f w (PLen bs l) \<Longrightarrow> lawful_tok m t \<Longrightarrow> at + length (emit_tok t) \<le> zone \<Longrightarrow>
    on_len_gr S f (of_nat (length bs)) (at + w + l) s = (s0, Continue OpaqueBytes) \<Longrightarrow>
    (if bs = [] then s1 = s0 else on_segment_gr S bs s0 = (s1, Continue ())) \<Longrightarrow>
    stream_gr S m limit (at + length (emit_tok t)) zone st s1 x s2 \<Longrightarrow>
    stream_gr S m limit at zone st s (emit_tok t @ x) s2"
| committed: "t = Token f w (PLen bs l) \<Longrightarrow> lawful_tok m t \<Longrightarrow> at + length (emit_tok t) \<le> zone \<Longrightarrow>
    on_len_gr S f (of_nat (length bs)) (at + w + l) s = (s1, Continue Commit) \<Longrightarrow> length st < limit \<Longrightarrow>
    stream_gr S m limit (at + w + l) (at + length (emit_tok t)) (ExLen zone f # st) s1 (bs @ x) s2 \<Longrightarrow>
    stream_gr S m limit at zone st s (emit_tok t @ x) s2"

section \<open>What a fresh step reads\<close>

context spelled
begin

lemma pump_reads_iff:
  assumes "pu_carry p = carry_new" "pu_off p \<le> pu_zone p"
  shows "pump_step step minimal standard p x = Some (p', x', PvDone v) \<longleftrightarrow>
    (\<exists>w. 0 < w \<and> w \<le> cap \<and> unat v < 128 ^ w \<and> x = enc w (unat v) @ x' \<and> pu_off p + w \<le> pu_zone p \<and>
      (standard = CanonicalMinimal \<longrightarrow> w = minimal v) \<and> p' = p\<lparr>pu_carry := carry_new, pu_off := pu_off p + w\<rparr>)"
proof -
  have "pump_step step minimal standard p x = Some (p', x', PvDone v) \<longleftrightarrow>
      (\<exists>off1 w. (\<exists>c1. step carry_new x (pu_off p) (pu_zone p) = Some (c1, x', off1, StDone v) \<and> carry_len c1 = w) \<and>
        (standard = CanonicalMinimal \<longrightarrow> w = minimal v) \<and> p' = p\<lparr>pu_carry := carry_new, pu_off := off1\<rparr>)"
    by (cases "step carry_new x (pu_off p) (pu_zone p)")
      (auto simp: pump_step_def held_def assms(1) width_padded_def split: step.splits if_splits)
  then show ?thesis unfolding fresh_done_iff [OF assms(2)] by auto
qed

end

section \<open>States between constructs\<close>

text \<open>The parser \<open>q\<close> moved to a coordinate, a zone, a stack of extents and a mode, no construct in flight.\<close>

definition ps_at_gr :: "parser_gr \<Rightarrow> nat \<Rightarrow> nat \<Rightarrow> extent_gr list \<Rightarrow> mode \<Rightarrow> parser_gr" where
  "ps_at_gr q at zone st mode =
     q\<lparr>ps_pump_gr := (ps_pump_gr q)\<lparr>pu_carry := carry_new, pu_off := at, pu_zone := zone\<rparr>, ps_stack_gr := st, ps_mode_gr := mode\<rparr>"

lemma at_fields_gr [simp]:
  "pu_carry (ps_pump_gr (ps_at_gr q at zone st md)) = carry_new" "pu_off (ps_pump_gr (ps_at_gr q at zone st md)) = at"
  "pu_zone (ps_pump_gr (ps_at_gr q at zone st md)) = zone" "ps_stack_gr (ps_at_gr q at zone st md) = st"
  "ps_mode_gr (ps_at_gr q at zone st md) = md" "ps_depth_gr (ps_at_gr q at zone st md) = ps_depth_gr q"
  "pu_terminal (ps_pump_gr (ps_at_gr q at zone st md)) = pu_terminal (ps_pump_gr q)"
  "pu_standard (ps_pump_gr (ps_at_gr q at zone st md)) = pu_standard (ps_pump_gr q)"
  by (simp_all add: ps_at_gr_def)

lemma at_updates_gr [simp]:
  "(ps_at_gr q at zone st md)\<lparr>ps_mode_gr := md'\<rparr> = ps_at_gr q at zone st md'"
  "(ps_at_gr q at zone st md)\<lparr>ps_stack_gr := st'\<rparr> = ps_at_gr q at zone st' md"
  "(ps_at_gr q at zone st md)\<lparr>ps_pump_gr := (ps_pump_gr (ps_at_gr q at zone st md))\<lparr>pu_carry := carry_new, pu_off := at'\<rparr>\<rparr> =
     ps_at_gr q at' zone st md"
  "(ps_at_gr q at zone st md)\<lparr>ps_pump_gr := (ps_pump_gr (ps_at_gr q at zone st md))\<lparr>pu_zone := zone'\<rparr>\<rparr> = ps_at_gr q at zone' st md"
  "(ps_at_gr q at zone st md)\<lparr>ps_pump_gr := (ps_pump_gr (ps_at_gr q at zone st md))\<lparr>pu_off := at'\<rparr>\<rparr> = ps_at_gr q at' zone st md"
  "(ps_at_gr q at zone st md)\<lparr>ps_stack_gr := st', ps_pump_gr := (ps_pump_gr (ps_at_gr q at zone st md))\<lparr>pu_zone := zone'\<rparr>\<rparr> =
     ps_at_gr q at zone' st' md"
  by (simp_all add: ps_at_gr_def)

section \<open>What each arm does when it goes on\<close>

lemma halt_stops_gr [simp]: "ps_halt_gr z x at kind \<noteq> Some (z', x', Continue ())" "ps_halt_gr z x at kind \<noteq> Some (z', x', Break (Inr r))"
  by (simp_all add: halt_eq_gr)

lemma told_iff_gr:
  "ps_told_gr q x out = Some (z', x', Continue ()) \<longleftrightarrow> (\<exists>s1. out = (s1, Continue ()) \<and> z' = (q, s1) \<and> x' = x)"
  by (cases out) (auto simp: ps_told_gr_def ps_event_gr_def split: control_flow.splits)

lemma told_not_more_gr [simp]: "ps_told_gr q x out \<noteq> Some (z', x', Break (Inr FlowMore))"
  by (auto simp: ps_told_gr_def ps_event_gr_def split: control_flow.splits)

lemma word_op_iff_gr:
  "word_op_gr step minimal m st md go z x = Some (z', x', Continue ()) \<longleftrightarrow>
     (\<exists>p x1 w. pump_step step minimal (standard_of m) (pump_of_gr z) x = Some (p, x1, PvDone w) \<and>
        go w (put_gr p z) x1 = Some (z', x', Continue ()))"
  by (cases "pump_step step minimal (standard_of m) (pump_of_gr z) x")
    (auto simp: word_op_gr_def split: pump_verdict.splits bind_splits)

lemma put_at_gr:
  "put_gr ((ps_pump_gr (ps_at_gr q at zone st md))\<lparr>pu_carry := carry_new, pu_off := at'\<rparr>) (ps_at_gr q at zone st md, s) =
     (ps_at_gr q at' zone st md, s)"
  by (simp add: put_gr_def)

context spelled
begin

lemma word_at_iff_gr:
  assumes "at \<le> zone"
  shows "word_op_gr step minimal m stage mode go (ps_at_gr q at zone st md, s) x = Some (z', x', Continue ()) \<longleftrightarrow>
    (\<exists>v w x1. 0 < w \<and> w \<le> cap \<and> unat v < 128 ^ w \<and> x = enc w (unat v) @ x1 \<and> at + w \<le> zone \<and> (m \<longrightarrow> w = minimal v) \<and>
      go v (ps_at_gr q (at + w) zone st md, s) x1 = Some (z', x', Continue ()))"
proof -
  let ?z = "(ps_at_gr q at zone st md, s)"
  have p: "pu_carry (pump_of_gr ?z) = carry_new" "pu_off (pump_of_gr ?z) \<le> pu_zone (pump_of_gr ?z)"
    using assms by (simp_all add: pump_of_gr_def)
  define R where "R v w x1 \<longleftrightarrow> 0 < w \<and> w \<le> cap \<and> unat v < 128 ^ w \<and> x = enc w (unat v) @ x1 \<and> at + w \<le> zone \<and>
    (m \<longrightarrow> w = minimal v)" for v w x1
  let ?f = "\<lambda>w. (pump_of_gr ?z)\<lparr>pu_carry := carry_new, pu_off := at + w\<rparr>"
  have r: "pump_step step minimal (standard_of m) (pump_of_gr ?z) x = Some (p', x1, PvDone v) \<longleftrightarrow> (\<exists>w. R v w x1 \<and> p' = ?f w)"
    for p' x1 v unfolding pump_reads_iff [OF p] by (simp add: R_def pump_of_gr_def)
  have "put_gr (?f w) ?z = (ps_at_gr q (at + w) zone st md, s)" for w
    unfolding pump_of_gr_def fst_conv by (rule put_at_gr)
  then have "word_op_gr step minimal m stage mode go ?z x = Some (z', x', Continue ()) \<longleftrightarrow>
      (\<exists>v w x1. R v w x1 \<and> go v (ps_at_gr q (at + w) zone st md, s) x1 = Some (z', x', Continue ()))"
    unfolding word_op_iff_gr r by metis
  then show ?thesis by (simp add: R_def)
qed

end

lemma varint_iff_gr:
  assumes "at \<le> zone"
  shows "ps_varint_value_gr S m f (ps_at_gr q at zone st md, s) x = Some (z', x', Continue ()) \<longleftrightarrow>
    (\<exists>v l s1. payload_ok (PVarint v l) \<and> (m \<longrightarrow> payload_minimal (PVarint v l)) \<and> x = emit_payload (PVarint v l) @ x' \<and>
      at + l \<le> zone \<and> on_varint_gr S f v s = (s1, Continue ()) \<and> z' = (ps_at_gr q (at + l) zone st MHead, s1))"
  unfolding varint_op_gr value_spelled.word_at_iff_gr [OF assms] told_iff_gr by (simp add: prod_eq_iff) blast

text \<open>Where a token's head leaves the parser, with the sink told; \<open>at\<close> is past the payload's head.\<close>

fun arm_gr ::
  "'s sink_gr \<Rightarrow> parser_gr \<Rightarrow> field_number \<Rightarrow> nat \<Rightarrow> nat \<Rightarrow> nat \<Rightarrow> extent_gr list \<Rightarrow> 's \<Rightarrow> payload \<Rightarrow> 's ps_state_gr option" where
  "arm_gr S q f start at zone st s (PVarint v l) =
     (case on_varint_gr S f v s of (s1, Continue _) \<Rightarrow> Some (ps_at_gr q at zone st MHead, s1) | _ \<Rightarrow> None)"
| "arm_gr S q f start at zone st s (PI64 v) =
     (case on_i64_gr S f v s of (s1, Continue _) \<Rightarrow> Some (ps_at_gr q at zone st MHead, s1) | _ \<Rightarrow> None)"
| "arm_gr S q f start at zone st s (PI32 v) =
     (case on_i32_gr S f v s of (s1, Continue _) \<Rightarrow> Some (ps_at_gr q at zone st MHead, s1) | _ \<Rightarrow> None)"
| "arm_gr S q f start at zone st s (PLen bs l) =
     (case on_len_gr S f (of_nat (length bs)) at s of
        (s1, Continue Commit) \<Rightarrow>
          if length st < unat (ps_depth_gr q) then Some (ps_at_gr q at (at + length bs) (ExLen zone f # st) MHead, s1) else None
      | (s1, Continue OpaqueBytes) \<Rightarrow> Some (ps_at_gr q at zone st (counted MHead MForward (of_nat (length bs))), s1)
      | (s1, Continue OpaqueSkip) \<Rightarrow> Some (ps_at_gr q at zone st (counted MHead MSwallow (of_nat (length bs))), s1)
      | _ \<Rightarrow> None)"
| "arm_gr S q f start at zone st s PEnter =
     (if length st < unat (ps_depth_gr q)
      then (case on_group_enter_gr S f at s of (s1, Continue _) \<Rightarrow> Some (ps_at_gr q at zone (ExGroup f # st) MHead, s1) | _ \<Rightarrow> None)
      else None)"
| "arm_gr S q f start at zone st s PExit =
     (case st of
        ExGroup g # st' \<Rightarrow>
          if g = f
          then (case on_group_exit_gr S f start s of (s1, Continue _) \<Rightarrow> Some (ps_at_gr q at zone st' MHead, s1) | _ \<Rightarrow> None)
          else None
      | _ \<Rightarrow> None)"

lemma len_done_iff_gr:
  assumes "at \<le> zone" "length bs < 2 ^ 31"
  shows "ps_len_done_gr S f (of_nat (length bs)) (ps_at_gr q at zone st MHead, s) x = Some (z', x', Continue ()) \<longleftrightarrow>
    at + length bs \<le> zone \<and> at + length bs < u64_max \<and> x' = x \<and> arm_gr S q f start at zone st s (PLen bs l) = Some z'"
proof -
  have n: "usize_of (of_nat (length bs)) = length bs" "len_inner (of_nat (length bs)) = of_nat (length bs)"
    using assms(2) by (simp_all add: usize_of_def unat_of_nat len_inner_of_nat)
  show ?thesis
    by (cases "on_len_gr S f (of_nat (length bs)) at s")
      (auto simp: ps_len_done_gr_def Let_def n ps_ask_gr_def ps_at_gr_def split: control_flow.splits len_disposition.splits)
qed

lemma len_iff_gr:
  assumes "at \<le> zone"
  shows "ps_len_word_gr S m f (ps_at_gr q at zone st MHead, s) x = Some (z', x', Continue ()) \<longleftrightarrow>
    (\<exists>bs l. payload_ok (PLen bs l) \<and> (m \<longrightarrow> payload_minimal (PLen bs l)) \<and> x = pay_head (PLen bs l) @ x' \<and>
      at + length (emit_payload (PLen bs l)) \<le> zone \<and> at + length (emit_payload (PLen bs l)) < u64_max \<and>
      arm_gr S q f start (at + l) zone st s (PLen bs l) = Some z')" (is "?L \<longleftrightarrow> ?R")
proof
  assume ?L
  then obtain len :: payload_len and w x1 where a: "0 < w" "w \<le> 5" "unat len < 128 ^ w" "x = enc w (unat len) @ x1" "at + w \<le> zone"
      "m \<longrightarrow> w = len_minimal len"
      and d: "ps_len_done_gr S f len (ps_at_gr q (at + w) zone st MHead, s) x1 = Some (z', x', Continue ())"
    unfolding len_op_gr len_spelled.word_at_iff_gr [OF assms] by (elim exE conjE) (rule that, simp_all)
  define bs :: bytes where "bs = replicate (unat len) 0"
  have b: "length bs < 2 ^ 31" "len = of_nat (length bs)" "len_inner len = of_nat (length bs)" "length bs = unat len"
    using unat_len_less [of len] by (simp_all add: bs_def len_inner_def)
  from d have e: "at + w + length bs \<le> zone" "at + w + length bs < u64_max" "x' = x1"
      "arm_gr S q f start (at + w) zone st s (PLen bs w) = Some z'"
    unfolding b(2) len_done_iff_gr [OF a(5) b(1), where start = start and l = w] by blast+
  from e(1,2,4) a b(1,3,4) show ?R unfolding e(3) by (intro exI [of _ bs] exI [of _ w]) (simp add: add.assoc del: arm_gr.simps)
next
  assume ?R
  then obtain bs l where a: "0 < l" "l \<le> 5" "length bs < 128 ^ l" "length bs < 2 ^ 31" "m \<longrightarrow> l = encoded_len32 (of_nat (length bs))"
      "x = enc l (length bs) @ x'" "at + l + length bs \<le> zone" "at + l + length bs < u64_max"
      "arm_gr S q f start (at + l) zone st s (PLen bs l) = Some z'" by (auto simp del: arm_gr.simps)
  define len :: payload_len where "len = of_nat (length bs)"
  have b: "unat len = length bs" "len_inner len = of_nat (length bs)"
    using a(4) by (simp_all add: len_def unat_of_nat_len len_inner_of_nat)
  have z: "at + l \<le> zone" using a(7) by simp
  have d: "ps_len_done_gr S f len (ps_at_gr q (at + l) zone st MHead, s) x' = Some (z', x', Continue ())"
    unfolding len_def len_done_iff_gr [OF z a(4), where start = start and l = l] using a by simp
  show ?L unfolding len_op_gr len_spelled.word_at_iff_gr [OF assms]
    by (intro exI [of _ len] exI [of _ l] exI [of _ x']) (use a b z d in simp)
qed

lemma bytes_first:
  "(\<exists>bs s1. length bs = n \<and> x = bs @ x' \<and> Q bs s1) \<longleftrightarrow> n \<le> length x \<and> x' = drop n x \<and> (\<exists>s1. Q (take n x) s1)"
  "(\<exists>bs. length bs = n \<and> x = bs @ x' \<and> R bs) \<longleftrightarrow> n \<le> length x \<and> x' = drop n x \<and> R (take n x)"
  by (auto simp: append_eq_conv_conj intro!: exI [of _ "take n x"])

lemma fixed_iff_gr:
  assumes "at \<le> zone"
  shows "do { room \<leftarrow> usub zone at;
      if room < fixed_need kind then ps_halt_gr (ps_at_gr q at zone st MHead, s) x at (SrFixedOverrun f)
      else ps_fixed_tail_gr S f kind (ps_at_gr q at zone st MHead, s) x } = Some (z', x', Continue ()) \<longleftrightarrow>
    (\<exists>bs s1. length bs = fixed_need kind \<and> x = bs @ x' \<and> at + fixed_need kind \<le> zone \<and>
      (case kind of FixI32 \<Rightarrow> on_i32_gr S f (of_nat (le_nat bs)) s | FixI64 \<Rightarrow> on_i64_gr S f (of_nat (le_nat bs)) s) = (s1, Continue ()) \<and>
      z' = (ps_at_gr q (at + fixed_need kind) zone st MHead, s1))"
proof -
  let ?n = "fixed_need kind" and ?p = "ps_pump_gr (ps_at_gr q at zone st MHead)"
  have n: "0 < ?n" "?n \<le> 10" by (cases kind; simp)+
  have room: "usub zone at = Some (zone - at)" using assms by (simp add: usub_def)
  show ?thesis
  proof (cases "at + ?n \<le> zone")
    case False
    with assms have "zone - at < ?n" by linarith
    with False show ?thesis by (simp add: room)
  next
    case True
    have "fixed_open ?n (pu_carry ?p)" using n by (simp add: fixed_open_def)
    from pump_grab_eq [OF this n(2), of x] True
    have g: "pump_grab_fixed ?n ?p x =
        (if ?n \<le> length x then Some (?p\<lparr>pu_carry := carry_new, pu_off := at + ?n\<rparr>, drop ?n x, Some (take ?n x))
         else Some (?p\<lparr>pu_carry := carry_new\<lparr>cbuf := x\<rparr>, pu_off := at + length x\<rparr>, [], None))"
      by (simp add: Let_def)
    show ?thesis
    proof (cases "?n \<le> length x")
      case nle: False
      then show ?thesis using True by (auto simp: room ps_fixed_tail_gr_def g)
    next
      case le: True
      have "ps_fixed_tail_gr S f kind (ps_at_gr q at zone st MHead, s) x = Some (z', x', Continue ()) \<longleftrightarrow>
          x' = drop ?n x \<and> (\<exists>s1. (case kind of FixI32 \<Rightarrow> on_i32_gr S f (of_nat (le_nat (take ?n x))) s
             | FixI64 \<Rightarrow> on_i64_gr S f (of_nat (le_nat (take ?n x))) s) = (s1, Continue ()) \<and> z' = (ps_at_gr q (at + ?n) zone st MHead, s1))"
        using le by (auto simp: ps_fixed_tail_gr_def g Let_def told_iff_gr)
      moreover have "\<not> zone - at < ?n" using True by linarith
      ultimately show ?thesis using True le by (simp add: room bytes_first)
    qed
  qed
qed

lemma ex_u64: "(\<exists>bs. length bs = 8 \<and> P bs) \<longleftrightarrow> (\<exists>v :: u64. P (le_bytes 8 (unat v)))"
  using spells_u64 by (metis length_le_bytes)

lemma ex_u32: "(\<exists>bs. length bs = 4 \<and> P bs) \<longleftrightarrow> (\<exists>v :: u32. P (le_bytes 4 (unat v)))"
  using spells_u32 by (metis length_le_bytes)

lemma le_nat_word [simp]: "of_nat (le_nat (le_bytes 8 (unat v))) = (v :: u64)" "of_nat (le_nat (le_bytes 4 (unat w))) = (w :: u32)"
  using unsigned_less [of v, where 'a = nat] unsigned_less [of w, where 'a = nat] by (simp_all add: le_nat_le_bytes)

lemma arm_fixed_iff_gr:
  "arm_gr S q f start at zone st s (PI64 v) = Some z' \<longleftrightarrow> (\<exists>s1. on_i64_gr S f v s = (s1, Continue ()) \<and> z' = (ps_at_gr q at zone st MHead, s1))"
  "arm_gr S q f start at zone st s (PI32 b) = Some z' \<longleftrightarrow> (\<exists>s1. on_i32_gr S f b s = (s1, Continue ()) \<and> z' = (ps_at_gr q at zone st MHead, s1))"
  by (cases "on_i64_gr S f v s"; auto split: control_flow.splits)
    (cases "on_i32_gr S f b s"; auto split: control_flow.splits)

lemma fixed64_iff_gr:
  "(\<exists>bs s1. length bs = 8 \<and> x = bs @ x' \<and> at + 8 \<le> zone \<and> on_i64_gr S f (of_nat (le_nat bs)) s = (s1, Continue ()) \<and>
      z' = (ps_at_gr q (at + 8) zone st MHead, s1)) \<longleftrightarrow>
   (\<exists>v. x = le_bytes 8 (unat v) @ x' \<and> at + 8 \<le> zone \<and> arm_gr S q f start (at + 8) zone st s (PI64 v) = Some z')"
  unfolding arm_fixed_iff_gr
  using ex_u64 [of "\<lambda>bs. \<exists>s1. x = bs @ x' \<and> at + 8 \<le> zone \<and> on_i64_gr S f (of_nat (le_nat bs)) s = (s1, Continue ()) \<and>
      z' = (ps_at_gr q (at + 8) zone st MHead, s1)"] by simp

lemma fixed32_iff_gr:
  "(\<exists>bs s1. length bs = 4 \<and> x = bs @ x' \<and> at + 4 \<le> zone \<and> on_i32_gr S f (of_nat (le_nat bs)) s = (s1, Continue ()) \<and>
      z' = (ps_at_gr q (at + 4) zone st MHead, s1)) \<longleftrightarrow>
   (\<exists>v. x = le_bytes 4 (unat v) @ x' \<and> at + 4 \<le> zone \<and> arm_gr S q f start (at + 4) zone st s (PI32 v) = Some z')"
  unfolding arm_fixed_iff_gr
  using ex_u32 [of "\<lambda>bs. \<exists>s1. x = bs @ x' \<and> at + 4 \<le> zone \<and> on_i32_gr S f (of_nat (le_nat bs)) s = (s1, Continue ()) \<and>
      z' = (ps_at_gr q (at + 4) zone st MHead, s1)"] by simp


text \<open>A payload the parser's standard admits.\<close>

definition pay_fit :: "bool \<Rightarrow> payload \<Rightarrow> bool" where
  "pay_fit m p \<longleftrightarrow> payload_ok p \<and> (m \<longrightarrow> payload_minimal p)"

lemma lawful_tok_Token: "lawful_tok m (Token f w p) \<longleftrightarrow>
    field_ok f \<and> 0 < w \<and> w \<le> 5 \<and> unat (tag_of f p) < 128 ^ w \<and> (m \<longrightarrow> w = encoded_len32 (tag_of f p)) \<and> pay_fit m p"
  by (auto simp: lawful_tok_def pay_fit_def)

lemma arm_varint_iff_gr:
  "arm_gr S q f start at zone st s (PVarint v l) = Some z' \<longleftrightarrow> (\<exists>s1. on_varint_gr S f v s = (s1, Continue ()) \<and> z' = (ps_at_gr q at zone st MHead, s1))"
  by (cases "on_varint_gr S f v s"; auto split: control_flow.splits)

lemma arm_group_iff_gr:
  "arm_gr S q f start at zone st s PEnter = Some z' \<longleftrightarrow> length st < unat (ps_depth_gr q) \<and>
     (\<exists>s1. on_group_enter_gr S f at s = (s1, Continue ()) \<and> z' = (ps_at_gr q at zone (ExGroup f # st) MHead, s1))"
  "arm_gr S q f start at zone st s PExit = Some z' \<longleftrightarrow>
     (\<exists>st' s1. st = ExGroup f # st' \<and> on_group_exit_gr S f start s = (s1, Continue ()) \<and> z' = (ps_at_gr q at zone st' MHead, s1))"
  by (cases "on_group_enter_gr S f at s"; auto split: control_flow.splits)
    (cases "on_group_exit_gr S f start s"; auto split: control_flow.splits list.splits extent_gr.splits if_splits)

lemma group_end_iff_gr:
  "ps_group_end_gr S f start (ps_at_gr q at zone st MHead, s) x = Some (z', x', Continue ()) \<longleftrightarrow>
     x' = x \<and> arm_gr S q f start at zone st s PExit = Some z'"
  unfolding arm_group_iff_gr
  by (cases st) (auto simp: ps_group_end_gr_def told_iff_gr split: extent_gr.splits)

lemma tagged_iff_gr:
  assumes z: "at \<le> zone" "at + length x < u64_max" and f: "FieldNumber_from_word word = Some f"
  shows "ps_tagged_gr S m start word (ps_at_gr q at zone st MHead, s) x = Some (z', x', Continue ()) \<longleftrightarrow>
    (\<exists>p. code_of p = Low3_from_word word \<and> pay_fit m p \<and> x = pay_head p @ x' \<and> at + length (emit_payload p) \<le> zone \<and>
      at + length (emit_payload p) < u64_max \<and> arm_gr S q f start (at + length (pay_head p)) zone st s p = Some z')"
    (is "_ \<longleftrightarrow> ?R (Low3_from_word word)")
proof -
  let ?k = "Low3_from_word word"
  consider "?k = 0" | "?k = 1" | "?k = 2" | "?k = 3" | "?k = 4" | "?k = 5" | "?k = 6" | "?k = 7"
    using low3_cases by blast
  then show ?thesis
  proof cases
    case 1
    have "at + w < u64_max" if "x = enc w n @ x'" for w n
      using arg_cong [OF that, of length] z(2) by simp
    then show ?thesis unfolding 1 ex_code
      by (simp add: ps_tagged_gr_def f 1 kernel_simps varint_iff_gr [OF z(1)] pay_fit_def arm_varint_iff_gr del: arm_gr.simps) blast
  next
    case 2
    have lt: "at + 8 < u64_max" if "x = le_bytes 8 n @ x'" for n
      using arg_cong [OF that, of length] z(2) by simp
    have t: "ps_tagged_gr S m start word (ps_at_gr q at zone st MHead, s) x =
        do { room \<leftarrow> usub zone at;
          if room < fixed_need FixI64 then ps_halt_gr (ps_at_gr q at zone st MHead, s) x at (SrFixedOverrun f)
          else ps_fixed_tail_gr S f FixI64 (ps_at_gr q at zone st MHead, s) x }"
      by (simp add: ps_tagged_gr_def Let_def f 2 kernel_simps cong: if_cong)
    show ?thesis
      unfolding 2 ex_code t fixed_iff_gr [OF z(1)] unfolding fixed_need.simps fixed_kind.case fixed64_iff_gr [where start = start]
      by (rule ex_cong1) (auto simp: pay_fit_def simp del: arm_gr.simps dest: lt)
  next
    case 3
    show ?thesis unfolding 3 ex_code
      by (simp add: ps_tagged_gr_def f 3 kernel_simps len_iff_gr [OF z(1), where start = start] pay_fit_def del: arm_gr.simps)
  next
    case 4
    show ?thesis unfolding 4 ex_code using z
      by (auto simp: ps_tagged_gr_def Let_def f 4 kernel_simps pay_fit_def told_iff_gr arm_group_iff_gr simp del: arm_gr.simps)
  next
    case 5
    show ?thesis unfolding 5 ex_code using z
      by (auto simp: ps_tagged_gr_def Let_def f 5 kernel_simps pay_fit_def group_end_iff_gr simp del: arm_gr.simps)
  next
    case 6
    have lt: "at + 4 < u64_max" if "x = le_bytes 4 n @ x'" for n
      using arg_cong [OF that, of length] z(2) by simp
    have t: "ps_tagged_gr S m start word (ps_at_gr q at zone st MHead, s) x =
        do { room \<leftarrow> usub zone at;
          if room < fixed_need FixI32 then ps_halt_gr (ps_at_gr q at zone st MHead, s) x at (SrFixedOverrun f)
          else ps_fixed_tail_gr S f FixI32 (ps_at_gr q at zone st MHead, s) x }"
      by (simp add: ps_tagged_gr_def Let_def f 6 kernel_simps cong: if_cong)
    show ?thesis
      unfolding 6 ex_code t fixed_iff_gr [OF z(1)] unfolding fixed_need.simps fixed_kind.case fixed32_iff_gr [where start = start]
      by (rule ex_cong1) (auto simp: pay_fit_def simp del: arm_gr.simps dest: lt)
  qed (simp_all add: ps_tagged_gr_def f kernel_simps ex_code)
qed


lemma head_iff_gr:
  assumes z: "at \<le> zone" "at + length x < u64_max"
  shows "ps_head_gr S m (ps_at_gr q at zone st MHead, s) x = Some (z', x', Continue ()) \<longleftrightarrow>
    (\<exists>f w p. lawful_tok m (Token f w p) \<and> x = enc w (unat (tag_of f p)) @ pay_head p @ x' \<and>
      at + length (emit_tok (Token f w p)) \<le> zone \<and> at + length (emit_tok (Token f w p)) < u64_max \<and>
      arm_gr S q f at (at + w + length (pay_head p)) zone st s p = Some z')" (is "?L \<longleftrightarrow> ?R")
proof -
  let ?z = "(ps_at_gr q at zone st MHead, s)"
  have start: "pump_construct_start (pump_of_gr ?z) = Some at" by (simp add: pump_start_of pump_of_gr_def)
  have head: "ps_mode_gr (fst ?z) = MHead" by simp
  note op = head_op_gr [OF start head, of S m x] tag_spelled.word_at_iff_gr [OF z(1)]
  show ?thesis
  proof
    assume ?L
    then obtain word :: u32 and w x1 where h: "0 < w" "w \<le> 5" "unat word < 128 ^ w" "x = enc w (unat word) @ x1" "at + w \<le> zone"
        "m \<longrightarrow> w = encoded_len32 word"
      and t: "ps_tagged_gr S m at word (ps_at_gr q (at + w) zone st MHead, s) x1 = Some (z', x', Continue ())"
      unfolding op by (elim exE conjE) (rule that, simp_all)
    from t obtain f where f: "FieldNumber_from_word word = Some f"
      by (cases "FieldNumber_from_word word") (auto simp: ps_tagged_gr_def)
    have room: "at + w + length x1 < u64_max" using z(2) h(4) by simp
    from t obtain p where p: "code_of p = Low3_from_word word" "pay_fit m p" "x1 = pay_head p @ x'"
        "at + w + length (emit_payload p) \<le> zone" "at + w + length (emit_payload p) < u64_max"
        "arm_gr S q f at (at + w + length (pay_head p)) zone st s p = Some z'"
      unfolding tagged_iff_gr [OF h(5) room f] by (elim exE conjE) (rule that)
    have "word = tag_of f p" "field_ok f"
      using f p(1) tag_word_from_word [of word f] field_ok_from_word [of word f] by (auto simp: tag_of_def)
    with h p show ?R
      by (intro exI [of _ f] exI [of _ w] exI [of _ p]) (simp add: lawful_tok_Token add.assoc)
  next
    assume ?R
    then obtain f w p where t: "lawful_tok m (Token f w p)" "x = enc w (unat (tag_of f p)) @ pay_head p @ x'"
        "at + w + length (emit_payload p) \<le> zone" "at + w + length (emit_payload p) < u64_max"
        "arm_gr S q f at (at + w + length (pay_head p)) zone st s p = Some z'"
      by (elim exE conjE) (rule that, simp_all add: add.assoc)
    have l: "field_ok f" "0 < w" "w \<le> 5" "unat (tag_of f p) < 128 ^ w" "m \<longrightarrow> w = encoded_len32 (tag_of f p)" "pay_fit m p"
      using t(1) by (simp_all add: lawful_tok_Token)
    have fw: "FieldNumber_from_word (tag_of f p) = Some f" "Low3_from_word (tag_of f p) = code_of p"
      using l(1) from_word_tag_word low3_tag_word by (simp_all add: tag_of_def)
    have room: "at + w \<le> zone" "at + w + length (pay_head p @ x') < u64_max" using t(2,3) z(2) by simp_all
    have "ps_tagged_gr S m at (tag_of f p) (ps_at_gr q (at + w) zone st MHead, s) (pay_head p @ x') = Some (z', x', Continue ())"
      unfolding tagged_iff_gr [OF room fw(1)] fw(2) by (intro exI [of _ p]) (use l t in simp)
    with l t room show ?L
      unfolding op by (intro exI [of _ "tag_of f p"] exI [of _ w] exI [of _ "pay_head p @ x'"]) simp
  qed
qed


section \<open>The loop between constructs\<close>

definition accepts_gr :: "('s ps_state_gr \<times> ps_result_gr) option \<Rightarrow> 's \<Rightarrow> bool" where
  "accepts_gr out s' \<longleftrightarrow> (\<exists>q. out = Some ((q, s'), Inr FlowMore) \<and> ps_finish_gr (ps_latch_gr q False) = Some (Inr ()))"

lemma finish_iff_gr:
  "ps_finish_gr (ps_latch_gr q False) = Some (Inr ()) \<longleftrightarrow>
     ps_mode_gr q = MHead \<and> carry_is_empty (pu_carry (ps_pump_gr q)) \<and> ps_stack_gr q = []"
  by (cases "ps_mode_gr q"; cases "ps_stack_gr q")
    (auto simp: ps_finish_gr_def ps_latch_gr_def Let_def split: extent_gr.splits)

lemma accepts_more_gr: "accepts_gr (Some ((q, s), Inr FlowMore)) s' \<longleftrightarrow>
    s = s' \<and> ps_mode_gr q = MHead \<and> carry_is_empty (pu_carry (ps_pump_gr q)) \<and> ps_stack_gr q = []"
  by (auto simp: accepts_gr_def finish_iff_gr)

lemma accepts_stop_gr: "r \<noteq> Inr FlowMore \<Longrightarrow> \<not> accepts_gr (Some (z, r)) s'" "\<not> accepts_gr None s'"
  by (auto simp: accepts_gr_def)

lemma drive_turn_gr:
  assumes "ps_due_gr S z = Some (z, Continue ())"
  shows "x \<noteq> [] \<Longrightarrow> ps_turn_gr S m z x = Some (z', x', Continue ()) \<Longrightarrow> ps_drive_gr S m z x = ps_drive_gr S m z' x'"
    and "x \<noteq> [] \<Longrightarrow> ps_turn_gr S m z x = Some (z', x', Break r) \<Longrightarrow> ps_drive_gr S m z x = Some (z', r)"
    and "ps_drive_gr S m z [] = Some (z, Inr FlowMore)"
  unfolding ps_drive_gr_def using pf.drive_steps(2-4) [OF assms] by blast+

lemma at_quiet_gr: "at \<noteq> zone \<or> md \<noteq> MHead \<Longrightarrow> ps_due_gr S (ps_at_gr q at zone st md, s) = Some ((ps_at_gr q at zone st md, s), Continue ())"
  by (rule due_quiet_gr) auto

lemma at_mode_gr:
  "ps_turn_gr S m (ps_at_gr q at zone st MHead, s) x = ps_head_gr S m (ps_at_gr q at zone st MHead, s) x"
  "ps_turn_gr S m (ps_at_gr q at zone st (MSwallow n), s) x = ps_swallow_gr n (ps_at_gr q at zone st (MSwallow n), s) x"
  "ps_turn_gr S m (ps_at_gr q at zone st (MForward n), s) x = ps_forward_gr S n (ps_at_gr q at zone st (MForward n), s) x"
  by (simp_all add: ps_turn_gr_def)

lemma at_ok_gr:
  "ps_ok_gr m (ps_at_gr q at zone st MHead, s) n \<longleftrightarrow>
     pu_terminal (ps_pump_gr q) \<and> pu_standard (ps_pump_gr q) = standard_of m \<and> at + n < u64_max \<and> at \<le> zone \<and>
     zones_gr st zone \<and> length st \<le> unat (ps_depth_gr q)"
  by (auto simp: ps_ok_gr_def ps_room_gr_def pump_room_def carry_open_new)

text \<open>Counted payloads.\<close>

lemma counted_left: "n \<noteq> 0 \<Longrightarrow> unat n \<le> length x \<Longrightarrow> n - count_take n x = 0" "\<not> unat n \<le> length x \<Longrightarrow> n - count_take n x \<noteq> 0"
  using unat_count_left [of n x] by (auto simp: word_eq_unat_iff)

lemma passed_at_gr: "ps_passed_gr (ps_at_gr q at zone st md) n (count_take n x) mode =
    ps_at_gr q (at + min (unat n) (length x)) zone st (counted MHead mode (n - count_take n x))"
  by (simp add: ps_passed_gr_def unat_count_take ps_at_gr_def)

lemma accepts_swallow_gr:
  "accepts_gr (ps_drive_gr S m (ps_at_gr q at zone st (counted MHead MSwallow n), s) x) s' \<longleftrightarrow>
     unat n \<le> length x \<and> accepts_gr (ps_drive_gr S m (ps_at_gr q (at + unat n) zone st MHead, s) (drop (unat n) x)) s'"
proof (cases "n = 0")
  case True
  then show ?thesis by (simp add: counted_def)
next
  case n: False
  let ?z = "(ps_at_gr q at zone st (MSwallow n), s)"
  have due: "ps_due_gr S ?z = Some (?z, Continue ())" by (rule at_quiet_gr) simp
  have n0: "unat n \<noteq> 0" using n by (simp add: unat_eq_0)
  show ?thesis
  proof (cases "x = []")
    case True
    with n n0 drive_turn_gr(3) [OF due, of m] show ?thesis by (simp add: counted_def accepts_more_gr)
  next
    case False
    let ?w = "(ps_at_gr q (at + min (unat n) (length x)) zone st (counted MHead MSwallow (n - count_take n x)), s)"
    have "ps_swallow_gr n ?z x = Some (?w, drop (min (unat n) (length x)) x, Continue ())"
      by (simp add: ps_swallow_gr_def Let_def passed_at_gr unat_count_take)
    then have d: "ps_drive_gr S m ?z x = ps_drive_gr S m ?w (drop (min (unat n) (length x)) x)"
      by (intro drive_turn_gr(1) [OF due False]) (simp add: at_mode_gr)
    show ?thesis
    proof (cases "unat n \<le> length x")
      case True
      with n d counted_left(1) [OF n True] show ?thesis by (simp add: counted_def min_absorb1)
    next
      case False
      with counted_left(2) [OF False] have w: "?w = (ps_at_gr q (at + length x) zone st (MSwallow (n - count_take n x)), s)"
        by (simp add: counted_def)
      have "ps_due_gr S ?w = Some (?w, Continue ())" unfolding w by (rule at_quiet_gr) simp
      from drive_turn_gr(3) [OF this, of m] have "ps_drive_gr S m ?w [] = Some (?w, Inr FlowMore)" .
      with False n d show ?thesis unfolding w by (simp add: counted_def accepts_more_gr)
    qed
  qed
qed

lemma accepts_forward_gr:
  "accepts_gr (ps_drive_gr S m (ps_at_gr q at zone st (counted MHead MForward n), s) x) s' \<longleftrightarrow>
     unat n \<le> length x \<and> (\<exists>s1. (if n = 0 then s1 = s else on_segment_gr S (take (unat n) x) s = (s1, Continue ())) \<and>
       accepts_gr (ps_drive_gr S m (ps_at_gr q (at + unat n) zone st MHead, s1) (drop (unat n) x)) s')"
proof (cases "n = 0")
  case True
  then show ?thesis by (simp add: counted_def)
next
  case n: False
  let ?z = "(ps_at_gr q at zone st (MForward n), s)"
  have due: "ps_due_gr S ?z = Some (?z, Continue ())" by (rule at_quiet_gr) simp
  have n0: "unat n \<noteq> 0" using n by (simp add: unat_eq_0)
  show ?thesis
  proof (cases "x = []")
    case True
    with n n0 drive_turn_gr(3) [OF due, of m] show ?thesis by (simp add: counted_def accepts_more_gr)
  next
    case False
    let ?k = "min (unat n) (length x)"
    obtain s1 fl where seg: "on_segment_gr S (take ?k x) s = (s1, fl)" by (cases "on_segment_gr S (take ?k x) s")
    let ?q = "ps_at_gr q (at + ?k) zone st (counted MHead MForward (n - count_take n x))"
    have f: "ps_forward_gr S n ?z x = ps_told_gr ?q (drop ?k x) (s1, fl)"
      by (simp add: ps_forward_gr_def Let_def passed_at_gr unat_count_take seg)
    show ?thesis
    proof (cases fl)
      case (Break u)
      have "ps_turn_gr S m ?z x = Some ((ps_latch_gr ?q True, s1), drop ?k x, Break (Inr FlowStopped))"
        unfolding at_mode_gr f by (simp add: ps_told_gr_def ps_event_gr_def Break)
      from drive_turn_gr(2) [OF due False this] n Break seg show ?thesis
        by (auto simp: counted_def accepts_stop_gr min_def split: if_splits)
    next
      case (Continue u)
      have "ps_turn_gr S m ?z x = Some ((?q, s1), drop ?k x, Continue ())"
        unfolding at_mode_gr f by (simp add: told_iff_gr Continue)
      note d = drive_turn_gr(1) [OF due False this]
      show ?thesis
      proof (cases "unat n \<le> length x")
        case True
        with n d seg Continue counted_left(1) [OF n True] show ?thesis by (simp add: counted_def min_absorb1)
      next
        case nle: False
        with counted_left(2) [OF nle] have w: "?q = ps_at_gr q (at + length x) zone st (MForward (n - count_take n x))"
          by (simp add: counted_def)
        have "ps_due_gr S (?q, s1) = Some ((?q, s1), Continue ())" unfolding w by (rule at_quiet_gr) simp
        from drive_turn_gr(3) [OF this, of m] have "ps_drive_gr S m (?q, s1) [] = Some ((?q, s1), Inr FlowMore)" .
        with nle n d show ?thesis unfolding w by (simp add: counted_def accepts_more_gr)
      qed
    qed
  qed
qed

text \<open>At a sealed extent's end.\<close>

lemma drive_due_gr:
  "ps_due_gr S z = ps_due_gr S w \<Longrightarrow> ps_drive_gr S m z x = ps_drive_gr S m w x"
  "ps_due_gr S z = Some (w, Break r) \<Longrightarrow> ps_drive_gr S m z x = Some (w, r)"
  "ps_due_gr S z = None \<Longrightarrow> ps_drive_gr S m z x = None"
  unfolding ps_drive_gr_def by (subst (1 2) drive_loop.simps, simp) (subst drive_loop.simps, simp)+

lemma accepts_closed_gr:
  "accepts_gr (ps_drive_gr S m (ps_at_gr q at at (ExLen prev f # st) MHead, s) x) s' \<longleftrightarrow>
     (\<exists>s1. on_len_exit_gr S f at s = (s1, Continue ()) \<and> accepts_gr (ps_drive_gr S m (ps_at_gr q at prev st MHead, s1) x) s')"
proof -
  let ?z = "(ps_at_gr q at at (ExLen prev f # st) MHead, s)"
  obtain s1 fl where e: "on_len_exit_gr S f at s = (s1, fl)" by (cases "on_len_exit_gr S f at s")
  have new: "carry_is_empty carry_new" by (simp add: carry_is_empty_def carry_len_def)
  have q: "(ps_at_gr q at at st MHead)\<lparr>ps_pump_gr := (ps_pump_gr (ps_at_gr q at at (ExLen prev f # st) MHead))\<lparr>pu_zone := prev\<rparr>\<rparr> =
      ps_at_gr q at prev st MHead" by (simp add: ps_at_gr_def)
  have "ps_due_gr S ?z = (case fl of Break u \<Rightarrow> Some ((ps_latch_gr (ps_at_gr q at prev st MHead) True, s1), Break (Inr FlowStopped))
      | Continue u \<Rightarrow> ps_due_gr S (ps_at_gr q at prev st MHead, s1))"
    by (simp add: ps_due_gr_def ps_cascade_gr.simps [of S "ps_at_gr q at at (ExLen prev f # st) MHead"] Let_def new e ps_event_gr_def q
        split: control_flow.split)
  with e show ?thesis
    by (cases fl) (auto simp: drive_due_gr(2) accepts_stop_gr dest: drive_due_gr(1) [of S _ _ m x])
qed

lemma accepts_group_at_end_gr: "\<not> accepts_gr (ps_drive_gr S m (ps_at_gr q at at (ExGroup f # st) MHead, s) x) s'"
proof -
  have "carry_is_empty carry_new" by (simp add: carry_is_empty_def carry_len_def)
  then have "ps_due_gr S (ps_at_gr q at at (ExGroup f # st) MHead, s) =
      (case ps_fault_gr (ps_at_gr q at at (ExGroup f # st) MHead) at (SrGroupUnclosedAtLenEnd f) of (q, e) \<Rightarrow> Some ((q, s), Break (Inl e)))"
    by (simp add: ps_due_gr_def ps_cascade_gr.simps [of S "ps_at_gr q at at (ExGroup f # st) MHead"] Let_def)
  then show ?thesis by (simp add: ps_fault_gr_def drive_due_gr(2) accepts_stop_gr)
qed


section \<open>Every lawful stream is accepted\<close>

lemma drive_token_gr:
  assumes ok: "ps_ok_gr m (ps_at_gr q at zone st MHead, s) (length (emit_tok (Token f w p) @ x))"
    and t: "lawful_tok m (Token f w p)" "at + length (emit_tok (Token f w p)) \<le> zone"
    and arm: "arm_gr S q f at (at + w + length (pay_head p)) zone st s p = Some z'"
  shows "ps_drive_gr S m (ps_at_gr q at zone st MHead, s) (emit_tok (Token f w p) @ x) = ps_drive_gr S m z' (pay_body p @ x)"
proof -
  let ?x = "emit_tok (Token f w p) @ x"
  have w: "0 < w" using t(1) by (simp add: lawful_tok_Token)
  have z: "at \<le> zone" "at + length ?x < u64_max" using ok by (simp_all add: at_ok_gr)
  have "ps_head_gr S m (ps_at_gr q at zone st MHead, s) ?x = Some (z', pay_body p @ x, Continue ())"
    unfolding head_iff_gr [OF z]
    by (intro exI [of _ f] exI [of _ w] exI [of _ p] conjI t arm) (use z(2) in \<open>simp_all add: emit_payload_split\<close>)
  moreover have "at \<noteq> zone" using t(2) w by simp
  moreover have "?x \<noteq> []" using w by (auto simp flip: length_0_conv)
  ultimately show ?thesis by (intro drive_turn_gr(1) at_quiet_gr) (simp_all add: at_mode_gr)
qed

lemma accepted_token_gr:
  "t = Token f w p \<Longrightarrow> lawful_tok m t \<Longrightarrow> at + length (emit_tok t) \<le> zone \<Longrightarrow>
   ps_ok_gr m (ps_at_gr q at zone st MHead, s) (length (emit_tok t @ x)) \<Longrightarrow>
   arm_gr S q f at (at + w + length (pay_head p)) zone st s p = Some z' \<Longrightarrow> accepts_gr (ps_drive_gr S m z' (pay_body p @ x)) s' \<Longrightarrow>
   accepts_gr (ps_drive_gr S m (ps_at_gr q at zone st MHead, s) (emit_tok t @ x)) s'"
  using drive_token_gr [of m q at zone st s f w p x S z'] by simp

lemma stream_accepted_gr:
  assumes "stream_gr S m limit at zone st s x s'"
  shows "limit = unat (ps_depth_gr q) \<Longrightarrow> ps_ok_gr m (ps_at_gr q at zone st MHead, s) (length x) \<Longrightarrow>
    accepts_gr (ps_drive_gr S m (ps_at_gr q at zone st MHead, s) x) s'"
  using assms
proof (induction rule: stream_gr.induct)
  case (ended at zone s)
  then have "at \<noteq> zone" by (auto simp: at_ok_gr)
  then show ?case
    using drive_turn_gr(3) [OF at_quiet_gr, of at zone MHead S m q "[]" s] by (simp add: accepts_more_gr carry_is_empty_def carry_len_def)
next
  case (closed f at s s1 prev st x s2)
  then show ?case by (auto simp: accepts_closed_gr at_ok_gr)
next
  case (varint t f w v l at zone s s1 st x s2)
  show ?case
    by (rule accepted_token_gr [OF varint.hyps(1-3) varint.prems(2), where z' = "(ps_at_gr q (at + length (emit_tok t)) zone st MHead, s1)"])
      (use varint in \<open>simp_all add: at_ok_gr add.assoc\<close>)
next
  case (i64 t f w v at zone s s1 st x s2)
  show ?case
    by (rule accepted_token_gr [OF i64.hyps(1-3) i64.prems(2), where z' = "(ps_at_gr q (at + length (emit_tok t)) zone st MHead, s1)"])
      (use i64 in \<open>simp_all add: at_ok_gr add.assoc\<close>)
next
  case (i32 t f w v at zone s s1 st x s2)
  show ?case
    by (rule accepted_token_gr [OF i32.hyps(1-3) i32.prems(2), where z' = "(ps_at_gr q (at + length (emit_tok t)) zone st MHead, s1)"])
      (use i32 in \<open>simp_all add: at_ok_gr add.assoc\<close>)
next
  case (enter t f w at zone st s s1 x s2)
  show ?case
    by (rule accepted_token_gr [OF enter.hyps(1-3) enter.prems(2), where z' = "(ps_at_gr q (at + length (emit_tok t)) zone (ExGroup f # st) MHead, s1)"])
      (use enter in \<open>simp_all add: at_ok_gr add.assoc\<close>)
next
  case (exit t f w at zone s s1 st x s2)
  show ?case
    by (rule accepted_token_gr [OF exit.hyps(1-3) exit.prems(2), where z' = "(ps_at_gr q (at + length (emit_tok t)) zone st MHead, s1)"])
      (use exit in \<open>simp_all add: at_ok_gr add.assoc\<close>)
next
  case (skipped t f w bs l at zone s s1 st x s2)
  then have n: "unat (of_nat (length bs) :: u32) = length bs" by (simp add: lawful_tok_def unat_of_nat)
  show ?case
    by (rule accepted_token_gr [OF skipped.hyps(1-3) skipped.prems(2), where z' = "(ps_at_gr q (at + w + l) zone st (counted MHead MSwallow (of_nat (length bs))), s1)"])
      (use skipped n in \<open>simp_all add: at_ok_gr add.assoc accepts_swallow_gr\<close>)
next
  case (handed t f w bs l at zone s s0 s1 st x s2)
  then have n: "unat (of_nat (length bs) :: u32) = length bs" by (simp add: lawful_tok_def unat_of_nat)
  then have "(of_nat (length bs) :: u32) = 0 \<longleftrightarrow> bs = []" by (simp add: word_eq_unat_iff)
  note n = n this
  show ?case
    by (rule accepted_token_gr [OF handed.hyps(1-3) handed.prems(2), where z' = "(ps_at_gr q (at + w + l) zone st (counted MHead MForward (of_nat (length bs))), s0)"])
      (use handed n in \<open>cases "bs = []"; simp add: at_ok_gr add.assoc accepts_forward_gr\<close>)+
next
  case (committed t f w bs l at zone s s1 st x s2)
  show ?case
    by (rule accepted_token_gr [OF committed.hyps(1-3) committed.prems(2), where z' = "(ps_at_gr q (at + w + l) (at + length (emit_tok t)) (ExLen zone f # st) MHead, s1)"])
      (use committed in \<open>simp_all add: at_ok_gr add.assoc\<close>)
qed


section \<open>Every accepted stream is lawful\<close>

text \<open>The sealed extents end within the stream.\<close>

fun inside_gr :: "extent_gr list \<Rightarrow> nat \<Rightarrow> nat \<Rightarrow> bool" where
  "inside_gr [] zone l \<longleftrightarrow> True"
| "inside_gr (ExLen prev f # st) zone l \<longleftrightarrow> zone \<le> l \<and> inside_gr st prev l"
| "inside_gr (ExGroup f # st) zone l \<longleftrightarrow> inside_gr st zone l"

lemma stream_inside_gr: "stream_gr S m limit at zone st s x s' \<Longrightarrow> inside_gr st zone (at + length x)"
  by (induction rule: stream_gr.induct) (simp_all add: add.assoc)

text \<open>What an operation that ends the loop can say: a suspension leaves a construct unfinished; only a sink that
  overrides an event stops the stream; and a fault is one a feed can find, and of the policy class only under the
  canonical standard, the depth limit apart.\<close>

fun feed_kind_gr :: "bool \<Rightarrow> scan_kind_gr \<Rightarrow> bool" where
  "feed_kind_gr m (SrRead _ cause) \<longleftrightarrow> cause \<noteq> StreamEnd"
| "feed_kind_gr m (SrFixedTruncated _) \<longleftrightarrow> False"
| "feed_kind_gr m (SrPayloadTruncated _) \<longleftrightarrow> False"
| "feed_kind_gr m (SrUnclosedLen _) \<longleftrightarrow> False"
| "feed_kind_gr m (SrGroupUnclosed _) \<longleftrightarrow> False"
| "feed_kind_gr m SrNonMinimalTag \<longleftrightarrow> m"
| "feed_kind_gr m (SrNonMinimalLen _) \<longleftrightarrow> m"
| "feed_kind_gr m (SrNonMinimalValue _) \<longleftrightarrow> m"
| "feed_kind_gr m _ \<longleftrightarrow> True"

fun says_gr :: "'s sink_gr \<Rightarrow> bool \<Rightarrow> mode \<Rightarrow> ps_result_gr \<Rightarrow> bool" where
  "says_gr S m mode (Inr FlowMore) \<longleftrightarrow> mode \<noteq> MHead"
| "says_gr S m mode (Inr FlowStopped) \<longleftrightarrow> S \<noteq> default_sink_gr"
| "says_gr S m mode (Inl f) \<longleftrightarrow> feed_kind_gr m (sr_kind f)"

definition breaks_gr :: "'s sink_gr \<Rightarrow> bool \<Rightarrow> 's ps_turn_gr \<Rightarrow> bool" where
  "breaks_gr S m out \<longleftrightarrow> (\<forall>z' x' r. out = Some (z', x', Break r) \<longrightarrow> says_gr S m (ps_mode_gr (fst z')) r)"

lemma breaksD_gr: "breaks_gr S m out \<Longrightarrow> out = Some (z', x', Break r) \<Longrightarrow> says_gr S m (ps_mode_gr (fst z')) r"
  by (simp add: breaks_gr_def)

lemma default_events_gr [simp]:
  "on_len_gr default_sink_gr f len at s = (s, Continue OpaqueSkip)"
  "on_len_exit_gr default_sink_gr f at s = (s, Continue ())"
  "on_group_enter_gr default_sink_gr f at s = (s, Continue ())"
  "on_group_exit_gr default_sink_gr f at s = (s, Continue ())"
  "on_varint_gr default_sink_gr f v s = (s, Continue ())"
  "on_i32_gr default_sink_gr f b32 s = (s, Continue ())"
  "on_i64_gr default_sink_gr f b64 s = (s, Continue ())"
  "on_segment_gr default_sink_gr bs s = (s, Continue ())"
  by (simp_all add: default_sink_gr_def)

lemma breaks_simps_gr [simp]:
  "breaks_gr S m None" "breaks_gr S m (Some (z, x, Continue u))" "breaks_gr S m (Some (z, x, Break r)) \<longleftrightarrow> says_gr S m (ps_mode_gr (fst z)) r"
  "breaks_gr S m (ps_halt_gr z x at kind) \<longleftrightarrow> feed_kind_gr m kind"
  by (auto simp: breaks_gr_def halt_eq_gr)

lemma breaks_told_gr: "(S = default_sink_gr \<Longrightarrow> snd out = Continue ()) \<Longrightarrow> breaks_gr S m (ps_told_gr q x out)"
  by (cases out) (auto simp: ps_told_gr_def ps_event_gr_def split: control_flow.split)

lemma padded_kind_gr [simp]: "feed_kind_gr m (scan_padded_gr st) \<longleftrightarrow> m"
  by (cases st) simp_all

lemma padded_canonical_gr: "pump_step step minimal (standard_of m) p x = Some (p', x', PvNonMinimal) \<Longrightarrow> m"
  by (auto simp: pump_step_def held_def width_padded_def standard_of_def split: bind_splits step.splits if_splits)

lemma breaks_word_op_gr:
  assumes "md \<noteq> MHead" "\<And>w p x. breaks_gr S m (go w (put_gr p z) x)"
  shows "breaks_gr S m (word_op_gr step minimal m st md go z x)"
proof (cases "pump_step step minimal (standard_of m) (pump_of_gr z) x")
  case None
  then show ?thesis by (simp add: word_op_gr_def)
next
  case (Some out)
  obtain p x1 v where o: "out = (p, x1, v)" by (cases out)
  show ?thesis
  proof (cases v)
    case (PvDone w)
    with Some o assms(2) [of w p x1] show ?thesis by (simp add: word_op_gr_def)
  next
    case PvNonMinimal
    with Some o padded_canonical_gr have "m" by blast
    with PvNonMinimal Some o show ?thesis by (cases "halt_at v p") (simp_all add: word_op_gr_def refusal_gr_def)
  qed (use Some o assms(1) in \<open>cases "halt_at v p"; simp add: word_op_gr_def refusal_gr_def\<close>)+
qed

lemma breaks_len_done_gr: "breaks_gr S m (ps_len_done_gr S f len z x)"
proof -
  obtain q s where z: "z = (q, s)" by (cases z)
  obtain s1 fl where e: "on_len_gr S f len (pu_off (ps_pump_gr q)) s = (s1, fl)" by (cases "on_len_gr S f len (pu_off (ps_pump_gr q)) s")
  then show ?thesis
    by (auto simp: z ps_len_done_gr_def Let_def ps_ask_gr_def split: control_flow.split len_disposition.split)
qed

lemma breaks_fixed_gr: "breaks_gr S m (ps_fixed_tail_gr S f kind z x)"
  by (cases kind)
    (auto simp: ps_fixed_tail_gr_def Let_def split: bind_split option.split intro!: breaks_told_gr)

lemma breaks_words_gr:
  "breaks_gr S m (ps_varint_value_gr S m f z x)" "breaks_gr S m (ps_len_word_gr S m f z x)"
  by (auto simp: varint_op_gr len_op_gr intro!: breaks_word_op_gr breaks_len_done_gr breaks_told_gr)

lemma breaks_counted_gr: "breaks_gr S m (ps_swallow_gr r z x)" "breaks_gr S m (ps_forward_gr S r z x)"
  by (auto simp: ps_swallow_gr_def ps_forward_gr_def Let_def intro!: breaks_told_gr)

lemma breaks_tagged_gr: "breaks_gr S m (ps_tagged_gr S m start word z x)"
proof (cases "FieldNumber_from_word word")
  case None
  then show ?thesis by (simp add: ps_tagged_gr_def Let_def)
next
  case (Some field)
  have f: "breaks_gr S m (do { room \<leftarrow> usub a b; if room < n then ps_halt_gr z x at (SrFixedOverrun field) else ps_fixed_tail_gr S field kind z x })"
    for a b n at kind
    using breaks_fixed_gr [of S m field kind z x] by (auto split: bind_split)
  have g: "breaks_gr S m (ps_group_end_gr S field start z x)"
    by (auto simp: ps_group_end_gr_def split: list.split extent_gr.split intro!: breaks_told_gr)
  show ?thesis
  proof (cases "classify_gr (Low3_from_word word)")
    case (GrRecord kind)
    with Some f show ?thesis
      by (cases kind) (auto simp: ps_tagged_gr_def Let_def intro!: breaks_told_gr breaks_words_gr)
  qed (use Some g in \<open>simp_all add: ps_tagged_gr_def Let_def\<close>)
qed

text \<open>A head turn that suspends leaves a construct unfinished.\<close>

lemma head_suspends_gr:
  assumes "at \<le> zone" "x \<noteq> []"
    and h: "ps_head_gr S m (ps_at_gr q at zone st MHead, s) x = Some ((q', s1), x', Break (Inr FlowMore))"
  shows "\<not> accepts_gr (Some ((q', s1), Inr FlowMore)) s'"
proof -
  let ?z = "(ps_at_gr q at zone st MHead, s)"
  have start: "pump_construct_start (pump_of_gr ?z) = Some at" by (simp add: pump_start_of pump_of_gr_def)
  have opn: "carry_open MAX_LEN32 (pu_carry (pump_of_gr ?z))" "pu_off (pump_of_gr ?z) \<le> pu_zone (pump_of_gr ?z)"
    using assms(1) by (simp_all add: pump_of_gr_def carry_open_new)
  have op: "ps_head_gr S m ?z x = word_op_gr step_tag encoded_len32 m StageTag MHead (ps_tagged_gr S m at) ?z x"
    by (rule head_op_gr [OF start]) simp
  from h [unfolded op] show ?thesis
  proof (cases rule: tag_reader.pump_cases [OF opn, of encoded_len32 "standard_of m" x "[]", case_names complete suspended refused])
    case (complete k w)
    with h [unfolded op] have "ps_tagged_gr S m at w (put_gr ((pump_of_gr ?z)\<lparr>pu_carry := carry_new, pu_off := pu_off (pump_of_gr ?z) + k\<rparr>) ?z)
        (drop k x) = Some ((q', s1), x', Break (Inr FlowMore))" by (simp add: word_op_gr_def)
    from breaksD_gr [OF breaks_tagged_gr this] show ?thesis by (simp add: accepts_more_gr)
  next
    case (suspended c1)
    with h [unfolded op] have "ps_pump_gr q' = (pump_of_gr ?z)\<lparr>pu_carry := c1, pu_off := at + length x\<rparr>" "cbuf c1 = x"
      by (auto simp: word_op_gr_def put_gr_def pump_of_gr_def carry_new_def)
    with assms(2) show ?thesis by (simp add: accepts_more_gr carry_is_empty_def carry_len_def)
  next
    case (refused c1 c3 k v)
    with h [unfolded op] show ?thesis by (auto simp: word_op_gr_def split: bind_splits)
  qed
qed


text \<open>The payload that was read is the one the residue begins with.\<close>

lemma len_token_gr:
  assumes "lawful_tok m (Token f w (PLen bs l))" "length bs \<le> length y"
  defines "b \<equiv> take (length bs) y"
  shows "lawful_tok m (Token f w (PLen b l))" "length b = length bs"
    "enc w (unat (tag_of f (PLen bs l))) @ enc l (length bs) @ y = emit_tok (Token f w (PLen b l)) @ drop (length bs) y"
proof -
  show l: "length b = length bs" using assms(2) by (simp add: b_def)
  have "tag_of f (PLen b k) = tag_of f (PLen bs k)" for k by (simp add: tag_of_def)
  with assms(1) l show "lawful_tok m (Token f w (PLen b l))" by (simp add: lawful_tok_def)
  show "enc w (unat (tag_of f (PLen bs l))) @ enc l (length bs) @ y = emit_tok (Token f w (PLen b l)) @ drop (length bs) y"
    using l by (simp add: tag_of_def b_def)
qed

lemma accepted_stream_gr:
  "ps_ok_gr m (ps_at_gr q at zone st MHead, s) (length x) \<Longrightarrow>
   accepts_gr (ps_drive_gr S m (ps_at_gr q at zone st MHead, s) x) s' \<Longrightarrow>
   stream_gr S m (unat (ps_depth_gr q)) at zone st s x s'"
proof (induction "2 * length x + length st" arbitrary: at zone st s x rule: less_induct)
  case less
  note ok = less.prems(1) [unfolded at_ok_gr]
  let ?z = "(ps_at_gr q at zone st MHead, s)" and ?stream = "stream_gr S m (unat (ps_depth_gr q))"
  show ?case
  proof (cases "at = zone")
    case True
    show ?thesis
    proof (cases st)
      case Nil
      with True ok show ?thesis by auto
    next
      case (Cons e rest)
      show ?thesis
      proof (cases e)
        case (ExGroup f)
        with True Cons less.prems(2) show ?thesis by (simp add: accepts_group_at_end_gr)
      next
        case (ExLen prev f)
        with True Cons less.prems(2) obtain s1 where s1: "on_len_exit_gr S f at s = (s1, Continue ())"
          "accepts_gr (ps_drive_gr S m (ps_at_gr q at prev rest MHead, s1) x) s'" by (auto simp: accepts_closed_gr)
        have "?stream at prev rest s1 x s'"
          by (rule less.hyps) (use ok True Cons ExLen s1 in \<open>auto simp: at_ok_gr\<close>)
        with True Cons ExLen s1 show ?thesis by (auto intro: stream_gr.closed)
      qed
    qed
  next
    case False
    have due: "ps_due_gr S ?z = Some (?z, Continue ())" using False by (intro at_quiet_gr) simp
    show ?thesis
    proof (cases "x = []")
      case True
      with less.prems(2) drive_turn_gr(3) [OF due, of m] show ?thesis by (auto simp: accepts_more_gr intro: stream_gr.ended)
    next
      case x: False
      obtain z' x' fl where h: "ps_head_gr S m ?z x = Some (z', x', fl)"
        using pf.turn_total [OF less.prems(1) due x] by (auto simp: at_mode_gr)
      show ?thesis
      proof (cases fl)
        case (Break r)
        with h drive_turn_gr(2) [OF due x, of m z' x' r] have d: "ps_drive_gr S m ?z x = Some (z', r)" by (simp add: at_mode_gr)
        show ?thesis
        proof (cases "r = Inr FlowMore")
          case True
          with d less.prems(2) head_suspends_gr [of at zone x S m q st s _ _ x' s'] h Break ok x show ?thesis by (cases z') auto
        next
          case False
          with d less.prems(2) show ?thesis by (simp add: accepts_stop_gr)
        qed
      next
        case (Continue u)
        with h have h: "ps_head_gr S m ?z x = Some (z', x', Continue ())" by simp
        with drive_turn_gr(1) [OF due x, of m z' x'] less.prems(2) have acc: "accepts_gr (ps_drive_gr S m z' x') s'"
          by (simp add: at_mode_gr)
        have zone: "at \<le> zone" "at + length x < u64_max" using ok by simp_all
        from h obtain f w p where t: "lawful_tok m (Token f w p)" "x = enc w (unat (tag_of f p)) @ pay_head p @ x'"
            "at + length (emit_tok (Token f w p)) \<le> zone" "at + length (emit_tok (Token f w p)) < u64_max"
          and arm: "arm_gr S q f at (at + w + length (pay_head p)) zone st s p = Some z'"
          unfolding head_iff_gr [OF zone] by (elim exE conjE) (rule that)
        have w: "0 < w" using t(1) by (simp add: lawful_tok_Token)
        text \<open>The rest after a token that leaves nothing to pass over.\<close>
        have rest: "?stream (at + length (emit_tok (Token f w p))) zone st' s1 x' s'"
          if "z' = (ps_at_gr q (at + length (emit_tok (Token f w p))) zone st' MHead, s1)" "pay_body p = []"
            "length st' \<le> unat (ps_depth_gr q)" "length st' \<le> Suc (length st)" "zones_gr st' zone" for st' s1
        proof (rule less.hyps)
          show "2 * length x' + length st' < 2 * length x + length st" using t(2) w that(4) by simp
          show "ps_ok_gr m (ps_at_gr q (at + length (emit_tok (Token f w p))) zone st' MHead, s1) (length x')"
            using ok that t by (simp add: at_ok_gr emit_payload_split)
          show "accepts_gr (ps_drive_gr S m (ps_at_gr q (at + length (emit_tok (Token f w p))) zone st' MHead, s1) x') s'"
            using acc that(1) by simp
        qed
        show ?thesis
        proof (cases p)
          case (PVarint v l)
          with arm obtain s1 where s1: "on_varint_gr S f v s = (s1, Continue ())" "z' = (ps_at_gr q (at + length (emit_tok (Token f w p))) zone st MHead, s1)"
            by (auto simp: arm_varint_iff_gr add.assoc simp del: arm_gr.simps)
          have x': "x = emit_tok (Token f w p) @ x'" using t(2) PVarint by simp
          show ?thesis unfolding x'
            by (rule stream_gr.varint [OF _ t(1,3) s1(1) rest [OF s1(2)]]) (use ok PVarint in simp_all)
        next
          case (PI64 v)
          with arm obtain s1 where s1: "on_i64_gr S f v s = (s1, Continue ())" "z' = (ps_at_gr q (at + length (emit_tok (Token f w p))) zone st MHead, s1)"
            by (auto simp: arm_fixed_iff_gr add.assoc simp del: arm_gr.simps)
          have x': "x = emit_tok (Token f w p) @ x'" using t(2) PI64 by simp
          show ?thesis unfolding x'
            by (rule stream_gr.i64 [OF _ t(1,3) s1(1) rest [OF s1(2)]]) (use ok PI64 in simp_all)
        next
          case (PI32 v)
          with arm obtain s1 where s1: "on_i32_gr S f v s = (s1, Continue ())" "z' = (ps_at_gr q (at + length (emit_tok (Token f w p))) zone st MHead, s1)"
            by (auto simp: arm_fixed_iff_gr add.assoc simp del: arm_gr.simps)
          have x': "x = emit_tok (Token f w p) @ x'" using t(2) PI32 by simp
          show ?thesis unfolding x'
            by (rule stream_gr.i32 [OF _ t(1,3) s1(1) rest [OF s1(2)]]) (use ok PI32 in simp_all)
        next
          case PEnter
          with arm obtain s1 where s1: "on_group_enter_gr S f (at + w) s = (s1, Continue ())" "length st < unat (ps_depth_gr q)"
              "z' = (ps_at_gr q (at + length (emit_tok (Token f w p))) zone (ExGroup f # st) MHead, s1)"
            by (auto simp: arm_group_iff_gr simp del: arm_gr.simps)
          have x': "x = emit_tok (Token f w p) @ x'" using t(2) PEnter by simp
          show ?thesis unfolding x'
            by (rule stream_gr.enter [OF _ t(1,3) s1(2,1) rest [OF s1(3)]]) (use ok PEnter s1(2) in simp_all)
        next
          case PExit
          with arm obtain st' s1 where s1: "st = ExGroup f # st'" "on_group_exit_gr S f at s = (s1, Continue ())"
              "z' = (ps_at_gr q (at + length (emit_tok (Token f w p))) zone st' MHead, s1)"
            by (auto simp: arm_group_iff_gr simp del: arm_gr.simps)
          have x': "x = emit_tok (Token f w p) @ x'" using t(2) PExit by simp
          show ?thesis unfolding x' s1(1)
            by (rule stream_gr.exit [OF _ t(1,3) s1(2) rest [OF s1(3)]]) (use ok PExit s1(1) in simp_all)
        next
          case (PLen bs l)
          let ?n = "length bs" and ?a = "at + w + l"
          have bs: "?n < 2 ^ 31" "0 < l" "x = enc w (unat (tag_of f (PLen bs l))) @ enc l ?n @ x'" "?a + ?n \<le> zone" "?a + ?n < u64_max"
            using t PLen by (simp_all add: lawful_tok_Token pay_fit_def add.assoc)
          then have n: "unat (of_nat ?n :: u32) = ?n" "(of_nat ?n :: u32) = 0 \<longleftrightarrow> ?n = 0"
            by (simp_all add: unat_of_nat word_eq_unat_iff)
          have lx: "length x = w + l + length x'" using bs(3) by simp
          from arm PLen obtain s1 d where d: "on_len_gr S f (of_nat ?n) ?a s = (s1, Continue d)"
            by (cases "on_len_gr S f (of_nat ?n) ?a s") (auto split: control_flow.splits)
          note tok = len_token_gr [OF t(1) [unfolded PLen]]
          have go: "?stream (?a + ?n) zone st s2 (drop ?n x') s'"
            if "accepts_gr (ps_drive_gr S m (ps_at_gr q (?a + ?n) zone st MHead, s2) (drop ?n x')) s'" "?n \<le> length x'" for s2
            by (rule less.hyps) (use that ok bs lx w in \<open>auto simp: at_ok_gr\<close>)
          show ?thesis
          proof (cases d)
            case OpaqueSkip
            with arm PLen d acc n have a: "?n \<le> length x'"
              "accepts_gr (ps_drive_gr S m (ps_at_gr q (?a + ?n) zone st MHead, s1) (drop ?n x')) s'"
              by (auto simp: accepts_swallow_gr)
            note T = tok [OF a(1)]
            show ?thesis unfolding bs(3) T(3)
              by (rule stream_gr.skipped [OF refl T(1)]) (use T(2) bs(4) d OpaqueSkip go [OF a(2,1)] in \<open>simp_all add: add.assoc\<close>)
          next
            case OpaqueBytes
            with arm PLen d acc n obtain s2 where a: "?n \<le> length x'"
              "if ?n = 0 then s2 = s1 else on_segment_gr S (take ?n x') s1 = (s2, Continue ())"
              "accepts_gr (ps_drive_gr S m (ps_at_gr q (?a + ?n) zone st MHead, s2) (drop ?n x')) s'"
              by (auto simp: accepts_forward_gr)
            note T = tok [OF a(1)]
            show ?thesis unfolding bs(3) T(3)
              by (rule stream_gr.handed [OF refl T(1), where ?s0.0 = s1 and ?s1.0 = s2])
                (use T(2) bs(4) d OpaqueBytes go [OF a(3,1)] a(1,2) in \<open>auto simp: add.assoc split: if_splits\<close>)
          next
            case Commit
            with arm PLen d have c: "length st < unat (ps_depth_gr q)" "z' = (ps_at_gr q ?a (?a + ?n) (ExLen zone f # st) MHead, s1)"
              by (auto split: if_splits)
            have st: "?stream ?a (?a + ?n) (ExLen zone f # st) s1 x' s'"
              by (rule less.hyps) (use acc c ok bs lx w in \<open>auto simp: at_ok_gr\<close>)
            from stream_inside_gr [OF this] have a: "?n \<le> length x'" by simp
            note T = tok [OF a]
            have x': "take ?n x' @ drop ?n x' = x'" by simp
            show ?thesis unfolding bs(3) T(3)
              by (rule stream_gr.committed [OF refl T(1)]) (use T(2) bs(4) d Commit c(1) st in \<open>simp_all add: add.assoc\<close>)
          qed
        qed
      qed
    qed
  qed
qed

end
