(* ===== verification/Language_Grouped.thy ===== *)
theory Language_Grouped
  imports Stream_Grouped
begin

text \<open>
  The grouped stream scanner against the grammar: a session of the parser accepts exactly the streams of
  \<open>Stream_Grouped\<close>, whatever the sink; the validator, the parser over the unit sink, accepts exactly the spellings
  of lawful tokens whose groups balance within the depth limit, and never reaches the branch it declares
  unreachable; a fault or a stop is final.
\<close>

section \<open>Sessions of the parser\<close>

lemma ps_start_at_gr: "ps_start_gr (ps_new_gr standard depth, s) = (ps_at_gr (ps_latch_gr (ps_new_gr standard depth) True) 0 u64_max [] MHead, s)"
  by (simp add: ps_start_gr_def ps_at_gr_def ps_latch_gr_def ps_new_gr_def pump_new_def)

lemma ps_session_whole_gr:
  assumes "length x < u64_max"
  shows "(\<exists>at. ps_session_gr S standard depth s [x] = Some (at, s', Inr FlowMore)) \<longleftrightarrow>
    stream_gr S (standard = CanonicalMinimal) (unat depth) 0 u64_max [] s x s'"
proof -
  let ?m = "standard = CanonicalMinimal" and ?z = "(ps_new_gr standard depth, s)"
  let ?q = "ps_latch_gr (ps_new_gr standard depth) True"
  note rd = ps_new_ready_gr [OF assms, of standard depth s]
  have ok: "ps_ok_gr ?m (ps_at_gr ?q 0 u64_max [] MHead, s) (length x)"
    using rd by (simp add: ps_ready_gr_def ps_start_at_gr)
  have d: "unat (ps_depth_gr ?q) = unat depth" by (simp add: ps_latch_gr_def ps_new_gr_def)
  have a: "(\<exists>at. ps_session_gr S standard depth s [x] = Some (at, s', Inr FlowMore)) \<longleftrightarrow>
      accepts_gr (ps_drive_gr S ?m (ps_start_gr ?z) x) s'"
  proof (cases "ps_drive_gr S ?m (ps_start_gr ?z) x")
    case None
    then show ?thesis by (simp add: ps_session_gr_def ps_feed_drive_gr [OF rd] accepts_gr_def)
  next
    case (Some out)
    obtain q s1 r where out: "out = ((q, s1), r)" by (metis surj_pair)
    show ?thesis
    proof (cases "r = Inr FlowMore")
      case True
      have "map_sum id (\<lambda>_. FlowMore) v = Inr FlowMore \<longleftrightarrow> v = Inr ()" for v :: "scan_fault_gr + unit"
        by (cases v) simp_all
      with True Some out show ?thesis
        by (auto simp: ps_session_gr_def ps_feed_drive_gr [OF rd] accepts_gr_def ps_fin_gr_def split: bind_splits)
    next
      case False
      then have "(case r of Inr FlowMore \<Rightarrow> a | _ \<Rightarrow> b) = b" for a b :: "(nat \<times> 'a \<times> ps_result_gr) option"
        by (cases r) (auto split: flow.split)
      with False Some out show ?thesis
        by (auto simp: ps_session_gr_def ps_feed_drive_gr [OF rd] accepts_gr_def ps_fin_gr_def)
    qed
  qed
  show ?thesis
    unfolding a ps_start_at_gr
    using stream_accepted_gr [of S ?m "unat depth" 0 u64_max "[]" s x s' ?q] accepted_stream_gr [of ?m ?q 0 u64_max "[]" s x S s']
      ok d by metis
qed

text \<open>An accepting session has consumed its stream.\<close>

lemma ps_session_offset_gr:
  assumes "length (concat chunks) < u64_max" "ps_session_gr S standard depth s chunks = Some (at, s', Inr FlowMore)"
  shows "at = length (concat chunks)"
proof -
  let ?z = "(ps_new_gr standard depth, s)"
  note rd = ps_new_ready_gr [OF assms(1), of standard depth s]
  from pf.feed_all_returns [OF rd] obtain z r where f: "feed_all (ps_feed_gr S) (Inr FlowMore) ?z chunks = Some (z, r)" by blast
  have "kept_gr depth (pu_off (ps_pump_gr (fst ?z))) ?z 0" using ps_new_kept_gr [of depth standard s] by simp
  from feed_all_kept_gr [OF rd this f] obtain n where n: "kept_gr depth (length (concat chunks)) z n" "r = Inr FlowMore \<longrightarrow> n = 0"
    by auto
  show ?thesis
  proof (cases "r = Inr FlowMore")
    case True
    with n f assms(2) show ?thesis by (cases z) (auto simp: ps_session_gr_def kept_gr_def ps_offset_gr_def split: bind_splits)
  next
    case False
    then have "(case r of Inr FlowMore \<Rightarrow> a | _ \<Rightarrow> b) = b" for a b :: "(nat \<times> 'a \<times> ps_result_gr) option"
      by (cases r) (auto split: flow.split)
    with False f assms(2) show ?thesis by (cases z) (auto simp: ps_session_gr_def)
  qed
qed

section \<open>What ends a feed\<close>

text \<open>\<open>says_gr\<close> without the mode: what any call of \<open>feed\<close> can answer.\<close>

definition answers_gr :: "'s sink_gr \<Rightarrow> bool \<Rightarrow> ps_result_gr \<Rightarrow> bool" where
  "answers_gr S m r \<longleftrightarrow> (\<exists>mode. says_gr S m mode r)"

lemma answers_simps_gr [simp]:
  "answers_gr S m (Inr FlowMore)" "answers_gr S m (Inr FlowStopped) \<longleftrightarrow> S \<noteq> default_sink_gr"
  "answers_gr S m (Inl f) \<longleftrightarrow> feed_kind_gr m (sr_kind f)"
proof -
  have "says_gr S m (MSwallow 0) (Inr FlowMore)" by simp
  then show "answers_gr S m (Inr FlowMore)" unfolding answers_gr_def ..
qed (simp_all add: answers_gr_def)

lemma turn_answers_gr:
  assumes "ps_turn_gr S m z x = Some (z', x', Break r)"
  shows "answers_gr S m r"
proof -
  have "breaks_gr S m (ps_turn_gr S m z x) \<or> r = Inr FlowMore"
  proof (cases "ps_mode_gr (fst z)")
    case MHead
    show ?thesis
    proof (cases "pump_construct_start (pump_of_gr z)")
      case None
      with MHead assms show ?thesis by (simp add: ps_turn_gr_def ps_head_gr_def pump_of_gr_def)
    next
      case (Some start)
      have h: "ps_turn_gr S m z x = word_op_gr step_tag encoded_len32 m StageTag MHead (ps_tagged_gr S m start) z x"
        using MHead by (simp add: ps_turn_gr_def head_op_gr [OF Some MHead])
      let ?w = "word_op_gr step_tag encoded_len32 m StageTag (MSwallow 0) (ps_tagged_gr S m start) z x"
      have b: "breaks_gr S m ?w" by (rule breaks_word_op_gr) (simp_all add: breaks_tagged_gr)
      have "?w = ps_turn_gr S m z x \<or> r = Inr FlowMore"
        using assms unfolding h by (auto simp: word_op_gr_def split: bind_splits pump_verdict.splits)
      with b show ?thesis by auto
    qed
  qed (simp_all add: ps_turn_gr_def breaks_words_gr breaks_fixed_gr breaks_counted_gr)
  with breaksD_gr [OF _ assms] show ?thesis by (auto simp: answers_gr_def [of S m r])
qed

lemma cascade_answers_gr: "ps_cascade_gr S q s = Some (z, Break r) \<Longrightarrow> answers_gr S m r"
proof (induction S q s rule: ps_cascade_gr.induct)
  case (1 S q s)
  show ?case
  proof (cases "pu_off (ps_pump_gr q) \<noteq> pu_zone (ps_pump_gr q) \<or> \<not> (ps_mode_gr q = MHead \<and> carry_is_empty (pu_carry (ps_pump_gr q)))")
    case True
    with 1(2) show ?thesis by (auto simp: ps_cascade_gr.simps [of _ q s] split: if_splits)
  next
    case False
    show ?thesis
    proof (cases "ps_stack_gr q")
      case Nil
      with False 1(2) show ?thesis by (simp add: ps_cascade_gr.simps [of _ q s])
    next
      case (Cons e rest)
      show ?thesis
      proof (cases e)
        case (ExGroup f)
        with False Cons 1(2) show ?thesis by (auto simp: ps_cascade_gr.simps [of _ q s] ps_fault_gr_def)
      next
        case (ExLen prev f)
        obtain s1 fl where e: "on_len_exit_gr S f (pu_off (ps_pump_gr q)) s = (s1, fl)" by (cases "on_len_exit_gr S f (pu_off (ps_pump_gr q)) s")
        show ?thesis
        proof (cases fl)
          case (Break u)
          with e have "S \<noteq> default_sink_gr" by auto
          with False Cons ExLen e Break 1(2) show ?thesis by (auto simp: ps_cascade_gr.simps [of _ q s] ps_event_gr_def)
        next
          case (Continue u)
          with False Cons ExLen e 1 show ?thesis by (auto simp: ps_cascade_gr.simps [of _ q s] ps_event_gr_def)
        qed
      qed
    qed
  qed
qed

lemma feed_answers_gr:
  assumes "ps_feed_gr S z x = Some (z', r)"
  shows "answers_gr S (pu_standard (ps_pump_gr (fst z)) = CanonicalMinimal) r"
proof -
  have "answers_gr S m r" if "ps_drive_gr S m w x = Some (w', r)" for m w w'
  proof -
    have "answers_gr S m (snd (w', r))"
      using that [unfolded ps_drive_gr_def]
      by (rule drive_stops) (auto simp: ps_due_gr_def cascade_answers_gr turn_answers_gr)
    then show ?thesis by simp
  qed
  with assms show ?thesis
    by (cases z) (auto simp: ps_feed_gr_def ps_fault_gr_def Let_def split: if_splits standard.splits bind_splits)
qed

lemma unstopped_feed_gr: "ps_feed_gr default_sink_gr z x \<noteq> Some (z', Inr FlowStopped)"
  using feed_answers_gr [of default_sink_gr z x z' "Inr FlowStopped"] by auto

lemma feed_latch_gr: "ps_feed_gr S z x = Some (z', r) \<Longrightarrow> r \<noteq> Inr FlowMore \<Longrightarrow> pu_terminal (ps_pump_gr (fst z'))"
  by (cases z) (auto simp: ps_feed_gr_def ps_fault_gr_def ps_latch_gr_def Let_def split: if_splits bind_splits)

section \<open>Sessions of the validator\<close>

definition va_session_gr :: "standard \<Rightarrow> depth_limit \<Rightarrow> bytes list \<Rightarrow> (nat \<times> (scan_fault_gr + unit)) option" where
  "va_session_gr standard depth chunks =
     do { (v, r) \<leftarrow> feed_all va_feed_gr (Inr ()) (va_new_gr standard depth) chunks;
          (case r of
             Inl f \<Rightarrow> Some (va_offset_gr v, Inl f)
           | Inr _ \<Rightarrow> do { r \<leftarrow> va_finish_gr v; Some (va_offset_gr v, r) }) }"

definition verdict_of :: "ps_result_gr \<Rightarrow> scan_fault_gr + unit" where
  "verdict_of r = map_sum id (\<lambda>_. ()) r"

lemma va_feed_parser_gr:
  "va_feed_gr v x = map_option (\<lambda>((q, _), r). (v\<lparr>va_inner_gr := q\<rparr>, verdict_of r)) (ps_feed_gr unit_sink_gr (va_inner_gr v, ()) x)"
proof (cases "ps_feed_gr unit_sink_gr (va_inner_gr v, ()) x")
  case None
  then show ?thesis by (simp add: va_feed_gr_def)
next
  case (Some out)
  obtain q u r where out: "out = ((q, u), r)" by (metis surj_pair)
  have "r \<noteq> Inr FlowStopped" using Some out unstopped_feed_gr [of "(va_inner_gr v, ())" x] by (auto simp: unit_sink_gr_def)
  with Some out show ?thesis by (cases r) (auto simp: va_feed_gr_def verdict_of_def split: flow.split)
qed

lemma va_feed_all_parser_gr:
  "feed_all va_feed_gr (Inr ()) v xs =
     map_option (\<lambda>((q, _), r). (v\<lparr>va_inner_gr := q\<rparr>, verdict_of r)) (feed_all (ps_feed_gr unit_sink_gr) (Inr FlowMore) (va_inner_gr v, ()) xs)"
proof (induction xs arbitrary: v)
  case Nil
  show ?case by (simp add: verdict_of_def)
next
  case (Cons x xs)
  show ?case
  proof (cases "ps_feed_gr unit_sink_gr (va_inner_gr v, ()) x")
    case None
    then show ?thesis by (simp add: va_feed_parser_gr)
  next
    case (Some out)
    obtain q u r where out: "out = ((q, u), r)" by (metis surj_pair)
    have "r \<noteq> Inr FlowStopped" using Some out unstopped_feed_gr [of "(va_inner_gr v, ())" x] by (auto simp: unit_sink_gr_def)
    then have "verdict_of r = Inr () \<longleftrightarrow> r = Inr FlowMore" by (cases r) (auto simp: verdict_of_def intro: flow.exhaust)
    with Some out Cons.IH [of "v\<lparr>va_inner_gr := q\<rparr>"] show ?thesis by (simp add: va_feed_parser_gr)
  qed
qed

lemma va_session_parser_gr:
  "va_session_gr standard depth chunks =
     map_option (\<lambda>(at, _, r). (at, verdict_of r)) (ps_session_gr unit_sink_gr standard depth () chunks)"
proof (cases "feed_all (ps_feed_gr unit_sink_gr) (Inr FlowMore) (ps_new_gr standard depth, ()) chunks")
  case None
  then show ?thesis by (simp add: va_session_gr_def ps_session_gr_def va_feed_all_parser_gr va_new_gr_def)
next
  case (Some out)
  obtain q u r where out: "out = ((q, u), r)" by (metis surj_pair)
  have f: "map_sum id (\<lambda>_. ()) (map_sum id (\<lambda>_. FlowMore) v) = v" for v :: "scan_fault_gr + unit" by (cases v) simp_all
  show ?thesis
  proof (cases r)
    case (Inl e)
    with Some out show ?thesis
      by (simp add: va_session_gr_def ps_session_gr_def va_feed_all_parser_gr va_new_gr_def verdict_of_def va_offset_gr_def)
  next
    case (Inr fl)
    have "\<exists>w. feed_all (ps_feed_gr unit_sink_gr) (Inr FlowMore) (ps_new_gr standard depth, ()) chunks = Some (w, Inr FlowMore)" if "fl = FlowMore"
      using Some out Inr that by simp
    have "feed_all (ps_feed_gr unit_sink_gr) (Inr FlowMore) w xs \<noteq> Some (w', Inr FlowStopped)" for w w' xs
    proof (induction xs arbitrary: w)
      case (Cons x xs)
      then show ?case
        by (auto simp: unit_sink_gr_def unstopped_feed_gr split: bind_splits)
    qed simp
    with Some out Inr have "fl = FlowMore" by (cases fl) auto
    with Some out Inr show ?thesis
      by (cases "ps_finish_gr q")
        (simp_all add: va_session_gr_def ps_session_gr_def va_feed_all_parser_gr va_new_gr_def verdict_of_def va_offset_gr_def va_finish_gr_def f)
  qed
qed

section \<open>The validator's language\<close>

fun ext_field :: "extent_gr \<Rightarrow> field_number" where
  "ext_field (ExLen prev f) = f"
| "ext_field (ExGroup f) = f"

text \<open>The residue \<open>x\<close> spells lawful tokens that close the open groups.\<close>

definition spells_gr :: "bool \<Rightarrow> nat \<Rightarrow> nat \<Rightarrow> extent_gr list \<Rightarrow> bytes \<Rightarrow> bool" where
  "spells_gr m limit at st x \<longleftrightarrow>
     (\<exists>ts. x = emit ts \<and> list_all (lawful_tok m) ts \<and> (\<forall>opens. map fst opens = map ext_field st \<longrightarrow> balance limit opens at ts = Some []))"

lemma spells_cons_gr:
  assumes "lawful_tok m t" "spells_gr m limit (at + length (emit_tok t)) st' x"
    and "\<And>opens. map fst opens = map ext_field st \<Longrightarrow> \<exists>opens'. opens_after limit opens at t = Some opens' \<and> map fst opens' = map ext_field st'"
  shows "spells_gr m limit at st (emit_tok t @ x)"
proof -
  from assms(2) obtain ts where ts: "x = emit ts" "list_all (lawful_tok m) ts"
    "\<And>opens. map fst opens = map ext_field st' \<Longrightarrow> balance limit opens (at + length (emit_tok t)) ts = Some []"
    by (auto simp: spells_gr_def)
  have "balance limit opens at (t # ts) = Some []" if "map fst opens = map ext_field st" for opens
    using assms(3) [OF that] ts(3) by auto
  with ts assms(1) show ?thesis unfolding spells_gr_def by (intro exI [of _ "t # ts"]) simp
qed

lemma stream_tokens_gr:
  assumes "stream_gr default_sink_gr m limit at zone st s x s'"
  shows "list_all (\<lambda>e. \<exists>f. e = ExGroup f) st \<Longrightarrow> spells_gr m limit at st x"
  using assms
proof (induction rule: stream_gr.induct)
  case (ended at zone s)
  show ?case by (auto simp: spells_gr_def intro!: exI [of _ "[]"])
next
  case (enter t f w at zone st s s1 x s2)
  then show ?case
    by (intro spells_cons_gr [where st' = "ExGroup f # st"]) (auto simp: opens_after_def dest: map_eq_imp_length_eq)
next
  case (exit t f w at zone s s1 st x s2)
  then show ?case
    by (intro spells_cons_gr [where st' = st]) (auto simp: opens_after_def map_eq_Cons_conv)
next
  case (varint t f w v l at zone s s1 st x s2)
  then show ?case by (intro spells_cons_gr [where st' = st]) (auto simp: opens_after_def)
next
  case (i64 t f w v at zone s s1 st x s2)
  then show ?case by (intro spells_cons_gr [where st' = st]) (auto simp: opens_after_def)
next
  case (i32 t f w v at zone s s1 st x s2)
  then show ?case by (intro spells_cons_gr [where st' = st]) (auto simp: opens_after_def)
next
  case (skipped t f w bs l at zone s s1 st x s2)
  then show ?case by (intro spells_cons_gr [where st' = st]) (auto simp: opens_after_def)
qed auto

lemma tokens_stream_gr:
  "list_all (lawful_tok m) ts \<Longrightarrow> balance limit opens at ts = Some [] \<Longrightarrow> map fst opens = map ext_field st \<Longrightarrow>
   list_all (\<lambda>e. \<exists>f. e = ExGroup f) st \<Longrightarrow> at + length (emit ts) \<le> zone \<Longrightarrow>
   stream_gr default_sink_gr m limit at zone st s (emit ts) s"
proof (induction ts arbitrary: opens at st)
  case Nil
  then show ?case by (simp add: stream_gr.ended)
next
  case (Cons t ts)
  obtain f w p where t: "t = Token f w p" by (cases t)
  from Cons.prems(2) obtain opens' where o: "opens_after limit opens at t = Some opens'"
    "balance limit opens' (at + length (emit_tok t)) ts = Some []" by (auto split: bind_splits)
  have l: "lawful_tok m t" "at + length (emit_tok t) \<le> zone" using Cons.prems(1,5) by simp_all
  have n: "length opens = length st" using Cons.prems(3) by (rule map_eq_imp_length_eq)
  have go: "stream_gr default_sink_gr m limit (at + length (emit_tok t)) zone st' s (emit ts) s"
    if "map fst opens' = map ext_field st'" "list_all (\<lambda>e. \<exists>f. e = ExGroup f) st'" for st'
    by (rule Cons.IH [OF _ o(2) that]) (use Cons.prems in \<open>simp_all add: add.assoc\<close>)
  show ?case
  proof (cases p)
    case PEnter
    with o(1) t have "length st < limit" "map fst opens' = map ext_field (ExGroup f # st)"
      using Cons.prems(3) n by (auto simp: opens_after_def split: if_splits)
    then show ?thesis unfolding emit_Cons
      by (intro stream_gr.enter [where ?s1.0 = s, OF _ l]) (use PEnter t go [of "ExGroup f # st"] Cons.prems(4) in simp_all)
  next
    case PExit
    with o(1) t obtain c where opens: "opens = (f, c) # opens'" by (auto simp: opens_after_def split: list.splits if_splits)
    with Cons.prems(3,4) obtain st' where st: "st = ExGroup f # st'" "map fst opens' = map ext_field st'" by (cases st) auto
    then show ?thesis unfolding emit_Cons st(1)
      by (intro stream_gr.exit [where ?s1.0 = s, OF _ l]) (use PExit t st go [of st'] Cons.prems(4) in simp_all)
  next
    case (PLen bs k)
    with o(1) t have "opens' = opens" by (simp add: opens_after_def)
    then show ?thesis unfolding emit_Cons
      by (intro stream_gr.skipped [where ?s1.0 = s, OF _ l]) (use PLen t go [of st] Cons.prems(3,4) in simp_all)
  next
    case (PVarint v k)
    with o(1) t have "opens' = opens" by (simp add: opens_after_def)
    then show ?thesis unfolding emit_Cons
      by (intro stream_gr.varint [where ?s1.0 = s, OF _ l]) (use PVarint t go [of st] Cons.prems(3,4) in simp_all)
  next
    case (PI64 v)
    with o(1) t have "opens' = opens" by (simp add: opens_after_def)
    then show ?thesis unfolding emit_Cons
      by (intro stream_gr.i64 [where ?s1.0 = s, OF _ l]) (use PI64 t go [of st] Cons.prems(3,4) in simp_all)
  next
    case (PI32 v)
    with o(1) t have "opens' = opens" by (simp add: opens_after_def)
    then show ?thesis unfolding emit_Cons
      by (intro stream_gr.i32 [where ?s1.0 = s, OF _ l]) (use PI32 t go [of st] Cons.prems(3,4) in simp_all)
  qed
qed


lemma unit_gathers_gr: "gathers_gr unit_sink_gr"
  by (simp add: unit_sink_gr_def default_gathers_gr)

lemma va_session_accepts_gr:
  assumes "length (concat chunks) < u64_max"
  shows "va_session_gr standard depth chunks = Some (length (concat chunks), Inr ()) \<longleftrightarrow>
    (\<exists>ts. concat chunks = emit ts \<and> list_all (lawful_tok (standard = CanonicalMinimal)) ts \<and> balance (unat depth) [] 0 ts = Some [])"
proof -
  let ?m = "standard = CanonicalMinimal" and ?x = "concat chunks"
  have v: "verdict_of r = Inr () \<longleftrightarrow> r = Inr FlowMore \<or> r = Inr FlowStopped" for r
    by (cases r) (auto simp: verdict_of_def intro: flow.exhaust)
  have stop: "ps_session_gr unit_sink_gr standard depth () chunks \<noteq> Some (at, u, Inr FlowStopped)" for at u
  proof -
    have "feed_all (ps_feed_gr unit_sink_gr) (Inr FlowMore) w xs \<noteq> Some (w', Inr FlowStopped)" for w w' xs
      by (induction xs arbitrary: w) (auto simp: unit_sink_gr_def unstopped_feed_gr split: bind_splits)
    moreover have "map_sum id (\<lambda>_. FlowMore) f \<noteq> Inr FlowStopped" for f :: "scan_fault_gr + unit" by (cases f) simp_all
    ultimately show ?thesis by (auto simp: ps_session_gr_def split: bind_splits sum.splits flow.splits)
  qed
  obtain at u r where s: "ps_session_gr unit_sink_gr standard depth () chunks = Some (at, u, r)"
    using ps_session_cut_gr [OF assms unit_gathers_gr, of standard depth "()"] by auto
  have "va_session_gr standard depth chunks = Some (length ?x, Inr ()) \<longleftrightarrow>
      ps_session_gr unit_sink_gr standard depth () chunks = Some (length ?x, (), Inr FlowMore)"
    using s stop v by (auto simp: va_session_parser_gr)
  also have "\<dots> \<longleftrightarrow> (\<exists>at. ps_session_gr unit_sink_gr standard depth () chunks = Some (at, (), Inr FlowMore))"
    using ps_session_offset_gr [OF assms, of unit_sink_gr standard depth "()"] by metis
  also have "\<dots> \<longleftrightarrow> stream_gr unit_sink_gr ?m (unat depth) 0 u64_max [] () ?x ()"
    using ps_session_cut_gr [OF assms unit_gathers_gr, of standard depth "()"] ps_session_whole_gr [OF assms, of unit_sink_gr standard depth "()" "()"]
    by auto
  also have "\<dots> \<longleftrightarrow> (\<exists>ts. ?x = emit ts \<and> list_all (lawful_tok ?m) ts \<and> balance (unat depth) [] 0 ts = Some [])"
    unfolding unit_sink_gr_def
    using stream_tokens_gr [of ?m "unat depth" 0 u64_max "[]" "()" ?x "()"] tokens_stream_gr [of ?m _ "unat depth" "[]" 0 "[]" u64_max "()"] assms
    by (auto simp: spells_gr_def)
  finally show ?thesis .
qed

lemma lawful_toks: "list_all (lawful_tok m) ts \<longleftrightarrow> list_all tok_ok ts \<and> (m \<longrightarrow> list_all tok_minimal ts)"
  by (auto simp: lawful_tok_def list_all_iff)

section \<open>Properties\<close>

text \<open>C16: The grouped parser and its sink are the token-level meaning. Fed any chunks of a stream short of the
  coordinate space (one chunk, if the sink does not gather), a session ends complete in the sink state \<open>s'\<close>, every byte
  consumed, if and only if the stream is a sequence of lawful tokens, each whole inside the innermost
  extent the sink committed, groups and extents closed in order within the depth limit, that takes the sink
  from \<open>s\<close> to \<open>s'\<close>, event by event.\<close>

theorem parser_accepts_gr:
  assumes "length (concat chunks) < u64_max" and "gathers_gr S \<or> length chunks = 1"
  shows "ps_session_gr S standard depth s chunks = Some (length (concat chunks), s', Inr FlowMore) \<longleftrightarrow>
    stream_gr S (standard = CanonicalMinimal) (unat depth) 0 u64_max [] s (concat chunks) s'"
proof -
  have w: "ps_session_gr S standard depth s chunks = ps_session_gr S standard depth s [concat chunks]"
  proof (cases "gathers_gr S")
    case True
    from ps_session_cut_gr [OF assms(1) this, of standard depth s] show ?thesis by auto
  next
    case False
    with assms(2) show ?thesis by (cases chunks) auto
  qed
  have "ps_session_gr S standard depth s [concat chunks] = Some (length (concat chunks), s', Inr FlowMore) \<longleftrightarrow>
      (\<exists>at. ps_session_gr S standard depth s [concat chunks] = Some (at, s', Inr FlowMore))"
    using ps_session_offset_gr [of "[concat chunks]" S standard depth s] assms(1) by auto
  then show ?thesis unfolding w ps_session_whole_gr [OF assms(1)] .
qed

text \<open>The sink of the crate's own example: it adds up the varints it hears.\<close>

definition summing_gr :: "nat sink_gr" where
  "summing_gr = default_sink_gr\<lparr>on_varint_gr := (\<lambda>field val s. (s + unat val, Continue ()))\<rparr>"

lemma parser_accepts_gr_witness:
  "ps_session_gr summing_gr Tolerant 100 0 [[0x08, 0x96, 0x01, 0x13], [0x18, 0x01, 0x14]] = Some (7, 151, Inr FlowMore)"
proof -
  let ?xs = "[[0x08, 0x96, 0x01, 0x13], [0x18, 0x01, 0x14]] :: bytes list"
  have l: "length (concat ?xs) < u64_max" by (simp add: u64_max_def)
  have g: "gathers_gr summing_gr \<or> length ?xs = 1" by (simp add: gathers_gr_def summing_gr_def default_sink_gr_def)
  have s: "on_varint_gr summing_gr f v s = (s + unat v, Continue ())" "on_group_enter_gr summing_gr f at s = (s, Continue ())"
    "on_group_exit_gr summing_gr f at s = (s, Continue ())" for f v s at
    by (simp_all add: summing_gr_def default_sink_gr_def)
  let ?t1 = "Token 1 1 (PVarint 150 2)" and ?t2 = "Token 2 1 PEnter" and ?t3 = "Token 3 1 (PVarint 1 1)" and ?t4 = "Token 2 1 PExit"
  have d: "concat ?xs = emit_tok ?t1 @ emit_tok ?t2 @ emit_tok ?t3 @ emit_tok ?t4 @ []" by code_simp
  have o: "lawful_tok False ?t1" "lawful_tok False ?t2" "lawful_tok False ?t3" "lawful_tok False ?t4" by code_simp+
  have e: "length (emit_tok ?t1) = 3" "length (emit_tok ?t2) = 1" "length (emit_tok ?t3) = 2" "length (emit_tok ?t4) = 1" by simp_all
  have u: "n \<le> u64_max" if "n \<le> 100" for n using that by (simp add: u64_max_def)
  have "stream_gr summing_gr False 100 7 u64_max [] 151 [] 151" by (rule stream_gr.ended)
  then have "stream_gr summing_gr False 100 6 u64_max [ExGroup 2] 151 (emit_tok ?t4 @ []) 151"
    by (intro stream_gr.exit [OF refl o(4) _ s(3)]) (simp_all only: e, simp_all add: u)
  then have "stream_gr summing_gr False 100 4 u64_max [ExGroup 2] 150 (emit_tok ?t3 @ emit_tok ?t4 @ []) 151"
    by (intro stream_gr.varint [OF refl o(3) _ s(1)]) (simp_all only: e, simp_all add: u)
  then have "stream_gr summing_gr False 100 3 u64_max [] 150 (emit_tok ?t2 @ emit_tok ?t3 @ emit_tok ?t4 @ []) 151"
    by (intro stream_gr.enter [OF refl o(2) _ _ s(2)]) (simp_all only: e, simp_all add: u)
  then have "stream_gr summing_gr False 100 0 u64_max [] 0 (concat ?xs) 151"
    unfolding d by (intro stream_gr.varint [OF refl o(1) _ s(1)]) (simp_all only: e, simp_all add: u)
  with iffD2 [OF parser_accepts_gr [OF l g, of Tolerant 100 0 151]] show ?thesis by simp
qed


text \<open>C17: The grouped stream validator is the grammar. Fed any chunks of a stream short of the coordinate space, it
  finishes cleanly, every byte consumed, if and only if the stream is the spelling of lawful tokens whose
  groups close in order within the depth limit (each spelled minimally, under the canonical standard).\<close>

theorem validator_accepts_gr:
  assumes "length (concat chunks) < u64_max"
  shows "va_session_gr standard depth chunks = Some (length (concat chunks), Inr ()) \<longleftrightarrow>
    (\<exists>ts. concat chunks = emit ts \<and> list_all tok_ok ts \<and> (standard = CanonicalMinimal \<longrightarrow> list_all tok_minimal ts) \<and>
      balance (unat depth) [] 0 ts = Some [])"
  unfolding va_session_accepts_gr [OF assms] lawful_toks by blast

lemma validator_accepts_gr_witness:
  "va_session_gr CanonicalMinimal 100 [[0x0B, 0x08], [0x96, 0x01, 0x0C]] = Some (5, Inr ())"
proof -
  let ?xs = "[[0x0B, 0x08], [0x96, 0x01, 0x0C]] :: bytes list"
  let ?ts = "[Token 1 1 PEnter, Token 1 1 (PVarint 150 2), Token 1 1 PExit]"
  have l: "length (concat ?xs) < u64_max" by (simp add: u64_max_def)
  have d: "concat ?xs = emit ?ts" by code_simp
  have o: "list_all tok_ok ?ts" by code_simp
  have m: "list_all tok_minimal ?ts" by code_simp
  have b: "balance (unat (100 :: depth_limit)) [] 0 ?ts = Some []" by code_simp
  have "va_session_gr CanonicalMinimal 100 ?xs = Some (length (concat ?xs), Inr ())"
    by (rule iffD2 [OF validator_accepts_gr [OF l]], rule exI [of _ ?ts]) (intro conjI impI d o m b)
  then show ?thesis by simp
qed

text \<open>C21: What ends a feed is final, and is one of the reasons a feed can have. From any state, a fault or a stop
  latches the parser (a further \<open>feed\<close> or \<open>finish\<close> panics); the unit sink never stops; a fault is never one that
  only the end of the stream can show; and under the tolerant standard it is of the policy class only for the
  depth limit.\<close>

theorem parser_faults_gr:
  assumes "ps_feed_gr S z chunk = Some (z', r)" and "r \<noteq> Inr FlowMore"
  shows "ps_feed_gr S' z' more_bytes = None \<and> ps_finish_gr (fst z') = None \<and>
    (case r of
       Inr _ \<Rightarrow> S \<noteq> default_sink_gr
     | Inl f \<Rightarrow> feed_kind_gr (pu_standard (ps_pump_gr (fst z)) = CanonicalMinimal) (sr_kind f) \<and>
         (pu_standard (ps_pump_gr (fst z)) = Tolerant \<longrightarrow> scan_class_gr (sr_kind f) = Policy \<longrightarrow> (\<exists>field. sr_kind f = SrDepthExceeded field)))"
proof -
  have t: "pu_terminal (ps_pump_gr (fst z'))" by (rule feed_latch_gr [OF assms])
  have k: "feed_kind_gr False kind \<longrightarrow> scan_class_gr kind = Policy \<longrightarrow> (\<exists>field. kind = SrDepthExceeded field)" for kind
    by (cases kind) simp_all
  show ?thesis
  proof (cases r)
    case (Inl f)
    with feed_answers_gr [OF assms(1)] t k [of "sr_kind f"] show ?thesis
      by (cases z') (auto simp: ps_feed_gr_def ps_finish_gr_def Let_def)
  next
    case (Inr fl)
    with feed_answers_gr [OF assms(1)] t assms(2) show ?thesis
      by (cases z'; cases fl) (auto simp: ps_feed_gr_def ps_finish_gr_def Let_def)
  qed
qed


lemma parser_faults_gr_witness:
  "\<exists>z'. ps_feed_gr unit_sink_gr (ps_new_gr Tolerant 100, ()) [0x0C] = Some (z', Inl \<lparr>sr_at = 0, sr_kind = SrGroupEndOrphan 1\<rparr>) \<and>
     ps_finish_gr (fst z') = None"
proof -
  let ?new = "(ps_new_gr Tolerant 100, ())" and ?x = "[0x0C] :: bytes"
  let ?q = "ps_latch_gr (ps_new_gr Tolerant 100) True"
  let ?z = "(ps_at_gr ?q 0 u64_max [] MHead, ())"
  have rd: "ps_ready_gr False ?new (length ?x)" using ps_new_ready_gr [of "length ?x" Tolerant 100 "()"] by (simp add: u64_max_def)
  have start: "pump_construct_start (pump_of_gr ?z) = Some 0" by (simp add: pump_start_of pump_of_gr_def)
  have fw: "?x = enc 1 (unat (12 :: u32)) @ []" "FieldNumber_from_word 12 = Some 1" "Low3_from_word 12 = 4" "classify_gr 4 = GrGroupEnd"
    by code_simp+
  have u: "Suc 0 \<le> u64_max" by (simp add: u64_max_def)
  have "pump_step step_tag encoded_len32 (standard_of False) (pump_of_gr ?z) ?x =
      Some ((pump_of_gr ?z)\<lparr>pu_carry := carry_new, pu_off := 1\<rparr>, [], PvDone 12)"
  proof (rule iffD2 [OF tag_spelled.pump_reads_iff])
    show "\<exists>w. 0 < w \<and> w \<le> MAX_LEN32 \<and> unat (12 :: u32) < 128 ^ w \<and> ?x = enc w (unat (12 :: u32)) @ [] \<and> pu_off (pump_of_gr ?z) + w \<le> pu_zone (pump_of_gr ?z) \<and>
        (standard_of False = CanonicalMinimal \<longrightarrow> w = encoded_len32 (12 :: u32)) \<and>
        (pump_of_gr ?z)\<lparr>pu_carry := carry_new, pu_off := 1\<rparr> = (pump_of_gr ?z)\<lparr>pu_carry := carry_new, pu_off := pu_off (pump_of_gr ?z) + w\<rparr>"
      by (rule exI [of _ 1], intro conjI fw(1)) (use u in \<open>simp_all add: pump_of_gr_def\<close>)
  qed (simp_all add: pump_of_gr_def)
  then have "\<exists>z'. ps_turn_gr unit_sink_gr False ?z ?x = Some (z', [], Break (Inl \<lparr>sr_at = 0, sr_kind = SrGroupEndOrphan 1\<rparr>))"
    by (simp add: at_mode_gr head_op_gr [OF start] word_op_gr_def ps_tagged_gr_def Let_def fw(2-4) ps_group_end_gr_def halt_eq_gr)
  then obtain z' where t: "ps_turn_gr unit_sink_gr False ?z ?x = Some (z', [], Break (Inl \<lparr>sr_at = 0, sr_kind = SrGroupEndOrphan 1\<rparr>))" ..
  have "ps_drive_gr unit_sink_gr False ?z ?x = Some (z', Inl \<lparr>sr_at = 0, sr_kind = SrGroupEndOrphan 1\<rparr>)"
    by (rule drive_turn_gr(2) [OF at_quiet_gr _ t]) (simp_all add: u64_max_def)
  then have f: "\<exists>z'. ps_feed_gr unit_sink_gr ?new ?x = Some (z', Inl \<lparr>sr_at = 0, sr_kind = SrGroupEndOrphan 1\<rparr>)"
    by (simp add: ps_feed_drive_gr [OF rd] ps_start_at_gr ps_fin_gr_def)
  then obtain w where w: "ps_feed_gr unit_sink_gr ?new ?x = Some (w, Inl \<lparr>sr_at = 0, sr_kind = SrGroupEndOrphan 1\<rparr>)" ..
  from parser_faults_gr [OF w] have "ps_finish_gr (fst w) = None" by simp
  with w show ?thesis by blast
qed

end
