(* ===== verification/Select.thy ===== *)
theory Select
  imports Walk Matcher
begin

text \<open>
  What the two selections share (\<open>src/src/select.rs\<close> and the \<open>Span\<close> of \<open>src/src/lib.rs\<close>): the whole-input
  span of a record, the arithmetic whose overflow or underflow is a panic of the checked build, an unchecked
  range of a slice, and the meaning of a program at a trail: the paths that select a record and
  whether any path may select below it.
\<close>

section \<open>Arithmetic that may not wrap, slices\<close>

definition word_add :: "'a::len word \<Rightarrow> 'a word \<Rightarrow> 'a word option" where
  "word_add a b = (if unat a + unat b < 2 ^ LENGTH('a) then Some (a + b) else None)"

definition word_sub :: "'a::len word \<Rightarrow> 'a word \<Rightarrow> 'a word option" where
  "word_sub a b = (if b \<le> a then Some (a - b) else None)"

definition get_range :: "bytes \<Rightarrow> nat \<Rightarrow> nat \<Rightarrow> bytes option" where
  "get_range data start stop =
     (if start \<le> stop \<and> stop \<le> length data then Some (extent_of data start stop) else None)"

lemma word_add_of_nat:
  "a + b < 2 ^ LENGTH('a::len) \<Longrightarrow> word_add (of_nat a :: 'a word) (of_nat b) = Some (of_nat (a + b))"
  by (simp add: word_add_def unat_of_nat)

lemma word_sub_of_nat:
  assumes "b \<le> a" "a < 2 ^ LENGTH('a::len)"
  shows "word_sub (of_nat a :: 'a word) (of_nat b) = Some (of_nat (a - b))"
  using assms by (simp add: word_sub_def word_le_nat_alt unat_of_nat)

section \<open>Spans\<close>

record span =
  span_start :: u32
  span_end :: u32

definition span_new :: "u32 \<Rightarrow> u32 \<Rightarrow> span option" where
  "span_new start stop = (if start \<le> stop then Some \<lparr>span_start = start, span_end = stop\<rparr> else None)"

definition span_of :: "coord \<Rightarrow> extent \<Rightarrow> span" where
  "span_of start width =
     \<lparr>span_start = coord_inner start, span_end = coord_inner start + extent_inner width\<rparr>"

definition span_len :: "span \<Rightarrow> u32 option" where
  "span_len s = word_sub (span_end s) (span_start s)"

definition span_is_empty :: "span \<Rightarrow> bool" where
  "span_is_empty s \<longleftrightarrow> span_start s = span_end s"

definition span_as_range :: "span \<Rightarrow> nat \<times> nat" where
  "span_as_range s = (usize_of (span_start s), usize_of (span_end s))"

definition walk_span :: "u32 \<Rightarrow> u32 \<Rightarrow> span option" where
  "walk_span head stop =
     do { width \<leftarrow> word_sub stop head; start \<leftarrow> Coord_new head; width \<leftarrow> Extent_new width;
          Some (span_of start width) }"

definition span_nat :: "nat \<Rightarrow> nat \<Rightarrow> span" where
  "span_nat a b = \<lparr>span_start = of_nat a, span_end = of_nat b\<rparr>"

lemma Coord_new_of_nat: "n \<le> admission_MAX \<Longrightarrow> Coord_new (of_nat n) = Some (of_nat n)"
  by (simp add: Coord_new_def admission_MAX_eq word_le_nat_alt unat_of_nat word_eq_unat_iff unat_ucast_down_less)

lemma Extent_new_of_nat: "n \<le> admission_MAX \<Longrightarrow> Extent_new (of_nat n) = Some (of_nat n)"
  by (simp add: Extent_new_def admission_MAX_eq word_le_nat_alt unat_of_nat word_eq_unat_iff unat_ucast_down_less)

lemma inner_of_nat:
  "n \<le> admission_MAX \<Longrightarrow> coord_inner (of_nat n) = of_nat n"
  "n \<le> admission_MAX \<Longrightarrow> extent_inner (of_nat n) = of_nat n"
  by (simp_all add: admission_MAX_eq word_eq_unat_iff unat_of_nat)

lemma walk_span_nat:
  assumes "a \<le> b" "b \<le> admission_MAX"
  shows "walk_span (of_nat a) (of_nat b) = Some (span_nat a b)"
proof -
  have "word_sub (of_nat b :: u32) (of_nat a) = Some (of_nat (b - a))"
    using assms by (intro word_sub_of_nat) (simp_all add: admission_MAX_eq)
  moreover have le: "b - a \<le> admission_MAX" "a \<le> admission_MAX" using assms by simp_all
  moreover have "(of_nat a :: u32) + of_nat (b - a) = of_nat b" using assms by simp
  with inner_of_nat [OF le(1)] inner_of_nat [OF le(2)] have "span_of (of_nat a) (of_nat (b - a)) = span_nat a b"
    by (simp only: span_of_def span_nat_def)
  ultimately show ?thesis by (simp add: walk_span_def Coord_new_of_nat Extent_new_of_nat)
qed

lemma span_nat_range: "a \<le> b \<Longrightarrow> b \<le> admission_MAX \<Longrightarrow> span_as_range (span_nat a b) = (a, b)"
  by (simp add: span_as_range_def span_nat_def usize_of_def unat_of_nat admission_MAX_eq)

section \<open>Paths at a trail\<close>

definition ids_at :: "path list \<Rightarrow> field_number list \<Rightarrow> nat list" where
  "ids_at ps t = sorted_list_of_set {i. i < length ps \<and> accepts (ps ! i) t}"

definition routed_at :: "path list \<Rightarrow> field_number list \<Rightarrow> bool" where
  "routed_at ps t \<longleftrightarrow> (\<exists>i < length ps. \<exists>u. u \<noteq> [] \<and> accepts (ps ! i) (t @ u))"

lemma visit_ids:
  "program_over ps = Inr g \<Longrightarrow> walker (program_ops g) m t \<Longrightarrow> visit_targets m f = Some (ids_at ps (t @ [f]))"
  unfolding ids_at_def by (rule walker_visits)

lemma route_step:
  assumes "program_over ps = Inr g" "walker (program_ops g) m t"
  obtains m1 m2 where "probe_routes m f = Some (routed_at ps (t @ [f]), m1)" "walker (program_ops g) m1 t"
    "commit_descent (program_ops g) m1 = Some m2" "walker (program_ops g) m2 (t @ [f])"
proof -
  from walker_routes [OF assms, of f] obtain m1 m2 where
    p: "probe_routes m f = Some (routed_at ps (t @ [f]), m1)" and c: "commit_descent (program_ops g) m1 = Some m2"
    by (auto simp: routed_at_def)
  from walker_probe [OF assms(2) p] walker_enter [OF assms(2) p c] p c show ?thesis by (intro that)
qed

fun is_len :: "payload \<Rightarrow> bool" where
  "is_len (PLen bs w) = True"
| "is_len _ = False"

section \<open>Walks in batches\<close>

text \<open>A walk whose iterator first hands out a batch of entries.\<close>

definition after :: "'e list \<Rightarrow> ('e list \<times> 'f \<times> 'c) option \<Rightarrow> ('e list \<times> 'f \<times> 'c) option" where
  "after hs r = map_option (\<lambda>(es, f, c). (hs @ es, f, c)) r"

lemma after_Nil [simp]: "after [] r = r"
  by (cases r) (auto simp: after_def)

lemma after_append: "after (xs @ ys) r = after xs (after ys r)"
  by (cases r) (auto simp: after_def)

lemma after_Some [simp]: "after hs (Some (es, f, c)) = Some (hs @ es, f, c)"
  by (simp add: after_def)

lemma after_iff: "after hs r = Some (es, f, c) \<longleftrightarrow> (\<exists>es'. r = Some (es', f, c) \<and> es = hs @ es')"
  by (cases r) (auto simp: after_def)

lemma after_Cons: "after (h # hs) r = after [h] (after hs r)"
  by (simp add: after_append [symmetric])

text \<open>A selection's iterator: a turn of its loop either returns or goes on, and what a record hits is
  handed out one by one from a list of pending hits before the next record is read.\<close>

locale batches =
  fixes turn :: "'s \<Rightarrow> ('s \<times> ('f + 'e) option, 's) control_flow option"
    and step :: "'s \<Rightarrow> ('s \<times> ('f + 'e) option) option"
    and pending :: "'s \<Rightarrow> 'e list"
    and next_hit :: "'s \<Rightarrow> nat"
    and set_hit :: "nat \<Rightarrow> 's \<Rightarrow> 's"
  assumes step_turn: "step s = do { r \<leftarrow> turn s; (case r of Break out \<Rightarrow> Some out | Continue s' \<Rightarrow> step s') }"
    and turn_hit: "next_hit s < length (pending s) \<Longrightarrow>
      turn s = Some (Break (set_hit (next_hit s + 1) s, Some (Inr (pending s ! next_hit s))))"
    and set_hit: "next_hit (set_hit n s) = n" "pending (set_hit n s) = pending s"
      "set_hit n (set_hit k s) = set_hit n s" "set_hit (next_hit s) s = s"
begin

lemma step_turns:
  "turn s = Some (Continue s') \<Longrightarrow> step s = step s'"
  "turn s = Some (Break out) \<Longrightarrow> step s = Some out"
  by (subst step_turn; simp)+

lemma walk_continue: "turn s = Some (Continue s') \<Longrightarrow> walk step s = walk step s'"
  by (subst (1 2) walk.simps) (simp add: step_turns)

lemma walk_break:
  "turn s = Some (Break (s', None)) \<Longrightarrow> walk step s = Some ([], None, s')"
  "turn s = Some (Break (s', Some (Inl f))) \<Longrightarrow> walk step s = Some ([], Some f, s')"
  by (subst walk.simps; simp add: step_turns)+

lemma walk_pending:
  "n \<le> length (pending s) \<Longrightarrow>
   walk step (set_hit n s) = after (drop n (pending s)) (walk step (set_hit (length (pending s)) s))"
proof (induction "length (pending s) - n" arbitrary: n)
  case (Suc k)
  then have n: "n < length (pending s)" by simp
  let ?s = "set_hit n s" and ?s' = "set_hit (Suc n) s" and ?h = "pending s ! n"
  have "turn ?s = Some (Break (?s', Some (Inr ?h)))" using turn_hit [of ?s] n by (simp add: set_hit)
  then have "walk step ?s = after [?h] (walk step ?s')"
    by (subst walk.simps) (auto simp: step_turns after_def split: bind_split option.split)
  also have "\<dots> = after [?h] (after (drop (Suc n) (pending s)) (walk step (set_hit (length (pending s)) s)))"
    using Suc.hyps(1) [of "Suc n"] Suc.hyps(2) n by simp
  also have "\<dots> = after (drop n (pending s)) (walk step (set_hit (length (pending s)) s))"
    using n by (simp add: after_append [symmetric] Cons_nth_drop_Suc)
  finally show ?case .
qed simp

lemma walk_batch:
  assumes "turn s = Some (Continue s')" "next_hit s' = 0"
  shows "walk step s = after (pending s') (walk step (set_hit (length (pending s')) s'))"
  using walk_pending [of 0 s'] walk_continue [OF assms(1)] set_hit(4) [of s'] assms(2) by simp

end

text \<open>An iteration that ends in a fault \<open>good\<close> describes, and then stays ended.\<close>

definition ends_faulted :: "('s \<Rightarrow> ('s \<times> ('f + 'e) option) option) \<Rightarrow> ('f \<Rightarrow> bool) \<Rightarrow> 's \<Rightarrow> bool" where
  "ends_faulted step good s \<longleftrightarrow>
     (\<exists>hs f s'. walk step s = Some (hs, Some f, s') \<and> good f \<and> step s' = Some (s', None))"

lemma ends_faulted_after:
  "walk step s = after hs (walk step s') \<Longrightarrow> ends_faulted step good s' \<Longrightarrow> ends_faulted step good s"
  by (fastforce simp: ends_faulted_def)

section \<open>Where a fault is\<close>

text \<open>A trail of crossings is nested: each head lies inside the payload of the one before.\<close>

definition nested_trail :: "crossing list \<Rightarrow> nat \<Rightarrow> bool" where
  "nested_trail xs base \<longleftrightarrow>
     sorted_wrt (<) (map (\<lambda>x. usize_of (crossing_at x)) xs) \<and> (\<forall>x \<in> set xs. usize_of (crossing_at x) < base)"

definition place_ok :: "nat \<Rightarrow> u32 \<Rightarrow> crossing list \<Rightarrow> bool" where
  "place_ok len at trail \<longleftrightarrow> usize_of at \<le> len \<and> nested_trail trail (usize_of at)"

section \<open>A program to instantiate the properties at\<close>

lemma demo_ids: "ids_at demo_paths [1] = []" "ids_at demo_paths [1, 2] = [0, 1]" "routed_at demo_paths [1]"
proof -
  have f: "{i. i < length demo_paths \<and> accepts (demo_paths ! i) t} =
      set (filter (\<lambda>i. accepts (demo_paths ! i) t) [0..<length demo_paths])" for t by auto
  have "filter (\<lambda>i. accepts (demo_paths ! i) [1]) [0..<length demo_paths] = []"
    "filter (\<lambda>i. accepts (demo_paths ! i) [1, 2]) [0..<length demo_paths] = [0, 1]" by code_simp+
  then show "ids_at demo_paths [1] = []" "ids_at demo_paths [1, 2] = [0, 1]" by (simp_all add: ids_at_def f)
  show "routed_at demo_paths [1]"
    unfolding routed_at_def by (intro exI [of _ 0] conjI exI [of _ "[2]"]) (simp_all add: demo_paths_def)
qed

lemma demo_fits: "length [a :: u8] \<le> admission_MAX" "length [10, 2, 16, 5 :: u8] \<le> admission_MAX"
  by (simp_all add: admission_MAX_eq)

end
