(* ===== verification/Select_Grouped.thy ===== *)
theory Select_Grouped
  imports Select Cursor_Grouped
begin

text \<open>
  Selection over the grouped dialect (\<open>src/src/select/grouped.rs\<close>): an iterator over the records of an
  admitted document that the paths of a program select. A stack of cursors walks the document, one
  per payload entered; the matcher follows it, and follows the groups inside each payload.

  Vectors used as stacks (layers, open groups) hold their newest element first. A step returns an
  option whose \<open>None\<close> is a panic of the checked build or undefined behaviour. The matcher's program is
  kept beside it (\<open>ms_program_gr\<close>), as \<open>Matcher\<close> takes its paths as an argument. Path ids are natural numbers.
\<close>

section \<open>Data\<close>

datatype match_kind_gr =
    MkVarint_gr u64 | MkI64_gr u64 | MkLen_gr bytes | MkGroup_gr bytes | MkI32_gr u32

record match_gr =
  mt_path_gr :: nat
  mt_field_gr :: field_number
  mt_span_gr :: span
  mt_kind_gr :: match_kind_gr

datatype wire_breach_gr =
    WbVarint_gr | WbTag_gr | WbTruncated_gr | WbGrouping_gr | WbDepth_gr | WbNonMinimal_gr

record sel_fault_gr =
  sf_at_gr :: u32
  sf_trail_gr :: "crossing list"
  sf_breach_gr :: wire_breach_gr

fun breach_class_gr :: "wire_breach_gr \<Rightarrow> fault_class" where
  "breach_class_gr WbVarint_gr = Grammar"
| "breach_class_gr WbTag_gr = Grammar"
| "breach_class_gr WbTruncated_gr = Grammar"
| "breach_class_gr WbGrouping_gr = Grammar"
| "breach_class_gr WbDepth_gr = Policy"
| "breach_class_gr WbNonMinimal_gr = Policy"

fun breach_gr :: "fault_kind_gr \<Rightarrow> wire_breach_gr" where
  "breach_gr (FkRead_gr _ _) = WbVarint_gr"
| "breach_gr (FkFieldZero_gr _) = WbTag_gr"
| "breach_gr (FkUnassigned_gr _ _) = WbTag_gr"
| "breach_gr (FkFixedTruncated_gr _) = WbTruncated_gr"
| "breach_gr (FkLenOverrun_gr _ _) = WbTruncated_gr"
| "breach_gr (FkGroupEndMismatch_gr _ _ _) = WbGrouping_gr"
| "breach_gr (FkGroupEndOrphan_gr _) = WbGrouping_gr"
| "breach_gr (FkGroupUnclosed_gr _ _) = WbGrouping_gr"
| "breach_gr (FkDepthExceeded_gr _ _) = WbDepth_gr"
| "breach_gr FkNonMinimalTag_gr = WbNonMinimal_gr"
| "breach_gr (FkNonMinimalLen_gr _) = WbNonMinimal_gr"
| "breach_gr (FkNonMinimalValue_gr _) = WbNonMinimal_gr"

record layer_gr =
  ly_cursor_gr :: cursor_gr
  ly_base_gr :: u32
  ly_crossing_gr :: "crossing option"
  ly_remaining_gr :: u16
  ly_group_depth_gr :: u16

record open_group =
  og_head :: u32
  og_body :: u32
  og_ids_at :: nat

record matches_gr =
  ms_input_gr :: bytes
  ms_layers_gr :: "layer_gr list"
  ms_program_gr :: program
  ms_matcher_gr :: "unit matcher"
  ms_limit_gr :: depth_limit
  ms_pending_gr :: "match_gr list"
  ms_next_hit_gr :: nat
  ms_stalled_gr :: "sel_fault_gr option"
  ms_groups_gr :: "open_group list"
  ms_group_ids_gr :: "nat list"

type_synonym sel_item_gr = "(sel_fault_gr + match_gr) option"

section \<open>Operations\<close>

definition trail_gr :: "layer_gr list \<Rightarrow> crossing list" where
  "trail_gr layers = List.map_filter ly_crossing_gr (rev layers)"

definition matches_over_gr :: "bytes \<Rightarrow> program \<Rightarrow> depth_limit \<Rightarrow> (oversize + matches_gr) option" where
  "matches_over_gr input program limit =
     (case cursor_over_gr input (GroupDepth_from limit) of
        Inl _ \<Rightarrow> Some (Inl Oversize)
      | Inr root \<Rightarrow>
          do { matcher \<leftarrow> matcher_new (program_ops program);
               Some (Inr \<lparr>ms_input_gr = input,
                          ms_layers_gr = [\<lparr>ly_cursor_gr = root, ly_base_gr = 0, ly_crossing_gr = None,
                                           ly_remaining_gr = limit, ly_group_depth_gr = 0\<rparr>],
                          ms_program_gr = program, ms_matcher_gr = matcher, ms_limit_gr = limit,
                          ms_pending_gr = [], ms_next_hit_gr = 0, ms_stalled_gr = None,
                          ms_groups_gr = [], ms_group_ids_gr = []\<rparr>) })"

definition sel_fault_at_gr :: "matches_gr \<Rightarrow> u32 \<Rightarrow> wire_breach_gr \<Rightarrow> sel_fault_gr" where
  "sel_fault_at_gr s at br = \<lparr>sf_at_gr = at, sf_trail_gr = trail_gr (ms_layers_gr s), sf_breach_gr = br\<rparr>"

definition hit_gr :: "field_number \<Rightarrow> span \<Rightarrow> match_kind_gr \<Rightarrow> nat \<Rightarrow> match_gr" where
  "hit_gr field sp kind i = \<lparr>mt_path_gr = i, mt_field_gr = field, mt_span_gr = sp, mt_kind_gr = kind\<rparr>"

definition fan_out_gr :: "matches_gr \<Rightarrow> field_number \<Rightarrow> span \<Rightarrow> match_kind_gr \<Rightarrow> matches_gr option" where
  "fan_out_gr s field sp kind =
     do { ids \<leftarrow> visit_targets (ms_matcher_gr s) field;
          Some (s\<lparr>ms_pending_gr := ms_pending_gr s @ map (hit_gr field sp kind) ids\<rparr>) }"

type_synonym sel_turn_gr = "(matches_gr \<times> sel_item_gr, matches_gr) control_flow"

definition sel_value_gr ::
  "matches_gr \<Rightarrow> field_number \<Rightarrow> u32 \<Rightarrow> u32 \<Rightarrow> match_kind_gr \<Rightarrow> sel_turn_gr option" where
  "sel_value_gr s field head stop kind =
     do { sp \<leftarrow> walk_span head stop; s \<leftarrow> fan_out_gr s field sp kind; Some (Continue s) }"

definition sel_exit_gr :: "matches_gr \<Rightarrow> field_number \<Rightarrow> u32 \<Rightarrow> u32 \<Rightarrow> sel_turn_gr option" where
  "sel_exit_gr s field head stop =
     do { m \<leftarrow> matcher_exit (program_ops (ms_program_gr s)) (ms_matcher_gr s);
          (case (ms_layers_gr s, ms_groups_gr s) of
             (layer # lower, grp # groups) \<Rightarrow>
               do { d \<leftarrow> word_sub (ly_group_depth_gr layer) 1;
                    let s = s\<lparr>ms_matcher_gr := m, ms_layers_gr := layer\<lparr>ly_group_depth_gr := d\<rparr> # lower,
                              ms_groups_gr := groups\<rparr> in
                    if length (ms_group_ids_gr s) > og_ids_at grp then
                      do { sp \<leftarrow> walk_span (og_head grp) stop;
                           interior \<leftarrow> get_range (ms_input_gr s) (usize_of (og_body grp)) (usize_of head);
                           Some (Continue (s\<lparr>ms_pending_gr := ms_pending_gr s @
                                map (hit_gr field sp (MkGroup_gr interior)) (drop (og_ids_at grp) (ms_group_ids_gr s)),
                              ms_group_ids_gr := take (og_ids_at grp) (ms_group_ids_gr s)\<rparr>)) }
                    else Some (Continue s) }
           | _ \<Rightarrow> None) }"

definition sel_enter_gr :: "matches_gr \<Rightarrow> field_number \<Rightarrow> u32 \<Rightarrow> u32 \<Rightarrow> sel_turn_gr option" where
  "sel_enter_gr s field head stop =
     (case ms_layers_gr s of
        layer # lower \<Rightarrow>
          if ly_group_depth_gr layer = ly_remaining_gr layer then
            Some (Break (s\<lparr>ms_layers_gr := []\<rparr>, Some (Inl (sel_fault_at_gr s head WbDepth_gr))))
          else
            do { ids \<leftarrow> visit_targets (ms_matcher_gr s) field;
                 (_, m) \<leftarrow> probe_routes (ms_matcher_gr s) field;
                 m \<leftarrow> commit_descent (program_ops (ms_program_gr s)) m;
                 d \<leftarrow> word_add (ly_group_depth_gr layer) 1;
                 Some (Continue (s\<lparr>ms_layers_gr := layer\<lparr>ly_group_depth_gr := d\<rparr> # lower, ms_matcher_gr := m,
                   ms_groups_gr := \<lparr>og_head = head, og_body = stop, og_ids_at = length (ms_group_ids_gr s)\<rparr>
                                   # ms_groups_gr s,
                   ms_group_ids_gr := ms_group_ids_gr s @ ids\<rparr>)) }
      | [] \<Rightarrow> None)"

definition sel_len_gr :: "matches_gr \<Rightarrow> field_number \<Rightarrow> u32 \<Rightarrow> u32 \<Rightarrow> bytes \<Rightarrow> sel_turn_gr option" where
  "sel_len_gr s field head stop payload =
     (case ms_layers_gr s of
        layer # _ \<Rightarrow>
          do { sp \<leftarrow> walk_span head stop;
               s \<leftarrow> fan_out_gr s field sp (MkLen_gr payload);
               (routed, m) \<leftarrow> probe_routes (ms_matcher_gr s) field;
               let s = s\<lparr>ms_matcher_gr := m\<rparr> in
               if \<not> routed then Some (Continue s)
               else if ly_group_depth_gr layer = ly_remaining_gr layer then
                 Some (Continue (s\<lparr>ms_stalled_gr := Some (sel_fault_at_gr s head WbDepth_gr)\<rparr>))
               else
                 do { start \<leftarrow> word_sub stop (of_nat (length payload));
                      m \<leftarrow> commit_descent (program_ops (ms_program_gr s)) m;
                      cursor \<leftarrow> cursor_within_gr payload (GroupDepth_from (ms_limit_gr s));
                      r \<leftarrow> word_sub (ly_remaining_gr layer) (ly_group_depth_gr layer);
                      remaining \<leftarrow> word_sub r 1;
                      Some (Continue (s\<lparr>ms_matcher_gr := m,
                        ms_layers_gr := \<lparr>ly_cursor_gr = cursor, ly_base_gr = start,
                            ly_crossing_gr = Some \<lparr>crossing_field = field, crossing_at = head\<rparr>,
                            ly_remaining_gr = remaining, ly_group_depth_gr = 0\<rparr> # ms_layers_gr s\<rparr>)) } }
      | [] \<Rightarrow> None)"

definition sel_entry_gr :: "matches_gr \<Rightarrow> entry_gr \<Rightarrow> u32 \<Rightarrow> u32 \<Rightarrow> sel_turn_gr option" where
  "sel_entry_gr s entry head stop =
     (let field = entry_field_gr entry in
      case entry_kind_gr entry of
        EkGroupExit_gr \<Rightarrow> sel_exit_gr s field head stop
      | EkGroupEnter_gr \<Rightarrow> sel_enter_gr s field head stop
      | EkVarint_gr word \<Rightarrow> sel_value_gr s field head stop (MkVarint_gr word)
      | EkI64_gr bits \<Rightarrow> sel_value_gr s field head stop (MkI64_gr bits)
      | EkI32_gr bits \<Rightarrow> sel_value_gr s field head stop (MkI32_gr bits)
      | EkLen_gr payload \<Rightarrow> sel_len_gr s field head stop payload)"

definition sel_turn_gr :: "bool \<Rightarrow> matches_gr \<Rightarrow> sel_turn_gr option" where
  "sel_turn_gr MINIMAL s =
     (if ms_next_hit_gr s < length (ms_pending_gr s) then
        Some (Break (s\<lparr>ms_next_hit_gr := ms_next_hit_gr s + 1\<rparr>,
                     Some (Inr (ms_pending_gr s ! ms_next_hit_gr s))))
      else
        (case ms_stalled_gr s of
           Some fault \<Rightarrow> Some (Break (s\<lparr>ms_stalled_gr := None, ms_layers_gr := []\<rparr>, Some (Inl fault)))
         | None \<Rightarrow>
             (case ms_layers_gr s of
                [] \<Rightarrow> Some (Break (s, None))
              | layer # lower \<Rightarrow>
                  do { head \<leftarrow> word_add (ly_base_gr layer) (cursor_pos_gr (ly_cursor_gr layer));
                       (cursor, item) \<leftarrow> step_gr MINIMAL (ly_cursor_gr layer);
                       let s = s\<lparr>ms_layers_gr := layer\<lparr>ly_cursor_gr := cursor\<rparr> # lower\<rparr> in
                       (case item of
                          None \<Rightarrow>
                            if length (ms_layers_gr s) = 1 then Some (Break (s, None))
                            else do { m \<leftarrow> matcher_exit (program_ops (ms_program_gr s)) (ms_matcher_gr s);
                                      Some (Continue (s\<lparr>ms_layers_gr := lower, ms_matcher_gr := m\<rparr>)) }
                        | Some r \<Rightarrow>
                            do { stop \<leftarrow> word_add (ly_base_gr layer) (cursor_pos_gr cursor);
                                 (case r of
                                    Inl fault \<Rightarrow>
                                      do { at \<leftarrow> word_add (ly_base_gr layer) (fault_at_gr fault);
                                           Some (Break (s\<lparr>ms_layers_gr := []\<rparr>,
                                             Some (Inl (sel_fault_at_gr s at (breach_gr (fault_kind_gr fault)))))) }
                                  | Inr entry \<Rightarrow>
                                      sel_entry_gr (s\<lparr>ms_pending_gr := [], ms_next_hit_gr := 0\<rparr>) entry head stop) }) })))"

partial_function (option) sel_step_gr :: "bool \<Rightarrow> matches_gr \<Rightarrow> (matches_gr \<times> sel_item_gr) option" where
  "sel_step_gr MINIMAL s =
     do { r \<leftarrow> sel_turn_gr MINIMAL s;
          (case r of Break out \<Rightarrow> Some out | Continue s' \<Rightarrow> sel_step_gr MINIMAL s') }"

declare sel_step_gr.simps [code]

definition matches_next_gr :: "matches_gr \<Rightarrow> (matches_gr \<times> sel_item_gr) option" where
  "matches_next_gr s = sel_step_gr False s"

record canonical_matches_gr =
  cm_walk_gr :: matches_gr

definition canonical_matches_over_gr ::
  "bytes \<Rightarrow> program \<Rightarrow> depth_limit \<Rightarrow> (oversize + canonical_matches_gr) option" where
  "canonical_matches_over_gr input program limit =
     map_option (\<lambda>r. case r of Inl e \<Rightarrow> Inl e | Inr w \<Rightarrow> Inr \<lparr>cm_walk_gr = w\<rparr>) (matches_over_gr input program limit)"

definition canonical_matches_next_gr ::
  "canonical_matches_gr \<Rightarrow> (canonical_matches_gr \<times> sel_item_gr) option" where
  "canonical_matches_next_gr c =
     map_option (\<lambda>(w, item). (c\<lparr>cm_walk_gr := w\<rparr>, item)) (sel_step_gr True (cm_walk_gr c))"

section \<open>What a selection selects\<close>

text \<open>The hits of a document, over its tokens: \<open>base\<close> is the coordinate of the payload, \<open>rem\<close> the levels
  that may still be entered, \<open>t0\<close> the fields down to the payload, \<open>at\<close> the coordinate in it and \<open>gs\<close> the
  open groups, newest first, with the coordinates of head and interior. A record hits, in ascending order,
  the paths that accept its trail. A payload some path may select inside is itself selected through, its hits
  before what follows the record; a group hits where it closes. One bound counts groups and payloads together.\<close>

type_synonym grp = "field_number \<times> nat \<times> nat"

definition below_gr :: "field_number list \<Rightarrow> grp list \<Rightarrow> field_number list" where
  "below_gr t0 gs = t0 @ rev (map fst gs)"

definition hits_gr ::
  "path list \<Rightarrow> field_number list \<Rightarrow> field_number \<Rightarrow> nat \<Rightarrow> nat \<Rightarrow> match_kind_gr \<Rightarrow> match_gr list" where
  "hits_gr ps t f a b kind = map (hit_gr f (span_nat a b) kind) (ids_at ps (t @ [f]))"

fun value_kind_gr :: "payload \<Rightarrow> match_kind_gr option" where
  "value_kind_gr (PVarint v w) = Some (MkVarint_gr v)"
| "value_kind_gr (PI64 v) = Some (MkI64_gr v)"
| "value_kind_gr (PLen bs w) = Some (MkLen_gr bs)"
| "value_kind_gr (PI32 v) = Some (MkI32_gr v)"
| "value_kind_gr PEnter = None"
| "value_kind_gr PExit = None"

inductive selects_gr ::
  "path list \<Rightarrow> bytes \<Rightarrow> bool \<Rightarrow> nat \<Rightarrow> nat \<Rightarrow> field_number list \<Rightarrow> nat \<Rightarrow> grp list \<Rightarrow> token list \<Rightarrow> match_gr list \<Rightarrow> bool"
  for ps input m where
  sg_end: "selects_gr ps input m base rem t0 at [] [] []"
| sg_value: "tok_ok t \<Longrightarrow> (m \<longrightarrow> tok_minimal t) \<Longrightarrow> value_kind_gr (tk_payload t) = Some kind \<Longrightarrow>
    \<not> (is_len (tk_payload t) \<and> routed_at ps (below_gr t0 gs @ [tk_field t])) \<Longrightarrow>
    stop = at + length (emit_tok t) \<Longrightarrow>
    selects_gr ps input m base rem t0 stop gs ts hs \<Longrightarrow>
    selects_gr ps input m base rem t0 at gs (t # ts)
      (hits_gr ps (below_gr t0 gs) (tk_field t) (base + at) (base + stop) kind @ hs)"
| sg_payload: "tok_ok t \<Longrightarrow> (m \<longrightarrow> tok_minimal t) \<Longrightarrow> t = Token f w (PLen (emit us) lw) \<Longrightarrow>
    routed_at ps (below_gr t0 gs @ [f]) \<Longrightarrow> length gs < rem \<Longrightarrow> stop = at + length (emit_tok t) \<Longrightarrow>
    selects_gr ps input m (base + stop - length (emit us)) (rem - length gs - 1) (below_gr t0 gs @ [f]) 0 [] us hs1 \<Longrightarrow>
    selects_gr ps input m base rem t0 stop gs ts hs2 \<Longrightarrow>
    selects_gr ps input m base rem t0 at gs (t # ts)
      (hits_gr ps (below_gr t0 gs) f (base + at) (base + stop) (MkLen_gr (emit us)) @ hs1 @ hs2)"
| sg_enter: "tok_ok t \<Longrightarrow> (m \<longrightarrow> tok_minimal t) \<Longrightarrow> t = Token f w PEnter \<Longrightarrow> length gs < rem \<Longrightarrow>
    stop = at + length (emit_tok t) \<Longrightarrow>
    selects_gr ps input m base rem t0 stop ((f, base + at, base + stop) # gs) ts hs \<Longrightarrow>
    selects_gr ps input m base rem t0 at gs (t # ts) hs"
| sg_exit: "tok_ok t \<Longrightarrow> (m \<longrightarrow> tok_minimal t) \<Longrightarrow> t = Token f w PExit \<Longrightarrow> stop = at + length (emit_tok t) \<Longrightarrow>
    selects_gr ps input m base rem t0 stop gs ts hs \<Longrightarrow>
    selects_gr ps input m base rem t0 at ((f, head, body) # gs) (t # ts)
      (hits_gr ps (below_gr t0 gs) f head (base + stop) (MkGroup_gr (extent_of input body (base + at))) @ hs)"

section \<open>Stepping in batches\<close>

definition quiet_gr :: "matches_gr \<Rightarrow> matches_gr" where
  "quiet_gr s = s\<lparr>ms_next_hit_gr := length (ms_pending_gr s)\<rparr>"

interpretation batch_gr: batches "sel_turn_gr m" "sel_step_gr m" ms_pending_gr ms_next_hit_gr
    "\<lambda>n s. s\<lparr>ms_next_hit_gr := n\<rparr>" for m
  by unfold_locales (simp_all add: sel_step_gr.simps [of m] sel_turn_gr_def)

lemmas walk_batch_gr = batch_gr.walk_batch [folded quiet_gr_def]

section \<open>The state of a selection\<close>

text \<open>What the matcher holds for the open groups of the top layer, over the ids \<open>I\<close> of those under it.\<close>

fun held_gr :: "path list \<Rightarrow> field_number list \<Rightarrow> nat list \<Rightarrow> grp list \<Rightarrow> nat list" where
  "held_gr ps t0 I [] = I"
| "held_gr ps t0 I (g # gs) = held_gr ps t0 I gs @ ids_at ps (below_gr t0 (g # gs))"

fun opened_gr :: "path list \<Rightarrow> field_number list \<Rightarrow> nat list \<Rightarrow> grp list \<Rightarrow> open_group list" where
  "opened_gr ps t0 I [] = []"
| "opened_gr ps t0 I ((f, h, b) # gs) =
     \<lparr>og_head = of_nat h, og_body = of_nat b, og_ids_at = length (held_gr ps t0 I gs)\<rparr> # opened_gr ps t0 I gs"

definition lay_gr :: "cursor_gr \<Rightarrow> nat \<Rightarrow> crossing option \<Rightarrow> nat \<Rightarrow> grp list \<Rightarrow> layer_gr" where
  "lay_gr c base x rem gs =
     \<lparr>ly_cursor_gr = c, ly_base_gr = of_nat base, ly_crossing_gr = x, ly_remaining_gr = of_nat rem,
      ly_group_depth_gr = of_nat (length gs)\<rparr>"

definition fits_gr :: "nat \<Rightarrow> depth_limit \<Rightarrow> cursor_gr \<Rightarrow> nat \<Rightarrow> nat \<Rightarrow> grp list \<Rightarrow> bool" where
  "fits_gr len limit c base rem gs \<longleftrightarrow>
     len \<le> admission_MAX \<and> base + length (cur_data_gr c) \<le> len \<and> cur_at_gr c \<le> length (cur_data_gr c) \<and>
     cur_limit_gr c = limit \<and> rem \<le> unat limit \<and> length gs \<le> rem \<and>
     map fst (cur_opens_gr c) = map fst gs \<and> list_all (\<lambda>(f, h, b). h \<le> b \<and> b \<le> base + cur_at_gr c) gs"

definition seat_gr ::
  "path list \<Rightarrow> bytes \<Rightarrow> depth_limit \<Rightarrow> matches_gr \<Rightarrow> cursor_gr \<Rightarrow> nat \<Rightarrow> nat \<Rightarrow> crossing option \<Rightarrow> field_number list \<Rightarrow> grp list \<Rightarrow>
   layer_gr list \<Rightarrow> open_group list \<Rightarrow> nat list \<Rightarrow> bool" where
  "seat_gr ps input limit s c base rem x t0 gs Ls G I \<longleftrightarrow>
     program_over ps = Inr (ms_program_gr s) \<and> ms_input_gr s = input \<and> ms_limit_gr s = limit \<and> ms_stalled_gr s = None \<and>
     ms_next_hit_gr s = length (ms_pending_gr s) \<and> ms_layers_gr s = lay_gr c base x rem gs # Ls \<and>
     walker (program_ops (ms_program_gr s)) (ms_matcher_gr s) (below_gr t0 gs) \<and>
     ms_groups_gr s = opened_gr ps t0 I gs @ G \<and> ms_group_ids_gr s = held_gr ps t0 I gs \<and>
     fits_gr (length input) limit c base rem gs \<and> nested_trail (trail_gr (ms_layers_gr s)) base"

lemma below_gr_simps [simp]:
  "below_gr t0 [] = t0" "below_gr t0 ((f, r) # gs) = below_gr t0 gs @ [f]"
  by (simp_all add: below_gr_def)

lemma trail_gr_layer: "trail_gr (lay_gr c base x rem gs # Ls) = trail_gr Ls @ (case x of None \<Rightarrow> [] | Some y \<Rightarrow> [y])"
  by (simp add: trail_gr_def lay_gr_def List.map_filter_def split: option.split)

lemma adv_gr_fields [simp]:
  "cur_data_gr (adv_gr c t) = cur_data_gr c" "cur_at_gr (adv_gr c t) = cur_at_gr c + length (emit_tok t)"
  "cur_limit_gr (adv_gr c t) = cur_limit_gr c"
  "cur_opens_gr (adv_gr c t) = the (opens_after (unat (cur_limit_gr c)) (cur_opens_gr c) (cur_at_gr c) t)"
  by (simp_all add: adv_gr_def deliver_tok_gr_def)

text \<open>The groups open after a token, and what the group discipline asks of it.\<close>

fun regroup_gr :: "nat \<Rightarrow> nat \<Rightarrow> token \<Rightarrow> grp list \<Rightarrow> grp list" where
  "regroup_gr head stop (Token f w PEnter) gs = (f, head, stop) # gs"
| "regroup_gr head stop (Token f w PExit) gs = tl gs"
| "regroup_gr head stop (Token f w p) gs = gs"

lemma room_gr: "suffix_gr c = emit_tok t @ rest \<Longrightarrow> cur_at_gr c \<le> length (cur_data_gr c) \<Longrightarrow>
  cur_at_gr c + length (emit_tok t) \<le> length (cur_data_gr c)"
  by (drule arg_cong [where f = length]) (simp add: suffix_gr_def)

lemma fits_adv_gr:
  assumes "fits_gr len limit c base rem gs" "suffix_gr c = emit_tok t @ rest" "lawful_gr m c t"
    and "tk_payload t = PEnter \<Longrightarrow> length gs < rem"
  shows "fits_gr len limit (adv_gr c t) base rem
    (regroup_gr (base + cur_at_gr c) (base + cur_at_gr c + length (emit_tok t)) t gs)"
proof -
  have room: "cur_at_gr c + length (emit_tok t) \<le> length (cur_data_gr c)"
    using assms(1) by (intro room_gr [OF assms(2)]) (simp add: fits_gr_def)
  have l: "length (cur_opens_gr c) = length gs"
    using assms(1) map_eq_imp_length_eq by (auto simp: fits_gr_def)
  obtain f w p where t: "t = Token f w p" by (cases t)
  have old: "list_all (\<lambda>(f, h, b). h \<le> b \<and> b \<le> base + cur_at_gr (adv_gr c t)) gs"
    using assms(1) by (fastforce simp: fits_gr_def list_all_iff)
  show ?thesis
  proof (cases p)
    case PEnter
    with assms l room old show ?thesis
      by (auto simp: t fits_gr_def lawful_gr_def opens_after_def)
  next
    case PExit
    with assms obtain g os where o: "cur_opens_gr c = (f, g) # os"
      by (auto simp: t lawful_gr_def opens_after_def split: list.splits if_splits)
    then obtain h gs' where "gs = (f, h) # gs'" using assms(1) by (cases gs) (auto simp: fits_gr_def)
    with PExit o assms l room old show ?thesis by (auto simp: t fits_gr_def opens_after_def)
  qed (use assms room old in \<open>auto simp: t fits_gr_def opens_after_def\<close>)
qed

section \<open>The arms of a turn\<close>

text \<open>The selection once the top cursor delivered: the previous record's hits are forgotten.\<close>

definition moved_gr :: "matches_gr \<Rightarrow> layer_gr \<Rightarrow> layer_gr list \<Rightarrow> matches_gr" where
  "moved_gr s l Ls = s\<lparr>ms_layers_gr := l # Ls, ms_pending_gr := [], ms_next_hit_gr := 0\<rparr>"

lemma moved_gr_fields [simp]:
  "ms_layers_gr (moved_gr s l Ls) = l # Ls" "ms_pending_gr (moved_gr s l Ls) = []"
  "ms_next_hit_gr (moved_gr s l Ls) = 0" "ms_input_gr (moved_gr s l Ls) = ms_input_gr s"
  "ms_program_gr (moved_gr s l Ls) = ms_program_gr s" "ms_matcher_gr (moved_gr s l Ls) = ms_matcher_gr s"
  "ms_limit_gr (moved_gr s l Ls) = ms_limit_gr s" "ms_stalled_gr (moved_gr s l Ls) = ms_stalled_gr s"
  "ms_groups_gr (moved_gr s l Ls) = ms_groups_gr s" "ms_group_ids_gr (moved_gr s l Ls) = ms_group_ids_gr s"
  by (simp_all add: moved_gr_def)

lemma lay_gr_fields [simp]:
  "ly_cursor_gr (lay_gr c base x rem gs) = c" "ly_base_gr (lay_gr c base x rem gs) = of_nat base"
  "ly_crossing_gr (lay_gr c base x rem gs) = x" "ly_remaining_gr (lay_gr c base x rem gs) = of_nat rem"
  "ly_group_depth_gr (lay_gr c base x rem gs) = of_nat (length gs)"
  "lay_gr c base x rem gs\<lparr>ly_cursor_gr := c'\<rparr> = lay_gr c' base x rem gs"
  by (simp_all add: lay_gr_def)

lemma seat_pos_gr:
  assumes "seat_gr ps input limit s c base rem x t0 gs Ls G I" "at \<le> length (cur_data_gr c)"
  shows "word_add (of_nat base) (admitted_u32 at) = Some (of_nat (base + at))" "base + at \<le> admission_MAX"
proof -
  have "base + at \<le> admission_MAX" using assms by (simp add: seat_gr_def fits_gr_def)
  then show "base + at \<le> admission_MAX"
    "word_add (of_nat base) (admitted_u32 at) = Some (of_nat (base + at))"
    unfolding admitted_u32_def by (simp, intro word_add_of_nat) (simp add: admission_MAX_eq)
qed

lemma seat_at_gr: "seat_gr ps input limit s c base rem x t0 gs Ls G I \<Longrightarrow> cur_at_gr c \<le> length (cur_data_gr c)"
  by (simp add: seat_gr_def fits_gr_def)

lemma turn_entry_gr:
  assumes seat: "seat_gr ps input limit s c base rem x t0 gs Ls G I"
    and t: "step_gr m c = Some (adv_gr c t, Some (Inr e))" "suffix_gr c = emit_tok t @ rest"
  shows "sel_turn_gr m s = sel_entry_gr (moved_gr s (lay_gr (adv_gr c t) base x rem gs) Ls) e
    (of_nat (base + cur_at_gr c)) (of_nat (base + (cur_at_gr c + length (emit_tok t))))"
proof -
  have "\<not> ms_next_hit_gr s < length (ms_pending_gr s)" "ms_stalled_gr s = None"
    "ms_layers_gr s = lay_gr c base x rem gs # Ls" using seat by (simp_all add: seat_gr_def)
  moreover note seat_pos_gr(1) [OF seat seat_at_gr [OF seat]] seat_pos_gr(1) [OF seat room_gr [OF t(2) seat_at_gr [OF seat]]]
  ultimately show ?thesis
    by (simp add: sel_turn_gr_def cursor_pos_gr_def t(1) moved_gr_def Let_def del: of_nat_add)
qed

text \<open>The same seat after a turn that moved the cursor, the groups and the matcher.\<close>

lemma seat_moved_gr:
  assumes "seat_gr ps input limit s c base rem x t0 gs Ls G I"
    and "fits_gr (length input) limit c' base rem gs'"
    and "walker (program_ops (ms_program_gr s)) m' (below_gr t0 gs')"
    and "s' = (moved_gr s (lay_gr c' base x rem gs') Ls)\<lparr>ms_matcher_gr := m', ms_pending_gr := P,
        ms_groups_gr := opened_gr ps t0 I gs' @ G, ms_group_ids_gr := held_gr ps t0 I gs'\<rparr>"
  shows "seat_gr ps input limit (quiet_gr s') c' base rem x t0 gs' Ls G I"
  using assms unfolding seat_gr_def quiet_gr_def by (clarsimp simp: trail_gr_layer)

lemma seat_fan_out_gr:
  assumes seat: "seat_gr ps input limit s c base rem x t0 gs Ls G I" and "a \<le> b" "b \<le> admission_MAX"
  shows "walk_span (of_nat a) (of_nat b) = Some (span_nat a b)"
    "fan_out_gr (moved_gr s l Ls) f (span_nat a b) kind =
       Some ((moved_gr s l Ls)\<lparr>ms_pending_gr := hits_gr ps (below_gr t0 gs) f a b kind\<rparr>)"
proof -
  have "visit_targets (ms_matcher_gr s) f = Some (ids_at ps (below_gr t0 gs @ [f]))"
    using seat unfolding seat_gr_def by (intro visit_ids) blast+
  then show "fan_out_gr (moved_gr s l Ls) f (span_nat a b) kind =
       Some ((moved_gr s l Ls)\<lparr>ms_pending_gr := hits_gr ps (below_gr t0 gs) f a b kind\<rparr>)"
    by (simp add: fan_out_gr_def hits_gr_def)
qed (use assms in \<open>simp add: walk_span_nat\<close>)

lemma turn_value_gr:
  assumes seat: "seat_gr ps input limit s c base rem x t0 gs Ls G I"
    and t: "step_gr m c = Some (adv_gr c t, Some (Inr (entry_of_gr t)))" "suffix_gr c = emit_tok t @ rest"
      "lawful_gr m c t" and stop: "stop = cur_at_gr c + length (emit_tok t)"
    and k: "value_kind_gr (tk_payload t) = Some kind"
      "\<not> (is_len (tk_payload t) \<and> routed_at ps (below_gr t0 gs @ [tk_field t]))"
  obtains s' where "sel_turn_gr m s = Some (Continue s')" "ms_next_hit_gr s' = 0"
    "ms_pending_gr s' = hits_gr ps (below_gr t0 gs) (tk_field t) (base + cur_at_gr c) (base + stop) kind"
    "seat_gr ps input limit (quiet_gr s') (adv_gr c t) base rem x t0 gs Ls G I"
proof -
  let ?M = "moved_gr s (lay_gr (adv_gr c t) base x rem gs) Ls" and ?a = "base + cur_at_gr c" and ?b = "base + stop"
  let ?h = "hits_gr ps (below_gr t0 gs) (tk_field t) ?a ?b kind"
  have b: "?a \<le> ?b" "?b \<le> admission_MAX"
    using seat_pos_gr(2) [OF seat room_gr [OF t(2) seat_at_gr [OF seat]]] stop by simp_all
  note out = seat_fan_out_gr [OF seat b]
  have gs: "regroup_gr h' q t gs = gs" for h' q using k(1) by (cases t; cases "tk_payload t") auto
  have fits: "fits_gr (length input) limit (adv_gr c t) base rem gs"
    using fits_adv_gr [OF _ t(2,3), of "length input" limit base rem gs] seat k(1)
    unfolding gs seat_gr_def by fastforce
  note turn = turn_entry_gr [OF seat t(1,2), folded stop]
  have w: "program_over ps = Inr (ms_program_gr s)" "walker (program_ops (ms_program_gr s)) (ms_matcher_gr s) (below_gr t0 gs)"
    and same: "ms_groups_gr s = opened_gr ps t0 I gs @ G" "ms_group_ids_gr s = held_gr ps t0 I gs"
    using seat by (simp_all add: seat_gr_def)
  show ?thesis
  proof (cases "is_len (tk_payload t)")
    case False
    then have "sel_turn_gr m s = Some (Continue (?M\<lparr>ms_pending_gr := ?h\<rparr>))"
      using k(1) out
      by (cases "tk_payload t") (simp_all add: turn sel_entry_gr_def entry_of_gr_def sel_value_gr_def del: of_nat_add)
    moreover have "seat_gr ps input limit (quiet_gr (?M\<lparr>ms_pending_gr := ?h\<rparr>)) (adv_gr c t) base rem x t0 gs Ls G I"
      by (rule seat_moved_gr [OF seat fits w(2), of _ ?h]) (simp add: moved_gr_def same)
    ultimately show ?thesis by (intro that [of "?M\<lparr>ms_pending_gr := ?h\<rparr>"]) simp_all
  next
    case True
    then obtain bs lw where p: "tk_payload t = PLen bs lw" by (cases "tk_payload t") auto
    obtain m1 where m1: "probe_routes (ms_matcher_gr s) (tk_field t) = Some (False, m1)"
        "walker (program_ops (ms_program_gr s)) m1 (below_gr t0 gs)"
      by (rule route_step [OF w, of "tk_field t"]) (rule that, use k(2) True in simp_all)
    then have "sel_turn_gr m s = Some (Continue (?M\<lparr>ms_pending_gr := ?h, ms_matcher_gr := m1\<rparr>))"
      using k(1) out by (simp add: p turn sel_entry_gr_def entry_of_gr_def sel_len_gr_def del: of_nat_add)
    moreover have "seat_gr ps input limit (quiet_gr (?M\<lparr>ms_pending_gr := ?h, ms_matcher_gr := m1\<rparr>)) (adv_gr c t) base rem x t0 gs Ls G I"
      by (rule seat_moved_gr [OF seat fits m1(2), of _ ?h]) (simp add: moved_gr_def same)
    ultimately show ?thesis by (intro that [of "?M\<lparr>ms_pending_gr := ?h, ms_matcher_gr := m1\<rparr>"]) simp_all
  qed
qed

lemma seat_depth_gr:
  assumes "seat_gr ps input limit s c base rem x t0 gs Ls G I"
  shows "(of_nat (length gs) :: u16) = of_nat rem \<longleftrightarrow> length gs = rem" "length gs \<le> rem" "rem < 65536"
proof -
  show r: "rem < 65536" and l: "length gs \<le> rem"
    using assms unsigned_less [of limit, where ?'a = nat] by (auto simp: seat_gr_def fits_gr_def)
  have "unat (of_nat (length gs) :: u16) = length gs" "unat (of_nat rem :: u16) = rem"
    using r l by (simp_all add: unat_of_nat)
  then show "(of_nat (length gs) :: u16) = of_nat rem \<longleftrightarrow> length gs = rem" by metis
qed

lemma turn_enter_gr:
  assumes seat: "seat_gr ps input limit s c base rem x t0 gs Ls G I"
    and t: "step_gr m c = Some (adv_gr c t, Some (Inr (entry_of_gr t)))" "suffix_gr c = emit_tok t @ rest"
      "lawful_gr m c t" and stop: "stop = cur_at_gr c + length (emit_tok t)"
    and p: "t = Token f w PEnter" and d: "length gs < rem"
  obtains s' where "sel_turn_gr m s = Some (Continue s')" "ms_next_hit_gr s' = 0" "ms_pending_gr s' = []"
    "seat_gr ps input limit (quiet_gr s') (adv_gr c t) base rem x t0 ((f, base + cur_at_gr c, base + stop) # gs) Ls G I"
proof -
  let ?gs = "(f, base + cur_at_gr c, base + stop) # gs"
  have fits: "fits_gr (length input) limit (adv_gr c t) base rem ?gs"
    using fits_adv_gr [OF _ t(2,3), of "length input" limit base rem gs] seat d
    unfolding p stop seat_gr_def by (simp add: add.assoc)
  have w: "program_over ps = Inr (ms_program_gr s)" "walker (program_ops (ms_program_gr s)) (ms_matcher_gr s) (below_gr t0 gs)"
    and same: "ms_groups_gr s = opened_gr ps t0 I gs @ G" "ms_group_ids_gr s = held_gr ps t0 I gs"
    using seat by (simp_all add: seat_gr_def)
  obtain m1 m2 where m: "probe_routes (ms_matcher_gr s) f = Some (routed_at ps (below_gr t0 gs @ [f]), m1)"
    "commit_descent (program_ops (ms_program_gr s)) m1 = Some m2"
    "walker (program_ops (ms_program_gr s)) m2 (below_gr t0 ?gs)"
    by (rule route_step [OF w, of f]) (rule that, assumption, assumption, simp)
  have one: "word_add (of_nat (length gs) :: u16) 1 = Some (of_nat (length ?gs))"
    using word_add_of_nat [of "length gs" 1, where ?'a = 16] d seat_depth_gr(3) [OF seat]
    by (simp add: Suc_eq_plus1 del: of_nat_add of_nat_Suc One_nat_def)
  define s' where "s' = (moved_gr s (lay_gr (adv_gr c t) base x rem ?gs) Ls)\<lparr>ms_matcher_gr := m2, ms_pending_gr := [],
        ms_groups_gr := opened_gr ps t0 I ?gs @ G, ms_group_ids_gr := held_gr ps t0 I ?gs\<rparr>"
  have "sel_turn_gr m s = Some (Continue s')"
    unfolding turn_entry_gr [OF seat t(1,2)] stop [symmetric]
    using m(1,2) one d visit_ids [OF w, of f] seat_depth_gr(1) [OF seat]
    by (simp add: s'_def p entry_of_gr_def sel_entry_gr_def sel_enter_gr_def same moved_gr_def lay_gr_def del: of_nat_add of_nat_Suc)
  moreover have "seat_gr ps input limit (quiet_gr s') (adv_gr c t) base rem x t0 ?gs Ls G I"
    by (rule seat_moved_gr [OF seat fits m(3)]) (simp add: s'_def)
  ultimately show ?thesis by (intro that [of s']) (simp_all add: s'_def)
qed

lemma exit_group_gr:
  assumes "seat_gr ps input limit s c base rem x t0 gs Ls G I" "lawful_gr m c (Token f w PExit)"
  obtains h b gs' where "gs = (f, h, b) # gs'" "h \<le> b" "b \<le> base + cur_at_gr c"
proof -
  from assms(2) obtain g os where "cur_opens_gr c = (f, g) # os"
    by (auto simp: lawful_gr_def opens_after_def split: list.splits if_splits)
  moreover have "map fst (cur_opens_gr c) = map fst gs" "list_all (\<lambda>(f, h, b). h \<le> b \<and> b \<le> base + cur_at_gr c) gs"
    using assms(1) by (simp_all add: seat_gr_def fits_gr_def)
  ultimately show ?thesis using that by (cases gs) auto
qed

lemma turn_exit_gr:
  assumes seat: "seat_gr ps input limit s c base rem x t0 ((f, h, b) # gs) Ls G I"
    and t: "step_gr m c = Some (adv_gr c t, Some (Inr (entry_of_gr t)))" "suffix_gr c = emit_tok t @ rest"
      "lawful_gr m c t" and stop: "stop = cur_at_gr c + length (emit_tok t)"
    and p: "t = Token f w PExit" and hb: "h \<le> b" "b \<le> base + cur_at_gr c"
  obtains s' where "sel_turn_gr m s = Some (Continue s')" "ms_next_hit_gr s' = 0"
    "ms_pending_gr s' = hits_gr ps (below_gr t0 gs) f h (base + stop) (MkGroup_gr (extent_of input b (base + cur_at_gr c)))"
    "seat_gr ps input limit (quiet_gr s') (adv_gr c t) base rem x t0 gs Ls G I"
proof -
  let ?g = "(f, h, b) # gs" and ?k = "MkGroup_gr (extent_of input b (base + cur_at_gr c))"
  let ?h = "hits_gr ps (below_gr t0 gs) f h (base + stop) ?k"
  have fits: "fits_gr (length input) limit (adv_gr c t) base rem gs"
    using fits_adv_gr [OF _ t(2,3), of "length input" limit base rem ?g] seat
    unfolding p seat_gr_def by simp
  have w: "program_over ps = Inr (ms_program_gr s)"
      "walker (program_ops (ms_program_gr s)) (ms_matcher_gr s) (below_gr t0 gs @ [f])"
    and same: "ms_groups_gr s = opened_gr ps t0 I ?g @ G" "ms_group_ids_gr s = held_gr ps t0 I ?g" "ms_input_gr s = input"
    using seat by (simp_all add: seat_gr_def)
  from walker_exits [OF w] obtain m' where m': "matcher_exit (program_ops (ms_program_gr s)) (ms_matcher_gr s) = Some m'"
    "walker (program_ops (ms_program_gr s)) m' (below_gr t0 gs)" by blast
  have one: "word_sub (of_nat (length ?g) :: u16) 1 = Some (of_nat (length gs))"
    using word_sub_of_nat [of 1 "length ?g", where ?'a = 16] seat_depth_gr(2,3) [OF seat] by simp
  have room: "base + stop \<le> admission_MAX" "base + cur_at_gr c \<le> length input" "h \<le> base + stop"
    using seat_pos_gr(2) [OF seat room_gr [OF t(2) seat_at_gr [OF seat]]] seat stop hb
    by (auto simp: seat_gr_def fits_gr_def)
  have span: "walk_span (of_nat h) (of_nat (base + stop)) = Some (span_nat h (base + stop))"
    by (rule walk_span_nat [OF room(3,1)])
  have range: "get_range input (usize_of (of_nat b)) (usize_of (of_nat (base + cur_at_gr c))) =
      Some (extent_of input b (base + cur_at_gr c))"
    using hb room(1,2) stop
    by (simp add: get_range_def usize_of_def unat_of_nat admission_MAX_eq del: of_nat_add)
  define s' where "s' = (moved_gr s (lay_gr (adv_gr c t) base x rem gs) Ls)\<lparr>ms_matcher_gr := m', ms_pending_gr := ?h,
        ms_groups_gr := opened_gr ps t0 I gs @ G, ms_group_ids_gr := held_gr ps t0 I gs\<rparr>"
  have "sel_turn_gr m s = Some (Continue s')"
    unfolding turn_entry_gr [OF seat t(1,2)] stop [symmetric]
    using m'(1) one span range
    by (simp add: s'_def p entry_of_gr_def sel_entry_gr_def sel_exit_gr_def same moved_gr_def lay_gr_def hits_gr_def Let_def
        del: of_nat_add of_nat_Suc)
  moreover have "seat_gr ps input limit (quiet_gr s') (adv_gr c t) base rem x t0 gs Ls G I"
    by (rule seat_moved_gr [OF seat fits m'(2)]) (simp add: s'_def)
  ultimately show ?thesis by (intro that [of s']) (simp_all add: s'_def)
qed

lemma turn_payload_gr:
  assumes seat: "seat_gr ps input limit s c base rem x t0 gs Ls G I"
    and t: "step_gr m c = Some (adv_gr c t, Some (Inr (entry_of_gr t)))" "suffix_gr c = emit_tok t @ rest"
      "lawful_gr m c t" and stop: "stop = cur_at_gr c + length (emit_tok t)"
    and p: "t = Token f w (PLen bs lw)" and d: "length gs < rem" and r: "routed_at ps (below_gr t0 gs @ [f])"
  obtains s' c' y where "sel_turn_gr m s = Some (Continue s')" "ms_next_hit_gr s' = 0"
    "ms_pending_gr s' = hits_gr ps (below_gr t0 gs) f (base + cur_at_gr c) (base + stop) (MkLen_gr bs)"
    "seat_gr ps input limit (quiet_gr s') c' (base + stop - length bs) (rem - length gs - 1) y (below_gr t0 gs @ [f]) []
       (lay_gr (adv_gr c t) base x rem gs # Ls) (opened_gr ps t0 I gs @ G) (held_gr ps t0 I gs)"
    "suffix_gr c' = bs" "cur_at_gr c' = 0"
    "fits_gr (length input) limit (adv_gr c t) base rem gs"
    "nested_trail (trail_gr (lay_gr (adv_gr c t) base x rem gs # Ls)) base"
proof -
  let ?a = "base + cur_at_gr c" and ?b = "base + stop" and ?L = "lay_gr (adv_gr c t) base x rem gs"
  let ?h = "hits_gr ps (below_gr t0 gs) f ?a ?b (MkLen_gr bs)" and ?M = "moved_gr s ?L Ls"
  let ?y = "Some \<lparr>crossing_field = f, crossing_at = of_nat ?a\<rparr>"
  have room: "cur_at_gr c + length (emit_tok t) \<le> length (cur_data_gr c)"
    by (rule room_gr [OF t(2) seat_at_gr [OF seat]])
  have "0 < w" "length bs < 2 ^ 31" using t(3) by (simp_all add: p lawful_gr_def)
  then have bs: "cur_at_gr c < stop - length bs" "length bs \<le> stop" "length bs \<le> admission_MAX"
    by (simp_all add: stop p admission_MAX_eq)
  have b: "?a \<le> ?b" "?b \<le> admission_MAX" using seat_pos_gr(2) [OF seat room] stop by simp_all
  have fits: "fits_gr (length input) limit (adv_gr c t) base rem gs"
    using fits_adv_gr [OF _ t(2,3), of "length input" limit base rem gs] seat unfolding p seat_gr_def by simp
  have w: "program_over ps = Inr (ms_program_gr s)" "walker (program_ops (ms_program_gr s)) (ms_matcher_gr s) (below_gr t0 gs)"
    and same: "ms_groups_gr s = opened_gr ps t0 I gs @ G" "ms_group_ids_gr s = held_gr ps t0 I gs"
      "ms_input_gr s = input" "ms_limit_gr s = limit" "ms_stalled_gr s = None"
    and nest: "nested_trail (trail_gr (?L # Ls)) base"
    using seat by (auto simp: seat_gr_def trail_gr_layer)
  obtain m1 m2 where m: "probe_routes (ms_matcher_gr s) f = Some (True, m1)"
    "commit_descent (program_ops (ms_program_gr s)) m1 = Some m2"
    "walker (program_ops (ms_program_gr s)) m2 (below_gr t0 gs @ [f])"
    using r by (auto intro: route_step [OF w, of f])
  obtain ci where ci: "cursor_within_gr bs (GroupDepth_from limit) = Some ci" "cur_data_gr ci = bs" "cur_at_gr ci = 0"
    "cur_opens_gr ci = []" "cur_limit_gr ci = limit"
    using bs(3) by (simp add: cursor_within_gr_def GroupDepth_from_def)
  note depth = seat_depth_gr [OF seat]
  have start: "word_sub (of_nat ?b :: u32) (of_nat (length bs)) = Some (of_nat (?b - length bs))"
    using bs(2) b(2) by (intro word_sub_of_nat) (simp_all add: admission_MAX_eq)
  have left: "word_sub (of_nat rem :: u16) (of_nat (length gs)) = Some (of_nat (rem - length gs))"
    "word_sub (of_nat (rem - length gs) :: u16) 1 = Some (of_nat (rem - length gs - 1))"
    using depth word_sub_of_nat [of 1 "rem - length gs", where ?'a = 16] d word_sub_of_nat [of "length gs" rem, where ?'a = 16]
    by simp_all
  define s' where "s' = ?M\<lparr>ms_pending_gr := ?h, ms_matcher_gr := m2,
      ms_layers_gr := lay_gr ci (?b - length bs) ?y (rem - length gs - 1) [] # ?L # Ls\<rparr>"
  have "sel_turn_gr m s = Some (Continue s')"
    unfolding turn_entry_gr [OF seat t(1,2)] stop [symmetric]
    using seat_fan_out_gr [OF seat b] m(1,2) ci(1) start left d depth(1)
    by (simp add: s'_def p entry_of_gr_def sel_entry_gr_def sel_len_gr_def same Let_def lay_gr_def moved_gr_def
        del: of_nat_add of_nat_diff)
  moreover have "seat_gr ps input limit (quiet_gr s') ci (?b - length bs) (rem - length gs - 1) ?y (below_gr t0 gs @ [f]) []
       (?L # Ls) (opened_gr ps t0 I gs @ G) (held_gr ps t0 I gs)"
  proof -
    have "fits_gr (length input) limit ci (?b - length bs) (rem - length gs - 1) []"
      using fits ci bs room by (auto simp: fits_gr_def stop)
    moreover have "usize_of (of_nat ?a) = ?a"
      using b by (simp add: usize_of_def unat_of_nat admission_MAX_eq del: of_nat_add)
    then have "nested_trail (trail_gr (lay_gr ci (?b - length bs) ?y (rem - length gs - 1) [] # ?L # Ls)) (?b - length bs)"
      using nest bs(1,2)
      by (subst trail_gr_layer) (fastforce simp: nested_trail_def sorted_wrt_append)
    ultimately show ?thesis using m(3) w(1) by (simp add: s'_def seat_gr_def quiet_gr_def same)
  qed
  moreover have "suffix_gr ci = bs" using ci by (simp add: suffix_gr_def)
  ultimately show ?thesis using ci(3) fits nest by (intro that [of s' ci ?y]) (simp_all add: s'_def)
qed

section \<open>Turns that end a layer or the selection\<close>

definition fault_ok_gr :: "nat \<Rightarrow> sel_fault_gr \<Rightarrow> bool" where
  "fault_ok_gr len f \<longleftrightarrow> place_ok len (sf_at_gr f) (sf_trail_gr f)"

abbreviation faulting_gr :: "bool \<Rightarrow> nat \<Rightarrow> matches_gr \<Rightarrow> bool" where
  "faulting_gr m len \<equiv> ends_faulted (sel_step_gr m) (fault_ok_gr len)"

lemma faulting_batch_gr:
  assumes "sel_turn_gr m s = Some (Continue s')" "ms_next_hit_gr s' = 0" "faulting_gr m len (quiet_gr s')"
  shows "faulting_gr m len s"
  by (rule ends_faulted_after [OF walk_batch_gr [OF assms(1,2)] assms(3)])

text \<open>A fault is answered, and the selection is over.\<close>

lemma faulting_break_gr:
  assumes "sel_turn_gr m s = Some (Break (s', Some (Inl f)))" "fault_ok_gr len f"
    and "ms_layers_gr s' = []" "ms_stalled_gr s' = None" "\<not> ms_next_hit_gr s' < length (ms_pending_gr s')"
  shows "faulting_gr m len s"
proof -
  have "sel_turn_gr m s' = Some (Break (s', None))" using assms(3-5) by (simp add: sel_turn_gr_def)
  then show ?thesis
    using batch_gr.walk_break(2) [OF assms(1)] batch_gr.step_turns(2) assms(2) by (auto simp: ends_faulted_def)
qed

lemma fault_ok_seat_gr:
  assumes seat: "seat_gr ps input limit s c base rem x t0 gs Ls G I" and at: "at \<le> length (cur_data_gr c)"
  shows "fault_ok_gr (length input) \<lparr>sf_at_gr = of_nat (base + at), sf_trail_gr = trail_gr (lay_gr c' base x rem' gs' # Ls), sf_breach_gr = br\<rparr>"
proof -
  have "usize_of (of_nat (base + at)) = base + at"
    using seat_pos_gr(2) [OF seat at] by (simp add: usize_of_def unat_of_nat admission_MAX_eq del: of_nat_add)
  moreover have "base + at \<le> length input" using seat at by (simp add: seat_gr_def fits_gr_def)
  moreover have "nested_trail (trail_gr (lay_gr c base x rem gs # Ls)) base" using seat by (auto simp: seat_gr_def)
  then have "nested_trail (trail_gr (lay_gr c' base x rem' gs' # Ls)) (base + at)"
    unfolding trail_gr_layer nested_trail_def by fastforce
  ultimately show ?thesis by (simp add: fault_ok_gr_def place_ok_def del: of_nat_add)
qed

lemma turn_fault_gr:
  assumes seat: "seat_gr ps input limit s c base rem x t0 gs Ls G I"
    and f: "step_gr m c = Some (c', Some (Inl f))"
  shows "faulting_gr m (length input) s"
proof -
  have "\<not> (length (cur_data_gr c) \<le> cur_at_gr c \<and> cur_opens_gr c = [])"
    using step_end_gr [of c m] f by auto
  from step_answered_gr [OF f this] seat_at_gr [OF seat] obtain at where
    at: "at \<le> length (cur_data_gr c)" "fault_at_gr f = admitted_u32 at" "cur_at_gr c' = cur_at_gr c"
    by (auto simp: answered_gr_def)
  have s: "\<not> ms_next_hit_gr s < length (ms_pending_gr s)" "ms_stalled_gr s = None"
    "ms_layers_gr s = lay_gr c base x rem gs # Ls" using seat by (simp_all add: seat_gr_def)
  have "sel_turn_gr m s = Some (Break (s\<lparr>ms_layers_gr := []\<rparr>, Some (Inl
      \<lparr>sf_at_gr = of_nat (base + at), sf_trail_gr = trail_gr (lay_gr c' base x rem gs # Ls),
       sf_breach_gr = breach_gr (fault_kind_gr f)\<rparr>)))"
    using s f seat_pos_gr(1) [OF seat at(1)] seat_pos_gr(1) [OF seat seat_at_gr [OF seat]]
    by (simp add: sel_turn_gr_def cursor_pos_gr_def at(2,3) sel_fault_at_gr_def Let_def del: of_nat_add)
  then show ?thesis
    by (rule faulting_break_gr) (use s fault_ok_seat_gr [OF seat at(1)] in simp_all)
qed

lemma turn_enter_full_gr:
  assumes seat: "seat_gr ps input limit s c base rem x t0 gs Ls G I"
    and t: "step_gr m c = Some (adv_gr c t, Some (Inr (entry_of_gr t)))" "suffix_gr c = emit_tok t @ rest"
    and p: "t = Token f w PEnter" and d: "length gs = rem"
  shows "faulting_gr m (length input) s"
proof -
  let ?M = "moved_gr s (lay_gr (adv_gr c t) base x rem gs) Ls"
  have "sel_turn_gr m s = Some (Break (?M\<lparr>ms_layers_gr := []\<rparr>, Some (Inl
      \<lparr>sf_at_gr = of_nat (base + cur_at_gr c), sf_trail_gr = trail_gr (lay_gr (adv_gr c t) base x rem gs # Ls),
       sf_breach_gr = WbDepth_gr\<rparr>)))"
    unfolding turn_entry_gr [OF seat t]
    by (simp add: p d entry_of_gr_def sel_entry_gr_def sel_enter_gr_def sel_fault_at_gr_def del: of_nat_add)
  then show ?thesis
    by (rule faulting_break_gr) (use seat fault_ok_seat_gr [OF seat seat_at_gr [OF seat]] in \<open>simp_all add: seat_gr_def\<close>)
qed

text \<open>A payload past the bound: the record is handed out, then the selection faults.\<close>

lemma turn_payload_full_gr:
  assumes seat: "seat_gr ps input limit s c base rem x t0 gs Ls G I"
    and t: "step_gr m c = Some (adv_gr c t, Some (Inr (entry_of_gr t)))" "suffix_gr c = emit_tok t @ rest"
    and p: "t = Token f w (PLen bs lw)" and d: "length gs = rem" and r: "routed_at ps (below_gr t0 gs @ [f])"
  shows "faulting_gr m (length input) s"
proof -
  let ?M = "moved_gr s (lay_gr (adv_gr c t) base x rem gs) Ls"
  let ?a = "base + cur_at_gr c" and ?b = "base + (cur_at_gr c + length (emit_tok t))"
  let ?h = "hits_gr ps (below_gr t0 gs) f ?a ?b (MkLen_gr bs)"
  let ?f = "\<lparr>sf_at_gr = of_nat ?a, sf_trail_gr = trail_gr (lay_gr (adv_gr c t) base x rem gs # Ls), sf_breach_gr = WbDepth_gr\<rparr>"
  have b: "?a \<le> ?b" "?b \<le> admission_MAX"
    using seat_pos_gr(2) [OF seat room_gr [OF t(2) seat_at_gr [OF seat]]] by simp_all
  have w: "program_over ps = Inr (ms_program_gr s)" "walker (program_ops (ms_program_gr s)) (ms_matcher_gr s) (below_gr t0 gs)"
    using seat by (simp_all add: seat_gr_def)
  obtain m1 where m: "probe_routes (ms_matcher_gr s) f = Some (True, m1)"
    using r by (auto intro: route_step [OF w, of f])
  define s' where "s' = ?M\<lparr>ms_pending_gr := ?h, ms_matcher_gr := m1, ms_stalled_gr := Some ?f\<rparr>"
  have turn: "sel_turn_gr m s = Some (Continue s')"
    unfolding turn_entry_gr [OF seat t]
    using seat_fan_out_gr [OF seat b] m
    by (simp add: s'_def p d entry_of_gr_def sel_entry_gr_def sel_len_gr_def Let_def sel_fault_at_gr_def del: of_nat_add)
  have fq: "faulting_gr m (length input) (quiet_gr s')"
    by (rule faulting_break_gr [of _ _ "(quiet_gr s')\<lparr>ms_stalled_gr := None, ms_layers_gr := []\<rparr>" ?f])
      (use fault_ok_seat_gr [OF seat seat_at_gr [OF seat]] in \<open>simp_all add: sel_turn_gr_def quiet_gr_def s'_def\<close>)
  have "ms_next_hit_gr s' = 0" by (simp add: s'_def)
  from faulting_batch_gr [OF turn this fq] show ?thesis .
qed

lemma turn_done_gr:
  assumes seat: "seat_gr ps input limit s c base rem x t0 [] [] G I" and c: "suffix_gr c = []"
  shows "sel_turn_gr m s = Some (Break (s, None))" "walk (sel_step_gr m) s = Some ([], None, s)"
proof -
  have s: "\<not> ms_next_hit_gr s < length (ms_pending_gr s)" "ms_stalled_gr s = None"
    "ms_layers_gr s = [lay_gr c base x rem []]" "cur_opens_gr c = []" using seat by (auto simp: seat_gr_def fits_gr_def)
  moreover have "length (cur_data_gr c) \<le> cur_at_gr c" using c by (simp add: suffix_gr_def)
  with s have "step_gr m c = Some (c, None)" by (intro step_end_gr)
  moreover have "s\<lparr>ms_layers_gr := [lay_gr c base x rem []]\<rparr> = s" using s(3) by (cases s) simp
  ultimately show d: "sel_turn_gr m s = Some (Break (s, None))"
    using seat_pos_gr(1) [OF seat seat_at_gr [OF seat]]
    by (simp add: sel_turn_gr_def cursor_pos_gr_def Let_def del: of_nat_add)
  show "walk (sel_step_gr m) s = Some ([], None, s)" by (rule batch_gr.walk_break(1) [OF d])
qed

text \<open>The end of a payload returns the selection to the record that follows it.\<close>

lemma turn_leave_gr:
  assumes seat: "seat_gr ps input limit s c base' rem' y (below_gr t0 gs @ [f]) []
      (lay_gr co base x rem gs # Ls) (opened_gr ps t0 I gs @ G) (held_gr ps t0 I gs)"
    and c: "suffix_gr c = []" and fits: "fits_gr (length input) limit co base rem gs"
    and nest: "nested_trail (trail_gr (lay_gr co base x rem gs # Ls)) base"
  obtains s' where "walk (sel_step_gr m) s = walk (sel_step_gr m) s'"
    "seat_gr ps input limit s' co base rem x t0 gs Ls G I"
proof -
  have s: "\<not> ms_next_hit_gr s < length (ms_pending_gr s)" "ms_stalled_gr s = None"
    "ms_layers_gr s = lay_gr c base' y rem' [] # lay_gr co base x rem gs # Ls" "cur_opens_gr c = []"
    using seat by (auto simp: seat_gr_def fits_gr_def)
  have w: "program_over ps = Inr (ms_program_gr s)"
    "walker (program_ops (ms_program_gr s)) (ms_matcher_gr s) (below_gr t0 gs @ [f])"
    using seat by (simp_all add: seat_gr_def)
  from walker_exits [OF w] obtain m' where m': "matcher_exit (program_ops (ms_program_gr s)) (ms_matcher_gr s) = Some m'"
    "walker (program_ops (ms_program_gr s)) m' (below_gr t0 gs)" by blast
  have "length (cur_data_gr c) \<le> cur_at_gr c" using c by (simp add: suffix_gr_def)
  with s have e: "step_gr m c = Some (c, None)" by (intro step_end_gr)
  let ?s = "s\<lparr>ms_layers_gr := lay_gr co base x rem gs # Ls, ms_matcher_gr := m'\<rparr>"
  have "sel_turn_gr m s = Some (Continue ?s)"
    using s e m'(1) seat_pos_gr(1) [OF seat seat_at_gr [OF seat]]
    by (simp add: sel_turn_gr_def cursor_pos_gr_def Let_def del: of_nat_add)
  moreover have "seat_gr ps input limit ?s co base rem x t0 gs Ls G I"
    using seat fits nest m'(2) by (simp add: seat_gr_def)
  ultimately show ?thesis by (intro that [OF batch_gr.walk_continue])
qed

section \<open>A selection that ends cleanly is the one of its tokens\<close>

lemma seat_step_gr:
  assumes "seat_gr ps input limit s c base rem x t0 gs Ls G I" "suffix_gr c = emit (t # ts)" "tok_ok t" "m \<longrightarrow> tok_minimal t"
    and "tk_payload t = PEnter \<Longrightarrow> length gs < rem"
    and "tk_payload t = PExit \<Longrightarrow> gs \<noteq> [] \<and> fst (hd gs) = tk_field t"
  shows "step_gr m c = Some (adv_gr c t, Some (Inr (entry_of_gr t)))" "suffix_gr c = emit_tok t @ emit ts"
    "lawful_gr m c t" "suffix_gr (adv_gr c t) = emit ts"
proof -
  show e: "suffix_gr c = emit_tok t @ emit ts" using assms(2) by simp
  have o: "map fst (cur_opens_gr c) = map fst gs" "rem \<le> unat (cur_limit_gr c)"
    using assms(1) by (auto simp: seat_gr_def fits_gr_def)
  then have l: "length (cur_opens_gr c) = length gs" using map_eq_imp_length_eq by blast
  have "opens_after (unat (cur_limit_gr c)) (cur_opens_gr c) (cur_at_gr c) t \<noteq> None"
  proof (cases "tk_payload t")
    case PExit
    with assms(6) obtain g gs' where "gs = g # gs'" "fst g = tk_field t" by (cases gs) auto
    with o(1) obtain a os where "cur_opens_gr c = (tk_field t, a) # os" by (cases "cur_opens_gr c") auto
    with PExit show ?thesis by (simp add: opens_after_def)
  qed (use assms(5) l o in \<open>simp_all add: opens_after_def\<close>)
  with assms(3,4) show law: "lawful_gr m c t" by (simp add: lawful_gr_def)
  show "suffix_gr (adv_gr c t) = emit ts" by (rule walk_gr.suffix_adv [OF TrueI e law])
  show "step_gr m c = Some (adv_gr c t, Some (Inr (entry_of_gr t)))"
    using e law by (subst walk_gr.step_entry [OF TrueI]) blast
qed

lemma selects_walks_gr:
  assumes "selects_gr ps input m base rem t0 at gs ts hs"
    and "seat_gr ps input limit s c base rem x t0 gs Ls G I" "suffix_gr c = emit ts" "cur_at_gr c = at"
  shows "\<exists>s' c'. walk (sel_step_gr m) s = after hs (walk (sel_step_gr m) s') \<and>
    seat_gr ps input limit s' c' base rem x t0 [] Ls G I \<and> suffix_gr c' = []"
  using assms
proof (induction arbitrary: s c x Ls G I rule: selects_gr.induct)
  case (sg_end base rem t0 at)
  then show ?case by (intro exI [of _ s] exI [of _ c]) simp
next
  case (sg_value t kind t0 gs stop at base rem ts hs)
  have "tk_payload t \<noteq> PEnter" "tk_payload t \<noteq> PExit" using sg_value.hyps(3) by auto
  note st = seat_step_gr [OF sg_value.prems(1,2) sg_value.hyps(1,2), simplified this]
  have stop: "stop = cur_at_gr c + length (emit_tok t)" using sg_value.hyps(5) sg_value.prems(3) by simp
  obtain s' where s': "sel_turn_gr m s = Some (Continue s')" "ms_next_hit_gr s' = 0"
    "ms_pending_gr s' = hits_gr ps (below_gr t0 gs) (tk_field t) (base + cur_at_gr c) (base + stop) kind"
    "seat_gr ps input limit (quiet_gr s') (adv_gr c t) base rem x t0 gs Ls G I"
    using turn_value_gr [OF sg_value.prems(1) st(1-3) stop sg_value.hyps(3,4)] by blast
  have "cur_at_gr (adv_gr c t) = stop" using stop by simp
  from sg_value.IH [OF s'(4) st(4) this] show ?case
    using walk_batch_gr [OF s'(1,2)] s'(3) sg_value.prems(3) by (metis after_append)
next
  case (sg_payload t f w us lw t0 gs rem stop at base hs1 ts hs2)
  have "tk_payload t \<noteq> PEnter" "tk_payload t \<noteq> PExit" using sg_payload.hyps(3) by auto
  note st = seat_step_gr [OF sg_payload.prems(1,2) sg_payload.hyps(1,2), simplified this]
  have stop: "stop = cur_at_gr c + length (emit_tok t)" using sg_payload.hyps(6) sg_payload.prems(3) by simp
  obtain s' c' y where s': "sel_turn_gr m s = Some (Continue s')" "ms_next_hit_gr s' = 0"
    "ms_pending_gr s' = hits_gr ps (below_gr t0 gs) f (base + cur_at_gr c) (base + stop) (MkLen_gr (emit us))"
    and inner: "seat_gr ps input limit (quiet_gr s') c' (base + stop - length (emit us)) (rem - length gs - 1) y
       (below_gr t0 gs @ [f]) [] (lay_gr (adv_gr c t) base x rem gs # Ls) (opened_gr ps t0 I gs @ G) (held_gr ps t0 I gs)"
    "suffix_gr c' = emit us" "cur_at_gr c' = 0"
    and outer: "fits_gr (length input) limit (adv_gr c t) base rem gs"
    "nested_trail (trail_gr (lay_gr (adv_gr c t) base x rem gs # Ls)) base"
    using turn_payload_gr [OF sg_payload.prems(1) st(1-3) stop sg_payload.hyps(3,5,4)] by blast
  from sg_payload.IH(1) [OF inner] obtain s1 c1 where
    s1: "walk (sel_step_gr m) (quiet_gr s') = after hs1 (walk (sel_step_gr m) s1)" and
    seat1: "seat_gr ps input limit s1 c1 (base + stop - length (emit us)) (rem - length gs - 1) y
       (below_gr t0 gs @ [f]) [] (lay_gr (adv_gr c t) base x rem gs # Ls) (opened_gr ps t0 I gs @ G) (held_gr ps t0 I gs)"
    "suffix_gr c1 = []" by blast
  obtain s2 where s2: "walk (sel_step_gr m) s1 = walk (sel_step_gr m) s2"
    "seat_gr ps input limit s2 (adv_gr c t) base rem x t0 gs Ls G I"
    using turn_leave_gr [OF seat1 outer] by blast
  have "cur_at_gr (adv_gr c t) = stop" using stop by simp
  from sg_payload.IH(2) [OF s2(2) st(4) this] show ?case
    using walk_batch_gr [OF s'(1,2)] s'(3) s1 s2(1) sg_payload.prems(3) by (metis after_append)
next
  case (sg_enter t f w gs rem stop at base t0 ts hs)
  have "tk_payload t \<noteq> PExit" using sg_enter.hyps(3) by auto
  note st = seat_step_gr [OF sg_enter.prems(1,2) sg_enter.hyps(1,2) sg_enter.hyps(4), simplified this]
  have stop: "stop = cur_at_gr c + length (emit_tok t)" using sg_enter.hyps(5) sg_enter.prems(3) by simp
  obtain s' where s': "sel_turn_gr m s = Some (Continue s')" "ms_next_hit_gr s' = 0" "ms_pending_gr s' = []"
    "seat_gr ps input limit (quiet_gr s') (adv_gr c t) base rem x t0 ((f, base + at, base + stop) # gs) Ls G I"
    using turn_enter_gr [OF sg_enter.prems(1) st(1-3) stop sg_enter.hyps(3,4)] sg_enter.prems(3) by blast
  have "cur_at_gr (adv_gr c t) = stop" using stop by simp
  from sg_enter.IH [OF s'(4) st(4) this] show ?case
    using walk_batch_gr [OF s'(1,2)] s'(3) by simp
next
  case (sg_exit t f w stop at base rem t0 gs ts hs h b)
  have "tk_payload t \<noteq> PEnter" "((f, h, b) # gs) \<noteq> [] \<and> fst (hd ((f, h, b) # gs)) = tk_field t" using sg_exit.hyps(3) by auto
  note st = seat_step_gr [OF sg_exit.prems(1,2) sg_exit.hyps(1,2), simplified this]
  have stop: "stop = cur_at_gr c + length (emit_tok t)" using sg_exit.hyps(4) sg_exit.prems(3) by simp
  have hb: "h \<le> b" "b \<le> base + cur_at_gr c" using sg_exit.prems(1) by (simp_all add: seat_gr_def fits_gr_def)
  obtain s' where s': "sel_turn_gr m s = Some (Continue s')" "ms_next_hit_gr s' = 0"
    "ms_pending_gr s' = hits_gr ps (below_gr t0 gs) f h (base + stop) (MkGroup_gr (extent_of input b (base + cur_at_gr c)))"
    "seat_gr ps input limit (quiet_gr s') (adv_gr c t) base rem x t0 gs Ls G I"
    using turn_exit_gr [OF sg_exit.prems(1) st(1-3) stop sg_exit.hyps(3) hb] by blast
  have "cur_at_gr (adv_gr c t) = stop" using stop by simp
  from sg_exit.IH [OF s'(4) st(4) this] show ?case
    using walk_batch_gr [OF s'(1,2)] s'(3) sg_exit.prems(3) by (metis after_append)
qed

section \<open>Every selection is that of its tokens or faults\<close>

definition explained_gr ::
  "path list \<Rightarrow> bytes \<Rightarrow> bool \<Rightarrow> matches_gr \<Rightarrow> cursor_gr \<Rightarrow> nat \<Rightarrow> nat \<Rightarrow> field_number list \<Rightarrow> grp list \<Rightarrow> bool" where
  "explained_gr ps input m s c base rem t0 gs \<longleftrightarrow>
     (\<exists>ts hs. suffix_gr c = emit ts \<and> selects_gr ps input m base rem t0 (cur_at_gr c) gs ts hs) \<or>
     faulting_gr m (length input) s"

text \<open>If what follows a record is explained, so is the selection at the record.\<close>

lemma explained_batch_gr:
  assumes "sel_turn_gr m s = Some (Continue s')" "ms_next_hit_gr s' = 0"
    and "explained_gr ps input m (quiet_gr s') (adv_gr c t) base rem t0 gs'" "suffix_gr c = emit_tok t @ rest" "lawful_gr m c t"
    and "\<And>ts hs. selects_gr ps input m base rem t0 (cur_at_gr c + length (emit_tok t)) gs' ts hs \<Longrightarrow>
      \<exists>hs'. selects_gr ps input m base rem t0 (cur_at_gr c) gs (t # ts) hs'"
  shows "explained_gr ps input m s c base rem t0 gs"
proof (cases "faulting_gr m (length input) (quiet_gr s')")
  case True
  from faulting_batch_gr [OF assms(1,2) this] show ?thesis by (simp add: explained_gr_def)
next
  case False
  with assms(3) obtain ts hs where r: "rest = emit ts"
    and "selects_gr ps input m base rem t0 (cur_at_gr c + length (emit_tok t)) gs' ts hs"
    using walk_gr.suffix_adv [OF TrueI assms(4,5)] by (auto simp: explained_gr_def)
  from assms(6) [OF this(2)] obtain hs' where "selects_gr ps input m base rem t0 (cur_at_gr c) gs (t # ts) hs'" ..
  moreover have "suffix_gr c = emit (t # ts)" using assms(4) r by simp
  ultimately show ?thesis unfolding explained_gr_def by blast
qed

lemma lawful_ok_gr: "lawful_gr m c t \<Longrightarrow> tok_ok t" "lawful_gr m c t \<Longrightarrow> m \<longrightarrow> tok_minimal t"
  by (simp_all add: lawful_gr_def)

lemma explained_value_gr:
  assumes seat: "seat_gr ps input limit s c base rem x t0 gs Ls G I"
    and e: "step_gr m c = Some (adv_gr c t, Some (Inr (entry_of_gr t)))" "suffix_gr c = emit_tok t @ rest" "lawful_gr m c t"
    and k: "value_kind_gr (tk_payload t) = Some kind"
      "\<not> (is_len (tk_payload t) \<and> routed_at ps (below_gr t0 gs @ [tk_field t]))"
    and IH: "\<And>s'. seat_gr ps input limit s' (adv_gr c t) base rem x t0 gs Ls G I \<Longrightarrow>
      explained_gr ps input m s' (adv_gr c t) base rem t0 gs"
  shows "explained_gr ps input m s c base rem t0 gs"
proof -
  obtain s' where s': "sel_turn_gr m s = Some (Continue s')" "ms_next_hit_gr s' = 0"
    "seat_gr ps input limit (quiet_gr s') (adv_gr c t) base rem x t0 gs Ls G I"
    using turn_value_gr [OF seat e refl k] by blast
  from explained_batch_gr [OF s'(1,2) IH [OF s'(3)] e(2,3)] sg_value [OF lawful_ok_gr [OF e(3)] k refl] show ?thesis by blast
qed

lemma explained_enter_gr:
  assumes seat: "seat_gr ps input limit s c base rem x t0 gs Ls G I"
    and e: "step_gr m c = Some (adv_gr c t, Some (Inr (entry_of_gr t)))" "suffix_gr c = emit_tok t @ rest" "lawful_gr m c t"
    and p: "t = Token f w PEnter"
    and IH: "\<And>s' gs'. seat_gr ps input limit s' (adv_gr c t) base rem x t0 gs' Ls G I \<Longrightarrow>
      explained_gr ps input m s' (adv_gr c t) base rem t0 gs'"
  shows "explained_gr ps input m s c base rem t0 gs"
proof (cases "length gs < rem")
  case False
  then have "length gs = rem" using seat_depth_gr(2) [OF seat] by simp
  from turn_enter_full_gr [OF seat e(1,2) p this] show ?thesis by (simp add: explained_gr_def)
next
  case True
  obtain s' where s': "sel_turn_gr m s = Some (Continue s')" "ms_next_hit_gr s' = 0"
    "seat_gr ps input limit (quiet_gr s') (adv_gr c t) base rem x t0
      ((f, base + cur_at_gr c, base + (cur_at_gr c + length (emit_tok t))) # gs) Ls G I"
    using turn_enter_gr [OF seat e refl p True] by blast
  from explained_batch_gr [OF s'(1,2) IH [OF s'(3)] e(2,3)] sg_enter [OF lawful_ok_gr [OF e(3)] p True refl] show ?thesis by blast
qed

lemma explained_exit_gr:
  assumes seat: "seat_gr ps input limit s c base rem x t0 gs Ls G I"
    and e: "step_gr m c = Some (adv_gr c t, Some (Inr (entry_of_gr t)))" "suffix_gr c = emit_tok t @ rest" "lawful_gr m c t"
    and p: "t = Token f w PExit"
    and IH: "\<And>s' gs'. seat_gr ps input limit s' (adv_gr c t) base rem x t0 gs' Ls G I \<Longrightarrow>
      explained_gr ps input m s' (adv_gr c t) base rem t0 gs'"
  shows "explained_gr ps input m s c base rem t0 gs"
proof -
  obtain h b gs' where gs: "gs = (f, h, b) # gs'" "h \<le> b" "b \<le> base + cur_at_gr c"
    using exit_group_gr [OF seat e(3) [unfolded p]] .
  obtain s' where s': "sel_turn_gr m s = Some (Continue s')" "ms_next_hit_gr s' = 0"
    "seat_gr ps input limit (quiet_gr s') (adv_gr c t) base rem x t0 gs' Ls G I"
    using turn_exit_gr [OF seat [unfolded gs(1)] e refl p gs(2,3)] by blast
  from explained_batch_gr [OF s'(1,2) IH [OF s'(3)] e(2,3)] sg_exit [OF lawful_ok_gr [OF e(3)] p refl] gs(1) show ?thesis by blast
qed

lemma explained_payload_gr:
  assumes seat: "seat_gr ps input limit s c base rem x t0 gs Ls G I"
    and e: "step_gr m c = Some (adv_gr c t, Some (Inr (entry_of_gr t)))" "suffix_gr c = emit_tok t @ rest" "lawful_gr m c t"
    and p: "t = Token f w (PLen bs lw)" and r: "routed_at ps (below_gr t0 gs @ [f])"
    and inner_IH: "\<And>s' c' base rem x t0 Ls G I. length (suffix_gr c') < length (suffix_gr c) \<Longrightarrow>
      seat_gr ps input limit s' c' base rem x t0 [] Ls G I \<Longrightarrow> explained_gr ps input m s' c' base rem t0 []"
    and IH: "\<And>s'. seat_gr ps input limit s' (adv_gr c t) base rem x t0 gs Ls G I \<Longrightarrow>
      explained_gr ps input m s' (adv_gr c t) base rem t0 gs"
  shows "explained_gr ps input m s c base rem t0 gs"
proof (cases "length gs < rem")
  case False
  then have "length gs = rem" using seat_depth_gr(2) [OF seat] by simp
  from turn_payload_full_gr [OF seat e(1,2) p this r] show ?thesis by (simp add: explained_gr_def)
next
  case True
  let ?stop = "cur_at_gr c + length (emit_tok t)" and ?t = "below_gr t0 gs @ [f]" and ?L = "lay_gr (adv_gr c t) base x rem gs"
  obtain s' c' y where s': "sel_turn_gr m s = Some (Continue s')" "ms_next_hit_gr s' = 0"
    and inner: "seat_gr ps input limit (quiet_gr s') c' (base + ?stop - length bs) (rem - length gs - 1) y
      ?t [] (?L # Ls) (opened_gr ps t0 I gs @ G) (held_gr ps t0 I gs)" "suffix_gr c' = bs" "cur_at_gr c' = 0"
    and outer: "fits_gr (length input) limit (adv_gr c t) base rem gs" "nested_trail (trail_gr (?L # Ls)) base"
    using turn_payload_gr [OF seat e refl p True r] by blast
  have "length (suffix_gr c') < length (suffix_gr c)" using e(2) lawful_ok_gr(1) [OF e(3)] by (simp add: inner(2) p)
  from inner_IH [OF this inner(1)] consider (bad) "faulting_gr m (length input) (quiet_gr s')"
    | (good) us hs1 where "bs = emit us" "selects_gr ps input m (base + ?stop - length bs) (rem - length gs - 1) ?t 0 [] us hs1"
    unfolding explained_gr_def inner(2,3) by blast
  then show ?thesis
  proof cases
    case bad
    from faulting_batch_gr [OF s'(1,2) this] show ?thesis by (simp add: explained_gr_def)
  next
    case good
    from selects_walks_gr [OF good(2) inner(1)] good(1) inner(2,3) obtain s1 c1 where
      s1: "walk (sel_step_gr m) (quiet_gr s') = after hs1 (walk (sel_step_gr m) s1)" and
      seat1: "seat_gr ps input limit s1 c1 (base + ?stop - length bs) (rem - length gs - 1) y
        ?t [] (?L # Ls) (opened_gr ps t0 I gs @ G) (held_gr ps t0 I gs)" "suffix_gr c1 = []" by blast
    obtain s2 where s2: "walk (sel_step_gr m) s1 = walk (sel_step_gr m) s2"
      "seat_gr ps input limit s2 (adv_gr c t) base rem x t0 gs Ls G I"
      using turn_leave_gr [OF seat1 outer] by blast
    from s1 s2(1) have w: "walk (sel_step_gr m) (quiet_gr s') = after hs1 (walk (sel_step_gr m) s2)" by simp
    from IH [OF s2(2)] ends_faulted_after [OF w] have "explained_gr ps input m (quiet_gr s') (adv_gr c t) base rem t0 gs"
      unfolding explained_gr_def by blast
    note batch = explained_batch_gr [OF s'(1,2) this e(2,3)]
    from good(2) have i: "selects_gr ps input m (base + ?stop - length (emit us)) (rem - length gs - 1) ?t 0 [] us hs1"
      by (simp add: good(1))
    show ?thesis by (rule batch) (use sg_payload [OF lawful_ok_gr [OF e(3)] p [unfolded good(1)] r True refl i] in blast)
  qed
qed

lemma selects_or_faults_gr:
  "seat_gr ps input limit s c base rem x t0 gs Ls G I \<Longrightarrow> explained_gr ps input m s c base rem t0 gs"
proof (induction "length (suffix_gr c)" arbitrary: s c base rem x t0 gs Ls G I rule: less_induct)
  case less
  note seat = less.prems
  show ?case
  proof (cases c rule: walk_gr.step_cases [OF TrueI, of m, case_names finished fault entry])
    case (finished c')
    then have "gs = []" using seat by (auto simp: seat_gr_def fits_gr_def closed_gr_def)
    with finished(2) show ?thesis
      unfolding explained_gr_def by (intro disjI1 exI [of _ "[]"]) (auto intro: sg_end)
  next
    case (fault c' f)
    from turn_fault_gr [OF seat fault] show ?thesis by (simp add: explained_gr_def)
  next
    case (entry t rest)
    note e = entry(1,2,3) and IH = less.hyps [OF entry(6)]
    obtain f w p where t: "t = Token f w p" by (cases t)
    show ?thesis
    proof (cases p)
      case (PLen bs lw)
      note p = t [unfolded PLen]
      show ?thesis
      proof (cases "routed_at ps (below_gr t0 gs @ [f])")
        case True
        from explained_payload_gr [OF seat e p True less.hyps IH] show ?thesis .
      next
        case False
        from explained_value_gr [OF seat e, of "MkLen_gr bs", OF _ _ IH] False show ?thesis by (simp add: p)
      qed
    next
      case PEnter
      from explained_enter_gr [OF seat e t [unfolded this] IH] show ?thesis .
    next
      case PExit
      from explained_exit_gr [OF seat e t [unfolded this] IH] show ?thesis .
    qed (use explained_value_gr [OF seat e _ _ IH] t in simp_all)
  qed
qed

section \<open>Properties\<close>

lemma over_seat_gr:
  assumes "program_over ps = Inr prog" "matches_over_gr data prog limit = Some (Inr s)"
  shows "seat_gr ps data limit s \<lparr>cur_data_gr = data, cur_opens_gr = [], cur_at_gr = 0, cur_limit_gr = limit, cur_geo_gr = 0\<rparr>
    0 (unat limit) None [] [] [] [] []"
proof -
  from assms(2) obtain m where l: "length data \<le> admission_MAX" and m: "matcher_new (program_ops prog) = Some m"
    and s: "s = \<lparr>ms_input_gr = data,
       ms_layers_gr = [lay_gr \<lparr>cur_data_gr = data, cur_opens_gr = [], cur_at_gr = 0, cur_limit_gr = limit, cur_geo_gr = 0\<rparr>
         0 None (unat limit) []],
       ms_program_gr = prog, ms_matcher_gr = m, ms_limit_gr = limit, ms_pending_gr = [], ms_next_hit_gr = 0,
       ms_stalled_gr = None, ms_groups_gr = [], ms_group_ids_gr = []\<rparr>"
    by (auto simp: matches_over_gr_def cursor_over_gr_def GroupDepth_from_def lay_gr_def split: if_splits bind_splits)
  show ?thesis
    using l assms(1) walker_new [OF m]
    by (simp add: s seat_gr_def fits_gr_def nested_trail_def trail_gr_def lay_gr_def List.map_filter_def)
qed

lemma over_explained_gr:
  assumes "program_over ps = Inr prog" "matches_over_gr data prog limit = Some (Inr s)"
  shows "(\<exists>ts hs s'. data = emit ts \<and> selects_gr ps data m 0 (unat limit) [] 0 [] ts hs \<and>
      walk (sel_step_gr m) s = Some (hs, None, s') \<and> sel_step_gr m s' = Some (s', None)) \<or> faulting_gr m (length data) s"
proof (cases "faulting_gr m (length data) s")
  case False
  note seat = over_seat_gr [OF assms]
  from False selects_or_faults_gr [OF seat, of m] obtain ts hs where
    ts: "data = emit ts" "selects_gr ps data m 0 (unat limit) [] 0 [] ts hs" by (auto simp: explained_gr_def suffix_gr_def)
  from selects_walks_gr [OF ts(2) seat] ts(1) obtain s' c' where
    s': "walk (sel_step_gr m) s = after hs (walk (sel_step_gr m) s')"
    "seat_gr ps data limit s' c' 0 (unat limit) None [] [] [] [] []" "suffix_gr c' = []" by (auto simp: suffix_gr_def)
  note turn_done_gr [OF s'(2,3), of m]
  with s'(1) ts show ?thesis using batch_gr.step_turns(2) by auto
qed simp

lemma over_selects_gr:
  assumes "program_over ps = Inr prog" "matches_over_gr data prog limit = Some (Inr s)"
    and "data = emit ts" "selects_gr ps data m 0 (unat limit) [] 0 [] ts hs"
  shows "\<exists>s'. walk (sel_step_gr m) s = Some (hs, None, s')"
proof -
  from selects_walks_gr [OF assms(4) over_seat_gr [OF assms(1,2)]] assms(3) obtain s' c' where
    "walk (sel_step_gr m) s = after hs (walk (sel_step_gr m) s')"
    "seat_gr ps data limit s' c' 0 (unat limit) None [] [] [] [] []" "suffix_gr c' = []" by (auto simp: suffix_gr_def)
  with turn_done_gr(2) [OF this(2,3), of m] show ?thesis by auto
qed

lemma over_clean_gr:
  assumes "program_over ps = Inr prog" "matches_over_gr data prog limit = Some (Inr s)"
  shows "(\<exists>s'. walk (sel_step_gr m) s = Some (hits, None, s')) \<longleftrightarrow>
    (\<exists>ts. data = emit ts \<and> selects_gr ps data m 0 (unat limit) [] 0 [] ts hits)" (is "?L \<longleftrightarrow> ?R")
proof
  assume ?L
  then obtain s' where "walk (sel_step_gr m) s = Some (hits, None, s')" ..
  with over_explained_gr [OF assms, of m] show ?R by (auto simp: ends_faulted_def)
qed (use over_selects_gr [OF assms] in blast)

lemma over_some_gr:
  assumes "program_over ps = Inr prog" "length data \<le> admission_MAX"
  obtains s where "matches_over_gr data prog limit = Some (Inr s)"
proof -
  obtain mt where "matcher_new (program_ops prog) = Some mt"
    using new_layer [OF program_valid(1) [OF assms(1)]] by metis
  with assms(2) that show ?thesis by (auto simp: matches_over_gr_def cursor_over_gr_def)
qed

text \<open>A document to instantiate the properties at: field 1, whose payload is field 2, under \<open>demo_paths\<close>.\<close>

definition demo_hits_gr :: "match_gr list" where
  "demo_hits_gr = map (hit_gr 2 (span_nat 2 4) (MkVarint_gr 5)) [0, 1]"

lemma demo_selects_gr:
  "selects_gr demo_paths [10, 2, 16, 5] True 0 (unat (3 :: 16 word)) [] 0 []
     [Token 1 1 (PLen [16, 5] 1)] demo_hits_gr"
proof -
  let ?in = "Token 2 1 (PVarint 5 1)" and ?out = "Token 1 1 (PLen [16, 5] 1)"
  have e: "emit_tok ?in = [16, 5]" "emit_tok ?out = [10, 2, 16, 5]" by code_simp+
  have "field_ok 1 \<and> unat (tag_of 1 (PLen [16, 5] 1)) < 128 ^ 1" by code_simp
  then have "tok_ok ?out" by simp
  moreover have "tok_ok ?in" "tok_minimal ?in" "tok_minimal ?out" by code_simp+
  ultimately have ok: "tok_ok ?in" "tok_minimal ?in" "tok_ok ?out" "tok_minimal ?out" by blast+
  have h: "hits_gr demo_paths (below_gr [1] []) (tk_field ?in) (2 + 0) (2 + 2) (MkVarint_gr 5) @ [] = demo_hits_gr"
    "hits_gr demo_paths (below_gr [] []) 1 (0 + 0) (0 + 4) (MkLen_gr (emit [?in])) = []"
    by (simp_all add: hits_gr_def demo_ids demo_hits_gr_def)
  have p: "value_kind_gr (tk_payload ?in) = Some (MkVarint_gr 5)"
    "\<not> (is_len (tk_payload ?in) \<and> routed_at demo_paths (below_gr [1] [] @ [tk_field ?in]))" by simp_all
  have q: "?out = Token 1 1 (PLen (emit [?in]) 1)" "routed_at demo_paths (below_gr [] [] @ [1])" "length ([] :: grp list) < 3"
    by (simp_all only: emit_Cons emit_Nil append_Nil2 e) (simp_all add: demo_ids)
  have l: "2 = 0 + length (emit_tok ?in)" "4 = 0 + length (emit_tok ?out)" "0 + 4 - length (emit [?in]) = 2"
    "3 - length ([] :: grp list) - 1 = 2" "below_gr [] [] @ [1] = [1 :: field_number]"
    by (simp_all only: emit_Cons emit_Nil append_Nil2 e) simp_all
  from sg_value [OF ok(1) impI [OF ok(2)] p l(1) sg_end, where input = "[10, 2, 16, 5]" and base = 2 and rem = 2 and m = True]
  have "selects_gr demo_paths [10, 2, 16, 5] True 2 2 [1] 0 [] [?in] demo_hits_gr" unfolding h(1) .
  from sg_payload [OF ok(3) impI [OF ok(4)] q l(2), where input = "[10, 2, 16, 5]" and base = 0 and m = True and
      ?hs1.0 = demo_hits_gr and ts = "[]" and ?hs2.0 = "[]", unfolded l(3-5), OF this sg_end]
  have "selects_gr demo_paths [10, 2, 16, 5] True 0 3 [] 0 [] [?out] ([] @ demo_hits_gr @ [])" unfolding h(2) .
  then show ?thesis by simp
qed

text \<open>A looser policy keeps a clean selection: tolerance for minimality, a higher bound.\<close>

lemma selects_looser_gr:
  "selects_gr ps input m base rem t0 at gs ts hs \<Longrightarrow> (m' \<longrightarrow> m) \<Longrightarrow> rem \<le> rem' \<Longrightarrow>
   selects_gr ps input m' base rem' t0 at gs ts hs"
proof (induction arbitrary: rem' rule: selects_gr.induct)
  case (sg_value t kind t0 gs stop at base rem ts hs)
  then show ?case by (intro selects_gr.sg_value) auto
next
  case (sg_payload t f w us lw t0 gs rem stop at base hs1 ts hs2)
  have "rem - length gs - 1 \<le> rem' - length gs - 1" using sg_payload.prems(2) by simp
  with sg_payload show ?case by (intro selects_gr.sg_payload) auto
next
  case (sg_enter t f w gs rem stop at base t0 ts hs)
  then show ?case by (intro selects_gr.sg_enter) auto
next
  case (sg_exit t f w stop at base rem t0 gs ts hs head body)
  then show ?case by (intro selects_gr.sg_exit) auto
qed (rule sg_end)

text \<open>C12: A selection hands out exactly the selected records. Over an admitted document and program the
  iteration ends without a fault, having handed out \<open>hits\<close>, if and only if the document is a sequence of lawful
  tokens, the payloads that a path may select inside are again such sequences within the one bound on groups and
  payloads, and \<open>hits\<close> are their records whose trail a path accepts: in wire order, a group where it closes,
  the paths of a record ascending.\<close>

theorem selection_accepts_gr:
  assumes "program_over ps = Inr prog" "matches_over_gr data prog limit = Some (Inr s)"
  shows "(\<exists>s'. walk (sel_step_gr m) s = Some (hits, None, s')) \<longleftrightarrow>
    (\<exists>ts. data = emit ts \<and> selects_gr ps data m 0 (unat limit) [] 0 [] ts hits)"
  by (rule over_clean_gr [OF assms])

lemma selection_accepts_gr_witness:
  "\<exists>s s'. matches_over_gr [10, 2, 16, 5] \<lparr>program_paths = demo_paths\<rparr> 3 = Some (Inr s) \<and>
     walk (sel_step_gr True) s = Some (demo_hits_gr, None, s')"
proof -
  obtain s where s: "matches_over_gr [10, 2, 16, 5] \<lparr>program_paths = demo_paths\<rparr> 3 = Some (Inr s)"
    by (rule over_some_gr [OF demo_admitted demo_fits(2)])
  have "[10, 2, 16, 5] = emit [Token 1 1 (PLen [16, 5] 1)]" by code_simp
  with demo_selects_gr have "\<exists>s'. walk (sel_step_gr True) s = Some (demo_hits_gr, None, s')"
    unfolding selection_accepts_gr [OF demo_admitted s] by blast
  with s show ?thesis by blast
qed

text \<open>C13: A selection returns. For every admitted program the constructor returns, refusing exactly an
  input over the cap; iteration then ends, with no panic, no wrapped addition or subtraction, no
  unchecked access out of range and no empty stack popped; the ended iterator answers \<open>None\<close> forever;
  and if it ended in a fault, the coordinate lies in the document and the trail down to it is the payloads
  entered, outermost first, each one's head before the next and all before the coordinate.\<close>

theorem selection_returns_gr:
  assumes "program_over ps = Inr prog"
  shows "\<exists>r. matches_over_gr data prog limit = Some r \<and> (r = Inl Oversize \<longleftrightarrow> admission_MAX < length data) \<and>
    (\<forall>s. r = Inr s \<longrightarrow> (\<exists>hits f s'. walk (sel_step_gr m) s = Some (hits, f, s') \<and> sel_step_gr m s' = Some (s', None) \<and>
       (\<forall>g. f = Some g \<longrightarrow> place_ok (length data) (sf_at_gr g) (sf_trail_gr g))))"
proof -
  obtain mt where "matcher_new (program_ops prog) = Some mt"
    using new_layer [OF program_valid(1) [OF assms]] by metis
  then obtain r where r: "matches_over_gr data prog limit = Some r" "r = Inl Oversize \<longleftrightarrow> admission_MAX < length data"
    by (cases "length data \<le> admission_MAX") (auto simp: matches_over_gr_def cursor_over_gr_def)
  moreover have "\<exists>hits f s'. walk (sel_step_gr m) s = Some (hits, f, s') \<and> sel_step_gr m s' = Some (s', None) \<and>
      (\<forall>g. f = Some g \<longrightarrow> place_ok (length data) (sf_at_gr g) (sf_trail_gr g))"
    if "r = Inr s" for s
    using over_explained_gr [OF assms, of data limit s m] r(1) that unfolding ends_faulted_def fault_ok_gr_def by auto
  ultimately show ?thesis by blast
qed

lemma selection_returns_gr_witness:
  "\<exists>r. matches_over_gr [10, 2, 16, 5] \<lparr>program_paths = demo_paths\<rparr> 3 = Some r \<and> r \<noteq> Inl Oversize"
  using selection_returns_gr [OF demo_admitted, of "[10, 2, 16, 5]" 3 True] by (auto simp: admission_MAX_eq)

text \<open>Policy only refuses. What a selection hands out cleanly under the canonical standard and a limit,
  it hands out under the tolerant standard and any higher limit.\<close>

theorem selection_policy_gr:
  assumes "program_over ps = Inr prog" "limit \<le> limit'"
    and "matches_over_gr data prog limit = Some (Inr s)" "matches_over_gr data prog limit' = Some (Inr s')"
    and "walk (sel_step_gr m) s = Some (hits, None, e)"
  shows "\<exists>e'. walk (sel_step_gr False) s' = Some (hits, None, e')"
proof -
  from over_clean_gr [OF assms(1,3), of m hits] assms(5) obtain ts where
    "data = emit ts" "selects_gr ps data m 0 (unat limit) [] 0 [] ts hits" by blast
  with selects_looser_gr [OF this(2), of False "unat limit'"] assms(2) over_selects_gr [OF assms(1,4)]
  show ?thesis by (simp add: word_le_nat_alt)
qed

lemma selection_policy_gr_witness:
  "\<exists>s s'. matches_over_gr [10, 2, 16, 5] \<lparr>program_paths = demo_paths\<rparr> 100 = Some (Inr s) \<and>
     walk (sel_step_gr False) s = Some (demo_hits_gr, None, s')"
proof -
  obtain s0 where s0: "matches_over_gr [10, 2, 16, 5] \<lparr>program_paths = demo_paths\<rparr> 3 = Some (Inr s0)"
    by (rule over_some_gr [OF demo_admitted demo_fits(2)])
  obtain s where s: "matches_over_gr [10, 2, 16, 5] \<lparr>program_paths = demo_paths\<rparr> 100 = Some (Inr s)"
    by (rule over_some_gr [OF demo_admitted demo_fits(2)])
  have "[10, 2, 16, 5] = emit [Token 1 1 (PLen [16, 5] 1)]" by code_simp
  from over_selects_gr [OF demo_admitted s0 this demo_selects_gr] obtain e where
    "walk (sel_step_gr True) s0 = Some (demo_hits_gr, None, e)" ..
  from selection_policy_gr [OF demo_admitted _ s0 s this] s show ?thesis by auto
qed

end
