(* ===== verification/Select_Groupless.thy ===== *)
theory Select_Groupless
  imports Select Cursor_Groupless
begin

text \<open>
  Selection over the groupless dialect (\<open>src/src/select/groupless.rs\<close>): as the grouped one, without the
  books on groups; the bound counts payloads alone. Layers hold their newest element first, the
  matcher's program is kept beside it (\<open>ms_program_gl\<close>), and a step's \<open>None\<close> is a panic or undefined behaviour.
\<close>

section \<open>Data\<close>

datatype match_kind_gl = MkVarint_gl u64 | MkI64_gl u64 | MkLen_gl bytes | MkI32_gl u32

record match_gl =
  mt_path_gl :: nat
  mt_field_gl :: field_number
  mt_span_gl :: span
  mt_kind_gl :: match_kind_gl

datatype wire_breach_gl =
    WbVarint_gl | WbTag_gl | WbTruncated_gl | WbDepth_gl | WbNonMinimal_gl | WbGroupCode_gl

record sel_fault_gl =
  sf_at_gl :: u32
  sf_trail_gl :: "crossing list"
  sf_breach_gl :: wire_breach_gl

fun breach_class_gl :: "wire_breach_gl \<Rightarrow> fault_class" where
  "breach_class_gl WbVarint_gl = Grammar"
| "breach_class_gl WbTag_gl = Grammar"
| "breach_class_gl WbTruncated_gl = Grammar"
| "breach_class_gl WbDepth_gl = Policy"
| "breach_class_gl WbNonMinimal_gl = Policy"
| "breach_class_gl WbGroupCode_gl = Capability"

fun breach_gl :: "fault_kind_gl \<Rightarrow> wire_breach_gl" where
  "breach_gl (FkRead_gl _ _) = WbVarint_gl"
| "breach_gl (FkFieldZero_gl _) = WbTag_gl"
| "breach_gl (FkUnassigned_gl _ _) = WbTag_gl"
| "breach_gl (FkGroupCode_gl _ _) = WbGroupCode_gl"
| "breach_gl (FkFixedTruncated_gl _) = WbTruncated_gl"
| "breach_gl (FkLenOverrun_gl _ _) = WbTruncated_gl"
| "breach_gl FkNonMinimalTag_gl = WbNonMinimal_gl"
| "breach_gl (FkNonMinimalLen_gl _) = WbNonMinimal_gl"
| "breach_gl (FkNonMinimalValue_gl _) = WbNonMinimal_gl"

record layer_gl =
  ly_cursor_gl :: cursor_gl
  ly_base_gl :: u32
  ly_crossing_gl :: "crossing option"
  ly_remaining_gl :: u16

record matches_gl =
  ms_layers_gl :: "layer_gl list"
  ms_program_gl :: program
  ms_matcher_gl :: "unit matcher"
  ms_pending_gl :: "match_gl list"
  ms_next_hit_gl :: nat
  ms_stalled_gl :: "sel_fault_gl option"

type_synonym sel_item_gl = "(sel_fault_gl + match_gl) option"

section \<open>Operations\<close>

definition trail_gl :: "layer_gl list \<Rightarrow> crossing list" where
  "trail_gl layers = List.map_filter ly_crossing_gl (rev layers)"

definition matches_over_gl :: "bytes \<Rightarrow> program \<Rightarrow> depth_limit \<Rightarrow> (oversize + matches_gl) option" where
  "matches_over_gl input program limit =
     (case cursor_over_gl input of
        Inl _ \<Rightarrow> Some (Inl Oversize)
      | Inr root \<Rightarrow>
          do { matcher \<leftarrow> matcher_new (program_ops program);
               Some (Inr \<lparr>ms_layers_gl = [\<lparr>ly_cursor_gl = root, ly_base_gl = 0, ly_crossing_gl = None,
                                           ly_remaining_gl = limit\<rparr>],
                          ms_program_gl = program, ms_matcher_gl = matcher,
                          ms_pending_gl = [], ms_next_hit_gl = 0, ms_stalled_gl = None\<rparr>) })"

definition sel_fault_at_gl :: "matches_gl \<Rightarrow> u32 \<Rightarrow> wire_breach_gl \<Rightarrow> sel_fault_gl" where
  "sel_fault_at_gl s at br = \<lparr>sf_at_gl = at, sf_trail_gl = trail_gl (ms_layers_gl s), sf_breach_gl = br\<rparr>"

definition hit_gl :: "field_number \<Rightarrow> span \<Rightarrow> match_kind_gl \<Rightarrow> nat \<Rightarrow> match_gl" where
  "hit_gl field sp kind i = \<lparr>mt_path_gl = i, mt_field_gl = field, mt_span_gl = sp, mt_kind_gl = kind\<rparr>"

definition fan_out_gl :: "matches_gl \<Rightarrow> field_number \<Rightarrow> span \<Rightarrow> match_kind_gl \<Rightarrow> matches_gl option" where
  "fan_out_gl s field sp kind =
     do { ids \<leftarrow> visit_targets (ms_matcher_gl s) field;
          Some (s\<lparr>ms_pending_gl := ms_pending_gl s @ map (hit_gl field sp kind) ids\<rparr>) }"

type_synonym sel_turn_gl = "(matches_gl \<times> sel_item_gl, matches_gl) control_flow"

definition sel_value_gl :: "matches_gl \<Rightarrow> field_number \<Rightarrow> span \<Rightarrow> match_kind_gl \<Rightarrow> sel_turn_gl option" where
  "sel_value_gl s field sp kind = do { s \<leftarrow> fan_out_gl s field sp kind; Some (Continue s) }"

definition sel_len_gl ::
  "matches_gl \<Rightarrow> field_number \<Rightarrow> u16 \<Rightarrow> u32 \<Rightarrow> u32 \<Rightarrow> span \<Rightarrow> bytes \<Rightarrow> sel_turn_gl option" where
  "sel_len_gl s field remaining head stop sp payload =
     do { s \<leftarrow> fan_out_gl s field sp (MkLen_gl payload);
          (routed, m) \<leftarrow> probe_routes (ms_matcher_gl s) field;
          let s = s\<lparr>ms_matcher_gl := m\<rparr> in
          if \<not> routed then Some (Continue s)
          else if remaining = 0 then
            Some (Continue (s\<lparr>ms_stalled_gl := Some (sel_fault_at_gl s head WbDepth_gl)\<rparr>))
          else
            do { start \<leftarrow> word_sub stop (of_nat (length payload));
                 m \<leftarrow> commit_descent (program_ops (ms_program_gl s)) m;
                 cursor \<leftarrow> cursor_within_gl payload;
                 r \<leftarrow> word_sub remaining 1;
                 Some (Continue (s\<lparr>ms_matcher_gl := m,
                   ms_layers_gl := \<lparr>ly_cursor_gl = cursor, ly_base_gl = start,
                       ly_crossing_gl = Some \<lparr>crossing_field = field, crossing_at = head\<rparr>,
                       ly_remaining_gl = r\<rparr> # ms_layers_gl s\<rparr>)) } }"

definition sel_entry_gl ::
  "matches_gl \<Rightarrow> entry_gl \<Rightarrow> u16 \<Rightarrow> u32 \<Rightarrow> u32 \<Rightarrow> sel_turn_gl option" where
  "sel_entry_gl s entry remaining head stop =
     (let field = entry_field_gl entry in
      do { sp \<leftarrow> walk_span head stop;
           (case entry_kind_gl entry of
              EkVarint_gl word \<Rightarrow> sel_value_gl s field sp (MkVarint_gl word)
            | EkI64_gl bits \<Rightarrow> sel_value_gl s field sp (MkI64_gl bits)
            | EkI32_gl bits \<Rightarrow> sel_value_gl s field sp (MkI32_gl bits)
            | EkLen_gl payload \<Rightarrow> sel_len_gl s field remaining head stop sp payload) })"

definition sel_turn_gl :: "bool \<Rightarrow> matches_gl \<Rightarrow> sel_turn_gl option" where
  "sel_turn_gl MINIMAL s =
     (if ms_next_hit_gl s < length (ms_pending_gl s) then
        Some (Break (s\<lparr>ms_next_hit_gl := ms_next_hit_gl s + 1\<rparr>,
                     Some (Inr (ms_pending_gl s ! ms_next_hit_gl s))))
      else
        (case ms_stalled_gl s of
           Some fault \<Rightarrow> Some (Break (s\<lparr>ms_stalled_gl := None, ms_layers_gl := []\<rparr>, Some (Inl fault)))
         | None \<Rightarrow>
             (case ms_layers_gl s of
                [] \<Rightarrow> Some (Break (s, None))
              | layer # lower \<Rightarrow>
                  do { head \<leftarrow> word_add (ly_base_gl layer) (cursor_pos_gl (ly_cursor_gl layer));
                       (cursor, item) \<leftarrow> step_gl MINIMAL (ly_cursor_gl layer);
                       let s = s\<lparr>ms_layers_gl := layer\<lparr>ly_cursor_gl := cursor\<rparr> # lower\<rparr> in
                       (case item of
                          None \<Rightarrow>
                            if length (ms_layers_gl s) = 1 then Some (Break (s, None))
                            else do { m \<leftarrow> matcher_exit (program_ops (ms_program_gl s)) (ms_matcher_gl s);
                                      Some (Continue (s\<lparr>ms_layers_gl := lower, ms_matcher_gl := m\<rparr>)) }
                        | Some r \<Rightarrow>
                            do { stop \<leftarrow> word_add (ly_base_gl layer) (cursor_pos_gl cursor);
                                 (case r of
                                    Inl fault \<Rightarrow>
                                      do { at \<leftarrow> word_add (ly_base_gl layer) (fault_at_gl fault);
                                           Some (Break (s\<lparr>ms_layers_gl := []\<rparr>,
                                             Some (Inl (sel_fault_at_gl s at (breach_gl (fault_kind_gl fault)))))) }
                                  | Inr entry \<Rightarrow>
                                      sel_entry_gl (s\<lparr>ms_pending_gl := [], ms_next_hit_gl := 0\<rparr>) entry
                                        (ly_remaining_gl layer) head stop) }) })))"

partial_function (option) sel_step_gl :: "bool \<Rightarrow> matches_gl \<Rightarrow> (matches_gl \<times> sel_item_gl) option" where
  "sel_step_gl MINIMAL s =
     do { r \<leftarrow> sel_turn_gl MINIMAL s;
          (case r of Break out \<Rightarrow> Some out | Continue s' \<Rightarrow> sel_step_gl MINIMAL s') }"

declare sel_step_gl.simps [code]

definition matches_next_gl :: "matches_gl \<Rightarrow> (matches_gl \<times> sel_item_gl) option" where
  "matches_next_gl s = sel_step_gl False s"

record canonical_matches_gl =
  cm_walk_gl :: matches_gl

definition canonical_matches_over_gl ::
  "bytes \<Rightarrow> program \<Rightarrow> depth_limit \<Rightarrow> (oversize + canonical_matches_gl) option" where
  "canonical_matches_over_gl input program limit =
     map_option (\<lambda>r. case r of Inl e \<Rightarrow> Inl e | Inr w \<Rightarrow> Inr \<lparr>cm_walk_gl = w\<rparr>) (matches_over_gl input program limit)"

definition canonical_matches_next_gl ::
  "canonical_matches_gl \<Rightarrow> (canonical_matches_gl \<times> sel_item_gl) option" where
  "canonical_matches_next_gl c =
     map_option (\<lambda>(w, item). (c\<lparr>cm_walk_gl := w\<rparr>, item)) (sel_step_gl True (cm_walk_gl c))"

section \<open>What a selection selects\<close>

text \<open>The hits of a document, over its tokens, as for the grouped dialect and without groups: \<open>base\<close> is the
  coordinate of the payload, \<open>rem\<close> the payloads that may still be entered, \<open>t\<close> the fields down to the
  payload and \<open>at\<close> the coordinate in it.\<close>

definition hits_gl ::
  "path list \<Rightarrow> field_number list \<Rightarrow> field_number \<Rightarrow> nat \<Rightarrow> nat \<Rightarrow> match_kind_gl \<Rightarrow> match_gl list" where
  "hits_gl ps t f a b kind = map (hit_gl f (span_nat a b) kind) (ids_at ps (t @ [f]))"

fun value_kind_gl :: "payload \<Rightarrow> match_kind_gl option" where
  "value_kind_gl (PVarint v w) = Some (MkVarint_gl v)"
| "value_kind_gl (PI64 v) = Some (MkI64_gl v)"
| "value_kind_gl (PLen bs w) = Some (MkLen_gl bs)"
| "value_kind_gl (PI32 v) = Some (MkI32_gl v)"
| "value_kind_gl PEnter = None"
| "value_kind_gl PExit = None"

inductive selects_gl ::
  "path list \<Rightarrow> bool \<Rightarrow> nat \<Rightarrow> nat \<Rightarrow> field_number list \<Rightarrow> nat \<Rightarrow> token list \<Rightarrow> match_gl list \<Rightarrow> bool"
  for ps m where
  sl_end: "selects_gl ps m base rem t0 at [] []"
| sl_value: "tok_ok t \<Longrightarrow> (m \<longrightarrow> tok_minimal t) \<Longrightarrow> value_kind_gl (tk_payload t) = Some kind \<Longrightarrow>
    \<not> (is_len (tk_payload t) \<and> routed_at ps (t0 @ [tk_field t])) \<Longrightarrow>
    stop = at + length (emit_tok t) \<Longrightarrow>
    selects_gl ps m base rem t0 stop ts hs \<Longrightarrow>
    selects_gl ps m base rem t0 at (t # ts)
      (hits_gl ps t0 (tk_field t) (base + at) (base + stop) kind @ hs)"
| sl_payload: "tok_ok t \<Longrightarrow> (m \<longrightarrow> tok_minimal t) \<Longrightarrow> t = Token f w (PLen (emit us) lw) \<Longrightarrow>
    routed_at ps (t0 @ [f]) \<Longrightarrow> 0 < rem \<Longrightarrow> stop = at + length (emit_tok t) \<Longrightarrow>
    selects_gl ps m (base + stop - length (emit us)) (rem - 1) (t0 @ [f]) 0 us hs1 \<Longrightarrow>
    selects_gl ps m base rem t0 stop ts hs2 \<Longrightarrow>
    selects_gl ps m base rem t0 at (t # ts)
      (hits_gl ps t0 f (base + at) (base + stop) (MkLen_gl (emit us)) @ hs1 @ hs2)"

section \<open>Stepping in batches\<close>

definition quiet_gl :: "matches_gl \<Rightarrow> matches_gl" where
  "quiet_gl s = s\<lparr>ms_next_hit_gl := length (ms_pending_gl s)\<rparr>"

interpretation batch_gl: batches "sel_turn_gl m" "sel_step_gl m" ms_pending_gl ms_next_hit_gl
    "\<lambda>n s. s\<lparr>ms_next_hit_gl := n\<rparr>" for m
  by unfold_locales (simp_all add: sel_step_gl.simps [of m] sel_turn_gl_def)

lemmas walk_batch_gl = batch_gl.walk_batch [folded quiet_gl_def]

section \<open>The state of a selection\<close>

definition lay_gl :: "cursor_gl \<Rightarrow> nat \<Rightarrow> crossing option \<Rightarrow> nat \<Rightarrow> layer_gl" where
  "lay_gl c base x rem =
     \<lparr>ly_cursor_gl = c, ly_base_gl = of_nat base, ly_crossing_gl = x, ly_remaining_gl = of_nat rem\<rparr>"

definition fits_gl :: "nat \<Rightarrow> cursor_gl \<Rightarrow> nat \<Rightarrow> nat \<Rightarrow> bool" where
  "fits_gl len c base rem \<longleftrightarrow>
     len \<le> admission_MAX \<and> base + length (cur_data_gl c) \<le> len \<and> cur_at_gl c \<le> length (cur_data_gl c) \<and> rem < 65536"

definition seat_gl ::
  "path list \<Rightarrow> nat \<Rightarrow> matches_gl \<Rightarrow> cursor_gl \<Rightarrow> nat \<Rightarrow> nat \<Rightarrow> crossing option \<Rightarrow> field_number list \<Rightarrow> layer_gl list \<Rightarrow> bool" where
  "seat_gl ps len s c base rem x t0 Ls \<longleftrightarrow>
     program_over ps = Inr (ms_program_gl s) \<and> ms_stalled_gl s = None \<and>
     ms_next_hit_gl s = length (ms_pending_gl s) \<and> ms_layers_gl s = lay_gl c base x rem # Ls \<and>
     walker (program_ops (ms_program_gl s)) (ms_matcher_gl s) t0 \<and>
     fits_gl len c base rem \<and> nested_trail (trail_gl (ms_layers_gl s)) base"

lemma trail_gl_layer: "trail_gl (lay_gl c base x rem # Ls) = trail_gl Ls @ (case x of None \<Rightarrow> [] | Some y \<Rightarrow> [y])"
  by (simp add: trail_gl_def lay_gl_def List.map_filter_def split: option.split)

lemma adv_gl_fields [simp]:
  "cur_data_gl (adv_gl c t) = cur_data_gl c" "cur_at_gl (adv_gl c t) = cur_at_gl c + length (emit_tok t)"
  by (simp_all add: adv_gl_def deliver_tok_gl_def)

lemma room_gl: "suffix_gl c = emit_tok t @ rest \<Longrightarrow> cur_at_gl c \<le> length (cur_data_gl c) \<Longrightarrow>
  cur_at_gl c + length (emit_tok t) \<le> length (cur_data_gl c)"
  by (drule arg_cong [where f = length]) (simp add: suffix_gl_def)

lemma fits_adv_gl:
  assumes "fits_gl len c base rem" "suffix_gl c = emit_tok t @ rest"
  shows "fits_gl len (adv_gl c t) base rem"
  using assms room_gl [OF assms(2)] by (simp add: fits_gl_def)

section \<open>The arms of a turn\<close>

definition moved_gl :: "matches_gl \<Rightarrow> layer_gl \<Rightarrow> layer_gl list \<Rightarrow> matches_gl" where
  "moved_gl s l Ls = s\<lparr>ms_layers_gl := l # Ls, ms_pending_gl := [], ms_next_hit_gl := 0\<rparr>"

lemma moved_gl_fields [simp]:
  "ms_layers_gl (moved_gl s l Ls) = l # Ls" "ms_pending_gl (moved_gl s l Ls) = []"
  "ms_next_hit_gl (moved_gl s l Ls) = 0"
  "ms_program_gl (moved_gl s l Ls) = ms_program_gl s" "ms_matcher_gl (moved_gl s l Ls) = ms_matcher_gl s"
  "ms_stalled_gl (moved_gl s l Ls) = ms_stalled_gl s"
  by (simp_all add: moved_gl_def)

lemma lay_gl_fields [simp]:
  "ly_cursor_gl (lay_gl c base x rem) = c" "ly_base_gl (lay_gl c base x rem) = of_nat base"
  "ly_crossing_gl (lay_gl c base x rem) = x" "ly_remaining_gl (lay_gl c base x rem) = of_nat rem"
  "lay_gl c base x rem\<lparr>ly_cursor_gl := c'\<rparr> = lay_gl c' base x rem"
  by (simp_all add: lay_gl_def)

lemma seat_pos_gl:
  assumes "seat_gl ps len s c base rem x t0 Ls" "at \<le> length (cur_data_gl c)"
  shows "word_add (of_nat base) (admitted_u32 at) = Some (of_nat (base + at))" "base + at \<le> admission_MAX"
proof -
  have "base + at \<le> admission_MAX" using assms by (simp add: seat_gl_def fits_gl_def)
  then show "base + at \<le> admission_MAX"
    "word_add (of_nat base) (admitted_u32 at) = Some (of_nat (base + at))"
    unfolding admitted_u32_def by (simp, intro word_add_of_nat) (simp add: admission_MAX_eq)
qed

lemma seat_at_gl: "seat_gl ps len s c base rem x t0 Ls \<Longrightarrow> cur_at_gl c \<le> length (cur_data_gl c)"
  by (simp add: seat_gl_def fits_gl_def)

lemma turn_entry_gl:
  assumes seat: "seat_gl ps len s c base rem x t0 Ls"
    and t: "step_gl m c = Some (adv_gl c t, Some (Inr e))" "suffix_gl c = emit_tok t @ rest"
    and stop: "stop = cur_at_gl c + length (emit_tok t)"
  shows "sel_turn_gl m s = sel_entry_gl (moved_gl s (lay_gl (adv_gl c t) base x rem) Ls) e
    (of_nat rem) (of_nat (base + cur_at_gl c)) (of_nat (base + stop))"
    "walk_span (of_nat (base + cur_at_gl c)) (of_nat (base + stop)) = Some (span_nat (base + cur_at_gl c) (base + stop))"
    "fan_out_gl (moved_gl s l Ls) f (span_nat a b) kind =
       Some ((moved_gl s l Ls)\<lparr>ms_pending_gl := hits_gl ps t0 f a b kind\<rparr>)"
proof -
  note pos = seat_pos_gl [OF seat seat_at_gl [OF seat]] seat_pos_gl [OF seat room_gl [OF t(2) seat_at_gl [OF seat]]]
  have "\<not> ms_next_hit_gl s < length (ms_pending_gl s)" "ms_stalled_gl s = None"
    "ms_layers_gl s = lay_gl c base x rem # Ls" using seat by (simp_all add: seat_gl_def)
  with pos(1,3) show "sel_turn_gl m s = sel_entry_gl (moved_gl s (lay_gl (adv_gl c t) base x rem) Ls) e
    (of_nat rem) (of_nat (base + cur_at_gl c)) (of_nat (base + stop))"
    by (simp add: sel_turn_gl_def cursor_pos_gl_def t(1) stop moved_gl_def Let_def del: of_nat_add)
  show "walk_span (of_nat (base + cur_at_gl c)) (of_nat (base + stop)) = Some (span_nat (base + cur_at_gl c) (base + stop))"
    using pos(4) by (intro walk_span_nat) (simp_all add: stop)
  have "visit_targets (ms_matcher_gl s) f = Some (ids_at ps (t0 @ [f]))"
    using seat unfolding seat_gl_def by (intro visit_ids) blast+
  then show "fan_out_gl (moved_gl s l Ls) f (span_nat a b) kind =
       Some ((moved_gl s l Ls)\<lparr>ms_pending_gl := hits_gl ps t0 f a b kind\<rparr>)"
    by (simp add: fan_out_gl_def hits_gl_def)
qed

lemma seat_moved_gl:
  assumes "seat_gl ps len s c base rem x t0 Ls" "fits_gl len c' base rem"
    and "walker (program_ops (ms_program_gl s)) m' t0"
    and "s' = (moved_gl s (lay_gl c' base x rem) Ls)\<lparr>ms_matcher_gl := m', ms_pending_gl := P\<rparr>"
  shows "seat_gl ps len (quiet_gl s') c' base rem x t0 Ls"
  using assms unfolding seat_gl_def quiet_gl_def by (clarsimp simp: trail_gl_layer)

lemma turn_value_gl:
  assumes seat: "seat_gl ps len s c base rem x t0 Ls"
    and t: "step_gl m c = Some (adv_gl c t, Some (Inr (entry_of_gl t)))" "suffix_gl c = emit_tok t @ rest"
    and stop: "stop = cur_at_gl c + length (emit_tok t)"
    and k: "value_kind_gl (tk_payload t) = Some kind" "\<not> (is_len (tk_payload t) \<and> routed_at ps (t0 @ [tk_field t]))"
  obtains s' where "sel_turn_gl m s = Some (Continue s')" "ms_next_hit_gl s' = 0"
    "ms_pending_gl s' = hits_gl ps t0 (tk_field t) (base + cur_at_gl c) (base + stop) kind"
    "seat_gl ps len (quiet_gl s') (adv_gl c t) base rem x t0 Ls"
proof -
  let ?M = "moved_gl s (lay_gl (adv_gl c t) base x rem) Ls" and ?a = "base + cur_at_gl c" and ?b = "base + stop"
  let ?h = "hits_gl ps t0 (tk_field t) ?a ?b kind"
  note turn = turn_entry_gl [OF seat t stop]
  have fits: "fits_gl len (adv_gl c t) base rem" using seat by (intro fits_adv_gl [OF _ t(2)]) (simp add: seat_gl_def)
  have w: "program_over ps = Inr (ms_program_gl s)" "walker (program_ops (ms_program_gl s)) (ms_matcher_gl s) t0"
    using seat by (simp_all add: seat_gl_def)
  show ?thesis
  proof (cases "is_len (tk_payload t)")
    case False
    then have "sel_turn_gl m s = Some (Continue (?M\<lparr>ms_pending_gl := ?h\<rparr>))"
      using k(1) turn(2,3)
      by (cases "tk_payload t") (simp_all add: turn(1) sel_entry_gl_def entry_of_gl_def sel_value_gl_def del: of_nat_add)
    moreover have "seat_gl ps len (quiet_gl (?M\<lparr>ms_pending_gl := ?h\<rparr>)) (adv_gl c t) base rem x t0 Ls"
      by (rule seat_moved_gl [OF seat fits w(2), of _ ?h]) (simp add: moved_gl_def)
    ultimately show ?thesis by (intro that [of "?M\<lparr>ms_pending_gl := ?h\<rparr>"]) simp_all
  next
    case True
    then obtain bs lw where p: "tk_payload t = PLen bs lw" by (cases "tk_payload t") auto
    obtain m1 where m1: "probe_routes (ms_matcher_gl s) (tk_field t) = Some (False, m1)"
        "walker (program_ops (ms_program_gl s)) m1 t0"
      by (rule route_step [OF w, of "tk_field t"]) (rule that, use k(2) True in simp_all)
    then have "sel_turn_gl m s = Some (Continue (?M\<lparr>ms_pending_gl := ?h, ms_matcher_gl := m1\<rparr>))"
      using k(1) turn(2,3) by (simp add: p turn(1) sel_entry_gl_def entry_of_gl_def sel_len_gl_def del: of_nat_add)
    moreover have "seat_gl ps len (quiet_gl (?M\<lparr>ms_pending_gl := ?h, ms_matcher_gl := m1\<rparr>)) (adv_gl c t) base rem x t0 Ls"
      by (rule seat_moved_gl [OF seat fits m1(2), of _ ?h]) (simp add: moved_gl_def)
    ultimately show ?thesis by (intro that [of "?M\<lparr>ms_pending_gl := ?h, ms_matcher_gl := m1\<rparr>"]) simp_all
  qed
qed

lemma turn_payload_gl:
  assumes seat: "seat_gl ps len s c base rem x t0 Ls"
    and t: "step_gl m c = Some (adv_gl c t, Some (Inr (entry_of_gl t)))" "suffix_gl c = emit_tok t @ rest" "tok_ok t"
    and stop: "stop = cur_at_gl c + length (emit_tok t)"
    and p: "t = Token f w (PLen bs lw)" and d: "0 < rem" and r: "routed_at ps (t0 @ [f])"
  obtains s' c' y where "sel_turn_gl m s = Some (Continue s')" "ms_next_hit_gl s' = 0"
    "ms_pending_gl s' = hits_gl ps t0 f (base + cur_at_gl c) (base + stop) (MkLen_gl bs)"
    "seat_gl ps len (quiet_gl s') c' (base + stop - length bs) (rem - 1) y (t0 @ [f]) (lay_gl (adv_gl c t) base x rem # Ls)"
    "suffix_gl c' = bs" "cur_at_gl c' = 0"
    "fits_gl len (adv_gl c t) base rem" "nested_trail (trail_gl (lay_gl (adv_gl c t) base x rem # Ls)) base"
proof -
  let ?a = "base + cur_at_gl c" and ?b = "base + stop" and ?L = "lay_gl (adv_gl c t) base x rem"
  let ?h = "hits_gl ps t0 f ?a ?b (MkLen_gl bs)" and ?M = "moved_gl s ?L Ls"
  let ?y = "Some \<lparr>crossing_field = f, crossing_at = of_nat ?a\<rparr>"
  have room: "cur_at_gl c + length (emit_tok t) \<le> length (cur_data_gl c)"
    by (rule room_gl [OF t(2) seat_at_gl [OF seat]])
  have "0 < w" "length bs < 2 ^ 31" using t(3) by (simp_all add: p)
  then have bs: "cur_at_gl c < stop - length bs" "length bs \<le> stop" "length bs \<le> admission_MAX"
    by (simp_all add: stop p admission_MAX_eq)
  have b: "?a \<le> ?b" "?b \<le> admission_MAX" using seat_pos_gl(2) [OF seat room] stop by simp_all
  have fits: "fits_gl len (adv_gl c t) base rem" using seat by (intro fits_adv_gl [OF _ t(2)]) (simp add: seat_gl_def)
  have w: "program_over ps = Inr (ms_program_gl s)" "walker (program_ops (ms_program_gl s)) (ms_matcher_gl s) t0"
    and nest: "nested_trail (trail_gl (?L # Ls)) base" and st: "ms_stalled_gl s = None"
    using seat by (auto simp: seat_gl_def trail_gl_layer)
  obtain m1 m2 where m: "probe_routes (ms_matcher_gl s) f = Some (True, m1)"
    "commit_descent (program_ops (ms_program_gl s)) m1 = Some m2"
    "walker (program_ops (ms_program_gl s)) m2 (t0 @ [f])"
    using r by (auto intro: route_step [OF w, of f])
  obtain ci where ci: "cursor_within_gl bs = Some ci" "cur_data_gl ci = bs" "cur_at_gl ci = 0"
    using bs(3) by (simp add: cursor_within_gl_def)
  have start: "word_sub (of_nat ?b :: u32) (of_nat (length bs)) = Some (of_nat (?b - length bs))"
    using bs(2) b(2) by (intro word_sub_of_nat) (simp_all add: admission_MAX_eq)
  have rem: "rem < 65536" using fits by (simp add: fits_gl_def)
  then have "unat (of_nat rem :: u16) = rem" by (simp add: unat_of_nat)
  with d have left: "(of_nat rem :: u16) \<noteq> 0" "word_sub (of_nat rem :: u16) 1 = Some (of_nat (rem - 1))"
    using rem word_sub_of_nat [of 1 rem, where ?'a = 16] by auto
  define s' where "s' = ?M\<lparr>ms_pending_gl := ?h, ms_matcher_gl := m2,
      ms_layers_gl := lay_gl ci (?b - length bs) ?y (rem - 1) # ?L # Ls\<rparr>"
  have "sel_turn_gl m s = Some (Continue s')"
    unfolding turn_entry_gl(1) [OF seat t(1,2) stop]
    using turn_entry_gl(2,3) [OF seat t(1,2) stop] m(1,2) ci(1) start left
    by (simp add: s'_def p entry_of_gl_def sel_entry_gl_def sel_len_gl_def Let_def lay_gl_def moved_gl_def
        del: of_nat_add of_nat_diff)
  moreover have "seat_gl ps len (quiet_gl s') ci (?b - length bs) (rem - 1) ?y (t0 @ [f]) (?L # Ls)"
  proof -
    have "fits_gl len ci (?b - length bs) (rem - 1)"
      using fits ci bs room by (auto simp: fits_gl_def stop)
    moreover have "usize_of (of_nat ?a) = ?a"
      using b by (simp add: usize_of_def unat_of_nat admission_MAX_eq del: of_nat_add)
    then have "nested_trail (trail_gl (lay_gl ci (?b - length bs) ?y (rem - 1) # ?L # Ls)) (?b - length bs)"
      using nest bs(1,2)
      by (subst trail_gl_layer) (fastforce simp: nested_trail_def sorted_wrt_append)
    ultimately show ?thesis using m(3) w(1) st by (simp add: s'_def seat_gl_def quiet_gl_def)
  qed
  moreover have "suffix_gl ci = bs" using ci by (simp add: suffix_gl_def)
  ultimately show ?thesis using ci(3) fits nest by (intro that [of s' ci ?y]) (simp_all add: s'_def)
qed

section \<open>Turns that end a layer or the selection\<close>

definition fault_ok_gl :: "nat \<Rightarrow> sel_fault_gl \<Rightarrow> bool" where
  "fault_ok_gl len f \<longleftrightarrow> place_ok len (sf_at_gl f) (sf_trail_gl f)"

abbreviation faulting_gl :: "bool \<Rightarrow> nat \<Rightarrow> matches_gl \<Rightarrow> bool" where
  "faulting_gl m len \<equiv> ends_faulted (sel_step_gl m) (fault_ok_gl len)"

lemma faulting_batch_gl:
  assumes "sel_turn_gl m s = Some (Continue s')" "ms_next_hit_gl s' = 0" "faulting_gl m len (quiet_gl s')"
  shows "faulting_gl m len s"
  by (rule ends_faulted_after [OF walk_batch_gl [OF assms(1,2)] assms(3)])

lemma faulting_break_gl:
  assumes "sel_turn_gl m s = Some (Break (s', Some (Inl f)))" "fault_ok_gl len f"
    and "ms_layers_gl s' = []" "ms_stalled_gl s' = None" "\<not> ms_next_hit_gl s' < length (ms_pending_gl s')"
  shows "faulting_gl m len s"
proof -
  have "sel_turn_gl m s' = Some (Break (s', None))" using assms(3-5) by (simp add: sel_turn_gl_def)
  then show ?thesis
    using batch_gl.walk_break(2) [OF assms(1)] batch_gl.step_turns(2) assms(2) by (auto simp: ends_faulted_def)
qed

lemma fault_ok_seat_gl:
  assumes seat: "seat_gl ps len s c base rem x t0 Ls" and at: "at \<le> length (cur_data_gl c)"
  shows "fault_ok_gl len \<lparr>sf_at_gl = of_nat (base + at), sf_trail_gl = trail_gl (lay_gl c' base x rem' # Ls), sf_breach_gl = br\<rparr>"
proof -
  have "usize_of (of_nat (base + at)) = base + at"
    using seat_pos_gl(2) [OF seat at] by (simp add: usize_of_def unat_of_nat admission_MAX_eq del: of_nat_add)
  moreover have "base + at \<le> len" using seat at by (simp add: seat_gl_def fits_gl_def)
  moreover have "nested_trail (trail_gl (lay_gl c base x rem # Ls)) base" using seat by (auto simp: seat_gl_def)
  then have "nested_trail (trail_gl (lay_gl c' base x rem' # Ls)) (base + at)"
    unfolding trail_gl_layer nested_trail_def by fastforce
  ultimately show ?thesis by (simp add: fault_ok_gl_def place_ok_def del: of_nat_add)
qed

lemma turn_fault_gl:
  assumes seat: "seat_gl ps len s c base rem x t0 Ls" and f: "step_gl m c = Some (c', Some (Inl f))"
  shows "faulting_gl m len s"
proof -
  have "cur_at_gl c < length (cur_data_gl c)"
    using step_end_gl [of c m] f by (cases "length (cur_data_gl c) \<le> cur_at_gl c") auto
  from step_answered_gl [OF f this] seat_at_gl [OF seat] obtain at where
    at: "at \<le> length (cur_data_gl c)" "fault_at_gl f = admitted_u32 at" "cur_at_gl c' = cur_at_gl c"
    by (auto simp: answered_gl_def)
  have s: "\<not> ms_next_hit_gl s < length (ms_pending_gl s)" "ms_stalled_gl s = None"
    "ms_layers_gl s = lay_gl c base x rem # Ls" using seat by (simp_all add: seat_gl_def)
  have "sel_turn_gl m s = Some (Break (s\<lparr>ms_layers_gl := []\<rparr>, Some (Inl
      \<lparr>sf_at_gl = of_nat (base + at), sf_trail_gl = trail_gl (lay_gl c' base x rem # Ls),
       sf_breach_gl = breach_gl (fault_kind_gl f)\<rparr>)))"
    using s f seat_pos_gl(1) [OF seat at(1)] seat_pos_gl(1) [OF seat seat_at_gl [OF seat]]
    by (simp add: sel_turn_gl_def cursor_pos_gl_def at(2,3) sel_fault_at_gl_def Let_def del: of_nat_add)
  then show ?thesis
    by (rule faulting_break_gl) (use s fault_ok_seat_gl [OF seat at(1)] in simp_all)
qed

lemma turn_payload_full_gl:
  assumes seat: "seat_gl ps len s c base 0 x t0 Ls"
    and t: "step_gl m c = Some (adv_gl c t, Some (Inr (entry_of_gl t)))" "suffix_gl c = emit_tok t @ rest"
    and p: "t = Token f w (PLen bs lw)" and r: "routed_at ps (t0 @ [f])"
  shows "faulting_gl m len s"
proof -
  let ?M = "moved_gl s (lay_gl (adv_gl c t) base x 0) Ls"
  let ?a = "base + cur_at_gl c" and ?b = "base + (cur_at_gl c + length (emit_tok t))"
  let ?h = "hits_gl ps t0 f ?a ?b (MkLen_gl bs)"
  let ?f = "\<lparr>sf_at_gl = of_nat ?a, sf_trail_gl = trail_gl (lay_gl (adv_gl c t) base x 0 # Ls), sf_breach_gl = WbDepth_gl\<rparr>"
  have w: "program_over ps = Inr (ms_program_gl s)" "walker (program_ops (ms_program_gl s)) (ms_matcher_gl s) t0"
    using seat by (simp_all add: seat_gl_def)
  obtain m1 where m: "probe_routes (ms_matcher_gl s) f = Some (True, m1)"
    using r by (auto intro: route_step [OF w, of f])
  define s' where "s' = ?M\<lparr>ms_pending_gl := ?h, ms_matcher_gl := m1, ms_stalled_gl := Some ?f\<rparr>"
  have turn: "sel_turn_gl m s = Some (Continue s')"
    unfolding turn_entry_gl(1) [OF seat t refl]
    using turn_entry_gl(2,3) [OF seat t refl] m
    by (simp add: s'_def p entry_of_gl_def sel_entry_gl_def sel_len_gl_def Let_def sel_fault_at_gl_def del: of_nat_add)
  have fq: "faulting_gl m len (quiet_gl s')"
    by (rule faulting_break_gl [of _ _ "(quiet_gl s')\<lparr>ms_stalled_gl := None, ms_layers_gl := []\<rparr>" ?f])
      (use fault_ok_seat_gl [OF seat seat_at_gl [OF seat]] in \<open>simp_all add: sel_turn_gl_def quiet_gl_def s'_def\<close>)
  have "ms_next_hit_gl s' = 0" by (simp add: s'_def)
  from faulting_batch_gl [OF turn this fq] show ?thesis .
qed

lemma turn_done_gl:
  assumes seat: "seat_gl ps len s c base rem x t0 []" and c: "suffix_gl c = []"
  shows "sel_turn_gl m s = Some (Break (s, None))" "walk (sel_step_gl m) s = Some ([], None, s)"
proof -
  have s: "\<not> ms_next_hit_gl s < length (ms_pending_gl s)" "ms_stalled_gl s = None"
    "ms_layers_gl s = [lay_gl c base x rem]" using seat by (auto simp: seat_gl_def)
  have "length (cur_data_gl c) \<le> cur_at_gl c" using c by (simp add: suffix_gl_def)
  then have "step_gl m c = Some (c, None)" by (intro step_end_gl)
  moreover have "s\<lparr>ms_layers_gl := [lay_gl c base x rem]\<rparr> = s" using s(3) by (cases s) simp
  ultimately show d: "sel_turn_gl m s = Some (Break (s, None))"
    using s seat_pos_gl(1) [OF seat seat_at_gl [OF seat]]
    by (simp add: sel_turn_gl_def cursor_pos_gl_def Let_def del: of_nat_add)
  show "walk (sel_step_gl m) s = Some ([], None, s)" by (rule batch_gl.walk_break(1) [OF d])
qed

lemma turn_leave_gl:
  assumes seat: "seat_gl ps len s c base' rem' y (t0 @ [f]) (lay_gl co base x rem # Ls)"
    and c: "suffix_gl c = []" and fits: "fits_gl len co base rem"
    and nest: "nested_trail (trail_gl (lay_gl co base x rem # Ls)) base"
  obtains s' where "walk (sel_step_gl m) s = walk (sel_step_gl m) s'" "seat_gl ps len s' co base rem x t0 Ls"
proof -
  have s: "\<not> ms_next_hit_gl s < length (ms_pending_gl s)" "ms_stalled_gl s = None"
    "ms_layers_gl s = lay_gl c base' y rem' # lay_gl co base x rem # Ls"
    using seat by (auto simp: seat_gl_def)
  have w: "program_over ps = Inr (ms_program_gl s)"
    "walker (program_ops (ms_program_gl s)) (ms_matcher_gl s) (t0 @ [f])"
    using seat by (simp_all add: seat_gl_def)
  from walker_exits [OF w] obtain m' where m': "matcher_exit (program_ops (ms_program_gl s)) (ms_matcher_gl s) = Some m'"
    "walker (program_ops (ms_program_gl s)) m' t0" by blast
  have "length (cur_data_gl c) \<le> cur_at_gl c" using c by (simp add: suffix_gl_def)
  then have e: "step_gl m c = Some (c, None)" by (intro step_end_gl)
  let ?s = "s\<lparr>ms_layers_gl := lay_gl co base x rem # Ls, ms_matcher_gl := m'\<rparr>"
  have "sel_turn_gl m s = Some (Continue ?s)"
    using s e m'(1) seat_pos_gl(1) [OF seat seat_at_gl [OF seat]]
    by (simp add: sel_turn_gl_def cursor_pos_gl_def Let_def del: of_nat_add)
  moreover have "seat_gl ps len ?s co base rem x t0 Ls"
    using seat fits nest m'(2) by (simp add: seat_gl_def)
  ultimately show ?thesis by (intro that [OF batch_gl.walk_continue])
qed

section \<open>A selection that ends cleanly is the one of its tokens\<close>

lemma value_lawful_gl:
  "value_kind_gl (tk_payload t) = Some kind \<Longrightarrow> tok_ok t \<Longrightarrow> m \<longrightarrow> tok_minimal t \<Longrightarrow> lawful_gl m c t"
  by (cases "tk_payload t") (simp_all add: lawful_gl_def)

lemma seat_step_gl:
  assumes "suffix_gl c = emit (t # ts)" "lawful_gl m c t"
  shows "step_gl m c = Some (adv_gl c t, Some (Inr (entry_of_gl t)))" "suffix_gl c = emit_tok t @ emit ts"
    "suffix_gl (adv_gl c t) = emit ts"
proof -
  show e: "suffix_gl c = emit_tok t @ emit ts" using assms(1) by simp
  show "suffix_gl (adv_gl c t) = emit ts" by (rule walk_gl.suffix_adv [OF TrueI e assms(2)])
  show "step_gl m c = Some (adv_gl c t, Some (Inr (entry_of_gl t)))"
    using e assms(2) by (subst walk_gl.step_entry [OF TrueI]) blast
qed

lemma selects_walks_gl:
  assumes "selects_gl ps m base rem t0 at ts hs"
    and "seat_gl ps len s c base rem x t0 Ls" "suffix_gl c = emit ts" "cur_at_gl c = at"
  shows "\<exists>s' c'. walk (sel_step_gl m) s = after hs (walk (sel_step_gl m) s') \<and>
    seat_gl ps len s' c' base rem x t0 Ls \<and> suffix_gl c' = []"
  using assms
proof (induction arbitrary: s c x Ls rule: selects_gl.induct)
  case (sl_end base rem t0 at)
  then show ?case by (intro exI [of _ s] exI [of _ c]) simp
next
  case (sl_value t kind t0 stop at base rem ts hs)
  note st = seat_step_gl [OF sl_value.prems(2) value_lawful_gl [OF sl_value.hyps(3,1,2)]]
  have stop: "stop = cur_at_gl c + length (emit_tok t)" using sl_value.hyps(5) sl_value.prems(3) by simp
  obtain s' where s': "sel_turn_gl m s = Some (Continue s')" "ms_next_hit_gl s' = 0"
    "ms_pending_gl s' = hits_gl ps t0 (tk_field t) (base + cur_at_gl c) (base + stop) kind"
    "seat_gl ps len (quiet_gl s') (adv_gl c t) base rem x t0 Ls"
    using turn_value_gl [OF sl_value.prems(1) st(1,2) stop sl_value.hyps(3,4)] by blast
  have "cur_at_gl (adv_gl c t) = stop" using stop by simp
  from sl_value.IH [OF s'(4) st(3) this] show ?case
    using walk_batch_gl [OF s'(1,2)] s'(3) sl_value.prems(3) by (metis after_append)
next
  case (sl_payload t f w us lw t0 rem stop at base hs1 ts hs2)
  have "value_kind_gl (tk_payload t) = Some (MkLen_gl (emit us))" using sl_payload.hyps(3) by simp
  note st = seat_step_gl [OF sl_payload.prems(2) value_lawful_gl [OF this sl_payload.hyps(1,2)]]
  have stop: "stop = cur_at_gl c + length (emit_tok t)" using sl_payload.hyps(6) sl_payload.prems(3) by simp
  obtain s' c' y where s': "sel_turn_gl m s = Some (Continue s')" "ms_next_hit_gl s' = 0"
    "ms_pending_gl s' = hits_gl ps t0 f (base + cur_at_gl c) (base + stop) (MkLen_gl (emit us))"
    and inner: "seat_gl ps len (quiet_gl s') c' (base + stop - length (emit us)) (rem - 1) y (t0 @ [f])
      (lay_gl (adv_gl c t) base x rem # Ls)" "suffix_gl c' = emit us" "cur_at_gl c' = 0"
    and outer: "fits_gl len (adv_gl c t) base rem" "nested_trail (trail_gl (lay_gl (adv_gl c t) base x rem # Ls)) base"
    using turn_payload_gl [OF sl_payload.prems(1) st(1,2) sl_payload.hyps(1) stop sl_payload.hyps(3,5,4)] by blast
  from sl_payload.IH(1) [OF inner] obtain s1 c1 where
    s1: "walk (sel_step_gl m) (quiet_gl s') = after hs1 (walk (sel_step_gl m) s1)" and
    seat1: "seat_gl ps len s1 c1 (base + stop - length (emit us)) (rem - 1) y (t0 @ [f])
      (lay_gl (adv_gl c t) base x rem # Ls)" "suffix_gl c1 = []" by blast
  obtain s2 where s2: "walk (sel_step_gl m) s1 = walk (sel_step_gl m) s2" "seat_gl ps len s2 (adv_gl c t) base rem x t0 Ls"
    using turn_leave_gl [OF seat1 outer] by blast
  have "cur_at_gl (adv_gl c t) = stop" using stop by simp
  from sl_payload.IH(2) [OF s2(2) st(3) this] show ?case
    using walk_batch_gl [OF s'(1,2)] s'(3) s1 s2(1) sl_payload.prems(3) by (metis after_append)
qed

section \<open>Every selection is that of its tokens or faults\<close>

definition explained_gl ::
  "path list \<Rightarrow> nat \<Rightarrow> bool \<Rightarrow> matches_gl \<Rightarrow> cursor_gl \<Rightarrow> nat \<Rightarrow> nat \<Rightarrow> field_number list \<Rightarrow> bool" where
  "explained_gl ps len m s c base rem t0 \<longleftrightarrow>
     (\<exists>ts hs. suffix_gl c = emit ts \<and> selects_gl ps m base rem t0 (cur_at_gl c) ts hs) \<or> faulting_gl m len s"

lemma explained_batch_gl:
  assumes "sel_turn_gl m s = Some (Continue s')" "ms_next_hit_gl s' = 0"
    and "explained_gl ps len m (quiet_gl s') (adv_gl c t) base rem t0" "suffix_gl c = emit_tok t @ rest" "lawful_gl m c t"
    and "\<And>ts hs. selects_gl ps m base rem t0 (cur_at_gl c + length (emit_tok t)) ts hs \<Longrightarrow>
      \<exists>hs'. selects_gl ps m base rem t0 (cur_at_gl c) (t # ts) hs'"
  shows "explained_gl ps len m s c base rem t0"
proof (cases "faulting_gl m len (quiet_gl s')")
  case True
  from faulting_batch_gl [OF assms(1,2) this] show ?thesis by (simp add: explained_gl_def)
next
  case False
  with assms(3) obtain ts hs where r: "rest = emit ts"
    and "selects_gl ps m base rem t0 (cur_at_gl c + length (emit_tok t)) ts hs"
    using walk_gl.suffix_adv [OF TrueI assms(4,5)] by (auto simp: explained_gl_def)
  from assms(6) [OF this(2)] obtain hs' where "selects_gl ps m base rem t0 (cur_at_gl c) (t # ts) hs'" ..
  moreover have "suffix_gl c = emit (t # ts)" using assms(4) r by simp
  ultimately show ?thesis unfolding explained_gl_def by blast
qed

lemma lawful_ok_gl: "lawful_gl m c t \<Longrightarrow> tok_ok t" "lawful_gl m c t \<Longrightarrow> m \<longrightarrow> tok_minimal t"
  by (simp_all add: lawful_gl_def)

lemma explained_value_gl:
  assumes seat: "seat_gl ps len s c base rem x t0 Ls"
    and e: "step_gl m c = Some (adv_gl c t, Some (Inr (entry_of_gl t)))" "suffix_gl c = emit_tok t @ rest" "lawful_gl m c t"
    and k: "value_kind_gl (tk_payload t) = Some kind" "\<not> (is_len (tk_payload t) \<and> routed_at ps (t0 @ [tk_field t]))"
    and IH: "\<And>s'. seat_gl ps len s' (adv_gl c t) base rem x t0 Ls \<Longrightarrow> explained_gl ps len m s' (adv_gl c t) base rem t0"
  shows "explained_gl ps len m s c base rem t0"
proof -
  obtain s' where s': "sel_turn_gl m s = Some (Continue s')" "ms_next_hit_gl s' = 0"
    "seat_gl ps len (quiet_gl s') (adv_gl c t) base rem x t0 Ls"
    using turn_value_gl [OF seat e(1,2) refl k] by blast
  from explained_batch_gl [OF s'(1,2) IH [OF s'(3)] e(2,3)] sl_value [OF lawful_ok_gl [OF e(3)] k refl] show ?thesis by blast
qed

lemma explained_payload_gl:
  assumes seat: "seat_gl ps len s c base rem x t0 Ls"
    and e: "step_gl m c = Some (adv_gl c t, Some (Inr (entry_of_gl t)))" "suffix_gl c = emit_tok t @ rest" "lawful_gl m c t"
    and p: "t = Token f w (PLen bs lw)" and r: "routed_at ps (t0 @ [f])"
    and inner_IH: "\<And>s' c' base rem x t0 Ls. length (suffix_gl c') < length (suffix_gl c) \<Longrightarrow>
      seat_gl ps len s' c' base rem x t0 Ls \<Longrightarrow> explained_gl ps len m s' c' base rem t0"
    and IH: "\<And>s'. seat_gl ps len s' (adv_gl c t) base rem x t0 Ls \<Longrightarrow> explained_gl ps len m s' (adv_gl c t) base rem t0"
  shows "explained_gl ps len m s c base rem t0"
proof (cases "0 < rem")
  case False
  with turn_payload_full_gl [OF _ e(1,2) p r] seat show ?thesis by (simp add: explained_gl_def)
next
  case True
  let ?stop = "cur_at_gl c + length (emit_tok t)" and ?L = "lay_gl (adv_gl c t) base x rem"
  obtain s' c' y where s': "sel_turn_gl m s = Some (Continue s')" "ms_next_hit_gl s' = 0"
    and inner: "seat_gl ps len (quiet_gl s') c' (base + ?stop - length bs) (rem - 1) y (t0 @ [f]) (?L # Ls)"
      "suffix_gl c' = bs" "cur_at_gl c' = 0"
    and outer: "fits_gl len (adv_gl c t) base rem" "nested_trail (trail_gl (?L # Ls)) base"
    using turn_payload_gl [OF seat e(1,2) lawful_ok_gl(1) [OF e(3)] refl p True r] by blast
  have "length (suffix_gl c') < length (suffix_gl c)" using e(2) lawful_ok_gl(1) [OF e(3)] by (simp add: inner(2) p)
  from inner_IH [OF this inner(1)] consider (bad) "faulting_gl m len (quiet_gl s')"
    | (good) us hs1 where "bs = emit us" "selects_gl ps m (base + ?stop - length bs) (rem - 1) (t0 @ [f]) 0 us hs1"
    unfolding explained_gl_def inner(2,3) by blast
  then show ?thesis
  proof cases
    case bad
    from faulting_batch_gl [OF s'(1,2) this] show ?thesis by (simp add: explained_gl_def)
  next
    case good
    from selects_walks_gl [OF good(2) inner(1)] good(1) inner(2,3) obtain s1 c1 where
      s1: "walk (sel_step_gl m) (quiet_gl s') = after hs1 (walk (sel_step_gl m) s1)" and
      seat1: "seat_gl ps len s1 c1 (base + ?stop - length bs) (rem - 1) y (t0 @ [f]) (?L # Ls)" "suffix_gl c1 = []" by blast
    obtain s2 where s2: "walk (sel_step_gl m) s1 = walk (sel_step_gl m) s2" "seat_gl ps len s2 (adv_gl c t) base rem x t0 Ls"
      using turn_leave_gl [OF seat1 outer] by blast
    from s1 s2(1) have w: "walk (sel_step_gl m) (quiet_gl s') = after hs1 (walk (sel_step_gl m) s2)" by simp
    from IH [OF s2(2)] ends_faulted_after [OF w] have "explained_gl ps len m (quiet_gl s') (adv_gl c t) base rem t0"
      unfolding explained_gl_def by blast
    note batch = explained_batch_gl [OF s'(1,2) this e(2,3)]
    from good(2) have i: "selects_gl ps m (base + ?stop - length (emit us)) (rem - 1) (t0 @ [f]) 0 us hs1"
      by (simp add: good(1))
    show ?thesis
      by (rule batch) (use sl_payload [OF lawful_ok_gl [OF e(3)] p [unfolded good(1)] r True refl i] in blast)
  qed
qed

lemma selects_or_faults_gl:
  "seat_gl ps len s c base rem x t0 Ls \<Longrightarrow> explained_gl ps len m s c base rem t0"
proof (induction "length (suffix_gl c)" arbitrary: s c base rem x t0 Ls rule: less_induct)
  case less
  note seat = less.prems
  show ?case
  proof (cases c rule: walk_gl.step_cases [OF TrueI, of m, case_names finished fault entry])
    case (finished c')
    then show ?thesis unfolding explained_gl_def by (intro disjI1 exI [of _ "[]"]) (auto intro: sl_end)
  next
    case (fault c' f)
    from turn_fault_gl [OF seat fault] show ?thesis by (simp add: explained_gl_def)
  next
    case (entry t rest)
    note e = entry(1,2,3) and IH = less.hyps [OF entry(6)]
    obtain f w p where t: "t = Token f w p" by (cases t)
    show ?thesis
    proof (cases p)
      case (PLen bs lw)
      note p = t [unfolded PLen]
      show ?thesis
      proof (cases "routed_at ps (t0 @ [f])")
        case True
        from explained_payload_gl [OF seat e p True less.hyps IH] show ?thesis .
      next
        case False
        from explained_value_gl [OF seat e, of "MkLen_gl bs", OF _ _ IH] False show ?thesis by (simp add: p)
      qed
    qed (use explained_value_gl [OF seat e _ _ IH] t e(3) in \<open>simp_all add: lawful_gl_def\<close>)
  qed
qed

section \<open>Properties\<close>

lemma over_seat_gl:
  assumes "program_over ps = Inr prog" "matches_over_gl data prog limit = Some (Inr s)"
  shows "seat_gl ps (length data) s \<lparr>cur_data_gl = data, cur_at_gl = 0, cur_geo_gl = 0\<rparr> 0 (unat limit) None [] []"
proof -
  from assms(2) obtain m where l: "length data \<le> admission_MAX" and m: "matcher_new (program_ops prog) = Some m"
    and s: "s = \<lparr>ms_layers_gl = [lay_gl \<lparr>cur_data_gl = data, cur_at_gl = 0, cur_geo_gl = 0\<rparr> 0 None (unat limit)],
       ms_program_gl = prog, ms_matcher_gl = m, ms_pending_gl = [], ms_next_hit_gl = 0, ms_stalled_gl = None\<rparr>"
    by (auto simp: matches_over_gl_def cursor_over_gl_def lay_gl_def split: if_splits bind_splits)
  have "unat limit < 65536" using unsigned_less [of limit, where ?'a = nat] by simp
  with l assms(1) walker_new [OF m] show ?thesis
    by (simp add: s seat_gl_def fits_gl_def nested_trail_def trail_gl_def lay_gl_def List.map_filter_def)
qed

lemma over_explained_gl:
  assumes "program_over ps = Inr prog" "matches_over_gl data prog limit = Some (Inr s)"
  shows "(\<exists>ts hs s'. data = emit ts \<and> selects_gl ps m 0 (unat limit) [] 0 ts hs \<and>
      walk (sel_step_gl m) s = Some (hs, None, s') \<and> sel_step_gl m s' = Some (s', None)) \<or> faulting_gl m (length data) s"
proof (cases "faulting_gl m (length data) s")
  case False
  note seat = over_seat_gl [OF assms]
  from False selects_or_faults_gl [OF seat, of m] obtain ts hs where
    ts: "data = emit ts" "selects_gl ps m 0 (unat limit) [] 0 ts hs" by (auto simp: explained_gl_def suffix_gl_def)
  from selects_walks_gl [OF ts(2) seat] ts(1) obtain s' c' where
    s': "walk (sel_step_gl m) s = after hs (walk (sel_step_gl m) s')"
    "seat_gl ps (length data) s' c' 0 (unat limit) None [] []" "suffix_gl c' = []" by (auto simp: suffix_gl_def)
  note turn_done_gl [OF s'(2,3), of m]
  with s'(1) ts show ?thesis using batch_gl.step_turns(2) by auto
qed simp

lemma over_selects_gl:
  assumes "program_over ps = Inr prog" "matches_over_gl data prog limit = Some (Inr s)"
    and "data = emit ts" "selects_gl ps m 0 (unat limit) [] 0 ts hs"
  shows "\<exists>s'. walk (sel_step_gl m) s = Some (hs, None, s')"
proof -
  from selects_walks_gl [OF assms(4) over_seat_gl [OF assms(1,2)]] assms(3) obtain s' c' where
    "walk (sel_step_gl m) s = after hs (walk (sel_step_gl m) s')"
    "seat_gl ps (length data) s' c' 0 (unat limit) None [] []" "suffix_gl c' = []" by (auto simp: suffix_gl_def)
  with turn_done_gl(2) [OF this(2,3), of m] show ?thesis by auto
qed

lemma over_clean_gl:
  assumes "program_over ps = Inr prog" "matches_over_gl data prog limit = Some (Inr s)"
  shows "(\<exists>s'. walk (sel_step_gl m) s = Some (hits, None, s')) \<longleftrightarrow>
    (\<exists>ts. data = emit ts \<and> selects_gl ps m 0 (unat limit) [] 0 ts hits)" (is "?L \<longleftrightarrow> ?R")
proof
  assume ?L
  then obtain s' where "walk (sel_step_gl m) s = Some (hits, None, s')" ..
  with over_explained_gl [OF assms, of m] show ?R by (auto simp: ends_faulted_def)
qed (use over_selects_gl [OF assms] in blast)

lemma over_some_gl:
  assumes "program_over ps = Inr prog"
  obtains r where "matches_over_gl data prog limit = Some r" "r = Inl Oversize \<longleftrightarrow> admission_MAX < length data"
proof -
  obtain mt where "matcher_new (program_ops prog) = Some mt"
    using new_layer [OF program_valid(1) [OF assms]] by metis
  then obtain r where "matches_over_gl data prog limit = Some r" "r = Inl Oversize \<longleftrightarrow> admission_MAX < length data"
    by (cases "length data \<le> admission_MAX") (auto simp: matches_over_gl_def cursor_over_gl_def)
  then show ?thesis by (rule that)
qed

text \<open>C14: A groupless selection hands out exactly the selected records. Over an admitted document and
  program the iteration ends without a fault, having handed out \<open>hits\<close>, if and only if the document is a
  sequence of lawful group-free tokens, the payloads that a path may select inside are again such sequences
  within the depth bound, and \<open>hits\<close> are their records whose trail a path accepts, in wire order, the paths of a
  record ascending.\<close>

theorem selection_accepts_gl:
  assumes "program_over ps = Inr prog" "matches_over_gl data prog limit = Some (Inr s)"
  shows "(\<exists>s'. walk (sel_step_gl m) s = Some (hits, None, s')) \<longleftrightarrow>
    (\<exists>ts. data = emit ts \<and> selects_gl ps m 0 (unat limit) [] 0 ts hits)"
  by (rule over_clean_gl [OF assms])

definition demo_hits_gl :: "match_gl list" where
  "demo_hits_gl = map (hit_gl 2 (span_nat 2 4) (MkVarint_gl 5)) [0, 1]"

lemma demo_selects_gl:
  "selects_gl demo_paths True 0 (unat (3 :: 16 word)) [] 0 [Token 1 1 (PLen [16, 5] 1)] demo_hits_gl"
proof -
  let ?in = "Token 2 1 (PVarint 5 1)" and ?out = "Token 1 1 (PLen [16, 5] 1)"
  have e: "emit_tok ?in = [16, 5]" "emit_tok ?out = [10, 2, 16, 5]" by code_simp+
  have "field_ok 1 \<and> unat (tag_of 1 (PLen [16, 5] 1)) < 128 ^ 1" by code_simp
  then have "tok_ok ?out" by simp
  moreover have "tok_ok ?in" "tok_minimal ?in" "tok_minimal ?out" by code_simp+
  ultimately have ok: "tok_ok ?in" "tok_minimal ?in" "tok_ok ?out" "tok_minimal ?out" by blast+
  have h: "hits_gl demo_paths [1] (tk_field ?in) (2 + 0) (2 + 2) (MkVarint_gl 5) @ [] = demo_hits_gl"
    "hits_gl demo_paths [] 1 (0 + 0) (0 + 4) (MkLen_gl (emit [?in])) = []"
    by (simp_all add: hits_gl_def demo_ids demo_hits_gl_def)
  have p: "value_kind_gl (tk_payload ?in) = Some (MkVarint_gl 5)"
    "\<not> (is_len (tk_payload ?in) \<and> routed_at demo_paths ([1] @ [tk_field ?in]))" by simp_all
  have q: "?out = Token 1 1 (PLen (emit [?in]) 1)" "routed_at demo_paths ([] @ [1])" "0 < (3 :: nat)"
    by (simp_all only: emit_Cons emit_Nil append_Nil2 e) (simp_all add: demo_ids)
  have l: "2 = 0 + length (emit_tok ?in)" "4 = 0 + length (emit_tok ?out)" "0 + 4 - length (emit [?in]) = 2"
    "(3 - 1 :: nat) = 2" "[] @ [1] = [1 :: field_number]"
    by (simp_all only: emit_Cons emit_Nil append_Nil2 e) simp_all
  from sl_value [OF ok(1) impI [OF ok(2)] p l(1) sl_end, where base = 2 and rem = 2 and m = True]
  have "selects_gl demo_paths True 2 2 [1] 0 [?in] demo_hits_gl" unfolding h(1) .
  from sl_payload [OF ok(3) impI [OF ok(4)] q l(2), where base = 0 and m = True and
      ?hs1.0 = demo_hits_gl and ts = "[]" and ?hs2.0 = "[]", unfolded l(3-5), OF this sl_end]
  have "selects_gl demo_paths True 0 3 [] 0 [?out] ([] @ demo_hits_gl @ [])" unfolding h(2) .
  then show ?thesis by simp
qed

lemma selection_accepts_gl_witness:
  "\<exists>s s'. matches_over_gl [10, 2, 16, 5] \<lparr>program_paths = demo_paths\<rparr> 3 = Some (Inr s) \<and>
     walk (sel_step_gl True) s = Some (demo_hits_gl, None, s')"
proof -
  obtain r where r: "matches_over_gl [10, 2, 16, 5] \<lparr>program_paths = demo_paths\<rparr> 3 = Some r"
      "r = Inl Oversize \<longleftrightarrow> admission_MAX < length [10, 2, 16, 5 :: u8]"
    by (rule over_some_gl [OF demo_admitted])
  with demo_fits(2) have "r \<noteq> Inl Oversize" by linarith
  then obtain s where "r = Inr s" by (metis (full_types) oversize.exhaust sumE)
  with r have s: "matches_over_gl [10, 2, 16, 5] \<lparr>program_paths = demo_paths\<rparr> 3 = Some (Inr s)" by simp
  have "[10, 2, 16, 5] = emit [Token 1 1 (PLen [16, 5] 1)]" by code_simp
  with demo_selects_gl have "\<exists>s'. walk (sel_step_gl True) s = Some (demo_hits_gl, None, s')"
    unfolding selection_accepts_gl [OF demo_admitted s] by blast
  with s show ?thesis by blast
qed

text \<open>C15: A groupless selection returns. For every admitted program the constructor returns, refusing
  exactly an input over the cap; iteration then ends, with no panic, no wrapped addition or subtraction
  and no empty stack popped; the ended iterator answers \<open>None\<close> forever; and if it ended in a fault, the coordinate
  lies in the document and the trail of payloads down to it is nested around it.\<close>

theorem selection_returns_gl:
  assumes "program_over ps = Inr prog"
  shows "\<exists>r. matches_over_gl data prog limit = Some r \<and> (r = Inl Oversize \<longleftrightarrow> admission_MAX < length data) \<and>
    (\<forall>s. r = Inr s \<longrightarrow> (\<exists>hits f s'. walk (sel_step_gl m) s = Some (hits, f, s') \<and> sel_step_gl m s' = Some (s', None) \<and>
       (\<forall>g. f = Some g \<longrightarrow> place_ok (length data) (sf_at_gl g) (sf_trail_gl g))))"
proof -
  obtain r where r: "matches_over_gl data prog limit = Some r" "r = Inl Oversize \<longleftrightarrow> admission_MAX < length data"
    by (rule over_some_gl [OF assms])
  moreover have "\<exists>hits f s'. walk (sel_step_gl m) s = Some (hits, f, s') \<and> sel_step_gl m s' = Some (s', None) \<and>
      (\<forall>g. f = Some g \<longrightarrow> place_ok (length data) (sf_at_gl g) (sf_trail_gl g))"
    if "r = Inr s" for s
    using over_explained_gl [OF assms, of data limit s m] r(1) that unfolding ends_faulted_def fault_ok_gl_def by auto
  ultimately show ?thesis by blast
qed

lemma selection_returns_gl_witness:
  "\<exists>r. matches_over_gl [10, 2, 16, 5] \<lparr>program_paths = demo_paths\<rparr> 3 = Some r \<and> r \<noteq> Inl Oversize"
  using selection_returns_gl [OF demo_admitted, of "[10, 2, 16, 5]" 3 True] by (auto simp: admission_MAX_eq)

end
