(* ===== verification/Construct.thy ===== *)
theory Construct
  imports Vocab Scalar
begin

text \<open>
  The value-side builder's core (\<open>src/src/construct.rs\<close>): an account of the bytes to come under the
  cap of the format, a store of owned bytes, the events that will lay the document out, and the stack of
  open containers. A length prefix is an event patched when its container closes, so no byte moves twice.

  The source expands one macro for the two cores. Here the machinery takes the event constructors as an
  argument (\<open>event_ops\<close>) and is generic in what a core adds to the common fields; \<open>core\<close> adds the borrowed slices.
  Counters (\<open>u32\<close>, \<open>u64\<close>) are natural numbers with their overflow written out (\<open>None\<close>, a panic of the checked
  build). The stack holds its newest frame first; the event list is in order.
\<close>

section \<open>Checked arithmetic\<close>

definition u32_add :: "nat \<Rightarrow> nat \<Rightarrow> nat option" where
  "u32_add a b = (if a + b < 2 ^ 32 then Some (a + b) else None)"

definition u64_add :: "nat \<Rightarrow> nat \<Rightarrow> nat option" where
  "u64_add a b = (if a + b < 2 ^ 64 then Some (a + b) else None)"

definition u64_mul :: "nat \<Rightarrow> nat \<Rightarrow> nat option" where
  "u64_mul a b = (if a * b < 2 ^ 64 then Some (a * b) else None)"

section \<open>Data\<close>

definition CAP :: nat where
  "CAP = unat PayloadLen_MAX"

definition run32 :: "nat \<Rightarrow> nat option" where
  "run32 admitted = (if admitted \<le> CAP then Some admitted else None)"

record over_cap =
  oc_field :: "field_number option"
  oc_len :: nat

datatype event = EvOwned nat | EvBorrowed nat | EvLen payload_len nat

datatype copy_event = CeOwned nat | CeLen payload_len nat

record frame =
  fr_head :: u32
  fr_begin :: nat
  fr_start_total :: nat

record 'e base_core =
  co_owned :: bytes
  co_events :: "'e list"
  co_stack :: "frame list"
  co_total :: nat
  co_over :: "over_cap option"

type_synonym copy_core = "copy_event base_core"

record core = "event base_core" +
  co_borrows :: "bytes list"

record 'e event_ops =
  mk_owned :: "nat \<Rightarrow> 'e"
  mk_len :: "payload_len \<Rightarrow> nat \<Rightarrow> 'e"
  run_of :: "'e \<Rightarrow> nat option"

definition core_events :: "event event_ops" where
  "core_events = \<lparr>mk_owned = EvOwned, mk_len = EvLen, run_of = (\<lambda>e. case e of EvOwned n \<Rightarrow> Some n | _ \<Rightarrow> None)\<rparr>"

definition copy_events :: "copy_event event_ops" where
  "copy_events = \<lparr>mk_owned = CeOwned, mk_len = CeLen, run_of = (\<lambda>e. case e of CeOwned n \<Rightarrow> Some n | _ \<Rightarrow> None)\<rparr>"

definition core_new :: core where
  "core_new = \<lparr>co_owned = [], co_events = [], co_stack = [], co_total = 0, co_over = None, co_borrows = []\<rparr>"

definition copy_new :: copy_core where
  "copy_new = \<lparr>co_owned = [], co_events = [], co_stack = [], co_total = 0, co_over = None\<rparr>"

text \<open>Capacity is reserved and nothing else changes.\<close>

definition core_with_capacity :: "nat \<Rightarrow> core" where
  "core_with_capacity capacity = core_new"

definition copy_with_capacity :: "nat \<Rightarrow> copy_core" where
  "copy_with_capacity capacity = copy_new"

section \<open>The account and the runs\<close>

type_synonym ('e, 'z) co = "('e, 'z) base_core_scheme"

definition co_poisoned :: "('e, 'z) co \<Rightarrow> over_cap option" where
  "co_poisoned c = co_over c"

definition co_planned :: "('e, 'z) co \<Rightarrow> over_cap + nat" where
  "co_planned c = (case co_over c of Some over \<Rightarrow> Inl over | None \<Rightarrow> Inr (co_total c))"

definition poison_over_cap :: "('e, 'z) co \<Rightarrow> nat \<Rightarrow> ('e, 'z) co" where
  "poison_over_cap c len =
     c\<lparr>co_over := Some \<lparr>oc_field = (case co_stack c of [] \<Rightarrow> None | fr # _ \<Rightarrow> FieldNumber_from_word (fr_head fr)),
                        oc_len = len\<rparr>\<rparr>"

definition account :: "('e, 'z) co \<Rightarrow> nat \<Rightarrow> (bool \<times> ('e, 'z) co) option" where
  "account c amount =
     (if co_over c \<noteq> None then Some (False, c)
      else do { attempted \<leftarrow> u64_add (co_total c) amount;
                Some (if attempted > CAP then (False, poison_over_cap c attempted)
                      else (True, c\<lparr>co_total := attempted\<rparr>)) })"

definition push_run :: "'e event_ops \<Rightarrow> ('e, 'z) co \<Rightarrow> nat \<Rightarrow> ('e, 'z) co option" where
  "push_run E c amount =
     (case (if co_events c = [] then None else run_of E (last (co_events c))) of
        Some run \<Rightarrow> do { run \<leftarrow> u32_add run amount;
                         Some (c\<lparr>co_events := butlast (co_events c) @ [mk_owned E run]\<rparr>) }
      | None \<Rightarrow> Some (c\<lparr>co_events := co_events c @ [mk_owned E amount]\<rparr>))"

definition own_word :: "minimal64 \<Rightarrow> ('e, 'z) co \<Rightarrow> ('e, 'z) co option" where
  "own_word w c = do { owned \<leftarrow> append_to w [] (co_owned c); Some (c\<lparr>co_owned := owned\<rparr>) }"

definition own_bytes :: "bytes \<Rightarrow> ('e, 'z) co \<Rightarrow> ('e, 'z) co" where
  "own_bytes bs c = c\<lparr>co_owned := co_owned c @ bs\<rparr>"

definition head_minimal :: "u32 \<Rightarrow> minimal64" where
  "head_minimal head = minimal64_of (ucast head)"

definition len_minimal :: "nat \<Rightarrow> minimal64" where
  "len_minimal len = minimal64_of (of_nat len)"

section \<open>Records\<close>

definition put_varint :: "'e event_ops \<Rightarrow> ('e, 'z) co \<Rightarrow> u32 \<Rightarrow> u64 \<Rightarrow> ('e, 'z) co option" where
  "put_varint E c head val =
     (let head = head_minimal head; val = minimal64_of val in
      do { n \<leftarrow> u32_add (m64_width head) (m64_width val);
           (ok, c) \<leftarrow> account c n;
           if \<not> ok then Some c
           else do { c \<leftarrow> push_run E c n; c \<leftarrow> own_word head c; own_word val c } })"

definition put_fixed :: "'e event_ops \<Rightarrow> ('e, 'z) co \<Rightarrow> u32 \<Rightarrow> bytes \<Rightarrow> ('e, 'z) co option" where
  "put_fixed E c head le =
     (let head = head_minimal head in
      do { n \<leftarrow> u32_add (m64_width head) (length le);
           (ok, c) \<leftarrow> account c n;
           if \<not> ok then Some c
           else do { c \<leftarrow> push_run E c n; c \<leftarrow> own_word head c; Some (own_bytes le c) } })"

definition put_i32 :: "'e event_ops \<Rightarrow> ('e, 'z) co \<Rightarrow> u32 \<Rightarrow> u32 \<Rightarrow> ('e, 'z) co option" where
  "put_i32 E c head bits = put_fixed E c head (le_bytes 4 (unat bits))"

definition put_i64 :: "'e event_ops \<Rightarrow> ('e, 'z) co \<Rightarrow> u32 \<Rightarrow> u64 \<Rightarrow> ('e, 'z) co option" where
  "put_i64 E c head bits = put_fixed E c head (le_bytes 8 (unat bits))"

definition put_len_copy :: "'e event_ops \<Rightarrow> ('e, 'z) co \<Rightarrow> u32 \<Rightarrow> bytes \<Rightarrow> ('e, 'z) co option" where
  "put_len_copy E c head payload =
     (let head = head_minimal head; len = length payload; prefix = len_minimal len in
      do { n \<leftarrow> u64_add (m64_width head) (m64_width prefix);
           n \<leftarrow> u64_add n len;
           (ok, c) \<leftarrow> account c n;
           if \<not> ok then Some c
           else do { r \<leftarrow> u32_add (m64_width head) (m64_width prefix);
                     l \<leftarrow> run32 len;
                     r \<leftarrow> u32_add r l;
                     c \<leftarrow> push_run E c r;
                     c \<leftarrow> own_word head c;
                     c \<leftarrow> own_word prefix c;
                     Some (own_bytes payload c) } })"

definition put_raw_varint :: "'e event_ops \<Rightarrow> ('e, 'z) co \<Rightarrow> u64 \<Rightarrow> ('e, 'z) co option" where
  "put_raw_varint E c val =
     (let val = minimal64_of val in
      do { (ok, c) \<leftarrow> account c (m64_width val);
           if ok then do { c \<leftarrow> push_run E c (m64_width val); own_word val c } else Some c })"

definition put_raw_fixed :: "'e event_ops \<Rightarrow> ('e, 'z) co \<Rightarrow> bytes \<Rightarrow> ('e, 'z) co option" where
  "put_raw_fixed E c le =
     do { (ok, c) \<leftarrow> account c (length le);
          if ok then do { c \<leftarrow> push_run E c (length le); Some (own_bytes le c) } else Some c }"

definition put_raw_i32 :: "'e event_ops \<Rightarrow> ('e, 'z) co \<Rightarrow> u32 \<Rightarrow> ('e, 'z) co option" where
  "put_raw_i32 E c bits = put_raw_fixed E c (le_bytes 4 (unat bits))"

definition put_raw_i64 :: "'e event_ops \<Rightarrow> ('e, 'z) co \<Rightarrow> u64 \<Rightarrow> ('e, 'z) co option" where
  "put_raw_i64 E c bits = put_raw_fixed E c (le_bytes 8 (unat bits))"

definition put_raw_bytes_copy :: "'e event_ops \<Rightarrow> ('e, 'z) co \<Rightarrow> bytes \<Rightarrow> ('e, 'z) co option" where
  "put_raw_bytes_copy E c bs =
     (if bs = [] then Some c
      else do { (ok, c) \<leftarrow> account c (length bs);
                if ok then do { r \<leftarrow> run32 (length bs); c \<leftarrow> push_run E c r; Some (own_bytes bs c) } else Some c })"

fun sum_widths :: "('t \<Rightarrow> u64) \<Rightarrow> nat \<Rightarrow> 't list \<Rightarrow> nat option" where
  "sum_widths word body [] = Some body"
| "sum_widths word body (item # items) =
     do { body \<leftarrow> u64_add body (encoded_len64 (word item)); sum_widths word body items }"

fun own_words :: "('t \<Rightarrow> u64) \<Rightarrow> 't list \<Rightarrow> ('e, 'z) co \<Rightarrow> ('e, 'z) co option" where
  "own_words word [] c = Some c"
| "own_words word (item # items) c =
     do { owned \<leftarrow> push64 [] (co_owned c) (word item); own_words word items (c\<lparr>co_owned := owned\<rparr>) }"

definition put_packed_varints ::
  "'e event_ops \<Rightarrow> ('e, 'z) co \<Rightarrow> u32 \<Rightarrow> 't list \<Rightarrow> ('t \<Rightarrow> u64) \<Rightarrow> ('e, 'z) co option" where
  "put_packed_varints E c head items word =
     (let count = length items in
      if count > CAP then do { (_, c) \<leftarrow> account c count; Some c }
      else
        let head = head_minimal head in
        do { body \<leftarrow> sum_widths word 0 items;
             let prefix = len_minimal body in
             do { n \<leftarrow> u64_add (m64_width head) (m64_width prefix);
                  n \<leftarrow> u64_add n body;
                  (ok, c) \<leftarrow> account c n;
                  if \<not> ok then Some c
                  else do { r \<leftarrow> u32_add (m64_width head) (m64_width prefix);
                            l \<leftarrow> run32 body;
                            r \<leftarrow> u32_add r l;
                            c \<leftarrow> push_run E c r;
                            c \<leftarrow> own_word head c;
                            c \<leftarrow> own_word prefix c;
                            own_words word items c } } })"

definition put_packed_fixed ::
  "'e event_ops \<Rightarrow> ('e, 'z) co \<Rightarrow> u32 \<Rightarrow> nat \<Rightarrow> 't list \<Rightarrow> ('t \<Rightarrow> bytes) \<Rightarrow> ('e, 'z) co option" where
  "put_packed_fixed E c head wide items le =
     (let head = head_minimal head in
      do { body \<leftarrow> u64_mul wide (length items);
           let prefix = len_minimal body in
           do { n \<leftarrow> u64_add (m64_width head) (m64_width prefix);
                n \<leftarrow> u64_add n body;
                (ok, c) \<leftarrow> account c n;
                if \<not> ok then Some c
                else do { r \<leftarrow> u32_add (m64_width head) (m64_width prefix);
                          l \<leftarrow> run32 body;
                          r \<leftarrow> u32_add r l;
                          c \<leftarrow> push_run E c r;
                          c \<leftarrow> own_word head c;
                          c \<leftarrow> own_word prefix c;
                          Some (fold (\<lambda>item. own_bytes (le item)) items c) } } })"

definition put_packed_fixed32 ::
  "'e event_ops \<Rightarrow> ('e, 'z) co \<Rightarrow> u32 \<Rightarrow> 't list \<Rightarrow> ('t \<Rightarrow> u32) \<Rightarrow> ('e, 'z) co option" where
  "put_packed_fixed32 E c head items bits = put_packed_fixed E c head 4 items (\<lambda>item. le_bytes 4 (unat (bits item)))"

definition put_packed_fixed64 ::
  "'e event_ops \<Rightarrow> ('e, 'z) co \<Rightarrow> u32 \<Rightarrow> 't list \<Rightarrow> ('t \<Rightarrow> u64) \<Rightarrow> ('e, 'z) co option" where
  "put_packed_fixed64 E c head items bits = put_packed_fixed E c head 8 items (\<lambda>item. le_bytes 8 (unat (bits item)))"

section \<open>Containers\<close>

text \<open>A body closure is a function on the core it borrows.\<close>

type_synonym ('e, 'z) co_body = "('e, 'z) co \<Rightarrow> ('e, 'z) co option"

definition begin_len :: "'e event_ops \<Rightarrow> ('e, 'z) co \<Rightarrow> u32 \<Rightarrow> ('e, 'z) co option" where
  "begin_len E c head =
     (let head_word = head_minimal head in
      do { (ok, c) \<leftarrow> account c (m64_width head_word);
           (start, c) \<leftarrow>
             (if ok then
                do { c \<leftarrow> push_run E c (m64_width head_word);
                     c \<leftarrow> own_word head_word c;
                     Some (length (co_events c) mod 2 ^ 32, c\<lparr>co_events := co_events c @ [mk_len E 0 1]\<rparr>) }
              else Some (0, c));
           Some (c\<lparr>co_stack := \<lparr>fr_head = head, fr_begin = start, fr_start_total = co_total c\<rparr> # co_stack c\<rparr>) })"

definition end_len :: "'e event_ops \<Rightarrow> ('e, 'z) co \<Rightarrow> ('e, 'z) co option" where
  "end_len E c =
     (case co_stack c of
        [] \<Rightarrow> None
      | fr # _ \<Rightarrow>
          do { c \<leftarrow>
                 (if co_over c = None then
                    do { body \<leftarrow> usub (co_total c) (fr_start_total fr);
                         (_, c) \<leftarrow> account c (encoded_len64 (of_nat body));
                         if fr_begin fr < length (co_events c)
                         then do { b \<leftarrow> run32 body;
                                   Some (c\<lparr>co_events := (co_events c)
                                     [fr_begin fr := mk_len E (of_nat b) (encoded_len32 (len_inner (of_nat b)))]\<rparr>) }
                         else None }
                  else Some c);
               Some (c\<lparr>co_stack := tl (co_stack c)\<rparr>) })"

definition len_frame :: "'e event_ops \<Rightarrow> ('e, 'z) co \<Rightarrow> u32 \<Rightarrow> ('e, 'z) co_body \<Rightarrow> ('e, 'z) co option" where
  "len_frame E c head body = do { c \<leftarrow> begin_len E c head; c \<leftarrow> body c; end_len E c }"

definition group_frame ::
  "'e event_ops \<Rightarrow> ('e, 'z) co \<Rightarrow> u32 \<Rightarrow> u32 \<Rightarrow> ('e, 'z) co_body \<Rightarrow> ('e, 'z) co option" where
  "group_frame E c opening ending body =
     (let open_word = head_minimal opening; end_word = head_minimal ending in
      if m64_width end_word \<noteq> m64_width open_word then None
      else
        do { n \<leftarrow> u64_mul 2 (m64_width open_word);
             (ok, c) \<leftarrow> account c n;
             c \<leftarrow> (if ok then do { c \<leftarrow> push_run E c (m64_width open_word); own_word open_word c } else Some c);
             c \<leftarrow> body (c\<lparr>co_stack := \<lparr>fr_head = opening, fr_begin = 0, fr_start_total = co_total c\<rparr> # co_stack c\<rparr>);
             let c = c\<lparr>co_stack := tl (co_stack c)\<rparr> in
             if co_over c = None then do { c \<leftarrow> push_run E c (m64_width end_word); own_word end_word c }
             else Some c })"

section \<open>Borrowed payloads\<close>

definition BORROW_MIN :: nat where
  "BORROW_MIN = 64"

definition push_borrow :: "core \<Rightarrow> bytes \<Rightarrow> core option" where
  "push_borrow c payload =
     (if payload = [] then None
      else Some (c\<lparr>co_borrows := co_borrows c @ [payload],
                   co_events := co_events c @ [EvBorrowed (length (co_borrows c) mod 2 ^ 32)]\<rparr>))"

definition put_len :: "core \<Rightarrow> u32 \<Rightarrow> bytes \<Rightarrow> core option" where
  "put_len c head payload =
     (let head = head_minimal head; len = length payload; prefix = len_minimal len in
      do { n \<leftarrow> u64_add (m64_width head) (m64_width prefix);
           n \<leftarrow> u64_add n len;
           (ok, c) \<leftarrow> account c n;
           if \<not> ok then Some c
           else do { r \<leftarrow> u32_add (m64_width head) (m64_width prefix);
                     c \<leftarrow> push_run core_events c r;
                     c \<leftarrow> own_word head c;
                     c \<leftarrow> own_word prefix c;
                     if length payload \<ge> BORROW_MIN then push_borrow c payload
                     else if payload \<noteq> [] then
                       do { c \<leftarrow> push_run core_events c (length payload); Some (own_bytes payload c) }
                     else Some c } })"

definition put_raw_bytes :: "core \<Rightarrow> bytes \<Rightarrow> core option" where
  "put_raw_bytes c bs =
     (if bs = [] then Some c
      else do { (ok, c) \<leftarrow> account c (length bs);
                if ok then
                  if length bs \<ge> BORROW_MIN then push_borrow c bs
                  else do { c \<leftarrow> push_run core_events c (length bs); Some (own_bytes bs c) }
                else Some c })"

section \<open>Emission\<close>

text \<open>The bytes a prefix is written in are a slot of exactly its width.\<close>

definition prefix_bytes :: "payload_len \<Rightarrow> nat \<Rightarrow> bytes option" where
  "prefix_bytes body width = write32_at (replicate width 0) 0 (len_inner body) width"

fun core_emit :: "bytes \<Rightarrow> bytes list \<Rightarrow> nat \<Rightarrow> event list \<Rightarrow> (bytes \<times> nat) option" where
  "core_emit owned borrows cursor [] = Some ([], cursor)"
| "core_emit owned borrows cursor (EvOwned run # es) =
     do { bs \<leftarrow> (if cursor + run \<le> length owned then Some (extent_of owned cursor (cursor + run)) else None);
          (out, cursor) \<leftarrow> core_emit owned borrows (cursor + run) es;
          Some (bs @ out, cursor) }"
| "core_emit owned borrows cursor (EvBorrowed at # es) =
     do { bs \<leftarrow> (if at < length borrows then Some (borrows ! at) else None);
          (out, cursor) \<leftarrow> core_emit owned borrows cursor es;
          Some (bs @ out, cursor) }"
| "core_emit owned borrows cursor (EvLen body width # es) =
     do { bs \<leftarrow> prefix_bytes body width;
          (out, cursor) \<leftarrow> core_emit owned borrows cursor es;
          Some (bs @ out, cursor) }"

fun copy_emit :: "bytes \<Rightarrow> nat \<Rightarrow> copy_event list \<Rightarrow> (bytes \<times> nat) option" where
  "copy_emit owned cursor [] = Some ([], cursor)"
| "copy_emit owned cursor (CeOwned run # es) =
     do { bs \<leftarrow> (if cursor + run \<le> length owned then Some (extent_of owned cursor (cursor + run)) else None);
          (out, cursor) \<leftarrow> copy_emit owned (cursor + run) es;
          Some (bs @ out, cursor) }"
| "copy_emit owned cursor (CeLen body width # es) =
     do { bs \<leftarrow> prefix_bytes body width;
          (out, cursor) \<leftarrow> copy_emit owned cursor es;
          Some (bs @ out, cursor) }"

text \<open>What both emissions do around the copying: a poisoned core answers, an open frame panics, the
  reservation of \<open>total\<close> bytes must be filled exactly, and the owned store spent.\<close>

definition emit_into :: "('e, 'z) co \<Rightarrow> (bytes \<times> nat) option \<Rightarrow> bytes \<Rightarrow> (over_cap + bytes) option" where
  "emit_into c laid out =
     (case co_over c of
        Some over \<Rightarrow> Some (Inl over)
      | None \<Rightarrow>
          if co_stack c \<noteq> [] then None
          else do { (bs, cursor) \<leftarrow> laid;
                    if length bs = co_total c \<and> cursor = length (co_owned c) then Some (Inr (out @ bs)) else None })"

definition core_emit_into :: "core \<Rightarrow> bytes \<Rightarrow> (over_cap + bytes) option" where
  "core_emit_into c out = emit_into c (core_emit (co_owned c) (co_borrows c) 0 (co_events c)) out"

definition copy_emit_into :: "copy_core \<Rightarrow> bytes \<Rightarrow> (over_cap + bytes) option" where
  "copy_emit_into c out = emit_into c (copy_emit (co_owned c) 0 (co_events c)) out"

text \<open>The sink is called with each fragment in turn; it is a function on a state of the caller. The prefix
  is written into an array of five bytes, of which \<open>width\<close> are handed over.\<close>

definition prefix_slice :: "payload_len \<Rightarrow> nat \<Rightarrow> bytes option" where
  "prefix_slice body width =
     do { prefix \<leftarrow> write32_at (replicate 5 0) 0 (len_inner body) width;
          if width \<le> 5 then Some (take width prefix) else None }"

fun core_sink :: "('s \<Rightarrow> bytes \<Rightarrow> 's) \<Rightarrow> bytes \<Rightarrow> bytes list \<Rightarrow> nat \<Rightarrow> event list \<Rightarrow> 's \<Rightarrow> ('s \<times> nat) option" where
  "core_sink sink owned borrows cursor [] s = Some (s, cursor)"
| "core_sink sink owned borrows cursor (EvOwned run # es) s =
     (if cursor + run \<le> length owned
      then core_sink sink owned borrows (cursor + run) es (sink s (extent_of owned cursor (cursor + run))) else None)"
| "core_sink sink owned borrows cursor (EvBorrowed at # es) s =
     (if at < length borrows then core_sink sink owned borrows cursor es (sink s (borrows ! at)) else None)"
| "core_sink sink owned borrows cursor (EvLen body width # es) s =
     do { bs \<leftarrow> prefix_slice body width; core_sink sink owned borrows cursor es (sink s bs) }"

fun copy_sink :: "('s \<Rightarrow> bytes \<Rightarrow> 's) \<Rightarrow> bytes \<Rightarrow> nat \<Rightarrow> copy_event list \<Rightarrow> 's \<Rightarrow> ('s \<times> nat) option" where
  "copy_sink sink owned cursor [] s = Some (s, cursor)"
| "copy_sink sink owned cursor (CeOwned run # es) s =
     (if cursor + run \<le> length owned
      then copy_sink sink owned (cursor + run) es (sink s (extent_of owned cursor (cursor + run))) else None)"
| "copy_sink sink owned cursor (CeLen body width # es) s =
     do { bs \<leftarrow> prefix_slice body width; copy_sink sink owned cursor es (sink s bs) }"

definition emit_sink :: "('e, 'z) co \<Rightarrow> ('s \<times> nat) option \<Rightarrow> (over_cap + 's) option" where
  "emit_sink c laid =
     (case co_over c of
        Some over \<Rightarrow> Some (Inl over)
      | None \<Rightarrow>
          if co_stack c \<noteq> [] then None
          else do { (s, cursor) \<leftarrow> laid;
                    if cursor = length (co_owned c) then Some (Inr s) else None })"

definition core_emit_sink :: "core \<Rightarrow> ('s \<Rightarrow> bytes \<Rightarrow> 's) \<Rightarrow> 's \<Rightarrow> (over_cap + 's) option" where
  "core_emit_sink c sink s = emit_sink c (core_sink sink (co_owned c) (co_borrows c) 0 (co_events c) s)"

definition copy_emit_sink :: "copy_core \<Rightarrow> ('s \<Rightarrow> bytes \<Rightarrow> 's) \<Rightarrow> 's \<Rightarrow> (over_cap + 's) option" where
  "copy_emit_sink c sink s = emit_sink c (copy_sink sink (co_owned c) 0 (co_events c) s)"

section \<open>The root faces\<close>

definition builder_finish :: "core \<Rightarrow> (over_cap + bytes) option" where
  "builder_finish b = core_emit_into b []"

definition builder_finish_into :: "core \<Rightarrow> bytes \<Rightarrow> (over_cap + bytes) option" where
  "builder_finish_into b out = core_emit_into b out"

definition builder_finish_sink :: "core \<Rightarrow> ('s \<Rightarrow> bytes \<Rightarrow> 's) \<Rightarrow> 's \<Rightarrow> (over_cap + 's) option" where
  "builder_finish_sink b sink s = core_emit_sink b sink s"

definition copy_finish :: "copy_core \<Rightarrow> (over_cap + bytes) option" where
  "copy_finish b = copy_emit_into b []"

definition copy_finish_into :: "copy_core \<Rightarrow> bytes \<Rightarrow> (over_cap + bytes) option" where
  "copy_finish_into b out = copy_emit_into b out"

definition copy_finish_sink :: "copy_core \<Rightarrow> ('s \<Rightarrow> bytes \<Rightarrow> 's) \<Rightarrow> 's \<Rightarrow> (over_cap + 's) option" where
  "copy_finish_sink b sink s = copy_emit_sink b sink s"

definition planned_len :: "('e, 'z) co \<Rightarrow> (over_cap + nat) option" where
  "planned_len b = (if co_poisoned b = None \<and> co_stack b \<noteq> [] then None else Some (co_planned b))"

end
