(* ===== verification/Construct_Exact.thy ===== *)
theory Construct_Exact
  imports Construct
begin

text \<open>
  What the builder's machinery does (\<open>src/src/construct.rs\<close>), for both cores at once. An operation that lays
  out bytes \<open>out\<close> \<open>acts\<close> as follows: on a poisoned core it does nothing; if \<open>out\<close> fits under the cap it appends \<open>out\<close> to
  what the events spell and charges exactly its length; otherwise it poisons the core with a length over the
  cap that the whole would have reached. Records act, sequences act, and containers act when their body does.
\<close>

section \<open>What events spell\<close>

datatype piece = PcRun nat | PcSlice bytes | PcWord payload_len nat | PcBad

fun runs :: "piece list \<Rightarrow> nat" where
  "runs [] = 0"
| "runs (PcRun n # ps) = n + runs ps"
| "runs (p # ps) = runs ps"

fun render :: "piece list \<Rightarrow> bytes \<Rightarrow> bytes" where
  "render [] ow = []"
| "render (PcRun n # ps) ow = take n ow @ render ps (drop n ow)"
| "render (PcSlice bs # ps) ow = bs @ render ps ow"
| "render (PcWord b w # ps) ow = enc w (unat b) @ render ps ow"
| "render (PcBad # ps) ow = render ps ow"

fun piece_ok :: "piece \<Rightarrow> bool" where
  "piece_ok (PcWord b w) \<longleftrightarrow> 0 < w \<and> w \<le> 5 \<and> unat b < 128 ^ w"
| "piece_ok PcBad \<longleftrightarrow> False"
| "piece_ok _ \<longleftrightarrow> True"

lemma runs_append [simp]: "runs (ps @ qs) = runs ps + runs qs"
  by (induction ps rule: runs.induct) auto

lemma render_append: "render (ps @ qs) ow = render ps ow @ render qs (drop (runs ps) ow)"
proof (induction ps arbitrary: ow)
  case (Cons p ps)
  then show ?case by (cases p) (simp_all add: add.commute)
qed simp

lemma render_more: "runs ps \<le> length ow \<Longrightarrow> render ps (ow @ x) = render ps ow"
proof (induction ps arbitrary: ow)
  case (Cons p ps)
  then show ?case by (cases p) simp_all
qed simp

definition spell64 :: "u64 \<Rightarrow> bytes" where
  "spell64 v = enc (encoded_len64 v) (unat v)"

definition spell_head :: "u32 \<Rightarrow> bytes" where
  "spell_head head = spell64 (ucast head)"

definition spell_len :: "nat \<Rightarrow> bytes" where
  "spell_len n = spell64 (of_nat n)"

lemma length_spell64 [simp]: "length (spell64 v) = encoded_len64 v"
  by (simp add: spell64_def)

lemma spell64_nonempty [simp]: "spell64 v \<noteq> []" "spell_head h \<noteq> []" "spell_len n \<noteq> []"
  using encoded_len64_pos [of v] encoded_len64_pos [of "ucast h"] encoded_len64_pos [of "of_nat n"]
  by (auto simp: spell_head_def spell_len_def simp flip: length_0_conv)

lemma spell_widths:
  "m64_width (head_minimal h) = length (spell_head h)" "m64_width (len_minimal n) = length (spell_len n)"
  "m64_width (minimal64_of v) = length (spell64 v)"
  by (simp_all add: head_minimal_def len_minimal_def minimal64_of_def spell_head_def spell_len_def)

lemma spell_bounds: "0 < length (spell64 v)" "length (spell64 v) \<le> 10" "0 < length (spell_head h)" "length (spell_head h) \<le> 10"
  "0 < length (spell_len n)" "length (spell_len n) \<le> 10"
  using encoded_len64_pos encoded_len64_le by (simp_all add: spell_head_def spell_len_def Suc_le_eq)

lemma own_word_spell:
  "own_word (minimal64_of v) c = Some (own_bytes (spell64 v) c)"
  "own_word (head_minimal h) c = Some (own_bytes (spell_head h) c)"
  "own_word (len_minimal n) c = Some (own_bytes (spell_len n) c)"
  by (simp_all add: own_word_def own_bytes_def head_minimal_def len_minimal_def spell_head_def spell_len_def spell64_def
      push64_enc [unfolded push64_def])

lemma own_bytes_twice: "own_bytes b (own_bytes a c) = own_bytes (a @ b) c"
  by (simp add: own_bytes_def)

lemma own_words_spell: "own_words word items c = Some (own_bytes (concat (map (\<lambda>i. spell64 (word i)) items)) c)"
  by (induction items arbitrary: c) (simp_all add: push64_enc spell64_def own_bytes_def)

lemma fold_own_bytes: "fold (\<lambda>i. own_bytes (le i)) items c = own_bytes (concat (map le items)) c"
  by (induction items arbitrary: c) (simp_all add: own_bytes_twice own_bytes_def)

section \<open>Records charge their length and append their bytes\<close>

definition charged :: "'e event_ops \<Rightarrow> bytes \<Rightarrow> ('e, 'z) co_body" where
  "charged E bs c =
     do { (ok, c) \<leftarrow> account c (length bs);
          if ok then do { c \<leftarrow> push_run E c (length bs); Some (own_bytes bs c) } else Some c }"

text \<open>No slice of the language is longer than \<open>isize::MAX\<close> bytes.\<close>

definition SLICE_MAX :: nat where
  "SLICE_MAX = 2 ^ 63 - 1"

lemma CAP_eq: "CAP = 2147483647"
  by (simp add: CAP_def PayloadLen_MAX_def)

lemma account_fits: "account c n = Some (True, c') \<Longrightarrow> n \<le> CAP"
  by (auto simp: account_def u64_add_def split: if_splits bind_splits)

lemma u_adds:
  "a \<le> 10 \<Longrightarrow> b \<le> 10 \<Longrightarrow> u32_add a b = Some (a + b)"
  "a \<le> 10 \<Longrightarrow> b \<le> 10 \<Longrightarrow> u64_add a b = Some (a + b)"
  "a \<le> 20 \<Longrightarrow> b \<le> CAP \<Longrightarrow> u32_add a b = Some (a + b)"
  "a \<le> 20 \<Longrightarrow> b < 2 ^ 64 - 20 \<Longrightarrow> u64_add a b = Some (a + b)"
  by (simp_all add: u32_add_def u64_add_def CAP_eq)

lemma put_varint_charged: "put_varint E c head v = charged E (spell_head head @ spell64 v) c"
  using spell_bounds
  by (simp add: put_varint_def charged_def Let_def spell_widths u_adds own_word_spell own_bytes_twice if_distrib
      split: bind_split cong: if_cong)

lemma put_fixed_charged: "length le \<le> 10 \<Longrightarrow> put_fixed E c head le = charged E (spell_head head @ le) c"
  using spell_bounds
  by (simp add: put_fixed_def charged_def Let_def spell_widths u_adds own_word_spell own_bytes_twice
      split: bind_split cong: if_cong)

text \<open>Head, length and body: what a length-delimited record is charged for and appends.\<close>

lemma framed_charged:
  assumes "length body \<le> SLICE_MAX"
    and "\<And>c. fill c = Some (own_bytes body c)"
  shows "do { n \<leftarrow> u64_add (m64_width (head_minimal head)) (m64_width (len_minimal (length body)));
              n \<leftarrow> u64_add n (length body);
              (ok, c) \<leftarrow> account c n;
              if \<not> ok then Some c
              else do { r \<leftarrow> u32_add (m64_width (head_minimal head)) (m64_width (len_minimal (length body)));
                        l \<leftarrow> run32 (length body);
                        r \<leftarrow> u32_add r l;
                        c \<leftarrow> push_run E c r;
                        c \<leftarrow> own_word (head_minimal head) c;
                        c \<leftarrow> own_word (len_minimal (length body)) c;
                        fill c } } =
    charged E (spell_head head @ spell_len (length body) @ body) c"
proof -
  let ?h = "length (spell_head head)" and ?p = "length (spell_len (length body))"
  have w: "?h \<le> 10" "?p \<le> 10" by (rule spell_bounds)+
  then have add: "u64_add (?h + ?p) (length body) = Some (?h + ?p + length body)"
    using assms(1) by (intro u_adds) (simp_all add: SLICE_MAX_def)
  have fit: "length body \<le> CAP" if "account c (?h + ?p + length body) = Some (True, c')" for c'
    using account_fits [OF that] by simp
  show ?thesis
  proof (cases "account c (?h + ?p + length body)")
    case None
    with w add show ?thesis by (simp add: charged_def spell_widths u_adds add.assoc)
  next
    case (Some r)
    obtain ok c' where r: "r = (ok, c')" by (cases r)
    with Some fit [of c'] w add assms(2) show ?thesis
      by (cases ok) (simp_all add: charged_def spell_widths u_adds add.assoc run32_def own_word_spell own_bytes_twice)
  qed
qed

lemma put_len_copy_charged:
  "length payload \<le> SLICE_MAX \<Longrightarrow>
   put_len_copy E c head payload = charged E (spell_head head @ spell_len (length payload) @ payload) c"
  unfolding put_len_copy_def Let_def by (rule framed_charged) simp_all

lemma put_raw_varint_charged: "put_raw_varint E c v = charged E (spell64 v) c"
  by (simp add: put_raw_varint_def charged_def spell_widths own_word_spell cong: if_cong split: bind_split)

lemma put_raw_fixed_charged: "put_raw_fixed E c le = charged E le c"
  by (simp add: put_raw_fixed_def charged_def cong: if_cong)

lemma put_raw_bytes_copy_charged:
  "put_raw_bytes_copy E c bs = (if bs = [] then Some c else charged E bs c)"
proof (cases "account c (length bs)")
  case (Some r)
  obtain ok c' where "r = (ok, c')" by (cases r)
  with Some account_fits [of c "length bs" c'] show ?thesis
    by (cases ok) (simp_all add: put_raw_bytes_copy_def charged_def run32_def)
qed (simp add: put_raw_bytes_copy_def charged_def)

definition spell_varints :: "('t \<Rightarrow> u64) \<Rightarrow> 't list \<Rightarrow> bytes" where
  "spell_varints word items = concat (map (\<lambda>i. spell64 (word i)) items)"

lemma length_spell_varints: "length items \<le> length (spell_varints word items)"
proof (induction items)
  case (Cons i items)
  with spell_bounds(1) [of "word i"] show ?case by (simp add: spell_varints_def)
qed (simp add: spell_varints_def)

lemma length_spell_varints_le: "length (spell_varints word items) \<le> 10 * length items"
proof (induction items)
  case (Cons i items)
  with spell_bounds(2) [of "word i"] show ?case by (simp add: spell_varints_def)
qed (simp add: spell_varints_def)

lemma sum_widths_eq:
  "n + 10 * length items < 2 ^ 64 \<Longrightarrow> sum_widths word n items = Some (n + length (spell_varints word items))"
proof (induction items arbitrary: n)
  case (Cons i items)
  have "u64_add n (encoded_len64 (word i)) = Some (n + encoded_len64 (word i))"
    using Cons.prems encoded_len64_le [of "word i"] by (simp add: u64_add_def)
  with Cons encoded_len64_le [of "word i"] show ?case by (simp add: spell_varints_def)
qed (simp add: spell_varints_def)

lemma put_packed_varints_charged:
  assumes "length items \<le> CAP"
  shows "put_packed_varints E c head items word =
    charged E (spell_head head @ spell_len (length (spell_varints word items)) @ spell_varints word items) c"
proof -
  let ?body = "spell_varints word items"
  have l: "length ?body \<le> SLICE_MAX"
    using length_spell_varints_le [of word items] assms by (simp add: CAP_eq SLICE_MAX_def)
  have "sum_widths word 0 items = Some (length ?body)"
    using sum_widths_eq [of 0 items word] assms by (simp add: CAP_eq)
  with assms show ?thesis
    by (simp add: put_packed_varints_def Let_def not_less
        framed_charged [OF l own_words_spell [of word items, folded spell_varints_def]])
qed

lemma length_concat_const: "(\<And>i. length (f i) = k) \<Longrightarrow> length (concat (map f items)) = k * length items"
  by (induction items) simp_all

lemma put_packed_fixed_charged:
  assumes "\<And>i. length (le i) = k" "k * length items \<le> SLICE_MAX"
  shows "put_packed_fixed E c head k items le =
    charged E (spell_head head @ spell_len (length (concat (map le items))) @ concat (map le items)) c"
proof -
  let ?body = "concat (map le items)"
  have l: "length ?body = k * length items" by (rule length_concat_const) (rule assms(1))
  have "u64_mul k (length items) = Some (length ?body)"
    using assms(2) by (simp add: u64_mul_def l SLICE_MAX_def)
  moreover have "length ?body \<le> SLICE_MAX" using assms(2) l by simp
  ultimately show ?thesis
    by (simp add: put_packed_fixed_def Let_def
        framed_charged [where fill = "\<lambda>c. Some (fold (\<lambda>i. own_bytes (le i)) items c)", OF _ arg_cong [OF fold_own_bytes]])
qed

section \<open>The machinery, over the events of either core\<close>

locale event_machine =
  fixes E :: "'e event_ops"
    and face :: "('e, 'z) co \<Rightarrow> 'e \<Rightarrow> piece"
    and slices :: "('e, 'z) co \<Rightarrow> nat"
  assumes face_owned: "face c (mk_owned E n) = PcRun n"
    and face_len: "face c (mk_len E b w) = PcWord b w"
    and run_of: "run_of E e = Some n \<longleftrightarrow> face c e = PcRun n"
    and face_base: "face (c\<lparr>co_owned := x\<rparr>) = face c" "face (c\<lparr>co_events := es\<rparr>) = face c"
      "face (c\<lparr>co_stack := st\<rparr>) = face c" "face (c\<lparr>co_total := n\<rparr>) = face c" "face (c\<lparr>co_over := ov\<rparr>) = face c"
    and slices_base: "slices (c\<lparr>co_owned := x\<rparr>) = slices c" "slices (c\<lparr>co_events := es\<rparr>) = slices c"
      "slices (c\<lparr>co_stack := st\<rparr>) = slices c" "slices (c\<lparr>co_total := n\<rparr>) = slices c" "slices (c\<lparr>co_over := ov\<rparr>) = slices c"
begin

definition pieces :: "('e, 'z) co \<Rightarrow> piece list" where
  "pieces c = map (face c) (co_events c)"

definition laid :: "('e, 'z) co \<Rightarrow> bytes" where
  "laid c = render (pieces c) (co_owned c)"

text \<open>Every owned byte lies in a run; the store, the events and the slices are bounded by the account.\<close>

definition sound :: "('e, 'z) co \<Rightarrow> bool" where
  "sound c \<longleftrightarrow> runs (pieces c) = length (co_owned c) \<and> list_all piece_ok (pieces c) \<and> co_total c \<le> CAP \<and>
     length (co_owned c) \<le> co_total c \<and> length (co_events c) \<le> 2 * co_total c \<and> slices c \<le> co_total c"

text \<open>The events that later operations leave alone: all but a run at the end, which may grow.\<close>

definition stem :: "'e list \<Rightarrow> 'e list" where
  "stem es = (if es \<noteq> [] \<and> run_of E (last es) \<noteq> None then butlast es else es)"

definition grows :: "('e, 'z) co \<Rightarrow> ('e, 'z) co \<Rightarrow> bool" where
  "grows c c' \<longleftrightarrow> (\<exists>R. co_events c' = stem (co_events c) @ R) \<and> length (co_events c) \<le> length (co_events c') \<and>
     (\<exists>x. co_owned c' = co_owned c @ x) \<and> (\<forall>e \<in> set (co_events c). face c' e = face c e)"

definition lays :: "('e, 'z) co \<Rightarrow> ('e, 'z) co \<Rightarrow> bytes \<Rightarrow> bool" where
  "lays c c' out \<longleftrightarrow> grows c c' \<and> laid c' = laid c @ out \<and>
     length (co_owned c') \<le> length (co_owned c) + length out \<and>
     length (co_events c') \<le> length (co_events c) + 2 * length out \<and> slices c' \<le> slices c + length out"

definition acts :: "('e, 'z) co_body \<Rightarrow> bytes \<Rightarrow> bool" where
  "acts f out \<longleftrightarrow>
     (\<forall>c. co_over c \<noteq> None \<longrightarrow> f c = Some c) \<and>
     (\<forall>c. co_over c = None \<longrightarrow> sound c \<longrightarrow>
       (\<exists>c'. f c = Some c' \<and> co_stack c' = co_stack c \<and>
         (if co_total c + length out \<le> CAP
          then co_over c' = None \<and> sound c' \<and> co_total c' = co_total c + length out \<and> lays c c' out
          else (\<exists>o'. co_over c' = Some o' \<and> CAP < oc_len o' \<and> oc_len o' \<le> co_total c + length out))))"

lemma grows_refl: "grows c c"
proof -
  have "\<exists>R. co_events c = stem (co_events c) @ R"
    by (cases "co_events c" rule: rev_cases) (simp_all add: stem_def)
  then show ?thesis by (simp add: grows_def)
qed

lemma stem_append: "R \<noteq> [] \<Longrightarrow> stem (es @ R) = es @ stem R"
  by (simp add: stem_def butlast_append)

lemma stem_push: "\<exists>R. es @ [e] = stem es @ R"
  by (cases es rule: rev_cases) (simp_all add: stem_def)

lemma stem_growth:
  assumes "co_events c' = stem (co_events c) @ R" "length (co_events c) \<le> length (co_events c')"
  shows "\<exists>R'. stem (co_events c') = stem (co_events c) @ R'"
proof (cases "R = []")
  case True
  have "stem (co_events c) = co_events c"
  proof (rule ccontr)
    assume "stem (co_events c) \<noteq> co_events c"
    then have "length (stem (co_events c)) < length (co_events c)" by (auto simp: stem_def split: if_splits)
    with assms True show False by simp
  qed
  with assms(1) True show ?thesis by simp
next
  case False
  with assms(1) show ?thesis by (simp add: stem_append)
qed

lemma set_stem: "set (stem es) \<subseteq> set es"
  by (auto simp: stem_def dest: in_set_butlastD)

lemma grows_trans:
  assumes "grows c c1" "grows c1 c2"
  shows "grows c c2"
proof -
  from assms(1) obtain R x where e: "co_events c1 = stem (co_events c) @ R" "length (co_events c) \<le> length (co_events c1)"
    and o: "co_owned c1 = co_owned c @ x" and f: "\<forall>e \<in> set (co_events c). face c1 e = face c e"
    by (auto simp: grows_def)
  from assms(2) obtain R2 x2 where e2: "co_events c2 = stem (co_events c1) @ R2" "length (co_events c1) \<le> length (co_events c2)"
    and o2: "co_owned c2 = co_owned c1 @ x2" and f2: "\<forall>e \<in> set (co_events c1). face c2 e = face c1 e"
    by (auto simp: grows_def)
  from stem_growth [OF e] obtain R' where "stem (co_events c1) = stem (co_events c) @ R'" ..
  with e2(1) have "\<exists>R. co_events c2 = stem (co_events c) @ R" by auto
  moreover have "face c2 e = face c e" if "e \<in> set (co_events c)" for e
  proof (cases "run_of E e")
    case None
    with that have "e \<in> set (stem (co_events c))"
      by (cases "co_events c" rule: rev_cases) (auto simp: stem_def)
    with e(1) f f2 that show ?thesis by simp
  next
    case (Some n)
    then show ?thesis using run_of by metis
  qed
  ultimately show ?thesis using e e2 o o2 by (auto simp: grows_def)
qed

lemma own_bytes_fields [simp]:
  "co_events (own_bytes bs c) = co_events c" "co_stack (own_bytes bs c) = co_stack c" "co_total (own_bytes bs c) = co_total c"
  "co_over (own_bytes bs c) = co_over c" "co_owned (own_bytes bs c) = co_owned c @ bs"
  "face (own_bytes bs c) = face c" "slices (own_bytes bs c) = slices c"
  by (simp_all add: own_bytes_def face_base slices_base)

text \<open>A run and its bytes, pushed.\<close>

definition tight :: "('e, 'z) co \<Rightarrow> bool" where
  "tight c \<longleftrightarrow> runs (pieces c) = length (co_owned c) \<and> list_all piece_ok (pieces c)"

lemma push_run_lays:
  assumes c: "tight c" and n: "length (co_owned c) + length bs \<le> CAP"
  obtains c' where "push_run E c (length bs) = Some c'" "tight (own_bytes bs c')" "grows c (own_bytes bs c')"
    "laid (own_bytes bs c') = laid c @ bs" "co_owned c' = co_owned c" "length (co_events c') \<le> Suc (length (co_events c))"
    "slices c' = slices c" "co_stack c' = co_stack c" "co_total c' = co_total c" "co_over c' = co_over c"
proof (cases "co_events c = [] \<or> run_of E (last (co_events c)) = None")
  case True
  let ?c = "c\<lparr>co_events := co_events c @ [mk_owned E (length bs)]\<rparr>"
  have p: "push_run E c (length bs) = Some ?c" using True by (auto simp: push_run_def)
  have stem: "stem (co_events c) = co_events c" using True by (auto simp: stem_def)
  show ?thesis
    by (rule that [OF p]) (use c in \<open>simp_all add: tight_def pieces_def laid_def grows_def stem face_base face_owned
        render_append render_more slices_base\<close>)
next
  case False
  then obtain es e k where es: "co_events c = es @ [e]" "run_of E e = Some k"
    by (cases "co_events c" rule: rev_cases) auto
  have f: "face c e = PcRun k" using es(2) run_of by blast
  let ?c = "c\<lparr>co_events := es @ [mk_owned E (k + length bs)]\<rparr>"
  have r: "runs (map (face c) es) + k = length (co_owned c)" using c f by (simp add: tight_def pieces_def es(1))
  then have "u32_add k (length bs) = Some (k + length bs)" using n by (simp add: u32_add_def CAP_eq)
  then have p: "push_run E c (length bs) = Some ?c" using es by (simp add: push_run_def)
  have stem: "stem (es @ [e]) = es" using es by (simp add: stem_def)
  have l: "laid (own_bytes bs ?c) = laid c @ bs"
    using r by (simp add: laid_def pieces_def face_base face_owned es(1) render_append render_more f)
  show ?thesis
    by (rule that [OF p _ _ l]) (use c r in \<open>simp_all add: tight_def pieces_def grows_def stem face_base face_owned es(1)
        slices_base f\<close>)
qed

lemma sound_tight: "sound c \<Longrightarrow> tight c"
  by (simp add: sound_def tight_def)

lemma tight_base: "tight (c\<lparr>co_total := n\<rparr>) = tight c" "tight (c\<lparr>co_stack := st\<rparr>) = tight c" "tight (c\<lparr>co_over := ov\<rparr>) = tight c"
  by (simp_all add: tight_def pieces_def face_base)

lemma grows_base:
  "grows (c\<lparr>co_total := n\<rparr>) c' = grows c c'" "grows (c\<lparr>co_stack := st\<rparr>) c' = grows c c'"
  "grows c (c'\<lparr>co_total := n\<rparr>) = grows c c'" "grows c (c'\<lparr>co_stack := st\<rparr>) = grows c c'" "grows c (c'\<lparr>co_over := ov\<rparr>) = grows c c'"
  by (simp_all add: grows_def face_base)

lemma laid_base:
  "laid (c\<lparr>co_total := n\<rparr>) = laid c" "laid (c\<lparr>co_stack := st\<rparr>) = laid c" "laid (c\<lparr>co_over := ov\<rparr>) = laid c"
  by (simp_all add: laid_def pieces_def face_base)

text \<open>A charge, at a sound core that is not poisoned.\<close>

lemma account_sound:
  assumes "co_over c = None" "co_total c \<le> CAP" "n < 2 ^ 64 - 2 ^ 32"
  shows "account c n = Some (if co_total c + n \<le> CAP then (True, c\<lparr>co_total := co_total c + n\<rparr>)
    else (False, poison_over_cap c (co_total c + n)))"
  using assms by (auto simp: account_def u64_add_def CAP_eq)

lemma poison_fields [simp]:
  "co_over (poison_over_cap c n) = Some \<lparr>oc_field = (case co_stack c of [] \<Rightarrow> None | fr # _ \<Rightarrow> FieldNumber_from_word (fr_head fr)), oc_len = n\<rparr>"
  "co_stack (poison_over_cap c n) = co_stack c"
  by (simp_all add: poison_over_cap_def)

section \<open>What acts\<close>

lemma acts_none: "acts Some []"
  by (auto simp: acts_def sound_def lays_def grows_refl)

lemma lays_trans: "lays c c1 a \<Longrightarrow> lays c1 c2 b \<Longrightarrow> lays c c2 (a @ b)"
  using grows_trans by (fastforce simp: lays_def)

lemma acts_poisoned: "acts f out \<Longrightarrow> co_over c \<noteq> None \<Longrightarrow> f c = Some c"
  by (simp add: acts_def)

lemma acts_fits:
  assumes "acts f out" "co_over c = None" "sound c" "co_total c + length out \<le> CAP"
  obtains c' where "f c = Some c'" "co_stack c' = co_stack c" "co_over c' = None" "sound c'"
    "co_total c' = co_total c + length out" "lays c c' out"
proof -
  from assms(1) [unfolded acts_def, THEN conjunct2, rule_format, OF assms(2,3)] assms(4) obtain c'
    where "f c = Some c'" "co_stack c' = co_stack c" "co_over c' = None" "sound c'"
      "co_total c' = co_total c + length out" "lays c c' out" by auto
  then show ?thesis by (rule that)
qed

lemma acts_over:
  assumes "acts f out" "co_over c = None" "sound c" "CAP < co_total c + length out"
  obtains c' o' where "f c = Some c'" "co_stack c' = co_stack c" "co_over c' = Some o'" "CAP < oc_len o'"
    "oc_len o' \<le> co_total c + length out"
proof -
  from assms(1) [unfolded acts_def, THEN conjunct2, rule_format, OF assms(2,3)] assms(4) obtain c' o'
    where "f c = Some c'" "co_stack c' = co_stack c" "co_over c' = Some o'" "CAP < oc_len o'"
      "oc_len o' \<le> co_total c + length out" by auto
  then show ?thesis by (rule that)
qed

lemma acts_seq:
  assumes f: "acts f a" and g: "acts g b"
  shows "acts (\<lambda>c. do { c \<leftarrow> f c; g c }) (a @ b)"
proof -
  have "\<exists>c'. do { c \<leftarrow> f c; g c } = Some c' \<and> co_stack c' = co_stack c \<and>
     (if co_total c + length (a @ b) \<le> CAP
      then co_over c' = None \<and> sound c' \<and> co_total c' = co_total c + length (a @ b) \<and> lays c c' (a @ b)
      else (\<exists>o'. co_over c' = Some o' \<and> CAP < oc_len o' \<and> oc_len o' \<le> co_total c + length (a @ b)))"
    if c: "co_over c = None" "sound c" for c
  proof (cases "co_total c + length a \<le> CAP")
    case True
    obtain c1 where c1: "f c = Some c1" "co_stack c1 = co_stack c" "co_over c1 = None" "sound c1"
      "co_total c1 = co_total c + length a" "lays c c1 a" by (rule acts_fits [OF f c True])
    show ?thesis
    proof (cases "co_total c1 + length b \<le> CAP")
      case True
      obtain c2 where "g c1 = Some c2" "co_stack c2 = co_stack c1" "co_over c2 = None" "sound c2"
        "co_total c2 = co_total c1 + length b" "lays c1 c2 b" by (rule acts_fits [OF g c1(3,4) True])
      with c1 True lays_trans [OF c1(6)] show ?thesis by simp
    next
      case False
      then have "CAP < co_total c1 + length b" by simp
      from acts_over [OF g c1(3,4) this] obtain c2 o2 where "g c1 = Some c2" "co_stack c2 = co_stack c1"
        "co_over c2 = Some o2" "CAP < oc_len o2" "oc_len o2 \<le> co_total c1 + length b" .
      with c1 False show ?thesis by auto
    qed
  next
    case False
    then have "CAP < co_total c + length a" by simp
    from acts_over [OF f c this] obtain c1 o1 where c1: "f c = Some c1" "co_stack c1 = co_stack c"
      "co_over c1 = Some o1" "CAP < oc_len o1" "oc_len o1 \<le> co_total c + length a" .
    with acts_poisoned [OF g, of c1] False show ?thesis by auto
  qed
  then show ?thesis unfolding acts_def using f g by (auto simp: acts_def)
qed

lemma actsI:
  assumes "\<And>c. co_over c \<noteq> None \<Longrightarrow> f c = Some c"
    and "\<And>c. co_over c = None \<Longrightarrow> sound c \<Longrightarrow> co_total c + length out \<le> CAP \<Longrightarrow>
      \<exists>c'. f c = Some c' \<and> co_stack c' = co_stack c \<and> co_over c' = None \<and> sound c' \<and>
        co_total c' = co_total c + length out \<and> lays c c' out"
    and "\<And>c. co_over c = None \<Longrightarrow> sound c \<Longrightarrow> CAP < co_total c + length out \<Longrightarrow>
      \<exists>c' o'. f c = Some c' \<and> co_stack c' = co_stack c \<and> co_over c' = Some o' \<and> CAP < oc_len o' \<and>
        oc_len o' \<le> co_total c + length out"
  shows "acts f out"
proof -
  have "\<exists>c'. f c = Some c' \<and> co_stack c' = co_stack c \<and>
      (if co_total c + length out \<le> CAP
       then co_over c' = None \<and> sound c' \<and> co_total c' = co_total c + length out \<and> lays c c' out
       else (\<exists>o'. co_over c' = Some o' \<and> CAP < oc_len o' \<and> oc_len o' \<le> co_total c + length out))"
    if c: "co_over c = None" "sound c" for c
  proof (cases "co_total c + length out \<le> CAP")
    case True
    with assms(2) [OF c] show ?thesis by auto
  next
    case False
    then have "CAP < co_total c + length out" by simp
    from assms(3) [OF c this] False show ?thesis by auto
  qed
  with assms(1) show ?thesis by (simp add: acts_def)
qed

text \<open>A word that is already charged, pushed; and a charge with the word it starts with.\<close>

lemma push_word:
  assumes c: "sound c" and ne: "bs \<noteq> []"
    and room: "length (co_owned c) + length bs \<le> co_total c" "length (co_events c) + 2 * length bs \<le> 2 * co_total c"
  obtains c0 where "push_run E c (length bs) = Some c0" "sound (own_bytes bs c0)" "lays c (own_bytes bs c0) bs"
    "length (co_events c0) \<le> Suc (length (co_events c))" "slices c0 = slices c" "co_stack c0 = co_stack c"
    "co_total c0 = co_total c" "co_over c0 = co_over c"
proof -
  have "length (co_owned c) + length bs \<le> CAP" using c room by (simp add: sound_def)
  from push_run_lays [OF sound_tight [OF c] this] obtain c0 where c0: "push_run E c (length bs) = Some c0"
    "tight (own_bytes bs c0)" "grows c (own_bytes bs c0)" "laid (own_bytes bs c0) = laid c @ bs" "co_owned c0 = co_owned c"
    "length (co_events c0) \<le> Suc (length (co_events c))" "slices c0 = slices c" "co_stack c0 = co_stack c"
    "co_total c0 = co_total c" "co_over c0 = co_over c" .
  have one: "Suc 0 \<le> length bs" using ne by (simp add: Suc_le_eq)
  have "length (co_events c0) \<le> length (co_events c) + 2 * length bs" "length (co_events c0) \<le> 2 * co_total c"
    using c0(6) one room by simp_all
  then have "sound (own_bytes bs c0)" "lays c (own_bytes bs c0) bs"
    using c0 c room by (simp_all add: sound_def tight_def pieces_def slices_base lays_def)
  with c0 show ?thesis by (intro that [OF c0(1)]) simp_all
qed

lemma charge_word:
  assumes c: "co_over c = None" "sound c" and bs: "bs \<noteq> []" "length bs \<le> n" and fits: "co_total c + n \<le> CAP"
  obtains ct c0 where "account c n = Some (True, ct)" "push_run E ct (length bs) = Some c0"
    "sound (own_bytes bs c0)" "lays c (own_bytes bs c0) bs"
    "length (co_events c0) \<le> Suc (length (co_events c))" "slices c0 = slices c" "co_stack c0 = co_stack c"
    "co_total c0 = co_total c + n" "co_over c0 = None"
proof -
  let ?c = "c\<lparr>co_total := co_total c + n\<rparr>"
  have a: "account c n = Some (True, ?c)"
    using account_sound [OF c(1), of n] c(2) fits by (simp add: sound_def CAP_eq)
  have s: "sound ?c" "length (co_owned ?c) + length bs \<le> co_total ?c" "length (co_events ?c) + 2 * length bs \<le> 2 * co_total ?c"
    using c(2) bs(2) fits by (simp_all add: sound_def pieces_def face_base slices_base)
  from push_word [OF s(1) bs(1) s(2,3)] obtain c0 where c0: "push_run E ?c (length bs) = Some c0"
    "sound (own_bytes bs c0)" "lays ?c (own_bytes bs c0) bs"
    "length (co_events c0) \<le> Suc (length (co_events ?c))" "slices c0 = slices ?c" "co_stack c0 = co_stack ?c"
    "co_total c0 = co_total ?c" "co_over c0 = co_over ?c" .
  then have "lays c (own_bytes bs c0) bs" by (simp add: lays_def grows_base laid_base slices_base)
  then show ?thesis by (intro that [OF a c0(1,2)]) (use c0 c in \<open>simp_all add: slices_base\<close>)
qed

lemma account_over:
  assumes "co_over c = None" "sound c" "n < 2 ^ 64 - 2 ^ 32" "CAP < co_total c + n"
  shows "account c n = Some (False, poison_over_cap c (co_total c + n))"
  using account_sound [OF assms(1) _ assms(3)] assms(2,4) by (simp add: sound_def)

lemma acts_charged:
  assumes "bs \<noteq> []" "length bs < 2 ^ 64 - 2 ^ 32"
  shows "acts (charged E bs) bs"
proof (rule actsI)
  fix c assume c: "co_over c = None" "sound c" "co_total c + length bs \<le> CAP"
  from charge_word [OF c(1,2) assms(1) order.refl c(3)] obtain ct c0 where "account c (length bs) = Some (True, ct)"
    "push_run E ct (length bs) = Some c0" "sound (own_bytes bs c0)" "lays c (own_bytes bs c0) bs"
    "length (co_events c0) \<le> Suc (length (co_events c))" "slices c0 = slices c" "co_stack c0 = co_stack c"
    "co_total c0 = co_total c + length bs" "co_over c0 = None" .
  then show "\<exists>c'. charged E bs c = Some c' \<and> co_stack c' = co_stack c \<and> co_over c' = None \<and> sound c' \<and>
        co_total c' = co_total c + length bs \<and> lays c c' bs" by (simp add: charged_def)
qed (use assms account_over in \<open>auto simp: charged_def account_def\<close>)

text \<open>A client that only charges, for a length already over the cap.\<close>

lemma acts_excess:
  assumes "CAP < n" "n \<le> length out" "n \<le> SLICE_MAX"
  shows "acts (\<lambda>c. do { (_, c) \<leftarrow> account c n; Some c }) out"
proof -
  have "\<exists>c'. do { (_, c) \<leftarrow> account c n; Some c } = Some c' \<and> co_stack c' = co_stack c \<and>
     (\<exists>o'. co_over c' = Some o' \<and> CAP < oc_len o' \<and> oc_len o' \<le> co_total c + length out)"
    if c: "co_over c = None" "sound c" for c
    using account_sound [OF c(1), of n] c(2) assms by (simp add: sound_def SLICE_MAX_def)
  then show ?thesis using assms by (fastforce simp: acts_def account_def)
qed

lemma acts_packed_varints:
  assumes "length items \<le> SLICE_MAX"
  shows "acts (\<lambda>c. put_packed_varints E c head items word)
    (spell_head head @ spell_len (length (spell_varints word items)) @ spell_varints word items)"
proof (cases "length items \<le> CAP")
  case True
  let ?out = "spell_head head @ spell_len (length (spell_varints word items)) @ spell_varints word items"
  have "length ?out < 2 ^ 64 - 2 ^ 32"
    using spell_bounds(4) [of head] spell_bounds(6) [of "length (spell_varints word items)"]
      length_spell_varints_le [of word items] True by (simp add: CAP_eq)
  then have a: "acts (charged E ?out) ?out" by (intro acts_charged) simp_all
  have f: "(\<lambda>c. put_packed_varints E c head items word) = charged E ?out"
    by (rule ext) (rule put_packed_varints_charged [OF True])
  show ?thesis unfolding f by (rule a)
next
  case False
  then have f: "(\<lambda>c. put_packed_varints E c head items word) = (\<lambda>c. do { (_, c) \<leftarrow> account c (length items); Some c })"
    by (simp add: put_packed_varints_def Let_def)
  show ?thesis unfolding f
    by (rule acts_excess) (use False assms length_spell_varints [of items word] in \<open>simp_all add: trans_le_add2\<close>)
qed

section \<open>Containers\<close>

lemma stack_base:
  "sound (c\<lparr>co_stack := st\<rparr>) = sound c" "lays (c\<lparr>co_stack := st\<rparr>) c' = lays c c'" "lays c (c'\<lparr>co_stack := st\<rparr>) = lays c c'"
  by (simp_all add: fun_eq_iff sound_def lays_def pieces_def grows_base laid_base face_base slices_base)

lemma acts_group_frame:
  assumes body: "acts body out" and w: "length (spell_head ending) = length (spell_head opening)"
  shows "acts (\<lambda>c. group_frame E c opening ending body) (spell_head opening @ out @ spell_head ending)"
    (is "acts ?f ?out")
proof -
  let ?h = "spell_head opening" and ?e = "spell_head ending"
  have w10: "length ?h \<le> 10" "Suc 0 \<le> length ?h" using spell_bounds(3,4) [of "opening"] by (simp_all add: Suc_le_eq)
  have two: "u64_mul 2 (length ?h) = Some (2 * length ?h)" using w10 by (simp add: u64_mul_def)
  have len: "length ?out = 2 * length ?h + length out" using w by simp
  have h: "?h \<noteq> []" "length ?h \<le> 2 * length ?h" by simp_all
  let ?b = "\<lambda>c. c\<lparr>co_stack := \<lparr>fr_head = opening, fr_begin = 0, fr_start_total = co_total c\<rparr> # co_stack c\<rparr>"
  show ?thesis
  proof (rule actsI)
    fix c :: "('e, 'z) co" assume "co_over c \<noteq> None"
    then show "?f c = Some c"
      using two w by (auto simp: group_frame_def Let_def spell_widths account_def acts_poisoned [OF body])
  next
    fix c assume c: "co_over c = None" "sound c" and fits: "co_total c + length ?out \<le> CAP"
    then have "co_total c + 2 * length ?h \<le> CAP" using len by simp
    from charge_word [OF c h this] obtain ct c0 where c0: "account c (2 * length ?h) = Some (True, ct)"
      "push_run E ct (length ?h) = Some c0" "sound (own_bytes ?h c0)" "lays c (own_bytes ?h c0) ?h"
      "length (co_events c0) \<le> Suc (length (co_events c))" "slices c0 = slices c" "co_stack c0 = co_stack c"
      "co_total c0 = co_total c + 2 * length ?h" "co_over c0 = None" .
    let ?c1 = "own_bytes ?h c0"
    obtain c2 where c2: "body (?b ?c1) = Some c2" "co_stack c2 = co_stack (?b ?c1)" "co_over c2 = None" "sound c2"
      "co_total c2 = co_total (?b ?c1) + length out" "lays (?b ?c1) c2 out"
      by (rule acts_fits [OF body, of "?b ?c1"]) (use c0 fits len in \<open>simp_all add: stack_base\<close>)
    let ?c2 = "c2\<lparr>co_stack := tl (co_stack c2)\<rparr>"
    have l2: "lays c ?c2 (?h @ out)"
      using lays_trans [OF c0(4)] c2(6) by (simp add: stack_base)
    have s2: "sound ?c2" "length (co_owned ?c2) + length ?e \<le> co_total ?c2" "length (co_events ?c2) + 2 * length ?e \<le> 2 * co_total ?c2"
      using l2 c2(4,5) c0(8) c(2) w by (simp_all add: lays_def sound_def pieces_def face_base slices_base)
    from push_word [OF s2(1) spell64_nonempty(2) s2(2,3)] obtain c4 where c4: "push_run E ?c2 (length ?e) = Some c4"
      "sound (own_bytes ?e c4)" "lays ?c2 (own_bytes ?e c4) ?e" "length (co_events c4) \<le> Suc (length (co_events ?c2))"
      "slices c4 = slices ?c2" "co_stack c4 = co_stack ?c2" "co_total c4 = co_total ?c2" "co_over c4 = co_over ?c2" .
    have "?f c = Some (own_bytes ?e c4)"
      using c0(1,2,7,8) c2(1,3) c4(1) two w by (simp add: group_frame_def Let_def spell_widths own_word_spell)
    with c0 c2 c4 lays_trans [OF l2 c4(3)] len show "\<exists>c'. ?f c = Some c' \<and> co_stack c' = co_stack c \<and>
        co_over c' = None \<and> sound c' \<and> co_total c' = co_total c + length ?out \<and> lays c c' ?out" by simp
  next
    fix c assume c: "co_over c = None" "sound c" and over: "CAP < co_total c + length ?out"
    show "\<exists>c' o'. ?f c = Some c' \<and> co_stack c' = co_stack c \<and> co_over c' = Some o' \<and> CAP < oc_len o' \<and>
        oc_len o' \<le> co_total c + length ?out"
    proof (cases "co_total c + 2 * length ?h \<le> CAP")
      case False
      with account_over [OF c, of "2 * length ?h"] w10 two w len show ?thesis
        by (simp add: group_frame_def Let_def spell_widths acts_poisoned [OF body])
    next
      case True
      from charge_word [OF c h True] obtain ct c0 where c0: "account c (2 * length ?h) = Some (True, ct)"
        "push_run E ct (length ?h) = Some c0" "sound (own_bytes ?h c0)" "lays c (own_bytes ?h c0) ?h"
        "length (co_events c0) \<le> Suc (length (co_events c))" "slices c0 = slices c" "co_stack c0 = co_stack c"
        "co_total c0 = co_total c + 2 * length ?h" "co_over c0 = None" .
      let ?c1 = "own_bytes ?h c0"
      obtain c2 o2 where c2: "body (?b ?c1) = Some c2" "co_stack c2 = co_stack (?b ?c1)"
        "co_over c2 = Some o2" "CAP < oc_len o2" "oc_len o2 \<le> co_total (?b ?c1) + length out"
        by (rule acts_over [OF body, of "?b ?c1"]) (use c0 over len in \<open>simp_all add: stack_base\<close>)
      with c0 two w len show ?thesis
        by (simp add: group_frame_def Let_def spell_widths own_word_spell)
    qed
  qed
qed

text \<open>A length slot stays where it is while later events come, and is patched by its position.\<close>

lemma slot_kept:
  assumes "grows b c" "co_events b = es @ [mk_len E n w]"
  obtains R where "co_events c = es @ mk_len E n w # R"
proof -
  have "run_of E (mk_len E n w) \<noteq> Some k" for k by (simp add: run_of [of _ _ b] face_len)
  then have "stem (co_events b) = es @ [mk_len E n w]" by (simp add: stem_def assms(2))
  with assms(1) that show ?thesis by (auto simp: grows_def)
qed

definition patched :: "('e, 'z) co \<Rightarrow> 'e list \<Rightarrow> payload_len \<Rightarrow> nat \<Rightarrow> 'e list \<Rightarrow> ('e, 'z) co" where
  "patched c es n w R = c\<lparr>co_total := co_total c + w, co_events := es @ mk_len E n w # R\<rparr>"

lemma patched_sound:
  assumes c: "sound c" "co_events c = es @ mk_len E n0 w0 # R" and n: "0 < w" "w \<le> 5" "unat n < 128 ^ w" "co_total c + w \<le> CAP"
  shows "sound (patched c es n w R)"
  using c n by (simp add: sound_def patched_def pieces_def face_base face_len slices_base)

lemma patched_laid:
  assumes b: "tight a" "co_events a = es" "co_events b = es @ [mk_len E n0 w0]" "co_owned b = co_owned a" "face b = face a"
    and l: "lays b c out" "co_events c = es @ mk_len E n0 w0 # R"
  shows "laid (patched c es n w R) = laid a @ enc w (unat n) @ out"
proof -
  let ?es = "map (face a) es"
  obtain x where x: "co_owned c = co_owned a @ x" using l(1) b(4) by (auto simp: lays_def grows_def)
  have f: "map (face c) es = ?es" using l(1) b(2,3,5) by (auto simp: lays_def grows_def)
  have r: "runs ?es = length (co_owned a)" using b(1,2) by (simp add: tight_def pieces_def)
  have "render ?es (co_owned c) = laid a" using x r b(2) by (simp add: laid_def pieces_def render_more)
  moreover have "laid b = laid a @ enc w0 (unat n0)" using b r by (simp add: laid_def pieces_def face_len render_append)
  ultimately have "render (map (face c) R) (drop (runs ?es) (co_owned c)) = out"
    using l f by (simp add: lays_def laid_def pieces_def face_len render_append)
  moreover have "render ?es (co_owned c) = laid a" using x r b(2) by (simp add: laid_def pieces_def render_more)
  ultimately show ?thesis
    by (simp add: laid_def patched_def pieces_def face_base face_len render_append) (simp add: f)
qed

lemma slot_grows: "co_events b = co_events a @ [e] \<Longrightarrow> co_owned b = co_owned a \<Longrightarrow> face b = face a \<Longrightarrow> grows a b"
proof -
  assume a: "co_events b = co_events a @ [e]" "co_owned b = co_owned a" "face b = face a"
  have e: "\<exists>R. co_events b = stem (co_events a) @ R" using stem_push [of "co_events a" e] by (simp add: a(1))
  have "length (co_events a) \<le> length (co_events b)" by (simp add: a(1))
  with e a(2,3) show ?thesis by (simp add: grows_def)
qed

lemma patched_grows:
  assumes "grows c a" "grows a c2" "co_events c2 = co_events a @ mk_len E n0 w0 # R"
  shows "grows c (patched c2 (co_events a) n w R)"
proof -
  have "grows c c2" by (rule grows_trans) (rule assms)+
  moreover obtain R0 where "co_events a = stem (co_events c) @ R0" using assms(1) by (auto simp: grows_def)
  ultimately show ?thesis using assms(3) by (auto simp: grows_def patched_def face_base)
qed

text \<open>Where a frame begins: its head is laid, its slot is the last event, and its body starts on a sound core.\<close>

definition opened :: "('e, 'z) co \<Rightarrow> u32 \<Rightarrow> ('e, 'z) co \<Rightarrow> ('e, 'z) co" where
  "opened c head a = a\<lparr>co_events := co_events a @ [mk_len E 0 1],
     co_stack := \<lparr>fr_head = head, fr_begin = length (co_events a), fr_start_total = co_total a\<rparr> # co_stack c\<rparr>"

lemma begin_len_opens:
  assumes c: "co_over c = None" "sound c" and fits: "co_total c + length (spell_head head) \<le> CAP"
  obtains a where "begin_len E c head = Some (opened c head a)" "sound a" "lays c a (spell_head head)" "co_over a = None"
    "co_total a = co_total c + length (spell_head head)" "sound (opened c head a)"
    "length (co_events a) \<le> Suc (length (co_events c))" "slices a = slices c"
proof -
  let ?h = "spell_head head"
  from charge_word [OF c spell64_nonempty(2) order.refl fits] obtain ct c0 where c0: "account c (length ?h) = Some (True, ct)"
    "push_run E ct (length ?h) = Some c0" "sound (own_bytes ?h c0)" "lays c (own_bytes ?h c0) ?h"
    "length (co_events c0) \<le> Suc (length (co_events c))" "slices c0 = slices c" "co_stack c0 = co_stack c"
    "co_total c0 = co_total c + length ?h" "co_over c0 = None" .
  let ?a = "own_bytes ?h c0"
  have one: "Suc 0 \<le> length ?h" using spell_bounds(3) [of head] by (simp add: Suc_le_eq)
  have "length (co_events ?a) < 2 ^ 32" using c0(3) by (simp add: sound_def CAP_eq)
  then have b: "begin_len E c head = Some (opened c head ?a)"
    using c0(1,2,7) by (simp add: begin_len_def Let_def spell_widths own_word_spell opened_def)
  have "length (co_events ?a) + 1 \<le> 2 * co_total ?a" using c0(5,8) c(2) one by (simp add: sound_def)
  then have "sound (opened c head ?a)"
    using c0(3) by (simp add: opened_def sound_def pieces_def face_base face_len slices_base)
  then show ?thesis by (intro that [OF b c0(3,4)]) (use c0 in simp_all)
qed

lemma len_word_fits:
  assumes "n \<le> CAP"
  shows "encoded_len32 (len_inner (of_nat n)) = length (spell_len n)" "enc (length (spell_len n)) (unat (of_nat n :: payload_len)) = spell_len n"
    "unat (of_nat n :: payload_len) < 128 ^ length (spell_len n)" "length (spell_len n) \<le> 5"
proof -
  have n: "n < 2 ^ 31" using assms by (simp add: CAP_eq)
  have u: "unat (of_nat n :: payload_len) = n" "unat (of_nat n :: u32) = n" "unat (of_nat n :: u64) = n"
    using n by (simp_all add: unat_of_nat)
  have "(of_nat n :: u64) = ucast (of_nat n :: u32)"
    by (simp add: word_unat_eq_iff u)
  then have e: "encoded_len64 (of_nat n) = encoded_len32 (of_nat n)" by (simp add: encoded_len32_ucast)
  then show "encoded_len32 (len_inner (of_nat n)) = length (spell_len n)" using n by (simp add: len_inner_of_nat spell_len_def)
  show "length (spell_len n) \<le> 5" using e encoded_len32_le by (simp add: spell_len_def)
  show "enc (length (spell_len n)) (unat (of_nat n :: payload_len)) = spell_len n"
    by (simp add: u spell_len_def spell64_def)
  have "unat (of_nat n :: u32) < 128 ^ encoded_len32 (of_nat n)"
    using encoded_len32_least [of "encoded_len32 (of_nat n)" "of_nat n"] encoded_len32_pos [of "of_nat n"] by simp
  then show "unat (of_nat n :: payload_len) < 128 ^ length (spell_len n)" by (simp add: u e spell_len_def)
qed

lemma len_frame_widths:
  "length (spell_head head) \<le> 10" "Suc 0 \<le> length (spell_head head)" "length (spell_len n) \<le> 10" "Suc 0 \<le> length (spell_len n)"
  "encoded_len64 (of_nat n) = length (spell_len n)"
  using spell_bounds(3,4) [of head] spell_bounds(5,6) [of n] by (simp_all add: Suc_le_eq spell_len_def)

lemma len_frame_fits:
  assumes body: "acts body out" and c: "co_over c = None" "sound c"
    and fits: "co_total c + length (spell_head head @ spell_len (length out) @ out) \<le> CAP"
  shows "\<exists>c'. len_frame E c head body = Some c' \<and> co_stack c' = co_stack c \<and> co_over c' = None \<and> sound c' \<and>
    co_total c' = co_total c + length (spell_head head @ spell_len (length out) @ out) \<and> lays c c' (spell_head head @ spell_len (length out) @ out)"
proof -
  let ?h = "spell_head head" and ?p = "spell_len (length out)" and ?out = "spell_head head @ spell_len (length out) @ out" and ?f = "\<lambda>c. len_frame E c head body"
  note w = len_frame_widths(1,2) [of head] len_frame_widths(3,4) [of "length out"] and p = len_frame_widths(5) [of "length out"]
  from fits have h: "co_total c + length ?h \<le> CAP" by simp
  from begin_len_opens [OF c h] obtain a where a: "begin_len E c head = Some (opened c head a)" "sound a" "lays c a ?h"
    "co_over a = None" "co_total a = co_total c + length ?h" "sound (opened c head a)"
    "length (co_events a) \<le> Suc (length (co_events c))" "slices a = slices c" .
  let ?b = "opened c head a"
  have b: "co_over ?b = None" "co_total ?b = co_total a" "co_events ?b = co_events a @ [mk_len E 0 1]"
    "co_owned ?b = co_owned a" "face ?b = face a" "slices ?b = slices a"
    using a(4) by (simp_all add: opened_def face_base slices_base)
  have bf: "co_total ?b + length out \<le> CAP" using fits a(5) b(2) by simp
  obtain c2 where c2: "body ?b = Some c2" "co_stack c2 = co_stack ?b" "co_over c2 = None" "sound c2"
    "co_total c2 = co_total ?b + length out" "lays ?b c2 out" by (rule acts_fits [OF body b(1) a(6) bf])
  have g: "grows ?b c2" using c2(6) by (simp add: lays_def)
  from slot_kept [OF g b(3)] obtain R where R: "co_events c2 = co_events a @ mk_len E 0 1 # R" .
  let ?n = "of_nat (length out) :: payload_len"
  let ?d = "patched c2 (co_events a) ?n (length ?p) R"
  have n: "length out \<le> CAP" using fits by simp
  have f2: "co_total c2 + length ?p \<le> CAP" using fits a(5) b(2) c2(5) by simp
  have "account c2 (length ?p) = Some (True, c2\<lparr>co_total := co_total c2 + length ?p\<rparr>)"
    using account_sound [OF c2(3), of "length ?p"] c2(4) f2 w by (simp add: sound_def)
  then have e: "?f c = Some (?d\<lparr>co_stack := co_stack c\<rparr>)"
    using a(1,4,5) b(2) c2(1,2,3,5) R n
    by (simp add: len_frame_def end_len_def opened_def usub_def p run32_def len_word_fits patched_def)
  have s: "sound ?d"
    by (rule patched_sound [OF c2(4) R]) (use w f2 len_word_fits [OF n] in simp_all)
  have "grows c ?d"
    by (rule patched_grows [OF _ _ R]) (use a(3) g slot_grows [OF b(3-5)] grows_trans in \<open>auto simp: lays_def\<close>)
  moreover have "laid ?d = laid c @ ?out"
    using patched_laid [OF sound_tight [OF a(2)] refl b(3-5) c2(6) R, of ?n "length ?p"] a(3) len_word_fits(2) [OF n]
    by (simp add: lays_def)
  moreover have "length (co_events c2) = Suc (length (co_events a) + length R)" by (simp add: R)
  ultimately have "lays c ?d ?out"
    using a(3,7,8) b c2(6) w by (simp add: lays_def patched_def slices_base)
  with e s c2 a(5) b(2) show "\<exists>c'. ?f c = Some c' \<and> co_stack c' = co_stack c \<and>
      co_over c' = None \<and> sound c' \<and> co_total c' = co_total c + length ?out \<and> lays c c' ?out"
    by (simp add: stack_base) (simp add: patched_def)
qed

lemma len_frame_over:
  assumes body: "acts body out" and c: "co_over c = None" "sound c"
    and over: "CAP < co_total c + length (spell_head head @ spell_len (length out) @ out)"
  shows "\<exists>c' o'. len_frame E c head body = Some c' \<and> co_stack c' = co_stack c \<and> co_over c' = Some o' \<and>
    CAP < oc_len o' \<and> oc_len o' \<le> co_total c + length (spell_head head @ spell_len (length out) @ out)"
proof -
  let ?h = "spell_head head" and ?p = "spell_len (length out)"
  note w = len_frame_widths(1,2) [of head] len_frame_widths(3,4) [of "length out"] and p = len_frame_widths(5) [of "length out"]
  show ?thesis
  proof (cases "co_total c + length ?h \<le> CAP")
    case False
    with account_over [OF c, of "length ?h"] w show ?thesis
      by (simp add: len_frame_def begin_len_def end_len_def Let_def spell_widths acts_poisoned [OF body])
  next
    case True
    from begin_len_opens [OF c True] obtain a where a: "begin_len E c head = Some (opened c head a)" "sound a" "lays c a ?h"
      "co_over a = None" "co_total a = co_total c + length ?h" "sound (opened c head a)"
      "length (co_events a) \<le> Suc (length (co_events c))" "slices a = slices c" .
    let ?b = "opened c head a"
    have b: "co_over ?b = None" "co_total ?b = co_total a" "co_events ?b = co_events a @ [mk_len E 0 1]"
      using a(4) by (simp_all add: opened_def)
    show ?thesis
    proof (cases "co_total ?b + length out \<le> CAP")
      case False
      then have "CAP < co_total ?b + length out" by simp
      from acts_over [OF body b(1) a(6) this] obtain c2 o2 where "body ?b = Some c2" "co_stack c2 = co_stack ?b"
        "co_over c2 = Some o2" "CAP < oc_len o2" "oc_len o2 \<le> co_total ?b + length out" .
      with a(1,5) b(2) show ?thesis by (simp add: len_frame_def end_len_def opened_def)
    next
      case fits: True
      obtain c2 where c2: "body ?b = Some c2" "co_stack c2 = co_stack ?b" "co_over c2 = None" "sound c2"
        "co_total c2 = co_total ?b + length out" "lays ?b c2 out" by (rule acts_fits [OF body b(1) a(6) fits])
      have "grows ?b c2" using c2(6) by (simp add: lays_def)
      from slot_kept [OF this b(3)] obtain R where R: "co_events c2 = co_events a @ mk_len E 0 1 # R" .
      have "CAP < co_total c2 + length ?p" using over a(5) b(2) c2(5) by simp
      with account_over [OF c2(3,4), of "length ?p"] w
      have "account c2 (length ?p) = Some (False, poison_over_cap c2 (co_total c2 + length ?p))" by simp
      then show ?thesis
        using a(1,4,5) b(2) c2(1,2,3,5) R over fits
        by (simp add: len_frame_def end_len_def opened_def usub_def p run32_def)
          (simp add: poison_over_cap_def)
    qed
  qed
qed

lemma acts_len_frame:
  assumes body: "acts body out"
  shows "acts (\<lambda>c. len_frame E c head body) (spell_head head @ spell_len (length out) @ out)"
proof (rule actsI)
  fix c :: "('e, 'z) co" assume "co_over c \<noteq> None"
  then show "len_frame E c head body = Some c"
    by (auto simp: len_frame_def begin_len_def end_len_def Let_def spell_widths account_def acts_poisoned [OF body])
qed (rule len_frame_fits [OF body] len_frame_over [OF body]; assumption)+

end

end
