(* ===== verification/Construct_Emit.thy ===== *)
theory Construct_Emit
  imports Construct_Exact
begin

text \<open>
  The two cores as instances of the machinery, the operations only the borrowing core has, and what emission
  answers (\<open>src/src/construct.rs\<close>): a sound core whose frames are closed and whose account is the length of
  what its events spell is written out in full, by \<open>emit_into\<close> in one vector and by \<open>emit_sink\<close> in fragments.
\<close>

section \<open>The cores\<close>

definition core_face :: "core \<Rightarrow> event \<Rightarrow> piece" where
  "core_face c e =
     (case e of
        EvOwned n \<Rightarrow> PcRun n
      | EvBorrowed at \<Rightarrow> if at < length (co_borrows c) then PcSlice (co_borrows c ! at) else PcBad
      | EvLen b w \<Rightarrow> PcWord b w)"

definition copy_face :: "copy_core \<Rightarrow> copy_event \<Rightarrow> piece" where
  "copy_face c e = (case e of CeOwned n \<Rightarrow> PcRun n | CeLen b w \<Rightarrow> PcWord b w)"

definition core_slices :: "core \<Rightarrow> nat" where
  "core_slices c = length (co_borrows c)"

definition copy_slices :: "copy_core \<Rightarrow> nat" where
  "copy_slices c = 0"

interpretation mixed: event_machine core_events core_face core_slices
  by unfold_locales (simp_all add: core_events_def core_face_def core_slices_def fun_eq_iff split: event.split)

interpretation copied: event_machine copy_events copy_face copy_slices
  by unfold_locales (simp_all add: copy_events_def copy_face_def copy_slices_def fun_eq_iff split: copy_event.split)

section \<open>Borrowed payloads\<close>

lemma core_face_kept: "core_face c e \<noteq> PcBad \<Longrightarrow>
  core_face (c\<lparr>co_borrows := co_borrows c @ bs, co_events := es\<rparr>) e = core_face c e"
  by (cases e) (simp_all add: core_face_def nth_append split: if_splits)

lemma push_borrow_lays:
  assumes c: "mixed.sound c" and p: "payload \<noteq> []"
    and room: "length (co_borrows c) < co_total c" "length (co_events c) < 2 * co_total c"
  obtains c' where "push_borrow c payload = Some c'" "mixed.sound c'" "mixed.lays c c' payload" "co_stack c' = co_stack c"
    "co_total c' = co_total c" "co_over c' = co_over c"
proof -
  let ?n = "length (co_borrows c)"
  let ?c = "c\<lparr>co_borrows := co_borrows c @ [payload], co_events := co_events c @ [EvBorrowed ?n]\<rparr>"
  have n: "?n < 2 ^ 32" using c room by (simp add: mixed.sound_def core_slices_def CAP_eq)
  have e: "push_borrow c payload = Some ?c" using p n by (simp add: push_borrow_def)
  have "core_face c e \<noteq> PcBad" if "e \<in> set (co_events c)" for e
    using c that by (auto simp: mixed.sound_def mixed.pieces_def list_all_iff)
  then have f: "core_face ?c e = core_face c e" if "e \<in> set (co_events c)" for e
    using that core_face_kept [of c e] by simp
  then have m: "map (core_face ?c) (co_events c) = map (core_face c) (co_events c)" by simp
  have b: "core_face ?c (EvBorrowed ?n) = PcSlice payload" by (simp add: core_face_def)
  have ps: "mixed.pieces ?c = mixed.pieces c @ [PcSlice payload]"
    using m b by (simp add: mixed.pieces_def del: map_eq_conv)
  have "\<exists>R. co_events ?c = mixed.stem (co_events c) @ R" using mixed.stem_push [of "co_events c"] by simp
  then have g: "mixed.grows c ?c" using f by (simp add: mixed.grows_def)
  have one: "Suc 0 \<le> length payload" using p by (simp add: Suc_le_eq)
  have "mixed.sound ?c" using c room by (simp add: mixed.sound_def ps core_slices_def)
  moreover have "mixed.laid ?c = mixed.laid c @ payload"
    using c by (simp add: mixed.sound_def mixed.laid_def ps render_append)
  then have "mixed.lays c ?c payload" using g one by (simp add: mixed.lays_def core_slices_def)
  ultimately show ?thesis by (intro that [OF e]) simp_all
qed

lemma acts_put_raw_bytes:
  assumes "length bs \<le> SLICE_MAX"
  shows "mixed.acts (\<lambda>c. put_raw_bytes c bs) bs"
proof (cases "bs \<noteq> [] \<and> BORROW_MIN \<le> length bs")
  case False
  have l: "length bs < 2 ^ 64 - 2 ^ 32" using assms by (simp add: SLICE_MAX_def)
  from False have "(\<lambda>c. put_raw_bytes c bs) = (if bs = [] then Some else charged core_events bs)"
    by (auto simp: put_raw_bytes_def charged_def fun_eq_iff cong: if_cong)
  then show ?thesis using mixed.acts_none mixed.acts_charged [OF _ l] by simp
next
  case True
  then have bs: "bs \<noteq> []" "BORROW_MIN \<le> length bs" by simp_all
  show ?thesis
  proof (rule mixed.actsI)
    fix c :: core assume "co_over c \<noteq> None"
    then show "put_raw_bytes c bs = Some c" by (auto simp: put_raw_bytes_def account_def)
  next
    fix c :: core assume c: "co_over c = None" "mixed.sound c" and fits: "co_total c + length bs \<le> CAP"
    let ?c = "c\<lparr>co_total := co_total c + length bs\<rparr>"
    have one: "Suc 0 \<le> length bs" using bs(1) by (simp add: Suc_le_eq)
    have a: "account c (length bs) = Some (True, ?c)"
      using mixed.account_sound [OF c(1), of "length bs"] c(2) fits by (simp add: mixed.sound_def CAP_eq)
    have s: "mixed.sound ?c" "length (co_borrows ?c) < co_total ?c" "length (co_events ?c) < 2 * co_total ?c"
      using c(2) fits one by (simp_all add: mixed.sound_def mixed.pieces_def mixed.face_base core_slices_def)
    from push_borrow_lays [OF s(1) bs(1) s(2,3)] obtain c' where c': "push_borrow ?c bs = Some c'" "mixed.sound c'"
      "mixed.lays ?c c' bs" "co_stack c' = co_stack ?c" "co_total c' = co_total ?c" "co_over c' = co_over ?c" .
    have "mixed.lays c c' bs" using c'(3) by (simp add: mixed.lays_def mixed.grows_base mixed.laid_base mixed.slices_base)
    with a c' c bs show "\<exists>c'. put_raw_bytes c bs = Some c' \<and> co_stack c' = co_stack c \<and> co_over c' = None \<and>
        mixed.sound c' \<and> co_total c' = co_total c + length bs \<and> mixed.lays c c' bs"
      by (simp add: put_raw_bytes_def)
  next
    fix c :: core assume c: "co_over c = None" "mixed.sound c" and over: "CAP < co_total c + length bs"
    with mixed.account_over [OF c _ over] assms bs
    show "\<exists>c' o'. put_raw_bytes c bs = Some c' \<and> co_stack c' = co_stack c \<and> co_over c' = Some o' \<and> CAP < oc_len o' \<and>
        oc_len o' \<le> co_total c + length bs"
      by (simp add: put_raw_bytes_def SLICE_MAX_def)
  qed
qed

text \<open>The payload of a record, once it is charged: shared from \<open>BORROW_MIN\<close> bytes on, copied below, nothing when empty.\<close>

lemma payload_lays:
  assumes c: "mixed.sound c"
    and room: "length (co_owned c) + length payload \<le> co_total c" "length (co_borrows c) + length payload \<le> co_total c"
      "length (co_events c) + 2 * length payload \<le> 2 * co_total c"
  obtains c' where "(if length payload \<ge> BORROW_MIN then push_borrow c payload
      else if payload \<noteq> [] then do { c \<leftarrow> push_run core_events c (length payload); Some (own_bytes payload c) }
      else Some c) = Some c'" "co_stack c' = co_stack c" "co_over c' = co_over c" "mixed.sound c'"
    "co_total c' = co_total c" "mixed.lays c c' payload"
proof (cases "payload = []")
  case True
  with c show ?thesis by (intro that [of c]) (simp_all add: BORROW_MIN_def mixed.lays_def mixed.grows_refl)
next
  case False
  then have one: "Suc 0 \<le> length payload" by (simp add: Suc_le_eq)
  show ?thesis
  proof (cases "length payload \<ge> BORROW_MIN")
    case True
    have "length (co_borrows c) < co_total c" "length (co_events c) < 2 * co_total c" using room one by simp_all
    from push_borrow_lays [OF c False this] obtain c' where "push_borrow c payload = Some c'" "mixed.sound c'"
      "mixed.lays c c' payload" "co_stack c' = co_stack c" "co_total c' = co_total c" "co_over c' = co_over c" .
    with True show ?thesis by (intro that [of c']) simp_all
  next
    case short: False
    from mixed.push_word [OF c False room(1,3)] obtain c2 where "push_run core_events c (length payload) = Some c2"
      "mixed.sound (own_bytes payload c2)" "mixed.lays c (own_bytes payload c2) payload"
      "length (co_events c2) \<le> Suc (length (co_events c))" "core_slices c2 = core_slices c"
      "co_stack c2 = co_stack c" "co_total c2 = co_total c" "co_over c2 = co_over c" .
    with short False show ?thesis by (intro that [of "own_bytes payload c2"]) simp_all
  qed
qed

lemma acts_put_len:
  assumes "length payload \<le> SLICE_MAX"
  shows "mixed.acts (\<lambda>c. put_len c head payload) (spell_head head @ spell_len (length payload) @ payload)"
proof -
  let ?hp = "spell_head head @ spell_len (length payload)" and ?n = "length payload"
  have w: "length (spell_head head) \<le> 10" "length (spell_len ?n) \<le> 10" by (rule spell_bounds)+
  then have add: "u64_add (length ?hp) ?n = Some (length ?hp + ?n)"
    using assms by (simp add: u64_add_def SLICE_MAX_def)
  have put: "put_len c head payload =
     do { (ok, c) \<leftarrow> account c (length ?hp + ?n);
          if \<not> ok then Some c
          else do { c \<leftarrow> push_run core_events c (length ?hp);
                    let c = own_bytes ?hp c in
                    if ?n \<ge> BORROW_MIN then push_borrow c payload
                    else if payload \<noteq> [] then
                      do { c \<leftarrow> push_run core_events c ?n; Some (own_bytes payload c) }
                    else Some c } }" for c
    using w add
    by (simp add: put_len_def Let_def spell_widths u_adds own_word_spell own_bytes_twice add.assoc cong: if_cong)
  show ?thesis
  proof (rule mixed.actsI)
    fix c :: core assume "co_over c \<noteq> None"
    then show "put_len c head payload = Some c" by (auto simp: put account_def)
  next
    fix c :: core assume c: "co_over c = None" "mixed.sound c"
      and fits: "co_total c + length (spell_head head @ spell_len ?n @ payload) \<le> CAP"
    then have f: "co_total c + (length ?hp + ?n) \<le> CAP" by simp
    have hp: "?hp \<noteq> []" "length ?hp \<le> length ?hp + ?n" by simp_all
    from mixed.charge_word [OF c hp f] obtain ct c0 where c0: "account c (length ?hp + ?n) = Some (True, ct)"
      "push_run core_events ct (length ?hp) = Some c0" "mixed.sound (own_bytes ?hp c0)" "mixed.lays c (own_bytes ?hp c0) ?hp"
      "length (co_events c0) \<le> Suc (length (co_events c))" "core_slices c0 = core_slices c" "co_stack c0 = co_stack c"
      "co_total c0 = co_total c + (length ?hp + ?n)" "co_over c0 = None" .
    let ?c1 = "own_bytes ?hp c0"
    have room: "length (co_owned ?c1) + ?n \<le> co_total ?c1" "length (co_borrows ?c1) + ?n \<le> co_total ?c1"
      "length (co_events ?c1) + 2 * ?n \<le> 2 * co_total ?c1"
      using c0(4-8) c(2) by (simp_all add: mixed.sound_def mixed.lays_def core_slices_def own_bytes_def)
    from payload_lays [OF c0(3) room] obtain c' where c': "(if ?n \<ge> BORROW_MIN then push_borrow ?c1 payload
        else if payload \<noteq> [] then do { c \<leftarrow> push_run core_events ?c1 ?n; Some (own_bytes payload c) }
        else Some ?c1) = Some c'" "co_stack c' = co_stack ?c1" "co_over c' = co_over ?c1" "mixed.sound c'"
      "co_total c' = co_total ?c1" "mixed.lays ?c1 c' payload" .
    have "put_len c head payload = Some c'" using c0(1,2) c'(1) by (simp add: put Let_def)
    moreover have "mixed.lays c c' (spell_head head @ spell_len ?n @ payload)"
      using mixed.lays_trans [OF c0(4) c'(6)] by simp
    ultimately show "\<exists>c'. put_len c head payload = Some c' \<and> co_stack c' = co_stack c \<and> co_over c' = None \<and>
        mixed.sound c' \<and> co_total c' = co_total c + length (spell_head head @ spell_len ?n @ payload) \<and>
        mixed.lays c c' (spell_head head @ spell_len ?n @ payload)"
      using c' c0(7-9) by simp
  next
    fix c :: core assume c: "co_over c = None" "mixed.sound c"
      and over: "CAP < co_total c + length (spell_head head @ spell_len ?n @ payload)"
    then have "CAP < co_total c + (length ?hp + ?n)" "length ?hp + ?n < 2 ^ 64 - 2 ^ 32"
      using w assms by (simp_all add: SLICE_MAX_def)
    with mixed.account_over [OF c, of "length ?hp + ?n"]
    show "\<exists>c' o'. put_len c head payload = Some c' \<and> co_stack c' = co_stack c \<and> co_over c' = Some o' \<and>
        CAP < oc_len o' \<and> oc_len o' \<le> co_total c + length (spell_head head @ spell_len ?n @ payload)"
      by (simp add: put)
  qed
qed

section \<open>Emission\<close>

lemma prefix_bytes_ok: "piece_ok (PcWord b w) \<Longrightarrow> prefix_bytes b w = Some (enc w (unat b))"
  by (simp add: prefix_bytes_def write32_at_def write64_at_enc)

lemma prefix_slice_ok: "piece_ok (PcWord b w) \<Longrightarrow> prefix_slice b w = Some (enc w (unat b))"
  by (simp add: prefix_slice_def write32_at_def write64_at_enc)

lemma extent_of_run: "extent_of owned at (at + run) = take run (drop at owned)"
  by (simp add: extent_of_def)

text \<open>The fragments the sink is called with, and the bytes they come to.\<close>

fun frags :: "piece list \<Rightarrow> bytes \<Rightarrow> bytes list" where
  "frags [] ow = []"
| "frags (PcRun n # ps) ow = take n ow # frags ps (drop n ow)"
| "frags (PcSlice bs # ps) ow = bs # frags ps ow"
| "frags (PcWord b w # ps) ow = enc w (unat b) # frags ps ow"
| "frags (PcBad # ps) ow = frags ps ow"

lemma concat_frags: "concat (frags ps ow) = render ps ow"
  by (induction ps ow rule: frags.induct) simp_all

lemma core_emit_eq:
  "list_all piece_ok (map (core_face c) es) \<Longrightarrow> at + runs (map (core_face c) es) \<le> length owned \<Longrightarrow>
   core_emit owned (co_borrows c) at es =
     Some (render (map (core_face c) es) (drop at owned), at + runs (map (core_face c) es))"
  by (induction owned "co_borrows c" at es rule: core_emit.induct)
    (auto simp: core_face_def extent_of_run prefix_bytes_ok add.commute add.left_commute split: if_splits)

lemma copy_emit_eq:
  "list_all piece_ok (map (copy_face c) es) \<Longrightarrow> at + runs (map (copy_face c) es) \<le> length owned \<Longrightarrow>
   copy_emit owned at es =
     Some (render (map (copy_face c) es) (drop at owned), at + runs (map (copy_face c) es))"
  by (induction owned at es rule: copy_emit.induct)
    (auto simp: copy_face_def extent_of_run prefix_bytes_ok add.commute add.left_commute)

lemma core_sink_eq:
  "list_all piece_ok (map (core_face c) es) \<Longrightarrow> at + runs (map (core_face c) es) \<le> length owned \<Longrightarrow>
   core_sink sink owned (co_borrows c) at es s =
     Some (foldl sink s (frags (map (core_face c) es) (drop at owned)), at + runs (map (core_face c) es))"
  by (induction sink owned "co_borrows c" at es s rule: core_sink.induct)
    (auto simp: core_face_def extent_of_run prefix_slice_ok add.commute add.left_commute split: if_splits)

lemma copy_sink_eq:
  "list_all piece_ok (map (copy_face c) es) \<Longrightarrow> at + runs (map (copy_face c) es) \<le> length owned \<Longrightarrow>
   copy_sink sink owned at es s =
     Some (foldl sink s (frags (map (copy_face c) es) (drop at owned)), at + runs (map (copy_face c) es))"
  by (induction sink owned at es s rule: copy_sink.induct)
    (auto simp: copy_face_def extent_of_run prefix_slice_ok add.commute add.left_commute)

end
