(* ===== verification/Construct_Faces.thy ===== *)
theory Construct_Faces
  imports Construct
begin

text \<open>
  The builders' faces (\<open>src/src/construct.rs\<close>, \<open>construct/grouped.rs\<close>, \<open>construct/groupless.rs\<close>). The source
  expands them per dialect and per core; here the dialect is the record of its head words and the core the
  record of its events; \<open>d_groups\<close> says whether its
  builders have the \<open>group\<close> face. A handle (\<open>Builder\<close>, \<open>BodyBuilder\<close>, \<open>Bytes\<close>, ...) is the core it borrows.
\<close>

record dialect =
  d_varint :: "field_number \<Rightarrow> u32"
  d_i32 :: "field_number \<Rightarrow> u32"
  d_i64 :: "field_number \<Rightarrow> u32"
  d_len :: "field_number \<Rightarrow> u32"
  d_groups :: bool

definition grouped :: dialect where
  "grouped = \<lparr>d_varint = (\<lambda>f. head_word_gr f GrVarint), d_i32 = (\<lambda>f. head_word_gr f GrI32),
              d_i64 = (\<lambda>f. head_word_gr f GrI64), d_len = (\<lambda>f. head_word_gr f GrLen), d_groups = True\<rparr>"

definition groupless :: dialect where
  "groupless = \<lparr>d_varint = (\<lambda>f. head_word_gl f GlVarint), d_i32 = (\<lambda>f. head_word_gl f GlI32),
                d_i64 = (\<lambda>f. head_word_gl f GlI64), d_len = (\<lambda>f. head_word_gl f GlLen), d_groups = False\<rparr>"

section \<open>Scalars\<close>

definition push_varint :: "'e event_ops \<Rightarrow> dialect \<Rightarrow> field_number \<Rightarrow> u64 \<Rightarrow> ('e, 'z) co_body" where
  "push_varint E D field val c = put_varint E c (d_varint D field) val"

definition push_i32 :: "'e event_ops \<Rightarrow> dialect \<Rightarrow> field_number \<Rightarrow> u32 \<Rightarrow> ('e, 'z) co_body" where
  "push_i32 E D field bits c = put_i32 E c (d_i32 D field) bits"

definition push_i64 :: "'e event_ops \<Rightarrow> dialect \<Rightarrow> field_number \<Rightarrow> u64 \<Rightarrow> ('e, 'z) co_body" where
  "push_i64 E D field bits c = put_i64 E c (d_i64 D field) bits"

definition push_int32 :: "'e event_ops \<Rightarrow> dialect \<Rightarrow> field_number \<Rightarrow> i32 \<Rightarrow> ('e, 'z) co_body" where
  "push_int32 E D field val c = push_varint E D field (encode_int64 (scast val)) c"

definition push_int64 :: "'e event_ops \<Rightarrow> dialect \<Rightarrow> field_number \<Rightarrow> i64 \<Rightarrow> ('e, 'z) co_body" where
  "push_int64 E D field val c = push_varint E D field (encode_int64 val) c"

definition push_sint32 :: "'e event_ops \<Rightarrow> dialect \<Rightarrow> field_number \<Rightarrow> i32 \<Rightarrow> ('e, 'z) co_body" where
  "push_sint32 E D field val c = push_varint E D field (encode_sint32 val) c"

definition push_sint64 :: "'e event_ops \<Rightarrow> dialect \<Rightarrow> field_number \<Rightarrow> i64 \<Rightarrow> ('e, 'z) co_body" where
  "push_sint64 E D field val c = push_varint E D field (encode_sint64 val) c"

definition push_bool :: "'e event_ops \<Rightarrow> dialect \<Rightarrow> field_number \<Rightarrow> bool \<Rightarrow> ('e, 'z) co_body" where
  "push_bool E D field val c = push_varint E D field (encode_bool val) c"

definition push_enum :: "'e event_ops \<Rightarrow> dialect \<Rightarrow> field_number \<Rightarrow> i32 \<Rightarrow> ('e, 'z) co_body" where
  "push_enum E D field val c = push_varint E D field (encode_int64 (scast val)) c"

definition push_sfixed32 :: "'e event_ops \<Rightarrow> dialect \<Rightarrow> field_number \<Rightarrow> i32 \<Rightarrow> ('e, 'z) co_body" where
  "push_sfixed32 E D field val c = push_i32 E D field val c"

definition push_float :: "'e event_ops \<Rightarrow> dialect \<Rightarrow> field_number \<Rightarrow> f32 \<Rightarrow> ('e, 'z) co_body" where
  "push_float E D field val c = push_i32 E D field (encode_float val) c"

definition push_sfixed64 :: "'e event_ops \<Rightarrow> dialect \<Rightarrow> field_number \<Rightarrow> i64 \<Rightarrow> ('e, 'z) co_body" where
  "push_sfixed64 E D field val c = push_i64 E D field val c"

definition push_double :: "'e event_ops \<Rightarrow> dialect \<Rightarrow> field_number \<Rightarrow> f64 \<Rightarrow> ('e, 'z) co_body" where
  "push_double E D field val c = push_i64 E D field (encode_double val) c"

section \<open>Packed scalars\<close>

definition push_packed_uint32 :: "'e event_ops \<Rightarrow> dialect \<Rightarrow> field_number \<Rightarrow> u32 list \<Rightarrow> ('e, 'z) co_body" where
  "push_packed_uint32 E D field items c = put_packed_varints E c (d_len D field) items ucast"

definition push_packed_uint64 :: "'e event_ops \<Rightarrow> dialect \<Rightarrow> field_number \<Rightarrow> u64 list \<Rightarrow> ('e, 'z) co_body" where
  "push_packed_uint64 E D field items c = put_packed_varints E c (d_len D field) items (\<lambda>item. item)"

definition push_packed_int32 :: "'e event_ops \<Rightarrow> dialect \<Rightarrow> field_number \<Rightarrow> i32 list \<Rightarrow> ('e, 'z) co_body" where
  "push_packed_int32 E D field items c =
     put_packed_varints E c (d_len D field) items (\<lambda>item. encode_int64 (scast item))"

definition push_packed_int64 :: "'e event_ops \<Rightarrow> dialect \<Rightarrow> field_number \<Rightarrow> i64 list \<Rightarrow> ('e, 'z) co_body" where
  "push_packed_int64 E D field items c = put_packed_varints E c (d_len D field) items encode_int64"

definition push_packed_sint32 :: "'e event_ops \<Rightarrow> dialect \<Rightarrow> field_number \<Rightarrow> i32 list \<Rightarrow> ('e, 'z) co_body" where
  "push_packed_sint32 E D field items c = put_packed_varints E c (d_len D field) items encode_sint32"

definition push_packed_sint64 :: "'e event_ops \<Rightarrow> dialect \<Rightarrow> field_number \<Rightarrow> i64 list \<Rightarrow> ('e, 'z) co_body" where
  "push_packed_sint64 E D field items c = put_packed_varints E c (d_len D field) items encode_sint64"

definition push_packed_bool :: "'e event_ops \<Rightarrow> dialect \<Rightarrow> field_number \<Rightarrow> bool list \<Rightarrow> ('e, 'z) co_body" where
  "push_packed_bool E D field items c = put_packed_varints E c (d_len D field) items encode_bool"

definition push_packed_enum :: "'e event_ops \<Rightarrow> dialect \<Rightarrow> field_number \<Rightarrow> i32 list \<Rightarrow> ('e, 'z) co_body" where
  "push_packed_enum E D field items c =
     put_packed_varints E c (d_len D field) items (\<lambda>item. encode_int64 (scast item))"

definition push_packed_fixed32 :: "'e event_ops \<Rightarrow> dialect \<Rightarrow> field_number \<Rightarrow> u32 list \<Rightarrow> ('e, 'z) co_body" where
  "push_packed_fixed32 E D field items c = put_packed_fixed32 E c (d_len D field) items (\<lambda>item. item)"

definition push_packed_sfixed32 :: "'e event_ops \<Rightarrow> dialect \<Rightarrow> field_number \<Rightarrow> i32 list \<Rightarrow> ('e, 'z) co_body" where
  "push_packed_sfixed32 E D field items c = put_packed_fixed32 E c (d_len D field) items (\<lambda>item. item)"

definition push_packed_float :: "'e event_ops \<Rightarrow> dialect \<Rightarrow> field_number \<Rightarrow> f32 list \<Rightarrow> ('e, 'z) co_body" where
  "push_packed_float E D field items c = put_packed_fixed32 E c (d_len D field) items encode_float"

definition push_packed_fixed64 :: "'e event_ops \<Rightarrow> dialect \<Rightarrow> field_number \<Rightarrow> u64 list \<Rightarrow> ('e, 'z) co_body" where
  "push_packed_fixed64 E D field items c = put_packed_fixed64 E c (d_len D field) items (\<lambda>item. item)"

definition push_packed_sfixed64 :: "'e event_ops \<Rightarrow> dialect \<Rightarrow> field_number \<Rightarrow> i64 list \<Rightarrow> ('e, 'z) co_body" where
  "push_packed_sfixed64 E D field items c = put_packed_fixed64 E c (d_len D field) items (\<lambda>item. item)"

definition push_packed_double :: "'e event_ops \<Rightarrow> dialect \<Rightarrow> field_number \<Rightarrow> f64 list \<Rightarrow> ('e, 'z) co_body" where
  "push_packed_double E D field items c = put_packed_fixed64 E c (d_len D field) items encode_double"

section \<open>Payloads and containers\<close>

text \<open>The borrowing builder's payload faces, then the copying builder's. A \<open>str\<close> is its bytes.\<close>

definition push_len :: "dialect \<Rightarrow> field_number \<Rightarrow> bytes \<Rightarrow> core \<Rightarrow> core option" where
  "push_len D field payload c = put_len c (d_len D field) payload"

definition push_len_copy :: "dialect \<Rightarrow> field_number \<Rightarrow> bytes \<Rightarrow> core \<Rightarrow> core option" where
  "push_len_copy D field payload c = put_len_copy core_events c (d_len D field) payload"

definition push_string :: "dialect \<Rightarrow> field_number \<Rightarrow> bytes \<Rightarrow> core \<Rightarrow> core option" where
  "push_string D field val c = push_len D field val c"

definition push_string_copy :: "dialect \<Rightarrow> field_number \<Rightarrow> bytes \<Rightarrow> core \<Rightarrow> core option" where
  "push_string_copy D field val c = push_len_copy D field val c"

definition copy_push_len :: "dialect \<Rightarrow> field_number \<Rightarrow> bytes \<Rightarrow> copy_core \<Rightarrow> copy_core option" where
  "copy_push_len D field payload c = put_len_copy copy_events c (d_len D field) payload"

definition copy_push_string :: "dialect \<Rightarrow> field_number \<Rightarrow> bytes \<Rightarrow> copy_core \<Rightarrow> copy_core option" where
  "copy_push_string D field val c = copy_push_len D field val c"

definition message :: "'e event_ops \<Rightarrow> dialect \<Rightarrow> field_number \<Rightarrow> ('e, 'z) co_body \<Rightarrow> ('e, 'z) co_body" where
  "message E D field body c = len_frame E c (d_len D field) body"

definition bytes_frame :: "'e event_ops \<Rightarrow> dialect \<Rightarrow> field_number \<Rightarrow> ('e, 'z) co_body \<Rightarrow> ('e, 'z) co_body" where
  "bytes_frame E D field body c = len_frame E c (d_len D field) body"

definition group_face :: "'e event_ops \<Rightarrow> field_number \<Rightarrow> ('e, 'z) co_body \<Rightarrow> ('e, 'z) co_body" where
  "group_face E field body c = group_frame E c (head_word_gr field GrGroup) (group_end_word field) body"

text \<open>A canonical record of the source faces is the bytes it was sealed over.\<close>

definition push_record :: "bytes \<Rightarrow> core \<Rightarrow> core option" where
  "push_record source c = put_raw_bytes c source"

definition push_record_copy :: "bytes \<Rightarrow> core \<Rightarrow> core option" where
  "push_record_copy source c = put_raw_bytes_copy core_events c source"

definition copy_push_record :: "bytes \<Rightarrow> copy_core \<Rightarrow> copy_core option" where
  "copy_push_record source c = put_raw_bytes_copy copy_events c source"

section \<open>Raw faces and byte frames\<close>

definition raw_bytes :: "bytes \<Rightarrow> core \<Rightarrow> core option" where
  "raw_bytes bs c = put_raw_bytes c bs"

definition raw_bytes_copy :: "bytes \<Rightarrow> core \<Rightarrow> core option" where
  "raw_bytes_copy bs c = put_raw_bytes_copy core_events c bs"

definition copy_raw_bytes :: "bytes \<Rightarrow> copy_core \<Rightarrow> copy_core option" where
  "copy_raw_bytes bs c = put_raw_bytes_copy copy_events c bs"

definition raw_varint :: "'e event_ops \<Rightarrow> u64 \<Rightarrow> ('e, 'z) co_body" where
  "raw_varint E val c = put_raw_varint E c val"

definition raw_i32 :: "'e event_ops \<Rightarrow> u32 \<Rightarrow> ('e, 'z) co_body" where
  "raw_i32 E bits c = put_raw_i32 E c bits"

definition raw_i64 :: "'e event_ops \<Rightarrow> u64 \<Rightarrow> ('e, 'z) co_body" where
  "raw_i64 E bits c = put_raw_i64 E c bits"

definition bytes_write :: "bytes \<Rightarrow> core \<Rightarrow> core option" where
  "bytes_write chunk c = put_raw_bytes_copy core_events c chunk"

definition bytes_write_borrowed :: "bytes \<Rightarrow> core \<Rightarrow> core option" where
  "bytes_write_borrowed chunk c = put_raw_bytes c chunk"

definition copy_bytes_write :: "bytes \<Rightarrow> copy_core \<Rightarrow> copy_core option" where
  "copy_bytes_write chunk c = put_raw_bytes_copy copy_events c chunk"

end
