(* ===== verification/Construct_Client.thy ===== *)
theory Construct_Client
  imports Construct_Emit Construct_Faces Grammar
begin

text \<open>
  What a program on the builders does, and the bytes it stands for. A program is a tree of the faces' calls
  (a body closure is the list of calls it makes); \<open>run_builder\<close> and \<open>run_copy\<close> make the calls, \<open>spells\<close> is the
  document they describe, written down without a core. Neither is code of the crate: they are what the
  properties of the builders quantify over.
\<close>

section \<open>Programs\<close>

datatype scalar_val =
    VVarint u64 | VI32 u32 | VI64 u64 | VInt32 i32 | VInt64 i64 | VSint32 i32 | VSint64 i64 | VBool bool | VEnum i32
  | VSfixed32 i32 | VFloat f32 | VSfixed64 i64 | VDouble f64

datatype packed_val =
    KUint32 "u32 list" | KUint64 "u64 list" | KInt32 "i32 list" | KInt64 "i64 list" | KSint32 "i32 list" | KSint64 "i64 list"
  | KBool "bool list" | KEnum "i32 list" | KFixed32 "u32 list" | KSfixed32 "i32 list" | KFloat "f32 list"
  | KFixed64 "u64 list" | KSfixed64 "i64 list" | KDouble "f64 list"

datatype cmd =
    CVal field_number scalar_val | CPacked field_number packed_val
  | CLen field_number bytes | CLenCopy field_number bytes | CString field_number bytes | CStringCopy field_number bytes
  | CRecord bytes | CRecordCopy bytes | CRaw bytes | CRawCopy bytes | CRawVarint u64 | CRawI32 u32 | CRawI64 u64
  | CMessage field_number "cmd list" | CBytes field_number "(bool \<times> bytes) list" | CGroup field_number "cmd list"

fun push_val :: "'e event_ops \<Rightarrow> dialect \<Rightarrow> field_number \<Rightarrow> scalar_val \<Rightarrow> ('e, 'z) co_body" where
  "push_val E D f (VVarint v) = push_varint E D f v"
| "push_val E D f (VI32 v) = push_i32 E D f v"
| "push_val E D f (VI64 v) = push_i64 E D f v"
| "push_val E D f (VInt32 v) = push_int32 E D f v"
| "push_val E D f (VInt64 v) = push_int64 E D f v"
| "push_val E D f (VSint32 v) = push_sint32 E D f v"
| "push_val E D f (VSint64 v) = push_sint64 E D f v"
| "push_val E D f (VBool v) = push_bool E D f v"
| "push_val E D f (VEnum v) = push_enum E D f v"
| "push_val E D f (VSfixed32 v) = push_sfixed32 E D f v"
| "push_val E D f (VFloat v) = push_float E D f v"
| "push_val E D f (VSfixed64 v) = push_sfixed64 E D f v"
| "push_val E D f (VDouble v) = push_double E D f v"

fun push_packed :: "'e event_ops \<Rightarrow> dialect \<Rightarrow> field_number \<Rightarrow> packed_val \<Rightarrow> ('e, 'z) co_body" where
  "push_packed E D f (KUint32 xs) = push_packed_uint32 E D f xs"
| "push_packed E D f (KUint64 xs) = push_packed_uint64 E D f xs"
| "push_packed E D f (KInt32 xs) = push_packed_int32 E D f xs"
| "push_packed E D f (KInt64 xs) = push_packed_int64 E D f xs"
| "push_packed E D f (KSint32 xs) = push_packed_sint32 E D f xs"
| "push_packed E D f (KSint64 xs) = push_packed_sint64 E D f xs"
| "push_packed E D f (KBool xs) = push_packed_bool E D f xs"
| "push_packed E D f (KEnum xs) = push_packed_enum E D f xs"
| "push_packed E D f (KFixed32 xs) = push_packed_fixed32 E D f xs"
| "push_packed E D f (KSfixed32 xs) = push_packed_sfixed32 E D f xs"
| "push_packed E D f (KFloat xs) = push_packed_float E D f xs"
| "push_packed E D f (KFixed64 xs) = push_packed_fixed64 E D f xs"
| "push_packed E D f (KSfixed64 xs) = push_packed_sfixed64 E D f xs"
| "push_packed E D f (KDouble xs) = push_packed_double E D f xs"

fun run_chunks :: "(bool \<times> bytes) list \<Rightarrow> core \<Rightarrow> core option" where
  "run_chunks [] c = Some c"
| "run_chunks ((borrowed, chunk) # rest) c =
     do { c \<leftarrow> (if borrowed then bytes_write_borrowed chunk c else bytes_write chunk c); run_chunks rest c }"

fun run_copy_chunks :: "(bool \<times> bytes) list \<Rightarrow> copy_core \<Rightarrow> copy_core option" where
  "run_copy_chunks [] c = Some c"
| "run_copy_chunks ((borrowed, chunk) # rest) c = do { c \<leftarrow> copy_bytes_write chunk c; run_copy_chunks rest c }"

fun run_builder :: "dialect \<Rightarrow> cmd \<Rightarrow> core \<Rightarrow> core option"
  and run_builders :: "dialect \<Rightarrow> cmd list \<Rightarrow> core \<Rightarrow> core option" where
  "run_builder D (CVal f v) c = push_val core_events D f v c"
| "run_builder D (CPacked f v) c = push_packed core_events D f v c"
| "run_builder D (CLen f bs) c = push_len D f bs c"
| "run_builder D (CLenCopy f bs) c = push_len_copy D f bs c"
| "run_builder D (CString f bs) c = push_string D f bs c"
| "run_builder D (CStringCopy f bs) c = push_string_copy D f bs c"
| "run_builder D (CRecord bs) c = push_record bs c"
| "run_builder D (CRecordCopy bs) c = push_record_copy bs c"
| "run_builder D (CRaw bs) c = raw_bytes bs c"
| "run_builder D (CRawCopy bs) c = raw_bytes_copy bs c"
| "run_builder D (CRawVarint v) c = raw_varint core_events v c"
| "run_builder D (CRawI32 v) c = raw_i32 core_events v c"
| "run_builder D (CRawI64 v) c = raw_i64 core_events v c"
| "run_builder D (CMessage f body) c = message core_events D f (run_builders D body) c"
| "run_builder D (CBytes f chunks) c = bytes_frame core_events D f (run_chunks chunks) c"
| "run_builder D (CGroup f body) c = group_face core_events f (run_builders D body) c"
| "run_builders D [] c = Some c"
| "run_builders D (x # xs) c = do { c \<leftarrow> run_builder D x c; run_builders D xs c }"

text \<open>The copying builder has one face where the other has a pair.\<close>

fun run_copy :: "dialect \<Rightarrow> cmd \<Rightarrow> copy_core \<Rightarrow> copy_core option"
  and run_copies :: "dialect \<Rightarrow> cmd list \<Rightarrow> copy_core \<Rightarrow> copy_core option" where
  "run_copy D (CVal f v) c = push_val copy_events D f v c"
| "run_copy D (CPacked f v) c = push_packed copy_events D f v c"
| "run_copy D (CLen f bs) c = copy_push_len D f bs c"
| "run_copy D (CLenCopy f bs) c = copy_push_len D f bs c"
| "run_copy D (CString f bs) c = copy_push_string D f bs c"
| "run_copy D (CStringCopy f bs) c = copy_push_string D f bs c"
| "run_copy D (CRecord bs) c = copy_push_record bs c"
| "run_copy D (CRecordCopy bs) c = copy_push_record bs c"
| "run_copy D (CRaw bs) c = copy_raw_bytes bs c"
| "run_copy D (CRawCopy bs) c = copy_raw_bytes bs c"
| "run_copy D (CRawVarint v) c = raw_varint copy_events v c"
| "run_copy D (CRawI32 v) c = raw_i32 copy_events v c"
| "run_copy D (CRawI64 v) c = raw_i64 copy_events v c"
| "run_copy D (CMessage f body) c = message copy_events D f (run_copies D body) c"
| "run_copy D (CBytes f chunks) c = bytes_frame copy_events D f (run_copy_chunks chunks) c"
| "run_copy D (CGroup f body) c = group_face copy_events f (run_copies D body) c"
| "run_copies D [] c = Some c"
| "run_copies D (x # xs) c = do { c \<leftarrow> run_copy D x c; run_copies D xs c }"

section \<open>What a program describes\<close>

fun val_payload :: "scalar_val \<Rightarrow> payload" where
  "val_payload (VVarint v) = PVarint v (encoded_len64 v)"
| "val_payload (VI32 v) = PI32 v"
| "val_payload (VI64 v) = PI64 v"
| "val_payload (VInt32 v) = PVarint (scast v) (encoded_len64 (scast v))"
| "val_payload (VInt64 v) = PVarint v (encoded_len64 v)"
| "val_payload (VSint32 v) = PVarint (encode_sint32 v) (encoded_len64 (encode_sint32 v))"
| "val_payload (VSint64 v) = PVarint (zigzag64 v) (encoded_len64 (zigzag64 v))"
| "val_payload (VBool v) = PVarint (of_bool v) 1"
| "val_payload (VEnum v) = PVarint (scast v) (encoded_len64 (scast v))"
| "val_payload (VSfixed32 v) = PI32 v"
| "val_payload (VFloat v) = PI32 v"
| "val_payload (VSfixed64 v) = PI64 v"
| "val_payload (VDouble v) = PI64 v"

fun packed_body :: "packed_val \<Rightarrow> bytes" where
  "packed_body (KUint32 xs) = concat (map (\<lambda>x. spell64 (ucast x)) xs)"
| "packed_body (KUint64 xs) = concat (map spell64 xs)"
| "packed_body (KInt32 xs) = concat (map (\<lambda>x. spell64 (scast x)) xs)"
| "packed_body (KInt64 xs) = concat (map spell64 xs)"
| "packed_body (KSint32 xs) = concat (map (\<lambda>x. spell64 (encode_sint32 x)) xs)"
| "packed_body (KSint64 xs) = concat (map (\<lambda>x. spell64 (zigzag64 x)) xs)"
| "packed_body (KBool xs) = concat (map (\<lambda>x. spell64 (of_bool x)) xs)"
| "packed_body (KEnum xs) = concat (map (\<lambda>x. spell64 (scast x)) xs)"
| "packed_body (KFixed32 xs) = concat (map (\<lambda>x. le_bytes 4 (unat x)) xs)"
| "packed_body (KSfixed32 xs) = concat (map (\<lambda>x. le_bytes 4 (unat x)) xs)"
| "packed_body (KFloat xs) = concat (map (\<lambda>x. le_bytes 4 (unat x)) xs)"
| "packed_body (KFixed64 xs) = concat (map (\<lambda>x. le_bytes 8 (unat x)) xs)"
| "packed_body (KSfixed64 xs) = concat (map (\<lambda>x. le_bytes 8 (unat x)) xs)"
| "packed_body (KDouble xs) = concat (map (\<lambda>x. le_bytes 8 (unat x)) xs)"

definition spell_record :: "field_number \<Rightarrow> payload \<Rightarrow> bytes" where
  "spell_record f p = spell_head (tag_of f p) @ emit_payload p"

definition framed :: "field_number \<Rightarrow> bytes \<Rightarrow> bytes" where
  "framed f body = spell_head (wire_tag_word f 2) @ spell_len (length body) @ body"

fun spell :: "cmd \<Rightarrow> bytes"
  and spells :: "cmd list \<Rightarrow> bytes" where
  "spell (CVal f v) = spell_record f (val_payload v)"
| "spell (CPacked f v) = framed f (packed_body v)"
| "spell (CLen f bs) = framed f bs"
| "spell (CLenCopy f bs) = framed f bs"
| "spell (CString f bs) = framed f bs"
| "spell (CStringCopy f bs) = framed f bs"
| "spell (CRecord bs) = bs"
| "spell (CRecordCopy bs) = bs"
| "spell (CRaw bs) = bs"
| "spell (CRawCopy bs) = bs"
| "spell (CRawVarint v) = spell64 v"
| "spell (CRawI32 v) = le_bytes 4 (unat v)"
| "spell (CRawI64 v) = le_bytes 8 (unat v)"
| "spell (CMessage f body) = framed f (spells body)"
| "spell (CBytes f chunks) = framed f (concat (map snd chunks))"
| "spell (CGroup f body) = spell_record f PEnter @ spells body @ spell_record f PExit"
| "spells [] = []"
| "spells (x # xs) = spell x @ spells xs"

text \<open>A program of the dialect: its groups exist, and its slices are slices (of at most \<open>isize::MAX\<close> bytes).\<close>

fun packed_fits :: "packed_val \<Rightarrow> bool" where
  "packed_fits (KUint32 xs) \<longleftrightarrow> 4 * length xs \<le> SLICE_MAX"
| "packed_fits (KUint64 xs) \<longleftrightarrow> 8 * length xs \<le> SLICE_MAX"
| "packed_fits (KInt32 xs) \<longleftrightarrow> 4 * length xs \<le> SLICE_MAX"
| "packed_fits (KInt64 xs) \<longleftrightarrow> 8 * length xs \<le> SLICE_MAX"
| "packed_fits (KSint32 xs) \<longleftrightarrow> 4 * length xs \<le> SLICE_MAX"
| "packed_fits (KSint64 xs) \<longleftrightarrow> 8 * length xs \<le> SLICE_MAX"
| "packed_fits (KBool xs) \<longleftrightarrow> length xs \<le> SLICE_MAX"
| "packed_fits (KEnum xs) \<longleftrightarrow> 4 * length xs \<le> SLICE_MAX"
| "packed_fits (KFixed32 xs) \<longleftrightarrow> 4 * length xs \<le> SLICE_MAX"
| "packed_fits (KSfixed32 xs) \<longleftrightarrow> 4 * length xs \<le> SLICE_MAX"
| "packed_fits (KFloat xs) \<longleftrightarrow> 4 * length xs \<le> SLICE_MAX"
| "packed_fits (KFixed64 xs) \<longleftrightarrow> 8 * length xs \<le> SLICE_MAX"
| "packed_fits (KSfixed64 xs) \<longleftrightarrow> 8 * length xs \<le> SLICE_MAX"
| "packed_fits (KDouble xs) \<longleftrightarrow> 8 * length xs \<le> SLICE_MAX"

fun cmd_fits :: "bool \<Rightarrow> cmd \<Rightarrow> bool"
  and cmds_fit :: "bool \<Rightarrow> cmd list \<Rightarrow> bool" where
  "cmd_fits g (CVal f v) \<longleftrightarrow> True"
| "cmd_fits g (CPacked f v) \<longleftrightarrow> packed_fits v"
| "cmd_fits g (CLen f bs) \<longleftrightarrow> length bs \<le> SLICE_MAX"
| "cmd_fits g (CLenCopy f bs) \<longleftrightarrow> length bs \<le> SLICE_MAX"
| "cmd_fits g (CString f bs) \<longleftrightarrow> length bs \<le> SLICE_MAX"
| "cmd_fits g (CStringCopy f bs) \<longleftrightarrow> length bs \<le> SLICE_MAX"
| "cmd_fits g (CRecord bs) \<longleftrightarrow> length bs \<le> SLICE_MAX"
| "cmd_fits g (CRecordCopy bs) \<longleftrightarrow> length bs \<le> SLICE_MAX"
| "cmd_fits g (CRaw bs) \<longleftrightarrow> length bs \<le> SLICE_MAX"
| "cmd_fits g (CRawCopy bs) \<longleftrightarrow> length bs \<le> SLICE_MAX"
| "cmd_fits g (CRawVarint v) \<longleftrightarrow> True"
| "cmd_fits g (CRawI32 v) \<longleftrightarrow> True"
| "cmd_fits g (CRawI64 v) \<longleftrightarrow> True"
| "cmd_fits g (CMessage f body) \<longleftrightarrow> cmds_fit g body"
| "cmd_fits g (CBytes f chunks) \<longleftrightarrow> list_all (\<lambda>(b, chunk). length chunk \<le> SLICE_MAX) chunks"
| "cmd_fits g (CGroup f body) \<longleftrightarrow> g \<and> cmds_fit g body"
| "cmds_fit g [] \<longleftrightarrow> True"
| "cmds_fit g (x # xs) \<longleftrightarrow> cmd_fits g x \<and> cmds_fit g xs"

section \<open>Every call acts\<close>

text \<open>The two dialects spell the records they share alike.\<close>

definition of_crate :: "dialect \<Rightarrow> bool" where
  "of_crate D \<longleftrightarrow> D = grouped \<or> D = groupless"

lemma dialect_words:
  "of_crate D \<Longrightarrow> d_varint D f = wire_tag_word f 0" "of_crate D \<Longrightarrow> d_i64 D f = wire_tag_word f 1"
  "of_crate D \<Longrightarrow> d_len D f = wire_tag_word f 2" "of_crate D \<Longrightarrow> d_i32 D f = wire_tag_word f 5"
  by (auto simp: of_crate_def grouped_def groupless_def head_word_gr_def head_word_gl_def)

lemma tag_of_simps [simp]:
  "tag_of f (PVarint v w) = wire_tag_word f 0" "tag_of f (PI64 x) = wire_tag_word f 1" "tag_of f (PI32 y) = wire_tag_word f 5"
  "tag_of f PEnter = wire_tag_word f 3" "tag_of f PExit = wire_tag_word f 4"
  by (simp_all add: tag_of_def)

lemma spell64_bits: "spell64 0 = [0]" "spell64 1 = [1]"
  by code_simp+

definition spell_fixed :: "nat \<Rightarrow> ('t \<Rightarrow> 'a::len word) \<Rightarrow> 't list \<Rightarrow> bytes" where
  "spell_fixed k bits items = concat (map (\<lambda>i. le_bytes k (unat (bits i))) items)"

lemma packed_body_eq:
  "packed_body (KUint32 xs) = spell_varints ucast xs" "packed_body (KUint64 ys) = spell_varints (\<lambda>y. y) ys"
  "packed_body (KInt32 xs) = spell_varints (\<lambda>x. scast x) xs" "packed_body (KInt64 ys) = spell_varints (\<lambda>y. y) ys"
  "packed_body (KSint32 xs) = spell_varints encode_sint32 xs" "packed_body (KSint64 ys) = spell_varints zigzag64 ys"
  "packed_body (KBool bs) = spell_varints of_bool bs" "packed_body (KEnum xs) = spell_varints (\<lambda>x. scast x) xs"
  "packed_body (KFixed32 xs) = spell_fixed 4 (\<lambda>x. x) xs" "packed_body (KSfixed32 xs) = spell_fixed 4 (\<lambda>x. x) xs"
  "packed_body (KFloat xs) = spell_fixed 4 (\<lambda>x. x) xs" "packed_body (KFixed64 ys) = spell_fixed 8 (\<lambda>y. y) ys"
  "packed_body (KSfixed64 ys) = spell_fixed 8 (\<lambda>y. y) ys" "packed_body (KDouble ys) = spell_fixed 8 (\<lambda>y. y) ys"
  by (simp_all add: spell_varints_def spell_fixed_def)

lemma encode_ids:
  "encode_int64 = (\<lambda>v. v)" "encode_sint64 = zigzag64" "encode_bool = of_bool" "encode_float = (\<lambda>v. v)" "encode_double = (\<lambda>v. v)"
  by (simp_all add: fun_eq_iff encode_int64_def encode_sint64_def encode_bool_def encode_float_def encode_double_def)

context event_machine
begin

lemma acts_put_varint: "acts (\<lambda>c. put_varint E c head v) (spell_head head @ spell64 v)"
proof -
  have "acts (charged E (spell_head head @ spell64 v)) (spell_head head @ spell64 v)"
    using spell_bounds(4) [of head] spell_bounds(2) [of v] by (intro acts_charged) simp_all
  then show ?thesis by (simp add: put_varint_charged)
qed

lemma acts_put_fixed: "length le \<le> 10 \<Longrightarrow> acts (\<lambda>c. put_fixed E c head le) (spell_head head @ le)"
proof -
  assume l: "length le \<le> 10"
  then have "acts (charged E (spell_head head @ le)) (spell_head head @ le)"
    using spell_bounds(4) [of head] by (intro acts_charged) simp_all
  then show ?thesis using l by (simp add: put_fixed_charged)
qed

lemma acts_put_i32: "acts (\<lambda>c. put_i32 E c head v) (spell_head head @ le_bytes 4 (unat v))"
  unfolding put_i32_def by (rule acts_put_fixed) simp

lemma acts_put_i64: "acts (\<lambda>c. put_i64 E c head w) (spell_head head @ le_bytes 8 (unat w))"
  unfolding put_i64_def by (rule acts_put_fixed) simp

lemma acts_put_len_copy:
  assumes "length payload \<le> SLICE_MAX"
  shows "acts (\<lambda>c. put_len_copy E c head payload) (spell_head head @ spell_len (length payload) @ payload)"
proof -
  let ?bs = "spell_head head @ spell_len (length payload) @ payload"
  have "length ?bs < 2 ^ 64 - 2 ^ 32"
    using spell_bounds(4) [of head] spell_bounds(6) [of "length payload"] assms by (simp add: SLICE_MAX_def)
  then have "acts (charged E ?bs) ?bs" by (intro acts_charged) simp_all
  then show ?thesis by (simp add: put_len_copy_charged [OF assms])
qed

lemma acts_put_raw_bytes_copy:
  assumes "length bs \<le> SLICE_MAX"
  shows "acts (\<lambda>c. put_raw_bytes_copy E c bs) bs"
proof (cases "bs = []")
  case False
  have "acts (charged E bs) bs" using False assms by (intro acts_charged) (simp_all add: SLICE_MAX_def)
  with False show ?thesis by (simp add: put_raw_bytes_copy_charged)
qed (simp add: put_raw_bytes_copy_charged acts_none)

lemma acts_put_raw_varint: "acts (\<lambda>c. put_raw_varint E c v) (spell64 v)"
proof -
  have "acts (charged E (spell64 v)) (spell64 v)" using spell_bounds(2) [of v] by (intro acts_charged) simp_all
  then show ?thesis by (simp add: put_raw_varint_charged)
qed

lemma acts_put_raw_fixed: "0 < length le \<Longrightarrow> length le \<le> 10 \<Longrightarrow> acts (\<lambda>c. put_raw_fixed E c le) le"
proof -
  assume "0 < length le" "length le \<le> 10"
  then have "acts (charged E le) le" by (intro acts_charged) simp_all
  then show ?thesis by (simp add: put_raw_fixed_charged)
qed

lemma acts_put_packed_fixed:
  assumes "\<And>i. length (le i) = k" "k * length items \<le> SLICE_MAX"
  shows "acts (\<lambda>c. put_packed_fixed E c head k items le)
    (spell_head head @ spell_len (length (concat (map le items))) @ concat (map le items))"
proof -
  let ?body = "concat (map le items)"
  let ?bs = "spell_head head @ spell_len (length ?body) @ ?body"
  have "length ?body = k * length items" by (rule length_concat_const) (rule assms(1))
  then have "length ?bs < 2 ^ 64 - 2 ^ 32"
    using spell_bounds(4) [of head] spell_bounds(6) [of "length ?body"] assms(2) by (simp add: SLICE_MAX_def)
  then have "acts (charged E ?bs) ?bs" by (intro acts_charged) simp_all
  then show ?thesis by (simp add: put_packed_fixed_charged [OF assms])
qed

lemma acts_put_packed_fixed32:
  "4 * length items \<le> SLICE_MAX \<Longrightarrow> acts (\<lambda>c. put_packed_fixed32 E c head items bits)
    (spell_head head @ spell_len (length (concat (map (\<lambda>i. le_bytes 4 (unat (bits i))) items))) @
      concat (map (\<lambda>i. le_bytes 4 (unat (bits i))) items))"
  unfolding put_packed_fixed32_def by (rule acts_put_packed_fixed) simp_all

lemma acts_put_packed_fixed64:
  "8 * length items \<le> SLICE_MAX \<Longrightarrow> acts (\<lambda>c. put_packed_fixed64 E c head items bits)
    (spell_head head @ spell_len (length (concat (map (\<lambda>i. le_bytes 8 (unat (bits i))) items))) @
      concat (map (\<lambda>i. le_bytes 8 (unat (bits i))) items))"
  unfolding put_packed_fixed64_def by (rule acts_put_packed_fixed) simp_all

lemma acts_framed_varints:
  "length items \<le> SLICE_MAX \<Longrightarrow>
   acts (\<lambda>c. put_packed_varints E c (wire_tag_word f 2) items word) (framed f (spell_varints word items))"
  unfolding framed_def by (rule acts_packed_varints)

lemma acts_framed_fixed32:
  "4 * length items \<le> SLICE_MAX \<Longrightarrow>
   acts (\<lambda>c. put_packed_fixed32 E c (wire_tag_word f 2) items bits) (framed f (spell_fixed 4 bits items))"
  unfolding framed_def spell_fixed_def by (rule acts_put_packed_fixed32)

lemma acts_framed_fixed64:
  "8 * length items \<le> SLICE_MAX \<Longrightarrow>
   acts (\<lambda>c. put_packed_fixed64 E c (wire_tag_word f 2) items bits) (framed f (spell_fixed 8 bits items))"
  unfolding framed_def spell_fixed_def by (rule acts_put_packed_fixed64)

lemma acts_push_val:
  assumes "of_crate D"
  shows "acts (\<lambda>c. push_val E D f v c) (spell_record f (val_payload v))"
proof -
  note push = push_varint_def push_i32_def push_i64_def push_int32_def push_int64_def push_sint32_def push_sint64_def
    push_bool_def push_enum_def push_sfixed32_def push_float_def push_sfixed64_def push_double_def
  show ?thesis
    using acts_put_varint [of "wire_tag_word f 0" 0, unfolded spell64_bits] acts_put_varint [of "wire_tag_word f 0" 1, unfolded spell64_bits]
      acts_put_varint [of "wire_tag_word f 0"] acts_put_i32 [of "wire_tag_word f 5"] acts_put_i64 [of "wire_tag_word f 1"]
    by (cases v) (simp_all add: push encode_ids dialect_words [OF assms] spell_record_def flip: spell64_def)
qed

lemma acts_push_packed:
  assumes D: "of_crate D" and fits: "packed_fits v"
  shows "acts (\<lambda>c. push_packed E D f v c) (framed f (packed_body v))"
proof -
  note push = push_packed_uint32_def push_packed_uint64_def push_packed_int32_def push_packed_int64_def push_packed_sint32_def
    push_packed_sint64_def push_packed_bool_def push_packed_enum_def push_packed_fixed32_def push_packed_sfixed32_def
    push_packed_float_def push_packed_fixed64_def push_packed_sfixed64_def push_packed_double_def
  show ?thesis
    using fits by (cases v) (simp_all add: push encode_ids dialect_words [OF D] packed_body_eq
        acts_framed_varints acts_framed_fixed32 acts_framed_fixed64 del: packed_body.simps)
qed

end

text \<open>The two words of a group differ in their last bits only, so they are as wide.\<close>

lemma group_words: "length (spell_head (wire_tag_word f 4)) = length (spell_head (wire_tag_word f 3))"
proof -
  let ?a = "ucast (wire_tag_word f 3) :: u64" and ?b = "ucast (wire_tag_word f 4) :: u64"
  have u: "unat ?a = 8 * unat f + 3" "unat ?b = 8 * unat f + 4" by (simp_all add: unat_wire_tag_word)
  have "unat ?a < 128 ^ w \<longleftrightarrow> unat ?b < 128 ^ w" if "0 < w" for w :: nat
  proof -
    from that obtain k where "w = Suc k" by (cases w) auto
    then have "(128::nat) ^ w = 8 * (16 * 128 ^ k)" by simp
    moreover have "8 * a + 3 < 8 * m \<longleftrightarrow> 8 * a + 4 < 8 * m" for a m :: nat by presburger
    ultimately show ?thesis by (simp only: u)
  qed
  then have e: "encoded_len64 ?a \<le> w \<longleftrightarrow> encoded_len64 ?b \<le> w" if "0 < w" for w
    using encoded_len64_least [of w ?a] encoded_len64_least [of w ?b] that by (simp only:)
  have "0 < encoded_len64 ?a" "0 < encoded_len64 ?b" using encoded_len64_pos [of ?a] encoded_len64_pos [of ?b] by linarith+
  then have "encoded_len64 ?b = encoded_len64 ?a"
    using e [of "encoded_len64 ?a"] e [of "encoded_len64 ?b"] by (intro le_antisym) (simp_all only: order_refl simp_thms)
  then show ?thesis by (simp add: spell_head_def)
qed

lemma group_widths: "length (spell_head (group_end_word f)) = length (spell_head (head_word_gr f GrGroup))"
  by (simp add: group_end_word_def head_word_gr_def group_words)

lemma acts_run_chunks:
  "list_all (\<lambda>(b, chunk). length chunk \<le> SLICE_MAX) chunks \<Longrightarrow> mixed.acts (run_chunks chunks) (concat (map snd chunks))"
proof (induction chunks)
  case Nil
  show ?case using mixed.acts_none by simp
next
  case (Cons x chunks)
  obtain b bs where x: "x = (b, bs)" by (cases x)
  have "mixed.acts (\<lambda>c. if b then bytes_write_borrowed bs c else bytes_write bs c) bs"
    using Cons.prems acts_put_raw_bytes [of bs] mixed.acts_put_raw_bytes_copy [of bs]
    by (cases b) (simp_all add: x bytes_write_borrowed_def bytes_write_def)
  from mixed.acts_seq [OF this Cons.IH] Cons.prems show ?case by (simp add: x)
qed

lemma acts_run_copy_chunks:
  "list_all (\<lambda>(b, chunk). length chunk \<le> SLICE_MAX) chunks \<Longrightarrow> copied.acts (run_copy_chunks chunks) (concat (map snd chunks))"
proof (induction chunks)
  case Nil
  show ?case using copied.acts_none by simp
next
  case (Cons x chunks)
  obtain b bs where x: "x = (b, bs)" by (cases x)
  have "copied.acts (copy_bytes_write bs) bs"
    using Cons.prems copied.acts_put_raw_bytes_copy [of bs] by (simp add: x copy_bytes_write_def [abs_def])
  from copied.acts_seq [OF this Cons.IH] Cons.prems show ?case by (simp add: x)
qed

lemmas record_faces = push_record_def push_record_copy_def raw_bytes_def raw_bytes_copy_def copy_push_record_def copy_raw_bytes_def
  push_string_def push_string_copy_def push_len_def push_len_copy_def copy_push_string_def copy_push_len_def
  raw_varint_def raw_i32_def raw_i64_def put_raw_i32_def put_raw_i64_def

lemmas mixed_frames = acts_put_len [where head = "wire_tag_word f 2", folded framed_def]
  mixed.acts_put_len_copy [where head = "wire_tag_word f 2", folded framed_def] for f

lemmas copied_frames = copied.acts_put_len_copy [where head = "wire_tag_word f 2", folded framed_def] for f

lemma run_builder_calls:
  "run_builder D (CVal f v) = (\<lambda>c. push_val core_events D f v c)"
  "run_builder D (CPacked f k) = (\<lambda>c. push_packed core_events D f k c)"
  "run_builder D (CLen f bs) = (\<lambda>c. put_len c (d_len D f) bs)"
  "run_builder D (CLenCopy f bs) = (\<lambda>c. put_len_copy core_events c (d_len D f) bs)"
  "run_builder D (CString f bs) = (\<lambda>c. put_len c (d_len D f) bs)"
  "run_builder D (CStringCopy f bs) = (\<lambda>c. put_len_copy core_events c (d_len D f) bs)"
  "run_builder D (CRecord bs) = (\<lambda>c. put_raw_bytes c bs)"
  "run_builder D (CRecordCopy bs) = (\<lambda>c. put_raw_bytes_copy core_events c bs)"
  "run_builder D (CRaw bs) = (\<lambda>c. put_raw_bytes c bs)"
  "run_builder D (CRawCopy bs) = (\<lambda>c. put_raw_bytes_copy core_events c bs)"
  "run_builder D (CRawVarint w) = (\<lambda>c. put_raw_varint core_events c w)"
  "run_builder D (CRawI32 x) = (\<lambda>c. put_raw_fixed core_events c (le_bytes 4 (unat x)))"
  "run_builder D (CRawI64 w) = (\<lambda>c. put_raw_fixed core_events c (le_bytes 8 (unat w)))"
  "run_builders D [] = Some"
  by (rule ext; simp add: record_faces)+

lemma run_copy_calls:
  "run_copy D (CVal f v) = (\<lambda>c. push_val copy_events D f v c)"
  "run_copy D (CPacked f k) = (\<lambda>c. push_packed copy_events D f k c)"
  "run_copy D (CLen f bs) = (\<lambda>c. put_len_copy copy_events c (d_len D f) bs)"
  "run_copy D (CLenCopy f bs) = (\<lambda>c. put_len_copy copy_events c (d_len D f) bs)"
  "run_copy D (CString f bs) = (\<lambda>c. put_len_copy copy_events c (d_len D f) bs)"
  "run_copy D (CStringCopy f bs) = (\<lambda>c. put_len_copy copy_events c (d_len D f) bs)"
  "run_copy D (CRecord bs) = (\<lambda>c. put_raw_bytes_copy copy_events c bs)"
  "run_copy D (CRecordCopy bs) = (\<lambda>c. put_raw_bytes_copy copy_events c bs)"
  "run_copy D (CRaw bs) = (\<lambda>c. put_raw_bytes_copy copy_events c bs)"
  "run_copy D (CRawCopy bs) = (\<lambda>c. put_raw_bytes_copy copy_events c bs)"
  "run_copy D (CRawVarint w) = (\<lambda>c. put_raw_varint copy_events c w)"
  "run_copy D (CRawI32 x) = (\<lambda>c. put_raw_fixed copy_events c (le_bytes 4 (unat x)))"
  "run_copy D (CRawI64 w) = (\<lambda>c. put_raw_fixed copy_events c (le_bytes 8 (unat w)))"
  "run_copies D [] = Some"
  by (rule ext; simp add: record_faces)+

lemma acts_run_builder:
  assumes D: "of_crate D"
  shows "cmd_fits g x \<Longrightarrow> mixed.acts (run_builder D x) (spell x)"
    and "cmds_fit g xs \<Longrightarrow> mixed.acts (run_builders D xs) (spells xs)"
proof (induction g x and g xs rule: cmd_fits_cmds_fit.induct)
  case (14 g f body)
  then have "mixed.acts (run_builders D body) (spells body)" by simp
  from mixed.acts_len_frame [OF this, of "d_len D f"] show ?case by (simp add: message_def [abs_def] framed_def dialect_words [OF D])
next
  case (15 g f chunks)
  then have "mixed.acts (run_chunks chunks) (concat (map snd chunks))" using acts_run_chunks by simp
  from mixed.acts_len_frame [OF this, of "d_len D f"] show ?case
    by (simp add: bytes_frame_def [abs_def] framed_def dialect_words [OF D])
next
  case (16 g f body)
  then have "mixed.acts (run_builders D body) (spells body)" by (cases g) simp_all
  from mixed.acts_group_frame [OF this group_widths, of f] show ?case
    by (simp add: group_face_def [abs_def] spell_record_def head_word_gr_def group_end_word_def)
next
  case (18 g x xs)
  then show ?case using mixed.acts_seq [of "run_builder D x" "spell x" "run_builders D xs" "spells xs"] by simp
qed (simp_all add: mixed.acts_push_val [OF D] mixed.acts_push_packed [OF D] run_builder_calls dialect_words [OF D]
      mixed_frames acts_put_raw_bytes mixed.acts_put_raw_bytes_copy mixed.acts_put_raw_varint
      mixed.acts_put_raw_fixed mixed.acts_none)

lemma acts_run_copy:
  assumes D: "of_crate D"
  shows "cmd_fits g x \<Longrightarrow> copied.acts (run_copy D x) (spell x)"
    and "cmds_fit g xs \<Longrightarrow> copied.acts (run_copies D xs) (spells xs)"
proof (induction g x and g xs rule: cmd_fits_cmds_fit.induct)
  case (14 g f body)
  then have "copied.acts (run_copies D body) (spells body)" by simp
  from copied.acts_len_frame [OF this, of "d_len D f"] show ?case by (simp add: message_def [abs_def] framed_def dialect_words [OF D])
next
  case (15 g f chunks)
  then have "copied.acts (run_copy_chunks chunks) (concat (map snd chunks))" using acts_run_copy_chunks by simp
  from copied.acts_len_frame [OF this, of "d_len D f"] show ?case
    by (simp add: bytes_frame_def [abs_def] framed_def dialect_words [OF D])
next
  case (16 g f body)
  then have "copied.acts (run_copies D body) (spells body)" by (cases g) simp_all
  from copied.acts_group_frame [OF this group_widths, of f] show ?case
    by (simp add: group_face_def [abs_def] spell_record_def head_word_gr_def group_end_word_def)
next
  case (18 g x xs)
  then show ?case using copied.acts_seq [of "run_copy D x" "spell x" "run_copies D xs" "spells xs"] by simp
qed (simp_all add: copied.acts_push_val [OF D] copied.acts_push_packed [OF D] run_copy_calls dialect_words [OF D]
      copied_frames copied.acts_put_raw_bytes_copy copied.acts_put_raw_varint copied.acts_put_raw_fixed copied.acts_none)

end
