(* ===== verification/Construct_Built.thy ===== *)
theory Construct_Built
  imports Construct_Client Cursor_Grouped Cursor_Groupless
begin

text \<open>
  What the builders answer (\<open>src/src/construct.rs\<close> and its two dialects): every program on them returns, and
  finishing it gives exactly the document the program describes if that fits the format, and the over-cap
  error otherwise; the two cores agree; the sized and the fragmented finish agree with the plain one; and what
  the record faces write, the canonical cursors read back record by record.
\<close>

section \<open>Finishing a sound core\<close>

lemma mixed_emits:
  assumes "mixed.sound c" "co_over c = None" "co_stack c = []" "co_total c = length (mixed.laid c)"
  shows "core_emit_into c out = Some (Inr (out @ mixed.laid c))"
    "core_emit_sink c sink s = Some (Inr (foldl sink s (frags (mixed.pieces c) (co_owned c))))"
  using assms core_emit_eq [of c "co_events c" 0 "co_owned c"] core_sink_eq [of c "co_events c" 0 "co_owned c" sink s]
  by (simp_all add: core_emit_into_def emit_into_def core_emit_sink_def emit_sink_def mixed.sound_def mixed.laid_def mixed.pieces_def)

lemma copied_emits:
  assumes "copied.sound c" "co_over c = None" "co_stack c = []" "co_total c = length (copied.laid c)"
  shows "copy_emit_into c out = Some (Inr (out @ copied.laid c))"
    "copy_emit_sink c sink s = Some (Inr (foldl sink s (frags (copied.pieces c) (co_owned c))))"
  using assms copy_emit_eq [of c "co_events c" 0 "co_owned c"] copy_sink_eq [of c "co_events c" 0 "co_owned c" sink s]
  by (simp_all add: copy_emit_into_def emit_into_def copy_emit_sink_def emit_sink_def copied.sound_def copied.laid_def copied.pieces_def)

lemma core_new_sound: "mixed.sound core_new" "mixed.laid core_new = []" "co_over core_new = None" "co_stack core_new = []" "co_total core_new = 0"
  by (simp_all add: core_new_def mixed.sound_def mixed.laid_def mixed.pieces_def core_slices_def)

lemma copy_new_sound: "copied.sound copy_new" "copied.laid copy_new = []" "co_over copy_new = None" "co_stack copy_new = []" "co_total copy_new = 0"
  by (simp_all add: copy_new_def copied.sound_def copied.laid_def copied.pieces_def copy_slices_def)

lemma built_within:
  assumes "of_crate D" "cmds_fit (d_groups D) cs" "length (spells cs) \<le> CAP"
  obtains b where "run_builders D cs core_new = Some b" "mixed.sound b" "co_over b = None" "co_stack b = []"
    "co_total b = length (spells cs)" "mixed.laid b = spells cs"
proof -
  have f: "co_total core_new + length (spells cs) \<le> CAP" using assms(3) by (simp add: core_new_sound)
  from mixed.acts_fits [OF acts_run_builder(2) [OF assms(1,2)] core_new_sound(3,1) f] obtain b where
    "run_builders D cs core_new = Some b" "co_stack b = co_stack core_new" "co_over b = None" "mixed.sound b"
    "co_total b = co_total core_new + length (spells cs)" "mixed.lays core_new b (spells cs)" .
  then show ?thesis by (intro that [of b]) (simp_all add: core_new_sound mixed.lays_def)
qed

lemma built_beyond:
  assumes "of_crate D" "cmds_fit (d_groups D) cs" "CAP < length (spells cs)"
  obtains b over where "run_builders D cs core_new = Some b" "co_over b = Some over" "co_stack b = []"
    "CAP < oc_len over" "oc_len over \<le> length (spells cs)"
proof -
  have f: "CAP < co_total core_new + length (spells cs)" using assms(3) by (simp add: core_new_sound)
  from mixed.acts_over [OF acts_run_builder(2) [OF assms(1,2)] core_new_sound(3,1) f] obtain b over where
    "run_builders D cs core_new = Some b" "co_stack b = co_stack core_new" "co_over b = Some over" "CAP < oc_len over"
    "oc_len over \<le> co_total core_new + length (spells cs)" .
  then show ?thesis by (intro that [of b over]) (simp_all add: core_new_sound)
qed

lemma copied_within:
  assumes "of_crate D" "cmds_fit (d_groups D) cs" "length (spells cs) \<le> CAP"
  obtains b where "run_copies D cs copy_new = Some b" "copied.sound b" "co_over b = None" "co_stack b = []"
    "co_total b = length (spells cs)" "copied.laid b = spells cs"
proof -
  have f: "co_total copy_new + length (spells cs) \<le> CAP" using assms(3) by (simp add: copy_new_sound)
  from copied.acts_fits [OF acts_run_copy(2) [OF assms(1,2)] copy_new_sound(3,1) f] obtain b where
    "run_copies D cs copy_new = Some b" "co_stack b = co_stack copy_new" "co_over b = None" "copied.sound b"
    "co_total b = co_total copy_new + length (spells cs)" "copied.lays copy_new b (spells cs)" .
  then show ?thesis by (intro that [of b]) (simp_all add: copy_new_sound copied.lays_def)
qed

lemma copied_beyond:
  assumes "of_crate D" "cmds_fit (d_groups D) cs" "CAP < length (spells cs)"
  obtains b over where "run_copies D cs copy_new = Some b" "co_over b = Some over" "co_stack b = []"
    "CAP < oc_len over" "oc_len over \<le> length (spells cs)"
proof -
  have f: "CAP < co_total copy_new + length (spells cs)" using assms(3) by (simp add: copy_new_sound)
  from copied.acts_over [OF acts_run_copy(2) [OF assms(1,2)] copy_new_sound(3,1) f] obtain b over where
    "run_copies D cs copy_new = Some b" "co_stack b = co_stack copy_new" "co_over b = Some over" "CAP < oc_len over"
    "oc_len over \<le> co_total copy_new + length (spells cs)" .
  then show ?thesis by (intro that [of b over]) (simp_all add: copy_new_sound)
qed

lemma finished_within:
  assumes "of_crate D" "cmds_fit (d_groups D) cs" "length (spells cs) \<le> CAP"
  obtains b where "run_builders D cs core_new = Some b" "\<forall>out. builder_finish_into b out = Some (Inr (out @ spells cs))"
    "builder_finish b = Some (Inr (spells cs))" "planned_len b = Some (Inr (length (spells cs)))"
    "concat (frags (mixed.pieces b) (co_owned b)) = spells cs" "mixed.sound b" "co_over b = None" "co_stack b = []"
    "co_total b = length (mixed.laid b)"
proof -
  from built_within [OF assms] obtain b where b: "run_builders D cs core_new = Some b" "mixed.sound b" "co_over b = None"
    "co_stack b = []" "co_total b = length (spells cs)" "mixed.laid b = spells cs" .
  then have e: "co_total b = length (mixed.laid b)" by simp
  have "concat (frags (mixed.pieces b) (co_owned b)) = spells cs" using b(6) by (simp add: concat_frags mixed.laid_def)
  then show ?thesis
    by (intro that [OF b(1)])
      (use b e mixed_emits(1) [OF b(2-4) e] in \<open>simp_all add: builder_finish_into_def builder_finish_def planned_len_def
        co_poisoned_def co_planned_def\<close>)
qed

lemma finished_doc:
  assumes "of_crate D" "cmds_fit (d_groups D) cs" "length (spells cs) \<le> CAP"
  shows "\<exists>b. run_builders D cs core_new = Some b \<and> (\<forall>out. builder_finish_into b out = Some (Inr (out @ spells cs)))"
  by (rule finished_within [OF assms]) blast

section \<open>The records a program describes\<close>

definition rec_tok :: "field_number \<Rightarrow> payload \<Rightarrow> token" where
  "rec_tok f p = Token f (encoded_len32 (tag_of f p)) p"

definition len_tok :: "field_number \<Rightarrow> bytes \<Rightarrow> token" where
  "len_tok f bs = rec_tok f (PLen bs (encoded_len32 (of_nat (length bs))))"

fun toks :: "cmd \<Rightarrow> token list"
  and tokss :: "cmd list \<Rightarrow> token list" where
  "toks (CVal f v) = [rec_tok f (val_payload v)]"
| "toks (CPacked f v) = [len_tok f (packed_body v)]"
| "toks (CLen f bs) = [len_tok f bs]"
| "toks (CLenCopy f bs) = [len_tok f bs]"
| "toks (CString f bs) = [len_tok f bs]"
| "toks (CStringCopy f bs) = [len_tok f bs]"
| "toks (CMessage f body) = [len_tok f (spells body)]"
| "toks (CBytes f chunks) = [len_tok f (concat (map snd chunks))]"
| "toks (CGroup f body) = rec_tok f PEnter # tokss body @ [rec_tok f PExit]"
| "toks _ = []"
| "tokss [] = []"
| "tokss (x # xs) = toks x @ tokss xs"

text \<open>Only record faces outside length-delimited bodies, on field numbers, within a group depth.\<close>

fun records :: "nat \<Rightarrow> cmd \<Rightarrow> bool"
  and recordss :: "nat \<Rightarrow> cmd list \<Rightarrow> bool" where
  "records d (CVal f v) \<longleftrightarrow> field_ok f"
| "records d (CPacked f v) \<longleftrightarrow> field_ok f"
| "records d (CLen f bs) \<longleftrightarrow> field_ok f"
| "records d (CLenCopy f bs) \<longleftrightarrow> field_ok f"
| "records d (CString f bs) \<longleftrightarrow> field_ok f"
| "records d (CStringCopy f bs) \<longleftrightarrow> field_ok f"
| "records d (CMessage f body) \<longleftrightarrow> field_ok f"
| "records d (CBytes f chunks) \<longleftrightarrow> field_ok f"
| "records d (CGroup f body) \<longleftrightarrow> field_ok f \<and> (case d of 0 \<Rightarrow> False | Suc d \<Rightarrow> recordss d body)"
| "records d _ \<longleftrightarrow> False"
| "recordss d [] \<longleftrightarrow> True"
| "recordss d (x # xs) \<longleftrightarrow> records d x \<and> recordss d xs"

lemma val_payload_ok: "payload_ok (val_payload v)" "payload_minimal (val_payload v)" "\<not> is_group (val_payload v)"
proof -
  have w: "payload_ok (PVarint x (encoded_len64 x))" for x
    using encoded_len64_least [of "encoded_len64 x" x] encoded_len64_pos [of x] encoded_len64_le [of x] by simp
  have "encoded_len64 (of_bool x) = 1" for x
    using arg_cong [OF spell64_bits(1), of length] arg_cong [OF spell64_bits(2), of length] by (cases x) simp_all
  then show "payload_ok (val_payload v)" "payload_minimal (val_payload v)" "\<not> is_group (val_payload v)"
    using w by (cases v; simp)+
qed

lemma length_spell_head: "length (spell_head h) = encoded_len32 h"
  by (simp add: spell_head_def encoded_len32_ucast)

lemma emit_rec_tok: "emit_tok (rec_tok f p) = spell_record f p"
  by (simp add: rec_tok_def spell_record_def spell_head_def spell64_def encoded_len32_ucast)

lemma rec_tok_ok: "field_ok f \<Longrightarrow> payload_ok p \<Longrightarrow> tok_ok (rec_tok f p)"
  using encoded_len32_least [of "encoded_len32 (tag_of f p)" "tag_of f p"] encoded_len32_pos [of "tag_of f p"]
    encoded_len32_le [of "tag_of f p"] by (simp add: rec_tok_def)

lemma rec_tok_minimal: "payload_minimal p \<Longrightarrow> tok_minimal (rec_tok f p)"
  by (simp add: rec_tok_def)

lemma len_tok_lawful:
  assumes "field_ok f" "length bs \<le> CAP"
  shows "emit_tok (len_tok f bs) = framed f bs" "tok_ok (len_tok f bs)" "tok_minimal (len_tok f bs)"
proof -
  note w = mixed.len_word_fits [OF assms(2)]
  have n: "length bs < 2 ^ 31" using assms(2) by (simp add: CAP_eq)
  then have u: "unat (of_nat (length bs) :: payload_len) = length bs" "len_inner (of_nat (length bs)) = of_nat (length bs)"
    by (simp_all add: unat_of_nat_len len_inner_of_nat)
  have l: "encoded_len32 (of_nat (length bs)) = length (spell_len (length bs))" using w(1) u(2) by simp
  have t: "tag_of f (PLen bs k) = wire_tag_word f 2" for k by (simp add: tag_of_def)
  show "emit_tok (len_tok f bs) = framed f bs"
    using w(2) by (simp add: len_tok_def emit_rec_tok spell_record_def framed_def t l u)
  have "payload_ok (PLen bs (encoded_len32 (of_nat (length bs))))"
    using w(3,4) n spell_bounds(5) [of "length bs"] by (simp add: l u)
  with assms(1) show "tok_ok (len_tok f bs)" unfolding len_tok_def by (rule rec_tok_ok)
  show "tok_minimal (len_tok f bs)" by (simp add: len_tok_def rec_tok_minimal)
qed

lemma length_framed: "length bs \<le> length (framed f bs)"
  by (simp add: framed_def)

lemma emit_toks:
  "records d x \<Longrightarrow> length (spell x) \<le> CAP \<Longrightarrow>
     emit (toks x) = spell x \<and> list_all tok_ok (toks x) \<and> list_all tok_minimal (toks x)"
  "recordss d xs \<Longrightarrow> length (spells xs) \<le> CAP \<Longrightarrow>
     emit (tokss xs) = spells xs \<and> list_all tok_ok (tokss xs) \<and> list_all tok_minimal (tokss xs)"
proof (induction d x and d xs rule: records_recordss.induct)
  case (1 d f v)
  then show ?case by (simp add: emit_rec_tok rec_tok_ok rec_tok_minimal val_payload_ok)
next
  case (9 d f body)
  then obtain d' where d: "d = Suc d'" "recordss d' body" "field_ok f" by (cases d) auto
  have "length (spells body) \<le> CAP" using 9 by simp
  with 9(1) [OF d(1,2)] d show ?case by (simp add: emit_rec_tok rec_tok_ok rec_tok_minimal)
qed (use len_tok_lawful order_trans [OF length_framed] in simp_all)

lemma balance_toks:
  "records d x \<Longrightarrow> length opens + d \<le> limit \<Longrightarrow> balance limit opens at (toks x) = Some opens"
  "recordss d xs \<Longrightarrow> length opens + d \<le> limit \<Longrightarrow> balance limit opens at (tokss xs) = Some opens"
proof (induction d x and d xs arbitrary: opens at and opens at rule: records_recordss.induct)
  case (1 d f v)
  then show ?case using val_payload_ok(3) [of v] by (cases "val_payload v") (simp_all add: rec_tok_def opens_after_def)
next
  case (9 d f body)
  then obtain d' where d: "d = Suc d'" "recordss d' body" by (cases d) auto
  with 9(1) [OF d, of "(f, of_nat at) # opens"] 9(3) show ?case
    by (simp add: balance_append opens_after_def rec_tok_def)
qed (simp_all add: len_tok_def rec_tok_def opens_after_def balance_append)

lemma groupless_toks:
  "cmd_fits False x \<Longrightarrow> list_all (\<lambda>t. \<not> is_group (tk_payload t)) (toks x)"
  "cmds_fit False xs \<Longrightarrow> list_all (\<lambda>t. \<not> is_group (tk_payload t)) (tokss xs)"
  by (induction False x and False xs rule: cmd_fits_cmds_fit.induct)
    (simp_all add: rec_tok_def len_tok_def val_payload_ok)

lemma finished_plain:
  assumes "of_crate D" "cmds_fit (d_groups D) cs" "length (spells cs) \<le> CAP"
  shows "\<exists>b. run_builders D cs core_new = Some b \<and> builder_finish b = Some (Inr (spells cs))"
  by (rule finished_within [OF assms]) blast

section \<open>The properties\<close>

text \<open>C6: Every program on the borrowing builder, of either dialect and at any nesting, returns, and its finish
  appends exactly the document the program describes if that is within the cap of the format; otherwise it
  answers over-cap, with a length that is over the cap and no longer than the document.\<close>

theorem builder_finishes:
  assumes "of_crate D" "cmds_fit (d_groups D) cs"
  shows "\<exists>b. run_builders D cs core_new = Some b \<and>
    (if length (spells cs) \<le> CAP then builder_finish_into b out = Some (Inr (out @ spells cs))
     else (\<exists>over. builder_finish_into b out = Some (Inl over) \<and> CAP < oc_len over \<and> oc_len over \<le> length (spells cs)))"
proof (cases "length (spells cs) \<le> CAP")
  case True
  from finished_doc [OF assms True] show ?thesis using True by auto
next
  case False
  then have "CAP < length (spells cs)" by simp
  from built_beyond [OF assms this] obtain b over where "run_builders D cs core_new = Some b" "co_over b = Some over"
    "co_stack b = []" "CAP < oc_len over" "oc_len over \<le> length (spells cs)" .
  with False show ?thesis by (simp add: builder_finish_into_def core_emit_into_def emit_into_def)
qed

text \<open>A program with a message, a borrowed payload and a group.\<close>

definition demo_program :: "cmd list" where
  "demo_program = [CVal 1 (VInt32 150), CMessage 2 [CVal 1 (VBool True), CRaw [7]], CGroup 3 [CLen 4 [65, 66]]]"

lemma demo_program_spells:
  "spells demo_program = [8, 150, 1, 18, 3, 8, 1, 7, 27, 34, 2, 65, 66, 28]"
  by code_simp

lemma demo_program_fits: "cmds_fit (d_groups grouped) demo_program" "of_crate grouped" "length (spells demo_program) \<le> CAP"
  by (simp_all add: demo_program_spells) (simp_all add: demo_program_def grouped_def SLICE_MAX_def of_crate_def CAP_eq)

lemma builder_finishes_witness:
  "\<exists>b. run_builders grouped demo_program core_new = Some b \<and> builder_finish_into b [0] = Some (Inr ([0] @ spells demo_program))"
  using builder_finishes [OF demo_program_fits(2,1), of "[0]"] demo_program_fits(3) by simp

text \<open>C7: The copying builder answers the same document for the same program, on the same condition: sharing
  payloads is invisible in what is built.\<close>

theorem builders_agree:
  assumes "of_crate D" "cmds_fit (d_groups D) cs"
  shows "\<exists>b k. run_builders D cs core_new = Some b \<and> run_copies D cs copy_new = Some k \<and>
    (\<forall>out doc. builder_finish_into b out = Some (Inr doc) \<longleftrightarrow> copy_finish_into k out = Some (Inr doc))"
proof (cases "length (spells cs) \<le> CAP")
  case True
  from finished_doc [OF assms True] obtain b where b: "run_builders D cs core_new = Some b"
    "\<forall>out. builder_finish_into b out = Some (Inr (out @ spells cs))" by blast
  from copied_within [OF assms True] obtain k where k: "run_copies D cs copy_new = Some k" "copied.sound k" "co_over k = None"
    "co_stack k = []" "co_total k = length (spells cs)" "copied.laid k = spells cs" .
  then have "copy_finish_into k out = Some (Inr (out @ spells cs))" for out
    using copied_emits(1) [OF k(2-4)] by (simp add: copy_finish_into_def)
  with b k(1) show ?thesis by simp
next
  case False
  then have over: "CAP < length (spells cs)" by simp
  from built_beyond [OF assms over] obtain b o1 where "run_builders D cs core_new = Some b" "co_over b = Some o1"
    "co_stack b = []" "CAP < oc_len o1" "oc_len o1 \<le> length (spells cs)" .
  moreover from copied_beyond [OF assms over] obtain k o2 where "run_copies D cs copy_new = Some k" "co_over k = Some o2"
    "co_stack k = []" "CAP < oc_len o2" "oc_len o2 \<le> length (spells cs)" .
  ultimately show ?thesis
    by (simp add: builder_finish_into_def core_emit_into_def copy_finish_into_def copy_emit_into_def emit_into_def)
qed

lemma builders_agree_witness:
  "\<exists>b k. run_builders grouped demo_program core_new = Some b \<and> run_copies grouped demo_program copy_new = Some k \<and>
    (\<forall>out doc. builder_finish_into b out = Some (Inr doc) \<longleftrightarrow> copy_finish_into k out = Some (Inr doc))"
  by (rule builders_agree) (rule demo_program_fits)+

text \<open>C10: The planned length is, before anything is emitted, the length of what the finish will write, and the
  poison is the finish's answer.\<close>

theorem planned_is_finished:
  assumes "of_crate D" "cmds_fit (d_groups D) cs" "run_builders D cs core_new = Some b"
  shows "planned_len b = map_option (map_sum id length) (builder_finish b)"
proof (cases "length (spells cs) \<le> CAP")
  case True
  from finished_within [OF assms(1,2) True] obtain b' where b': "run_builders D cs core_new = Some b'"
    "\<forall>out. builder_finish_into b' out = Some (Inr (out @ spells cs))"
    "builder_finish b' = Some (Inr (spells cs))" "planned_len b' = Some (Inr (length (spells cs)))"
    "concat (frags (mixed.pieces b') (co_owned b')) = spells cs"
    "mixed.sound b'" "co_over b' = None" "co_stack b' = []" "co_total b' = length (mixed.laid b')" .
  with assms(3) show ?thesis by simp
next
  case False
  then have "CAP < length (spells cs)" by simp
  from built_beyond [OF assms(1,2) this] obtain b' over where "run_builders D cs core_new = Some b'" "co_over b' = Some over"
    "co_stack b' = []" "CAP < oc_len over" "oc_len over \<le> length (spells cs)" .
  with assms(3) show ?thesis
    by (simp add: planned_len_def co_planned_def co_poisoned_def builder_finish_def core_emit_into_def emit_into_def)
qed

lemma planned_is_finished_witness:
  "\<exists>b. run_builders grouped demo_program core_new = Some b \<and> planned_len b = map_option (map_sum id length) (builder_finish b)"
proof -
  from finished_doc [OF demo_program_fits(2,1,3)] obtain b where "run_builders grouped demo_program core_new = Some b" by blast
  with planned_is_finished [OF demo_program_fits(2,1)] show ?thesis by simp
qed

text \<open>C11: The fragmented finish hands a sink fragments that are, one after another, the document the plain finish
  writes, whatever the sink does with them; and it is refused when the plain one is.\<close>

theorem sink_is_finish:
  assumes "of_crate D" "cmds_fit (d_groups D) cs" "run_builders D cs core_new = Some b"
  shows "(\<exists>over. builder_finish b = Some (Inl over) \<and> (\<forall>sink (s :: 's). builder_finish_sink b sink s = Some (Inl over))) \<or>
    (\<exists>fragments. builder_finish b = Some (Inr (concat fragments)) \<and>
      (\<forall>sink (s :: 's). builder_finish_sink b sink s = Some (Inr (foldl sink s fragments))))"
proof (cases "length (spells cs) \<le> CAP")
  case True
  from finished_within [OF assms(1,2) True] obtain b' where b0: "run_builders D cs core_new = Some b'"
    "\<forall>out. builder_finish_into b' out = Some (Inr (out @ spells cs))"
    "builder_finish b' = Some (Inr (spells cs))" "planned_len b' = Some (Inr (length (spells cs)))"
    "concat (frags (mixed.pieces b') (co_owned b')) = spells cs"
    "mixed.sound b'" "co_over b' = None" "co_stack b' = []" "co_total b' = length (mixed.laid b')" .
  note b' = b0(1,3,5-9)
  with assms(3) have b: "b' = b" by simp
  have "builder_finish_sink b sink s = Some (Inr (foldl sink s (frags (mixed.pieces b) (co_owned b))))" for sink and s :: 's
    using mixed_emits(2) [OF b'(4-7)] by (simp add: b builder_finish_sink_def)
  with b'(2,3) b show ?thesis by (intro disjI2 exI [of _ "frags (mixed.pieces b) (co_owned b)"]) simp
next
  case False
  then have "CAP < length (spells cs)" by simp
  from built_beyond [OF assms(1,2) this] obtain b' over where "run_builders D cs core_new = Some b'" "co_over b' = Some over"
    "co_stack b' = []" "CAP < oc_len over" "oc_len over \<le> length (spells cs)" .
  with assms(3) show ?thesis
    by (intro disjI1 exI [of _ over]) (simp add: builder_finish_def core_emit_into_def emit_into_def builder_finish_sink_def
        core_emit_sink_def emit_sink_def)
qed

lemma sink_is_finish_witness:
  "\<exists>b. run_builders grouped demo_program core_new = Some b \<and>
    ((\<exists>over. builder_finish b = Some (Inl over) \<and> (\<forall>sink s. builder_finish_sink b sink (s :: bytes) = Some (Inl over))) \<or>
     (\<exists>fragments. builder_finish b = Some (Inr (concat fragments)) \<and>
       (\<forall>sink s. builder_finish_sink b sink (s :: bytes) = Some (Inr (foldl sink s fragments)))))"
proof -
  from finished_doc [OF demo_program_fits(2,1,3)] obtain b where b: "run_builders grouped demo_program core_new = Some b" by blast
  from conjI [OF b sink_is_finish [OF demo_program_fits(2,1) b]] show ?thesis by (rule exI)
qed

lemma finished_only:
  assumes "of_crate D" "cmds_fit (d_groups D) cs" "run_builders D cs core_new = Some b" "builder_finish b = Some (Inr doc)"
  shows "doc = spells cs \<and> length (spells cs) \<le> CAP"
proof (cases "length (spells cs) \<le> CAP")
  case True
  from finished_plain [OF assms(1,2) True] assms(3,4) True show ?thesis by auto
next
  case False
  then have "CAP < length (spells cs)" by simp
  from built_beyond [OF assms(1,2) this] obtain b' over where "run_builders D cs core_new = Some b'" "co_over b' = Some over"
    "co_stack b' = []" "CAP < oc_len over" "oc_len over \<le> length (spells cs)" .
  with assms(3,4) show ?thesis by (simp add: builder_finish_def core_emit_into_def emit_into_def)
qed

text \<open>C8: What the grouped builder's record faces wrote, the canonical grouped cursor reads back: it admits the
  document, walks it to a clean end under any depth limit the program's groups keep to, and delivers exactly
  the records pushed, in order, groups bracketed and nested documents as payloads.\<close>

theorem built_reads_back_gr:
  assumes "cmds_fit True cs" "recordss (unat limit) cs"
    and "run_builders grouped cs core_new = Some b" "builder_finish b = Some (Inr doc)"
  shows "\<exists>c c'. cursor_over_gr doc limit = Inr c \<and>
    walk (step_gr True) c = Some (map entry_of_gr (tokss cs), None, c')"
proof -
  have "of_crate grouped" "cmds_fit (d_groups grouped) cs" using assms(1) by (simp_all add: of_crate_def grouped_def)
  from finished_only [OF this assms(3,4)] have doc: "doc = spells cs" "length (spells cs) \<le> CAP" by simp_all
  let ?c = "\<lparr>cur_data_gr = doc, cur_opens_gr = [], cur_at_gr = 0, cur_limit_gr = limit, cur_geo_gr = 0\<rparr> :: cursor_gr"
  have c: "cursor_over_gr doc limit = Inr ?c" using doc by (simp add: cursor_over_gr_def admission_MAX_eq CAP_eq)
  have t: "emit (tokss cs) = doc" "list_all tok_ok (tokss cs)" "list_all tok_minimal (tokss cs)"
    using emit_toks(2) [OF assms(2) doc(2)] doc(1) by simp_all
  have "balance (unat limit) [] 0 (tokss cs) = Some []" by (rule balance_toks(2) [OF assms(2)]) simp
  with t have "\<exists>c'. walk (step_gr True) ?c = Some (map entry_of_gr (tokss cs), None, c')"
    using fresh_walk_gr [of ?c True "map entry_of_gr (tokss cs)"] by auto
  with c show ?thesis by blast
qed

lemma demo_program_lawful: "cmds_fit True demo_program" "recordss (unat (5 :: 16 word)) demo_program" "recordss 0 (butlast demo_program)"
  "cmds_fit False (butlast demo_program)"
proof -
  have f: "field_ok 1" "field_ok 2" "field_ok 3" "field_ok 4" by code_simp+
  have "unat (5 :: 16 word) = Suc 4" by simp
  with f show "recordss (unat (5 :: 16 word)) demo_program" by (simp only: demo_program_def) simp
  show "recordss 0 (butlast demo_program)" using f by (simp add: demo_program_def)
  show "cmds_fit True demo_program" "cmds_fit False (butlast demo_program)" by (simp_all add: demo_program_def SLICE_MAX_def)
qed

lemma built_reads_back_gr_witness:
  "\<exists>b doc c c'. run_builders grouped demo_program core_new = Some b \<and> builder_finish b = Some (Inr doc) \<and>
    cursor_over_gr doc 5 = Inr c \<and> walk (step_gr True) c = Some (map entry_of_gr (tokss demo_program), None, c')"
proof -
  have d: "of_crate grouped" "cmds_fit (d_groups grouped) demo_program"
    using demo_program_lawful(1) by (simp_all add: of_crate_def grouped_def)
  from finished_plain [OF d demo_program_fits(3)] obtain b where b: "run_builders grouped demo_program core_new = Some b"
    "builder_finish b = Some (Inr (spells demo_program))" by blast
  from built_reads_back_gr [OF demo_program_lawful(1,2) b] obtain c c' where
    r: "cursor_over_gr (spells demo_program) 5 = Inr c" "walk (step_gr True) c = Some (map entry_of_gr (tokss demo_program), None, c')"
    by (elim exE conjE)
  show ?thesis by (intro exI conjI) (rule b r)+
qed

text \<open>C9: The same for the groupless builder and cursor.\<close>

theorem built_reads_back_gl:
  assumes "cmds_fit False cs" "recordss 0 cs"
    and "run_builders groupless cs core_new = Some b" "builder_finish b = Some (Inr doc)"
  shows "\<exists>c c'. cursor_over_gl doc = Inr c \<and>
    walk (step_gl True) c = Some (map entry_of_gl (tokss cs), None, c')"
proof -
  have "of_crate groupless" "cmds_fit (d_groups groupless) cs" using assms(1) by (simp_all add: of_crate_def groupless_def)
  from finished_only [OF this assms(3,4)] have doc: "doc = spells cs" "length (spells cs) \<le> CAP" by simp_all
  let ?c = "\<lparr>cur_data_gl = doc, cur_at_gl = 0, cur_geo_gl = 0\<rparr> :: cursor_gl"
  have c: "cursor_over_gl doc = Inr ?c" using doc by (simp add: cursor_over_gl_def admission_MAX_eq CAP_eq)
  have t: "emit (tokss cs) = doc" "list_all tok_ok (tokss cs)" "list_all tok_minimal (tokss cs)"
    using emit_toks(2) [OF assms(2) doc(2)] doc(1) by simp_all
  with groupless_toks(2) [OF assms(1)] have "\<exists>c'. walk (step_gl True) ?c = Some (map entry_of_gl (tokss cs), None, c')"
    using fresh_walk_gl [of ?c True "map entry_of_gl (tokss cs)"] by auto
  with c show ?thesis by blast
qed

lemma built_reads_back_gl_witness:
  "\<exists>b doc c c'. run_builders groupless (butlast demo_program) core_new = Some b \<and> builder_finish b = Some (Inr doc) \<and>
    cursor_over_gl doc = Inr c \<and> walk (step_gl True) c = Some (map entry_of_gl (tokss (butlast demo_program)), None, c')"
proof -
  have d: "of_crate groupless" "cmds_fit (d_groups groupless) (butlast demo_program)"
    using demo_program_lawful(4) by (simp_all add: of_crate_def groupless_def)
  have "length (spells (butlast demo_program)) \<le> CAP"
    using demo_program_fits(3) by (simp add: demo_program_def)
  from finished_plain [OF d this] obtain b where b: "run_builders groupless (butlast demo_program) core_new = Some b"
    "builder_finish b = Some (Inr (spells (butlast demo_program)))" by blast
  from built_reads_back_gl [OF demo_program_lawful(4,3) b] obtain c c' where
    r: "cursor_over_gl (spells (butlast demo_program)) = Inr c" "walk (step_gl True) c = Some (map entry_of_gl (tokss (butlast demo_program)), None, c')"
    by (elim exE conjE)
  show ?thesis by (intro exI conjI) (rule b r)+
qed

end
