(* ===== verification/Convert_Groupless.thy ===== *)
theory Convert_Groupless
  imports Construct Select Cursor_Grouped
begin

text \<open>
  The groupless-output converter (\<open>src/src/convert/groupless.rs\<close>): a grouped document in, every group
  re-framed as a length-delimited record. The Vec faces emit online: a group opens with its tag and a one-byte hole, and
  its exit settles the prefix, shifting the interior when the prefix is wider. The sink face runs the same
  walk twice, measuring every body first.

  Lengths and offsets are natural numbers with their width's overflow written out; a coordinate of the input
  is a \<open>u32\<close>. A \<open>Vec\<close> used as a stack is a list, newest element first. An operation with a \<open>Result\<close> answers its
  state beside the result, since a fault leaves what was emitted for the front to truncate. \<open>None\<close> is a
  panic or undefined behaviour.
\<close>

section \<open>Vocabulary\<close>

datatype cv_breach = CvVarint | CvTag | CvTruncated | CvGrouping | CvDepth | CvNonMinimal

fun cv_breach_class :: "cv_breach \<Rightarrow> fault_class" where
  "cv_breach_class CvVarint = Grammar"
| "cv_breach_class CvTag = Grammar"
| "cv_breach_class CvTruncated = Grammar"
| "cv_breach_class CvGrouping = Grammar"
| "cv_breach_class CvDepth = Policy"
| "cv_breach_class CvNonMinimal = Policy"

datatype cv_fault_kind = CvWire cv_breach | CvGrowth nat | CvOutput nat | CvOversize

record cv_fault =
  cv_at :: u32
  cv_kind :: cv_fault_kind

record cv_stats =
  cv_converted :: nat

record cv_converter =
  cv_standard :: standard
  cv_limit :: depth_limit

definition cv_new :: "standard \<Rightarrow> depth_limit \<Rightarrow> cv_converter" where
  "cv_new standard limit = \<lparr>cv_standard = standard, cv_limit = limit\<rparr>"

fun cv_breach_of :: "fault_kind_gr \<Rightarrow> cv_breach" where
  "cv_breach_of (FkRead_gr _ _) = CvVarint"
| "cv_breach_of (FkFieldZero_gr _) = CvTag"
| "cv_breach_of (FkUnassigned_gr _ _) = CvTag"
| "cv_breach_of (FkFixedTruncated_gr _) = CvTruncated"
| "cv_breach_of (FkLenOverrun_gr _ _) = CvTruncated"
| "cv_breach_of (FkGroupEndMismatch_gr _ _ _) = CvGrouping"
| "cv_breach_of (FkGroupEndOrphan_gr _) = CvGrouping"
| "cv_breach_of (FkGroupUnclosed_gr _ _) = CvGrouping"
| "cv_breach_of (FkDepthExceeded_gr _ _) = CvDepth"
| "cv_breach_of FkNonMinimalTag_gr = CvNonMinimal"
| "cv_breach_of (FkNonMinimalLen_gr _) = CvNonMinimal"
| "cv_breach_of (FkNonMinimalValue_gr _) = CvNonMinimal"

definition cv_wire :: "fault_gr \<Rightarrow> cv_fault" where
  "cv_wire fault = \<lparr>cv_at = fault_at_gr fault, cv_kind = CvWire (cv_breach_of (fault_kind_gr fault))\<rparr>"

text \<open>The operator \<open>?\<close> on an operation that keeps its state.\<close>

definition cv_try :: "('s \<times> ('f + 'a)) option \<Rightarrow> ('s \<Rightarrow> 'a \<Rightarrow> ('s \<times> ('f + 'b)) option) \<Rightarrow> ('s \<times> ('f + 'b)) option" where
  "cv_try r k = do { (s, x) \<leftarrow> r; (case x of Inl f \<Rightarrow> Some (s, Inl f) | Inr a \<Rightarrow> k s a) }"

section \<open>The walk\<close>

text \<open>The loop both walks have: one entry at a time, with the coordinates around it.\<close>

partial_function (option) cv_loop ::
  "bool \<Rightarrow> (entry_gr \<Rightarrow> u32 \<Rightarrow> u32 \<Rightarrow> 's \<Rightarrow> ('s \<times> ('f + unit)) option) \<Rightarrow> (fault_gr \<Rightarrow> 's \<Rightarrow> 'f option) \<Rightarrow>
   cursor_gr \<Rightarrow> u32 \<Rightarrow> 's \<Rightarrow> ('s \<times> ('f + unit)) option" where
  "cv_loop MINIMAL on_entry on_fault cursor head s =
     do { (cursor, item) \<leftarrow> step_gr MINIMAL cursor;
          (case item of
             None \<Rightarrow> Some (s, Inr ())
           | Some r \<Rightarrow>
               (case r of
                  Inl fault \<Rightarrow> do { f \<leftarrow> on_fault fault s; Some (s, Inl f) }
                | Inr entry \<Rightarrow>
                    let end = cursor_pos_gr cursor in
                    do { (s, x) \<leftarrow> on_entry entry head end s;
                         (case x of
                            Inl f \<Rightarrow> Some (s, Inl f)
                          | Inr _ \<Rightarrow> cv_loop MINIMAL on_entry on_fault cursor end s) })) }"

declare cv_loop.simps [code]

text \<open>The trait \<open>Sink\<close>: one pass's consumer, with its refusal channel.\<close>

record ('s, 'f) cv_sink =
  cv_refuse :: "cv_fault \<Rightarrow> 's \<Rightarrow> 'f option"
  cv_verbatim :: "u32 \<Rightarrow> u32 \<Rightarrow> 's \<Rightarrow> 's option"
  cv_enter :: "u32 \<Rightarrow> u32 \<Rightarrow> 's \<Rightarrow> 's option"
  cv_exit :: "'s \<Rightarrow> ('s \<times> ((u32 \<times> nat) + unit)) option"

definition cv_count :: "cv_stats \<Rightarrow> cv_stats option" where
  "cv_count stats = do { n \<leftarrow> u32_add (cv_converted stats) 1; Some (stats\<lparr>cv_converted := n\<rparr>) }"

definition cv_walk_entry ::
  "('s, 'f) cv_sink \<Rightarrow> entry_gr \<Rightarrow> u32 \<Rightarrow> u32 \<Rightarrow> cv_stats \<times> 's \<Rightarrow> ((cv_stats \<times> 's) \<times> ('f + unit)) option" where
  "cv_walk_entry S entry head end z =
     (let (stats, s) = z in
      case entry_kind_gr entry of
        EkGroupEnter_gr \<Rightarrow>
          do { stats \<leftarrow> cv_count stats;
               s \<leftarrow> cv_enter S (head_word_gl (entry_field_gr entry) GlLen) head s;
               Some ((stats, s), Inr ()) }
      | EkGroupExit_gr \<Rightarrow>
          do { (s, x) \<leftarrow> cv_exit S s;
               (case x of
                  Inl (open, len) \<Rightarrow> do { f \<leftarrow> cv_refuse S \<lparr>cv_at = open, cv_kind = CvGrowth len\<rparr> s; Some ((stats, s), Inl f) }
                | Inr _ \<Rightarrow> Some ((stats, s), Inr ())) }
      | _ \<Rightarrow> do { s \<leftarrow> cv_verbatim S head end s; Some ((stats, s), Inr ()) })"

definition cv_walk ::
  "('s, 'f) cv_sink \<Rightarrow> bool \<Rightarrow> bytes \<Rightarrow> depth_limit \<Rightarrow> 's \<Rightarrow> ('s \<times> ('f + cv_stats)) option" where
  "cv_walk S MINIMAL input limit s =
     (case cursor_over_gr input (GroupDepth_from limit) of
        Inl _ \<Rightarrow> do { f \<leftarrow> cv_refuse S \<lparr>cv_at = 0, cv_kind = CvOversize\<rparr> s; Some (s, Inl f) }
      | Inr cursor \<Rightarrow>
          do { ((stats, s), x) \<leftarrow>
                 cv_loop MINIMAL (cv_walk_entry S) (\<lambda>fault (stats, s). cv_refuse S (cv_wire fault) s)
                   cursor 0 (\<lparr>cv_converted = 0\<rparr>, s);
               Some (s, map_sum id (\<lambda>_. stats) x) })"

section \<open>The ledger and the measuring pass\<close>

type_synonym cv_ledger = "nat list"

definition cv_claim :: "cv_ledger \<Rightarrow> cv_ledger \<times> nat" where
  "cv_claim slots = (slots @ [0], length slots)"

definition cv_fill :: "nat \<Rightarrow> nat \<Rightarrow> cv_ledger \<Rightarrow> cv_ledger option" where
  "cv_fill slot body slots = (if slot < length slots then Some (slots[slot := body]) else None)"

definition cv_read :: "nat \<Rightarrow> cv_ledger \<Rightarrow> nat option" where
  "cv_read at slots = (if at < length slots then Some (slots ! at) else None)"

record cv_plan =
  pl_input :: bytes
  pl_limit :: depth_limit
  pl_stats :: cv_stats
  pl_ledger :: cv_ledger
  pl_total :: nat

definition cv_plan_new :: "bytes \<Rightarrow> depth_limit \<Rightarrow> cv_stats \<Rightarrow> cv_ledger \<Rightarrow> nat \<Rightarrow> cv_plan option" where
  "cv_plan_new input limit stats ledger whole =
     (if whole > unat PayloadLen_MAX then None
      else Some \<lparr>pl_input = input, pl_limit = limit, pl_stats = stats, pl_ledger = ledger, pl_total = whole\<rparr>)"

record cv_frame =
  cf_total :: nat
  cf_word :: u32
  cf_head :: u32
  cf_slot :: nat

record cv_measure =
  me_frames :: "cv_frame list"
  me_ledger :: cv_ledger

definition me_new :: cv_measure where
  "me_new = \<lparr>me_frames = [\<lparr>cf_total = 0, cf_word = 0, cf_head = 0, cf_slot = 0\<rparr>], me_ledger = []\<rparr>"

definition me_root_total :: "cv_measure \<Rightarrow> nat option" where
  "me_root_total m = (case me_frames m of [root] \<Rightarrow> Some (cf_total root) | _ \<Rightarrow> None)"

text \<open>\<open>self.top().total += amount\<close>.\<close>

definition me_top_add :: "nat \<Rightarrow> cv_measure \<Rightarrow> cv_measure option" where
  "me_top_add amount m =
     (case me_frames m of
        [] \<Rightarrow> None
      | parent # rest \<Rightarrow>
          do { t \<leftarrow> u64_add (cf_total parent) amount; Some (m\<lparr>me_frames := parent\<lparr>cf_total := t\<rparr> # rest\<rparr>) })"

definition me_verbatim :: "u32 \<Rightarrow> u32 \<Rightarrow> cv_measure \<Rightarrow> cv_measure option" where
  "me_verbatim from to m = do { n \<leftarrow> word_sub to from; me_top_add (unat n) m }"

definition me_enter :: "u32 \<Rightarrow> u32 \<Rightarrow> cv_measure \<Rightarrow> cv_measure option" where
  "me_enter word head m =
     (let (ledger, slot) = cv_claim (me_ledger m) in
      Some (m\<lparr>me_ledger := ledger,
              me_frames := \<lparr>cf_total = 0, cf_word = word, cf_head = head, cf_slot = slot\<rparr> # me_frames m\<rparr>))"

definition me_exit :: "cv_measure \<Rightarrow> (cv_measure \<times> ((u32 \<times> nat) + unit)) option" where
  "me_exit m =
     (case me_frames m of
        frame # parent # rest \<Rightarrow>
          let m = m\<lparr>me_frames := parent # rest\<rparr> in
          if cf_total frame > unat PayloadLen_MAX then Some (m, Inl (cf_head frame, cf_total frame))
          else
            let body = cf_total frame in
            do { ledger \<leftarrow> cv_fill (cf_slot frame) body (me_ledger m);
                 w \<leftarrow> u64_add (encoded_len32 (cf_word frame)) (encoded_len32 (of_nat body));
                 w \<leftarrow> u64_add w (cf_total frame);
                 m \<leftarrow> me_top_add w (m\<lparr>me_ledger := ledger\<rparr>);
                 Some (m, Inr ()) }
      | _ \<Rightarrow> None)"

definition cv_measuring :: "(cv_measure, cv_fault) cv_sink" where
  "cv_measuring = \<lparr>cv_refuse = (\<lambda>fault m. Some fault), cv_verbatim = me_verbatim, cv_enter = me_enter, cv_exit = me_exit\<rparr>"

section \<open>The online emitter\<close>

record cv_online =
  on_out :: bytes
  on_mark :: nat
  on_run :: "(u32 \<times> u32) option"
  on_holes :: "u32 list"

type_synonym 'a on_result = "(cv_online \<times> (nat + 'a)) option"

definition on_rel :: "cv_online \<Rightarrow> u32 option" where
  "on_rel q = map_option admitted_u32 (usub (length (on_out q)) (on_mark q))"

definition on_admit :: "nat \<Rightarrow> cv_online \<Rightarrow> unit on_result" where
  "on_admit grow q =
     do { rel \<leftarrow> on_rel q;
          attempted \<leftarrow> u64_add (unat rel) grow;
          Some (q, if attempted > admission_MAX then Inl attempted else Inr ()) }"

text \<open>A \<open>Vec\<close> of bytes grows to at most \<open>isize::MAX\<close> of them (on a 64-bit target); asking for more panics. The capacity itself,
  which the library may round up to twice the length, is not part of a list.\<close>

definition VEC_MAX :: nat where
  "VEC_MAX = 2 ^ 63 - 1"

definition vec_reserve :: "nat \<Rightarrow> bytes \<Rightarrow> unit option" where
  "vec_reserve additional out = (if length out + additional \<le> VEC_MAX then Some () else None)"

definition on_append :: "bytes \<Rightarrow> cv_online \<Rightarrow> unit on_result" where
  "on_append bs q =
     cv_try (on_admit (length bs) q)
       (\<lambda>q _. do { _ \<leftarrow> vec_reserve (length bs) (on_out q); Some (q\<lparr>on_out := on_out q @ bs\<rparr>, Inr ()) })"

definition on_flush :: "bytes \<Rightarrow> cv_online \<Rightarrow> unit on_result" where
  "on_flush input q =
     (case on_run q of
        Some (from, to) \<Rightarrow>
          do { src \<leftarrow> get_range input (usize_of from) (usize_of to); on_append src (q\<lparr>on_run := None\<rparr>) }
      | None \<Rightarrow> Some (q, Inr ()))"

definition on_verbatim :: "u32 \<Rightarrow> u32 \<Rightarrow> cv_online \<Rightarrow> cv_online option" where
  "on_verbatim from to q =
     (case on_run q of
        Some (start, tail) \<Rightarrow> if tail = from then Some (q\<lparr>on_run := Some (start, to)\<rparr>) else None
      | None \<Rightarrow> Some (q\<lparr>on_run := Some (from, to)\<rparr>))"

definition on_enter :: "bytes \<Rightarrow> u32 \<Rightarrow> cv_online \<Rightarrow> unit on_result" where
  "on_enter input word q =
     cv_try (on_flush input q)
       (\<lambda>q _.
          let width = encoded_len32 word in
          do { (window, emitted) \<leftarrow> emit64 (ucast word) (replicate 6 0);
               if emitted = width \<and> width + 1 \<le> 6 then
                 cv_try (on_append (take (width + 1) window) q)
                   (\<lambda>q _. do { rel \<leftarrow> on_rel q; Some (q\<lparr>on_holes := rel # on_holes q\<rparr>, Inr ()) })
               else None })"

text \<open>The shift: the buffer makes room, \<open>count\<close> bytes move right by \<open>grow\<close>, then the prefix is written over the hole.\<close>

definition on_shift :: "nat \<Rightarrow> u32 \<Rightarrow> nat \<Rightarrow> bytes \<Rightarrow> bytes option" where
  "on_shift hole_abs new_len need out =
     (let grow = need - 1; interior_abs = hole_abs + 1 in
      do { _ \<leftarrow> vec_reserve grow out;
           count \<leftarrow> usub (length out) interior_abs;
           write64_at (take interior_abs out @ replicate grow 0 @ extent_of out interior_abs (interior_abs + count))
             hole_abs (ucast new_len) need })"

definition on_exit :: "bytes \<Rightarrow> cv_online \<Rightarrow> unit on_result" where
  "on_exit input q =
     cv_try (on_flush input q)
       (\<lambda>q _.
          case on_holes q of
            [] \<Rightarrow> None
          | interior_at # rest \<Rightarrow>
              let q = q\<lparr>on_holes := rest\<rparr> in
              do { rel \<leftarrow> on_rel q;
                   new_len \<leftarrow> word_sub rel interior_at;
                   let need = encoded_len32 new_len in
                   do { hole_abs \<leftarrow> usub (on_mark q + usize_of interior_at) 1;
                        if need = 1 then
                          (if hole_abs < length (on_out q)
                           then Some (q\<lparr>on_out := (on_out q)[hole_abs := ucast new_len]\<rparr>, Inr ()) else None)
                        else
                          cv_try (on_admit (need - 1) q)
                            (\<lambda>q _. do { out \<leftarrow> on_shift hole_abs new_len need (on_out q);
                                        Some (q\<lparr>on_out := out\<rparr>, Inr ()) }) } })"

definition on_finish :: "bytes \<Rightarrow> cv_online \<Rightarrow> unit on_result" where
  "on_finish input q = cv_try (on_flush input q) (\<lambda>q _. if on_holes q = [] then Some (q, Inr ()) else None)"

section \<open>The Vec faces\<close>

definition cv_output_fault :: "nat \<Rightarrow> cv_fault" where
  "cv_output_fault len = \<lparr>cv_at = 0, cv_kind = CvOutput len\<rparr>"

definition cv_capped :: "'a on_result \<Rightarrow> (cv_online \<times> (cv_fault + 'a)) option" where
  "cv_capped r = map_option (\<lambda>(q, x). (q, map_sum cv_output_fault id x)) r"

definition cv_drive_entry ::
  "bytes \<Rightarrow> entry_gr \<Rightarrow> u32 \<Rightarrow> u32 \<Rightarrow> cv_stats \<times> cv_online \<Rightarrow> ((cv_stats \<times> cv_online) \<times> (cv_fault + unit)) option" where
  "cv_drive_entry input entry head end z =
     (let (stats, q) = z in
      case entry_kind_gr entry of
        EkGroupEnter_gr \<Rightarrow>
          do { stats \<leftarrow> cv_count stats;
               (q, x) \<leftarrow> cv_capped (on_enter input (head_word_gl (entry_field_gr entry) GlLen) q);
               Some ((stats, q), x) }
      | EkGroupExit_gr \<Rightarrow> do { (q, x) \<leftarrow> cv_capped (on_exit input q); Some ((stats, q), x) }
      | _ \<Rightarrow> do { q \<leftarrow> on_verbatim head end q; Some ((stats, q), Inr ()) })"

definition cv_drive ::
  "bool \<Rightarrow> bytes \<Rightarrow> depth_limit \<Rightarrow> bytes \<Rightarrow> nat \<Rightarrow> (bytes \<times> (cv_fault + cv_stats)) option" where
  "cv_drive MINIMAL input limit out mark =
     (case cursor_over_gr input (GroupDepth_from limit) of
        Inl _ \<Rightarrow> Some (out, Inl \<lparr>cv_at = 0, cv_kind = CvOversize\<rparr>)
      | Inr cursor \<Rightarrow>
          do { ((stats, q), x) \<leftarrow>
                 cv_try
                   (cv_loop MINIMAL (cv_drive_entry input) (\<lambda>fault z. Some (cv_wire fault)) cursor 0
                      (\<lparr>cv_converted = 0\<rparr>, \<lparr>on_out = out, on_mark = mark, on_run = None, on_holes = []\<rparr>))
                   (\<lambda>(stats, q) _. do { (q, x) \<leftarrow> cv_capped (on_finish input q); Some ((stats, q), x) });
               Some (on_out q, map_sum id (\<lambda>_. stats) x) })"

definition cv_run_into ::
  "bool \<Rightarrow> bytes \<Rightarrow> depth_limit \<Rightarrow> bytes \<Rightarrow> (bytes \<times> (cv_fault + cv_stats)) option" where
  "cv_run_into MINIMAL input limit out =
     (let mark = length out in
      do { (out, x) \<leftarrow> cv_drive MINIMAL input limit out mark;
           Some (case x of Inr stats \<Rightarrow> (out, Inr stats) | Inl fault \<Rightarrow> (take mark out, Inl fault)) })"

definition cv_convert_into :: "cv_converter \<Rightarrow> bytes \<Rightarrow> bytes \<Rightarrow> (bytes \<times> (cv_fault + cv_stats)) option" where
  "cv_convert_into v input out =
     (case cv_standard v of
        Tolerant \<Rightarrow> cv_run_into False input (cv_limit v) out
      | CanonicalMinimal \<Rightarrow> cv_run_into True input (cv_limit v) out)"

definition cv_convert :: "cv_converter \<Rightarrow> bytes \<Rightarrow> (cv_fault + bytes \<times> cv_stats) option" where
  "cv_convert v input =
     do { (out, x) \<leftarrow> cv_convert_into v input []; Some (map_sum id (\<lambda>stats. (out, stats)) x) }"

section \<open>The sink face\<close>

text \<open>The caller's sink is a function \<open>F\<close> on a state of the caller.\<close>

record 'k cv_emit =
  em_run :: "(u32 \<times> u32) option"
  em_ledger :: cv_ledger
  em_cursor :: nat
  em_written :: nat
  em_total :: nat
  em_logical :: nat
  em_open :: "(nat \<times> nat) list"
  em_sink :: 'k

definition em_hand :: "('k \<Rightarrow> bytes \<Rightarrow> 'k) \<Rightarrow> bytes \<Rightarrow> 'k cv_emit \<Rightarrow> 'k cv_emit option" where
  "em_hand F bs e =
     (if bs = [] then Some e
      else do { w \<leftarrow> u64_add (em_written e) (length bs);
                Some (e\<lparr>em_written := w, em_sink := F (em_sink e) bs\<rparr>) })"

definition em_hand_varint :: "('k \<Rightarrow> bytes \<Rightarrow> 'k) \<Rightarrow> u64 \<Rightarrow> nat \<Rightarrow> 'k cv_emit \<Rightarrow> 'k cv_emit option" where
  "em_hand_varint F val width e =
     do { (window, emitted) \<leftarrow> emit64 val (replicate 10 0);
          if emitted = width \<and> width \<le> 10 then em_hand F (take width window) e else None }"

definition em_flush :: "('k \<Rightarrow> bytes \<Rightarrow> 'k) \<Rightarrow> bytes \<Rightarrow> 'k cv_emit \<Rightarrow> 'k cv_emit option" where
  "em_flush F input e =
     (case em_run e of
        Some (from, to) \<Rightarrow>
          do { src \<leftarrow> get_range input (usize_of from) (usize_of to); em_hand F src (e\<lparr>em_run := None\<rparr>) }
      | None \<Rightarrow> Some e)"

definition em_finish :: "('k \<Rightarrow> bytes \<Rightarrow> 'k) \<Rightarrow> bytes \<Rightarrow> 'k cv_emit \<Rightarrow> 'k cv_emit option" where
  "em_finish F input e =
     do { e \<leftarrow> em_flush F input e;
          if em_cursor e = length (em_ledger e) \<and> em_open e = [] \<and> em_written e = em_total e then Some e else None }"

definition em_verbatim :: "('k \<Rightarrow> bytes \<Rightarrow> 'k) \<Rightarrow> bytes \<Rightarrow> u32 \<Rightarrow> u32 \<Rightarrow> 'k cv_emit \<Rightarrow> 'k cv_emit option" where
  "em_verbatim F input from to e =
     do { n \<leftarrow> word_sub to from;
          l \<leftarrow> u64_add (em_logical e) (unat n);
          let e = e\<lparr>em_logical := l\<rparr> in
          (case em_run e of
             Some (start, tail) \<Rightarrow>
               if tail = from then Some (e\<lparr>em_run := Some (start, to)\<rparr>)
               else do { e \<leftarrow> em_flush F input e; Some (e\<lparr>em_run := Some (from, to)\<rparr>) }
           | None \<Rightarrow> Some (e\<lparr>em_run := Some (from, to)\<rparr>)) }"

definition em_enter :: "('k \<Rightarrow> bytes \<Rightarrow> 'k) \<Rightarrow> bytes \<Rightarrow> u32 \<Rightarrow> u32 \<Rightarrow> 'k cv_emit \<Rightarrow> 'k cv_emit option" where
  "em_enter F input word head e =
     do { e \<leftarrow> em_flush F input e;
          body \<leftarrow> cv_read (em_cursor e) (em_ledger e);
          let tag_width = encoded_len32 word; prefix_width = encoded_len32 (of_nat body) in
          do { w \<leftarrow> u64_add tag_width prefix_width;
               l \<leftarrow> u64_add (em_logical e) w;
               let e = e\<lparr>em_cursor := em_cursor e + 1, em_logical := l\<rparr> in
               do { e \<leftarrow> em_hand_varint F (ucast word) tag_width e;
                    e \<leftarrow> em_hand_varint F (of_nat body) prefix_width e;
                    Some (e\<lparr>em_open := (em_logical e, body) # em_open e\<rparr>) } } }"

definition em_exit :: "'k cv_emit \<Rightarrow> ('k cv_emit \<times> ((u32 \<times> nat) + unit)) option" where
  "em_exit e =
     (case em_open e of
        [] \<Rightarrow> None
      | (mark, expected) # rest \<Rightarrow>
          do { n \<leftarrow> usub (em_logical e) mark;
               if n = expected then Some (e\<lparr>em_open := rest\<rparr>, Inr ()) else None })"

text \<open>The refusal channel of the emit pass is uninhabited: reaching it is undefined.\<close>

definition cv_emitting :: "('k \<Rightarrow> bytes \<Rightarrow> 'k) \<Rightarrow> bytes \<Rightarrow> ('k cv_emit, unit) cv_sink" where
  "cv_emitting F input =
     \<lparr>cv_refuse = (\<lambda>fault e. None), cv_verbatim = em_verbatim F input, cv_enter = em_enter F input, cv_exit = em_exit\<rparr>"

definition cv_run_sink ::
  "bool \<Rightarrow> bytes \<Rightarrow> depth_limit \<Rightarrow> ('k \<Rightarrow> bytes \<Rightarrow> 'k) \<Rightarrow> 'k \<Rightarrow> ('k \<times> (cv_fault + cv_stats)) option" where
  "cv_run_sink MINIMAL input limit F k =
     do { (measure, x) \<leftarrow> cv_walk cv_measuring MINIMAL input limit me_new;
          (case x of
             Inl fault \<Rightarrow> Some (k, Inl fault)
           | Inr stats \<Rightarrow>
               do { root \<leftarrow> me_root_total measure;
                    (case cv_plan_new input limit stats (me_ledger measure) root of
                       None \<Rightarrow> Some (k, Inl (cv_output_fault root))
                     | Some plan \<Rightarrow>
                         do { (e, y) \<leftarrow>
                                cv_walk (cv_emitting F (pl_input plan)) MINIMAL (pl_input plan) (pl_limit plan)
                                  \<lparr>em_run = None, em_ledger = pl_ledger plan, em_cursor = 0, em_written = 0,
                                   em_total = pl_total plan, em_logical = 0, em_open = [], em_sink = k\<rparr>;
                              (case y of
                                 Inl _ \<Rightarrow> None
                               | Inr repeated \<Rightarrow>
                                   if repeated = pl_stats plan then
                                     do { e \<leftarrow> em_finish F (pl_input plan) e; Some (em_sink e, Inr (pl_stats plan)) }
                                   else None) }) }) }"

definition cv_convert_sink ::
  "cv_converter \<Rightarrow> bytes \<Rightarrow> ('k \<Rightarrow> bytes \<Rightarrow> 'k) \<Rightarrow> 'k \<Rightarrow> ('k \<times> (cv_fault + cv_stats)) option" where
  "cv_convert_sink v input F k =
     (case cv_standard v of
        Tolerant \<Rightarrow> cv_run_sink False input (cv_limit v) F k
      | CanonicalMinimal \<Rightarrow> cv_run_sink True input (cv_limit v) F k)"

end
