(* ===== verification/Convert_Walk.thy ===== *)
theory Convert_Walk
  imports Convert_Groupless Construct_Client Cursor_Groupless
begin

text \<open>
  The converter's walks (\<open>src/src/convert/groupless.rs\<close>), token by token: on a lawful document the loop is a
  fold over the tokens, a loop that ends cleanly has read one, and the contract \<open>entry_consumer\<close> is what
  makes a loop return on any input at all.
\<close>

section \<open>The walk, token by token\<close>

fun cv_steps ::
  "(entry_gr \<Rightarrow> u32 \<Rightarrow> u32 \<Rightarrow> 's \<Rightarrow> ('s \<times> ('f + unit)) option) \<Rightarrow> nat \<Rightarrow> token list \<Rightarrow> 's \<Rightarrow> ('s \<times> ('f + unit)) option" where
  "cv_steps H at [] s = Some (s, Inr ())"
| "cv_steps H at (t # ts) s =
     cv_try (H (entry_of_gr t) (of_nat at) (of_nat (at + length (emit_tok t))) s)
       (\<lambda>s _. cv_steps H (at + length (emit_tok t)) ts s)"

lemma cv_try_simps [simp]:
  "cv_try None k = None" "cv_try (Some (s, Inl f)) k = Some (s, Inl f)" "cv_try (Some (s, Inr a)) k = k s a"
  by (simp_all add: cv_try_def)

lemma cv_try_assoc: "cv_try (cv_try r j) k = cv_try r (\<lambda>s a. cv_try (j s a) k)"
  by (simp add: cv_try_def split: bind_split sum.split)

lemma cv_steps_append:
  "cv_steps H at (ts @ us) s = cv_try (cv_steps H at ts s) (\<lambda>s _. cv_steps H (at + length (emit ts)) us s)"
  by (induction ts arbitrary: at s) (simp_all add: cv_try_assoc add.assoc)

lemma cv_loop_entry:
  assumes "step_gr m c = Some (c', Some (Inr e))"
  shows "cv_loop m H F c head s =
    cv_try (H e head (cursor_pos_gr c') s) (\<lambda>s _. cv_loop m H F c' (cursor_pos_gr c') s)"
  by (subst cv_loop.simps) (simp add: assms cv_try_def Let_def)

lemma cv_loop_other:
  "step_gr m c = Some (c', None) \<Longrightarrow> cv_loop m H F c head s = Some (s, Inr ())"
  "step_gr m c = Some (c', Some (Inl f)) \<Longrightarrow> cv_loop m H F c head s = do { g \<leftarrow> F f s; Some (s, Inl g) }"
  by (subst cv_loop.simps; simp)+

lemma cursor_pos_adv:
  assumes "lawful_gr m c t"
  shows "cursor_pos_gr (adv_gr c t) = of_nat (cur_at_gr c + length (emit_tok t))" "cur_at_gr (adv_gr c t) = cur_at_gr c + length (emit_tok t)"
  by (simp_all add: cursor_pos_gr_def admitted_u32_def adv_gr_def deliver_tok_gr_def)

lemma cv_loop_tokens:
  "lawful_seq (lawful_gr m) adv_gr closed_gr c ts \<Longrightarrow> suffix_gr c = emit ts \<Longrightarrow>
   cv_loop m H F c (of_nat (cur_at_gr c)) s = cv_steps H (cur_at_gr c) ts s"
proof (induction ts arbitrary: c s)
  case Nil
  then obtain c' where "step_gr m c = Some (c', None)" using walk_gr.step_end [OF TrueI, of m c] by auto
  then show ?case by (simp add: cv_loop_other)
next
  case (Cons t ts)
  then have l: "lawful_gr m c t" and x: "suffix_gr c = emit_tok t @ emit ts" by simp_all
  then have s: "step_gr m c = Some (adv_gr c t, Some (Inr (entry_of_gr t)))" using walk_gr.step_entry [OF TrueI, of m c] by blast
  have "suffix_gr (adv_gr c t) = emit ts" using walk_gr.suffix_adv [OF TrueI x l] .
  with Cons have "cv_loop m H F (adv_gr c t) (of_nat (cur_at_gr (adv_gr c t))) s' = cv_steps H (cur_at_gr (adv_gr c t)) ts s'" for s'
    by simp
  with s show ?case by (simp add: cv_loop_entry [OF s] cursor_pos_adv [OF l])
qed

lemma cv_loop_clean:
  "cv_loop m H F c head s = Some (s', Inr u) \<Longrightarrow>
   \<exists>ts. lawful_seq (lawful_gr m) adv_gr closed_gr c ts \<and> suffix_gr c = emit ts"
proof (induction "length (suffix_gr c)" arbitrary: c head s rule: less_induct)
  case less
  show ?case
  proof (cases c rule: walk_gr.step_cases [OF TrueI, of m, case_names finished fault entry])
    case (finished c')
    then show ?thesis by (intro exI [of _ "[]"]) simp
  next
    case (fault c' f)
    with less.prems show ?thesis by (simp add: cv_loop_other split: bind_splits)
  next
    case (entry t rest)
    with less.prems obtain s1 where "cv_loop m H F (adv_gr c t) (cursor_pos_gr (adv_gr c t)) s1 = Some (s', Inr u)"
      by (auto simp: cv_loop_entry [OF entry(1)] cv_try_def split: bind_splits sum.splits)
    from less.hyps [OF entry(6) this] obtain ts where "lawful_seq (lawful_gr m) adv_gr closed_gr (adv_gr c t) ts"
      "suffix_gr (adv_gr c t) = emit ts" by blast
    with entry show ?thesis by (intro exI [of _ "t # ts"]) simp
  qed
qed

text \<open>What a consumer of entries keeps (\<open>keeps\<close>) at every cursor, and shows (\<open>shows\<close>) whatever ends the walk.\<close>

locale entry_consumer =
  fixes m :: bool
    and on_entry :: "entry_gr \<Rightarrow> u32 \<Rightarrow> u32 \<Rightarrow> 's \<Rightarrow> ('s \<times> ('f + unit)) option"
    and on_fault :: "fault_gr \<Rightarrow> 's \<Rightarrow> 'f option"
    and keeps :: "cursor_gr \<Rightarrow> 's \<Rightarrow> bool"
    and after :: "'s \<Rightarrow> bool"
  assumes entry_kept: "keeps c s \<Longrightarrow> lawful_gr m c t \<Longrightarrow> suffix_gr c = emit_tok t @ rest \<Longrightarrow>
      \<exists>s' x. on_entry (entry_of_gr t) (of_nat (cur_at_gr c)) (of_nat (cur_at_gr c + length (emit_tok t))) s = Some (s', x) \<and>
        after s' \<and> (\<forall>u. x = Inr u \<longrightarrow> keeps (adv_gr c t) s')"
    and fault_told: "keeps c s \<Longrightarrow> on_fault f s \<noteq> None"
    and keeps_after: "keeps c s \<Longrightarrow> after s"
begin

lemma loop_returns:
  "keeps c s \<Longrightarrow> \<exists>s' x. cv_loop m on_entry on_fault c (of_nat (cur_at_gr c)) s = Some (s', x) \<and> after s' \<and>
     (\<forall>u. x = Inr u \<longrightarrow> (\<exists>c'. keeps c' s' \<and> closed_gr c'))"
proof (induction "length (suffix_gr c)" arbitrary: c s rule: less_induct)
  case less
  show ?case
  proof (cases c rule: walk_gr.step_cases [OF TrueI, of m, case_names finished fault entry])
    case (finished c')
    with less.prems keeps_after show ?thesis by (auto simp: cv_loop_other)
  next
    case (fault c' f)
    with less.prems fault_told [of c s f] keeps_after show ?thesis by (auto simp: cv_loop_other)
  next
    case (entry t rest)
    from entry_kept [OF less.prems entry(3,2)] obtain s1 x where
      x: "on_entry (entry_of_gr t) (of_nat (cur_at_gr c)) (of_nat (cur_at_gr c + length (emit_tok t))) s = Some (s1, x)"
      "after s1" "\<And>u. x = Inr u \<Longrightarrow> keeps (adv_gr c t) s1" by blast
    show ?thesis
    proof (cases x)
      case (Inl f)
      with x show ?thesis by (simp add: cv_loop_entry [OF entry(1)] cursor_pos_adv [OF entry(3)])
    next
      case (Inr u)
      from less.hyps [OF entry(6) x(3) [OF Inr]] x Inr show ?thesis
        by (simp add: cv_loop_entry [OF entry(1)] cursor_pos_adv [OF entry(3)])
    qed
  qed
qed

end

end
