(* ===== verification/Convert_Forest.thy ===== *)
theory Convert_Forest
  imports Convert_Walk Construct_Built
begin

text \<open>
  What conversion means. A balanced sequence of records is a forest whose inner nodes are groups; \<open>cv_convs\<close>
  is the document the converter stands for, every group replaced by a length-delimited record of its
  converted body. The tokens a walk has read are a forest under construction: the trees of the open level, and for every level above
  its trees and the tag that opened the next (\<open>cv_grow\<close>). The walks are proved against it.
\<close>

section \<open>Forests of records\<close>

datatype cv_tree = CvLeaf token | CvGroup field_number nat nat "cv_tree list"

fun cv_flat :: "cv_tree \<Rightarrow> token list"
  and cv_flats :: "cv_tree list \<Rightarrow> token list" where
  "cv_flat (CvLeaf t) = [t]"
| "cv_flat (CvGroup f w w' body) = Token f w PEnter # cv_flats body @ [Token f w' PExit]"
| "cv_flats [] = []"
| "cv_flats (x # xs) = cv_flat x @ cv_flats xs"

fun cv_conv :: "cv_tree \<Rightarrow> bytes"
  and cv_convs :: "cv_tree list \<Rightarrow> bytes" where
  "cv_conv (CvLeaf t) = emit_tok t"
| "cv_conv (CvGroup f w w' body) = framed f (cv_convs body)"
| "cv_convs [] = []"
| "cv_convs (x # xs) = cv_conv x @ cv_convs xs"

fun cv_group :: "cv_tree \<Rightarrow> nat"
  and cv_groups :: "cv_tree list \<Rightarrow> nat" where
  "cv_group (CvLeaf t) = 0"
| "cv_group (CvGroup f w w' body) = Suc (cv_groups body)"
| "cv_groups [] = 0"
| "cv_groups (x # xs) = cv_group x + cv_groups xs"

text \<open>Groups nest at most \<open>d\<close> deep, and every leaf is a record of its own.\<close>

fun cv_deep :: "nat \<Rightarrow> cv_tree \<Rightarrow> bool"
  and cv_deeps :: "nat \<Rightarrow> cv_tree list \<Rightarrow> bool" where
  "cv_deep d (CvLeaf t) \<longleftrightarrow> \<not> is_group (tk_payload t)"
| "cv_deep d (CvGroup f w w' body) \<longleftrightarrow> 0 < d \<and> cv_deeps (d - 1) body"
| "cv_deeps d [] \<longleftrightarrow> True"
| "cv_deeps d (x # xs) \<longleftrightarrow> cv_deep d x \<and> cv_deeps d xs"

fun cv_plain :: "cv_tree \<Rightarrow> bool"
  and cv_plains :: "cv_tree list \<Rightarrow> bool" where
  "cv_plain (CvLeaf t) \<longleftrightarrow> \<not> is_group (tk_payload t)"
| "cv_plain (CvGroup f w w' body) \<longleftrightarrow> cv_plains body"
| "cv_plains [] \<longleftrightarrow> True"
| "cv_plains (x # xs) \<longleftrightarrow> cv_plain x \<and> cv_plains xs"

lemma cv_append [simp]:
  "cv_flats (xs @ ys) = cv_flats xs @ cv_flats ys" "cv_convs (xs @ ys) = cv_convs xs @ cv_convs ys"
  "cv_groups (xs @ ys) = cv_groups xs + cv_groups ys" "cv_plains (xs @ ys) \<longleftrightarrow> cv_plains xs \<and> cv_plains ys"
  by (induction xs) simp_all

lemma opens_after_leaf: "\<not> is_group (tk_payload t) \<Longrightarrow> opens_after limit opens at t = Some opens"
  by (cases "tk_payload t") (simp_all add: opens_after_def)

lemma balance_flats:
  "cv_plain x \<Longrightarrow> balance limit opens at (cv_flat x) = (if cv_deep (limit - length opens) x then Some opens else None)"
  "cv_plains xs \<Longrightarrow> balance limit opens at (cv_flats xs) = (if cv_deeps (limit - length opens) xs then Some opens else None)"
proof (induction x and xs arbitrary: opens at and opens at rule: cv_flat_cv_flats.induct)
  case (1 t)
  then show ?case by (simp add: opens_after_leaf)
next
  case (2 f w w' body)
  have "limit - length opens - 1 = limit - length ((f, of_nat at) # opens)" by simp
  with 2 show ?case by (simp add: opens_after_def balance_append)
qed (simp_all add: balance_append)

lemma deeps_plains: "cv_deep d x \<Longrightarrow> cv_plain x" "cv_deeps d xs \<Longrightarrow> cv_plains xs"
  by (induction d x and d xs rule: cv_deep_cv_deeps.induct) simp_all

section \<open>A forest under construction\<close>

type_synonym cv_site = "(cv_tree list \<times> token) list \<times> cv_tree list"

fun cv_grow :: "token \<Rightarrow> cv_site \<Rightarrow> cv_site" where
  "cv_grow t (ups, here) =
     (case tk_payload t of
        PEnter \<Rightarrow> ((here, t) # ups, [])
      | PExit \<Rightarrow>
          (case ups of
             (prior, e) # rest \<Rightarrow> (rest, prior @ [CvGroup (tk_field e) (tk_width e) (tk_width t) here])
           | [] \<Rightarrow> (ups, here))
      | _ \<Rightarrow> (ups, here @ [CvLeaf t]))"

lemma grow_simps [simp]:
  "tk_payload t = PEnter \<Longrightarrow> cv_grow t (ups, here) = ((here, t) # ups, [])"
  "tk_payload t = PExit \<Longrightarrow>
     cv_grow t ((prior, e) # rest, here) = (rest, prior @ [CvGroup (tk_field e) (tk_width e) (tk_width t) here])"
  "\<not> is_group (tk_payload t) \<Longrightarrow> cv_grow t (ups, here) = (ups, here @ [CvLeaf t])"
  by (cases "tk_payload t"; simp)+

declare cv_grow.simps [simp del]

fun cv_told :: "(cv_tree list \<times> token) list \<Rightarrow> token list" where
  "cv_told [] = []"
| "cv_told ((prior, e) # rest) = cv_told rest @ cv_flats prior @ [e]"

lemma grow_flats:
  "cv_plain x \<Longrightarrow> fold cv_grow (cv_flat x) (ups, here) = (ups, here @ [x])"
  "cv_plains xs \<Longrightarrow> fold cv_grow (cv_flats xs) (ups, here) = (ups, here @ xs)"
proof (induction x and xs arbitrary: ups here and ups here rule: cv_flat_cv_flats.induct)
qed simp_all

text \<open>The cursor and the site agree: the same input read, the same groups open.\<close>

definition cv_grown :: "bytes \<Rightarrow> cursor_gr \<Rightarrow> cv_site \<Rightarrow> bool" where
  "cv_grown input c site \<longleftrightarrow>
     cur_data_gr c = input \<and> length input \<le> admission_MAX \<and>
     take (cur_at_gr c) input = emit (cv_told (fst site) @ cv_flats (snd site)) \<and> cur_at_gr c \<le> length input \<and>
     list_all tok_ok (cv_told (fst site) @ cv_flats (snd site)) \<and>
     list_all (\<lambda>(prior, e). tk_payload e = PEnter \<and> cv_plains prior) (fst site) \<and> cv_plains (snd site) \<and>
     map fst (cur_opens_gr c) = map (\<lambda>(prior, e). tk_field e) (fst site)"

lemma adv_gr_eq:
  assumes "opens_after (unat (cur_limit_gr c)) (cur_opens_gr c) (cur_at_gr c) t = Some o'"
  shows "adv_gr c t = c\<lparr>cur_opens_gr := o', cur_at_gr := cur_at_gr c + length (emit_tok t), cur_geo_gr := geo_of t\<rparr>"
  using assms by (simp add: adv_gr_def deliver_tok_gr_def)

lemma token_eqI: "tk_payload e = p \<Longrightarrow> e = Token (tk_field e) (tk_width e) p"
  by (cases e) simp

lemma token_cases:
  obtains (enter) "tk_payload t = PEnter" | (exit) "tk_payload t = PExit" | (leaf) "\<not> is_group (tk_payload t)"
  by (cases "tk_payload t") simp_all

text \<open>A lawful token: the groups it needs are there, and the site grows.\<close>

lemma grown_exit:
  assumes "cv_grown input c (ups, here)" "lawful_gr m c t" "tk_payload t = PExit"
  obtains prior e rest os a where "ups = (prior, e) # rest" "cur_opens_gr c = (tk_field t, a) # os" "tk_field e = tk_field t" "tk_payload e = PEnter"
proof -
  from assms(2,3) obtain a os where o: "cur_opens_gr c = (tk_field t, a) # os"
    by (auto simp: lawful_gr_def opens_after_def split: list.splits if_splits)
  moreover from o assms(1) obtain prior e rest where u: "ups = (prior, e) # rest" by (cases ups) (auto simp: cv_grown_def)
  ultimately show thesis using assms(1) by (intro that [OF u o]) (simp_all add: cv_grown_def)
qed

lemma grow_told:
  assumes "cv_grown input c site" "lawful_gr m c t" and g: "cv_grow t site = (ups, here)"
  shows "cv_told ups @ cv_flats here = cv_told (fst site) @ cv_flats (snd site) @ [t]"
proof -
  obtain ups0 here0 where s: "site = (ups0, here0)" by (cases site)
  show ?thesis
  proof (cases t rule: token_cases)
    case exit
    from grown_exit [OF assms(1) [unfolded s] assms(2) exit] obtain prior e rest where
      u: "ups0 = (prior, e) # rest" "tk_field e = tk_field t" "tk_payload e = PEnter" by metis
    then show ?thesis using g s exit token_eqI [OF exit] token_eqI [OF u(3)] by (auto simp: u)
  next
    case leaf
    with g s show ?thesis by auto
  qed (use g s in auto)
qed

lemma grown_adv:
  assumes g: "cv_grown input c site" and l: "lawful_gr m c t" and s: "suffix_gr c = emit_tok t @ rest"
  shows "cv_grown input (adv_gr c t) (cv_grow t site)"
proof -
  obtain ups here where z: "cv_grow t site = (ups, here)" by (cases "cv_grow t site")
  obtain ups0 here0 where s0: "site = (ups0, here0)" by (cases site)
  let ?told = "cv_told (fst site) @ cv_flats (snd site)"
  from l obtain o' where o: "opens_after (unat (cur_limit_gr c)) (cur_opens_gr c) (cur_at_gr c) t = Some o'"
    by (auto simp: lawful_gr_def)
  from s g have r: "drop (cur_at_gr c) input = emit_tok t @ rest" by (simp add: suffix_gr_def cv_grown_def)
  have a: "cur_at_gr c + length (emit_tok t) \<le> length input"
  proof -
    have "length input - cur_at_gr c = length (emit_tok t) + length rest"
      unfolding length_drop [symmetric] r by simp
    moreover have "cur_at_gr c \<le> length input" using g by (simp add: cv_grown_def)
    moreover have "0 < length (emit_tok t)" using l length_emit_tok_pos by (simp add: lawful_gr_def)
    ultimately show ?thesis by linarith
  qed
  have "take (cur_at_gr c + length (emit_tok t)) input = emit (?told @ [t])"
    using r g by (simp add: take_add cv_grown_def)
  then have t: "take (cur_at_gr c + length (emit_tok t)) input = emit (cv_told ups @ cv_flats here)"
    using grow_told [OF g l z] by simp
  have "list_all tok_ok (?told @ [t])" using g l by (simp add: cv_grown_def lawful_gr_def)
  then have k: "list_all tok_ok (cv_told ups @ cv_flats here)" using grow_told [OF g l z] by simp
  have "list_all (\<lambda>(prior, e). tk_payload e = PEnter \<and> cv_plains prior) ups \<and> cv_plains here \<and> map fst o' = map (\<lambda>(prior, e). tk_field e) ups"
  proof (cases t rule: token_cases)
    case enter
    with o z g show ?thesis by (auto simp: s0 cv_grown_def opens_after_def split: if_splits)
  next
    case exit
    from grown_exit [OF g [unfolded s0] l exit] obtain prior e rst os a where
      u: "ups0 = (prior, e) # rst" "cur_opens_gr c = (tk_field t, a) # os" by metis
    with o exit have "o' = os" by (simp add: opens_after_def)
    with u z g exit show ?thesis by (auto simp: s0 cv_grown_def)
  next
    case leaf
    with o z g show ?thesis by (auto simp: s0 cv_grown_def opens_after_leaf)
  qed
  with a t k g show ?thesis by (simp add: adv_gr_eq [OF o] z cv_grown_def)
qed

definition cv_fresh :: "bytes \<Rightarrow> group_depth \<Rightarrow> cursor_gr" where
  "cv_fresh input limit = \<lparr>cur_data_gr = input, cur_opens_gr = [], cur_at_gr = 0, cur_limit_gr = limit, cur_geo_gr = 0\<rparr>"

lemma grown_fresh: "length input \<le> admission_MAX \<Longrightarrow> cv_grown input (cv_fresh input limit) ([], [])"
  by (simp add: cv_grown_def cv_fresh_def)

text \<open>A lawful sequence is a forest.\<close>

lemma grow_seq:
  "lawful_seq (lawful_gr m) adv_gr closed_gr c ts \<Longrightarrow> suffix_gr c = emit ts \<Longrightarrow> cv_grown input c site \<Longrightarrow>
   \<exists>c'. cv_grown input c' (fold cv_grow ts site) \<and> closed_gr c' \<and>
     (let site' = fold cv_grow ts site in
        cv_told (fst site') @ cv_flats (snd site') = (cv_told (fst site) @ cv_flats (snd site)) @ ts)"
proof (induction ts arbitrary: c site)
  case (Cons t ts)
  then have l: "lawful_gr m c t" and s: "suffix_gr c = emit_tok t @ emit ts" by simp_all
  from walk_gr.suffix_adv [OF TrueI s l] have s': "suffix_gr (adv_gr c t) = emit ts" .
  from Cons.IH [OF _ s' grown_adv [OF Cons.prems(3) l s]] Cons.prems(1) grow_told [OF Cons.prems(3) l, of "fst (cv_grow t site)" "snd (cv_grow t site)"]
  show ?case by simp
qed auto

lemma lawful_forest:
  assumes "lawful_seq (lawful_gr m) adv_gr closed_gr (cv_fresh input limit) ts" "input = emit ts" "length input \<le> admission_MAX"
  obtains fs where "ts = cv_flats fs" "cv_plains fs" "cv_deeps (unat limit) fs"
proof -
  obtain ups fs where z: "fold cv_grow ts ([], []) = (ups, fs)" by (cases "fold cv_grow ts ([], [])")
  have "suffix_gr (cv_fresh input limit) = emit ts" using assms(2) by (simp add: suffix_gr_def cv_fresh_def)
  from grow_seq [OF assms(1) this grown_fresh [OF assms(3)]] z obtain c' where
    c': "cv_grown input c' (ups, fs)" "closed_gr c'" "cv_told ups @ cv_flats fs = ts" by auto
  then have "ups = []" by (auto simp: cv_grown_def closed_gr_def)
  with c' have f: "ts = cv_flats fs" "cv_plains fs" by (simp_all add: cv_grown_def)
  with assms(1) balance_flats(2) [OF f(2), of "unat limit" "[]" 0] have "cv_deeps (unat limit) fs"
    by (simp add: lawful_seq_gr cv_fresh_def split: if_splits)
  with f show thesis by (rule that)
qed

lemma forest_lawful:
  "cv_plains fs \<Longrightarrow> lawful_seq (lawful_gr m) adv_gr closed_gr (cv_fresh input limit) (cv_flats fs) \<longleftrightarrow>
     list_all tok_ok (cv_flats fs) \<and> (m \<longrightarrow> list_all tok_minimal (cv_flats fs)) \<and> cv_deeps (unat limit) fs"
  using balance_flats(2) [of fs "unat limit" "[]" 0] by (simp add: lawful_seq_gr cv_fresh_def)

section \<open>Sizes\<close>

lemma length_framed_eq:
  "length (framed f bs) = encoded_len32 (wire_tag_word f 2) + encoded_len64 (of_nat (length bs)) + length bs"
  by (simp add: framed_def length_spell_head spell_len_def)

lemma convs_le:
  "list_all tok_ok (cv_flat x) \<Longrightarrow> length (cv_conv x) \<le> 10 * length (emit (cv_flat x))"
  "list_all tok_ok (cv_flats xs) \<Longrightarrow> length (cv_convs xs) \<le> 10 * length (emit (cv_flats xs))"
proof (induction x and xs rule: cv_flat_cv_flats.induct)
  case (2 f w w' body)
  then show ?case
    using length_framed_eq [of f "cv_convs body"] encoded_len32_le [of "wire_tag_word f 2"] encoded_len64_le [of "of_nat (length (cv_convs body))"]
      length_emit_tok_pos [of "Token f w PEnter"] length_emit_tok_pos [of "Token f w' PExit"] by simp
qed simp_all

lemma groups_le:
  "list_all tok_ok (cv_flat x) \<Longrightarrow> cv_group x \<le> length (emit (cv_flat x))"
  "list_all tok_ok (cv_flats xs) \<Longrightarrow> cv_groups xs \<le> length (emit (cv_flats xs))"
proof (induction x and xs rule: cv_flat_cv_flats.induct)
  case (2 f w w' body)
  then show ?case using length_emit_tok_pos [of "Token f w PEnter"] by simp
qed simp_all

text \<open>The groups a walk has entered.\<close>

fun cv_begun :: "(cv_tree list \<times> token) list \<Rightarrow> nat" where
  "cv_begun [] = 0"
| "cv_begun ((prior, e) # rest) = cv_begun rest + cv_groups prior + 1"

definition cv_counted :: "cv_site \<Rightarrow> nat" where
  "cv_counted site = cv_begun (fst site) + cv_groups (snd site)"

lemma begun_le: "list_all tok_ok (cv_told ups) \<Longrightarrow> cv_begun ups \<le> length (emit (cv_told ups))"
proof (induction ups rule: cv_told.induct)
  case (2 prior e rest)
  from 2 have "cv_begun rest \<le> length (emit (cv_told rest))" "cv_groups prior \<le> length (emit (cv_flats prior))"
    "0 < length (emit_tok e)" using groups_le(2) [of prior] length_emit_tok_pos [of e] by simp_all
  then show ?case unfolding cv_begun.simps cv_told.simps emit_append emit_Cons emit_Nil append_Nil2 length_append by linarith
qed simp

lemma grown_at:
  assumes "cv_grown input c site"
  shows "cur_at_gr c = length (emit (cv_told (fst site))) + length (emit (cv_flats (snd site)))"
proof -
  from assms have "cur_at_gr c \<le> length input" by (simp add: cv_grown_def)
  then have "length (take (cur_at_gr c) input) = cur_at_gr c" by simp
  moreover from assms have "take (cur_at_gr c) input = emit (cv_told (fst site) @ cv_flats (snd site))" by (simp add: cv_grown_def)
  ultimately show ?thesis by (metis emit_append length_append)
qed

lemma counted_le:
  assumes "cv_grown input c site"
  shows "cv_counted site \<le> cur_at_gr c" "cv_counted site < 2 ^ 32 - 1"
proof -
  show "cv_counted site \<le> cur_at_gr c"
    unfolding grown_at [OF assms] using assms begun_le [of "fst site"] groups_le(2) [of "snd site"]
    by (simp add: cv_grown_def cv_counted_def)
  then show "cv_counted site < 2 ^ 32 - 1" using assms by (simp add: cv_grown_def admission_MAX_eq)
qed

lemma counted_grow:
  assumes "cv_grown input c site" "lawful_gr m c t"
  shows "cv_counted (cv_grow t site) = cv_counted site + (if tk_payload t = PEnter then 1 else 0)"
proof -
  obtain ups here where s: "site = (ups, here)" by (cases site)
  show ?thesis
  proof (cases t rule: token_cases)
    case exit
    from grown_exit [OF assms(1) [unfolded s] assms(2) exit] obtain prior e rest where "ups = (prior, e) # rest" by metis
    with exit s show ?thesis by (simp add: cv_counted_def)
  qed (use s in \<open>auto simp: cv_counted_def\<close>)
qed

lemma cv_count_Some: "n < 2 ^ 32 - 1 \<Longrightarrow> cv_count \<lparr>cv_converted = n\<rparr> = Some \<lparr>cv_converted = n + 1\<rparr>"
  by (simp add: cv_count_def u32_add_def)

section \<open>A consumer proved against the forest\<close>

text \<open>The forests a document may be: lawful records, groups at most \<open>limit\<close> deep.\<close>

definition cv_forest :: "bool \<Rightarrow> group_depth \<Rightarrow> cv_tree list \<Rightarrow> bool" where
  "cv_forest m limit fs \<longleftrightarrow>
     list_all tok_ok (cv_flats fs) \<and> (m \<longrightarrow> list_all tok_minimal (cv_flats fs)) \<and> cv_deeps (unat limit) fs"

text \<open>
  \<open>rel\<close> ties the consumer's state to the site at every coordinate; a fault of its own (\<open>bad\<close>) is explained by what the
  site has become, and stays explained as the site grows.
\<close>

locale site_consumer =
  fixes m :: bool
    and input :: bytes
    and on_entry :: "entry_gr \<Rightarrow> u32 \<Rightarrow> u32 \<Rightarrow> 's \<Rightarrow> ('s \<times> ('f + unit)) option"
    and on_fault :: "fault_gr \<Rightarrow> 's \<Rightarrow> 'f option"
    and rel :: "cv_site \<Rightarrow> nat \<Rightarrow> 's \<Rightarrow> bool"
    and bad :: "cv_site \<Rightarrow> 'f \<Rightarrow> bool"
    and after :: "'s \<Rightarrow> bool"
  assumes entry_site: "cv_grown input c site \<Longrightarrow> lawful_gr m c t \<Longrightarrow> suffix_gr c = emit_tok t @ rest \<Longrightarrow> rel site (cur_at_gr c) s \<Longrightarrow>
      \<exists>s' x. on_entry (entry_of_gr t) (of_nat (cur_at_gr c)) (of_nat (cur_at_gr c + length (emit_tok t))) s = Some (s', x) \<and>
        after s' \<and> (case x of Inl f \<Rightarrow> bad (cv_grow t site) f | Inr _ \<Rightarrow> rel (cv_grow t site) (cur_at_gr c + length (emit_tok t)) s')"
    and bad_grows: "cv_grown input c site \<Longrightarrow> lawful_gr m c t \<Longrightarrow> bad site f \<Longrightarrow> bad (cv_grow t site) f"
    and fault_answered: "on_fault g s \<noteq> None"
    and rel_after: "rel site at s \<Longrightarrow> after s"
begin

definition keeps :: "cursor_gr \<Rightarrow> 's \<Rightarrow> bool" where
  "keeps c s \<longleftrightarrow> (\<exists>site. cv_grown input c site \<and> rel site (cur_at_gr c) s)"

end

sublocale site_consumer \<subseteq> consumer: entry_consumer m on_entry on_fault keeps after
proof
  fix c s t rest
  assume k: "keeps c s" and l: "lawful_gr m c t" and x: "suffix_gr c = emit_tok t @ rest"
  from k obtain site where site: "cv_grown input c site" "rel site (cur_at_gr c) s" by (auto simp: keeps_def)
  from entry_site [OF site(1) l x site(2)] obtain s' y where
    y: "on_entry (entry_of_gr t) (of_nat (cur_at_gr c)) (of_nat (cur_at_gr c + length (emit_tok t))) s = Some (s', y)" "after s'"
    "case y of Inl f \<Rightarrow> bad (cv_grow t site) f | Inr _ \<Rightarrow> rel (cv_grow t site) (cur_at_gr c + length (emit_tok t)) s'" by blast
  moreover have "keeps (adv_gr c t) s'" if "rel (cv_grow t site) (cur_at_gr c + length (emit_tok t)) s'"
    unfolding keeps_def cursor_pos_adv(2) [OF l] using that grown_adv [OF site(1) l x] by blast
  ultimately show "\<exists>s' x. on_entry (entry_of_gr t) (of_nat (cur_at_gr c)) (of_nat (cur_at_gr c + length (emit_tok t))) s = Some (s', x) \<and>
        after s' \<and> (\<forall>u. x = Inr u \<longrightarrow> keeps (adv_gr c t) s')"
    by auto
next
  show "keeps c s \<Longrightarrow> on_fault g s \<noteq> None" for c s g by (rule fault_answered)
  show "keeps c s \<Longrightarrow> after s" for c s using rel_after by (auto simp: keeps_def)
qed

context site_consumer begin

lemma bad_stays:
  "cv_grown input c site \<Longrightarrow> lawful_seq (lawful_gr m) adv_gr closed_gr c ts \<Longrightarrow> suffix_gr c = emit ts \<Longrightarrow>
   bad site f \<Longrightarrow> bad (fold cv_grow ts site) f"
proof (induction ts arbitrary: c site)
  case (Cons t ts)
  then have l: "lawful_gr m c t" and s: "suffix_gr c = emit_tok t @ emit ts" by simp_all
  from Cons.IH [OF grown_adv [OF Cons.prems(1) l s] _ walk_gr.suffix_adv [OF TrueI s l] bad_grows [OF Cons.prems(1) l Cons.prems(4)]] Cons.prems(2)
  show ?case by simp
qed simp

lemma steps_site:
  "cv_grown input c site \<Longrightarrow> lawful_seq (lawful_gr m) adv_gr closed_gr c ts \<Longrightarrow> suffix_gr c = emit ts \<Longrightarrow>
   rel site (cur_at_gr c) s \<Longrightarrow>
   \<exists>s' x. cv_steps on_entry (cur_at_gr c) ts s = Some (s', x) \<and>
     (case x of Inl f \<Rightarrow> bad (fold cv_grow ts site) f
      | Inr _ \<Rightarrow> rel (fold cv_grow ts site) (cur_at_gr c + length (emit ts)) s')"
proof (induction ts arbitrary: c site s)
  case (Cons t ts)
  then have l: "lawful_gr m c t" and s: "suffix_gr c = emit_tok t @ emit ts" by simp_all
  have tl: "lawful_seq (lawful_gr m) adv_gr closed_gr (adv_gr c t) ts" using Cons.prems(2) by simp
  note sx = walk_gr.suffix_adv [OF TrueI s l]
  note g = grown_adv [OF Cons.prems(1) l s]
  from entry_site [OF Cons.prems(1) l s Cons.prems(4)] obtain s1 x where
    x: "on_entry (entry_of_gr t) (of_nat (cur_at_gr c)) (of_nat (cur_at_gr c + length (emit_tok t))) s = Some (s1, x)"
    "case x of Inl f \<Rightarrow> bad (cv_grow t site) f | Inr _ \<Rightarrow> rel (cv_grow t site) (cur_at_gr c + length (emit_tok t)) s1" by blast
  show ?case
  proof (cases x)
    case (Inl f)
    with x bad_stays [OF g tl sx] show ?thesis by simp
  next
    case (Inr u)
    with x have "rel (cv_grow t site) (cur_at_gr (adv_gr c t)) s1" by (simp add: cursor_pos_adv [OF l])
    from Cons.IH [OF g tl sx this] x Inr show ?thesis by (simp add: cursor_pos_adv [OF l] add.assoc cong: sum.case_cong)
  qed
qed simp

lemma run_returns:
  assumes "rel ([], []) 0 s" "length input \<le> admission_MAX"
  shows "\<exists>s' x. cv_loop m on_entry on_fault (cv_fresh input limit) 0 s = Some (s', x) \<and> after s'"
proof -
  have "keeps (cv_fresh input limit) s" using assms grown_fresh [OF assms(2)] by (auto simp: keeps_def cv_fresh_def)
  from consumer.loop_returns [OF this] show ?thesis by (auto simp: cv_fresh_def)
qed

lemma run_forest:
  assumes "rel ([], []) 0 s" "length input \<le> admission_MAX" "cv_forest m limit fs" "input = emit (cv_flats fs)"
  shows "\<exists>s' x. cv_loop m on_entry on_fault (cv_fresh input limit) 0 s = Some (s', x) \<and>
    (case x of Inl f \<Rightarrow> bad ([], fs) f | Inr _ \<Rightarrow> rel ([], fs) (length input) s')"
proof -
  have p: "cv_plains fs" using assms(3) deeps_plains by (auto simp: cv_forest_def)
  have l: "lawful_seq (lawful_gr m) adv_gr closed_gr (cv_fresh input limit) (cv_flats fs)"
    using assms(3) by (simp add: forest_lawful [OF p] cv_forest_def)
  have s: "suffix_gr (cv_fresh input limit) = emit (cv_flats fs)" using assms(4) by (simp add: suffix_gr_def cv_fresh_def)
  have "rel ([], []) (cur_at_gr (cv_fresh input limit)) s" using assms(1) by (simp add: cv_fresh_def)
  from steps_site [OF grown_fresh [OF assms(2)] l s this] cv_loop_tokens [OF l s, of on_entry on_fault s] grow_flats(2) [OF p, of "[]" "[]"] assms(4)
  show ?thesis by (simp add: cv_fresh_def cong: sum.case_cong)
qed

lemma run_clean:
  assumes "rel ([], []) 0 s" "length input \<le> admission_MAX"
    and "cv_loop m on_entry on_fault (cv_fresh input limit) 0 s = Some (s', Inr u)"
  obtains fs where "cv_forest m limit fs" "input = emit (cv_flats fs)" "rel ([], fs) (length input) s'"
proof -
  from cv_loop_clean [OF assms(3)] obtain ts where
    ts: "lawful_seq (lawful_gr m) adv_gr closed_gr (cv_fresh input limit) ts" "input = emit ts"
    by (auto simp: suffix_gr_def cv_fresh_def)
  from lawful_forest [OF ts assms(2)] obtain fs where fs: "ts = cv_flats fs" "cv_plains fs" .
  then have f: "cv_forest m limit fs" using ts(1) forest_lawful [OF fs(2)] by (simp add: cv_forest_def)
  have i: "input = emit (cv_flats fs)" using ts(2) fs(1) by simp
  from run_forest [OF assms(1,2) f i] assms(3) have "rel ([], fs) (length input) s'" by auto
  with f i show thesis by (rule that)
qed

text \<open>A fault is the cursor's, or the consumer's own.\<close>

lemma loop_fault:
  "cv_grown input c site \<Longrightarrow> rel site (cur_at_gr c) s \<Longrightarrow>
   cv_loop m on_entry on_fault c (of_nat (cur_at_gr c)) s = Some (s', Inl f) \<Longrightarrow>
   (\<exists>es fault c'. walk (step_gr m) c = Some (es, Some fault, c') \<and> on_fault fault s' = Some f) \<or>
   (\<exists>c' site. cv_grown input c' site \<and> bad site f)"
proof (induction "length (suffix_gr c)" arbitrary: c site s rule: less_induct)
  case less
  show ?case
  proof (cases c rule: walk_gr.step_cases [OF TrueI, of m, case_names finished fault entry])
    case (finished c')
    with less.prems show ?thesis by (simp add: cv_loop_other)
  next
    case (fault c' g)
    then have "walk (step_gr m) c = Some ([], Some g, c')" by (rule walk_gr.walk_step)
    moreover from less.prems fault have "on_fault g s' = Some f" by (auto simp: cv_loop_other split: bind_splits)
    ultimately show ?thesis by blast
  next
    case (entry t rest)
    note w = walk_gr.walk_step(3) [OF entry(1)]
    from entry_site [OF less.prems(1) entry(3,2) less.prems(2)] obtain s1 x where
      x: "on_entry (entry_of_gr t) (of_nat (cur_at_gr c)) (of_nat (cur_at_gr c + length (emit_tok t))) s = Some (s1, x)"
      "case x of Inl f \<Rightarrow> bad (cv_grow t site) f | Inr _ \<Rightarrow> rel (cv_grow t site) (cur_at_gr c + length (emit_tok t)) s1" by blast
    show ?thesis
    proof (cases x)
      case (Inl g)
      with x less.prems(3) have "bad (cv_grow t site) f" by (simp add: cv_loop_entry [OF entry(1)] cursor_pos_adv [OF entry(3)])
      with grown_adv [OF less.prems(1) entry(3,2)] show ?thesis by blast
    next
      case (Inr u)
      with x less.prems(3) have "cv_loop m on_entry on_fault (adv_gr c t) (of_nat (cur_at_gr (adv_gr c t))) s1 = Some (s', Inl f)"
        by (simp add: cv_loop_entry [OF entry(1)] cursor_pos_adv [OF entry(3)])
      moreover from x Inr have "rel (cv_grow t site) (cur_at_gr (adv_gr c t)) s1" by (simp add: cursor_pos_adv [OF entry(3)])
      ultimately have "(\<exists>es fault c'. walk (step_gr m) (adv_gr c t) = Some (es, Some fault, c') \<and> on_fault fault s' = Some f) \<or>
          (\<exists>c' site. cv_grown input c' site \<and> bad site f)"
        using less.hyps [OF entry(6) grown_adv [OF less.prems(1) entry(3,2)]] by blast
      with w show ?thesis by auto
    qed
  qed
qed

end

end
