(* ===== verification/Convert_Online.thy ===== *)
theory Convert_Online
  imports Convert_Forest
begin

text \<open>
  The online emitter of \<open>src/src/convert/groupless.rs\<close> against the forest. What it has written, with the pending run, is always
  the text of the site: the converted trees of every open level, and between two levels the tag that
  opened the inner one with a one-byte hole behind it. A group's exit settles the hole, so at the end the
  text is the converted forest. The cap is hit exactly when that text is longer than a document may be.
\<close>

section \<open>The text of a site\<close>

fun cv_held :: "(cv_tree list \<times> token) list \<Rightarrow> bytes" where
  "cv_held [] = []"
| "cv_held ((prior, e) # rest) = cv_held rest @ cv_convs prior @ spell_head (wire_tag_word (tk_field e) 2) @ [0]"

fun cv_holes :: "(cv_tree list \<times> token) list \<Rightarrow> u32 list" where
  "cv_holes [] = []"
| "cv_holes (level # rest) = of_nat (length (cv_held (level # rest))) # cv_holes rest"

definition cv_text :: "cv_site \<Rightarrow> bytes" where
  "cv_text site = cv_held (fst site) @ cv_convs (snd site)"

lemma cv_text_simps [simp]: "cv_text (ups, here) = cv_held ups @ cv_convs here"
  by (simp add: cv_text_def)

definition cv_pending :: "bytes \<Rightarrow> (u32 \<times> u32) option \<Rightarrow> bytes" where
  "cv_pending input run = (case run of None \<Rightarrow> [] | Some (a, b) \<Rightarrow> extent_of input (unat a) (unat b))"

definition cv_run_ok :: "nat \<Rightarrow> (u32 \<times> u32) option \<Rightarrow> bool" where
  "cv_run_ok at run = (case run of None \<Rightarrow> True | Some (a, b) \<Rightarrow> a \<le> b \<and> unat b = at)"

text \<open>The buffer has room for any document.\<close>

definition vec_fits :: "bytes \<Rightarrow> bool" where
  "vec_fits out \<longleftrightarrow> length out + admission_MAX \<le> VEC_MAX"

lemma vec_fits_Nil [simp]: "vec_fits []"
  by (simp add: vec_fits_def VEC_MAX_def admission_MAX_eq)

lemma reserve_fits: "vec_fits out0 \<Longrightarrow> length out + n \<le> length out0 + admission_MAX \<Longrightarrow> vec_reserve n out = Some ()"
  by (simp add: vec_reserve_def vec_fits_def)

definition online_at :: "bytes \<Rightarrow> bytes \<Rightarrow> nat \<Rightarrow> cv_site \<Rightarrow> cv_online \<Rightarrow> bool" where
  "online_at out0 input at site q \<longleftrightarrow>
     (\<exists>rel. on_out q = out0 @ rel \<and> length rel \<le> admission_MAX \<and> rel @ cv_pending input (on_run q) = cv_text site) \<and>
     on_mark q = length out0 \<and> on_holes q = cv_holes (fst site) \<and> cv_run_ok at (on_run q) \<and> vec_fits out0"

lemma length_cv_conv_group:
  "length (cv_conv (CvGroup f w w' body)) =
     encoded_len32 (wire_tag_word f 2) + encoded_len64 (of_nat (length (cv_convs body))) + length (cv_convs body)"
  by (simp add: length_framed_eq)

lemma text_grows:
  assumes "cv_grown input c site" "lawful_gr m c t"
  shows "length (cv_text site) \<le> length (cv_text (cv_grow t site))"
proof -
  obtain ups here where s: "site = (ups, here)" by (cases site)
  show ?thesis
  proof (cases t rule: token_cases)
    case exit
    from grown_exit [OF assms(1) [unfolded s] assms(2) exit] obtain prior e rest where "ups = (prior, e) # rest" by metis
    with exit s show ?thesis using encoded_len64_pos [of "of_nat (length (cv_convs here))"]
      by (simp add: length_framed_eq length_spell_head)
  qed (use s in auto)
qed

section \<open>The operations\<close>

lemma rel_at: "on_out q = out0 @ rel \<Longrightarrow> on_mark q = length out0 \<Longrightarrow> on_rel q = Some (admitted_u32 (length rel))"
  by (simp add: on_rel_def)

lemma unat_admitted: "n \<le> admission_MAX \<Longrightarrow> unat (admitted_u32 n) = n"
  using admitted_u32_inverse by (simp add: usize_of_def)

lemma admit_at:
  assumes "on_out q = out0 @ rel" "on_mark q = length out0" "length rel \<le> admission_MAX" "grow \<le> admission_MAX"
  shows "on_admit grow q = Some (q, if length rel + grow > admission_MAX then Inl (length rel + grow) else Inr ())"
proof -
  have "length rel + grow < 2 ^ 64" using assms(3,4) by (simp add: admission_MAX_eq)
  then show ?thesis by (simp add: on_admit_def rel_at [OF assms(1,2)] unat_admitted [OF assms(3)] u64_add_def)
qed

lemma append_at:
  assumes "on_out q = out0 @ rel" "on_mark q = length out0" "length rel \<le> admission_MAX" "length bs \<le> admission_MAX"
    and room: "vec_fits out0"
  shows "on_append bs q =
    (if length (rel @ bs) > admission_MAX then Some (q, Inl (length (rel @ bs)))
     else Some (q\<lparr>on_out := out0 @ rel @ bs\<rparr>, Inr ()))"
  using reserve_fits [OF room, of "on_out q" "length bs"] by (simp add: on_append_def admit_at [OF assms(1-4)] assms(1))

lemma run_range:
  assumes "cv_run_ok at (Some (a, b))" "at \<le> length input"
  shows "get_range input (usize_of a) (usize_of b) = Some (cv_pending input (Some (a, b)))"
  using assms by (simp add: get_range_def usize_of_def cv_run_ok_def cv_pending_def word_le_nat_alt)

lemma pending_le: "length (cv_pending input run) \<le> length input"
  by (auto simp: cv_pending_def extent_of_def split: option.splits)

lemma flush_at:
  assumes "online_at out0 input at site q" "at \<le> length input" "length input \<le> admission_MAX"
  shows "on_flush input q =
    (if length (cv_text site) > admission_MAX then Some (q\<lparr>on_run := None\<rparr>, Inl (length (cv_text site)))
     else Some (q\<lparr>on_run := None, on_out := out0 @ cv_text site\<rparr>, Inr ()))"
proof -
  from assms(1) obtain rel where r: "on_out q = out0 @ rel" "length rel \<le> admission_MAX"
    "rel @ cv_pending input (on_run q) = cv_text site" "on_mark q = length out0" "cv_run_ok at (on_run q)" "vec_fits out0"
    by (auto simp: online_at_def)
  show ?thesis
  proof (cases "on_run q")
    case None
    then have "rel = cv_text site" using r(3) by (simp add: cv_pending_def)
    moreover have "q\<lparr>on_run := None, on_out := on_out q\<rparr> = q" using None by (cases q) simp
    ultimately show ?thesis using None r by (simp add: on_flush_def)
  next
    case (Some ab)
    then obtain a b where ab: "on_run q = Some (a, b)" by (cases ab) auto
    have l: "length (cv_pending input (on_run q)) \<le> admission_MAX" using pending_le assms(3) le_trans by blast
    have t: "cv_text site = rel @ cv_pending input (Some (a, b))" using r(3) ab by simp
    show ?thesis
      using append_at [of "q\<lparr>on_run := None\<rparr>" out0 rel "cv_pending input (on_run q)"] r(1,2,4,5,6) ab l
        run_range [of at a b input] assms(2) by (simp add: on_flush_def t)
  qed
qed

text \<open>Flush, then go on: what every group boundary does.\<close>

lemma flush_then:
  assumes "online_at out0 input at site q" "at \<le> length input" "length input \<le> admission_MAX"
  shows "cv_try (on_flush input q) k =
    (if length (cv_text site) > admission_MAX then Some (q\<lparr>on_run := None\<rparr>, Inl (length (cv_text site)))
     else k \<lparr>on_out = out0 @ cv_text site, on_mark = length out0, on_run = None, on_holes = cv_holes (fst site)\<rparr> ())"
proof -
  have "q\<lparr>on_run := None, on_out := out0 @ cv_text site\<rparr> =
    \<lparr>on_out = out0 @ cv_text site, on_mark = length out0, on_run = None, on_holes = cv_holes (fst site)\<rparr>"
    using assms(1) by (cases q) (simp add: online_at_def)
  then show ?thesis by (simp add: flush_at [OF assms])
qed

text \<open>What an operation answers: a text that fits, or the length that does not.\<close>

definition cv_answers :: "bytes \<Rightarrow> bytes \<Rightarrow> nat \<Rightarrow> cv_site \<Rightarrow> unit on_result \<Rightarrow> bool" where
  "cv_answers out0 input at site r \<longleftrightarrow>
     (\<exists>q x. r = Some (q, x) \<and> take (length out0) (on_out q) = out0 \<and>
        (case x of Inr _ \<Rightarrow> online_at out0 input at site q
         | Inl n \<Rightarrow> n > admission_MAX \<and> n \<le> length (cv_text site)))"

lemma answers_Inr: "online_at out0 input at site q \<Longrightarrow> cv_answers out0 input at site (Some (q, Inr ()))"
  by (auto simp: cv_answers_def online_at_def)

lemma answers_Inl:
  "take (length out0) (on_out q) = out0 \<Longrightarrow> admission_MAX < n \<Longrightarrow> n \<le> length (cv_text site) \<Longrightarrow>
   cv_answers out0 input at site (Some (q, Inl n))"
  by (simp add: cv_answers_def)

lemma online_fits: "online_at out0 input at site q \<Longrightarrow> vec_fits out0"
  by (simp add: online_at_def)

lemma online_out: "online_at out0 input at site q \<Longrightarrow> take (length out0) (on_out q) = out0"
  by (auto simp: online_at_def)

lemma emit_word:
  fixes word :: u32
  shows "emit64 (ucast word) (replicate 6 0) = Some (spell_head word @ replicate (6 - encoded_len32 word) 0, encoded_len32 word)"
  using emit64_enc [of "ucast word" "replicate 6 0"] encoded_len32_le [of word]
  by (simp add: spell_head_def spell64_def encoded_len32_ucast)

lemma on_enter_answers:
  assumes "online_at out0 input at (ups, here) q" "at \<le> length input" "length input \<le> admission_MAX"
  shows "cv_answers out0 input at' ((here, Token f w PEnter) # ups, []) (on_enter input (wire_tag_word f 2) q)"
proof -
  let ?word = "wire_tag_word f 2" and ?text = "cv_held ups @ cv_convs here"
  define q1 where "q1 = \<lparr>on_out = out0 @ ?text, on_mark = length out0, on_run = None, on_holes = cv_holes ups\<rparr>"
  have w: "encoded_len32 ?word \<le> 5" by (rule encoded_len32_le)
  have t: "take (encoded_len32 ?word + 1) (spell_head ?word @ replicate (6 - encoded_len32 ?word) 0) = spell_head ?word @ [0]"
    using w by (simp add: length_spell_head)
  have l: "length (spell_head ?word @ [0]) \<le> admission_MAX" using w by (simp add: length_spell_head admission_MAX_eq)
  have e: "on_enter input ?word q =
    (if length ?text > admission_MAX then Some (q\<lparr>on_run := None\<rparr>, Inl (length ?text))
     else cv_try (on_append (spell_head ?word @ [0]) q1)
       (\<lambda>q _. do { rel \<leftarrow> on_rel q; Some (q\<lparr>on_holes := rel # on_holes q\<rparr>, Inr ()) }))"
    unfolding on_enter_def flush_then [OF assms] using w t by (simp add: emit_word q1_def Let_def cong: if_cong)
  show ?thesis
  proof (cases "length ?text > admission_MAX")
    case True
    then show ?thesis using online_out [OF assms(1)] by (simp add: e answers_Inl)
  next
    case False
    note a = append_at [of q1 out0 ?text "spell_head ?word @ [0]", OF _ _ _ l online_fits [OF assms(1)]]
    show ?thesis
    proof (cases "length (?text @ spell_head ?word @ [0]) > admission_MAX")
      case True
      with False a show ?thesis by (simp add: e q1_def answers_Inl)
    next
      case fits: False
      let ?q = "\<lparr>on_out = out0 @ ?text @ spell_head ?word @ [0], on_mark = length out0, on_run = None,
        on_holes = of_nat (length (?text @ spell_head ?word @ [0])) # cv_holes ups\<rparr>"
      have "on_enter input ?word q = Some (?q, Inr ())"
        using False a fits by (simp add: e q1_def rel_at [of _ out0] admitted_u32_def)
      moreover have "online_at out0 input at' ((here, Token f w PEnter) # ups, []) ?q"
        using fits online_fits [OF assms(1)] by (simp add: online_at_def cv_pending_def cv_run_ok_def)
      ultimately show ?thesis by (simp add: answers_Inr)
    qed
  qed
qed

lemma spell_len_at:
  assumes "n \<le> admission_MAX"
  shows "spell_len n = enc (encoded_len32 (of_nat n)) n" "encoded_len32 (of_nat n) = length (spell_len n)"
    "unat (of_nat n :: u32) = n" "unat (of_nat n :: u64) = n" "(of_nat n :: u64) = ucast (of_nat n :: u32)"
proof -
  have n: "n < 2 ^ 31" using assms by (simp add: admission_MAX_eq)
  then show u: "unat (of_nat n :: u32) = n" "unat (of_nat n :: u64) = n" by (simp_all add: unat_of_nat)
  then show c: "(of_nat n :: u64) = ucast (of_nat n :: u32)" using u by (simp add: word_unat_eq_iff)
  then show "encoded_len32 (of_nat n) = length (spell_len n)" "spell_len n = enc (encoded_len32 (of_nat n)) n"
    by (simp_all only: spell_len_def length_spell64 encoded_len32_ucast) (simp add: spell64_def u)
qed

lemma shift_at:
  assumes "length body \<le> admission_MAX" "new_len = of_nat (length body)" "need = encoded_len32 new_len"
    and room: "vec_reserve (need - 1) (P @ [0] @ body) = Some ()"
  shows "on_shift (length P) new_len need (P @ [0] @ body) = Some (P @ spell_len (length body) @ body)"
proof -
  note u = spell_len_at [OF assms(1)]
  from encoded_len32_pos [of new_len] obtain k where k: "need = Suc k" by (cases need) (simp_all add: assms(3))
  let ?mem = "P @ [0] @ replicate k 0 @ body"
  have d: "drop (length P + need) ?mem = body" by (simp add: k)
  have "write64_at ?mem (length P) (ucast new_len) need = Some (P @ enc need (unat (ucast new_len :: u64)) @ body)"
    using write64_at_enc [of need "length P" ?mem "ucast new_len"] d by (simp add: k)
  moreover have "unat (ucast new_len :: u64) = length body" using u(4,5) by (simp add: assms(2))
  ultimately have w: "write64_at ?mem (length P) (ucast new_len) need = Some (P @ spell_len (length body) @ body)"
    using u(1) assms(2,3) by simp
  have "extent_of (P @ [0] @ body) (length P + 1) (length P + 1 + length body) = body" by (simp add: extent_of_def)
  moreover have "take (length P + 1) (P @ [0] @ body) = P @ [0]" by simp
  ultimately show ?thesis using w room by (simp add: on_shift_def k)
qed

lemma on_exit_answers:
  assumes "online_at out0 input at ((prior, e) # rest, here) q" "at \<le> length input" "length input \<le> admission_MAX"
  shows "cv_answers out0 input at' (rest, prior @ [CvGroup (tk_field e) w w' here]) (on_exit input q)"
proof -
  define A where "A = cv_held rest @ cv_convs prior @ spell_head (wire_tag_word (tk_field e) 2)"
  define body where "body = cv_convs here"
  let ?text = "A @ [0] @ body" and ?site = "(rest, prior @ [CvGroup (tk_field e) w w' here])"
  let ?text' = "A @ spell_len (length body) @ body"
  have t: "cv_text ((prior, e) # rest, here) = ?text" "cv_text ?site = ?text'" "cv_held ((prior, e) # rest) = A @ [0]"
    by (simp_all add: A_def body_def framed_def)
  have h: "cv_holes ((prior, e) # rest) = of_nat (length A + 1) # cv_holes rest"
    unfolding cv_holes.simps t(3) by simp
  define q1 where "q1 = \<lparr>on_out = out0 @ ?text, on_mark = length out0, on_run = None, on_holes = cv_holes rest\<rparr>"
  have x: "on_exit input q =
    (if length ?text > admission_MAX then Some (q\<lparr>on_run := None\<rparr>, Inl (length ?text))
     else do { rel \<leftarrow> on_rel q1;
               new_len \<leftarrow> word_sub rel (of_nat (length A + 1));
               let need = encoded_len32 new_len in
               do { hole_abs \<leftarrow> usub (on_mark q1 + usize_of (of_nat (length A + 1))) 1;
                    if need = 1 then
                      (if hole_abs < length (on_out q1)
                       then Some (q1\<lparr>on_out := (on_out q1)[hole_abs := ucast new_len]\<rparr>, Inr ()) else None)
                    else
                      cv_try (on_admit (need - 1) q1)
                        (\<lambda>q _. do { out \<leftarrow> on_shift hole_abs new_len need (on_out q);
                                    Some (q\<lparr>on_out := out\<rparr>, Inr ()) }) } })"
    unfolding on_exit_def flush_then [OF assms] t fst_conv h by (simp add: q1_def Let_def del: cv_holes.simps cong: if_cong)
  show ?thesis
  proof (cases "length ?text > admission_MAX")
    case True
    have "length ?text \<le> length ?text'" using spell_bounds(5) [of "length body"] by (simp add: Suc_le_eq)
    with True show ?thesis using online_out [OF assms(1)] by (simp add: x answers_Inl t(2) del: cv_text_simps)
  next
    case False
    then have b: "length body \<le> admission_MAX" and a: "length A + 1 \<le> admission_MAX" by simp_all
    note u = spell_len_at [OF b]
    define need where "need = encoded_len32 (of_nat (length body))"
    have n: "0 < need" "need \<le> 5" using encoded_len32_pos encoded_len32_le by (simp_all add: need_def Suc_le_eq)
    have ua: "unat (of_nat (length A + 1) :: u32) = length A + 1" using a spell_len_at(3) by blast
    have ut: "unat (of_nat (length ?text) :: u32) = length ?text" using False spell_len_at(3) [of "length ?text"] by simp
    have sub: "word_sub (admitted_u32 (length ?text)) (of_nat (length A + 1)) = Some (of_nat (length body) :: u32)"
      using ua ut by (simp add: word_sub_def admitted_u32_def word_le_nat_alt)
    have y: "on_exit input q =
      (if need = 1 then Some (q1\<lparr>on_out := (out0 @ ?text)[length (out0 @ A) := ucast (of_nat (length body) :: u32)]\<rparr>, Inr ())
       else cv_try (on_admit (need - 1) q1)
         (\<lambda>q _. do { out \<leftarrow> on_shift (length (out0 @ A)) (of_nat (length body)) need (on_out q);
                     Some (q\<lparr>on_out := out\<rparr>, Inr ()) }))"
      using False ua sub rel_at [of q1 out0 ?text]
      by (simp add: x q1_def need_def usize_of_def Let_def)
    have ok: "online_at out0 input at' ?site (q1\<lparr>on_out := out0 @ ?text'\<rparr>)" if "length ?text' \<le> admission_MAX"
      unfolding online_at_def t(2) using that online_fits [OF assms(1)] by (simp add: q1_def cv_pending_def cv_run_ok_def)
    show ?thesis
    proof (cases "need = 1")
      case True
      have p: "spell_len (length body) = enc need (length body)" unfolding need_def by (rule u(1))
      have "spell_len (length body) = [of_nat (length body)]" unfolding p True by simp
      then have "(out0 @ ?text)[length (out0 @ A) := ucast (of_nat (length body) :: u32)] = out0 @ ?text'"
        using u(3) by (simp add: list_update_append ucast_of_nat)
      moreover have "length ?text' = length ?text" unfolding p True by simp
      ultimately show ?thesis using True False ok by (simp add: y answers_Inr)
    next
      case wide: False
      note adm = admit_at [of q1 out0 ?text "need - 1"]
      have l: "length ?text' = length ?text + (need - 1)" using n u(2) by (simp add: need_def)
      show ?thesis
      proof (cases "length ?text + (need - 1) > admission_MAX")
        case True
        with wide False n adm l show ?thesis
          by (simp add: y q1_def answers_Inl t(2) admission_MAX_eq del: cv_text_simps)
      next
        case fits: False
        have "on_shift (length (out0 @ A)) (of_nat (length body)) need ((out0 @ A) @ [0] @ body) =
          Some ((out0 @ A) @ spell_len (length body) @ body)"
          by (rule shift_at [OF b refl])
            (use fits reserve_fits [OF online_fits [OF assms(1)], of "(out0 @ A) @ [0] @ body" "need - 1"] in \<open>simp_all add: need_def\<close>)
        with wide False n adm fits have "on_exit input q = Some (q1\<lparr>on_out := out0 @ ?text'\<rparr>, Inr ())"
          by (simp add: y q1_def admission_MAX_eq)
        with ok l fits show ?thesis by (simp add: answers_Inr)
      qed
    qed
  qed
qed

lemma extent_extend:
  assumes "a \<le> at" "at + n \<le> length input" "take n (drop at input) = bs"
  shows "extent_of input a (at + n) = extent_of input a at @ bs"
proof -
  have "at + n - a = (at - a) + n" "drop (at - a) (drop a input) = drop at input" using assms(1) by simp_all
  then show ?thesis using assms(3) by (simp add: extent_of_def take_add)
qed

text \<open>The input's run grows by a token.\<close>

lemma run_extend:
  assumes "cv_run_ok at run" "drop at input = emit_tok t @ rest" "length input \<le> admission_MAX"
    "at + length (emit_tok t) \<le> length input"
  shows "(case run of None \<Rightarrow> True | Some (a, b) \<Rightarrow> b = of_nat at)"
    "cv_run_ok (at + length (emit_tok t))
      (Some (case run of None \<Rightarrow> of_nat at | Some (a, b) \<Rightarrow> a, of_nat (at + length (emit_tok t))))"
    "cv_pending input (Some (case run of None \<Rightarrow> of_nat at | Some (a, b) \<Rightarrow> a, of_nat (at + length (emit_tok t)))) =
       cv_pending input run @ emit_tok t"
proof -
  have u: "unat (of_nat at :: u32) = at" "unat (of_nat (at + length (emit_tok t)) :: u32) = at + length (emit_tok t)"
    using assms(3,4) spell_len_at(3) [of at] spell_len_at(3) [of "at + length (emit_tok t)"] by simp_all
  show "case run of None \<Rightarrow> True | Some (a, b) \<Rightarrow> b = of_nat at"
    using assms(1) by (auto simp: cv_run_ok_def split: option.splits)
  show "cv_run_ok (at + length (emit_tok t))
      (Some (case run of None \<Rightarrow> of_nat at | Some (a, b) \<Rightarrow> a, of_nat (at + length (emit_tok t))))"
    using assms(1) u by (auto simp: cv_run_ok_def word_le_nat_alt simp del: of_nat_add split: option.splits)
  have t: "take (length (emit_tok t)) (drop at input) = emit_tok t" using assms(2) by simp
  show "cv_pending input (Some (case run of None \<Rightarrow> of_nat at | Some (a, b) \<Rightarrow> a, of_nat (at + length (emit_tok t)))) =
       cv_pending input run @ emit_tok t"
  proof (cases run)
    case None
    with u extent_extend [OF order_refl assms(4) t] show ?thesis
      by (simp add: cv_pending_def extent_of_def del: of_nat_add)
  next
    case (Some ab)
    then obtain a b where "run = Some (a, b)" "unat a \<le> at" "unat b = at"
      using assms(1) by (cases ab) (auto simp: cv_run_ok_def word_le_nat_alt)
    with u extent_extend [OF _ assms(4) t, of "unat a"] show ?thesis
      by (simp add: cv_pending_def del: of_nat_add)
  qed
qed

lemma on_verbatim_at:
  assumes "online_at out0 input at (ups, here) q" "drop at input = emit_tok t @ rest" "length input \<le> admission_MAX"
    "at + length (emit_tok t) \<le> length input"
  shows "\<exists>q'. on_verbatim (of_nat at) (of_nat (at + length (emit_tok t))) q = Some q' \<and>
    online_at out0 input (at + length (emit_tok t)) (ups, here @ [CvLeaf t]) q'"
proof -
  define run where "run = Some (case on_run q of None \<Rightarrow> of_nat at | Some (a, b) \<Rightarrow> a, of_nat (at + length (emit_tok t)) :: u32)"
  have k: "cv_run_ok at (on_run q)" using assms(1) by (simp add: online_at_def)
  note x = run_extend [OF k assms(2-4)]
  have "on_verbatim (of_nat at) (of_nat (at + length (emit_tok t))) q = Some (q\<lparr>on_run := run\<rparr>)"
    using x(1) by (auto simp: on_verbatim_def run_def split: option.splits)
  moreover have "online_at out0 input (at + length (emit_tok t)) (ups, here @ [CvLeaf t]) (q\<lparr>on_run := run\<rparr>)"
    using assms(1) x(2,3) unfolding online_at_def by (fastforce simp: run_def)
  ultimately show ?thesis by blast
qed

section \<open>The driven loop\<close>

definition cv_driving :: "bytes \<Rightarrow> bytes \<Rightarrow> cv_site \<Rightarrow> nat \<Rightarrow> cv_stats \<times> cv_online \<Rightarrow> bool" where
  "cv_driving out0 input site at z \<longleftrightarrow> online_at out0 input at site (snd z) \<and> fst z = \<lparr>cv_converted = cv_counted site\<rparr>"

definition cv_overrun :: "cv_site \<Rightarrow> cv_fault \<Rightarrow> bool" where
  "cv_overrun site f \<longleftrightarrow> (\<exists>n. f = cv_output_fault n \<and> admission_MAX < n \<and> n \<le> length (cv_text site))"

definition cv_intact :: "bytes \<Rightarrow> cv_stats \<times> cv_online \<Rightarrow> bool" where
  "cv_intact out0 z \<longleftrightarrow> take (length out0) (on_out (snd z)) = out0"

lemma capped_answers:
  assumes "cv_answers out0 input at site r" "stats = \<lparr>cv_converted = cv_counted site\<rparr>"
  shows "\<exists>z x. (do { (q, x) \<leftarrow> cv_capped r; Some ((stats, q), x) }) = Some (z, x) \<and> cv_intact out0 z \<and>
    (case x of Inl f \<Rightarrow> cv_overrun site f | Inr _ \<Rightarrow> cv_driving out0 input site at z)"
proof -
  from assms(1) obtain q x where x: "r = Some (q, x)" "take (length out0) (on_out q) = out0"
    "case x of Inr _ \<Rightarrow> online_at out0 input at site q | Inl n \<Rightarrow> n > admission_MAX \<and> n \<le> length (cv_text site)"
    by (auto simp: cv_answers_def)
  then show ?thesis
    by (cases x) (auto simp: cv_capped_def cv_intact_def cv_overrun_def cv_driving_def assms(2))
qed

lemma entry_parts [simp]:
  "entry_field_gr (entry_of_gr t) = tk_field t" "entry_kind_gr (entry_of_gr t) = entry_kind_of_gr (tk_payload t)"
  by (simp_all add: entry_of_gr_def)

lemma leaf_kind:
  "\<not> is_group (tk_payload t) \<Longrightarrow> (case entry_kind_gr (entry_of_gr t) of EkGroupEnter_gr \<Rightarrow> a | EkGroupExit_gr \<Rightarrow> b | _ \<Rightarrow> c) = c"
  by (cases "tk_payload t") simp_all

lemma drive_entry_site:
  assumes g: "cv_grown input c site" and l: "lawful_gr m c t" and s: "suffix_gr c = emit_tok t @ rest"
    and r: "cv_driving out0 input site (cur_at_gr c) z"
  shows "\<exists>z' x. cv_drive_entry input (entry_of_gr t) (of_nat (cur_at_gr c)) (of_nat (cur_at_gr c + length (emit_tok t))) z = Some (z', x) \<and>
    cv_intact out0 z' \<and> (case x of Inl f \<Rightarrow> cv_overrun (cv_grow t site) f
      | Inr _ \<Rightarrow> cv_driving out0 input (cv_grow t site) (cur_at_gr c + length (emit_tok t)) z')"
proof -
  obtain ups here where site: "site = (ups, here)" by (cases site)
  obtain stats q where z: "z = (stats, q)" by (cases z)
  let ?at = "cur_at_gr c" and ?to = "cur_at_gr c + length (emit_tok t)"
  have o: "online_at out0 input ?at (ups, here) q" and n: "stats = \<lparr>cv_converted = cv_counted site\<rparr>"
    using r by (simp_all add: cv_driving_def z site)
  have i: "length input \<le> admission_MAX" "?at \<le> length input" using g by (simp_all add: cv_grown_def)
  have to: "?to \<le> length input"
    using grown_adv [OF g l s] cursor_pos_adv(2) [OF l] by (simp add: cv_grown_def)
  have d: "drop ?at input = emit_tok t @ rest" using g s by (simp add: suffix_gr_def cv_grown_def)
  note count = counted_grow [OF g l]
  show ?thesis
  proof (cases t rule: token_cases)
    case enter
    have "cv_answers out0 input ?to (cv_grow t site) (on_enter input (wire_tag_word (tk_field t) 2) q)"
      using on_enter_answers [OF o i(2,1), of ?to "tk_field t" "tk_width t"] enter token_eqI [OF enter] by (simp add: site)
    from capped_answers [OF this refl] enter cv_count_Some [OF counted_le(2) [OF g]] count
    show ?thesis by (simp add: cv_drive_entry_def z n head_word_gl_def)
  next
    case exit
    from grown_exit [OF g [unfolded site] l exit] obtain prior e up where u: "ups = (prior, e) # up" by metis
    have "cv_answers out0 input ?to (cv_grow t site) (on_exit input q)"
      using on_exit_answers [OF o [unfolded u] i(2,1), of ?to "tk_width e" "tk_width t"] exit by (simp add: site u)
    from capped_answers [OF this refl] exit count
    show ?thesis by (simp add: cv_drive_entry_def z n)
  next
    case leaf
    from on_verbatim_at [OF o d i(1) to] obtain q' where
      q': "on_verbatim (of_nat ?at) (of_nat ?to) q = Some q'" "online_at out0 input ?to (ups, here @ [CvLeaf t]) q'" by blast
    have "cv_drive_entry input (entry_of_gr t) (of_nat ?at) (of_nat ?to) z = Some ((stats, q'), Inr ())"
      unfolding cv_drive_entry_def z Let_def prod.case leaf_kind [OF leaf] q'(1) by simp
    moreover have "cv_counted (cv_grow t site) = cv_counted site" using count leaf by auto
    ultimately show ?thesis
      using q'(2) leaf online_out [OF q'(2)] by (simp add: cv_driving_def cv_intact_def n site)
  qed
qed

interpretation driving: site_consumer m input "cv_drive_entry input" "\<lambda>fault z. Some (cv_wire fault)"
    "cv_driving out0 input" cv_overrun "cv_intact out0" for m out0 input
proof
  fix c site t rest s f g at
  show "cv_grown input c site \<Longrightarrow> lawful_gr m c t \<Longrightarrow> suffix_gr c = emit_tok t @ rest \<Longrightarrow> cv_driving out0 input site (cur_at_gr c) s \<Longrightarrow>
      \<exists>s' x. cv_drive_entry input (entry_of_gr t) (of_nat (cur_at_gr c)) (of_nat (cur_at_gr c + length (emit_tok t))) s = Some (s', x) \<and>
        cv_intact out0 s' \<and> (case x of Inl f \<Rightarrow> cv_overrun (cv_grow t site) f | Inr _ \<Rightarrow> cv_driving out0 input (cv_grow t site) (cur_at_gr c + length (emit_tok t)) s')"
    by (rule drive_entry_site)
  show "cv_grown input c site \<Longrightarrow> lawful_gr m c t \<Longrightarrow> cv_overrun site f \<Longrightarrow> cv_overrun (cv_grow t site) f"
    using text_grows [of input c site m t] by (auto simp: cv_overrun_def)
  show "Some (cv_wire g) \<noteq> None" by simp
  show "cv_driving out0 input site at s \<Longrightarrow> cv_intact out0 s"
    using online_out [of out0 input at site "snd s"] by (simp add: cv_driving_def cv_intact_def)
qed

end
