(* ===== verification/Convert_Into.thy ===== *)
theory Convert_Into
  imports Convert_Online Walk
begin

text \<open>
  The Vec faces of the groupless-output converter (\<open>src/src/convert/groupless.rs\<close>, \<open>convert\<close> and \<open>convert_into\<close>): when
  they succeed and with which document, what they refuse and where, and that a refusal leaves no trace. The
  converted document is a groupless one.
\<close>

section \<open>The drive\<close>

lemma fresh_over:
  "cursor_over_gr input limit = (if length input > admission_MAX then Inl Oversize else Inr (cv_fresh input limit))"
  by (simp add: cursor_over_gr_def cv_fresh_def)

definition cv_start :: "bytes \<Rightarrow> cv_stats \<times> cv_online" where
  "cv_start out = (\<lparr>cv_converted = 0\<rparr>, \<lparr>on_out = out, on_mark = length out, on_run = None, on_holes = []\<rparr>)"

lemma start_driving: "vec_fits out \<Longrightarrow> cv_driving out input ([], []) 0 (cv_start out)"
  by (simp add: cv_driving_def cv_start_def cv_counted_def online_at_def cv_pending_def cv_run_ok_def)

definition cv_looped :: "bool \<Rightarrow> bytes \<Rightarrow> depth_limit \<Rightarrow> bytes \<Rightarrow> ((cv_stats \<times> cv_online) \<times> (cv_fault + unit)) option" where
  "cv_looped m input limit out =
     cv_loop m (cv_drive_entry input) (\<lambda>fault z. Some (cv_wire fault)) (cv_fresh input (GroupDepth_from limit)) 0 (cv_start out)"

text \<open>The drive's answer, from what the loop left.\<close>

lemma drive_looped:
  assumes "length input \<le> admission_MAX"
  shows "cv_drive m input limit out (length out) =
    do { ((stats, q), x) \<leftarrow> cv_try (cv_looped m input limit out)
           (\<lambda>(stats, q) _. do { (q, x) \<leftarrow> cv_capped (on_finish input q); Some ((stats, q), x) });
         Some (on_out q, map_sum id (\<lambda>_. stats) x) }"
  using assms by (simp add: cv_drive_def fresh_over cv_looped_def cv_start_def)

lemma finish_at:
  assumes "cv_driving out input ([], fs) (length input) z" "length input \<le> admission_MAX"
  shows "cv_capped (on_finish input (snd z)) =
    (if length (cv_convs fs) > admission_MAX then Some ((snd z)\<lparr>on_run := None\<rparr>, Inl (cv_output_fault (length (cv_convs fs))))
     else Some (\<lparr>on_out = out @ cv_convs fs, on_mark = length out, on_run = None, on_holes = []\<rparr>, Inr ()))"
proof -
  have o: "online_at out input (length input) ([], fs) (snd z)" using assms(1) by (simp add: cv_driving_def)
  show ?thesis unfolding on_finish_def cv_capped_def flush_then [OF o order_refl assms(2)] by simp
qed

lemma drive_clean:
  assumes "length input \<le> admission_MAX" "cv_looped m input limit out = Some (z, Inr u)" "vec_fits out"
  obtains fs where "cv_forest m (GroupDepth_from limit) fs" "input = emit (cv_flats fs)"
    "if length (cv_convs fs) > admission_MAX
     then \<exists>out'. cv_drive m input limit out (length out) = Some (out', Inl (cv_output_fault (length (cv_convs fs)))) \<and> take (length out) out' = out
     else cv_drive m input limit out (length out) = Some (out @ cv_convs fs, Inr \<lparr>cv_converted = cv_groups fs\<rparr>)"
proof -
  from driving.run_clean [OF start_driving [OF assms(3)] assms(1) assms(2) [unfolded cv_looped_def]] obtain fs where
    fs: "cv_forest m (GroupDepth_from limit) fs" "input = emit (cv_flats fs)" "cv_driving out input ([], fs) (length input) z" .
  have "take (length out) (on_out (snd z)) = out" using fs(3) online_out by (auto simp: cv_driving_def)
  moreover have "fst z = \<lparr>cv_converted = cv_groups fs\<rparr>" using fs(3) by (simp add: cv_driving_def cv_counted_def)
  ultimately have "if length (cv_convs fs) > admission_MAX
     then \<exists>out'. cv_drive m input limit out (length out) = Some (out', Inl (cv_output_fault (length (cv_convs fs)))) \<and> take (length out) out' = out
     else cv_drive m input limit out (length out) = Some (out @ cv_convs fs, Inr \<lparr>cv_converted = cv_groups fs\<rparr>)"
    using finish_at [OF fs(3) assms(1)] by (cases z) (simp add: drive_looped [OF assms(1)] assms(2))
  with fs(1,2) show thesis by (rule that)
qed

lemma drive_fault:
  "length input \<le> admission_MAX \<Longrightarrow> cv_looped m input limit out = Some (z, Inl f) \<Longrightarrow>
   cv_drive m input limit out (length out) = Some (on_out (snd z), Inl f)"
  by (cases z) (simp add: drive_looped)

lemma looped_returns:
  assumes "length input \<le> admission_MAX" "vec_fits out"
  obtains z x where "cv_looped m input limit out = Some (z, x)" "take (length out) (on_out (snd z)) = out"
proof -
  from driving.run_returns [OF start_driving [OF assms(2)] assms(1)] obtain z x where
    "cv_looped m input limit out = Some (z, x)" "cv_intact out z" unfolding cv_looped_def by blast
  then show thesis by (intro that) (simp_all add: cv_intact_def)
qed

lemma drive_exact:
  assumes "length input \<le> admission_MAX" "vec_fits out"
  shows "cv_drive m input limit out (length out) = Some (out', Inr stats) \<longleftrightarrow>
    (\<exists>fs. cv_forest m (GroupDepth_from limit) fs \<and> input = emit (cv_flats fs) \<and> length (cv_convs fs) \<le> admission_MAX \<and>
      out' = out @ cv_convs fs \<and> stats = \<lparr>cv_converted = cv_groups fs\<rparr>)"
    (is "?L \<longleftrightarrow> ?R")
proof
  assume L: ?L
  obtain z x where x: "cv_looped m input limit out = Some (z, x)" by (rule looped_returns [OF assms])
  show ?R
  proof (cases x)
    case (Inl f)
    with L x drive_fault [OF assms(1)] show ?thesis by simp
  next
    case (Inr u)
    with x have "cv_looped m input limit out = Some (z, Inr u)" by simp
    from drive_clean [OF assms(1) this assms(2)] obtain fs where fs: "cv_forest m (GroupDepth_from limit) fs" "input = emit (cv_flats fs)"
      and r: "if length (cv_convs fs) > admission_MAX
       then \<exists>out'. cv_drive m input limit out (length out) = Some (out', Inl (cv_output_fault (length (cv_convs fs)))) \<and> take (length out) out' = out
       else cv_drive m input limit out (length out) = Some (out @ cv_convs fs, Inr \<lparr>cv_converted = cv_groups fs\<rparr>)" .
    show ?thesis using fs r L by (intro exI [of _ fs]) (simp split: if_splits)
  qed
next
  assume ?R
  then obtain fs where fs: "cv_forest m (GroupDepth_from limit) fs" "input = emit (cv_flats fs)" "length (cv_convs fs) \<le> admission_MAX"
    "out' = out @ cv_convs fs" "stats = \<lparr>cv_converted = cv_groups fs\<rparr>" by blast
  from driving.run_forest [OF start_driving [OF assms(2)] assms(1) fs(1,2)] obtain z x where
    z: "cv_looped m input limit out = Some (z, x)"
    "case x of Inl f \<Rightarrow> cv_overrun ([], fs) f | Inr _ \<Rightarrow> cv_driving out input ([], fs) (length input) z"
    unfolding cv_looped_def by blast
  show ?L
  proof (cases x)
    case (Inl f)
    with z(2) fs(3) show ?thesis by (auto simp: cv_overrun_def)
  next
    case (Inr u)
    with z have d: "cv_driving out input ([], fs) (length input) z" by simp
    then have "fst z = stats" by (simp add: cv_driving_def cv_counted_def fs(5))
    with finish_at [OF d assms(1)] Inr z(1) fs(3,4) show ?thesis by (cases z) (simp add: drive_looped [OF assms(1)])
  qed
qed

text \<open>A lawful document is refused for its length only, and the length refused is no longer than its converted form.\<close>

lemma drive_forest_fault:
  assumes "length input \<le> admission_MAX" "vec_fits out" "cv_forest m (GroupDepth_from limit) fs" "input = emit (cv_flats fs)"
    and "cv_drive m input limit out (length out) = Some (out', Inl f)"
  shows "cv_overrun ([], fs) f"
proof -
  from driving.run_forest [OF start_driving [OF assms(2)] assms(1,3,4)] obtain z x where
    z: "cv_looped m input limit out = Some (z, x)"
    "case x of Inl f \<Rightarrow> cv_overrun ([], fs) f | Inr _ \<Rightarrow> cv_driving out input ([], fs) (length input) z"
    unfolding cv_looped_def by blast
  show ?thesis
  proof (cases x)
    case (Inl g)
    with z drive_fault [OF assms(1)] assms(5) show ?thesis by simp
  next
    case (Inr u)
    with z have d: "cv_driving out input ([], fs) (length input) z" by simp
    with finish_at [OF d assms(1)] Inr z(1) assms(5) show ?thesis
      by (cases z) (auto simp: drive_looped [OF assms(1)] cv_overrun_def split: if_splits)
  qed
qed

text \<open>The input begins with the records of a site.\<close>

definition cv_begins :: "bytes \<Rightarrow> cv_site \<Rightarrow> bool" where
  "cv_begins input site \<longleftrightarrow>
     (\<exists>rest. input = emit (cv_told (fst site) @ cv_flats (snd site)) @ rest) \<and>
     list_all tok_ok (cv_told (fst site) @ cv_flats (snd site)) \<and>
     list_all (\<lambda>(prior, e). tk_payload e = PEnter \<and> cv_plains prior) (fst site) \<and> cv_plains (snd site)"

lemma grown_begins:
  assumes "cv_grown input c site"
  shows "cv_begins input site"
proof -
  have "input = take (cur_at_gr c) input @ drop (cur_at_gr c) input" by simp
  with assms show ?thesis unfolding cv_begins_def cv_grown_def by metis
qed

text \<open>What a fault of the drive says.\<close>

definition cv_outgrows :: "bool \<Rightarrow> bytes \<Rightarrow> depth_limit \<Rightarrow> nat \<Rightarrow> bool" where
  "cv_outgrows m input limit n \<longleftrightarrow>
     admission_MAX < n \<and> (\<exists>site. cv_begins input site \<and> n \<le> length (cv_text site)) \<and>
     (\<forall>fs. cv_forest m (GroupDepth_from limit) fs \<longrightarrow> input = emit (cv_flats fs) \<longrightarrow> n \<le> length (cv_convs fs))"

definition cv_refused :: "bool \<Rightarrow> bytes \<Rightarrow> depth_limit \<Rightarrow> cv_fault \<Rightarrow> bool" where
  "cv_refused m input limit f \<longleftrightarrow>
     (\<exists>es fault c'. walk (step_gr m) (cv_fresh input (GroupDepth_from limit)) = Some (es, Some fault, c') \<and> f = cv_wire fault) \<or>
     (\<exists>n. f = cv_output_fault n \<and> cv_outgrows m input limit n)"

lemma drive_refused:
  assumes "length input \<le> admission_MAX" "cv_drive m input limit out (length out) = Some (out', Inl f)" "vec_fits out"
  shows "cv_refused m input limit f"
proof -
  have o: "cv_refused m input limit f" if b: "cv_begins input site" "cv_overrun site f" for site
  proof -
    from b(2) obtain n where n: "f = cv_output_fault n" "admission_MAX < n" "n \<le> length (cv_text site)" by (auto simp: cv_overrun_def)
    have "n \<le> length (cv_convs fs)" if "cv_forest m (GroupDepth_from limit) fs" "input = emit (cv_flats fs)" for fs
      using drive_forest_fault [OF assms(1,3) that assms(2)] n(1) by (auto simp: cv_overrun_def cv_output_fault_def)
    with n b(1) show ?thesis unfolding cv_refused_def cv_outgrows_def by blast
  qed
  obtain z x where x: "cv_looped m input limit out = Some (z, x)" by (rule looped_returns [OF assms(1,3)])
  show ?thesis
  proof (cases x)
    case (Inl g)
    with assms x drive_fault [OF assms(1)] have g: "cv_looped m input limit out = Some (z, Inl f)" by simp
    have "cv_driving out input ([], []) (cur_at_gr (cv_fresh input (GroupDepth_from limit))) (cv_start out)"
      using start_driving [OF assms(3)] by (simp add: cv_fresh_def)
    from driving.loop_fault [OF grown_fresh [OF assms(1)] this, of m z f] g
    consider "\<exists>es fault c'. walk (step_gr m) (cv_fresh input (GroupDepth_from limit)) = Some (es, Some fault, c') \<and> f = cv_wire fault"
      | c' site where "cv_grown input c' site" "cv_overrun site f"
      by (auto simp: cv_looped_def cv_fresh_def)
    then show ?thesis
    proof cases
      case 1
      then show ?thesis by (simp add: cv_refused_def)
    next
      case 2
      from o [OF grown_begins [OF 2(1)] 2(2)] show ?thesis .
    qed
  next
    case (Inr u)
    with x have "cv_looped m input limit out = Some (z, Inr u)" by simp
    from drive_clean [OF assms(1) this assms(3)] obtain fs where fs: "cv_forest m (GroupDepth_from limit) fs" "input = emit (cv_flats fs)" .
    then have "cv_plains fs" using deeps_plains by (auto simp: cv_forest_def)
    with fs have "cv_begins input ([], fs)" by (simp add: cv_begins_def cv_forest_def)
    from o [OF this drive_forest_fault [OF assms(1,3) fs assms(2)]] show ?thesis .
  qed
qed

lemma drive_answers:
  assumes "length input \<le> admission_MAX" "vec_fits out"
  obtains out' x where "cv_drive m input limit out (length out) = Some (out', x)" "take (length out) out' = out"
proof -
  obtain z x where x: "cv_looped m input limit out = Some (z, x)" "take (length out) (on_out (snd z)) = out"
    by (rule looped_returns [OF assms])
  show thesis
  proof (cases x)
    case (Inl g)
    with x drive_fault [OF assms(1)] show ?thesis by (intro that) simp_all
  next
    case (Inr u)
    with x have "cv_looped m input limit out = Some (z, Inr u)" by simp
    from drive_clean [OF assms(1) this assms(2)] obtain fs where
      "if length (cv_convs fs) > admission_MAX
       then \<exists>out'. cv_drive m input limit out (length out) = Some (out', Inl (cv_output_fault (length (cv_convs fs)))) \<and> take (length out) out' = out
       else cv_drive m input limit out (length out) = Some (out @ cv_convs fs, Inr \<lparr>cv_converted = cv_groups fs\<rparr>)" .
    then show thesis using that by (fastforce split: if_splits)
  qed
qed

section \<open>The faces\<close>

definition cv_minimal :: "cv_converter \<Rightarrow> bool" where
  "cv_minimal v \<longleftrightarrow> cv_standard v = CanonicalMinimal"

lemma into_drive:
  "cv_convert_into v input out =
     do { (out', x) \<leftarrow> cv_drive (cv_minimal v) input (cv_limit v) out (length out);
          Some (case x of Inr stats \<Rightarrow> (out', Inr stats) | Inl fault \<Rightarrow> (take (length out) out', Inl fault)) }"
  by (cases "cv_standard v") (simp_all add: cv_convert_into_def cv_minimal_def cv_run_into_def Let_def)

lemma drive_oversize:
  "admission_MAX < length input \<Longrightarrow> cv_drive m input limit out mark = Some (out, Inl \<lparr>cv_at = 0, cv_kind = CvOversize\<rparr>)"
  by (simp add: cv_drive_def fresh_over)

lemma into_exact:
  assumes "vec_fits out"
  shows "cv_convert_into v input out = Some (out', Inr stats) \<longleftrightarrow>
     length input \<le> admission_MAX \<and>
     (\<exists>fs. cv_forest (cv_minimal v) (GroupDepth_from (cv_limit v)) fs \<and> input = emit (cv_flats fs) \<and>
        length (cv_convs fs) \<le> admission_MAX \<and> out' = out @ cv_convs fs \<and> stats = \<lparr>cv_converted = cv_groups fs\<rparr>)"
proof (cases "length input \<le> admission_MAX")
  case True
  have "cv_convert_into v input out = Some (out', Inr stats) \<longleftrightarrow>
      cv_drive (cv_minimal v) input (cv_limit v) out (length out) = Some (out', Inr stats)"
    by (auto simp: into_drive split: bind_splits sum.splits)
  with drive_exact [OF True assms] True show ?thesis by simp
qed (simp add: into_drive drive_oversize)

lemma into_returns:
  assumes "vec_fits out"
  obtains out' x where "cv_convert_into v input out = Some (out', x)" "\<forall>f. x = Inl f \<longrightarrow> out' = out"
    "\<forall>f. x = Inl f \<longrightarrow> (if length input \<le> admission_MAX then cv_refused (cv_minimal v) input (cv_limit v) f
        else f = \<lparr>cv_at = 0, cv_kind = CvOversize\<rparr>)"
proof (cases "length input \<le> admission_MAX")
  case True
  obtain out' x where x: "cv_drive (cv_minimal v) input (cv_limit v) out (length out) = Some (out', x)" "take (length out) out' = out"
    by (rule drive_answers [OF True assms])
  with drive_refused [OF True _ assms] True show thesis
    by (cases x) (auto intro!: that simp: into_drive)
qed (auto intro!: that simp: into_drive drive_oversize)

lemma converted_iff:
  "cv_convert v input = Some (Inr (out, stats)) \<longleftrightarrow>
     length input \<le> admission_MAX \<and>
     (\<exists>fs. input = emit (cv_flats fs) \<and> cv_forest (cv_minimal v) (GroupDepth_from (cv_limit v)) fs \<and>
        out = cv_convs fs \<and> length out \<le> admission_MAX \<and> stats = \<lparr>cv_converted = cv_groups fs\<rparr>)"
proof -
  have "cv_convert v input = Some (Inr (out, stats)) \<longleftrightarrow> cv_convert_into v input [] = Some (out, Inr stats)"
    by (auto simp: cv_convert_def map_sum_def split: bind_splits sum.splits)
  also have "\<dots> \<longleftrightarrow> length input \<le> admission_MAX \<and>
     (\<exists>fs. input = emit (cv_flats fs) \<and> cv_forest (cv_minimal v) (GroupDepth_from (cv_limit v)) fs \<and>
        out = cv_convs fs \<and> length out \<le> admission_MAX \<and> stats = \<lparr>cv_converted = cv_groups fs\<rparr>)"
    unfolding into_exact [OF vec_fits_Nil] by auto
  finally show ?thesis .
qed

text \<open>The document of the source's own example: a varint, and a group holding one.\<close>

definition demo_grouped :: bytes where
  "demo_grouped = [0x08, 0x96, 0x01, 0x13, 0x18, 0x01, 0x14]"

definition demo_groupless :: bytes where
  "demo_groupless = [0x08, 0x96, 0x01, 0x12, 0x02, 0x18, 0x01]"

definition demo_trees :: "cv_tree list" where
  "demo_trees = [CvLeaf (Token 1 1 (PVarint 150 2)), CvGroup 2 1 1 [CvLeaf (Token 3 1 (PVarint 1 1))]]"

lemma demo_forest:
  "demo_grouped = emit (cv_flats demo_trees) \<and> cv_forest True (GroupDepth_from 1) demo_trees \<and>
   demo_groupless = cv_convs demo_trees \<and> length demo_grouped = 7 \<and> length demo_groupless = 7 \<and> cv_groups demo_trees = 1"
  by code_simp

text \<open>C1: The converter succeeds exactly on a grouped document that is a forest of lawful records within the depth limit, canonically
  spelled when the standard asks for it, whose converted form is no longer than a document may be; its answer is then
  that form, every group a length-delimited record of its converted body, and the number of groups.\<close>

theorem convert_exact:
  "cv_convert v input = Some (Inr (out, stats)) \<longleftrightarrow>
     length input \<le> admission_MAX \<and>
     (\<exists>fs. input = emit (cv_flats fs) \<and> cv_forest (cv_standard v = CanonicalMinimal) (GroupDepth_from (cv_limit v)) fs \<and>
        out = cv_convs fs \<and> length out \<le> admission_MAX \<and> stats = \<lparr>cv_converted = cv_groups fs\<rparr>)"
  unfolding converted_iff cv_minimal_def by (rule refl)

lemma convert_exact_witness:
  "cv_convert (cv_new CanonicalMinimal 1) demo_grouped = Some (Inr (demo_groupless, \<lparr>cv_converted = 1\<rparr>))"
  unfolding convert_exact using demo_forest by (auto simp: cv_new_def admission_MAX_eq)

text \<open>C3: Converting into a buffer always returns when the buffer and the largest document together fill at most half of what a vector
  may hold (nearer the limit an append may panic on the vector's capacity, as \<open>convert_into\<close> documents, and growing by doubling may ask for
  twice the length). On success the buffer has grown by exactly the document the owning face returns; on a fault it is what it
  was, and the owning face faults too.\<close>

theorem convert_into_atomic:
  assumes "2 * (length out + admission_MAX) \<le> VEC_MAX"
  shows "\<exists>out' x. cv_convert_into v input out = Some (out', x) \<and>
     (case x of
        Inr stats \<Rightarrow> (\<exists>doc. out' = out @ doc \<and> cv_convert v input = Some (Inr (doc, stats)))
      | Inl _ \<Rightarrow> out' = out \<and> (\<exists>f. cv_convert v input = Some (Inl f)))"
proof -
  have f: "vec_fits out" using assms by (simp add: vec_fits_def)
  obtain out' x where x: "cv_convert_into v input out = Some (out', x)" "\<forall>f. x = Inl f \<longrightarrow> out' = out" by (rule into_returns [OF f])
  obtain o0 y where y: "cv_convert_into v input [] = Some (o0, y)" by (rule into_returns [OF vec_fits_Nil])
  then have v: "cv_convert v input = Some (map_sum id (\<lambda>stats. (o0, stats)) y)" by (simp add: cv_convert_def)
  show ?thesis
  proof (cases x)
    case (Inr stats)
    from x(1) Inr have "cv_convert_into v input out = Some (out', Inr stats)" by simp
    then obtain doc where "out' = out @ doc" "cv_convert_into v input [] = Some (doc, Inr stats)"
      unfolding into_exact [OF f] into_exact [OF vec_fits_Nil] by auto
    with y have "out' = out @ o0" "y = Inr stats" by simp_all
    with x(1) v show ?thesis unfolding Inr by simp
  next
    case (Inl f')
    have "y \<noteq> Inr stats" for stats
    proof
      assume "y = Inr stats"
      with y have "cv_convert_into v input [] = Some (o0, Inr stats)" by simp
      then have "cv_convert_into v input out = Some (out @ o0, Inr stats)"
        unfolding into_exact [OF f] into_exact [OF vec_fits_Nil] by auto
      with x Inl show False by simp
    qed
    then obtain g where "y = Inl g" by (cases y) auto
    with x Inl v show ?thesis by simp
  qed
qed

lemma convert_into_atomic_witness:
  "\<exists>out' x. cv_convert_into (cv_new Tolerant 1) demo_grouped [1, 2] = Some (out', x) \<and>
     (case x of
        Inr stats \<Rightarrow> (\<exists>doc. out' = [1, 2] @ doc \<and> cv_convert (cv_new Tolerant 1) demo_grouped = Some (Inr (doc, stats)))
      | Inl _ \<Rightarrow> out' = [1, 2] \<and> (\<exists>f. cv_convert (cv_new Tolerant 1) demo_grouped = Some (Inl f)))"
  by (rule convert_into_atomic) (simp add: VEC_MAX_def admission_MAX_eq)

text \<open>The breach a cursor's fault is reported as, class by class.\<close>

fun cv_reports :: "cv_breach \<Rightarrow> fault_kind_gr \<Rightarrow> bool" where
  "cv_reports CvVarint k \<longleftrightarrow> (\<exists>stage cause. k = FkRead_gr stage cause)"
| "cv_reports CvTag k \<longleftrightarrow> (\<exists>word. k = FkFieldZero_gr word) \<or> (\<exists>f code. k = FkUnassigned_gr f code)"
| "cv_reports CvTruncated k \<longleftrightarrow> (\<exists>f. k = FkFixedTruncated_gr f) \<or> (\<exists>f len. k = FkLenOverrun_gr f len)"
| "cv_reports CvGrouping k \<longleftrightarrow>
     (\<exists>open at f. k = FkGroupEndMismatch_gr open at f) \<or> (\<exists>f. k = FkGroupEndOrphan_gr f) \<or> (\<exists>open at. k = FkGroupUnclosed_gr open at)"
| "cv_reports CvDepth k \<longleftrightarrow> (\<exists>f limit. k = FkDepthExceeded_gr f limit)"
| "cv_reports CvNonMinimal k \<longleftrightarrow> k = FkNonMinimalTag_gr \<or> (\<exists>f. k = FkNonMinimalLen_gr f) \<or> (\<exists>f. k = FkNonMinimalValue_gr f)"

lemma wire_reports:
  "cv_at (cv_wire fault) = fault_at_gr fault"
  "\<exists>b. cv_kind (cv_wire fault) = CvWire b \<and> cv_reports b (fault_kind_gr fault) \<and> cv_breach_class b = fault_class_gr (fault_kind_gr fault)"
  by (cases "fault_kind_gr fault"; simp add: cv_wire_def)+

text \<open>C5: A refused document is refused for one of three reasons. It is longer than a document may be. Or the grouped cursor of the
  standard faults on it, and the refusal has that fault's coordinate, its class, and the breach that reports its kind. Or the converted document
  would be longer than a document may be: the length refused is over the cap, the records at the head of the input (with the tag and one byte of
  prefix for each group still open) already convert to so many bytes, and so does the whole input where it is a lawful document.\<close>

theorem convert_faults:
  assumes "cv_convert v input = Some (Inl f)"
  shows "length input > admission_MAX \<and> f = \<lparr>cv_at = 0, cv_kind = CvOversize\<rparr> \<or>
    (\<exists>c es fault c' b. cursor_over_gr input (GroupDepth_from (cv_limit v)) = Inr c \<and>
       walk (step_gr (cv_standard v = CanonicalMinimal)) c = Some (es, Some fault, c') \<and>
       cv_at f = fault_at_gr fault \<and> cv_kind f = CvWire b \<and> cv_reports b (fault_kind_gr fault) \<and>
       cv_breach_class b = fault_class_gr (fault_kind_gr fault)) \<or>
    (\<exists>n. f = \<lparr>cv_at = 0, cv_kind = CvOutput n\<rparr> \<and> n > admission_MAX \<and>
       (\<exists>site. cv_begins input site \<and> n \<le> length (cv_text site)) \<and>
       (\<forall>fs. cv_forest (cv_standard v = CanonicalMinimal) (GroupDepth_from (cv_limit v)) fs \<longrightarrow> input = emit (cv_flats fs) \<longrightarrow>
          n \<le> length (cv_convs fs)))"
proof -
  obtain out' x where x: "cv_convert_into v input [] = Some (out', x)"
    "\<forall>f. x = Inl f \<longrightarrow> (if length input \<le> admission_MAX then cv_refused (cv_minimal v) input (cv_limit v) f
        else f = \<lparr>cv_at = 0, cv_kind = CvOversize\<rparr>)" by (rule into_returns [OF vec_fits_Nil])
  with assms have r: "if length input \<le> admission_MAX then cv_refused (cv_minimal v) input (cv_limit v) f
        else f = \<lparr>cv_at = 0, cv_kind = CvOversize\<rparr>" by (cases x) (simp_all add: cv_convert_def)
  show ?thesis
  proof (cases "length input \<le> admission_MAX")
    case True
    with r have "cv_refused (cv_minimal v) input (cv_limit v) f" by simp
    then consider (wire) es fault c' where
        "walk (step_gr (cv_minimal v)) (cv_fresh input (GroupDepth_from (cv_limit v))) = Some (es, Some fault, c')" "f = cv_wire fault"
      | (outgrown) n where "f = cv_output_fault n" "cv_outgrows (cv_minimal v) input (cv_limit v) n"
      unfolding cv_refused_def by blast
    then show ?thesis
    proof cases
      case wire
      have "cursor_over_gr input (GroupDepth_from (cv_limit v)) = Inr (cv_fresh input (GroupDepth_from (cv_limit v)))"
        using True by (simp add: fresh_over)
      with wire wire_reports [of fault] show ?thesis unfolding cv_minimal_def by blast
    next
      case outgrown
      then show ?thesis unfolding cv_outgrows_def cv_output_fault_def cv_minimal_def by blast
    qed
  next
    case False
    with r show ?thesis by simp
  qed
qed

lemma convert_faults_witness:
  "cv_convert (cv_new Tolerant 1) [0x08, 0x01, 0x14] = Some (Inl \<lparr>cv_at = 2, cv_kind = CvWire CvGrouping\<rparr>) \<and>
   (\<exists>c es fault c'. cursor_over_gr [0x08, 0x01, 0x14] (GroupDepth_from 1) = Inr c \<and>
      walk (step_gr False) c = Some (es, Some fault, c') \<and> fault_at_gr fault = 2 \<and> cv_reports CvGrouping (fault_kind_gr fault))"
proof -
  let ?x = "[0x08, 0x01, 0x14] :: bytes"
  have r: "cv_convert (cv_new Tolerant 1) ?x = Some (Inl \<lparr>cv_at = 2, cv_kind = CvWire CvGrouping\<rparr>)"
  proof -
    let ?c = "(cv_fresh ?x (GroupDepth_from 1))\<lparr>cur_at_gr := 2, cur_geo_gr := 1\<rparr>"
    have s: "step_gr False (cv_fresh ?x (GroupDepth_from 1)) = Some (?c, Some (Inr \<lparr>entry_field_gr = 1, entry_kind_gr = EkVarint_gr 1\<rparr>))"
      "step_gr False ?c = Some (?c\<lparr>cur_data_gr := [], cur_opens_gr := []\<rparr>,
         Some (Inl \<lparr>fault_at_gr = 2, fault_kind_gr = FkGroupEndOrphan_gr 2\<rparr>))" by code_simp+
    have "cv_looped False ?x 1 [] = Some ((\<lparr>cv_converted = 0\<rparr>, \<lparr>on_out = [], on_mark = 0, on_run = Some (0, 2), on_holes = []\<rparr>),
        Inl \<lparr>cv_at = 2, cv_kind = CvWire CvGrouping\<rparr>)"
      by (simp add: cv_looped_def cv_loop_entry [OF s(1)] cv_loop_other(2) [OF s(2)] cv_drive_entry_def cv_start_def on_verbatim_def
          cursor_pos_gr_def admitted_u32_def cv_wire_def)
    from drive_fault [OF _ this] show ?thesis
      by (simp add: cv_convert_def into_drive cv_new_def cv_minimal_def admission_MAX_eq)
  qed
  from convert_faults [OF this] r show ?thesis by (auto simp: cv_new_def admission_MAX_eq)
qed

section \<open>The converted document is groupless\<close>

fun cv_gl :: "cv_tree \<Rightarrow> token" where
  "cv_gl (CvLeaf t) = t"
| "cv_gl (CvGroup f w w' body) = len_tok f (cv_convs body)"

lemma gl_toks:
  assumes "cv_deeps d fs" "list_all tok_ok (cv_flats fs)" "m \<longrightarrow> list_all tok_minimal (cv_flats fs)" "length (cv_convs fs) \<le> CAP"
  shows "emit (map cv_gl fs) = cv_convs fs \<and> list_all tok_ok (map cv_gl fs) \<and> (m \<longrightarrow> list_all tok_minimal (map cv_gl fs)) \<and>
    list_all (\<lambda>t. \<not> is_group (tk_payload t)) (map cv_gl fs)"
  using assms
proof (induction fs)
  case (Cons x xs)
  then have IH: "emit (map cv_gl xs) = cv_convs xs \<and> list_all tok_ok (map cv_gl xs) \<and> (m \<longrightarrow> list_all tok_minimal (map cv_gl xs)) \<and>
    list_all (\<lambda>t. \<not> is_group (tk_payload t)) (map cv_gl xs)" by simp
  show ?case
  proof (cases x)
    case (CvLeaf t)
    with IH Cons.prems show ?thesis by simp
  next
    case (CvGroup f w w' body)
    with Cons.prems have "field_ok f" "length (cv_convs body) \<le> CAP" using length_framed [of "cv_convs body" f] by simp_all
    note len_tok_lawful [OF this]
    with IH CvGroup show ?thesis by (simp add: len_tok_def rec_tok_def)
  qed
qed simp

text \<open>C4: What the converter returns, the groupless cursor of the same standard admits and walks to a clean end; it delivers the
  document's records in order, and every group as a length-delimited record whose payload is the group's converted body.\<close>

theorem converted_is_groupless:
  assumes "cv_convert v input = Some (Inr (out, stats))"
  shows "\<exists>fs c c'. input = emit (cv_flats fs) \<and> out = cv_convs fs \<and> cursor_over_gl out = Inr c \<and>
    walk (step_gl (cv_standard v = CanonicalMinimal)) c = Some (map entry_of_gl (map cv_gl fs), None, c')"
proof -
  from assms obtain fs where fs: "input = emit (cv_flats fs)" "cv_forest (cv_minimal v) (GroupDepth_from (cv_limit v)) fs"
    "out = cv_convs fs" "length out \<le> admission_MAX" unfolding converted_iff by blast
  let ?c = "\<lparr>cur_data_gl = out, cur_at_gl = 0, cur_geo_gl = 0\<rparr> :: cursor_gl"
  have c: "cursor_over_gl out = Inr ?c" using fs(4) by (simp add: cursor_over_gl_def)
  have "length (cv_convs fs) \<le> CAP" using fs(3,4) by (simp add: CAP_eq admission_MAX_eq)
  with fs(2) have t: "emit (map cv_gl fs) = cv_convs fs \<and> list_all tok_ok (map cv_gl fs) \<and>
      (cv_minimal v \<longrightarrow> list_all tok_minimal (map cv_gl fs)) \<and> list_all (\<lambda>t. \<not> is_group (tk_payload t)) (map cv_gl fs)"
    by (intro gl_toks) (auto simp: cv_forest_def)
  have "\<exists>c'. walk (step_gl (cv_minimal v)) ?c = Some (map entry_of_gl (map cv_gl fs), None, c')"
    unfolding fresh_walk_gl [of ?c, simplified] using t fs(3) by (intro exI [of _ "map cv_gl fs"]) (simp del: map_map)
  with fs(1,3) c show ?thesis unfolding cv_minimal_def by blast
qed

lemma converted_is_groupless_witness:
  "cv_convert (cv_new CanonicalMinimal 1) demo_grouped = Some (Inr (demo_groupless, \<lparr>cv_converted = 1\<rparr>)) \<and>
   (\<exists>fs c c'. demo_grouped = emit (cv_flats fs) \<and> demo_groupless = cv_convs fs \<and> cursor_over_gl demo_groupless = Inr c \<and>
    walk (step_gl True) c = Some (map entry_of_gl (map cv_gl fs), None, c'))"
proof -
  have r: "cv_convert (cv_new CanonicalMinimal 1) demo_grouped = Some (Inr (demo_groupless, \<lparr>cv_converted = 1\<rparr>))"
    unfolding converted_iff using demo_forest by (auto simp: cv_new_def cv_minimal_def admission_MAX_eq)
  from converted_is_groupless [OF r] r show ?thesis by (simp add: cv_new_def)
qed

end
