(* ===== verification/Convert_Sink.thy ===== *)
theory Convert_Sink
  imports Convert_Into
begin

text \<open>
  The sink face of the groupless-output converter (\<open>src/src/convert/groupless.rs\<close>, \<open>convert_sink\<close>): the measuring pass lays
  down in the ledger the converted length of every group's body, in the order the groups open, and the emit pass hands
  the caller's sink the converted document in nonempty fragments.
\<close>

section \<open>The measuring pass\<close>

fun cv_body :: "cv_tree \<Rightarrow> nat list"
  and cv_bodies :: "cv_tree list \<Rightarrow> nat list" where
  "cv_body (CvLeaf t) = []"
| "cv_body (CvGroup f w w' body) = length (cv_convs body) # cv_bodies body"
| "cv_bodies [] = []"
| "cv_bodies (x # xs) = cv_body x @ cv_bodies xs"

lemma length_bodies: "length (cv_body x) = cv_group x" "length (cv_bodies xs) = cv_groups xs"
  by (induction x and xs rule: cv_body_cv_bodies.induct) simp_all

lemma bodies_append [simp]: "cv_bodies (xs @ ys) = cv_bodies xs @ cv_bodies ys"
  by (induction xs) simp_all

text \<open>The ledger of a site: a zero stands for a body still open.\<close>

fun cv_slots :: "(cv_tree list \<times> token) list \<Rightarrow> cv_tree list \<Rightarrow> nat list" where
  "cv_slots [] here = cv_bodies here"
| "cv_slots ((prior, e) # rest) here = cv_slots rest prior @ [0] @ cv_bodies here"

lemma slots_append [simp]: "cv_slots ups (here @ [x]) = cv_slots ups here @ cv_body x"
  by (cases ups) auto

lemma length_slots: "length (cv_slots ups here) = cv_begun ups + cv_groups here"
  by (induction ups here rule: cv_slots.induct) (simp_all add: length_bodies)

fun cv_framing :: "(cv_tree list \<times> token) list \<Rightarrow> cv_tree list \<Rightarrow> cv_frame list \<Rightarrow> bool" where
  "cv_framing ups here [] \<longleftrightarrow> False"
| "cv_framing [] here (f # fs) \<longleftrightarrow> fs = [] \<and> cf_total f = length (cv_convs here)"
| "cv_framing ((prior, e) # rest) here (f # fs) \<longleftrightarrow>
     cf_total f = length (cv_convs here) \<and> cf_word f = wire_tag_word (tk_field e) 2 \<and>
     cf_slot f = cv_begun rest + cv_groups prior \<and> cv_framing rest prior fs"

lemma framing_top: "cv_framing ups here (f # fs) \<Longrightarrow> cf_total f = length (cv_convs here)"
  by (cases ups) auto

lemma framing_add:
  "cv_framing ups here (f # fs) \<Longrightarrow> n = length (cv_convs here) + length (cv_conv x) \<Longrightarrow>
   cv_framing ups (here @ [x]) (f\<lparr>cf_total := n\<rparr> # fs)"
  by (cases ups) auto

definition cv_measured :: "cv_site \<Rightarrow> nat \<Rightarrow> cv_stats \<times> cv_measure \<Rightarrow> bool" where
  "cv_measured site at z \<longleftrightarrow>
     cv_framing (fst site) (snd site) (me_frames (snd z)) \<and> me_ledger (snd z) = cv_slots (fst site) (snd site) \<and>
     fst z = \<lparr>cv_converted = cv_counted site\<rparr>"

definition cv_outgrown :: "cv_site \<Rightarrow> cv_fault \<Rightarrow> bool" where
  "cv_outgrown site f \<longleftrightarrow> (\<exists>n. cv_kind f = CvGrowth n \<and> admission_MAX < n \<and> n \<le> length (cv_text site))"

text \<open>No total overflows: a converted document is at most ten times as long as its source.\<close>

lemma here_le:
  assumes "cv_grown input c site"
  shows "length (cv_convs (snd site)) \<le> 10 * admission_MAX"
proof -
  have "length (cv_convs (snd site)) \<le> 10 * length (emit (cv_flats (snd site)))"
    using assms by (intro convs_le) (simp add: cv_grown_def)
  also have "\<dots> \<le> 10 * cur_at_gr c" using grown_at [OF assms] by simp
  also have "\<dots> \<le> 10 * admission_MAX" using assms by (simp add: cv_grown_def)
  finally show ?thesis .
qed

lemma measure_eta:
  "\<lparr>me_frames = me_frames m, me_ledger = me_ledger m\<rparr> = m"
  "m\<lparr>me_frames := fs, me_ledger := l\<rparr> = \<lparr>me_frames = fs, me_ledger = l\<rparr>"
  by simp_all

lemma top_add_at:
  assumes "cv_framing ups here fs" "length (cv_convs here) + amount < 2 ^ 64"
  shows "me_top_add amount \<lparr>me_frames = fs, me_ledger = l\<rparr> =
    Some \<lparr>me_frames = (hd fs)\<lparr>cf_total := length (cv_convs here) + amount\<rparr> # tl fs, me_ledger = l\<rparr>"
  using assms framing_top [of ups here "hd fs" "tl fs"] by (cases fs) (simp_all add: me_top_add_def u64_add_def)

lemma measure_leaf:
  assumes g: "cv_grown input c (ups, here)" and l: "lawful_gr m c t" and s: "suffix_gr c = emit_tok t @ rest"
    and r: "cv_measured (ups, here) (cur_at_gr c) (stats, me)" and leaf: "\<not> is_group (tk_payload t)"
  shows "\<exists>me'. me_verbatim (of_nat (cur_at_gr c)) (of_nat (cur_at_gr c + length (emit_tok t))) me = Some me' \<and>
    cv_measured (ups, here @ [CvLeaf t]) (cur_at_gr c + length (emit_tok t)) (stats, me')"
proof -
  let ?at = "cur_at_gr c" and ?to = "cur_at_gr c + length (emit_tok t)"
  have to: "?to \<le> admission_MAX"
    using grown_adv [OF g l s] cursor_pos_adv(2) [OF l] by (simp add: cv_grown_def)
  have u: "unat (of_nat ?at :: u32) = ?at" "unat (of_nat ?to :: u32) = ?to"
    using to spell_len_at(3) [of ?at] spell_len_at(3) [of ?to] by simp_all
  then have n: "word_sub (of_nat ?to) (of_nat ?at) = Some (of_nat ?to - of_nat ?at :: u32)"
    "unat (of_nat ?to - of_nat ?at :: u32) = length (emit_tok t)"
    by (simp_all add: word_sub_def word_le_nat_alt unat_sub del: of_nat_add)
  have f: "cv_framing ups here (me_frames me)" "me_ledger me = cv_slots ups here" using r by (simp_all add: cv_measured_def)
  have b: "length (cv_convs here) + length (emit_tok t) < 2 ^ 64"
    using here_le [OF g] to by (simp add: admission_MAX_eq)
  from f(1) obtain fr frs where fr: "me_frames me = fr # frs" by (cases "me_frames me") auto
  have "me_verbatim (of_nat ?at) (of_nat ?to) me = me_top_add (length (emit_tok t)) \<lparr>me_frames = me_frames me, me_ledger = me_ledger me\<rparr>"
    unfolding me_verbatim_def n(1) by (simp only: n(2) bind.bind_lunit measure_eta)
  moreover have "cv_measured (ups, here @ [CvLeaf t]) ?to
      (stats, \<lparr>me_frames = fr\<lparr>cf_total := length (cv_convs here) + length (emit_tok t)\<rparr> # frs, me_ledger = me_ledger me\<rparr>)"
    using r f(1) framing_add [of ups here fr frs _ "CvLeaf t"] by (simp add: cv_measured_def cv_counted_def fr)
  ultimately show ?thesis using top_add_at [OF f(1) b] by (simp add: fr)
qed

lemma measure_exit:
  assumes g: "cv_grown input c ((prior, e) # rest, here)"
    and r: "cv_measured ((prior, e) # rest, here) (cur_at_gr c) (stats, me)"
  shows "\<exists>me' x. me_exit me = Some (me', x) \<and>
    (case x of
       Inl (at, n) \<Rightarrow> n = length (cv_convs here) \<and> admission_MAX < n
     | Inr _ \<Rightarrow> cv_measured (rest, prior @ [CvGroup (tk_field e) w w' here]) at' (stats, me'))"
proof -
  from r obtain fr fr' frs where fr: "me_frames me = fr # fr' # frs" "cf_total fr = length (cv_convs here)"
    "cf_word fr = wire_tag_word (tk_field e) 2" "cf_slot fr = cv_begun rest + cv_groups prior" "cv_framing rest prior (fr' # frs)"
    by (cases "me_frames me"; cases "tl (me_frames me)") (auto simp: cv_measured_def)
  have l: "me_ledger me = cv_slots rest prior @ [0] @ cv_bodies here" using r by (simp add: cv_measured_def)
  let ?n = "length (cv_convs here)" and ?word = "wire_tag_word (tk_field e) 2"
  have cap: "unat PayloadLen_MAX = admission_MAX" by (simp add: PayloadLen_MAX_def admission_MAX_eq)
  show ?thesis
  proof (cases "?n > admission_MAX")
    case True
    then show ?thesis by (simp add: me_exit_def fr cap)
  next
    case False
    then have w: "encoded_len32 (of_nat ?n) = length (spell_len ?n)" using spell_len_at(2) by simp
    have fill: "cv_fill (cf_slot fr) ?n (me_ledger me) = Some (cv_slots rest prior @ [?n] @ cv_bodies here)"
      by (simp add: cv_fill_def l fr(4) length_slots list_update_append)
    let ?w = "encoded_len32 ?word + length (spell_len ?n) + ?n"
    have lt: "encoded_len32 ?word \<le> 5" "length (spell_len ?n) \<le> 10" using encoded_len32_le spell_bounds(6) by blast+
    have "cv_grown input c ((prior, e) # rest, here) \<Longrightarrow> length (cv_convs prior) \<le> 10 * admission_MAX"
    proof -
      have "length (cv_convs prior) \<le> 10 * length (emit (cv_flats prior))" using g by (intro convs_le) (simp add: cv_grown_def)
      also have "\<dots> \<le> 10 * cur_at_gr c" using grown_at [OF g] by simp
      also have "\<dots> \<le> 10 * admission_MAX" using g by (simp add: cv_grown_def)
      finally show ?thesis .
    qed
    with g lt False have b: "length (cv_convs prior) + ?w < 2 ^ 64" by (simp add: admission_MAX_eq)
    have c: "length (cv_conv (CvGroup (tk_field e) w w' here)) = ?w"
      by (simp add: length_framed_eq spell_len_def)
    have "me_exit me = do { m \<leftarrow> me_top_add ?w \<lparr>me_frames = fr' # frs, me_ledger = cv_slots rest prior @ [?n] @ cv_bodies here\<rparr>; Some (m, Inr ()) }"
      using False lt fill by (simp add: me_exit_def fr cap w u64_add_def admission_MAX_eq Let_def measure_eta(2))
    with top_add_at [OF fr(5) b] have "me_exit me =
      Some (\<lparr>me_frames = fr'\<lparr>cf_total := length (cv_convs prior) + ?w\<rparr> # frs, me_ledger = cv_slots rest prior @ [?n] @ cv_bodies here\<rparr>, Inr ())"
      by simp
    moreover have "cv_measured (rest, prior @ [CvGroup (tk_field e) w w' here]) at'
      (stats, \<lparr>me_frames = fr'\<lparr>cf_total := length (cv_convs prior) + ?w\<rparr> # frs, me_ledger = cv_slots rest prior @ [?n] @ cv_bodies here\<rparr>)"
      using r framing_add [OF fr(5) arg_cong [OF c [symmetric], of "\<lambda>k. length (cv_convs prior) + k"]]
      by (simp add: cv_measured_def cv_counted_def)
    ultimately show ?thesis by simp
  qed
qed

lemma measure_entry_site:
  assumes g: "cv_grown input c site" and l: "lawful_gr m c t" and s: "suffix_gr c = emit_tok t @ rest"
    and r: "cv_measured site (cur_at_gr c) z"
  shows "\<exists>z' x. cv_walk_entry cv_measuring (entry_of_gr t) (of_nat (cur_at_gr c)) (of_nat (cur_at_gr c + length (emit_tok t))) z = Some (z', x) \<and>
    True \<and> (case x of Inl f \<Rightarrow> cv_outgrown (cv_grow t site) f
      | Inr _ \<Rightarrow> cv_measured (cv_grow t site) (cur_at_gr c + length (emit_tok t)) z')"
proof -
  obtain ups here where site: "site = (ups, here)" by (cases site)
  obtain stats me where z: "z = (stats, me)" by (cases z)
  let ?at = "cur_at_gr c" and ?to = "cur_at_gr c + length (emit_tok t)"
  have k: "cv_framing ups here (me_frames me)" "me_ledger me = cv_slots ups here" "stats = \<lparr>cv_converted = cv_counted site\<rparr>"
    using r by (simp_all add: cv_measured_def z site)
  note count = counted_grow [OF g l]
  show ?thesis
  proof (cases t rule: token_cases)
    case enter
    have "cv_count stats = Some \<lparr>cv_converted = cv_counted (cv_grow t site)\<rparr>"
      using cv_count_Some [OF counted_le(2) [OF g]] count enter by (simp add: k(3))
    then have "cv_walk_entry cv_measuring (entry_of_gr t) (of_nat ?at) (of_nat ?to) z =
      Some ((\<lparr>cv_converted = cv_counted (cv_grow t site)\<rparr>,
        me\<lparr>me_ledger := cv_slots ups here @ [0], me_frames := \<lparr>cf_total = 0, cf_word = wire_tag_word (tk_field t) 2,
          cf_head = of_nat ?at, cf_slot = cv_begun ups + cv_groups here\<rparr> # me_frames me\<rparr>), Inr ())"
      using enter by (simp add: cv_walk_entry_def z cv_measuring_def me_enter_def cv_claim_def head_word_gl_def k(2) length_slots)
    moreover have "cv_measured (cv_grow t site) ?to (\<lparr>cv_converted = cv_counted (cv_grow t site)\<rparr>,
        me\<lparr>me_ledger := cv_slots ups here @ [0], me_frames := \<lparr>cf_total = 0, cf_word = wire_tag_word (tk_field t) 2,
          cf_head = of_nat ?at, cf_slot = cv_begun ups + cv_groups here\<rparr> # me_frames me\<rparr>)"
      using enter k(1) by (simp add: cv_measured_def site)
    ultimately show ?thesis by simp
  next
    case exit
    from grown_exit [OF g [unfolded site] l exit] obtain prior e up where u: "ups = (prior, e) # up" by metis
    have gr: "cv_grow t site = (up, prior @ [CvGroup (tk_field e) (tk_width e) (tk_width t) here])" using exit by (simp add: site u)
    from measure_exit [OF g [unfolded site u] r [unfolded site u z], of "tk_width e" "tk_width t" ?to] obtain me' x where
      x: "me_exit me = Some (me', x)" "case x of
       Inl (at, n) \<Rightarrow> n = length (cv_convs here) \<and> admission_MAX < n
     | Inr _ \<Rightarrow> cv_measured (cv_grow t site) ?to (stats, me')" unfolding gr by blast
    show ?thesis
    proof (cases x)
      case (Inr v)
      with x exit show ?thesis by (simp add: cv_walk_entry_def z cv_measuring_def)
    next
      case (Inl an)
      then obtain a n where an: "x = Inl (a, n)" by (cases an) auto
      with x have n: "n = length (cv_convs here)" "admission_MAX < n" by simp_all
      then have "cv_outgrown (cv_grow t site) \<lparr>cv_at = a, cv_kind = CvGrowth n\<rparr>"
        by (simp add: cv_outgrown_def gr length_framed_eq)
      with x an exit show ?thesis by (simp add: cv_walk_entry_def z cv_measuring_def)
    qed
  next
    case leaf
    from measure_leaf [OF g [unfolded site] l s r [unfolded site z] leaf] obtain me' where
      me': "me_verbatim (of_nat ?at) (of_nat ?to) me = Some me'" "cv_measured (ups, here @ [CvLeaf t]) ?to (stats, me')" by blast
    have "cv_walk_entry cv_measuring (entry_of_gr t) (of_nat ?at) (of_nat ?to) z = Some ((stats, me'), Inr ())"
      unfolding cv_walk_entry_def z Let_def prod.case leaf_kind [OF leaf] using me'(1) by (simp add: cv_measuring_def)
    then show ?thesis using me'(2) leaf by (simp add: site)
  qed
qed

interpretation measuring: site_consumer m input "cv_walk_entry cv_measuring" "\<lambda>fault (stats, s). cv_refuse cv_measuring (cv_wire fault) s"
    cv_measured cv_outgrown "\<lambda>z. True" for m input
proof
  fix c site t rest s f g at
  show "cv_grown input c site \<Longrightarrow> lawful_gr m c t \<Longrightarrow> suffix_gr c = emit_tok t @ rest \<Longrightarrow> cv_measured site (cur_at_gr c) s \<Longrightarrow>
      \<exists>s' x. cv_walk_entry cv_measuring (entry_of_gr t) (of_nat (cur_at_gr c)) (of_nat (cur_at_gr c + length (emit_tok t))) s = Some (s', x) \<and>
        True \<and> (case x of Inl f \<Rightarrow> cv_outgrown (cv_grow t site) f | Inr _ \<Rightarrow> cv_measured (cv_grow t site) (cur_at_gr c + length (emit_tok t)) s')"
    by (rule measure_entry_site)
  show "cv_grown input c site \<Longrightarrow> lawful_gr m c t \<Longrightarrow> cv_outgrown site f \<Longrightarrow> cv_outgrown (cv_grow t site) f"
    using text_grows [of input c site m t] by (auto simp: cv_outgrown_def)
  show "(\<lambda>fault (stats, s). cv_refuse cv_measuring (cv_wire fault) s) g s \<noteq> None"
    by (simp add: cv_measuring_def split: prod.splits)
qed simp

text \<open>The pass as a whole.\<close>

definition cv_gauged :: "cv_tree list \<Rightarrow> cv_measure \<Rightarrow> bool" where
  "cv_gauged fs me \<longleftrightarrow> me_root_total me = Some (length (cv_convs fs)) \<and> me_ledger me = cv_bodies fs"

lemma walk_measuring:
  assumes "length input \<le> admission_MAX"
  shows "cv_walk cv_measuring m input limit me_new =
    do { ((stats, s), x) \<leftarrow> cv_loop m (cv_walk_entry cv_measuring) (\<lambda>fault (stats, s). cv_refuse cv_measuring (cv_wire fault) s)
           (cv_fresh input (GroupDepth_from limit)) 0 (\<lparr>cv_converted = 0\<rparr>, me_new);
         Some (s, map_sum id (\<lambda>_. stats) x) }"
  using assms by (simp add: cv_walk_def fresh_over)

lemma start_measured: "cv_measured ([], []) 0 (\<lparr>cv_converted = 0\<rparr>, me_new)"
  by (simp add: cv_measured_def me_new_def cv_counted_def)

lemma measured_root:
  assumes "cv_measured ([], fs) at (stats, me)"
  shows "cv_gauged fs me" "stats = \<lparr>cv_converted = cv_groups fs\<rparr>"
  using assms by (cases "me_frames me"; simp add: cv_measured_def cv_gauged_def me_root_total_def cv_counted_def)+

lemma measure_returns:
  assumes "length input \<le> admission_MAX"
  obtains me x where "cv_walk cv_measuring m input limit me_new = Some (me, x)"
proof -
  from measuring.run_returns [OF start_measured assms] obtain z x where
    "cv_loop m (cv_walk_entry cv_measuring) (\<lambda>fault (stats, s). cv_refuse cv_measuring (cv_wire fault) s)
       (cv_fresh input (GroupDepth_from limit)) 0 (\<lparr>cv_converted = 0\<rparr>, me_new) = Some (z, x)" by blast
  then show thesis by (cases z) (auto intro: that simp: walk_measuring [OF assms])
qed

lemma measure_clean:
  assumes "length input \<le> admission_MAX" "cv_walk cv_measuring m input limit me_new = Some (me, Inr stats)"
  obtains fs where "cv_forest m (GroupDepth_from limit) fs" "input = emit (cv_flats fs)" "cv_gauged fs me"
    "stats = \<lparr>cv_converted = cv_groups fs\<rparr>"
proof -
  from assms(2) obtain u where u: "cv_loop m (cv_walk_entry cv_measuring) (\<lambda>fault (stats, s). cv_refuse cv_measuring (cv_wire fault) s)
       (cv_fresh input (GroupDepth_from limit)) 0 (\<lparr>cv_converted = 0\<rparr>, me_new) = Some ((stats, me), Inr u)"
    unfolding walk_measuring [OF assms(1)] by (auto simp: map_sum_def split: bind_splits sum.splits prod.splits)
  from measuring.run_clean [OF start_measured assms(1) u] obtain fs where
    "cv_forest m (GroupDepth_from limit) fs" "input = emit (cv_flats fs)" "cv_measured ([], fs) (length input) (stats, me)" .
  with measured_root [OF this(3)] show thesis by (intro that)
qed

lemma measure_forest:
  assumes "length input \<le> admission_MAX" "cv_forest m (GroupDepth_from limit) fs" "input = emit (cv_flats fs)"
    "length (cv_convs fs) \<le> admission_MAX"
  obtains me where "cv_walk cv_measuring m input limit me_new = Some (me, Inr \<lparr>cv_converted = cv_groups fs\<rparr>)" "cv_gauged fs me"
proof -
  from measuring.run_forest [OF start_measured assms(1-3)] obtain z x where
    x: "cv_loop m (cv_walk_entry cv_measuring) (\<lambda>fault (stats, s). cv_refuse cv_measuring (cv_wire fault) s)
       (cv_fresh input (GroupDepth_from limit)) 0 (\<lparr>cv_converted = 0\<rparr>, me_new) = Some (z, x)"
    "case x of Inl f \<Rightarrow> cv_outgrown ([], fs) f | Inr _ \<Rightarrow> cv_measured ([], fs) (length input) z" by blast
  obtain stats me where z: "z = (stats, me)" by (cases z)
  from x(2) assms(4) have i: "x = Inr ()" "cv_measured ([], fs) (length input) (stats, me)"
    by (auto simp: cv_outgrown_def z split: sum.splits)
  from measured_root [OF i(2)] x(1) show thesis
    by (intro that [of me]) (simp_all add: walk_measuring [OF assms(1)] i(1) z)
qed

end
