(* ===== verification/Convert_Emit.thy ===== *)
theory Convert_Emit
  imports Convert_Sink
begin

text \<open>
  The emit pass of \<open>src/src/convert/groupless.rs\<close> over a forest whose ledger the measuring pass has filled, and the
  sink face as a whole: it answers as the owning face does, and its fragments are the owning face's document.
\<close>

section \<open>What the sink has been told\<close>

definition em_told :: "('k \<Rightarrow> bytes \<Rightarrow> 'k) \<Rightarrow> 'k \<Rightarrow> bytes \<Rightarrow> bytes \<Rightarrow> 'k cv_emit \<Rightarrow> bool" where
  "em_told F k input text e \<longleftrightarrow>
     (\<exists>frags. em_sink e = foldl F k frags \<and> concat frags @ cv_pending input (em_run e) = text \<and>
        em_written e = length (concat frags) \<and> [] \<notin> set frags)"

definition em_run_ok :: "nat \<Rightarrow> (u32 \<times> u32) option \<Rightarrow> bool" where
  "em_run_ok at run = (case run of None \<Rightarrow> True | Some (a, b) \<Rightarrow> a \<le> b \<and> unat b \<le> at)"

lemma em_run_ok_mono: "em_run_ok at run \<Longrightarrow> at \<le> at' \<Longrightarrow> em_run_ok at' run"
  by (auto simp: em_run_ok_def split: option.splits)

text \<open>What an operation changes: the run, the sink and the count of bytes handed.\<close>

definition em_same :: "'k cv_emit \<Rightarrow> 'k cv_emit \<Rightarrow> bool" where
  "em_same e e' \<longleftrightarrow>
     em_ledger e' = em_ledger e \<and> em_cursor e' = em_cursor e \<and> em_total e' = em_total e \<and>
     em_logical e' = em_logical e \<and> em_open e' = em_open e"

lemma hand_told:
  assumes "em_told F k input text e" "em_run e = None" "length (text @ bs) \<le> admission_MAX"
  shows "\<exists>e'. em_hand F bs e = Some e' \<and> em_told F k input (text @ bs) e' \<and> em_run e' = None \<and> em_same e e'"
proof (cases "bs = []")
  case True
  with assms show ?thesis by (simp add: em_hand_def em_same_def)
next
  case False
  from assms(1,2) obtain frags where f: "em_sink e = foldl F k frags" "concat frags = text" "em_written e = length text" "[] \<notin> set frags"
    by (auto simp: em_told_def cv_pending_def)
  have "u64_add (em_written e) (length bs) = Some (length (text @ bs))"
    using assms(3) by (simp add: f(3) u64_add_def admission_MAX_eq)
  then have "em_hand F bs e = Some (e\<lparr>em_written := length (text @ bs), em_sink := F (em_sink e) bs\<rparr>)"
    using False by (simp add: em_hand_def)
  moreover have "em_told F k input (text @ bs) (e\<lparr>em_written := length (text @ bs), em_sink := F (em_sink e) bs\<rparr>)"
    unfolding em_told_def using False f assms(2) by (intro exI [of _ "frags @ [bs]"]) (simp add: cv_pending_def)
  ultimately show ?thesis using assms(2) by (simp add: em_same_def)
qed

lemma em_flush_told:
  assumes "em_told F k input text e" "em_run_ok at (em_run e)" "at \<le> length input" "length text \<le> admission_MAX"
  shows "\<exists>e'. em_flush F input e = Some e' \<and> em_told F k input text e' \<and> em_run e' = None \<and> em_same e e'"
proof (cases "em_run e")
  case None
  with assms(1) show ?thesis by (simp add: em_flush_def em_same_def)
next
  case (Some ab)
  then obtain a b where ab: "em_run e = Some (a, b)" by (cases ab) auto
  from assms(1) ab obtain frags where f: "em_sink e = foldl F k frags" "text = concat frags @ cv_pending input (Some (a, b))"
    "em_written e = length (concat frags)" "[] \<notin> set frags" by (auto simp: em_told_def)
  have g: "get_range input (usize_of a) (usize_of b) = Some (cv_pending input (Some (a, b)))"
    using assms(2,3) ab by (simp add: get_range_def usize_of_def em_run_ok_def cv_pending_def word_le_nat_alt)
  have "em_told F k input (concat frags) (e\<lparr>em_run := None\<rparr>)" using f by (auto simp: em_told_def cv_pending_def)
  from hand_told [OF this, of "cv_pending input (Some (a, b))"] f(2) assms(4) obtain e' where
    "em_hand F (cv_pending input (Some (a, b))) (e\<lparr>em_run := None\<rparr>) = Some e'" "em_told F k input text e'" "em_run e' = None"
    "em_same (e\<lparr>em_run := None\<rparr>) e'" by auto
  then show ?thesis using ab g by (simp add: em_flush_def em_same_def)
qed

lemma hand_varint_told:
  assumes "em_told F k input text e" "em_run e = None" "length (text @ spell64 v) \<le> admission_MAX"
  shows "\<exists>e'. em_hand_varint F v (encoded_len64 v) e = Some e' \<and> em_told F k input (text @ spell64 v) e' \<and> em_run e' = None \<and> em_same e e'"
proof -
  have "emit64 v (replicate 10 0) = Some (spell64 v @ replicate (10 - encoded_len64 v) 0, encoded_len64 v)"
    using emit64_enc [of v "replicate 10 0"] encoded_len64_le [of v] by (simp add: spell64_def)
  then have "em_hand_varint F v (encoded_len64 v) e = em_hand F (spell64 v) e"
    using encoded_len64_le [of v] by (simp add: em_hand_varint_def)
  with hand_told [OF assms] show ?thesis by simp
qed

section \<open>The operations\<close>

definition em_at :: "('k \<Rightarrow> bytes \<Rightarrow> 'k) \<Rightarrow> 'k \<Rightarrow> bytes \<Rightarrow> bytes \<Rightarrow> nat \<Rightarrow> 'k cv_emit \<Rightarrow> bool" where
  "em_at F k input text at e \<longleftrightarrow>
     em_told F k input text e \<and> em_logical e = length text \<and> em_run_ok at (em_run e) \<and> length text \<le> admission_MAX \<and>
     at \<le> length input \<and> length input \<le> admission_MAX"

lemma em_verbatim_at:
  assumes e: "em_at F k input text at e" and d: "drop at input = emit_tok t @ rest"
    and to: "at + length (emit_tok t) \<le> length input" and n: "length (text @ emit_tok t) \<le> admission_MAX"
  shows "\<exists>e'. em_verbatim F input (of_nat at) (of_nat (at + length (emit_tok t))) e = Some e' \<and>
    em_at F k input (text @ emit_tok t) (at + length (emit_tok t)) e' \<and>
    em_ledger e' = em_ledger e \<and> em_cursor e' = em_cursor e \<and> em_total e' = em_total e \<and> em_open e' = em_open e"
proof -
  let ?to = "at + length (emit_tok t)"
  have i: "length input \<le> admission_MAX" and told: "em_told F k input text e" and k: "em_run_ok at (em_run e)"
    and len: "em_logical e = length text" using e by (simp_all add: em_at_def)
  have u: "unat (of_nat at :: u32) = at" "unat (of_nat ?to :: u32) = ?to"
    using to i spell_len_at(3) [of at] spell_len_at(3) [of ?to] by simp_all
  have w: "word_sub (of_nat ?to) (of_nat at) = Some (of_nat ?to - of_nat at :: u32)"
    "unat (of_nat ?to - of_nat at :: u32) = length (emit_tok t)"
    using u by (simp_all add: word_sub_def word_le_nat_alt unat_sub del: of_nat_add)
  have add: "u64_add (em_logical e) (length (emit_tok t)) = Some (length (text @ emit_tok t))"
    using n by (simp add: len u64_add_def admission_MAX_eq)
  define l where "l = length (text @ emit_tok t)"
  define run' where "run' = Some (of_nat at :: u32, of_nat ?to :: u32)"
  have v: "em_verbatim F input (of_nat at) (of_nat ?to) e =
    (case em_run e of
       Some (start, tail) \<Rightarrow>
         if tail = of_nat at then Some (e\<lparr>em_logical := l, em_run := Some (start, of_nat ?to)\<rparr>)
         else do { e \<leftarrow> em_flush F input (e\<lparr>em_logical := l\<rparr>); Some (e\<lparr>em_run := run'\<rparr>) }
     | None \<Rightarrow> Some (e\<lparr>em_logical := l, em_run := run'\<rparr>))"
    unfolding em_verbatim_def w(1) by (simp add: w(2) add l_def run'_def del: of_nat_add split: option.split)
  have fresh: "em_at F k input (text @ emit_tok t) ?to (e'\<lparr>em_run := run'\<rparr>)"
    if "em_told F k input text e'" "em_run e' = None" "em_logical e' = l" for e'
  proof -
    have "cv_run_ok at None" by (simp add: cv_run_ok_def)
    from run_extend(2,3) [OF this d i to] that have "cv_pending input run' = emit_tok t" "cv_run_ok ?to run'"
      by (simp_all add: run'_def cv_pending_def)
    with that n to i u show ?thesis
      by (auto simp: em_at_def em_told_def cv_pending_def [of input None] l_def em_run_ok_def run'_def cv_run_ok_def)
  qed
  show ?thesis
  proof (cases "em_run e")
    case None
    have "em_told F k input text (e\<lparr>em_logical := l\<rparr>)" using told by (simp add: em_told_def)
    from fresh [OF this] None show ?thesis by (simp add: v del: of_nat_add)
  next
    case (Some ab)
    then obtain a b where ab: "em_run e = Some (a, b)" by (cases ab) auto
    show ?thesis
    proof (cases "b = of_nat at")
      case True
      then have r: "cv_run_ok at (em_run e)" using k ab u by (simp add: cv_run_ok_def em_run_ok_def)
      from run_extend(2,3) [OF r d i to] ab have x: "cv_pending input (Some (a, of_nat ?to)) = cv_pending input (em_run e) @ emit_tok t"
        "cv_run_ok ?to (Some (a, of_nat ?to))" by simp_all
      from told obtain frags where f: "em_sink e = foldl F k frags" "concat frags @ cv_pending input (em_run e) = text"
        "em_written e = length (concat frags)" "[] \<notin> set frags" by (auto simp: em_told_def)
      have "em_told F k input (text @ emit_tok t) (e\<lparr>em_logical := l, em_run := Some (a, of_nat ?to)\<rparr>)"
        unfolding em_told_def using f by (intro exI [of _ frags]) (simp add: x(1) del: of_nat_add flip: f(2))
      then have "em_at F k input (text @ emit_tok t) ?to (e\<lparr>em_logical := l, em_run := Some (a, of_nat ?to)\<rparr>)"
        using x(2) n to i by (simp add: em_at_def l_def em_run_ok_def cv_run_ok_def del: of_nat_add)
      then show ?thesis using True by (simp add: v ab del: of_nat_add)
    next
      case False
      have "em_told F k input text (e\<lparr>em_logical := l\<rparr>)" "em_run_ok at (em_run (e\<lparr>em_logical := l\<rparr>))" "at \<le> length input" "length text \<le> admission_MAX"
        using told k e by (simp_all add: em_told_def em_at_def)
      from em_flush_told [OF this] obtain e' where
        e': "em_flush F input (e\<lparr>em_logical := l\<rparr>) = Some e'" "em_told F k input text e'" "em_run e' = None" "em_same (e\<lparr>em_logical := l\<rparr>) e'" by blast
      then have "em_logical e' = l" by (simp add: em_same_def)
      from fresh [OF e'(2,3) this] e' False show ?thesis by (simp add: v ab em_same_def del: of_nat_add)
    qed
  qed
qed

lemma em_enter_at:
  assumes e: "em_at F k input text at e" and led: "drop (em_cursor e) (em_ledger e) = body # L" and b: "body \<le> admission_MAX"
    and n: "length (text @ spell_head word @ spell_len body) \<le> admission_MAX" and to: "at \<le> at'" "at' \<le> length input"
  shows "\<exists>e'. em_enter F input word head e = Some e' \<and> em_at F k input (text @ spell_head word @ spell_len body) at' e' \<and>
    em_ledger e' = em_ledger e \<and> em_cursor e' = em_cursor e + 1 \<and> em_total e' = em_total e \<and>
    em_open e' = (length (text @ spell_head word @ spell_len body), body) # em_open e"
proof -
  have told: "em_told F k input text e" and k: "em_run_ok at (em_run e)" "at \<le> length input" "length text \<le> admission_MAX"
    and len: "em_logical e = length text" using e by (simp_all add: em_at_def)
  from em_flush_told [OF told k] obtain e1 where
    e1: "em_flush F input e = Some e1" "em_told F k input text e1" "em_run e1 = None" "em_same e e1" by blast
  have read: "cv_read (em_cursor e) (em_ledger e) = Some body"
    using led by (metis cv_read_def drop_all drop_eq_Nil list.distinct(1) not_le nth_via_drop)
  note u = spell_len_at [OF b]
  define l where "l = length (text @ spell_head word @ spell_len body)"
  have w: "encoded_len32 word = length (spell_head word)" "encoded_len32 (of_nat body) = length (spell_len body)"
    using u(2) by (simp_all add: length_spell_head)
  have adds: "u64_add (encoded_len32 word) (encoded_len32 (of_nat body)) = Some (length (spell_head word) + length (spell_len body))"
    "u64_add (length text) (length (spell_head word) + length (spell_len body)) = Some l"
    using n by (simp_all add: u64_add_def w l_def admission_MAX_eq)
  define e2 where "e2 = e1\<lparr>em_cursor := em_cursor e1 + 1, em_logical := l\<rparr>"
  have e2: "e1\<lparr>em_cursor := Suc (em_cursor e), em_logical := l\<rparr> = e2" using e1(4) by (simp add: e2_def em_same_def)
  have t2: "em_told F k input text e2" "em_run e2 = None" using e1 by (simp_all add: e2_def em_told_def)
  have h: "spell64 (ucast word) = spell_head word" "encoded_len64 (ucast word) = encoded_len32 word"
    by (simp_all add: spell_head_def encoded_len32_ucast)
  from hand_varint_told [OF t2, of "ucast word"] n obtain e3 where
    e3: "em_hand_varint F (ucast word) (encoded_len32 word) e2 = Some e3" "em_told F k input (text @ spell_head word) e3" "em_run e3 = None"
    "em_same e2 e3" unfolding h by auto
  have h': "spell64 (of_nat body) = spell_len body" "encoded_len64 (of_nat body) = encoded_len32 (of_nat body)"
    using w(2) by (simp_all add: spell_len_def)
  from hand_varint_told [OF e3(2,3), of "of_nat body"] n obtain e4 where
    e4: "em_hand_varint F (of_nat body) (encoded_len32 (of_nat body)) e3 = Some e4" "em_told F k input (text @ spell_head word @ spell_len body) e4"
    "em_run e4 = None" "em_same e3 e4" unfolding h' by auto
  have "em_enter F input word head e = Some (e4\<lparr>em_open := (em_logical e4, body) # em_open e4\<rparr>)"
    using e1 e3(1) e4(1) read adds e2 by (simp add: em_enter_def em_same_def len Let_def)
  moreover have "em_logical e4 = l" "em_open e4 = em_open e" "em_ledger e4 = em_ledger e" "em_cursor e4 = em_cursor e + 1" "em_total e4 = em_total e"
    using e1(4) e3(4) e4(4) by (simp_all add: em_same_def e2_def)
  moreover have "em_told F k input (text @ spell_head word @ spell_len body) (e4\<lparr>em_open := (em_logical e4, body) # em_open e4\<rparr>)"
    using e4(2) by (simp add: em_told_def)
  ultimately show ?thesis using e n to e4(3) by (simp add: em_at_def l_def em_run_ok_def)
qed

lemma em_exit_at:
  assumes "em_open e = (mark, expected) # rest" "em_logical e = mark + expected"
  shows "em_exit e = Some (e\<lparr>em_open := rest\<rparr>, Inr ())"
  by (simp add: em_exit_def assms)

section \<open>The pass over a forest\<close>

text \<open>Reading \<open>ts\<close>, the pass hands on \<open>doc\<close> and consumes the ledger's \<open>bodies\<close>.\<close>

definition em_does :: "('k \<Rightarrow> bytes \<Rightarrow> 'k) \<Rightarrow> 'k \<Rightarrow> bytes \<Rightarrow> token list \<Rightarrow> bytes \<Rightarrow> nat list \<Rightarrow> bool" where
  "em_does F k input ts doc bodies \<longleftrightarrow>
     (\<forall>text at e rest L n. em_at F k input text at e \<longrightarrow> drop at input = emit ts @ rest \<longrightarrow>
        drop (em_cursor e) (em_ledger e) = bodies @ L \<longrightarrow> length (text @ doc) \<le> admission_MAX \<longrightarrow>
        n + length bodies < 2 ^ 32 \<longrightarrow>
        (\<exists>e'. cv_steps (cv_walk_entry (cv_emitting F input)) at ts (\<lparr>cv_converted = n\<rparr>, e) =
             Some ((\<lparr>cv_converted = n + length bodies\<rparr>, e'), Inr ()) \<and>
           em_at F k input (text @ doc) (at + length (emit ts)) e' \<and>
           em_ledger e' = em_ledger e \<and> em_cursor e' = em_cursor e + length bodies \<and> em_total e' = em_total e \<and>
           em_open e' = em_open e))"

lemma em_doesD:
  assumes "em_does F k input ts doc bodies" "em_at F k input text at e" "drop at input = emit ts @ rest"
    "drop (em_cursor e) (em_ledger e) = bodies @ L" "length (text @ doc) \<le> admission_MAX" "n + length bodies < 2 ^ 32"
  obtains e' where "cv_steps (cv_walk_entry (cv_emitting F input)) at ts (\<lparr>cv_converted = n\<rparr>, e) =
             Some ((\<lparr>cv_converted = n + length bodies\<rparr>, e'), Inr ())"
    "em_at F k input (text @ doc) (at + length (emit ts)) e'"
    "em_ledger e' = em_ledger e" "em_cursor e' = em_cursor e + length bodies" "em_total e' = em_total e" "em_open e' = em_open e"
  using assms unfolding em_does_def by blast

lemma drop_on:
  assumes "drop at input = a @ b"
  shows "drop (at + length a) input = b"
proof -
  have "drop (at + length a) input = drop (length a) (drop at input)" by (simp add: add.commute)
  also have "\<dots> = b" unfolding assms by simp
  finally show ?thesis .
qed

lemma at_on:
  assumes "drop at input = a @ b" "at \<le> length input"
  shows "at + length a \<le> length input"
proof -
  have "length input - at = length a + length b" unfolding length_drop [symmetric] assms(1) by simp
  with assms(2) show ?thesis by simp
qed

lemma does_nil: "em_does F k input [] [] []"
  by (simp add: em_does_def)

lemma does_append:
  assumes "em_does F k input ts doc ls" "em_does F k input us doc' ls'"
  shows "em_does F k input (ts @ us) (doc @ doc') (ls @ ls')"
  unfolding em_does_def
proof (intro allI impI)
  fix said at e rest L and n :: nat
  assume e: "em_at F k input said at e" and d: "drop at input = emit (ts @ us) @ rest"
    and l: "drop (em_cursor e) (em_ledger e) = (ls @ ls') @ L" and c: "length (said @ doc @ doc') \<le> admission_MAX"
    and n: "n + length (ls @ ls') < 2 ^ 32"
  from d have d1: "drop at input = emit ts @ emit us @ rest" by simp
  from l have l1: "drop (em_cursor e) (em_ledger e) = ls @ ls' @ L" by simp
  have c1: "length (said @ doc) \<le> admission_MAX" "n + length ls < 2 ^ 32" using c n by simp_all
  from em_doesD [OF assms(1) e d1 l1 c1] obtain e1 where
    e1: "cv_steps (cv_walk_entry (cv_emitting F input)) at ts (\<lparr>cv_converted = n\<rparr>, e) = Some ((\<lparr>cv_converted = n + length ls\<rparr>, e1), Inr ())"
    "em_at F k input (said @ doc) (at + length (emit ts)) e1" "em_ledger e1 = em_ledger e" "em_cursor e1 = em_cursor e + length ls"
    "em_total e1 = em_total e" "em_open e1 = em_open e" .
  have l2: "drop (em_cursor e1) (em_ledger e1) = ls' @ L" unfolding e1(3,4) by (rule drop_on [OF l1])
  have c2: "length ((said @ doc) @ doc') \<le> admission_MAX" "n + length ls + length ls' < 2 ^ 32" using c n by simp_all
  from em_doesD [OF assms(2) e1(2) drop_on [OF d1] l2 c2] obtain e2 where
    e2: "cv_steps (cv_walk_entry (cv_emitting F input)) (at + length (emit ts)) us (\<lparr>cv_converted = n + length ls\<rparr>, e1) =
        Some ((\<lparr>cv_converted = n + length ls + length ls'\<rparr>, e2), Inr ())"
    "em_at F k input ((said @ doc) @ doc') (at + length (emit ts) + length (emit us)) e2" "em_ledger e2 = em_ledger e1"
    "em_cursor e2 = em_cursor e1 + length ls'" "em_total e2 = em_total e1" "em_open e2 = em_open e1" .
  show "\<exists>e'. cv_steps (cv_walk_entry (cv_emitting F input)) at (ts @ us) (\<lparr>cv_converted = n\<rparr>, e) =
             Some ((\<lparr>cv_converted = n + length (ls @ ls')\<rparr>, e'), Inr ()) \<and>
           em_at F k input (said @ doc @ doc') (at + length (emit (ts @ us))) e' \<and>
           em_ledger e' = em_ledger e \<and> em_cursor e' = em_cursor e + length (ls @ ls') \<and> em_total e' = em_total e \<and>
           em_open e' = em_open e"
    using e1(1,3-6) e2 by (intro exI [of _ e2]) (simp add: cv_steps_append add.assoc)
qed

lemma does_leaf:
  assumes "\<not> is_group (tk_payload t)"
  shows "em_does F k input [t] (emit_tok t) []"
  unfolding em_does_def
proof (intro allI impI)
  fix said at e rest L and n :: nat
  assume e: "em_at F k input said at e" and d: "drop at input = emit [t] @ rest" and c: "length (said @ emit_tok t) \<le> admission_MAX"
  from d have d1: "drop at input = emit_tok t @ rest" by simp
  have to: "at + length (emit_tok t) \<le> length input" using at_on [OF d1] e by (simp add: em_at_def)
  from em_verbatim_at [OF e d1 to c] obtain e' where
    e': "em_verbatim F input (of_nat at) (of_nat (at + length (emit_tok t))) e = Some e'"
    "em_at F k input (said @ emit_tok t) (at + length (emit_tok t)) e'" "em_ledger e' = em_ledger e" "em_cursor e' = em_cursor e"
    "em_total e' = em_total e" "em_open e' = em_open e" by blast
  have "cv_walk_entry (cv_emitting F input) (entry_of_gr t) (of_nat at) (of_nat (at + length (emit_tok t))) (\<lparr>cv_converted = n\<rparr>, e) =
    Some ((\<lparr>cv_converted = n\<rparr>, e'), Inr ())"
    unfolding cv_walk_entry_def Let_def prod.case leaf_kind [OF assms] using e'(1) by (simp add: cv_emitting_def)
  with e' show "\<exists>e'. cv_steps (cv_walk_entry (cv_emitting F input)) at [t] (\<lparr>cv_converted = n\<rparr>, e) =
             Some ((\<lparr>cv_converted = n + length ([] :: nat list)\<rparr>, e'), Inr ()) \<and>
           em_at F k input (said @ emit_tok t) (at + length (emit [t])) e' \<and>
           em_ledger e' = em_ledger e \<and> em_cursor e' = em_cursor e + length ([] :: nat list) \<and> em_total e' = em_total e \<and>
           em_open e' = em_open e"
    by (simp del: of_nat_add)
qed

lemma does_group:
  assumes "em_does F k input ts doc ls"
  shows "em_does F k input (Token f w PEnter # ts @ [Token f w' PExit]) (framed f doc) (length doc # ls)"
  unfolding em_does_def
proof (intro allI impI)
  fix said at e rest L and n :: nat
  let ?a = "Token f w PEnter" and ?b = "Token f w' PExit" and ?word = "wire_tag_word f 2"
  let ?H = "cv_walk_entry (cv_emitting F input)" and ?mid = "spell_head ?word @ spell_len (length doc)"
  assume e: "em_at F k input said at e" and d: "drop at input = emit (?a # ts @ [?b]) @ rest"
    and l: "drop (em_cursor e) (em_ledger e) = (length doc # ls) @ L" and c: "length (said @ framed f doc) \<le> admission_MAX"
    and n: "n + length (length doc # ls) < 2 ^ 32"
  from d have d1: "drop at input = emit_tok ?a @ emit ts @ emit_tok ?b @ rest" by simp
  note d2 = drop_on [OF d1] and d3 = drop_on [OF drop_on [OF d1]]
  have to: "at + length (emit_tok ?a) \<le> length input" using at_on [OF d1] e by (simp add: em_at_def)
  have c1: "length doc \<le> admission_MAX" "length (said @ ?mid) \<le> admission_MAX" "length ((said @ ?mid) @ doc) \<le> admission_MAX"
    using c by (simp_all add: framed_def)
  from em_enter_at [OF e, where head = "of_nat at" and word = ?word and body = "length doc" and at' = "at + length (emit_tok ?a)"] l c1 to obtain e1 where
    e1: "em_enter F input ?word (of_nat at) e = Some e1" "em_at F k input (said @ ?mid) (at + length (emit_tok ?a)) e1"
    "em_ledger e1 = em_ledger e" "em_cursor e1 = em_cursor e + 1" "em_total e1 = em_total e"
    "em_open e1 = (length (said @ ?mid), length doc) # em_open e" by auto
  have s1: "?H (entry_of_gr ?a) (of_nat at) (of_nat (at + length (emit_tok ?a))) (\<lparr>cv_converted = n\<rparr>, e) =
    Some ((\<lparr>cv_converted = n + 1\<rparr>, e1), Inr ())"
    using n e1(1) cv_count_Some [of n] by (simp add: cv_walk_entry_def cv_emitting_def head_word_gl_def)
  have l2: "drop (em_cursor e1) (em_ledger e1) = ls @ L" using drop_on [of "em_cursor e" "em_ledger e" "[length doc]"] l by (simp add: e1(3,4))
  have n2: "n + 1 + length ls < 2 ^ 32" using n by simp
  from em_doesD [OF assms e1(2) d2 l2 c1(3) n2] obtain e2 where
    e2: "cv_steps ?H (at + length (emit_tok ?a)) ts (\<lparr>cv_converted = n + 1\<rparr>, e1) = Some ((\<lparr>cv_converted = n + 1 + length ls\<rparr>, e2), Inr ())"
    "em_at F k input ((said @ ?mid) @ doc) (at + length (emit_tok ?a) + length (emit ts)) e2" "em_ledger e2 = em_ledger e1"
    "em_cursor e2 = em_cursor e1 + length ls" "em_total e2 = em_total e1" "em_open e2 = em_open e1" .
  have to3: "at + length (emit_tok ?a) + length (emit ts) + length (emit_tok ?b) \<le> length input"
    using at_on [OF d3] e2(2) by (simp add: em_at_def)
  have "em_exit e2 = Some (e2\<lparr>em_open := em_open e\<rparr>, Inr ())"
    by (rule em_exit_at [of e2 "length (said @ ?mid)" "length doc"]) (use e2(2) in \<open>simp_all add: e2(6) e1(6) em_at_def\<close>)
  then have s3: "?H (entry_of_gr ?b) (of_nat i) (of_nat j) (\<lparr>cv_converted = n + 1 + length ls\<rparr>, e2) =
    Some ((\<lparr>cv_converted = n + 1 + length ls\<rparr>, e2\<lparr>em_open := em_open e\<rparr>), Inr ())" for i j :: nat
    by (simp add: cv_walk_entry_def cv_emitting_def)
  have "em_at F k input (said @ framed f doc) (at + length (emit (?a # ts @ [?b]))) (e2\<lparr>em_open := em_open e\<rparr>)"
  proof -
    have t: "em_told F k input (said @ framed f doc) (e2\<lparr>em_open := em_open e\<rparr>)"
      using e2(2) by (simp add: em_at_def framed_def em_told_def)
    have "em_run_ok (at + length (emit (?a # ts @ [?b]))) (em_run e2)"
      by (rule em_run_ok_mono [of "at + length (emit_tok ?a) + length (emit ts)"]) (use e2(2) in \<open>simp_all add: em_at_def\<close>)
    with t e2(2) to3 show ?thesis by (simp add: em_at_def framed_def add.assoc)
  qed
  then show "\<exists>e'. cv_steps ?H at (?a # ts @ [?b]) (\<lparr>cv_converted = n\<rparr>, e) =
             Some ((\<lparr>cv_converted = n + length (length doc # ls)\<rparr>, e'), Inr ()) \<and>
           em_at F k input (said @ framed f doc) (at + length (emit (?a # ts @ [?b]))) e' \<and>
           em_ledger e' = em_ledger e \<and> em_cursor e' = em_cursor e + length (length doc # ls) \<and> em_total e' = em_total e \<and>
           em_open e' = em_open e"
    using e2(3-5) e1(3-5) unfolding cv_steps.simps s1 cv_try_simps cv_steps_append e2(1) s3
    by (intro exI [of _ "e2\<lparr>em_open := em_open e\<rparr>"]) (simp del: emit_tok.simps)
qed

lemma does_forest:
  "cv_plain x \<Longrightarrow> em_does F k input (cv_flat x) (cv_conv x) (cv_body x)"
  "cv_plains xs \<Longrightarrow> em_does F k input (cv_flats xs) (cv_convs xs) (cv_bodies xs)"
proof (induction x and xs rule: cv_flat_cv_flats.induct)
  case (1 t)
  then show ?case using does_leaf by simp
next
  case (2 f w w' body)
  then show ?case using does_group by simp
next
  case 3
  show ?case using does_nil by simp
next
  case (4 x xs)
  then show ?case using does_append by fastforce
qed

section \<open>The sink face\<close>

lemma emit_pass:
  assumes i: "length input \<le> admission_MAX" "input = emit (cv_flats fs)" and f: "cv_forest m (GroupDepth_from limit) fs"
    and c: "length (cv_convs fs) \<le> admission_MAX"
  obtains e where "cv_walk (cv_emitting F input) m input limit
      \<lparr>em_run = None, em_ledger = cv_bodies fs, em_cursor = 0, em_written = 0, em_total = length (cv_convs fs),
       em_logical = 0, em_open = [], em_sink = k\<rparr> = Some (e, Inr \<lparr>cv_converted = cv_groups fs\<rparr>)"
    "em_at F k input (cv_convs fs) (length input) e" "em_ledger e = cv_bodies fs" "em_cursor e = cv_groups fs"
    "em_total e = length (cv_convs fs)" "em_open e = []"
proof -
  let ?c = "cv_fresh input (GroupDepth_from limit)"
  let ?e = "\<lparr>em_run = None, em_ledger = cv_bodies fs, em_cursor = 0, em_written = 0, em_total = length (cv_convs fs),
       em_logical = 0, em_open = [], em_sink = k\<rparr>"
  have p: "cv_plains fs" using f deeps_plains by (auto simp: cv_forest_def)
  have l: "lawful_seq (lawful_gr m) adv_gr closed_gr ?c (cv_flats fs)" using f by (simp add: forest_lawful [OF p] cv_forest_def)
  have s: "suffix_gr ?c = emit (cv_flats fs)" using i(2) by (simp add: suffix_gr_def cv_fresh_def)
  have "em_told F k input [] ?e" unfolding em_told_def by (rule exI [of _ "[]"]) (simp add: cv_pending_def)
  then have e: "em_at F k input [] 0 ?e" using i(1) by (simp add: em_at_def em_run_ok_def)
  have d: "drop 0 input = emit (cv_flats fs) @ []" using i(2) by simp
  have led: "drop (em_cursor ?e) (em_ledger ?e) = cv_bodies fs @ []" by simp
  have "cv_groups fs \<le> length input" using groups_le(2) [of fs] f i(2) by (simp add: cv_forest_def)
  then have n: "0 + length (cv_bodies fs) < 2 ^ 32" using i(1) by (simp add: length_bodies admission_MAX_eq)
  have c0: "length ([] @ cv_convs fs) \<le> admission_MAX" using c by simp
  from em_doesD [OF does_forest(2) [OF p] e d led c0 n] obtain e' where
    e': "cv_steps (cv_walk_entry (cv_emitting F input)) 0 (cv_flats fs) (\<lparr>cv_converted = 0\<rparr>, ?e) =
      Some ((\<lparr>cv_converted = 0 + length (cv_bodies fs)\<rparr>, e'), Inr ())"
    "em_at F k input ([] @ cv_convs fs) (0 + length (emit (cv_flats fs))) e'" "em_ledger e' = em_ledger ?e"
    "em_cursor e' = em_cursor ?e + length (cv_bodies fs)" "em_total e' = em_total ?e" "em_open e' = em_open ?e" .
  have "cv_walk (cv_emitting F input) m input limit ?e = Some (e', Inr \<lparr>cv_converted = cv_groups fs\<rparr>)"
    using i(1) e'(1) cv_loop_tokens [OF l s, of "cv_walk_entry (cv_emitting F input)" "\<lambda>fault (stats, s). cv_refuse (cv_emitting F input) (cv_wire fault) s"
        "(\<lparr>cv_converted = 0\<rparr>, ?e)"]
    by (simp add: cv_walk_def fresh_over length_bodies) (simp add: cv_fresh_def)
  with e'(2-6) i(2) show thesis by (intro that) (simp_all add: length_bodies)
qed

lemma em_finish_at:
  assumes "em_at F k input doc (length input) e" "em_cursor e = length (em_ledger e)" "em_total e = length doc" "em_open e = []"
  obtains e' frags where "em_finish F input e = Some e'" "em_sink e' = foldl F k frags" "concat frags = doc" "[] \<notin> set frags"
proof -
  have a: "em_told F k input doc e" "em_run_ok (length input) (em_run e)" "length doc \<le> admission_MAX"
    using assms(1) by (simp_all add: em_at_def)
  from em_flush_told [OF a(1,2) order_refl a(3)] obtain e' where
    e': "em_flush F input e = Some e'" "em_told F k input doc e'" "em_run e' = None" "em_same e e'" by blast
  then obtain frags where f: "em_sink e' = foldl F k frags" "concat frags = doc" "em_written e' = length doc" "[] \<notin> set frags"
    by (auto simp: em_told_def cv_pending_def)
  have "em_finish F input e = Some e'" using e'(1,4) assms(2-4) f(3) by (simp add: em_finish_def em_same_def)
  with f show thesis by (intro that)
qed

lemma sink_run: "cv_convert_sink v input F k = cv_run_sink (cv_minimal v) input (cv_limit v) F k"
  by (cases "cv_standard v") (simp_all add: cv_convert_sink_def cv_minimal_def)

lemma plan_cap:
  "cv_plan_new input limit stats ledger whole =
     (if whole > admission_MAX then None
      else Some \<lparr>pl_input = input, pl_limit = limit, pl_stats = stats, pl_ledger = ledger, pl_total = whole\<rparr>)"
  by (simp add: cv_plan_new_def PayloadLen_MAX_def admission_MAX_eq)

lemma sink_accepts:
  assumes "length input \<le> admission_MAX" "input = emit (cv_flats fs)" "cv_forest (cv_minimal v) (GroupDepth_from (cv_limit v)) fs"
    "length (cv_convs fs) \<le> admission_MAX"
  obtains frags where "cv_convert_sink v input F k = Some (foldl F k frags, Inr \<lparr>cv_converted = cv_groups fs\<rparr>)"
    "concat frags = cv_convs fs" "[] \<notin> set frags"
proof -
  from measure_forest [OF assms(1,3,2,4)] obtain me where
    me: "cv_walk cv_measuring (cv_minimal v) input (cv_limit v) me_new = Some (me, Inr \<lparr>cv_converted = cv_groups fs\<rparr>)" "cv_gauged fs me" .
  from emit_pass [OF assms(1-4)] obtain e where
    e: "cv_walk (cv_emitting F input) (cv_minimal v) input (cv_limit v)
      \<lparr>em_run = None, em_ledger = cv_bodies fs, em_cursor = 0, em_written = 0, em_total = length (cv_convs fs),
       em_logical = 0, em_open = [], em_sink = k\<rparr> = Some (e, Inr \<lparr>cv_converted = cv_groups fs\<rparr>)"
    "em_at F k input (cv_convs fs) (length input) e" "em_ledger e = cv_bodies fs" "em_cursor e = cv_groups fs"
    "em_total e = length (cv_convs fs)" "em_open e = []" .
  have l: "em_cursor e = length (em_ledger e)" by (simp add: e(3,4) length_bodies)
  from em_finish_at [OF e(2) l e(5,6)] obtain e' frags where
    f: "em_finish F input e = Some e'" "em_sink e' = foldl F k frags" "concat frags = cv_convs fs" "[] \<notin> set frags" .
  have "cv_convert_sink v input F k = Some (foldl F k frags, Inr \<lparr>cv_converted = cv_groups fs\<rparr>)"
    using me assms(4) e(1) f(1,2) by (simp add: sink_run cv_run_sink_def cv_gauged_def plan_cap)
  with f(3,4) show thesis by (intro that)
qed

lemma sink_refuses:
  assumes "\<nexists>fs. length input \<le> admission_MAX \<and> input = emit (cv_flats fs) \<and> cv_forest (cv_minimal v) (GroupDepth_from (cv_limit v)) fs \<and>
    length (cv_convs fs) \<le> admission_MAX"
  shows "\<exists>f. cv_convert_sink v input F k = Some (k, Inl f)"
proof (cases "length input \<le> admission_MAX")
  case False
  then show ?thesis by (simp add: sink_run cv_run_sink_def cv_walk_def fresh_over cv_measuring_def)
next
  case True
  obtain me x where x: "cv_walk cv_measuring (cv_minimal v) input (cv_limit v) me_new = Some (me, x)" by (rule measure_returns [OF True])
  show ?thesis
  proof (cases x)
    case (Inl f)
    with x show ?thesis by (simp add: sink_run cv_run_sink_def)
  next
    case (Inr stats)
    with x have "cv_walk cv_measuring (cv_minimal v) input (cv_limit v) me_new = Some (me, Inr stats)" by simp
    from measure_clean [OF True this] obtain fs where fs: "cv_forest (cv_minimal v) (GroupDepth_from (cv_limit v)) fs"
      "input = emit (cv_flats fs)" "cv_gauged fs me" "stats = \<lparr>cv_converted = cv_groups fs\<rparr>" .
    with assms True have "length (cv_convs fs) > admission_MAX" by (auto simp: not_le)
    with x Inr fs(3) show ?thesis by (simp add: sink_run cv_run_sink_def cv_gauged_def plan_cap)
  qed
qed

text \<open>C2: The sink face always returns, whatever the caller's sink does with what it is handed. On success it has handed nonempty
  fragments that are, one after another, exactly the document the owning face returns, with the same statistics; on a fault it has handed
  nothing, and the owning face faults too.\<close>

theorem convert_sink_agrees:
  "\<exists>k' x. cv_convert_sink v input F k = Some (k', x) \<and>
     (case x of
        Inr stats \<Rightarrow> (\<exists>frags. k' = foldl F k frags \<and> [] \<notin> set frags \<and> cv_convert v input = Some (Inr (concat frags, stats)))
      | Inl _ \<Rightarrow> k' = k \<and> (\<exists>f. cv_convert v input = Some (Inl f)))"
proof (cases "\<exists>fs. length input \<le> admission_MAX \<and> input = emit (cv_flats fs) \<and> cv_forest (cv_minimal v) (GroupDepth_from (cv_limit v)) fs \<and>
    length (cv_convs fs) \<le> admission_MAX")
  case True
  then obtain fs where fs: "length input \<le> admission_MAX" "input = emit (cv_flats fs)" "cv_forest (cv_minimal v) (GroupDepth_from (cv_limit v)) fs"
    "length (cv_convs fs) \<le> admission_MAX" by blast
  from sink_accepts [OF this] obtain frags where
    f: "cv_convert_sink v input F k = Some (foldl F k frags, Inr \<lparr>cv_converted = cv_groups fs\<rparr>)" "concat frags = cv_convs fs" "[] \<notin> set frags" .
  have "cv_convert v input = Some (Inr (concat frags, \<lparr>cv_converted = cv_groups fs\<rparr>))"
    unfolding converted_iff f(2) using fs by auto
  with f show ?thesis by auto
next
  case False
  obtain out' x where x: "cv_convert_into v input [] = Some (out', x)" by (rule into_returns [OF vec_fits_Nil])
  then have v: "cv_convert v input = Some (map_sum id (\<lambda>stats. (out', stats)) x)" by (simp add: cv_convert_def)
  have "x \<noteq> Inr stats" for stats
  proof
    assume "x = Inr stats"
    with v have "cv_convert v input = Some (Inr (out', stats))" by simp
    then show False using False unfolding converted_iff by auto
  qed
  then obtain f where "x = Inl f" by (cases x) auto
  with v have "cv_convert v input = Some (Inl f)" by simp
  with sink_refuses [OF False, of F k] show ?thesis by auto
qed

end
