(* ===== verification/Spec2Isabelle.thy ===== *)
theory Spec2Isabelle
  imports Scalar Carry Cursor_Grouped Cursor_Groupless Packed Matcher Validate_Groupless Language_Grouped
    Select_Grouped Select_Groupless Construct_Built Convert_Emit
begin

text \<open>
  A model of the reading core and the value-side builders of \<open>protobuf_edit\<close>, a low-level, schema-less protobuf library.

  The crate is layered, and the theories follow its layers (paths under \<open>src/src/\<close>).

    \<^item> \<open>Prelude\<close>: type names, lists as memory, words; no code of the crate.
    \<^item> \<open>Wire\<close>: \<open>wire.rs\<close>, \<open>wire/grouped.rs\<close>, \<open>wire/groupless.rs\<close>: field numbers, length and code
      classes, tag words, the two dialect tables.
    \<^item> \<open>Varint_Spec\<close>: what a varint is; no code. \<open>Varint\<close>: \<open>varint.rs\<close>: widths, writers, zigzag.
    \<^item> \<open>Slice\<close>: \<open>varint/slice.rs\<close>: the reading faces over a buffered extent.
    \<^item> \<open>Carry\<close>: \<open>varint/carry.rs\<close>: the resumable reader over chunks.
    \<^item> \<open>Scalar\<close>: \<open>scalar.rs\<close>. \<open>Admission\<close>: \<open>admission.rs\<close>. \<open>Vocab\<close>: the shared vocabulary of \<open>lib.rs\<close>
      and \<open>cursor.rs\<close>, little-endian loads.
    \<^item> \<open>Grammar\<close>: the wire grammar (tokens, spelling, lawfulness, group discipline); no code.
      \<open>Walk\<close>: the consumer's loop over a cursor, with the contract \<open>token_cursor\<close>.
    \<^item> \<open>Cursor_Grouped\<close>, \<open>Cursor_Groupless\<close>: \<open>cursor/grouped.rs\<close>, \<open>cursor/groupless.rs\<close>, with their
      canonical twins. \<open>Packed\<close>: \<open>traverse/packed.rs\<close>.
    \<^item> \<open>Path\<close>, \<open>Gaps\<close>, \<open>Matcher\<close>: \<open>path.rs\<close>: path programs and their admission, the gap store, the
      compiled matcher.
    \<^item> \<open>Turn\<close>: the loop every streaming machine drives over a chunk, and what makes its chunk boundaries
      invisible. \<open>Pump\<close>: \<open>pump.rs\<close>. \<open>Reading\<close>: what the pumps read where no construct is in flight; no code.
    \<^item> \<open>Scan\<close>: the vocabulary of \<open>scan.rs\<close>. \<open>Scan_Groupless\<close>: the faults and the \<open>Validator\<close> of
      \<open>scan/groupless.rs\<close>; \<open>Validate_Groupless\<close>: its language.
    \<^item> \<open>Pumping\<close>: what the sink-driving scanners share over a pump; no code. \<open>Scan_Grouped\<close>: the faults, the
      \<open>Sink\<close>, the \<open>Parser\<close> and the \<open>Validator\<close> of \<open>scan/grouped.rs\<close>. \<open>Drive_Grouped\<close>: the parser keeps its
      invariant and owes the loop its turns. \<open>Session_Grouped\<close>: whole sessions return and do not depend on the
      cuts. \<open>Stream_Grouped\<close>: the token-level meaning of a stream and a sink, and its equivalence with the
      loop. \<open>Language_Grouped\<close>: what sessions of the parser and the validator accept, and what ends them.

    \<^item> \<open>Select\<close>: what \<open>select.rs\<close> shares, with the \<open>Span\<close> of \<open>lib.rs\<close>. \<open>Select_Grouped\<close>, \<open>Select_Groupless\<close>:
      \<open>select/grouped.rs\<close>, \<open>select/groupless.rs\<close>: the iterators over the selected records of a document.
    \<^item> \<open>Construct\<close>: the machinery of \<open>construct.rs\<close>: account, staged bytes, events, frames, emission;
      \<open>Construct_Faces\<close>: its faces and those of \<open>construct/grouped.rs\<close> and \<open>construct/groupless.rs\<close>.
      \<open>Construct_Exact\<close>: what an operation does to any core (locale \<open>event_machine\<close>); \<open>Construct_Emit\<close>: the two
      cores, and what emission writes; \<open>Construct_Client\<close>: programs on the builders and the documents they
      describe (no code of the crate); \<open>Construct_Built\<close>: the builders' properties.
    \<^item> \<open>Convert_Groupless\<close>: \<open>convert/groupless.rs\<close>, the converter that re-frames every group of a grouped document as a
      length-delimited record: the walk, the online emitter of the Vec faces, the measuring and emit passes of the sink
      face. \<open>Convert_Walk\<close>: its loop, token by token; \<open>Convert_Forest\<close>: what conversion means, and the contract of a
      consumer proved against it (no code of the crate); \<open>Convert_Online\<close>: the online emitter; \<open>Convert_Into\<close>: the Vec
      faces; \<open>Convert_Sink\<close>: the measuring pass; \<open>Convert_Emit\<close>: the emit pass and the sink face.

  Data. A struct is a record, an enum a datatype, an integer a word of its width; the range types of
  the \<open>_macro\<close> module whose range is a power of two are words of that many bits. Offsets into slices
  (\<open>usize\<close>) are natural numbers; a subtraction that could go below zero is \<open>usub\<close>. A \<open>Result\<close> is a sum,
  its error on the left. An operation that may panic, or has a precondition whose breach is undefined
  behaviour (unchecked indexing, raw loads), answers an option, and \<open>None\<close> is the panic or the breach:
  the theorems that an operation returns therefore exclude both. The target is 64-bit; running out of memory is not modelled,
  and the limit of a vector's capacity only where the crate documents it (the converter's buffer).

  Loops are recursions over a measure or over the list; only the consumer's loop \<open>walk\<close>, the machines'
  \<open>drive_loop\<close>, the converter's \<open>cv_loop\<close> and the selections' steps are partial functions, and their termination is proved. No fuel is used anywhere.

  Interfaces. \<open>varint_face\<close> is what the readers promise the cursors; \<open>suspending\<close> what a resumable
  reader promises its stream; \<open>pumping\<close> what a state that holds a pump must offer its operations; \<open>token_cursor\<close> what an iterator over a document promises its consumer;
  \<open>gap_store\<close> what the gap tables promise the matcher; \<open>word_reader\<close> what a resumable reader promises the
  pumps, \<open>spelled\<close> what it reads from scratch; \<open>turning\<close> and \<open>feeding\<close> what a machine's turn and feed promise the
  owner of the chunks; \<open>batches\<close> what an iterator that hands out pending hits promises its consumer; \<open>event_machine\<close> what the events of
  a builder's core promise its operations; \<open>entry_consumer\<close> what a consumer of a cursor's entries keeps, so that its loop returns,
  and \<open>site_consumer\<close>, which gives it, what ties a converter's pass to the forest read so far. Each is interpreted on the code's model.

  What is shown. The readers accept exactly the varint constructs of their class and round-trip with
  the writers; a value cut at any place is read as if it were not; the cursors accept exactly the wire
  grammar of their dialect under their standard, always return, end, and stay ended; a fault's coordinate
  is inside the input, and the grouped cursor's is where the refused construct begins; program admission is exactly its specification; the matcher, whatever walk reached it,
  selects and routes exactly as the paths accept the trail, and leaving a container restores it.

  The stream validators, whatever chunks they are fed, accept exactly the grammar of their dialect, and so agree
  with the cursors; the grouped parser, for every sink, returns and delivers to the sink exactly the events
  of the token-level meaning.

  The selections return, and hand out exactly the records whose trail a path accepts, through every payload and
  group a path may select below, in wire order, within one bound on nesting; their faults name a place in the document
  and the payloads around it.

  The builders, whatever program runs on them, return, and finish with exactly the document the program
  describes, or over-cap when it is longer than the format's cap; sharing payloads, pricing ahead and emitting
  in fragments do not change the document; and the canonical cursors read the pushed records back.

  The converter, on every input (and, for the reuse face, every buffer that leaves a vector room), returns; it succeeds exactly on lawful grouped documents within its depth limit whose converted form fits,
  answers that form, which is a groupless document, and its three faces agree; a refusal leaves the caller's buffer or
  sink as it was and names the cursor's fault, at its coordinate and by its kind, or the length that does not fit.

  Not modelled: the groupless sink's scanner, routing and transcoding over the scanners, the other writers (conversion to groups, splicing, rewriting, in-place editing), the
  inspectors and the editors. \<open>Display\<close> and \<open>Debug\<close> impls are formatting only.
\<close>

section \<open>Properties\<close>

text \<open>C20: The buffered and the streaming readers agree. A document the grouped cursor admits is walked to a clean end (by
  the twin of the standard) if and only if the stream validator of that standard and depth limit accepts it, in whatever
  chunks it is fed.\<close>

theorem validator_cursor_agree_gr:
  assumes "cursor_over_gr (concat chunks) (GroupDepth_from depth) = Inr c"
  shows "va_session_gr standard depth chunks = Some (length (concat chunks), Inr ()) \<longleftrightarrow>
    (\<exists>es c'. walk (step_gr (standard = CanonicalMinimal)) c = Some (es, None, c'))"
proof -
  let ?x = "concat chunks"
  have c: "cur_at_gr c = 0" "cur_opens_gr c = []" "cur_data_gr c = ?x" "unat (cur_limit_gr c) = unat depth"
    and l: "length ?x < u64_max"
    using assms by (auto simp: cursor_over_gr_def GroupDepth_from_def admission_MAX_eq u64_max_def split: if_splits)
  show ?thesis
    unfolding va_session_accepts_gr [OF l] fresh_walk_gr [OF c(1,2)] c(3,4) lawful_toks by blast
qed

lemma validator_cursor_agree_gr_witness:
  "\<exists>c. cursor_over_gr (concat [[0x0B], [0x0C]]) (GroupDepth_from 100) = Inr c \<and>
     (va_session_gr Tolerant 100 [[0x0B], [0x0C]] = Some (length (concat [[0x0B], [0x0C]] :: bytes), Inr ()) \<longleftrightarrow>
      (\<exists>es c'. walk (step_gr (Tolerant = CanonicalMinimal)) c = Some (es, None, c')))"
proof -
  obtain c where c: "cursor_over_gr (concat [[0x0B], [0x0C]]) (GroupDepth_from 100) = Inr c"
    by (simp add: cursor_over_gr_def admission_MAX_eq)
  from validator_cursor_agree_gr [OF c, of Tolerant] c show ?thesis by blast
qed

text \<open>C25: So do the groupless ones.\<close>

theorem validator_cursor_agree_gl:
  assumes "cursor_over_gl (concat chunks) = Inr c"
  shows "va_session standard chunks = Some (length (concat chunks), Inr ()) \<longleftrightarrow>
    (\<exists>es c'. walk (step_gl (standard = CanonicalMinimal)) c = Some (es, None, c'))"
proof -
  let ?x = "concat chunks"
  have c: "cur_at_gl c = 0" "cur_data_gl c = ?x" and l: "length ?x < u64_max"
    using assms by (auto simp: cursor_over_gl_def admission_MAX_eq u64_max_def split: if_splits)
  show ?thesis
    unfolding va_session_lawful [OF l] fresh_walk_gl [OF c(1)] c(2) by blast
qed

lemma validator_cursor_agree_gl_witness:
  "\<exists>c. cursor_over_gl (concat [[0x08], [0x01]]) = Inr c \<and>
     (va_session Tolerant [[0x08], [0x01]] = Some (length (concat [[0x08], [0x01]] :: bytes), Inr ()) \<longleftrightarrow>
      (\<exists>es c'. walk (step_gl (Tolerant = CanonicalMinimal)) c = Some (es, None, c')))"
proof -
  obtain c where c: "cursor_over_gl (concat [[0x08], [0x01]]) = Inr c"
    by (simp add: cursor_over_gl_def admission_MAX_eq)
  from validator_cursor_agree_gl [OF c, of Tolerant] c show ?thesis by blast
qed

end
